(* ===== verification/Prelude.thy ===== *)
theory Prelude
  imports Main "HOL-Library.Word" "HOL-Library.AList"
begin

text \<open>
  What every component of the development shares: the exceptions of the C++ code as a
  datatype, the state-and-exception computations every method with side effects is
  translated to, the weakest-precondition calculus the functional-correctness proofs run
  on, \<open>std::to_string\<close>, and the little-endian byte images that \<open>memcpy\<close> of an integer
  leaves in a buffer.
\<close>

section \<open>Lemma collections\<close>

named_theorems op_simps \<open>equations of the state-and-exception combinators\<close>
named_theorems wp_intros \<open>weakest-precondition rules of the operations\<close>
named_theorems size_defs \<open>the size constants of the storage layer\<close>

section \<open>Exceptions\<close>

text \<open>
  One constructor per exception class the sources throw. \<open>Undefined_behaviour\<close> is a read
  outside an allocated buffer, \<open>Nontermination\<close> a loop that makes no progress and has no
  other exit; neither is a C++ exception, and the theorems show where they cannot happen.
\<close>

datatype error =
    Runtime_error string
  | Logic_error string
  | Length_error string
  | Out_of_range string
  | Invalid_argument string
  | Undefined_behaviour
  | Nontermination

section \<open>Computations with state and exceptions\<close>

text \<open>
  A method that reads and writes the object it is called on, and may throw, is a function
  from the object to the outcome and the object afterwards. The state survives an exception,
  as the C++ object does: what was written before the throw stays written.
\<close>

type_synonym ('s, 'a) op = "'s \<Rightarrow> (error + 'a) \<times> 's"

definition ret :: "'a \<Rightarrow> ('s, 'a) op" where
  "ret x s = (Inr x, s)"

definition throw :: "error \<Rightarrow> ('s, 'a) op" where
  "throw e s = (Inl e, s)"

definition bnd :: "('s, 'a) op \<Rightarrow> ('a \<Rightarrow> ('s, 'b) op) \<Rightarrow> ('s, 'b) op" where
  "bnd m f s = (case m s of (Inl e, s') \<Rightarrow> (Inl e, s') | (Inr x, s') \<Rightarrow> f x s')"

definition andthen :: "('s, 'a) op \<Rightarrow> ('s, 'b) op \<Rightarrow> ('s, 'b) op" where
  "andthen m n = bnd m (\<lambda>_. n)"

definition gets :: "('s \<Rightarrow> 'a) \<Rightarrow> ('s, 'a) op" where
  "gets f s = (Inr (f s), s)"

definition modify :: "('s \<Rightarrow> 's) \<Rightarrow> ('s, unit) op" where
  "modify f s = (Inr (), f s)"

definition throw_if :: "bool \<Rightarrow> error \<Rightarrow> ('s, unit) op" where
  "throw_if b e = (if b then throw e else ret ())"

definition when_op :: "bool \<Rightarrow> ('s, unit) op \<Rightarrow> ('s, unit) op" where
  "when_op b m = (if b then m else ret ())"

definition of_sum :: "error + 'a \<Rightarrow> ('s, 'a) op" where
  "of_sum r s = (r, s)"

fun for_each :: "('a \<Rightarrow> ('s, unit) op) \<Rightarrow> 'a list \<Rightarrow> ('s, unit) op" where
  "for_each f [] = ret ()"
| "for_each f (x # xs) = andthen (f x) (for_each f xs)"

fun map_op :: "('a \<Rightarrow> ('s, 'b) op) \<Rightarrow> 'a list \<Rightarrow> ('s, 'b list) op" where
  "map_op f [] = ret []"
| "map_op f (x # xs) = bnd (f x) (\<lambda>y. bnd (map_op f xs) (\<lambda>ys. ret (y # ys)))"

text \<open>A method call on a member object: run it on the member, store the member back.\<close>

definition zoom :: "('s \<Rightarrow> 't) \<Rightarrow> ('t \<Rightarrow> 's \<Rightarrow> 's) \<Rightarrow> ('t, 'a) op \<Rightarrow> ('s, 'a) op" where
  "zoom get put m s = (case m (get s) of (r, t) \<Rightarrow> (r, put t s))"

text \<open>A computation without a state that may throw: the value of a \<open>const\<close> function.\<close>

definition sum_bind :: "error + 'a \<Rightarrow> ('a \<Rightarrow> error + 'b) \<Rightarrow> error + 'b" where
  "sum_bind r f = (case r of Inl e \<Rightarrow> Inl e | Inr x \<Rightarrow> f x)"

lemma sum_bind_simps [simp]: "sum_bind (Inl e) f = Inl e" "sum_bind (Inr x) f = f x"
  by (simp_all add: sum_bind_def)

lemma sum_bind_Inr: "sum_bind r f = Inr y \<longleftrightarrow> (\<exists>x. r = Inr x \<and> f x = Inr y)"
  by (cases r) auto

declare
  ret_def [op_simps] throw_def [op_simps] bnd_def [op_simps] andthen_def [op_simps]
  gets_def [op_simps] modify_def [op_simps] throw_if_def [op_simps] when_op_def [op_simps]
  of_sum_def [op_simps] zoom_def [op_simps]

lemma bnd_ret [simp]: "bnd (ret x) f = f x"
  by (rule ext) (simp add: op_simps)

lemma bnd_throw [simp]: "bnd (throw e) f = throw e"
  by (rule ext) (simp add: op_simps)

lemma bnd_assoc: "bnd (bnd m f) g = bnd m (\<lambda>x. bnd (f x) g)"
  by (rule ext) (auto simp: bnd_def split: prod.splits sum.splits)

lemma andthen_ret [simp]: "andthen (ret x) n = n"
  by (simp add: andthen_def)

section \<open>Weakest preconditions\<close>

text \<open>
  \<open>wp E m Q s\<close>: started in \<open>s\<close>, the computation either returns a value and a state that
  satisfy \<open>Q\<close>, or throws an exception that \<open>E\<close> permits. With \<open>E\<close> the empty predicate this
  is total correctness: the computation returns.
\<close>

definition wp :: "(error \<Rightarrow> bool) \<Rightarrow> ('s, 'a) op \<Rightarrow> ('a \<Rightarrow> 's \<Rightarrow> bool) \<Rightarrow> 's \<Rightarrow> bool" where
  "wp E m Q s = (case m s of (Inl e, s') \<Rightarrow> E e | (Inr x, s') \<Rightarrow> Q x s')"

abbreviation never :: "error \<Rightarrow> bool" where
  "never \<equiv> \<lambda>_. False"

lemma wp_ret [simp]: "wp E (ret x) Q s = Q x s"
  by (simp add: wp_def ret_def)

lemma wp_throw [simp]: "wp E (throw e) Q s = E e"
  by (simp add: wp_def throw_def)

lemma wp_bnd [simp]: "wp E (bnd m f) Q s = wp E m (\<lambda>x s'. wp E (f x) Q s') s"
  by (auto simp: wp_def bnd_def split: prod.splits sum.splits)

lemma wp_andthen [simp]: "wp E (andthen m n) Q s = wp E m (\<lambda>_ s'. wp E n Q s') s"
  by (simp add: andthen_def)

lemma wp_gets [simp]: "wp E (gets f) Q s = Q (f s) s"
  by (simp add: wp_def gets_def)

lemma wp_modify [simp]: "wp E (modify f) Q s = Q () (f s)"
  by (simp add: wp_def modify_def)

lemma wp_throw_if [simp]: "wp E (throw_if b e) Q s = (if b then E e else Q () s)"
  by (simp add: throw_if_def)

lemma wp_when_op [simp]: "wp E (when_op b m) Q s = (if b then wp E m Q s else Q () s)"
  by (simp add: when_op_def)

lemma wp_of_sum [simp]: "wp E (of_sum (Inr x)) Q s = Q x s" "wp E (of_sum (Inl e)) Q s = E e"
  by (simp_all add: wp_def of_sum_def)

lemma wp_mono:
  assumes "wp E m Q s" and "\<And>x s'. Q x s' \<Longrightarrow> R x s'"
  shows "wp E m R s"
  using assms by (auto simp: wp_def split: prod.splits sum.splits)

lemma wp_mono_err:
  assumes "wp E m Q s" and "\<And>x s'. Q x s' \<Longrightarrow> R x s'" and "\<And>e. E e \<Longrightarrow> F e"
  shows "wp F m R s"
  using assms by (auto simp: wp_def split: prod.splits sum.splits)

lemma wp_never_iff: "wp never m Q s \<longleftrightarrow> (\<exists>x s'. m s = (Inr x, s') \<and> Q x s')"
  by (auto simp: wp_def split: prod.splits sum.splits)

lemma wp_returns: "m s = (Inr x, s') \<Longrightarrow> wp E m Q s = Q x s'"
  by (simp add: wp_def)

section \<open>Decimal output\<close>

text \<open>\<open>std::to_string\<close> of an unsigned number.\<close>

fun nat_str :: "nat \<Rightarrow> string" where
  "nat_str n = (if n < 10 then [char_of (48 + n)]
                else nat_str (n div 10) @ [char_of (48 + n mod 10)])"

declare nat_str.simps [simp del]

section \<open>Bytes\<close>

type_synonym byte = "8 word"

definition byte_of_char :: "char \<Rightarrow> byte" where
  "byte_of_char c = word_of_nat (of_char c)"

definition char_of_byte :: "byte \<Rightarrow> char" where
  "char_of_byte b = char_of (unat b)"

lemma unat_byte_of_char: "unat (byte_of_char c) = of_char c"
  by (simp add: byte_of_char_def unat_of_nat)

lemma char_of_byte_of_char [simp]: "char_of_byte (byte_of_char c) = c"
  by (simp add: char_of_byte_def unat_byte_of_char)

lemma map_char_of_byte_of_char [simp]: "map char_of_byte (map byte_of_char s) = s"
  by (induction s) simp_all

lemma byte_of_char_inject [simp]: "byte_of_char c = byte_of_char d \<longleftrightarrow> c = d"
  by (metis char_of_byte_of_char)

text \<open>
  \<open>le_bytes n k\<close> is the object representation of the \<open>n\<close>-byte unsigned integer \<open>k\<close> on the
  little-endian target: what \<open>memcpy\<close> or \<open>write_pod\<close> of it copies. The value is reduced
  modulo \<open>2 ^ (8 * n)\<close>, as storing it in the narrower type does.
\<close>

fun le_bytes :: "nat \<Rightarrow> nat \<Rightarrow> byte list" where
  "le_bytes 0 k = []"
| "le_bytes (Suc n) k = word_of_nat k # le_bytes n (k div 256)"

fun le_val :: "byte list \<Rightarrow> nat" where
  "le_val [] = 0"
| "le_val (b # bs) = unat b + 256 * le_val bs"

lemma length_le_bytes [simp]: "length (le_bytes n k) = n"
  by (induction n arbitrary: k) simp_all

lemma unat_byte_of_nat: "unat (word_of_nat k :: byte) = k mod 256"
  by (simp add: unat_of_nat)

lemma le_val_le_bytes: "le_val (le_bytes n k) = k mod 256 ^ n"
proof (induction n arbitrary: k)
  case 0
  then show ?case by simp
next
  case (Suc n)
  have "k mod (256 * 256 ^ n) = 256 * (k div 256 mod 256 ^ n) + k mod 256"
    by (rule mod_mult2_eq)
  with Suc show ?case by (simp add: unat_byte_of_nat add.commute)
qed

lemma le_val_le_bytes_small [simp]: "k < 256 ^ n \<Longrightarrow> le_val (le_bytes n k) = k"
  by (simp add: le_val_le_bytes)

lemma unat_byte_less: "unat (b :: byte) < 256"
  using unsigned_less [of b, where 'a = nat] by simp

lemma le_val_bound: "le_val bs < 256 ^ length bs"
proof (induction bs)
  case Nil
  then show ?case by simp
next
  case (Cons b bs)
  have "unat b < 256" by (rule unat_byte_less)
  with Cons show ?case by simp
qed

lemma le_bytes_le_val: "le_bytes (length bs) (le_val bs) = bs"
proof (induction bs)
  case Nil
  then show ?case by simp
next
  case (Cons b bs)
  have b: "unat b < 256" by (rule unat_byte_less)
  have "word_of_nat (unat b + 256 * le_val bs) = b"
  proof -
    have "unat (word_of_nat (unat b + 256 * le_val bs) :: byte) = unat b"
      using b by (simp only: unat_byte_of_nat) simp
    then show ?thesis by (rule unsigned_word_eqI)
  qed
  with Cons b show ?case by simp
qed

lemma le_bytes_inject:
  "a < 256 ^ n \<Longrightarrow> b < 256 ^ n \<Longrightarrow> le_bytes n a = le_bytes n b \<longleftrightarrow> a = b"
  by (metis le_val_le_bytes_small)

section \<open>Buffers\<close>

text \<open>
  \<open>poke off bs raw\<close> is \<open>memcpy(raw + off, bs, n)\<close>, \<open>peek off n raw\<close> reads \<open>n\<close> bytes; a read
  that leaves the buffer is undefined behaviour, which the caller's model makes an error.
\<close>

definition poke :: "nat \<Rightarrow> 'a list \<Rightarrow> 'a list \<Rightarrow> 'a list" where
  "poke off bs raw = take off raw @ bs @ drop (off + length bs) raw"

definition peek :: "nat \<Rightarrow> nat \<Rightarrow> 'a list \<Rightarrow> 'a list" where
  "peek off n raw = take n (drop off raw)"

lemma length_poke [simp]:
  "off + length bs \<le> length raw \<Longrightarrow> length (poke off bs raw) = length raw"
  by (simp add: poke_def)

lemma peek_poke_same [simp]:
  "off \<le> length raw \<Longrightarrow> peek off (length bs) (poke off bs raw) = bs"
  by (simp add: poke_def peek_def)

lemma length_peek [simp]: "off + n \<le> length raw \<Longrightarrow> length (peek off n raw) = n"
  by (simp add: peek_def)

lemma poke_replicate:
  assumes "length pre = off" and "length bs \<le> k"
  shows "poke off bs (pre @ replicate k z) = pre @ bs @ replicate (k - length bs) z"
  using assms by (simp add: poke_def)

section \<open>Lists\<close>

lemma distinct_butlast_last: "xs \<noteq> [] \<Longrightarrow> distinct xs \<Longrightarrow> last xs \<notin> set (butlast xs)"
  by (metis append_butlast_last_id distinct_append disjoint_insert(1) list.simps(15))

lemma set_butlast_distinct: "xs \<noteq> [] \<Longrightarrow> distinct xs \<Longrightarrow> set (butlast xs) = set xs - {last xs}"
proof -
  assume ne: "xs \<noteq> []" and d: "distinct xs"
  then have "set xs = insert (last xs) (set (butlast xs))"
    by (metis Un_insert_right append_butlast_last_id empty_set list.simps(15) set_append sup_bot.right_neutral)
  with distinct_butlast_last [OF ne d] show ?thesis by blast
qed

end
