(* ===== verification/FileStream.thy ===== *)
theory FileStream
  imports Prelude
begin

text \<open>
  What the sources use of \<open>std::fstream\<close> in binary mode: a file's bytes, whether the stream
  is open, and its fail state. A read past the end of the file and a failed device operation
  set the fail state; from then on every seek, read and write fails, because nothing in the
  sources calls \<open>clear()\<close> on an open stream.

  The device is not perfect: \<open>st_faults\<close> says what the next operations meet. An empty list
  means they all succeed; a head \<open>None\<close> means the next one succeeds, \<open>Some k\<close> that it fails,
  a failing write having transferred only its first \<open>k\<close> bytes.
\<close>

record stream =
  st_open :: bool
  st_good :: bool
  st_file :: "byte list"
  st_faults :: "nat option list"

definition closed_stream :: "byte list \<Rightarrow> nat option list \<Rightarrow> stream" where
  "closed_stream file faults =
     \<lparr>st_open = False, st_good = True, st_file = file, st_faults = faults\<rparr>"

definition next_fault :: "stream \<Rightarrow> nat option" where
  "next_fault st = (case st_faults st of [] \<Rightarrow> None | f # _ \<Rightarrow> f)"

definition tick :: "stream \<Rightarrow> stream" where
  "tick st = st\<lparr>st_faults := tl (st_faults st)\<rparr>"

text \<open>A write at an offset beyond the end leaves a hole of zero bytes.\<close>

definition overwrite :: "nat \<Rightarrow> byte list \<Rightarrow> byte list \<Rightarrow> byte list" where
  "overwrite off bs file =
     take off file @ replicate (off - length file) 0 @ bs @ drop (off + length bs) file"

text \<open>\<open>seekg(off); read(p, n); if (!stream) ...\<close>: the bytes, or \<open>None\<close> when the stream failed.\<close>

definition stream_read :: "nat \<Rightarrow> nat \<Rightarrow> stream \<Rightarrow> byte list option \<times> stream" where
  "stream_read off n st =
     (if \<not> st_open st \<or> \<not> st_good st then (None, st\<lparr>st_good := False\<rparr>)
      else if next_fault st \<noteq> None \<or> length (st_file st) < off + n
        then (None, (tick st)\<lparr>st_good := False\<rparr>)
      else (Some (peek off n (st_file st)), tick st))"

text \<open>\<open>seekp(off); write(p, n); if (!stream) ...\<close>: whether the stream is still good.\<close>

definition stream_write :: "nat \<Rightarrow> byte list \<Rightarrow> stream \<Rightarrow> bool \<times> stream" where
  "stream_write off bs st =
     (if \<not> st_open st \<or> \<not> st_good st then (False, st\<lparr>st_good := False\<rparr>)
      else case next_fault st of
        Some k \<Rightarrow>
          (False, (tick st)\<lparr>st_good := False, st_file := overwrite off (take k bs) (st_file st)\<rparr>)
      | None \<Rightarrow> (True, (tick st)\<lparr>st_file := overwrite off bs (st_file st)\<rparr>))"

text \<open>An open stream on a device that meets no fault.\<close>

definition healthy :: "stream \<Rightarrow> bool" where
  "healthy st \<longleftrightarrow> st_open st \<and> st_good st \<and> st_faults st = []"

lemma healthy_simps:
  "healthy st \<Longrightarrow> st_open st" "healthy st \<Longrightarrow> st_good st" "healthy st \<Longrightarrow> next_fault st = None"
  by (simp_all add: healthy_def next_fault_def)

lemma tick_healthy: "healthy st \<Longrightarrow> tick st = st"
  by (simp add: healthy_def tick_def)

lemma stream_read_healthy:
  "healthy st \<Longrightarrow> off + n \<le> length (st_file st) \<Longrightarrow>
     stream_read off n st = (Some (peek off n (st_file st)), st)"
  by (simp add: stream_read_def healthy_simps tick_healthy)

lemma stream_write_healthy:
  "healthy st \<Longrightarrow>
     stream_write off bs st = (True, st\<lparr>st_file := overwrite off bs (st_file st)\<rparr>)"
  by (simp add: stream_write_def healthy_simps tick_healthy)

lemma healthy_file [simp]: "healthy (st\<lparr>st_file := f\<rparr>) = healthy st"
  by (simp add: healthy_def)

lemma length_overwrite: "length (overwrite off bs file) = max (length file) (off + length bs)"
  by (auto simp: overwrite_def)

text \<open>
  Page-sized blocks: writing one block of a file leaves the others as they were, and a
  block that was there stays there.
\<close>

definition block :: "nat \<Rightarrow> nat \<Rightarrow> byte list \<Rightarrow> byte list" where
  "block sz i file = peek (i * sz) sz file"

definition has_block :: "nat \<Rightarrow> nat \<Rightarrow> byte list \<Rightarrow> bool" where
  "has_block sz i file \<longleftrightarrow> i * sz + sz \<le> length file"

lemma block_overwrite_same:
  assumes "length bs = sz"
  shows "block sz i (overwrite (i * sz) bs file) = bs"
proof (cases "i * sz \<le> length file")
  case True
  then show ?thesis using assms by (simp add: block_def peek_def overwrite_def)
next
  case False
  then show ?thesis using assms by (simp add: block_def peek_def overwrite_def)
qed

lemma has_block_overwrite_same:
  "length bs = sz \<Longrightarrow> has_block sz i (overwrite (i * sz) bs file)"
  by (simp add: has_block_def length_overwrite)

lemma has_block_overwrite:
  "has_block sz j file \<Longrightarrow> has_block sz j (overwrite off bs file)"
  by (simp add: has_block_def length_overwrite)

lemma block_nth:
  "has_block sz i file \<Longrightarrow> k < sz \<Longrightarrow> block sz i file ! k = file ! (i * sz + k)"
  by (simp add: block_def peek_def has_block_def)

lemma length_block: "has_block sz i file \<Longrightarrow> length (block sz i file) = sz"
  by (simp add: block_def has_block_def)

lemma overwrite_nth_outside:
  assumes "k < length file" and "k < off \<or> off + length bs \<le> k"
  shows "overwrite off bs file ! k = file ! k"
  using assms by (auto simp: overwrite_def nth_append)

lemma block_overwrite_other:
  assumes "has_block sz j file" and "i \<noteq> j" and "length bs = sz"
  shows "block sz j (overwrite (i * sz) bs file) = block sz j file"
proof (rule nth_equalityI)
  have hb: "has_block sz j (overwrite (i * sz) bs file)"
    using assms(1) by (rule has_block_overwrite)
  show "length (block sz j (overwrite (i * sz) bs file)) = length (block sz j file)"
    using hb assms(1) by (simp add: length_block)
  fix k
  assume "k < length (block sz j (overwrite (i * sz) bs file))"
  then have k: "k < sz" using hb by (simp add: length_block)
  have "j * sz + k < i * sz \<or> i * sz + sz \<le> j * sz + k"
  proof (cases "j < i")
    case True
    then have "Suc j * sz \<le> i * sz" by (intro mult_le_mono1) simp
    with k show ?thesis by simp
  next
    case False
    with assms(2) have "Suc i * sz \<le> j * sz" by (intro mult_le_mono1) simp
    then show ?thesis by simp
  qed
  moreover have "j * sz + k < length file"
    using assms(1) k by (simp add: has_block_def)
  ultimately show "block sz j (overwrite (i * sz) bs file) ! k = block sz j file ! k"
    using hb assms(1,3) k by (simp add: block_nth overwrite_nth_outside)
qed

text \<open>Writing a block below \<open>n\<close> keeps the file within \<open>n\<close> whole blocks.\<close>

lemma blocks_overwrite:
  assumes "i < n" and "length file div sz \<le> n" and "length bs = sz"
  shows "length (overwrite (i * sz) bs file) div sz \<le> n"
proof (cases "sz = 0")
  case True
  then show ?thesis by simp
next
  case False
  have "(i * sz + sz) div sz = Suc i"
    using False by (metis add.commute mult_Suc nonzero_mult_div_cancel_right)
  with assms False show ?thesis
    by (simp add: length_overwrite max_def)
qed

lemma blocks_count:
  assumes "0 < sz" and "length file div sz \<le> n" and "\<And>i. i < n \<Longrightarrow> has_block sz i file"
  shows "length file div sz = n"
proof (cases n)
  case 0
  with assms(2) show ?thesis by simp
next
  case (Suc m)
  then have "m * sz + sz \<le> length file" using assms(3) [of m] by (simp add: has_block_def)
  then have "n * sz \<le> length file" using Suc by simp
  then have "n \<le> length file div sz" using assms(1) by (simp add: less_eq_div_iff_mult_less_eq)
  with assms(2) show ?thesis by simp
qed

end
