(* ===== verification/PageStore.thy ===== *)
theory PageStore
  imports Prelude
begin

text \<open>
  The interface between a store of numbered pages and its clients: a read returns the page
  last written and changes nothing a client can see, a write changes exactly one page. The
  pager offers it for blocks of bytes, the index for parsed nodes.
\<close>

locale page_store =
  fixes rd :: "nat \<Rightarrow> ('s, 'p) op"
    and wr :: "nat \<Rightarrow> 'p \<Rightarrow> ('s, unit) op"
    and inv :: "'s \<Rightarrow> bool"
    and view :: "'s \<Rightarrow> nat \<Rightarrow> 'p option"
    and count :: "'s \<Rightarrow> nat"
    and storable :: "'p \<Rightarrow> bool"
    and stored :: "nat \<Rightarrow> 'p \<Rightarrow> 'p"
    and frame :: "'s \<Rightarrow> 'f"
  assumes rd_law: "inv s \<Longrightarrow> view s i = Some p \<Longrightarrow>
      \<exists>s'. rd i s = (Inr p, s') \<and> inv s' \<and> view s' = view s \<and> count s' = count s
           \<and> frame s' = frame s"
    and wr_law: "inv s \<Longrightarrow> storable p \<Longrightarrow> i \<le> count s \<Longrightarrow> i + 1 < 2 ^ 32 \<Longrightarrow>
      \<exists>s'. wr i p s = (Inr (), s') \<and> inv s' \<and> view s' = (view s)(i \<mapsto> stored i p)
           \<and> count s' = max (count s) (i + 1) \<and> frame s' = frame s"
begin

lemma wp_rd:
  assumes "inv s" and "view s i = Some p"
    and "\<And>s'. inv s' \<Longrightarrow> view s' = view s \<Longrightarrow> count s' = count s \<Longrightarrow>
              frame s' = frame s \<Longrightarrow> Q p s'"
  shows "wp E (rd i) Q s"
  using rd_law [OF assms(1,2)] assms(3) by (auto simp: wp_def)

lemma wp_wr:
  assumes "inv s" and "storable p" and "i \<le> count s" and "i + 1 < 2 ^ 32"
    and "\<And>s'. inv s' \<Longrightarrow> view s' = (view s)(i \<mapsto> stored i p) \<Longrightarrow>
              count s' = max (count s) (i + 1) \<Longrightarrow> frame s' = frame s \<Longrightarrow> Q () s'"
  shows "wp E (wr i p) Q s"
  using wr_law [OF assms(1-4)] assms(5) by (auto simp: wp_def)

lemma wp_map_rd:
  assumes "inv s" and "list_all2 (\<lambda>i p. view s i = Some p) is ps"
    and "\<And>s'. inv s' \<Longrightarrow> view s' = view s \<Longrightarrow> count s' = count s \<Longrightarrow>
              frame s' = frame s \<Longrightarrow> Q ps s'"
  shows "wp E (map_op rd is) Q s"
  using assms
proof (induction "is" arbitrary: ps Q s)
  case Nil
  then show ?case by simp
next
  case (Cons i "is")
  then obtain p ps' where ps: "ps = p # ps'" and p: "view s i = Some p"
    and rest: "list_all2 (\<lambda>i p. view s i = Some p) is ps'"
    by (auto simp: list_all2_Cons1)
  show ?case
    unfolding map_op.simps wp_bnd
  proof (rule wp_rd [OF Cons.prems(1) p])
    fix s1
    assume s1: "inv s1" "view s1 = view s" "count s1 = count s" "frame s1 = frame s"
    show "wp E (map_op rd is) (\<lambda>x s'. wp E (ret (p # x)) Q s') s1"
      by (rule Cons.IH [of s1 ps']) (use s1 rest Cons.prems(3) ps in auto)
  qed
qed

lemma read_after_write:
  assumes "inv s" and "storable p" and "i \<le> count s" and "i + 1 < 2 ^ 32"
  shows "\<exists>s'. andthen (wr i p) (rd i) s = (Inr (stored i p), s') \<and> inv s'
              \<and> view s' = (view s)(i \<mapsto> stored i p)"
proof -
  have "wp never (andthen (wr i p) (rd i))
          (\<lambda>x s'. x = stored i p \<and> inv s' \<and> view s' = (view s)(i \<mapsto> stored i p)) s"
    unfolding wp_andthen
    by (rule wp_wr [OF assms]) (rule wp_rd; simp)
  then show ?thesis by (simp add: wp_never_iff)
qed

lemma read_other_after_write:
  assumes "inv s" and "storable p" and "i \<le> count s" and "i + 1 < 2 ^ 32"
    and "j \<noteq> i" and "view s j = Some q"
  shows "\<exists>s'. andthen (wr i p) (rd j) s = (Inr q, s') \<and> inv s'"
proof -
  have "wp never (andthen (wr i p) (rd j)) (\<lambda>x s'. x = q \<and> inv s') s"
    unfolding wp_andthen
    by (rule wp_wr [OF assms(1-4)]) (rule wp_rd; simp add: assms(5,6))
  then show ?thesis by (simp add: wp_never_iff)
qed

end

end
