(* ===== verification/Pager.thy ===== *)
theory Pager
  imports FileStream PageStore
begin

text \<open>
  \<open>cw_db::Pager\<close> (include/storage/pager.h, src/storage/pager.cpp): a file of 4096-byte pages
  behind a write-back LRU cache. The \<open>unordered_map\<close> of cache slots is an association list,
  in any order; the list of page ids \<open>lru\<close> has the most recently used page first. The
  iterator a cache entry keeps into \<open>lru_\<close> is the position of its page id there.
  A page id is a \<open>std::uint32_t\<close>; it is a natural number here, with the one addition that
  can wrap written out.
\<close>

section \<open>Data and operations\<close>

definition kPageSize :: nat where
  "kPageSize = 4096"

definition kPageMagic :: nat where
  "kPageMagic = 0x50414745"

definition kDefaultPageCacheCapacity :: nat where
  "kDefaultPageCacheCapacity = 64"

record slot =
  sl_data :: "byte list"
  sl_dirty :: bool

record pager =
  pg_stream :: stream
  pg_path :: string
  page_count :: nat
  cache_capacity :: nat
  lru :: "nat list"
  cache :: "(nat \<times> slot) list"
  scratch :: "byte list"

text \<open>A \<open>Pager\<close> object whose stream has not been opened, on a device with the given faults.\<close>

definition new_pager :: "nat option list \<Rightarrow> pager" where
  "new_pager faults =
     \<lparr>pg_stream = closed_stream [] faults, pg_path = [], page_count = 0,
      cache_capacity = kDefaultPageCacheCapacity, lru = [], cache = [], scratch = []\<rparr>"

text \<open>The write-through that four methods spell out: seek to the page, write it, test the stream.\<close>

definition write_back :: "string \<Rightarrow> nat \<Rightarrow> byte list \<Rightarrow> (pager, unit) op" where
  "write_back msg page_id data p =
     (case stream_write (page_id * kPageSize) data (pg_stream p) of
        (ok, st) \<Rightarrow> (if ok then Inr () else Inl (Runtime_error (msg @ nat_str page_id)),
                     p\<lparr>pg_stream := st\<rparr>))"

definition evict_one :: "(pager, unit) op" where
  "evict_one p =
     (if lru p = [] then (Inr (), p)
      else let victim = last (lru p) in
        case map_of (cache p) victim of
          None \<Rightarrow> (Inr (), p\<lparr>lru := butlast (lru p)\<rparr>)
        | Some sl \<Rightarrow>
            andthen
              (when_op (sl_dirty sl)
                 (write_back ''Write failed while evicting page '' victim (sl_data sl)))
              (modify (\<lambda>q. q\<lparr>cache := AList.delete victim (cache q), lru := butlast (lru q)\<rparr>)) p)"

lemma evict_one_lru: "evict_one p = (Inr x, q) \<Longrightarrow> lru q = butlast (lru p)"
  by (auto simp: evict_one_def op_simps write_back_def Let_def
      split: option.splits prod.splits if_splits)

text \<open>
  \<open>while (cache_.size() > n) evict_one();\<close> with an empty \<open>lru_\<close> eviction does nothing, so the
  loop would spin forever; otherwise each round takes one id off \<open>lru_\<close>.
\<close>

function evict_down_to :: "nat \<Rightarrow> (pager, unit) op" where
  "evict_down_to n p =
     (if length (cache p) \<le> n then (Inr (), p)
      else if lru p = [] then (Inl Nontermination, p)
      else case evict_one p of
        (Inl e, q) \<Rightarrow> (Inl e, q)
      | (Inr _, q) \<Rightarrow> evict_down_to n q)"
  by pat_completeness auto
termination
  by (relation "measure (\<lambda>(n, p). length (lru p))")
    (auto simp: evict_one_lru [OF sym])

declare evict_down_to.simps [simp del]

definition set_cache_capacity :: "nat \<Rightarrow> (pager, unit) op" where
  "set_cache_capacity capacity =
     andthen (modify (\<lambda>p. p\<lparr>cache_capacity := capacity\<rparr>)) (evict_down_to capacity)"

definition clear_cache :: "(pager, unit) op" where
  "clear_cache = modify (\<lambda>p. p\<lparr>lru := [], cache := []\<rparr>)"

text \<open>
  The loop of \<open>flush_dirty_pages\<close> over the cache entries, from the entries still to visit.
  An exception leaves the rest of the entries as they were.
\<close>

fun flush_slots :: "nat list \<Rightarrow> (pager, unit) op" where
  "flush_slots [] p = (Inr (), p)"
| "flush_slots (i # is) p =
     (case map_of (cache p) i of
        None \<Rightarrow> flush_slots is p
      | Some sl \<Rightarrow>
          if \<not> sl_dirty sl then flush_slots is p
          else andthen (write_back ''Write failed for page '' i (sl_data sl))
            (andthen
               (modify (\<lambda>q. q\<lparr>cache := AList.update i (sl\<lparr>sl_dirty := False\<rparr>) (cache q)\<rparr>))
               (flush_slots is)) p)"

definition flush_dirty_pages :: "(pager, unit) op" where
  "flush_dirty_pages p = flush_slots (map fst (cache p)) p"

definition check_page_size :: "byte list \<Rightarrow> (pager, unit) op" where
  "check_page_size data =
     throw_if (length data \<noteq> kPageSize)
       (Runtime_error (''Page size must be exactly '' @ nat_str kPageSize))"

definition touch_cache :: "nat \<Rightarrow> (pager, unit) op" where
  "touch_cache page_id p =
     (case map_of (cache p) page_id of
        None \<Rightarrow> (Inr (), p)
      | Some _ \<Rightarrow> (Inr (), p\<lparr>lru := page_id # remove1 page_id (lru p)\<rparr>))"

definition put_cache :: "nat \<Rightarrow> byte list \<Rightarrow> bool \<Rightarrow> (pager, unit) op" where
  "put_cache page_id data dirty =
     andthen (check_page_size data)
       (\<lambda>p. if cache_capacity p = 0 then
              andthen
                (when_op dirty (write_back ''Write failed for page '' page_id data))
                (modify (\<lambda>q. q\<lparr>scratch := data\<rparr>)) p
            else case map_of (cache p) page_id of
              Some _ \<Rightarrow>
                andthen
                  (modify (\<lambda>q. q\<lparr>cache := AList.update page_id
                                  \<lparr>sl_data = data, sl_dirty = dirty\<rparr> (cache q)\<rparr>))
                  (touch_cache page_id) p
            | None \<Rightarrow>
                andthen (evict_down_to (cache_capacity p - 1))
                  (modify (\<lambda>q. q\<lparr>lru := page_id # lru q,
                                 cache := (page_id, \<lparr>sl_data = data, sl_dirty = dirty\<rparr>)
                                            # cache q\<rparr>)) p)"

definition past_end :: "nat \<Rightarrow> error" where
  "past_end page_id =
     Runtime_error (''Read past end of page file: page '' @ nat_str page_id)"

text \<open>\<open>seekg; read; if (!stream_) throw\<close>: the page as the file has it.\<close>

definition fetch :: "nat \<Rightarrow> (pager, byte list) op" where
  "fetch page_id p =
     (case stream_read (page_id * kPageSize) kPageSize (pg_stream p) of
        (None, st) \<Rightarrow> (Inl (Runtime_error (''Read failed for page '' @ nat_str page_id)),
                       p\<lparr>pg_stream := st\<rparr>)
      | (Some data, st) \<Rightarrow> (Inr data, p\<lparr>pg_stream := st\<rparr>))"

definition load_page_from_disk :: "nat \<Rightarrow> (pager, unit) op" where
  "load_page_from_disk page_id =
     bnd (gets page_count) (\<lambda>n.
     andthen (throw_if (n \<le> page_id) (past_end page_id))
       (bnd (fetch page_id) (\<lambda>data. put_cache page_id data False)))"

definition ensure_page_count :: "nat \<Rightarrow> (pager, unit) op" where
  "ensure_page_count page_id =
     modify (\<lambda>p. if page_count p \<le> page_id
                 then p\<lparr>page_count := (page_id + 1) mod 2 ^ 32\<rparr> else p)"

definition read_page :: "nat \<Rightarrow> (pager, byte list) op" where
  "read_page page_id p =
     (if cache_capacity p = 0 then
        andthen (throw_if (page_count p \<le> page_id) (past_end page_id))
          (andthen (modify (\<lambda>q. q\<lparr>scratch := replicate kPageSize 0\<rparr>))
             (bnd (fetch page_id) (\<lambda>data.
              andthen (modify (\<lambda>q. q\<lparr>scratch := data\<rparr>)) (ret data)))) p
      else case map_of (cache p) page_id of
        Some sl \<Rightarrow> andthen (touch_cache page_id) (ret (sl_data sl)) p
      | None \<Rightarrow>
          andthen (load_page_from_disk page_id)
            (\<lambda>q. case map_of (cache q) page_id of
                   None \<Rightarrow> throw (Runtime_error
                             (''Page cache miss after load: page '' @ nat_str page_id)) q
                 | Some sl \<Rightarrow> (Inr (sl_data sl), q)) p)"

definition write_page :: "nat \<Rightarrow> byte list \<Rightarrow> (pager, unit) op" where
  "write_page page_id data =
     andthen (check_page_size data)
       (andthen (ensure_page_count page_id) (put_cache page_id data True))"

definition allocate_page :: "(pager, nat) op" where
  "allocate_page =
     bnd (gets page_count) (\<lambda>id.
     andthen (write_page id (replicate kPageSize 0)) (ret id))"

text \<open>\<open>stream_.flush()\<close> moves buffered bytes to the file; the model's stream holds no buffer.\<close>

definition flush :: "(pager, unit) op" where
  "flush p = (if st_open (pg_stream p) then flush_dirty_pages p else (Inr (), p))"

definition close :: "(pager, unit) op" where
  "close =
     andthen
       (\<lambda>p. if st_open (pg_stream p)
            then andthen flush
                   (modify (\<lambda>q. q\<lparr>pg_stream := (pg_stream q)\<lparr>st_open := False\<rparr>\<rparr>)) p
            else (Inr (), p))
       (andthen (modify (\<lambda>p. p\<lparr>page_count := 0\<rparr>)) clear_cache)"

text \<open>
  \<open>open(path, create)\<close>. The file system is the caller's: \<open>existing\<close> is the file at the path
  (\<open>None\<close> when there is none) and \<open>openable\<close> whether the operating system lets it be opened
  for update. Creating truncates; a file that cannot be opened for update without creating it
  is created empty.
\<close>

definition open_page_file :: "string \<Rightarrow> byte list option \<Rightarrow> bool \<Rightarrow> bool \<Rightarrow> (pager, unit) op" where
  "open_page_file path existing openable create =
     andthen close
       (andthen (modify (\<lambda>p. p\<lparr>pg_path := path\<rparr>))
          (\<lambda>p. if \<not> openable
               then throw (Runtime_error (''Cannot open page file: '' @ path)) p
               else let bytes = (if create then [] else case existing of None \<Rightarrow> [] | Some b \<Rightarrow> b)
                    in andthen
                         (modify (\<lambda>q. q\<lparr>pg_stream := (pg_stream q)\<lparr>st_open := True,
                                                      st_good := True, st_file := bytes\<rparr>,
                                        page_count := (length bytes div kPageSize) mod 2 ^ 32\<rparr>))
                         clear_cache p))"

end
