(* ===== verification/Pager_Correct.thy ===== *)
theory Pager_Correct
  imports Pager
begin

text \<open>
  The cache is transparent: what a client sees of a pager is one block of bytes per page id
  below \<open>page_count\<close>, the last one written, wherever it currently lives. The invariant ties
  the two containers of the cache together and says that a clean slot can be dropped.
\<close>

section \<open>What a client sees, and the invariant\<close>

abbreviation file_of :: "pager \<Rightarrow> byte list" where
  "file_of p \<equiv> st_file (pg_stream p)"

definition pager_view :: "pager \<Rightarrow> nat \<Rightarrow> byte list option" where
  "pager_view p i =
     (if i < page_count p
      then case map_of (cache p) i of
             Some sl \<Rightarrow> Some (sl_data sl)
           | None \<Rightarrow> if has_block kPageSize i (file_of p)
                     then Some (block kPageSize i (file_of p)) else None
      else None)"

definition slot_ok :: "pager \<Rightarrow> nat \<Rightarrow> slot \<Rightarrow> bool" where
  "slot_ok p i sl \<longleftrightarrow> i < page_count p \<and> length (sl_data sl) = kPageSize \<and>
     (sl_dirty sl \<or> has_block kPageSize i (file_of p) \<and> block kPageSize i (file_of p) = sl_data sl)"

definition cache_wf :: "pager \<Rightarrow> bool" where
  "cache_wf p \<longleftrightarrow> distinct (lru p) \<and> distinct (map fst (cache p)) \<and>
     set (lru p) = fst ` set (cache p)"

text \<open>The ids in \<open>H\<close> may have no content yet: a page being appended is in that state for a while.\<close>

definition consistent_but :: "nat set \<Rightarrow> pager \<Rightarrow> bool" where
  "consistent_but H p \<longleftrightarrow> healthy (pg_stream p) \<and> cache_wf p \<and> page_count p < 2 ^ 32 \<and>
     length (file_of p) div kPageSize \<le> page_count p \<and>
     (\<forall>i sl. map_of (cache p) i = Some sl \<longrightarrow> slot_ok p i sl) \<and>
     (\<forall>i < page_count p. i \<in> H \<or> i \<in> fst ` set (cache p) \<or> has_block kPageSize i (file_of p))"

abbreviation consistent :: "pager \<Rightarrow> bool" where
  "consistent \<equiv> consistent_but {}"

definition pager_inv :: "pager \<Rightarrow> bool" where
  "pager_inv p \<longleftrightarrow> consistent p \<and> length (cache p) \<le> cache_capacity p"

definition same_pages :: "nat set \<Rightarrow> pager \<Rightarrow> pager \<Rightarrow> bool" where
  "same_pages H p q \<longleftrightarrow> consistent_but H q \<and> (\<forall>j. j \<notin> H \<longrightarrow> pager_view q j = pager_view p j) \<and>
     page_count q = page_count p \<and> cache_capacity q = cache_capacity p"

lemma kPageSize_pos [simp]: "0 < kPageSize"
  by (simp add: kPageSize_def)

lemma same_pages_refl: "consistent_but H p \<Longrightarrow> same_pages H p p"
  by (simp add: same_pages_def)

lemma same_pages_trans: "same_pages H p q \<Longrightarrow> same_pages H q r \<Longrightarrow> same_pages H p r"
  by (simp add: same_pages_def)

lemma consistentD:
  assumes "consistent_but H p"
  shows "healthy (pg_stream p)" "distinct (lru p)" "distinct (map fst (cache p))"
    "set (lru p) = fst ` set (cache p)" "page_count p < 2 ^ 32"
    "\<And>i sl. map_of (cache p) i = Some sl \<Longrightarrow> slot_ok p i sl"
    "\<And>i. i < page_count p \<Longrightarrow> i \<in> H \<or> i \<in> fst ` set (cache p) \<or> has_block kPageSize i (file_of p)"
    "length (file_of p) div kPageSize \<le> page_count p"
  using assms by (auto simp: consistent_but_def cache_wf_def)

lemma map_of_None_notin: "map_of al i = None \<longleftrightarrow> i \<notin> fst ` set al"
  by (induction al) auto

lemma pager_view_total:
  assumes "consistent p" and "i < page_count p"
  shows "\<exists>d. pager_view p i = Some d \<and> length d = kPageSize"
proof (cases "map_of (cache p) i")
  case None
  then have "has_block kPageSize i (file_of p)"
    using consistentD(7) [OF assms] by (simp add: map_of_None_notin)
  with None assms(2) show ?thesis by (simp add: pager_view_def length_block)
next
  case (Some sl)
  with consistentD(6) [OF assms(1) Some] assms(2) show ?thesis
    by (simp add: pager_view_def slot_ok_def)
qed

lemma pager_view_None: "consistent p \<Longrightarrow> pager_view p i = None \<longleftrightarrow> page_count p \<le> i"
  using pager_view_total [of p i] by (cases "i < page_count p") (auto, simp add: pager_view_def)

section \<open>Eviction\<close>

text \<open>Evicting the least recently used page, with its write-back, changes nothing a client sees.\<close>

lemma write_back_healthy:
  "healthy (pg_stream p) \<Longrightarrow>
     write_back msg i d p =
       (Inr (), p\<lparr>pg_stream := (pg_stream p)\<lparr>st_file := overwrite (i * kPageSize) d (file_of p)\<rparr>\<rparr>)"
  by (simp add: write_back_def stream_write_healthy)

lemma evict_one_result:
  assumes inv: "consistent_but H p" and ne: "lru p \<noteq> []"
    and sl: "map_of (cache p) (last (lru p)) = Some sl"
  shows "evict_one p =
    (Inr (), p\<lparr>pg_stream := (pg_stream p)\<lparr>st_file :=
                 if sl_dirty sl
                 then overwrite (last (lru p) * kPageSize) (sl_data sl) (file_of p)
                 else file_of p\<rparr>,
              cache := AList.delete (last (lru p)) (cache p), lru := butlast (lru p)\<rparr>)"
  using ne sl consistentD(1) [OF inv]
  by (simp add: evict_one_def Let_def op_simps write_back_healthy)

lemma last_lru_cached:
  assumes "consistent_but H p" and "lru p \<noteq> []"
  obtains sl where "map_of (cache p) (last (lru p)) = Some sl"
proof -
  have "last (lru p) \<in> fst ` set (cache p)"
    using assms(2) consistentD(4) [OF assms(1)] by (metis last_in_set)
  then show thesis using that by (metis map_of_None_notin not_None_eq)
qed

lemma length_alist: "distinct (map fst al) \<Longrightarrow> length al = card (fst ` set al)"
  using distinct_card [of "map fst al"] by simp

lemma keys_delete: "fst ` set (AList.delete v al) = fst ` set al - {v}"
  by (simp add: dom_map_of_conv_image_fst [symmetric] delete_conv' dom_def) auto

lemma length_delete_present:
  assumes "distinct (map fst al)" and "i \<in> fst ` set al"
  shows "length (AList.delete i al) = length al - 1"
  using assms length_alist [OF assms(1)] length_alist [OF distinct_delete [OF assms(1)], of i]
  by (simp add: keys_delete)

lemma evict_one_ok:
  assumes inv: "consistent_but H p" and ne: "lru p \<noteq> []"
  shows "\<exists>q. evict_one p = (Inr (), q) \<and> same_pages H p q \<and>
             map_of (cache q) = (map_of (cache p))(last (lru p) := None) \<and>
             length (cache q) = length (cache p) - 1 \<and> lru q = butlast (lru p)"
proof -
  obtain sl where sl: "map_of (cache p) (last (lru p)) = Some sl"
    using last_lru_cached [OF inv ne] .
  define v where "v = last (lru p)"
  define f where "f = (if sl_dirty sl then overwrite (v * kPageSize) (sl_data sl) (file_of p)
                       else file_of p)"
  define q where "q = p\<lparr>pg_stream := (pg_stream p)\<lparr>st_file := f\<rparr>,
                        cache := AList.delete v (cache p), lru := butlast (lru p)\<rparr>"
  note D = consistentD [OF inv]
  have okv: "slot_ok p v sl" using D(6) sl by (simp add: v_def)
  have len: "length (sl_data sl) = kPageSize" using okv by (simp add: slot_ok_def)
  have mo: "map_of (cache q) = (map_of (cache p))(v := None)"
    by (simp add: q_def delete_conv')
  have vin: "v \<in> fst ` set (cache p)" using sl by (metis map_of_None_notin option.distinct(1) v_def)
  have fv: "has_block kPageSize v f \<and> block kPageSize v f = sl_data sl"
    using okv len
    by (auto simp: f_def slot_ok_def has_block_overwrite_same block_overwrite_same)
  have fo: "has_block kPageSize j f \<and> block kPageSize j f = block kPageSize j (file_of p)"
    if "has_block kPageSize j (file_of p)" and "j \<noteq> v" for j
    using that len by (auto simp: f_def has_block_overwrite block_overwrite_other)
  have view: "pager_view q j = pager_view p j" if jH: "j \<notin> H" for j
  proof -
    show "pager_view q j = pager_view p j"
    proof (cases "j = v")
      case True
      with fv sl okv show ?thesis
        by (simp add: pager_view_def mo v_def [symmetric]) (simp add: q_def slot_ok_def)
    next
      case False
      show ?thesis
      proof (cases "map_of (cache p) j")
        case None
        then have "j < page_count p \<Longrightarrow> has_block kPageSize j (file_of p)"
          using D(7) [of j] jH by (simp add: map_of_None_notin)
        with False None fo [of j] show ?thesis
          by (auto simp: pager_view_def mo) (auto simp: q_def)
      next
        case (Some s)
        with False show ?thesis
          by (simp add: pager_view_def mo) (simp add: q_def)
      qed
    qed
  qed
  note keys = keys_delete [of v "cache p"]
  have wf: "cache_wf q"
    using D ne keys length_delete_present [OF D(3) vin]
    by (auto simp: cache_wf_def q_def distinct_butlast distinct_delete set_butlast_distinct v_def)
  have slots: "slot_ok q i s" if "map_of (cache q) i = Some s" for i s
  proof -
    from that have iv: "i \<noteq> v" and i: "map_of (cache p) i = Some s"
      by (auto simp: mo split: if_splits)
    from D(6) [OF i] fo [of i] iv show ?thesis
      by (auto simp: slot_ok_def q_def)
  qed
  have all: "i \<in> H \<or> i \<in> fst ` set (cache q) \<or> has_block kPageSize i (file_of q)" if "i < page_count q" for i
    using that D(7) [of i] fv fo [of i] keys by (cases "i = v") (auto simp: q_def)
  have blocks: "length f div kPageSize \<le> page_count p"
    using D(8) len okv by (auto simp: f_def slot_ok_def blocks_overwrite)
  have inv': "consistent_but H q"
    using D(1,5) wf slots all blocks by (auto simp: consistent_but_def) (auto simp: q_def)
  have ev: "evict_one p = (Inr (), q)"
    using evict_one_result [OF inv ne sl] by (simp add: q_def f_def v_def)
  show ?thesis
  proof (intro exI conjI)
    show "evict_one p = (Inr (), q)" by (rule ev)
    show "same_pages H p q" using inv' view by (simp add: same_pages_def) (simp add: q_def)
    show "map_of (cache q) = (map_of (cache p))(last (lru p) := None)"
      using mo by (simp add: v_def)
    show "length (cache q) = length (cache p) - 1"
      using length_delete_present [OF D(3) vin] by (simp add: q_def)
    show "lru q = butlast (lru p)" by (simp add: q_def)
  qed
qed

text \<open>The eviction loop ends, keeps the pages, and only ever drops entries.\<close>

lemma evict_down_to_ok:
  assumes "consistent_but H p"
  shows "\<exists>q. evict_down_to n p = (Inr (), q) \<and> same_pages H p q \<and> length (cache q) \<le> n \<and>
             (\<forall>i. map_of (cache p) i = None \<longrightarrow> map_of (cache q) i = None)"
  using assms
proof (induction n p rule: evict_down_to.induct)
  case (1 n p)
  show ?case
  proof (cases "length (cache p) \<le> n")
    case True
    then show ?thesis
      using same_pages_refl [OF "1.prems"] "1.prems"
      by (simp add: evict_down_to.simps [of n p] same_pages_def)
  next
    case False
    have ne: "lru p \<noteq> []"
      using False consistentD(4) [OF "1.prems"] by auto
    obtain q where q: "evict_one p = (Inr (), q)" "same_pages H p q"
      "map_of (cache q) = (map_of (cache p))(last (lru p) := None)"
      using evict_one_ok [OF "1.prems" ne] by blast
    have "consistent_but H q" using q(2) by (simp add: same_pages_def)
    then obtain r where r: "evict_down_to n q = (Inr (), r)" "same_pages H q r"
      "length (cache r) \<le> n" "\<forall>i. map_of (cache q) i = None \<longrightarrow> map_of (cache r) i = None"
      using "1.IH" [OF False ne q(1) [symmetric] refl] by blast
    have "evict_down_to n p = (Inr (), r)"
      using False ne q(1) r(1) by (simp add: evict_down_to.simps [of n p])
    moreover have "same_pages H p r" using q(2) r(2) by (rule same_pages_trans)
    ultimately show ?thesis using r(3,4) q(3) by auto
  qed
qed

section \<open>Filling the cache\<close>

lemma consistent_but_mono: "consistent_but H p \<Longrightarrow> H \<subseteq> K \<Longrightarrow> consistent_but K p"
  by (auto simp: consistent_but_def)

lemma touch_cache_ok:
  assumes "consistent_but H p"
  shows "\<exists>q. touch_cache i p = (Inr (), q) \<and> same_pages H p q \<and> cache q = cache p \<and>
             pg_stream q = pg_stream p"
proof (cases "map_of (cache p) i")
  case None
  then show ?thesis using same_pages_refl [OF assms] by (simp add: touch_cache_def)
next
  case (Some sl)
  define q where "q = p\<lparr>lru := i # remove1 i (lru p)\<rparr>"
  note D = consistentD [OF assms]
  have "i \<in> set (lru p)" using D(4) Some by (metis map_of_None_notin option.distinct(1))
  then have "set (lru q) = set (lru p)" and "distinct (lru q)"
    using D(2) by (auto simp: q_def)
  then have "consistent_but H q"
    using assms by (auto simp: consistent_but_def cache_wf_def slot_ok_def q_def)
  then show ?thesis
    using Some by (auto simp: touch_cache_def q_def same_pages_def pager_view_def split: option.split)
qed

text \<open>
  What \<open>put_cache\<close> needs: a full page for an id below \<open>page_count\<close>, dirty unless the file
  already holds these bytes.
\<close>

definition puttable :: "pager \<Rightarrow> nat \<Rightarrow> byte list \<Rightarrow> bool \<Rightarrow> bool" where
  "puttable p i d dirty \<longleftrightarrow> i < page_count p \<and> length d = kPageSize \<and>
     (dirty \<or> has_block kPageSize i (file_of p) \<and> block kPageSize i (file_of p) = d)"

definition put_result :: "nat \<Rightarrow> byte list \<Rightarrow> pager \<Rightarrow> pager \<Rightarrow> bool" where
  "put_result i d p q \<longleftrightarrow> pager_inv q \<and> pager_view q i = Some d \<and>
     (\<forall>j. j \<noteq> i \<longrightarrow> pager_view q j = pager_view p j) \<and>
     page_count q = page_count p \<and> cache_capacity q = cache_capacity p"

lemma put_result_view: "put_result i d p q \<Longrightarrow> pager_view q = (pager_view p)(i \<mapsto> d)"
  by (auto simp: put_result_def)

lemma put_uncached:
  assumes c: "consistent_but {i} p" and len: "length (cache p) < cache_capacity p"
    and ok: "puttable p i d dirty" and new: "map_of (cache p) i = None"
  shows "put_result i d p
           (p\<lparr>lru := i # lru p, cache := (i, \<lparr>sl_data = d, sl_dirty = dirty\<rparr>) # cache p\<rparr>)"
proof -
  note D = consistentD [OF c]
  have "i \<notin> fst ` set (cache p)" using new by (simp add: map_of_None_notin)
  with D ok len show ?thesis
    by (auto simp: put_result_def pager_inv_def consistent_but_def cache_wf_def puttable_def
        slot_ok_def pager_view_def split: option.split)
qed

lemma map_of_alist_update: "map_of (AList.update k v al) = (map_of al)(k \<mapsto> v)"
  by (rule update_conv')

lemma keys_alist_update: "fst ` set (AList.update k v al) = insert k (fst ` set al)"
  by (simp add: dom_map_of_conv_image_fst [symmetric] update_conv')

lemma put_cached:
  assumes c: "consistent_but H p" and H: "H \<subseteq> {i}" and len: "length (cache p) \<le> cache_capacity p"
    and ok: "puttable p i d dirty" and old: "map_of (cache p) i = Some sl"
  shows "put_result i d p
           (p\<lparr>cache := AList.update i \<lparr>sl_data = d, sl_dirty = dirty\<rparr> (cache p)\<rparr>)"
proof -
  have i: "i \<in> fst ` set (cache p)" using old by (metis map_of_None_notin option.distinct(1))
  have "consistent p" using c H i unfolding consistent_but_def by blast
  note D = consistentD [OF this]
  let ?al = "AList.update i \<lparr>sl_data = d, sl_dirty = dirty\<rparr> (cache p)"
  have keys: "fst ` set ?al = fst ` set (cache p)" using i by (auto simp: keys_alist_update)
  have dist: "distinct (map fst ?al)" using D(3) by (rule distinct_update)
  have "length ?al = length (cache p)"
    using length_alist [OF dist] length_alist [OF D(3)] keys by simp
  with D ok len keys dist i H show ?thesis
    by (auto simp: put_result_def pager_inv_def consistent_but_def cache_wf_def puttable_def
        slot_ok_def pager_view_def map_of_alist_update split: option.split)
qed

lemma put_result_same:
  "same_pages {} q r \<Longrightarrow> put_result i d p q \<Longrightarrow> cache r = cache q \<Longrightarrow> put_result i d p r"
  by (auto simp: put_result_def same_pages_def pager_inv_def)

lemma put_cache_through:
  assumes c: "consistent_but {i} p" and cap: "cache_capacity p = 0"
    and len: "length (cache p) \<le> cache_capacity p"
    and ok: "i < page_count p" "length d = kPageSize"
  shows "\<exists>q. put_cache i d True p = (Inr (), q) \<and> put_result i d p q"
proof -
  note D = consistentD [OF c]
  have empty: "cache p = []" using len cap by simp
  let ?f = "overwrite (i * kPageSize) d (file_of p)"
  define q where "q = p\<lparr>pg_stream := (pg_stream p)\<lparr>st_file := ?f\<rparr>, scratch := d\<rparr>"
  have "put_cache i d True p = (Inr (), q)"
    using cap ok(2) D(1)
    by (simp add: put_cache_def check_page_size_def op_simps write_back_healthy q_def)
  moreover have "has_block kPageSize j ?f \<and> block kPageSize j ?f = block kPageSize j (file_of p)"
    if "j \<noteq> i" and "j < page_count p" for j
    using that D(7) [of j] ok(2) empty
    by (auto simp: has_block_overwrite block_overwrite_other)
  moreover have "has_block kPageSize j (file_of p)" if "j \<noteq> i" and "j < page_count p" for j
    using that D(7) [of j] empty by auto
  moreover have fi: "has_block kPageSize i ?f" and "block kPageSize i ?f = d"
    using ok(2) by (simp_all add: has_block_overwrite_same block_overwrite_same)
  moreover have "has_block kPageSize j ?f" if "j < page_count p" for j
    using calculation(2) [of j] fi that by (cases "j = i") auto
  ultimately have "put_result i d p q"
    using D(1-5) ok empty blocks_overwrite [OF ok(1) D(8) ok(2)]
    by (auto simp: put_result_def pager_inv_def consistent_but_def cache_wf_def pager_view_def q_def)
  with \<open>put_cache i d True p = (Inr (), q)\<close> show ?thesis by blast
qed

lemma put_cache_ok:
  assumes c: "consistent_but (if dirty then {i} else {}) p"
    and len: "length (cache p) \<le> cache_capacity p" and cap: "cache_capacity p \<noteq> 0"
    and ok: "puttable p i d dirty"
  shows "\<exists>q. put_cache i d dirty p = (Inr (), q) \<and> put_result i d p q \<and>
             map_of (cache q) i = Some \<lparr>sl_data = d, sl_dirty = dirty\<rparr>"
proof (cases "map_of (cache p) i")
  case (Some sl)
  define q where
    "q = p\<lparr>cache := AList.update i \<lparr>sl_data = d, sl_dirty = dirty\<rparr> (cache p)\<rparr>"
  have q: "put_result i d p q"
    unfolding q_def by (rule put_cached [OF c _ len ok Some]) simp
  then have "consistent_but {} q" by (simp add: put_result_def pager_inv_def)
  then obtain r where r: "touch_cache i q = (Inr (), r)" "same_pages {} q r" "cache r = cache q"
    using touch_cache_ok by blast
  have "put_cache i d dirty p = (Inr (), r)"
    using ok cap Some r(1)
    by (simp add: put_cache_def check_page_size_def op_simps puttable_def q_def)
  moreover have "put_result i d p r" using r(2) q r(3) by (rule put_result_same)
  moreover have "map_of (cache r) i = Some \<lparr>sl_data = d, sl_dirty = dirty\<rparr>"
    by (simp add: r(3) q_def map_of_alist_update)
  ultimately show ?thesis by blast
next
  case None
  let ?H = "if dirty then {i} else {}"
  obtain q where q: "evict_down_to (cache_capacity p - 1) p = (Inr (), q)" "same_pages ?H p q"
    "length (cache q) \<le> cache_capacity p - 1" "map_of (cache q) i = None"
    using evict_down_to_ok [OF c, of "cache_capacity p - 1"] None by blast
  have qc: "consistent_but ?H q" and pc: "page_count q = page_count p"
    and cc: "cache_capacity q = cache_capacity p"
    using q(2) by (simp_all add: same_pages_def)
  have "puttable q i d dirty"
  proof (cases dirty)
    case True
    with ok pc show ?thesis by (simp add: puttable_def)
  next
    case False
    then have "pager_view q i = pager_view p i" using q(2) by (simp add: same_pages_def)
    with False ok None q(4) pc show ?thesis
      by (auto simp: puttable_def pager_view_def split: if_splits)
  qed
  moreover have "consistent_but {i} q" by (rule consistent_but_mono [OF qc]) simp
  moreover have "length (cache q) < cache_capacity q" using q(3) cap cc by simp
  ultimately have r: "put_result i d q
      (q\<lparr>lru := i # lru q, cache := (i, \<lparr>sl_data = d, sl_dirty = dirty\<rparr>) # cache q\<rparr>)"
    (is "put_result i d q ?r") using q(4) by (intro put_uncached)
  have "put_cache i d dirty p = (Inr (), ?r)"
    using ok cap None q(1)
    by (simp add: put_cache_def check_page_size_def op_simps puttable_def)
  moreover have "put_result i d p ?r"
    using r q(2) by (auto simp: put_result_def same_pages_def split: if_splits)
  ultimately show ?thesis by auto
qed

section \<open>The operations a client calls\<close>

lemma fetch_ok:
  assumes "healthy (pg_stream p)" and "has_block kPageSize i (file_of p)"
  shows "fetch i p = (Inr (block kPageSize i (file_of p)), p)"
  using assms by (simp add: fetch_def stream_read_healthy has_block_def block_def)

lemma pager_inv_scratch [simp]: "pager_inv (p\<lparr>scratch := d\<rparr>) = pager_inv p"
  by (simp add: pager_inv_def consistent_but_def cache_wf_def slot_ok_def)

lemma pager_view_scratch [simp]: "pager_view (p\<lparr>scratch := d\<rparr>) = pager_view p"
  by (rule ext) (simp add: pager_view_def split: option.split)

lemma read_page_ok:
  assumes inv: "pager_inv p" and view: "pager_view p i = Some d"
  shows "\<exists>q. read_page i p = (Inr d, q) \<and> pager_inv q \<and> pager_view q = pager_view p \<and>
             page_count q = page_count p \<and> cache_capacity q = cache_capacity p"
proof -
  have c: "consistent p" and len: "length (cache p) \<le> cache_capacity p"
    using inv by (simp_all add: pager_inv_def)
  note D = consistentD [OF c]
  have lt: "i < page_count p" using view by (simp add: pager_view_def split: if_splits)
  have uncached: "has_block kPageSize i (file_of p) \<and> block kPageSize i (file_of p) = d"
    if "map_of (cache p) i = None"
    using view that by (simp add: pager_view_def split: if_splits)
  consider (direct) "cache_capacity p = 0"
    | (hit) sl where "cache_capacity p \<noteq> 0" "map_of (cache p) i = Some sl"
    | (miss) "cache_capacity p \<noteq> 0" "map_of (cache p) i = None"
    by (cases "map_of (cache p) i") auto
  then show ?thesis
  proof cases
    case direct
    have "cache p = []" using direct len by simp
    then have b: "has_block kPageSize i (file_of p)" "block kPageSize i (file_of p) = d"
      using uncached by simp_all
    have "read_page i p = (Inr d, p\<lparr>scratch := d\<rparr>)"
      using direct lt b D(1) fetch_ok [of "p\<lparr>scratch := replicate kPageSize 0\<rparr>" i]
      by (simp add: read_page_def op_simps)
    with inv show ?thesis by simp
  next
    case (hit sl)
    obtain q where "touch_cache i p = (Inr (), q)" "same_pages {} p q" "cache q = cache p"
      using touch_cache_ok [OF c] by blast
    moreover have "sl_data sl = d" using hit view lt by (simp add: pager_view_def)
    ultimately show ?thesis
      using hit len by (auto simp: read_page_def op_simps same_pages_def pager_inv_def)
  next
    case miss
    have b: "has_block kPageSize i (file_of p)" "block kPageSize i (file_of p) = d"
      using miss uncached by simp_all
    have "puttable p i d False" using lt b by (auto simp: puttable_def length_block)
    then obtain q where q: "put_cache i d False p = (Inr (), q)" "put_result i d p q"
      "map_of (cache q) i = Some \<lparr>sl_data = d, sl_dirty = False\<rparr>"
      using put_cache_ok [of False i p d] c len miss(1) by auto
    have "load_page_from_disk i p = (Inr (), q)"
      using lt q(1) fetch_ok [OF D(1) b(1)] b(2)
      by (simp add: load_page_from_disk_def op_simps)
    then have "read_page i p = (Inr d, q)"
      using miss q(3) by (simp add: read_page_def op_simps)
    moreover have "pager_view q = pager_view p"
      using put_result_view [OF q(2)] view by auto
    ultimately show ?thesis using q(2) by (auto simp: put_result_def)
  qed
qed

lemma ensure_page_count_ok:
  assumes inv: "pager_inv p" and i: "i \<le> page_count p" "i + 1 < 2 ^ 32"
  shows "\<exists>q. ensure_page_count i p = (Inr (), q) \<and> consistent_but {i} q \<and>
             (\<forall>j. j \<noteq> i \<longrightarrow> pager_view q j = pager_view p j) \<and>
             page_count q = max (page_count p) (i + 1) \<and> cache_capacity q = cache_capacity p \<and>
             cache q = cache p"
proof (cases "i < page_count p")
  case True
  then show ?thesis
    using inv consistent_but_mono [of "{}" p "{i}"]
    by (auto simp: ensure_page_count_def modify_def pager_inv_def)
next
  case False
  with i(1) have i: "i = page_count p" and wrap: "(i + 1) mod 2 ^ 32 = i + 1"
    using i(2) by simp_all
  let ?q = "p\<lparr>page_count := i + 1\<rparr>"
  have "consistent_but {i} ?q"
    using inv i assms(3)
    by (auto simp: pager_inv_def consistent_but_def cache_wf_def slot_ok_def less_Suc_eq)
  moreover have "pager_view ?q j = pager_view p j" if "j \<noteq> i" for j
    using that i by (simp add: pager_view_def split: option.split)
  ultimately show ?thesis
    using False i wrap by (auto simp: ensure_page_count_def modify_def)
qed

lemma write_page_ok:
  assumes inv: "pager_inv p" and len: "length d = kPageSize"
    and i: "i \<le> page_count p" "i + 1 < 2 ^ 32"
  shows "\<exists>q. write_page i d p = (Inr (), q) \<and> pager_inv q \<and>
             pager_view q = (pager_view p)(i \<mapsto> d) \<and> page_count q = max (page_count p) (i + 1) \<and>
             cache_capacity q = cache_capacity p"
proof -
  obtain q where q: "ensure_page_count i p = (Inr (), q)" "consistent_but {i} q"
    "\<forall>j. j \<noteq> i \<longrightarrow> pager_view q j = pager_view p j" "page_count q = max (page_count p) (i + 1)"
    "cache_capacity q = cache_capacity p" "cache q = cache p"
    using ensure_page_count_ok [OF inv i] by blast
  have bound: "length (cache q) \<le> cache_capacity q" using inv q(5,6) by (simp add: pager_inv_def)
  have lt: "i < page_count q" using q(4) by simp
  obtain r where r: "put_cache i d True q = (Inr (), r)" "put_result i d q r"
    using put_cache_through [OF q(2) _ bound lt len] put_cache_ok [of True i q d] q(2) lt bound len
    by (cases "cache_capacity q = 0") (auto simp: puttable_def)
  have "write_page i d p = (Inr (), r)"
    using len q(1) r(1) by (simp add: write_page_def check_page_size_def op_simps)
  moreover have "pager_view r = (pager_view p)(i \<mapsto> d)"
    using r(2) q(3) by (auto simp: put_result_def)
  ultimately show ?thesis using r(2) q(4,5) by (auto simp: put_result_def)
qed

interpretation pages: page_store read_page write_page pager_inv pager_view page_count
    "\<lambda>d. length d = kPageSize" "\<lambda>_ d. d" cache_capacity
  by unfold_locales (blast intro: read_page_ok, rule write_page_ok)

section \<open>Flushing, closing and reopening\<close>

text \<open>Every page a client sees is in the file, with the content the client sees.\<close>

definition on_disk :: "pager \<Rightarrow> bool" where
  "on_disk p \<longleftrightarrow> (\<forall>i < page_count p. has_block kPageSize i (file_of p) \<and>
                    pager_view p i = Some (block kPageSize i (file_of p)))"

definition clean_slot :: "pager \<Rightarrow> nat \<Rightarrow> bool" where
  "clean_slot p i \<longleftrightarrow> (\<forall>sl. map_of (cache p) i = Some sl \<longrightarrow> \<not> sl_dirty sl)"

lemma clean_on_disk:
  assumes "consistent p" and "\<And>i. clean_slot p i"
  shows "on_disk p"
  unfolding on_disk_def
proof (intro allI impI)
  fix i
  assume lt: "i < page_count p"
  show "has_block kPageSize i (file_of p) \<and> pager_view p i = Some (block kPageSize i (file_of p))"
  proof (cases "map_of (cache p) i")
    case None
    then have "i \<notin> fst ` set (cache p)" by (simp add: map_of_None_notin)
    with None consistentD(7) [OF assms(1) lt] lt show ?thesis by (simp add: pager_view_def)
  next
    case (Some sl)
    with consistentD(6) [OF assms(1) Some] assms(2) [of i] lt show ?thesis
      by (simp add: pager_view_def slot_ok_def clean_slot_def)
  qed
qed

lemma flush_one_ok:
  assumes inv: "pager_inv p" and sl: "map_of (cache p) i = Some sl" and dirty: "sl_dirty sl"
  shows "put_result i (sl_data sl) p
           (p\<lparr>pg_stream := (pg_stream p)\<lparr>st_file := overwrite (i * kPageSize) (sl_data sl) (file_of p)\<rparr>,
              cache := AList.update i (sl\<lparr>sl_dirty := False\<rparr>) (cache p)\<rparr>)"
    (is "put_result i ?d p ?q")
proof -
  have c: "consistent p" and len: "length (cache p) \<le> cache_capacity p"
    using inv by (simp_all add: pager_inv_def)
  note D = consistentD [OF c]
  have ok: "i < page_count p" "length ?d = kPageSize"
    using D(6) [OF sl] by (simp_all add: slot_ok_def)
  define f where "f = overwrite (i * kPageSize) ?d (file_of p)"
  have fi: "has_block kPageSize i f" "block kPageSize i f = ?d"
    using ok(2) by (simp_all add: f_def has_block_overwrite_same block_overwrite_same)
  have fo: "has_block kPageSize j f \<and> block kPageSize j f = block kPageSize j (file_of p)"
    if "has_block kPageSize j (file_of p)" "j \<noteq> i" for j
    using that ok(2) by (simp add: f_def has_block_overwrite block_overwrite_other)
  let ?p = "p\<lparr>pg_stream := (pg_stream p)\<lparr>st_file := f\<rparr>\<rparr>"
  have all: "j \<in> fst ` set (cache p) \<or> has_block kPageSize j f" if "j < page_count p" for j
    using that D(7) [of j] fi fo [of j] by (cases "j = i") auto
  have slots: "slot_ok ?p j s" if "map_of (cache p) j = Some s" for j s
    using D(6) [OF that] fi fo [of j] sl that dirty by (cases "j = i") (auto simp: slot_ok_def)
  have blocks: "length f div kPageSize \<le> page_count p"
    unfolding f_def by (rule blocks_overwrite [OF ok(1) D(8) ok(2)])
  have c': "consistent ?p"
    using D(1-5) all slots blocks by (simp add: consistent_but_def cache_wf_def)
  have view: "pager_view ?p j = pager_view p j" for j
  proof (cases "map_of (cache p) j")
    case None
    then have "j \<notin> fst ` set (cache p)" by (simp add: map_of_None_notin)
    moreover have "j \<noteq> i" using sl None by auto
    ultimately show ?thesis using None D(7) [of j] fo [of j] by (auto simp: pager_view_def)
  qed (simp add: pager_view_def)
  have "put_result i ?d ?p (?p\<lparr>cache := AList.update i \<lparr>sl_data = ?d, sl_dirty = False\<rparr> (cache ?p)\<rparr>)"
    using put_cached [OF c', of i ?d False sl] len ok fi sl by (simp add: puttable_def)
  moreover have eq: "sl\<lparr>sl_dirty := False\<rparr> = \<lparr>sl_data = ?d, sl_dirty = False\<rparr>" by simp
  ultimately show ?thesis unfolding eq using view by (simp add: put_result_def f_def)
qed

lemma flush_slots_ok:
  assumes "pager_inv p"
  shows "\<exists>q. flush_slots is p = (Inr (), q) \<and> pager_inv q \<and> pager_view q = pager_view p \<and>
             page_count q = page_count p \<and> (\<forall>i. clean_slot p i \<or> i \<in> set is \<longrightarrow> clean_slot q i) \<and>
             pg_stream q = (pg_stream p)\<lparr>st_file := file_of q\<rparr>"
  using assms
proof (induction "is" arbitrary: p)
  case Nil
  then show ?case by simp
next
  case (Cons i "is")
  show ?case
  proof (cases "\<exists>sl. map_of (cache p) i = Some sl \<and> sl_dirty sl")
    case False
    then have "flush_slots (i # is) p = flush_slots is p" and "clean_slot p i"
      by (auto simp: clean_slot_def split: option.split)
    with Cons.IH [OF Cons.prems] show ?thesis by auto
  next
    case True
    then obtain sl where sl: "map_of (cache p) i = Some sl" "sl_dirty sl" by blast
    define q where "q = p\<lparr>pg_stream := (pg_stream p)\<lparr>st_file :=
        overwrite (i * kPageSize) (sl_data sl) (file_of p)\<rparr>,
      cache := AList.update i (sl\<lparr>sl_dirty := False\<rparr>) (cache p)\<rparr>"
    have pr: "put_result i (sl_data sl) p q"
      unfolding q_def by (rule flush_one_ok [OF Cons.prems sl])
    have h: "healthy (pg_stream p)"
      using Cons.prems consistentD(1) by (auto simp: pager_inv_def)
    have step: "flush_slots (i # is) p = flush_slots is q"
      using sl h by (simp add: op_simps write_back_healthy q_def)
    have "pager_view p i = Some (sl_data sl)"
      using pr sl consistentD(6) [of "{}" p i sl] Cons.prems
      by (auto simp: pager_view_def pager_inv_def slot_ok_def)
    then have view: "pager_view q = pager_view p" using put_result_view [OF pr] by auto
    have clean: "clean_slot q j" if "clean_slot p j \<or> j = i" for j
      using that by (auto simp: clean_slot_def q_def map_of_alist_update)
    have "pager_inv q" using pr by (simp add: put_result_def)
    from Cons.IH [OF this] show ?thesis
      unfolding step using view pr clean by (auto simp: put_result_def q_def)
  qed
qed

lemma flush_ok:
  assumes inv: "pager_inv p"
  shows "\<exists>q. flush p = (Inr (), q) \<and> pager_inv q \<and> pager_view q = pager_view p \<and>
             page_count q = page_count p \<and> on_disk q"
proof -
  have "st_open (pg_stream p)"
    using inv consistentD(1) by (auto simp: pager_inv_def healthy_def)
  then have fl: "flush p = flush_slots (map fst (cache p)) p"
    by (simp add: flush_def flush_dirty_pages_def)
  obtain q where q: "flush_slots (map fst (cache p)) p = (Inr (), q)" "pager_inv q"
    "pager_view q = pager_view p" "page_count q = page_count p"
    "\<forall>i. clean_slot p i \<or> i \<in> set (map fst (cache p)) \<longrightarrow> clean_slot q i"
    using flush_slots_ok [OF inv] by blast
  have "clean_slot q i" for i
  proof (cases "i \<in> fst ` set (cache p)")
    case True
    with q(5) show ?thesis by auto
  next
    case False
    then have "clean_slot p i" by (simp add: clean_slot_def map_of_None_notin [symmetric])
    with q(5) show ?thesis by blast
  qed
  then have "on_disk q" using q(2) by (auto simp: pager_inv_def intro: clean_on_disk)
  with q fl show ?thesis by auto
qed

lemma close_ok:
  assumes inv: "pager_inv p"
  shows "\<exists>q. close p = (Inr (), q) \<and> \<not> st_open (pg_stream q) \<and> cache q = [] \<and> page_count q = 0 \<and>
             length (file_of q) div kPageSize = page_count p \<and> st_faults (pg_stream q) = [] \<and>
             (\<forall>i < page_count p. has_block kPageSize i (file_of q) \<and>
                pager_view p i = Some (block kPageSize i (file_of q)))"
proof -
  obtain q where q: "flush p = (Inr (), q)" "pager_inv q" "pager_view q = pager_view p"
    "page_count q = page_count p" "on_disk q"
    using flush_ok [OF inv] by blast
  have c: "consistent q" using q(2) by (simp add: pager_inv_def)
  have "st_open (pg_stream p)"
    using inv consistentD(1) by (auto simp: pager_inv_def healthy_def)
  moreover have "length (file_of q) div kPageSize = page_count q"
    using q(5) consistentD(8) [OF c] by (intro blocks_count) (auto simp: on_disk_def)
  moreover have "st_faults (pg_stream q) = []" using consistentD(1) [OF c] by (simp add: healthy_def)
  ultimately show ?thesis
    using q by (auto simp: close_def op_simps clear_cache_def on_disk_def)
qed

text \<open>Opening a file from a closed pager, with nothing cached, shows the blocks of the file.\<close>

lemma open_ok:
  assumes "\<not> st_open (pg_stream p)" and "st_faults (pg_stream p) = []"
    and "length bytes div kPageSize < 2 ^ 32"
    and "bytes = (if create then [] else case existing of None \<Rightarrow> [] | Some b \<Rightarrow> b)"
  shows "\<exists>q. open_page_file path existing True create p = (Inr (), q) \<and> pager_inv q \<and>
             page_count q = length bytes div kPageSize \<and>
             (\<forall>i < page_count q. pager_view q i = Some (block kPageSize i bytes))"
proof -
  define q where "q = p\<lparr>pg_stream := (pg_stream p)\<lparr>st_open := True, st_good := True, st_file := bytes\<rparr>,
      pg_path := path, page_count := length bytes div kPageSize, lru := [], cache := []\<rparr>"
  have hb: "has_block kPageSize i bytes" if "i < length bytes div kPageSize" for i
  proof -
    have "Suc i * kPageSize \<le> length bytes"
      using that by (simp only: Suc_le_eq less_eq_div_iff_mult_less_eq [OF kPageSize_pos, symmetric])
    then show ?thesis by (simp add: has_block_def)
  qed
  have mod: "length bytes div kPageSize mod 2 ^ 32 = length bytes div kPageSize"
    using assms(3) by simp
  have "open_page_file path existing True create p = (Inr (), q)"
    using assms(1,4) mod
    by (simp add: open_page_file_def close_def op_simps clear_cache_def q_def Let_def)
  moreover have "pager_inv q"
    using hb assms(2,3)
    by (auto simp: q_def pager_inv_def consistent_but_def cache_wf_def healthy_def)
  moreover have "pager_view q i = Some (block kPageSize i bytes)" if "i < page_count q" for i
    using that hb by (simp add: q_def pager_view_def)
  ultimately show ?thesis by (auto simp: q_def)
qed

end
