(* ===== verification/PageFile.thy ===== *)
theory PageFile
  imports Pager_Correct
begin

text \<open>
  What the pager promises its clients, as a specification without a cache: a list of pages.
  The refinement theorem runs any history of calls on the pager and on the list and compares
  everything a client can observe; the others say what survives a close, what happens past
  the end, what the cache keeps and drops, and what a failing device can do.
\<close>

section \<open>The specification\<close>

datatype pager_call =
    CRead nat
  | CWrite nat "byte list"
  | CAllocate
  | CCapacity nat
  | CFlush

datatype answer = ABytes "byte list" | AId nat | ADone | AError error

fun pager_step :: "pager_call \<Rightarrow> pager \<Rightarrow> answer \<times> pager" where
  "pager_step (CRead i) p =
     (case read_page i p of (Inr d, q) \<Rightarrow> (ABytes d, q) | (Inl e, q) \<Rightarrow> (AError e, q))"
| "pager_step (CWrite i d) p =
     (case write_page i d p of (Inr _, q) \<Rightarrow> (ADone, q) | (Inl e, q) \<Rightarrow> (AError e, q))"
| "pager_step CAllocate p =
     (case allocate_page p of (Inr i, q) \<Rightarrow> (AId i, q) | (Inl e, q) \<Rightarrow> (AError e, q))"
| "pager_step (CCapacity n) p =
     (case set_cache_capacity n p of (Inr _, q) \<Rightarrow> (ADone, q) | (Inl e, q) \<Rightarrow> (AError e, q))"
| "pager_step CFlush p =
     (case flush p of (Inr _, q) \<Rightarrow> (ADone, q) | (Inl e, q) \<Rightarrow> (AError e, q))"

fun file_step :: "pager_call \<Rightarrow> byte list list \<Rightarrow> answer \<times> byte list list" where
  "file_step (CRead i) ps = (if i < length ps then (ABytes (ps ! i), ps) else (AError (past_end i), ps))"
| "file_step (CWrite i d) ps =
     (if length d \<noteq> kPageSize
      then (AError (Runtime_error (''Page size must be exactly '' @ nat_str kPageSize)), ps)
      else (ADone, if i < length ps then ps[i := d] else ps @ [d]))"
| "file_step CAllocate ps = (AId (length ps), ps @ [replicate kPageSize 0])"
| "file_step (CCapacity n) ps = (ADone, ps)"
| "file_step CFlush ps = (ADone, ps)"

fun run_calls :: "(pager_call \<Rightarrow> 's \<Rightarrow> answer \<times> 's) \<Rightarrow> pager_call list \<Rightarrow> 's \<Rightarrow> answer list \<times> 's" where
  "run_calls step [] s = ([], s)"
| "run_calls step (c # cs) s =
     (case step c s of (a, s') \<Rightarrow> (case run_calls step cs s' of (as, s'') \<Rightarrow> (a # as, s'')))"

text \<open>
  The calls the specification covers: a write extends the file by at most one page, as every
  caller in the sources does, and page ids stay below \<open>2 ^ 32\<close>.
\<close>

fun call_ok :: "pager_call \<Rightarrow> nat \<Rightarrow> bool" where
  "call_ok (CWrite i d) n \<longleftrightarrow> i \<le> n \<and> i + 1 < 2 ^ 32"
| "call_ok CAllocate n \<longleftrightarrow> n + 1 < 2 ^ 32"
| "call_ok _ _ \<longleftrightarrow> True"

fun calls_ok :: "pager_call list \<Rightarrow> byte list list \<Rightarrow> bool" where
  "calls_ok [] ps \<longleftrightarrow> True"
| "calls_ok (c # cs) ps \<longleftrightarrow> call_ok c (length ps) \<and> calls_ok cs (snd (file_step c ps))"

definition pages_of :: "pager \<Rightarrow> byte list list" where
  "pages_of p = map (\<lambda>i. the (pager_view p i)) [0..<page_count p]"

section \<open>One call\<close>

lemma length_pages_of [simp]: "length (pages_of p) = page_count p"
  by (simp add: pages_of_def)

lemma pager_inv_consistent: "pager_inv p \<Longrightarrow> consistent p"
  by (simp add: pager_inv_def)

lemma pages_of_nth: "pager_inv p \<Longrightarrow> i < page_count p \<Longrightarrow> pager_view p i = Some (pages_of p ! i)"
  using pager_view_total [of p i] by (auto simp: pages_of_def pager_inv_def)

lemma pages_of_eqI:
  assumes "page_count p = length ps" and "\<And>i. i < length ps \<Longrightarrow> pager_view p i = Some (ps ! i)"
  shows "pages_of p = ps"
  using assms by (auto simp: pages_of_def intro: nth_equalityI)

lemma read_past_end:
  assumes inv: "pager_inv p" and i: "page_count p \<le> i"
  shows "read_page i p = (Inl (past_end i), p)"
proof -
  have "map_of (cache p) i = None"
    using consistentD(6) [OF pager_inv_consistent [OF inv], of i] i
    by (cases "map_of (cache p) i") (auto simp: slot_ok_def)
  with i show ?thesis by (simp add: read_page_def load_page_from_disk_def op_simps)
qed

lemma write_bad_size:
  "length d \<noteq> kPageSize \<Longrightarrow> write_page i d p =
     (Inl (Runtime_error (''Page size must be exactly '' @ nat_str kPageSize)), p)"
  by (simp add: write_page_def check_page_size_def op_simps)

lemma set_cache_capacity_ok:
  assumes "pager_inv p"
  shows "\<exists>q. set_cache_capacity n p = (Inr (), q) \<and> pager_inv q \<and> pager_view q = pager_view p \<and>
             page_count q = page_count p \<and> cache_capacity q = n"
proof -
  let ?p = "p\<lparr>cache_capacity := n\<rparr>"
  have "consistent ?p" and v: "pager_view ?p = pager_view p"
    using assms
    by (auto simp: pager_inv_def consistent_but_def cache_wf_def slot_ok_def pager_view_def
        split: option.split)
  then obtain q where "evict_down_to n ?p = (Inr (), q)" "same_pages {} ?p q" "length (cache q) \<le> n"
    using evict_down_to_ok [of "{}" ?p n] by blast
  then show ?thesis
    using v by (auto simp: set_cache_capacity_def op_simps same_pages_def pager_inv_def)
qed

lemma allocate_page_ok:
  assumes inv: "pager_inv p" and room: "page_count p + 1 < 2 ^ 32"
  shows "\<exists>q. allocate_page p = (Inr (page_count p), q) \<and> pager_inv q \<and>
             pager_view q = (pager_view p)(page_count p \<mapsto> replicate kPageSize 0) \<and>
             page_count q = page_count p + 1 \<and> cache_capacity q = cache_capacity p"
  using write_page_ok [OF inv, of "replicate kPageSize 0" "page_count p"] room
  by (auto simp: allocate_page_def op_simps)

text \<open>What one call answers and does, from the rules of the operations.\<close>

lemma pager_step_ok:
  assumes inv: "pager_inv p" and ok: "call_ok c (page_count p)"
  shows "\<exists>q. pager_step c p = (fst (file_step c (pages_of p)), q) \<and> pager_inv q \<and>
             pages_of q = snd (file_step c (pages_of p))"
proof (cases c)
  case (CRead i)
  show ?thesis
  proof (cases "i < page_count p")
    case True
    with read_page_ok [OF inv pages_of_nth [OF inv True]] CRead show ?thesis
      by (auto simp: pages_of_def)
  next
    case False
    with read_past_end [OF inv, of i] inv CRead show ?thesis by simp
  qed
next
  case (CWrite i d)
  show ?thesis
  proof (cases "length d = kPageSize")
    case False
    with write_bad_size CWrite inv show ?thesis by simp
  next
    case True
    obtain q where q: "write_page i d p = (Inr (), q)" "pager_inv q"
      "pager_view q = (pager_view p)(i \<mapsto> d)" "page_count q = max (page_count p) (i + 1)"
      using write_page_ok [OF inv True, of i] ok CWrite by auto
    have "pages_of q = (if i < page_count p then (pages_of p)[i := d] else pages_of p @ [d])"
      using q ok CWrite pages_of_nth [OF inv]
      by (intro pages_of_eqI) (auto simp: nth_append nth_list_update less_Suc_eq)
    with q True CWrite show ?thesis by simp
  qed
next
  case CAllocate
  obtain q where q: "allocate_page p = (Inr (page_count p), q)" "pager_inv q"
    "pager_view q = (pager_view p)(page_count p \<mapsto> replicate kPageSize 0)"
    "page_count q = page_count p + 1"
    using allocate_page_ok [OF inv] ok CAllocate by auto
  have "pages_of q = pages_of p @ [replicate kPageSize 0]"
    using q pages_of_nth [OF inv] by (intro pages_of_eqI) (auto simp: nth_append less_Suc_eq)
  with q CAllocate show ?thesis by simp
next
  case (CCapacity n)
  with set_cache_capacity_ok [OF inv, of n] show ?thesis by (auto simp: pages_of_def)
next
  case CFlush
  with flush_ok [OF inv] show ?thesis by (auto simp: pages_of_def)
qed

lemma run_calls_ok:
  assumes "pager_inv p" and "calls_ok cs (pages_of p)"
  shows "\<exists>q. run_calls pager_step cs p = (fst (run_calls file_step cs (pages_of p)), q) \<and> pager_inv q \<and>
             pages_of q = snd (run_calls file_step cs (pages_of p))"
  using assms
proof (induction cs arbitrary: p)
  case Nil
  then show ?case by simp
next
  case (Cons c cs)
  obtain q where q: "pager_step c p = (fst (file_step c (pages_of p)), q)" "pager_inv q"
    "pages_of q = snd (file_step c (pages_of p))"
    using pager_step_ok [of p c] Cons.prems by auto
  from Cons.IH [of q] Cons.prems q show ?case
    by (auto simp: case_prod_unfold)
qed

section \<open>Replacement order\<close>

lemma length_lru: "consistent_but H p \<Longrightarrow> length (lru p) = length (cache p)"
  using consistentD(2-4) [of H p] length_alist [of "cache p"] distinct_card [of "lru p"] by simp

lemma evict_one_step:
  assumes "consistent p" and "length (cache p) = n + 1"
  shows "\<exists>q. evict_down_to n p = (Inr (), q) \<and> lru q = take n (lru p)"
proof -
  have len: "length (lru p) = n + 1" using length_lru [OF assms(1)] assms(2) by simp
  then have ne: "lru p \<noteq> []" by auto
  obtain q where q: "evict_one p = (Inr (), q)" "length (cache q) = length (cache p) - 1"
    "lru q = butlast (lru p)"
    using evict_one_ok [OF assms(1) ne] by blast
  have "evict_down_to n q = (Inr (), q)"
    using q(2) assms(2) by (simp add: evict_down_to.simps [of n q])
  then have "evict_down_to n p = (Inr (), q)"
    using q(1) ne assms(2) by (simp add: evict_down_to.simps [of n p])
  then show ?thesis using q(3) len by (auto simp: butlast_conv_take)
qed

lemma evict_at_most_one:
  assumes "consistent p" and "length (cache p) \<le> n + 1"
  shows "\<exists>q. evict_down_to n p = (Inr (), q) \<and> lru q = take n (lru p)"
proof (cases "length (cache p) \<le> n")
  case True
  then show ?thesis using length_lru [OF assms(1)] by (simp add: evict_down_to.simps [of n p])
next
  case False
  then have "length (cache p) = n + 1" using assms(2) by simp
  then show ?thesis using evict_one_step [OF assms(1), of n] by blast
qed

lemma put_cache_lru:
  assumes c: "consistent_but {} p" and cap: "cache_capacity p = Suc n"
    and len: "length (cache p) \<le> cache_capacity p" and new: "map_of (cache p) i = None"
    and put: "put_cache i d b p = (Inr (), q)"
  shows "lru q = take (cache_capacity p) (i # remove1 i (lru p))"
proof -
  obtain r where r: "evict_down_to n p = (Inr (), r)" "lru r = take n (lru p)"
    using evict_at_most_one [OF c, of n] len cap by auto
  have "i \<notin> set (lru p)"
    using consistentD(4) [OF c] new by (simp add: map_of_None_notin)
  with r put cap new show ?thesis
    by (auto simp: put_cache_def op_simps check_page_size_def remove1_idem split: if_splits)
qed

lemma read_page_lru:
  assumes inv: "pager_inv p" and cap: "cache_capacity p \<noteq> 0" and i: "i < page_count p"
    and read: "read_page i p = (Inr d, q)"
  shows "lru q = take (cache_capacity p) (i # remove1 i (lru p))"
proof (cases "map_of (cache p) i")
  case None
  have c: "consistent p" and len: "length (cache p) \<le> cache_capacity p"
    using inv by (simp_all add: pager_inv_def)
  note D = consistentD [OF c]
  have b: "has_block kPageSize i (file_of p)"
    using D(7) [OF i] None by (simp add: map_of_None_notin)
  obtain n where n: "cache_capacity p = Suc n" using cap by (cases "cache_capacity p") auto
  from read None cap i fetch_ok [OF D(1) b]
  have "put_cache i (block kPageSize i (file_of p)) False p = (Inr (), q)"
    by (auto simp: read_page_def load_page_from_disk_def op_simps split: prod.splits sum.splits option.splits)
  then show ?thesis using put_cache_lru [OF c n len None] by blast
next
  case (Some sl)
  have c: "consistent p" and len: "length (cache p) \<le> cache_capacity p"
    using inv by (simp_all add: pager_inv_def)
  have "i \<in> set (lru p)" using consistentD(4) [OF c] Some by (metis map_of_None_notin option.distinct(1))
  then have "length (i # remove1 i (lru p)) \<le> cache_capacity p"
    using length_lru [OF c] len by (simp add: length_remove1) (metis One_nat_def Suc_pred length_pos_if_in_set)
  moreover have "lru q = i # remove1 i (lru p)"
    using read Some cap by (auto simp: read_page_def op_simps touch_cache_def)
  ultimately show ?thesis by simp
qed

section \<open>Results\<close>

text \<open>A pager on a new file: the start state of the examples below.\<close>

definition fresh_pager :: pager where
  "fresh_pager = snd (open_page_file ''data'' None True True (new_pager []))"

lemma fresh_pager_ok: "pager_inv fresh_pager \<and> page_count fresh_pager = 0 \<and> pages_of fresh_pager = []"
  using open_ok [of "new_pager []" "[]" True None "''data''"]
  by (auto simp: fresh_pager_def new_pager_def closed_stream_def pages_of_def)

text \<open>C29: Whatever the cache size and whatever is evicted when, a pager answers every history of
  reads, writes, allocations, capacity changes and flushes exactly as a plain list of pages
  does, errors included, and never holds more slots than its capacity.\<close>

theorem pager_refines_page_list:
  assumes "pager_inv p" and "calls_ok cs (pages_of p)"
  shows "\<exists>q. run_calls pager_step cs p = (fst (run_calls file_step cs (pages_of p)), q) \<and>
             pager_inv q \<and> pages_of q = snd (run_calls file_step cs (pages_of p)) \<and>
             length (cache q) \<le> cache_capacity q"
  using run_calls_ok [OF assms] by (auto simp: pager_inv_def)

definition example_calls :: "pager_call list" where
  "example_calls = [CAllocate, CWrite 0 (replicate kPageSize 7), CCapacity 0, CRead 0, CRead 1]"

lemma example_calls_ok: "calls_ok example_calls []"
  by (simp add: example_calls_def)

lemma pager_refines_page_list_witness:
  "\<exists>q. run_calls pager_step example_calls fresh_pager =
         ([AId 0, ADone, ADone, ABytes (replicate kPageSize 7), AError (past_end 1)], q) \<and>
       length (cache q) \<le> cache_capacity q"
  using pager_refines_page_list [of fresh_pager example_calls] fresh_pager_ok example_calls_ok
  by (auto simp: example_calls_def)

text \<open>Closing a pager and opening the file again with a new pager shows the same pages.\<close>

theorem close_then_reopen:
  assumes "pager_inv p"
  shows "\<exists>q r. close p = (Inr (), q) \<and>
           open_page_file path (Some (file_of q)) True False (new_pager []) = (Inr (), r) \<and>
           pager_inv r \<and> pages_of r = pages_of p"
proof -
  obtain q where q: "close p = (Inr (), q)" "length (file_of q) div kPageSize = page_count p"
    "\<forall>i < page_count p. has_block kPageSize i (file_of q) \<and>
       pager_view p i = Some (block kPageSize i (file_of q))"
    using close_ok [OF assms] by blast
  have "length (file_of q) div kPageSize < 2 ^ 32"
    using q(2) consistentD(5) [OF pager_inv_consistent [OF assms]] by simp
  then obtain r where "open_page_file path (Some (file_of q)) True False (new_pager []) = (Inr (), r)"
    "pager_inv r" "page_count r = page_count p"
    "\<forall>i < page_count r. pager_view r i = Some (block kPageSize i (file_of q))"
    using open_ok [of "new_pager []" "file_of q" False "Some (file_of q)" path] q(2)
    by (auto simp: new_pager_def closed_stream_def)
  then show ?thesis using q by (auto simp: pages_of_def)
qed

lemma close_then_reopen_witness:
  "\<exists>q r. close fresh_pager = (Inr (), q) \<and>
     open_page_file ''data'' (Some (file_of q)) True False (new_pager []) = (Inr (), r) \<and> pages_of r = []"
  using close_then_reopen [of fresh_pager "''data''"] fresh_pager_ok by metis

text \<open>After a flush nothing is lost in a crash: a new pager on the file as it is then shows
  the same pages, and the flushed pager still does.\<close>

theorem flush_is_durable:
  assumes "pager_inv p"
  shows "\<exists>q r. flush p = (Inr (), q) \<and> pager_inv q \<and> pages_of q = pages_of p \<and>
           open_page_file path (Some (file_of q)) True False (new_pager []) = (Inr (), r) \<and>
           pages_of r = pages_of p"
proof -
  obtain q where q: "flush p = (Inr (), q)" "pager_inv q" "pager_view q = pager_view p"
    "page_count q = page_count p" "on_disk q"
    using flush_ok [OF assms] by blast
  note D = consistentD [OF pager_inv_consistent [OF q(2)]]
  have "length (file_of q) div kPageSize = page_count q"
    using q(5) D(8) by (intro blocks_count) (auto simp: on_disk_def)
  then obtain r where "open_page_file path (Some (file_of q)) True False (new_pager []) = (Inr (), r)"
    "page_count r = page_count q"
    "\<forall>i < page_count r. pager_view r i = Some (block kPageSize i (file_of q))"
    using open_ok [of "new_pager []" "file_of q" False "Some (file_of q)" path] D(5)
    by (auto simp: new_pager_def closed_stream_def)
  then show ?thesis using q by (auto simp: pages_of_def on_disk_def)
qed

lemma flush_is_durable_witness:
  "\<exists>q r. flush fresh_pager = (Inr (), q) \<and>
     open_page_file ''data'' (Some (file_of q)) True False (new_pager []) = (Inr (), r) \<and> pages_of r = []"
  using flush_is_durable [of fresh_pager "''data''"] fresh_pager_ok by metis

text \<open>The replacement policy is least recently used: reading a page puts it in front of the
  others, whose order stays, and what no longer fits the capacity is dropped from the other end.\<close>

theorem read_page_is_lru:
  assumes "pager_inv p" and "cache_capacity p \<noteq> 0" and "i < page_count p"
  shows "\<exists>d q. read_page i p = (Inr d, q) \<and> lru q = take (cache_capacity p) (i # remove1 i (lru p))"
  using read_page_ok [OF assms(1) pages_of_nth [OF assms(1,3)]] read_page_lru [OF assms] by blast

lemma read_page_is_lru_witness:
  "\<exists>d q. read_page 0 (snd (allocate_page fresh_pager)) = (Inr d, q) \<and>
         lru q = take 64 (0 # remove1 0 (lru (snd (allocate_page fresh_pager))))"
proof -
  obtain q where "allocate_page fresh_pager = (Inr 0, q)" "pager_inv q" "page_count q = 1"
    "cache_capacity q = 64"
    using allocate_page_ok [of fresh_pager] fresh_pager_ok
    by (auto simp: fresh_pager_def open_page_file_def op_simps new_pager_def close_def
        closed_stream_def clear_cache_def kDefaultPageCacheCapacity_def)
  then show ?thesis using read_page_is_lru [of q 0] by simp
qed

text \<open>When the write-back of an eviction fails, the page is not lost from memory: the call
  reports which page it was, and the slot is still cached, still dirty and still next to go.\<close>

theorem failed_eviction_keeps_page:
  assumes "lru p \<noteq> []" and "map_of (cache p) (last (lru p)) = Some sl" and "sl_dirty sl"
    and "st_open (pg_stream p)" and "st_good (pg_stream p)" and "next_fault (pg_stream p) = Some k"
  shows "\<exists>q. evict_one p = (Inl (Runtime_error (''Write failed while evicting page '' @
                                                 nat_str (last (lru p)))), q) \<and>
             cache q = cache p \<and> lru q = lru p \<and> page_count q = page_count p"
  using assms by (simp add: evict_one_def Let_def op_simps write_back_def stream_write_def)

definition dirty_pager :: pager where
  "dirty_pager = fresh_pager\<lparr>page_count := 1, lru := [0],
     cache := [(0, \<lparr>sl_data = replicate kPageSize 7, sl_dirty = True\<rparr>)],
     pg_stream := \<lparr>st_open = True, st_good = True, st_file = [], st_faults = [Some 100]\<rparr>\<rparr>"

lemma failed_eviction_keeps_page_witness:
  "\<exists>q. evict_one dirty_pager = (Inl (Runtime_error (''Write failed while evicting page '' @ nat_str 0)), q) \<and>
       cache q = cache dirty_pager"
  using failed_eviction_keeps_page [of dirty_pager "\<lparr>sl_data = replicate kPageSize 7, sl_dirty = True\<rparr>" 100]
  by (auto simp: dirty_pager_def next_fault_def)

end
