(* ===== verification/StringPool.thy ===== *)
theory StringPool
  imports Prelude
begin

text \<open>
  \<open>cw_db::StringPool\<close> (include/core/string_pool.h, src/core/string_pool.cpp): one copy of
  each distinct string, named by a 32-bit id. The hash map \<open>by_value_\<close> is an association
  list, the vector \<open>by_id_\<close> a list whose entry 0 is the sentinel. The mutex makes every
  method one step.
\<close>

section \<open>The pool and its methods\<close>

record string_pool =
  by_value :: "(string \<times> nat) list"
  by_id :: "string list"

definition kInvalid :: nat where
  "kInvalid = 0"

definition new_pool :: string_pool where
  "new_pool = \<lparr>by_value = [], by_id = [[]]\<rparr>"

definition intern :: "string \<Rightarrow> string_pool \<Rightarrow> nat \<times> string_pool" where
  "intern s pool =
     (case map_of (by_value pool) s of
        Some sid \<Rightarrow> (sid, pool)
      | None \<Rightarrow>
          let sid = length (by_id pool) mod 2 ^ 32
          in (sid, pool\<lparr>by_id := by_id pool @ [s], by_value := (s, sid) # by_value pool\<rparr>))"

definition pool_get :: "string_pool \<Rightarrow> nat \<Rightarrow> error + string" where
  "pool_get pool sid =
     (if sid = kInvalid \<or> length (by_id pool) \<le> sid
      then Inl (Out_of_range ''StringPool: invalid id'')
      else Inr (by_id pool ! sid))"

definition pool_size :: "string_pool \<Rightarrow> nat" where
  "pool_size pool = length (by_id pool) - 1"

section \<open>The two containers agree\<close>

text \<open>
  The map sends a string to the id at which the vector holds it, no string occurs twice, and
  there is room for one more id of 32 bits.
\<close>

definition pool_inv :: "string_pool \<Rightarrow> bool" where
  "pool_inv pool \<longleftrightarrow> by_id pool \<noteq> [] \<and> length (by_id pool) \<le> 2 ^ 32 \<and>
     (\<forall>s sid. map_of (by_value pool) s = Some sid \<longleftrightarrow>
        0 < sid \<and> sid < length (by_id pool) \<and> by_id pool ! sid = s)"

lemma pool_inv_new: "pool_inv new_pool"
  by (auto simp: pool_inv_def new_pool_def)

lemma pool_get_iff:
  "pool_get pool sid = Inr s \<longleftrightarrow> 0 < sid \<and> sid < length (by_id pool) \<and> by_id pool ! sid = s"
  by (auto simp: pool_get_def kInvalid_def)

lemma pool_invD:
  assumes "pool_inv pool"
  shows "map_of (by_value pool) s = Some sid \<longleftrightarrow> pool_get pool sid = Inr s"
  using assms by (auto simp: pool_inv_def pool_get_iff)

lemma pool_get_inj:
  assumes "pool_inv pool" and "pool_get pool a = Inr s" and "pool_get pool b = Inr s"
  shows "a = b"
  using assms by (metis option.inject pool_invD)

lemma intern_ok:
  assumes inv: "pool_inv pool" and room: "length (by_id pool) < 2 ^ 32"
    and eq: "intern s pool = (sid, pool')"
  shows "pool_inv pool'" "pool_get pool' sid = Inr s"
    "pool_get pool j = Inr t \<Longrightarrow> pool_get pool' j = Inr t"
    "length (by_id pool') \<le> length (by_id pool) + 1"
proof -
  have "pool_inv pool' \<and> pool_get pool' sid = Inr s \<and>
      (pool_get pool j = Inr t \<longrightarrow> pool_get pool' j = Inr t) \<and>
      length (by_id pool') \<le> length (by_id pool) + 1"
  proof (cases "map_of (by_value pool) s")
    case (Some i)
    with eq inv show ?thesis by (auto simp: intern_def pool_invD)
  next
    case None
    let ?n = "length (by_id pool)"
    have n: "0 < ?n" using inv by (simp add: pool_inv_def)
    have sid: "sid = ?n" and pool': "pool' = pool\<lparr>by_id := by_id pool @ [s],
                                                by_value := (s, ?n) # by_value pool\<rparr>"
      using eq None room by (auto simp: intern_def Let_def)
    have new: "\<not> (0 < i \<and> i < ?n \<and> by_id pool ! i = s)" for i
      using inv None unfolding pool_inv_def by (metis option.distinct(1))
    have old: "map_of (by_value pool) u = Some i \<longleftrightarrow> 0 < i \<and> i < ?n \<and> by_id pool ! i = u" for u i
      using inv by (simp add: pool_inv_def)
    have "pool_inv pool'"
      unfolding pool_inv_def
    proof (intro conjI allI)
      show "by_id pool' \<noteq> []" and "length (by_id pool') \<le> 2 ^ 32"
        using room by (simp_all add: pool')
      fix u i
      show "map_of (by_value pool') u = Some i \<longleftrightarrow>
          0 < i \<and> i < length (by_id pool') \<and> by_id pool' ! i = u"
        using n new old by (cases "i = ?n") (auto simp: pool' nth_append less_Suc_eq)
    qed
    moreover have "pool_get pool j = Inr t \<longrightarrow> pool_get pool' j = Inr t"
      by (auto simp: pool_get_iff pool' nth_append)
    ultimately show ?thesis
      using n by (auto simp: pool_get_iff pool' sid)
  qed
  then show "pool_inv pool'" "pool_get pool' sid = Inr s"
    "pool_get pool j = Inr t \<Longrightarrow> pool_get pool' j = Inr t"
    "length (by_id pool') \<le> length (by_id pool) + 1"
    by simp_all
qed

end
