(* ===== verification/Values.thy ===== *)
theory Values
  imports StringPool "HOL-Library.List_Lexorder" "HOL-Library.Char_ord"
begin

text \<open>
  \<open>cw_db::Value\<close> and \<open>DataType\<close> (include/core/value.h, src/core/value.cpp), and the ordering
  \<open>ValueLess\<close> built on \<open>Value::compare\<close>. A value holds either nothing, a 64-bit integer or
  the id of an interned string: that is \<open>ivalue\<close>, whose operations take the pool. Everything
  above this layer only ever compares, encodes and prints values, so it is stated over
  \<open>Value\<close>, where the id is replaced by the string it names; the refinement lemmas say that
  both give the same answers.
\<close>

section \<open>Column types\<close>

datatype DataType = TInt | TStr

definition type_name :: "DataType \<Rightarrow> string" where
  "type_name t = (case t of TInt \<Rightarrow> ''int'' | TStr \<Rightarrow> ''string'')"

text \<open>\<open>std::tolower\<close> in the C locale.\<close>

definition tolower :: "char \<Rightarrow> char" where
  "tolower c = (if CHR ''A'' \<le> c \<and> c \<le> CHR ''Z'' then char_of (of_char c + 32 :: nat) else c)"

definition parse_type_name :: "string \<Rightarrow> DataType option" where
  "parse_type_name word =
     (let low = map tolower word
      in if low = ''int'' \<or> low = ''integer'' then Some TInt
         else if low = ''string'' \<or> low = ''str'' \<or> low = ''text'' then Some TStr
         else None)"

section \<open>Values\<close>

datatype ivalue = INull | IInt "64 word" | IStr nat

datatype Value = VNull | VInt "64 word" | VStr string

fun is_null :: "Value \<Rightarrow> bool" where
  "is_null VNull = True"
| "is_null _ = False"

fun matches :: "Value \<Rightarrow> DataType \<Rightarrow> bool" where
  "matches VNull t = True"
| "matches (VInt _) t = (t = TInt)"
| "matches (VStr _) t = (t = TStr)"

text \<open>
  Three-way comparison: the sign of the result and the flag \<open>valid\<close>. A NULL operand and
  operands of different types clear the flag and yield 0.
\<close>

definition three_way :: "'a::linorder \<Rightarrow> 'a \<Rightarrow> int" where
  "three_way a b = (if a < b then -1 else if b < a then 1 else 0)"

fun Value_compare :: "Value \<Rightarrow> Value \<Rightarrow> int \<times> bool" where
  "Value_compare VNull _ = (0, False)"
| "Value_compare _ VNull = (0, False)"
| "Value_compare (VInt a) (VInt b) = (three_way (sint a) (sint b), True)"
| "Value_compare (VStr a) (VStr b) = (three_way a b, True)"
| "Value_compare _ _ = (0, False)"

definition ValueLess :: "Value \<Rightarrow> Value \<Rightarrow> bool" where
  "ValueLess a b \<longleftrightarrow> fst (Value_compare a b) < 0"

section \<open>Interned values\<close>

text \<open>
  \<open>compare\<close> is \<open>noexcept\<close> and calls \<open>as_str\<close>, which throws on an id the pool does not know:
  the left injection is the call of \<open>std::terminate\<close> that would follow.
\<close>

fun ivalue_compare :: "string_pool \<Rightarrow> ivalue \<Rightarrow> ivalue \<Rightarrow> error + (int \<times> bool)" where
  "ivalue_compare pool INull _ = Inr (0, False)"
| "ivalue_compare pool _ INull = Inr (0, False)"
| "ivalue_compare pool (IInt a) (IInt b) = Inr (three_way (sint a) (sint b), True)"
| "ivalue_compare pool (IStr a) (IStr b) =
     (if a = b then Inr (0, True)
      else case pool_get pool a of
        Inl e \<Rightarrow> Inl e
      | Inr s \<Rightarrow> (case pool_get pool b of
                  Inl e \<Rightarrow> Inl e
                | Inr t \<Rightarrow> Inr (three_way s t, True)))"
| "ivalue_compare pool _ _ = Inr (0, False)"

fun ivalue_eq :: "ivalue \<Rightarrow> ivalue \<Rightarrow> bool" where
  "ivalue_eq INull INull = True"
| "ivalue_eq (IInt a) (IInt b) = (a = b)"
| "ivalue_eq (IStr a) (IStr b) = (a = b)"
| "ivalue_eq _ _ = False"

fun of_value :: "Value \<Rightarrow> string_pool \<Rightarrow> ivalue \<times> string_pool" where
  "of_value VNull pool = (INull, pool)"
| "of_value (VInt i) pool = (IInt i, pool)"
| "of_value (VStr s) pool = (case intern s pool of (sid, pool') \<Rightarrow> (IStr sid, pool'))"

text \<open>The content an interned value stands for.\<close>

fun resolve :: "string_pool \<Rightarrow> ivalue \<Rightarrow> Value option" where
  "resolve pool INull = Some VNull"
| "resolve pool (IInt i) = Some (VInt i)"
| "resolve pool (IStr sid) = (case pool_get pool sid of Inl _ \<Rightarrow> None | Inr s \<Rightarrow> Some (VStr s))"

lemma resolve_IStr: "resolve pool (IStr sid) = Some v \<longleftrightarrow> (\<exists>s. pool_get pool sid = Inr s \<and> v = VStr s)"
  by (auto split: sum.splits)

lemma ivalue_eq_iff: "ivalue_eq a b \<longleftrightarrow> a = b"
  by (cases "(a, b)" rule: ivalue_eq.cases) auto

lemma resolve_inj:
  assumes "pool_inv pool" and "resolve pool a = Some v" and "resolve pool b = Some v"
  shows "a = b"
  using assms by (cases a; cases b) (auto split: sum.splits dest: pool_get_inj)

lemma ivalue_compare_resolve:
  assumes inv: "pool_inv pool" and a: "resolve pool a = Some v" and b: "resolve pool b = Some w"
  shows "ivalue_compare pool a b = Inr (Value_compare v w)"
  using a b
proof (induction pool a b rule: ivalue_compare.induct)
  case (4 pool a b)
  then show ?case by (auto simp: three_way_def split: sum.splits)
qed (auto split: sum.splits)

section \<open>The ordering of keys\<close>

text \<open>
  A total order on values that agrees with \<open>compare\<close> wherever the comparison is valid. It
  lets the library's \<open>sorted\<close>, \<open>sort\<close> and order lemmas speak about index keys.
\<close>

lemma sint_inject: "sint (a :: 64 word) = sint b \<longleftrightarrow> a = b"
  by (metis signed_word_eqI)

instantiation Value :: linorder
begin

fun less_eq_Value :: "Value \<Rightarrow> Value \<Rightarrow> bool" where
  "less_eq_Value VNull _ = True"
| "less_eq_Value (VInt a) (VInt b) = (sint a \<le> sint b)"
| "less_eq_Value (VInt a) (VStr t) = True"
| "less_eq_Value (VStr s) (VStr t) = (s \<le> t)"
| "less_eq_Value _ _ = False"

definition less_Value :: "Value \<Rightarrow> Value \<Rightarrow> bool" where
  "less_Value v w \<longleftrightarrow> v \<le> w \<and> \<not> w \<le> v"

instance
proof
  fix x y z :: Value
  show "x < y \<longleftrightarrow> x \<le> y \<and> \<not> y \<le> x" by (rule less_Value_def)
  show "x \<le> x" by (cases x) simp_all
  show "x \<le> y \<Longrightarrow> y \<le> z \<Longrightarrow> x \<le> z" by (cases x; cases y; cases z) simp_all
  show "x \<le> y \<Longrightarrow> y \<le> x \<Longrightarrow> x = y" by (cases x; cases y) (auto simp: sint_inject)
  show "x \<le> y \<or> y \<le> x" by (cases x; cases y) auto
qed

end

text \<open>The type of the keys of one index: every key of the index has it, and none is NULL.\<close>

fun typed :: "DataType \<Rightarrow> Value \<Rightarrow> bool" where
  "typed t VNull = False"
| "typed t (VInt _) = (t = TInt)"
| "typed t (VStr _) = (t = TStr)"

lemma typed_iff: "typed t v \<longleftrightarrow> \<not> is_null v \<and> matches v t"
  by (cases v) auto

lemma Value_compare_typed:
  assumes "typed t v" and "typed t w"
  shows "Value_compare v w = (three_way v w, True)"
  using assms
  by (cases v; cases w) (auto simp: three_way_def less_Value_def sint_inject)

lemma three_way_simps [simp]:
  "three_way a b < 0 \<longleftrightarrow> a < b" "three_way a b = 0 \<longleftrightarrow> a = b" "three_way a b \<le> 0 \<longleftrightarrow> a \<le> b"
  "0 \<le> three_way a b \<longleftrightarrow> b \<le> a" "0 < three_way a b \<longleftrightarrow> b < a"
  by (auto simp: three_way_def)

lemma Value_compare_null [simp]: "Value_compare v VNull = (0, False)"
  by (cases v) simp_all

lemma ValueLess_typed: "typed t v \<Longrightarrow> typed t w \<Longrightarrow> ValueLess v w \<longleftrightarrow> v < w"
  by (simp add: ValueLess_def Value_compare_typed)

end
