(* ===== verification/Codec.thy ===== *)
theory Codec
  imports Prelude
begin

text \<open>
  The interface of a self-delimiting byte encoding: decoding an image followed by anything
  gives the value back and says how many bytes it took. Clients write images one after
  another and read them back in the same order.
\<close>

locale codec =
  fixes enc :: "'a \<Rightarrow> byte list"
    and dec :: "byte list \<Rightarrow> error + ('a \<times> nat)"
    and good :: "'a \<Rightarrow> bool"
  assumes dec_enc: "good x \<Longrightarrow> dec (enc x @ rest) = Inr (x, length (enc x))"
    and enc_nonempty: "enc x \<noteq> []"
begin

lemma enc_inject: "good x \<Longrightarrow> good y \<Longrightarrow> enc x = enc y \<longleftrightarrow> x = y"
  by (metis dec_enc prod.inject sum.inject(2))

text \<open>No image is a proper prefix of another.\<close>

lemma prefix_free:
  assumes "good x" and "good y" and eq: "enc x @ r = enc y @ r'"
  shows "x = y \<and> r = r'"
proof -
  have "dec (enc x @ r) = Inr (x, length (enc x))" and "dec (enc y @ r') = Inr (y, length (enc y))"
    using assms(1,2) by (simp_all only: dec_enc)
  with eq have "x = y" by simp
  with eq show ?thesis by simp
qed

lemma stream_inject:
  assumes "\<forall>x \<in> set xs. good x" and "\<forall>y \<in> set ys. good y"
    and "concat (map enc xs) = concat (map enc ys)"
  shows "xs = ys"
  using assms
proof (induction xs arbitrary: ys)
  case Nil
  then show ?case using enc_nonempty by (cases ys) auto
next
  case (Cons x xs)
  show ?case
  proof (cases ys)
    case Nil
    with Cons.prems enc_nonempty show ?thesis by simp
  next
    case ys: (Cons y ys')
    with Cons.prems have eq: "x = y \<and> concat (map enc xs) = concat (map enc ys')"
      by (intro prefix_free) simp_all
    then have "xs = ys'" using Cons.prems(1,2) ys by (intro Cons.IH) simp_all
    with eq ys show ?thesis by simp
  qed
qed

end

end
