(* ===== verification/ValueIO.thy ===== *)
theory ValueIO
  imports Values Codec
begin

text \<open>
  The byte image of a value (include/storage/value_io.h): one tag byte, then the integer's
  eight bytes or the string's 32-bit length and its bytes.
\<close>

section \<open>Encoding and decoding\<close>

definition kMaxIndexKeyBytes :: nat where
  "kMaxIndexKeyBytes = 512"

fun encoded_value_size :: "Value \<Rightarrow> nat" where
  "encoded_value_size VNull = 1"
| "encoded_value_size (VInt _) = 1 + 8"
| "encoded_value_size (VStr s) = 1 + 4 + length s"

text \<open>The bytes \<open>encode_value\<close> appends.\<close>

fun value_bytes :: "Value \<Rightarrow> byte list" where
  "value_bytes VNull = [0]"
| "value_bytes (VInt i) = 1 # le_bytes 8 (unat i)"
| "value_bytes (VStr s) = 2 # le_bytes 4 (length s) @ map byte_of_char s"

definition encode_value :: "byte list \<Rightarrow> Value \<Rightarrow> error + byte list" where
  "encode_value out v =
     (if kMaxIndexKeyBytes < length out + encoded_value_size v
      then Inl (Runtime_error ''Index key too large for disk page'')
      else Inr (out @ value_bytes v))"

text \<open>
  \<open>decode_value(data, len, consumed)\<close>: the value and the number of bytes consumed. \<open>len\<close> is
  the caller's promise about the buffer; a buffer shorter than that is read past its end.
\<close>

definition decode_value :: "byte list \<Rightarrow> nat \<Rightarrow> error + (Value \<times> nat)" where
  "decode_value data len =
     (if len < 1 then Inl (Runtime_error ''Corrupt encoded value'')
      else if length data < len then Inl Undefined_behaviour
      else if data ! 0 = 0 then Inr (VNull, 1)
      else if data ! 0 = 1 then
        (if len < 1 + 8 then Inl (Runtime_error ''Corrupt encoded int'')
         else Inr (VInt (word_of_nat (le_val (peek 1 8 data))), 9))
      else if data ! 0 = 2 then
        (if len < 1 + 4 then Inl (Runtime_error ''Corrupt encoded string'')
         else let n = le_val (peek 1 4 data)
              in if len < 5 + n then Inl (Runtime_error ''Corrupt encoded string payload'')
                 else Inr (VStr (map char_of_byte (peek 5 n data)), 5 + n))
      else Inl (Runtime_error ''Unknown value tag on disk''))"

definition compare_encoded_keys :: "byte list \<Rightarrow> nat \<Rightarrow> byte list \<Rightarrow> nat \<Rightarrow> error + int" where
  "compare_encoded_keys a alen b blen =
     (case decode_value a alen of
        Inl e \<Rightarrow> Inl e
      | Inr (va, _) \<Rightarrow> (case decode_value b blen of
                         Inl e \<Rightarrow> Inl e
                       | Inr (vb, _) \<Rightarrow> Inr (fst (Value_compare va vb))))"

section \<open>Round trip\<close>

text \<open>The values with an image: a string's length fits its 32-bit length field.\<close>

fun encodable :: "Value \<Rightarrow> bool" where
  "encodable (VStr s) = (length s < 2 ^ 32)"
| "encodable _ = True"

lemma length_value_bytes [simp]: "length (value_bytes v) = encoded_value_size v"
  by (cases v) simp_all

lemma encoded_value_size_pos [simp]: "0 < encoded_value_size v"
  by (cases v) simp_all

lemma decode_value_bytes:
  assumes "encodable v" and "length rest = k"
  shows "decode_value (value_bytes v @ rest) (encoded_value_size v + k) =
           Inr (v, encoded_value_size v)"
proof (cases v)
  case VNull
  with assms show ?thesis by (simp add: decode_value_def)
next
  case (VInt i)
  have "unat i < 256 ^ 8" using unsigned_less [of i, where 'a = nat] by simp
  then have "le_val (le_bytes 8 (unat i)) = unat i" by (rule le_val_le_bytes_small)
  with VInt assms show ?thesis by (simp add: decode_value_def peek_def)
next
  case (VStr s)
  have "le_val (le_bytes 4 (length s)) = length s"
    using assms(1) VStr by (intro le_val_le_bytes_small) simp
  with VStr assms(2) show ?thesis by (simp add: decode_value_def peek_def Let_def comp_def)
qed

interpretation value_codec: codec value_bytes "\<lambda>bs. decode_value bs (length bs)" encodable
proof unfold_locales
  fix v rest
  assume "encodable v"
  then show "decode_value (value_bytes v @ rest) (length (value_bytes v @ rest)) =
      Inr (v, length (value_bytes v))"
    by (simp add: decode_value_bytes)
next
  fix v :: Value
  show "value_bytes v \<noteq> []" by (cases v) simp_all
qed

lemma small_encodable: "encoded_value_size v \<le> kMaxIndexKeyBytes \<Longrightarrow> encodable v"
  by (cases v) (simp_all add: kMaxIndexKeyBytes_def)

lemma encode_value_ok:
  "encoded_value_size v \<le> kMaxIndexKeyBytes \<Longrightarrow> encode_value [] v = Inr (value_bytes v)"
  by (simp add: encode_value_def)

lemma decode_image:
  "encodable v \<Longrightarrow> decode_value (value_bytes v) (encoded_value_size v) = Inr (v, encoded_value_size v)"
  using decode_value_bytes [of v "[]" 0] by simp

lemma compare_encoded_images:
  assumes "encodable v" and "encodable w"
  shows "compare_encoded_keys (value_bytes v) (encoded_value_size v)
           (value_bytes w) (encoded_value_size w) = Inr (fst (Value_compare v w))"
  by (simp add: compare_encoded_keys_def decode_image assms)

end
