(* ===== verification/IndexPage.thy ===== *)
theory IndexPage
  imports ValueIO Pager
begin

text \<open>
  The nodes of the on-disk index and their page images: \<open>LeafEntry\<close>, \<open>ParsedPage\<close>, the
  size and fill tests, and the two halves of \<open>DiskBspIndex::read_page\<close> and \<open>write_page\<close>
  that translate between a node and its 4096 bytes (include/storage/disk_bsp_index.h,
  src/storage/disk_bsp_index.cpp). \<open>key_count\<close> is one byte on the page.
\<close>

section \<open>Nodes\<close>

datatype NodeType = Leaf | Inner

record LeafEntry =
  key :: "byte list"
  key_len :: nat
  rid :: nat

record ParsedPage =
  page_id :: nat
  node_type :: NodeType
  key_count :: nat
  next_leaf :: nat
  leaf_entries :: "LeafEntry list"
  inner_keys :: "LeafEntry list"
  children :: "nat list"

text \<open>The default member initialisers of \<open>ParsedPage\<close>.\<close>

definition blank_page :: "nat \<Rightarrow> NodeType \<Rightarrow> ParsedPage" where
  "blank_page i t = \<lparr>page_id = i, node_type = t, key_count = 0, next_leaf = 0,
                     leaf_entries = [], inner_keys = [], children = []\<rparr>"

section \<open>Sizes\<close>

definition kLeafHeader :: nat where
  "kLeafHeader = 12"

definition kInnerHeader :: nat where
  "kInnerHeader = 12"

definition kMinLeafFillBytes :: nat where
  "kMinLeafFillBytes = 12 + (kPageSize - 12) * 2 div 3"

definition kMinInnerFillBytes :: nat where
  "kMinInnerFillBytes = 12 + (kPageSize - 12) * 2 div 3"

definition leaf_entry_bytes :: "nat \<Rightarrow> nat" where
  "leaf_entry_bytes klen = 2 + klen + 8"

definition leaf_payload_bytes :: "LeafEntry list \<Rightarrow> nat" where
  "leaf_payload_bytes entries = foldl (\<lambda>off e. off + (2 + key_len e + 8)) 12 entries"

definition inner_payload_bytes :: "LeafEntry list \<Rightarrow> nat \<Rightarrow> nat" where
  "inner_payload_bytes keys child_count =
     foldl (\<lambda>off k. off + (2 + key_len k)) (12 + child_count * 4) keys"

definition leaf_overflow :: "LeafEntry list \<Rightarrow> bool" where
  "leaf_overflow entries \<longleftrightarrow> kPageSize < leaf_payload_bytes entries"

definition leaf_underflow :: "LeafEntry list \<Rightarrow> bool \<Rightarrow> bool" where
  "leaf_underflow entries is_root =
     (if is_root then False
      else if entries = [] then True
      else leaf_payload_bytes entries < kMinLeafFillBytes)"

definition inner_overflow :: "LeafEntry list \<Rightarrow> nat list \<Rightarrow> bool" where
  "inner_overflow keys cs \<longleftrightarrow> kPageSize < inner_payload_bytes keys (length cs)"

definition inner_underflow :: "LeafEntry list \<Rightarrow> nat list \<Rightarrow> bool \<Rightarrow> bool" where
  "inner_underflow keys cs is_root =
     (if is_root then False
      else if length cs \<le> 1 then True
      else inner_payload_bytes keys (length cs) < kMinInnerFillBytes)"

text \<open>The shares of a three-way split, each at least the next.\<close>

definition three_way_counts :: "nat \<Rightarrow> nat \<times> nat \<times> nat" where
  "three_way_counts n =
     (let first = (n + 2) div 3;
          second = (n - first + 1) div 2;
          third = n - first - second
      in (first, second, third))"

section \<open>Writing a node\<close>

text \<open>The first twelve bytes: magic number, node type, number of keys, next leaf.\<close>

definition put_header :: "NodeType \<Rightarrow> nat \<Rightarrow> byte list \<Rightarrow> byte list" where
  "put_header t n raw =
     ((poke 0 (le_bytes 4 kPageMagic) raw)
        [4 := (case t of Leaf \<Rightarrow> 1 | Inner \<Rightarrow> 2)])
        [5 := word_of_nat n]"

definition put_leaf_entry :: "LeafEntry \<Rightarrow> byte list \<times> nat \<Rightarrow> byte list \<times> nat" where
  "put_leaf_entry e = (\<lambda>(raw, off).
     let klen = key_len e;
         raw = poke off (le_bytes 2 klen) raw; off = off + 2;
         raw = poke off (take klen (key e)) raw; off = off + klen;
         raw = poke off (le_bytes 8 (rid e)) raw
     in (raw, off + 8))"

definition put_child :: "nat \<Rightarrow> byte list \<times> nat \<Rightarrow> byte list \<times> nat" where
  "put_child c = (\<lambda>(raw, off). (poke off (le_bytes 4 c) raw, off + 4))"

definition put_inner_key :: "LeafEntry \<Rightarrow> byte list \<times> nat \<Rightarrow> byte list \<times> nat" where
  "put_inner_key k = (\<lambda>(raw, off).
     let klen = key_len k;
         raw = poke off (le_bytes 2 klen) raw; off = off + 2
     in (poke off (take klen (key k)) raw, off + klen))"

definition page_image :: "ParsedPage \<Rightarrow> error + byte list" where
  "page_image p =
     (case node_type p of
        Leaf \<Rightarrow>
          if leaf_overflow (leaf_entries p)
          then Inl (Runtime_error ''Leaf index page overflow'')
          else let raw = replicate kPageSize 0;
                   raw = put_header Leaf (length (leaf_entries p)) raw;
                   raw = poke 8 (le_bytes 4 (next_leaf p)) raw
               in Inr (fst (fold put_leaf_entry (leaf_entries p) (raw, kLeafHeader)))
      | Inner \<Rightarrow>
          if inner_overflow (inner_keys p) (children p)
          then Inl (Runtime_error ''Inner index page overflow'')
          else let raw = replicate kPageSize 0;
                   raw = put_header Inner (length (inner_keys p)) raw;
                   st = fold put_child (children p) (raw, kInnerHeader)
               in Inr (fst (fold put_inner_key (inner_keys p) st)))"

section \<open>Reading a node\<close>

fun get_leaf_entries :: "nat \<Rightarrow> nat \<Rightarrow> byte list \<Rightarrow> error + LeafEntry list" where
  "get_leaf_entries 0 off raw = Inr []"
| "get_leaf_entries (Suc n) off raw =
     (if kPageSize < off + 2 + 8 then Inr []
      else let klen = le_val (peek off 2 raw); off = off + 2
           in if length raw < off + klen + 8 then Inl Undefined_behaviour
              else case get_leaf_entries n (off + klen + 8) raw of
                Inl e \<Rightarrow> Inl e
              | Inr es \<Rightarrow> Inr (\<lparr>key = peek off klen raw, key_len = klen,
                               rid = le_val (peek (off + klen) 8 raw)\<rparr> # es))"

fun get_children :: "nat \<Rightarrow> nat \<Rightarrow> byte list \<Rightarrow> nat list" where
  "get_children 0 off raw = []"
| "get_children (Suc n) off raw = le_val (peek off 4 raw) # get_children n (off + 4) raw"

fun get_inner_keys :: "nat \<Rightarrow> nat \<Rightarrow> byte list \<Rightarrow> error + LeafEntry list" where
  "get_inner_keys 0 off raw = Inr []"
| "get_inner_keys (Suc n) off raw =
     (if length raw < off + 2 then Inl Undefined_behaviour
      else let klen = le_val (peek off 2 raw); off = off + 2
           in if length raw < off + klen then Inl Undefined_behaviour
              else case get_inner_keys n (off + klen) raw of
                Inl e \<Rightarrow> Inl e
              | Inr es \<Rightarrow> Inr (\<lparr>key = peek off klen raw, key_len = klen, rid = 0\<rparr> # es))"

definition parse_page :: "nat \<Rightarrow> byte list \<Rightarrow> error + ParsedPage" where
  "parse_page i raw =
     (if le_val (peek 0 4 raw) \<noteq> kPageMagic then Inl (Runtime_error ''Corrupt index page'')
      else let t = (if raw ! 4 = 1 then Leaf else Inner);
               n = unat (raw ! 5);
               p = (blank_page i t)\<lparr>key_count := n, next_leaf := le_val (peek 8 4 raw)\<rparr>
           in case t of
                Leaf \<Rightarrow> (case get_leaf_entries n kLeafHeader raw of
                           Inl e \<Rightarrow> Inl e
                         | Inr es \<Rightarrow> Inr (p\<lparr>leaf_entries := es\<rparr>))
              | Inner \<Rightarrow>
                  if kPageSize < kLeafHeader + (n + 1) * 4
                  then Inl (Runtime_error ''Corrupt inner index page'')
                  else case get_inner_keys n (kLeafHeader + (n + 1) * 4) raw of
                         Inl e \<Rightarrow> Inl e
                       | Inr ks \<Rightarrow> Inr (p\<lparr>children := get_children (n + 1) kLeafHeader raw,
                                         inner_keys := ks\<rparr>))"

section \<open>Entries\<close>

definition make_entry :: "Value \<Rightarrow> nat \<Rightarrow> error + LeafEntry" where
  "make_entry v r =
     (case encode_value [] v of
        Inl e \<Rightarrow> Inl e
      | Inr k \<Rightarrow> Inr \<lparr>key = k, key_len = length k mod 2 ^ 16, rid = r\<rparr>)"

text \<open>The key of an entry compared with a value, and two entries compared.\<close>

definition cmp_key_bytes :: "LeafEntry \<Rightarrow> Value \<Rightarrow> error + int" where
  "cmp_key_bytes e b =
     (case decode_value (key e) (key_len e) of
        Inl x \<Rightarrow> Inl x
      | Inr (va, _) \<Rightarrow> Inr (fst (Value_compare va b)))"

definition keys_equal_bytes :: "LeafEntry \<Rightarrow> LeafEntry \<Rightarrow> error + bool" where
  "keys_equal_bytes a b =
     (case compare_encoded_keys (key a) (key_len a) (key b) (key_len b) of
        Inl x \<Rightarrow> Inl x
      | Inr c \<Rightarrow> Inr (c = 0))"

end
