(* ===== verification/IndexPage_Correct.thy ===== *)
theory IndexPage_Correct
  imports IndexPage
begin

text \<open>
  What is written can be read back: a node that fits its page and has at most 255 keys is
  recovered from its image, up to the fields an image does not hold. With 256 keys, which
  short keys allow, the count byte wraps around and the node is lost.
\<close>

section \<open>Sizes as sums\<close>

lemma leaf_payload_bytes_eq:
  "leaf_payload_bytes es = 12 + (\<Sum>e\<leftarrow>es. 2 + key_len e + 8)"
proof -
  have "foldl (\<lambda>off e. off + (2 + key_len e + 8)) a es = a + (\<Sum>e\<leftarrow>es. 2 + key_len e + 8)" for a
    by (induction es arbitrary: a) simp_all
  then show ?thesis by (simp add: leaf_payload_bytes_def)
qed

lemma inner_payload_bytes_eq:
  "inner_payload_bytes ks c = 12 + c * 4 + (\<Sum>k\<leftarrow>ks. 2 + key_len k)"
proof -
  have "foldl (\<lambda>off k. off + (2 + key_len k)) a ks = a + (\<Sum>k\<leftarrow>ks. 2 + key_len k)" for a
    by (induction ks arbitrary: a) simp_all
  then show ?thesis by (simp add: inner_payload_bytes_def)
qed

lemma three_way_counts_sum:
  assumes "three_way_counts n = (a, b, c)"
  shows "a + b + c = n \<and> c \<le> b \<and> b \<le> a \<and> a \<le> c + 1"
proof -
  have a: "a = (n + 2) div 3" and b: "b = (n - a + 1) div 2" and c: "c = n - a - b"
    using assms by (auto simp: three_way_counts_def Let_def)
  have "3 * a \<le> n + 2" "n + 2 < 3 * a + 3" unfolding a by presburger+
  moreover have "2 * b \<le> n - a + 1" "n - a + 1 < 2 * b + 2" unfolding b by presburger+
  ultimately show ?thesis using c by linarith
qed

section \<open>The image of a node\<close>

definition entry_ok :: "LeafEntry \<Rightarrow> bool" where
  "entry_ok e \<longleftrightarrow> key_len e = length (key e) \<and> key_len e < 2 ^ 16 \<and> rid e < 2 ^ 64"

definition leaf_entry_image :: "LeafEntry \<Rightarrow> byte list" where
  "leaf_entry_image e = le_bytes 2 (key_len e) @ key e @ le_bytes 8 (rid e)"

definition inner_key_image :: "LeafEntry \<Rightarrow> byte list" where
  "inner_key_image k = le_bytes 2 (key_len k) @ key k"

definition header_image :: "NodeType \<Rightarrow> nat \<Rightarrow> nat \<Rightarrow> byte list" where
  "header_image t n nx =
     le_bytes 4 kPageMagic @ [case t of Leaf \<Rightarrow> 1 | Inner \<Rightarrow> 2, word_of_nat n, 0, 0] @ le_bytes 4 nx"

lemma length_header_image [simp]: "length (header_image t n nx) = 12"
  by (simp add: header_image_def)

lemma length_leaf_entry_image [simp]:
  "entry_ok e \<Longrightarrow> length (leaf_entry_image e) = 2 + key_len e + 8"
  by (simp add: leaf_entry_image_def entry_ok_def)

lemma length_inner_key_image [simp]:
  "entry_ok k \<Longrightarrow> length (inner_key_image k) = 2 + key_len k"
  by (simp add: inner_key_image_def entry_ok_def)

lemma put_leaf_entry_append:
  assumes "entry_ok e" and "length pre = off" and "length (leaf_entry_image e) \<le> k"
  shows "put_leaf_entry e (pre @ replicate k 0, off) =
           (pre @ leaf_entry_image e @ replicate (k - length (leaf_entry_image e)) 0,
            off + length (leaf_entry_image e))"
proof -
  let ?l = "key_len e"
  have l: "length (key e) = ?l" using assms(1) by (simp add: entry_ok_def)
  have k: "2 + ?l + 8 \<le> k" using assms by simp
  have 1: "poke off (le_bytes 2 ?l) (pre @ replicate k 0) =
           (pre @ le_bytes 2 ?l) @ replicate (k - 2) 0"
    using assms(2) k by (simp add: poke_replicate)
  have 2: "poke (off + 2) (key e) ((pre @ le_bytes 2 ?l) @ replicate (k - 2) 0) =
           (pre @ le_bytes 2 ?l @ key e) @ replicate (k - 2 - ?l) 0"
    using assms(2) k l poke_replicate [of "pre @ le_bytes 2 ?l" "off + 2" "key e" "k - 2" 0] by simp
  have 3: "poke (off + 2 + ?l) (le_bytes 8 (rid e))
             ((pre @ le_bytes 2 ?l @ key e) @ replicate (k - 2 - ?l) 0) =
           (pre @ leaf_entry_image e) @ replicate (k - 2 - ?l - 8) 0"
    using assms(2) k l
      poke_replicate [of "pre @ le_bytes 2 ?l @ key e" "off + 2 + ?l" "le_bytes 8 (rid e)" "k - 2 - ?l" 0]
    by (simp add: leaf_entry_image_def)
  have tk: "take ?l (key e) = key e" using l by simp
  show ?thesis
    unfolding put_leaf_entry_def Let_def case_prod_conv tk 1 2 3 using assms(1) by simp
qed

lemma fold_put_leaf_entry:
  assumes "\<forall>e \<in> set es. entry_ok e" and "length pre = off"
    and "(\<Sum>e\<leftarrow>es. 2 + key_len e + 8) \<le> k"
  shows "fst (fold put_leaf_entry es (pre @ replicate k 0, off)) =
           pre @ concat (map leaf_entry_image es) @
           replicate (k - (\<Sum>e\<leftarrow>es. 2 + key_len e + 8)) 0"
  using assms
proof (induction es arbitrary: pre off k)
  case Nil
  then show ?case by simp
next
  case (Cons e es)
  then have e: "entry_ok e" by simp
  let ?n = "2 + key_len e + 8"
  have "put_leaf_entry e (pre @ replicate k 0, off) =
      ((pre @ leaf_entry_image e) @ replicate (k - ?n) 0, off + ?n)"
    using put_leaf_entry_append [OF e Cons.prems(2)] Cons.prems(3) e by simp
  moreover have "fst (fold put_leaf_entry es
        ((pre @ leaf_entry_image e) @ replicate (k - ?n) 0, off + ?n)) =
      (pre @ leaf_entry_image e) @ concat (map leaf_entry_image es) @
        replicate (k - ?n - (\<Sum>e\<leftarrow>es. 2 + key_len e + 8)) 0"
    using Cons.prems e by (intro Cons.IH) auto
  ultimately show ?case by simp
qed

lemma fold_put_child:
  assumes "length pre = off" and "4 * length cs \<le> k"
  shows "fold put_child cs (pre @ replicate k 0, off) =
           (pre @ concat (map (le_bytes 4) cs) @ replicate (k - 4 * length cs) 0,
            off + 4 * length cs)"
  using assms
proof (induction cs arbitrary: pre off k)
  case Nil
  then show ?case by simp
next
  case (Cons c cs)
  have "put_child c (pre @ replicate k 0, off) =
      ((pre @ le_bytes 4 c) @ replicate (k - 4) 0, off + 4)"
    using Cons.prems by (simp add: put_child_def poke_replicate)
  with Cons.IH [of "pre @ le_bytes 4 c" "off + 4" "k - 4"] Cons.prems show ?case by simp
qed

lemma put_inner_key_append:
  assumes "entry_ok e" and "length pre = off" and "2 + key_len e \<le> k"
  shows "put_inner_key e (pre @ replicate k 0, off) =
           ((pre @ inner_key_image e) @ replicate (k - (2 + key_len e)) 0, off + (2 + key_len e))"
proof -
  let ?l = "key_len e"
  have l: "length (key e) = ?l" using assms(1) by (simp add: entry_ok_def)
  have 1: "poke off (le_bytes 2 ?l) (pre @ replicate k 0) =
           (pre @ le_bytes 2 ?l) @ replicate (k - 2) 0"
    using assms(2,3) by (simp add: poke_replicate)
  have 2: "poke (off + 2) (key e) ((pre @ le_bytes 2 ?l) @ replicate (k - 2) 0) =
           (pre @ inner_key_image e) @ replicate (k - 2 - ?l) 0"
    using assms(2,3) l poke_replicate [of "pre @ le_bytes 2 ?l" "off + 2" "key e" "k - 2" 0]
    by (simp add: inner_key_image_def)
  have tk: "take ?l (key e) = key e" using l by simp
  show ?thesis unfolding put_inner_key_def Let_def case_prod_conv tk 1 2 by simp
qed

lemma fold_put_inner_key:
  assumes "\<forall>e \<in> set es. entry_ok e" and "length pre = off" and "(\<Sum>e\<leftarrow>es. 2 + key_len e) \<le> k"
  shows "fst (fold put_inner_key es (pre @ replicate k 0, off)) =
           pre @ concat (map inner_key_image es) @ replicate (k - (\<Sum>e\<leftarrow>es. 2 + key_len e)) 0"
  using assms
proof (induction es arbitrary: pre off k)
  case Nil
  then show ?case by simp
next
  case (Cons e es)
  let ?n = "2 + key_len e"
  have "put_inner_key e (pre @ replicate k 0, off) =
      ((pre @ inner_key_image e) @ replicate (k - ?n) 0, off + ?n)"
    using Cons.prems by (intro put_inner_key_append) auto
  moreover have "fst (fold put_inner_key es
        ((pre @ inner_key_image e) @ replicate (k - ?n) 0, off + ?n)) =
      (pre @ inner_key_image e) @ concat (map inner_key_image es) @
        replicate (k - ?n - (\<Sum>e\<leftarrow>es. 2 + key_len e)) 0"
    using Cons.prems by (intro Cons.IH) auto
  ultimately show ?case by simp
qed

lemma le_bytes_4:
  "le_bytes 4 k = [word_of_nat k, word_of_nat (k div 256), word_of_nat (k div 256 div 256),
                   word_of_nat (k div 256 div 256 div 256)]"
proof -
  have "4 = Suc (Suc (Suc (Suc 0)))" by simp
  then show ?thesis by (simp only: le_bytes.simps)
qed

lemma header_zeros: "header_image t c 0 = le_bytes 4 kPageMagic @
    [case t of Leaf \<Rightarrow> 1 | Inner \<Rightarrow> 2, word_of_nat c, 0, 0, 0, 0, 0, 0]"
  unfolding header_image_def le_bytes_4 [of 0] by simp

lemma put_header_zeros:
  assumes "12 \<le> n"
  shows "put_header t c (replicate n 0) = header_image t c 0 @ replicate (n - 12) 0"
proof -
  have z: "replicate n (0 :: byte) = replicate 12 0 @ replicate (n - 12) 0"
    using assms by (simp add: replicate_add [symmetric])
  have z12: "replicate 12 (0 :: byte) = [0, 0, 0, 0, 0, 0, 0, 0, 0, 0, 0, 0]"
    by (simp add: numeral_eq_Suc)
  show ?thesis
    unfolding put_header_def header_zeros z z12 le_bytes_4 [of kPageMagic] poke_def by simp
qed

lemma put_next_leaf: "poke 8 (le_bytes 4 nx) (header_image t c 0 @ r) = header_image t c nx @ r"
  unfolding header_zeros poke_def by (simp add: header_image_def)

definition fits :: "ParsedPage \<Rightarrow> bool" where
  "fits p \<longleftrightarrow> (case node_type p of
      Leaf \<Rightarrow> \<not> leaf_overflow (leaf_entries p)
    | Inner \<Rightarrow> \<not> inner_overflow (inner_keys p) (children p))"

definition entries_ok :: "ParsedPage \<Rightarrow> bool" where
  "entries_ok p \<longleftrightarrow> (case node_type p of
      Leaf \<Rightarrow> \<forall>e \<in> set (leaf_entries p). entry_ok e
    | Inner \<Rightarrow> \<forall>e \<in> set (inner_keys p). entry_ok e)"

definition body_image :: "ParsedPage \<Rightarrow> byte list" where
  "body_image p = (case node_type p of
      Leaf \<Rightarrow> header_image Leaf (length (leaf_entries p)) (next_leaf p) @
              concat (map leaf_entry_image (leaf_entries p))
    | Inner \<Rightarrow> header_image Inner (length (inner_keys p)) 0 @
              concat (map (le_bytes 4) (children p)) @ concat (map inner_key_image (inner_keys p)))"

lemma page_image_eq:
  assumes ok: "entries_ok p" and fits: "fits p"
  shows "\<exists>k. page_image p = Inr (body_image p @ replicate k 0) \<and>
             length (body_image p) + k = kPageSize"
proof (cases "node_type p")
  case Leaf
  let ?es = "leaf_entries p"
  have es: "\<forall>e \<in> set ?es. entry_ok e" and over: "\<not> leaf_overflow ?es"
    using ok fits Leaf by (simp_all add: entries_ok_def fits_def)
  let ?n = "\<Sum>e\<leftarrow>?es. 2 + key_len e + 8"
  have n: "12 + ?n \<le> kPageSize"
    using over by (simp add: leaf_overflow_def leaf_payload_bytes_eq)
  have len: "length (concat (map leaf_entry_image ?es)) = ?n"
    using es by (simp add: length_concat comp_def cong: map_cong)
  have "page_image p = Inr (header_image Leaf (length ?es) (next_leaf p) @
      concat (map leaf_entry_image ?es) @ replicate (kPageSize - 12 - ?n) 0)"
    using Leaf over n fold_put_leaf_entry [OF es, of "header_image Leaf (length ?es) (next_leaf p)"
        kLeafHeader "kPageSize - 12"]
    by (simp add: page_image_def Let_def put_header_zeros put_next_leaf kLeafHeader_def)
  with Leaf len n show ?thesis
    by (intro exI [where x = "kPageSize - 12 - ?n"]) (simp add: body_image_def)
next
  case Inner
  let ?ks = "inner_keys p" and ?cs = "children p"
  have ks: "\<forall>e \<in> set ?ks. entry_ok e" and over: "\<not> inner_overflow ?ks ?cs"
    using ok fits Inner by (simp_all add: entries_ok_def fits_def)
  let ?n = "\<Sum>e\<leftarrow>?ks. 2 + key_len e"
  have n: "12 + 4 * length ?cs + ?n \<le> kPageSize"
    using over by (simp add: inner_overflow_def inner_payload_bytes_eq)
  have lk: "length (concat (map inner_key_image ?ks)) = ?n"
    using ks by (simp add: length_concat comp_def cong: map_cong)
  have lc: "length (concat (map (le_bytes 4) ?cs)) = 4 * length ?cs"
    by (simp add: length_concat comp_def sum_list_triv)
  let ?h = "header_image Inner (length ?ks) 0"
  have children: "fold put_child ?cs (?h @ replicate (kPageSize - 12) 0, kInnerHeader) =
      ((?h @ concat (map (le_bytes 4) ?cs)) @ replicate (kPageSize - 12 - 4 * length ?cs) 0,
       12 + 4 * length ?cs)"
    using n by (simp add: fold_put_child kInnerHeader_def)
  have "fst (fold put_inner_key ?ks
      ((?h @ concat (map (le_bytes 4) ?cs)) @ replicate (kPageSize - 12 - 4 * length ?cs) 0,
       12 + 4 * length ?cs)) =
      (?h @ concat (map (le_bytes 4) ?cs)) @ concat (map inner_key_image ?ks) @
        replicate (kPageSize - 12 - 4 * length ?cs - ?n) 0"
    using n lc by (intro fold_put_inner_key [OF ks]) auto
  then have "page_image p = Inr (?h @ concat (map (le_bytes 4) ?cs) @
      concat (map inner_key_image ?ks) @ replicate (kPageSize - 12 - 4 * length ?cs - ?n) 0)"
    using Inner over n children by (simp add: page_image_def Let_def put_header_zeros)
  with Inner lk lc n show ?thesis
    by (intro exI [where x = "kPageSize - 12 - 4 * length ?cs - ?n"]) (simp add: body_image_def)
qed

lemma page_image_length: "entries_ok p \<Longrightarrow> fits p \<Longrightarrow> \<exists>raw. page_image p = Inr raw \<and> length raw = kPageSize"
  using page_image_eq [of p] by fastforce

section \<open>Reading back\<close>

lemma peek_append_image [simp]:
  "length pre = off \<Longrightarrow> length bs = n \<Longrightarrow> peek off n (pre @ bs @ rest) = bs"
  by (simp add: peek_def)

lemma get_leaf_entries_image:
  assumes "\<forall>e \<in> set es. entry_ok e" and "length pre = off"
    and "length pre + length (concat (map leaf_entry_image es)) + length rest = kPageSize"
  shows "get_leaf_entries (length es) off (pre @ concat (map leaf_entry_image es) @ rest) = Inr es"
  using assms
proof (induction es arbitrary: pre off)
  case Nil
  then show ?case by simp
next
  case (Cons e es)
  let ?l = "key_len e"
  have e: "entry_ok e" and l: "length (key e) = ?l" and b: "?l < 2 ^ 16" "rid e < 2 ^ 64"
    using Cons.prems(1) by (simp_all add: entry_ok_def)
  let ?tl = "concat (map leaf_entry_image es) @ rest"
  let ?raw = "pre @ le_bytes 2 ?l @ key e @ le_bytes 8 (rid e) @ ?tl"
  have raw: "pre @ concat (map leaf_entry_image (e # es)) @ rest = ?raw"
    by (simp add: leaf_entry_image_def [of e])
  have 1: "le_val (peek off 2 ?raw) = ?l"
    using Cons.prems(2) b(1) by simp
  have 2: "peek (off + 2) ?l ?raw = key e"
    using Cons.prems(2) l peek_append_image [of "pre @ le_bytes 2 ?l" "off + 2" "key e" ?l] by simp
  have 3: "le_val (peek (off + 2 + ?l) 8 ?raw) = rid e"
    using Cons.prems(2) l b(2)
      peek_append_image [of "pre @ le_bytes 2 ?l @ key e" "off + 2 + ?l" "le_bytes 8 (rid e)" 8]
    by simp
  have 4: "get_leaf_entries (length es) (off + 2 + ?l + 8) ?raw = Inr es"
    using Cons.IH [of "pre @ leaf_entry_image e" "off + 2 + ?l + 8"] Cons.prems e
    by (simp add: leaf_entry_image_def [of e] l)
  have room: "\<not> kPageSize < off + 2 + 8" "\<not> length ?raw < off + 2 + ?l + 8"
    using Cons.prems e by (simp_all add: l)
  show ?case
    unfolding raw length_Cons get_leaf_entries.simps Let_def 1 2 3 4 using room by simp
qed

lemma get_children_image:
  assumes "\<forall>c \<in> set cs. c < 2 ^ 32" and "length pre = off"
  shows "get_children (length cs) off (pre @ concat (map (le_bytes 4) cs) @ rest) = cs"
  using assms
proof (induction cs arbitrary: pre off)
  case Nil
  then show ?case by simp
next
  case (Cons c cs)
  then show ?case using Cons.IH [of "pre @ le_bytes 4 c" "off + 4"] by simp
qed

lemma get_inner_keys_image:
  assumes "\<forall>e \<in> set es. entry_ok e" and "length pre = off"
  shows "get_inner_keys (length es) off (pre @ concat (map inner_key_image es) @ rest) =
           Inr (map (\<lambda>e. e\<lparr>rid := 0\<rparr>) es)"
  using assms
proof (induction es arbitrary: pre off)
  case Nil
  then show ?case by simp
next
  case (Cons e es)
  let ?l = "key_len e"
  have e: "entry_ok e" and l: "length (key e) = ?l" and b: "?l < 2 ^ 16"
    using Cons.prems(1) by (simp_all add: entry_ok_def)
  let ?raw = "pre @ le_bytes 2 ?l @ key e @ concat (map inner_key_image es) @ rest"
  have raw: "pre @ concat (map inner_key_image (e # es)) @ rest = ?raw"
    by (simp add: inner_key_image_def [of e])
  have 1: "le_val (peek off 2 ?raw) = ?l" using Cons.prems(2) b by simp
  have 2: "peek (off + 2) ?l ?raw = key e"
    using Cons.prems(2) l peek_append_image [of "pre @ le_bytes 2 ?l" "off + 2" "key e" ?l] by simp
  have 3: "get_inner_keys (length es) (off + 2 + ?l) ?raw = Inr (map (\<lambda>e. e\<lparr>rid := 0\<rparr>) es)"
    using Cons.IH [of "pre @ inner_key_image e" "off + 2 + ?l"] Cons.prems e
    by (simp add: inner_key_image_def [of e] l)
  have room: "\<not> length ?raw < off + 2" "\<not> length ?raw < off + 2 + ?l"
    using Cons.prems(2) l by simp_all
  show ?case
    unfolding raw length_Cons get_inner_keys.simps Let_def 1 2 3 using room by simp
qed

section \<open>The round trip, and where it ends\<close>

text \<open>The node as a later read returns it.\<close>

definition stored_page :: "ParsedPage \<Rightarrow> ParsedPage" where
  "stored_page p = (case node_type p of
      Leaf \<Rightarrow> p\<lparr>key_count := length (leaf_entries p), inner_keys := [], children := []\<rparr>
    | Inner \<Rightarrow> p\<lparr>key_count := length (inner_keys p), next_leaf := 0, leaf_entries := [],
               inner_keys := map (\<lambda>e. e\<lparr>rid := 0\<rparr>) (inner_keys p)\<rparr>)"

definition small_ids :: "ParsedPage \<Rightarrow> bool" where
  "small_ids p \<longleftrightarrow> next_leaf p < 2 ^ 32 \<and> (\<forall>c \<in> set (children p). c < 2 ^ 32)"

definition key_total :: "ParsedPage \<Rightarrow> nat" where
  "key_total p = (case node_type p of Leaf \<Rightarrow> length (leaf_entries p) | Inner \<Rightarrow> length (inner_keys p))"

lemma header_magic: "le_val (peek 0 4 (header_image t n nx @ r)) = kPageMagic"
proof -
  have "peek 0 4 (header_image t n nx @ r) = le_bytes 4 kPageMagic"
    by (simp add: header_image_def peek_def)
  then show ?thesis by (simp add: kPageMagic_def)
qed

lemma header_type: "(header_image t n nx @ r) ! 4 = (case t of Leaf \<Rightarrow> 1 | Inner \<Rightarrow> 2)"
  by (simp add: header_image_def nth_append)

lemma header_count: "unat ((header_image t n nx @ r) ! 5) = n mod 256"
  by (simp add: header_image_def nth_append unat_byte_of_nat)

lemma header_next: "nx < 2 ^ 32 \<Longrightarrow> le_val (peek 8 4 (header_image t n nx @ r)) = nx"
proof -
  assume nx: "nx < 2 ^ 32"
  have "peek 8 4 (header_image t n nx @ r) = le_bytes 4 nx"
    by (simp add: header_image_def peek_def)
  with nx show ?thesis by simp
qed

lemma page_roundtrip:
  assumes ok: "entries_ok p" and fits: "fits p" and ids: "small_ids p" and count: "key_total p \<le> 255"
    and shape: "node_type p = Inner \<Longrightarrow> length (children p) = length (inner_keys p) + 1"
  shows "\<exists>raw. page_image p = Inr raw \<and> length raw = kPageSize \<and>
               parse_page (page_id p) raw = Inr (stored_page p)"
proof -
  obtain k where raw: "page_image p = Inr (body_image p @ replicate k 0)"
    "length (body_image p) + k = kPageSize"
    using page_image_eq [OF ok fits] by blast
  have "parse_page (page_id p) (body_image p @ replicate k 0) = Inr (stored_page p)"
  proof (cases "node_type p")
    case Leaf
    let ?es = "leaf_entries p" and ?h = "header_image Leaf (length (leaf_entries p)) (next_leaf p)"
    have body: "body_image p = ?h @ concat (map leaf_entry_image ?es)"
      using Leaf by (simp add: body_image_def)
    have es: "\<forall>e \<in> set ?es. entry_ok e" and n: "length ?es mod 256 = length ?es"
      and nx: "next_leaf p < 2 ^ 32"
      using ok Leaf count ids by (simp_all add: entries_ok_def key_total_def small_ids_def)
    have "get_leaf_entries (length ?es) 12 (?h @ concat (map leaf_entry_image ?es) @ replicate k 0)
        = Inr ?es"
      using raw(2) body by (intro get_leaf_entries_image [OF es]) simp_all
    then show ?thesis
      unfolding body append_assoc parse_page_def header_magic header_type header_count header_next [OF nx] n
      using Leaf by (simp add: Let_def kLeafHeader_def stored_page_def blank_page_def)
  next
    case Inner
    let ?ks = "inner_keys p" and ?cs = "children p"
    let ?h = "header_image Inner (length ?ks) 0"
    have body: "body_image p = ?h @ concat (map (le_bytes 4) ?cs) @ concat (map inner_key_image ?ks)"
      using Inner by (simp add: body_image_def)
    have ks: "\<forall>e \<in> set ?ks. entry_ok e" and n: "length ?ks mod 256 = length ?ks"
      and cs: "\<forall>c \<in> set ?cs. c < 2 ^ 32" and len: "length ?ks + 1 = length ?cs"
      using ok Inner count ids shape by (simp_all add: entries_ok_def key_total_def small_ids_def)
    have lc: "length (concat (map (le_bytes 4) ?cs)) = length ?cs * 4"
      by (simp add: length_concat comp_def sum_list_triv)
    have 1: "get_children (length ?cs) 12 (?h @ concat (map (le_bytes 4) ?cs) @
        concat (map inner_key_image ?ks) @ replicate k 0) = ?cs"
      by (rule get_children_image [OF cs]) simp
    have 2: "get_inner_keys (length ?ks) (12 + length ?cs * 4) (?h @ concat (map (le_bytes 4) ?cs) @
        concat (map inner_key_image ?ks) @ replicate k 0) = Inr (map (\<lambda>e. e\<lparr>rid := 0\<rparr>) ?ks)"
      using get_inner_keys_image [OF ks, of "?h @ concat (map (le_bytes 4) ?cs)"
          "12 + length ?cs * 4" "replicate k 0"] lc by simp
    have room: "\<not> kPageSize < 12 + length ?cs * 4"
      using raw(2) lc by (simp add: body)
    show ?thesis
      unfolding body append_assoc parse_page_def header_magic header_type header_count n
        header_next [of 0, simplified] kLeafHeader_def
      using Inner 1 [folded len] 2 [folded len] room [folded len]
      by (simp add: Let_def stored_page_def blank_page_def del: get_children.simps)
  qed
  with raw show ?thesis by auto
qed

lemma page_256_keys:
  assumes ok: "entries_ok p" and fits: "fits p" and ids: "small_ids p" and inner: "node_type p = Inner"
    and keys: "length (inner_keys p) = 256" and cs: "length (children p) = 257"
  shows "\<exists>raw q. page_image p = Inr raw \<and> parse_page (page_id p) raw = Inr q \<and>
                 inner_keys q = [] \<and> children q = [hd (children p)]"
proof -
  obtain k where raw: "page_image p = Inr (body_image p @ replicate k 0)"
    using page_image_eq [OF ok fits] by blast
  obtain c rest where c: "children p = c # rest" using cs by (cases "children p") auto
  have "c < 2 ^ 32" using ids c by (simp add: small_ids_def)
  let ?h = "header_image Inner 256 0"
  let ?tl = "concat (map (le_bytes 4) rest) @ concat (map inner_key_image (inner_keys p)) @ replicate k 0"
  have body: "body_image p @ replicate k 0 = ?h @ le_bytes 4 c @ ?tl"
    using inner keys c by (simp add: body_image_def)
  have child: "le_val (peek 12 4 (?h @ le_bytes 4 c @ ?tl)) = c"
    using \<open>c < 2 ^ 32\<close> by simp
  have "parse_page (page_id p) (body_image p @ replicate k 0) =
      Inr ((blank_page (page_id p) Inner)\<lparr>children := [c]\<rparr>)"
    unfolding body parse_page_def header_magic header_type header_count header_next [of 0, simplified]
      kLeafHeader_def
    using child by (simp add: Let_def blank_page_def kPageSize_def)
  with raw c show ?thesis by (simp add: blank_page_def)
qed

end
