(* ===== verification/Data_Results.thy ===== *)
theory Data_Results
  imports IndexPage_Correct
begin

text \<open>
  What the data layer guarantees to the components above: interned strings, the comparison of
  values, the byte image of a key and the 4096-byte image of an index node.
\<close>

section \<open>Interned strings\<close>

fun intern_all :: "string list \<Rightarrow> string_pool \<Rightarrow> nat list \<times> string_pool" where
  "intern_all [] pool = ([], pool)"
| "intern_all (s # ss) pool =
     (case intern s pool of (sid, pool1) \<Rightarrow>
        case intern_all ss pool1 of (sids, pool2) \<Rightarrow> (sid # sids, pool2))"

lemma intern_all_ok:
  assumes "pool_inv pool" and "length (by_id pool) + length ss \<le> 2 ^ 32"
    and "intern_all ss pool = (sids, pool')"
  shows "pool_inv pool' \<and> list_all2 (\<lambda>sid s. pool_get pool' sid = Inr s) sids ss \<and>
         (\<forall>j t. pool_get pool j = Inr t \<longrightarrow> pool_get pool' j = Inr t)"
  using assms
proof (induction ss arbitrary: pool sids)
  case Nil
  then show ?case by simp
next
  case (Cons s ss)
  obtain sid pool1 where one: "intern s pool = (sid, pool1)" by fastforce
  obtain sids1 where rest: "intern_all ss pool1 = (sids1, pool')"
    using Cons.prems(3) one by (auto split: prod.splits)
  have room: "length (by_id pool) < 2 ^ 32" using Cons.prems(2) by simp
  note ok = intern_ok [OF Cons.prems(1) room one]
  have "length (by_id pool1) + length ss \<le> 2 ^ 32" using ok(4) Cons.prems(2) by simp
  with Cons.IH [OF ok(1) _ rest] ok(2,3) Cons.prems(3) one rest show ?case by auto
qed

text \<open>Interning any list of strings gives ids that read back as those strings, with equal ids
  exactly for equal strings, and leaves every id handed out before as it was.\<close>

theorem interning_is_injective:
  assumes "pool_inv pool" and "length (by_id pool) + length ss \<le> 2 ^ 32"
    and "intern_all ss pool = (sids, pool')"
  shows "map (pool_get pool') sids = map Inr ss \<and>
         (\<forall>i < length ss. \<forall>j < length ss. sids ! i = sids ! j \<longleftrightarrow> ss ! i = ss ! j) \<and>
         (\<forall>j t. pool_get pool j = Inr t \<longrightarrow> pool_get pool' j = Inr t)"
proof -
  note all = intern_all_ok [OF assms]
  then have len: "length sids = length ss" and
    get: "\<And>i. i < length ss \<Longrightarrow> pool_get pool' (sids ! i) = Inr (ss ! i)"
    by (auto simp: list_all2_conv_all_nth)
  have "sids ! i = sids ! j \<longleftrightarrow> ss ! i = ss ! j" if "i < length ss" "j < length ss" for i j
    using get [OF that(1)] get [OF that(2)] all pool_get_inj [of pool' "sids ! i" _ "sids ! j"] by auto
  moreover have "map (pool_get pool') sids = map Inr ss"
    using len get by (auto intro: nth_equalityI)
  ultimately show ?thesis using all by blast
qed

lemma interning_is_injective_witness:
  "map (pool_get (snd (intern_all [''a'', ''b'', ''a''] new_pool))) [1, 2, 1] =
     map Inr [''a'', ''b'', ''a'']"
proof -
  have "intern_all [''a'', ''b'', ''a''] new_pool =
      ([1, 2, 1], snd (intern_all [''a'', ''b'', ''a''] new_pool))"
    by (simp add: new_pool_def intern_def)
  moreover have "length (by_id new_pool) + length [''a'', ''b'', ''a''] \<le> 2 ^ 32"
    by (simp add: new_pool_def)
  ultimately show ?thesis using interning_is_injective [OF pool_inv_new] by blast
qed

text \<open>Comparing interned values, with its shortcut on equal ids, gives the sign and validity
  of comparing what they stand for, never throws on ids of the pool, and id equality is
  equality of contents.\<close>

theorem interned_comparison:
  assumes "pool_inv pool" and "resolve pool a = Some v" and "resolve pool b = Some w"
  shows "ivalue_compare pool a b = Inr (Value_compare v w) \<and> (ivalue_eq a b \<longleftrightarrow> v = w)"
  using ivalue_compare_resolve [OF assms] assms(2,3) resolve_inj [OF assms(1), of a w b]
  by (auto simp: ivalue_eq_iff)

lemma interned_comparison_witness:
  "ivalue_compare (snd (intern ''b'' (snd (intern ''a'' new_pool)))) (IStr 1) (IStr 2) =
     Inr (Value_compare (VStr ''a'') (VStr ''b''))"
proof -
  define pool where "pool = snd (intern ''b'' (snd (intern ''a'' new_pool)))"
  have pool: "pool = \<lparr>by_value = [(''b'', 2), (''a'', 1)], by_id = [[], ''a'', ''b'']\<rparr>"
    by (simp add: pool_def intern_def new_pool_def)
  have "pool_inv (snd (intern ''a'' new_pool))"
    using intern_ok(1) [OF pool_inv_new, of "''a''"] by (simp add: new_pool_def prod_eq_iff)
  then have "pool_inv pool"
    using intern_ok(1) [of "snd (intern ''a'' new_pool)" "''b''"]
    by (simp add: pool_def prod_eq_iff) (simp add: intern_def new_pool_def)
  moreover have "resolve pool (IStr 1) = Some (VStr ''a'')" and "resolve pool (IStr 2) = Some (VStr ''b'')"
    by (simp_all add: pool pool_get_def kInvalid_def)
  ultimately show ?thesis unfolding pool_def [symmetric] using interned_comparison by blast
qed

section \<open>Keys\<close>

text \<open>A key of at most 512 bytes is encoded; its image decodes, whatever follows it, to the same
  value and its own length, and two keys of one type compare as images the way their values are
  ordered.\<close>

theorem key_images:
  assumes "encoded_value_size v \<le> 512" and "encoded_value_size w \<le> 512" and "typed t v" and "typed t w"
  shows "encode_value [] v = Inr (value_bytes v) \<and>
         decode_value (value_bytes v @ rest) (length (value_bytes v) + length rest) = Inr (v, length (value_bytes v)) \<and>
         compare_encoded_keys (value_bytes v) (length (value_bytes v)) (value_bytes w) (length (value_bytes w)) =
           Inr (three_way v w)"
proof -
  have enc: "encodable v" "encodable w" using assms(1,2) by (auto intro: small_encodable simp: kMaxIndexKeyBytes_def)
  have "encode_value [] v = Inr (value_bytes v)" using assms(1) by (simp add: encode_value_def kMaxIndexKeyBytes_def)
  moreover have "decode_value (value_bytes v @ rest) (length (value_bytes v) + length rest) =
      Inr (v, length (value_bytes v))"
    using decode_value_bytes [OF enc(1), of rest "length rest"] by simp
  moreover have "compare_encoded_keys (value_bytes v) (length (value_bytes v)) (value_bytes w)
      (length (value_bytes w)) = Inr (three_way v w)"
    using compare_encoded_images [OF enc] Value_compare_typed [OF assms(3,4)] by simp
  ultimately show ?thesis by blast
qed

lemma key_images_witness:
  "decode_value (value_bytes (VInt 3) @ [9]) 10 = Inr (VInt 3, 9) \<and>
   compare_encoded_keys (value_bytes (VInt 3)) 9 (value_bytes (VInt 5)) 9 = Inr (three_way (VInt 3) (VInt 5))"
  using key_images [of "VInt 3" "VInt 5" TInt "[9]"] by (simp del: value_bytes.simps)

section \<open>Index nodes\<close>

text \<open>C31: A node that fits its page, with at most 255 keys, is read back as it was written: same
  entries or separators and children, same next leaf.\<close>

theorem node_images:
  assumes "entries_ok p" and "fits p" and "small_ids p" and "key_total p \<le> 255"
    and "node_type p = Inner \<Longrightarrow> length (children p) = length (inner_keys p) + 1"
  shows "\<exists>raw. page_image p = Inr raw \<and> length raw = kPageSize \<and>
               parse_page (page_id p) raw = Inr (stored_page p)"
  using page_roundtrip [OF assms] .

definition example_leaf :: ParsedPage where
  "example_leaf = (blank_page 3 Leaf)\<lparr>next_leaf := 5,
     leaf_entries := [\<lparr>key = value_bytes (VInt 1), key_len = 9, rid = 0\<rparr>]\<rparr>"

lemma node_images_witness:
  "\<exists>raw. page_image example_leaf = Inr raw \<and> parse_page 3 raw = Inr (stored_page example_leaf)"
proof -
  have "entries_ok example_leaf \<and> fits example_leaf \<and> small_ids example_leaf \<and>
      key_total example_leaf \<le> 255 \<and> page_id example_leaf = 3 \<and> node_type example_leaf \<noteq> Inner"
    by (simp add: example_leaf_def blank_page_def entries_ok_def entry_ok_def fits_def leaf_overflow_def
        leaf_payload_bytes_def kPageSize_def small_ids_def key_total_def)
  with node_images [of example_leaf] show ?thesis by auto
qed

text \<open>C34: The key count of a page is one byte. An inner node with 256 separators still fits its
  4096 bytes when keys are integers, is written without an error, and is read back with no
  separator and one child: 256 of its subtrees are lost.\<close>

theorem inner_node_256_keys_lost:
  assumes "entries_ok p" and "fits p" and "small_ids p" and "node_type p = Inner"
    and "length (inner_keys p) = 256" and "length (children p) = 257"
  shows "\<exists>raw q. page_image p = Inr raw \<and> parse_page (page_id p) raw = Inr q \<and>
                 inner_keys q = [] \<and> children q = [hd (children p)]"
  using page_256_keys [OF assms] .

definition wide_node :: ParsedPage where
  "wide_node = (blank_page 1 Inner)\<lparr>
     inner_keys := replicate 256 \<lparr>key = value_bytes (VInt 0), key_len = 9, rid = 0\<rparr>,
     children := replicate 257 2\<rparr>"

lemma inner_node_256_keys_lost_witness:
  "\<exists>raw q. page_image wide_node = Inr raw \<and> parse_page 1 raw = Inr q \<and> children q = [2]"
proof -
  have "entries_ok wide_node \<and> fits wide_node \<and> small_ids wide_node \<and> node_type wide_node = Inner"
    by (simp add: wide_node_def blank_page_def entries_ok_def entry_ok_def fits_def inner_overflow_def
        inner_payload_bytes_eq kPageSize_def small_ids_def sum_list_replicate)
  moreover have "length (inner_keys wide_node) = 256 \<and> length (children wide_node) = 257 \<and>
      page_id wide_node = 1 \<and> hd (children wide_node) = 2"
    by (simp add: wide_node_def blank_page_def)
  ultimately show ?thesis using inner_node_256_keys_lost [of wide_node] by auto
qed

end
