(* ===== verification/DiskIndex.thy ===== *)
theory DiskIndex
  imports IndexPage_Correct
begin

text \<open>
  \<open>cw_db::DiskBspIndex\<close> as a file of nodes (include/storage/disk_bsp_index.h,
  src/storage/disk_bsp_index.cpp): the object's fields, reading and writing one node through
  the pager, the superblock on page 0, and creating, opening, flushing and closing the file.
  The comparison object \<open>less_\<close> has no state.
\<close>

section \<open>The object\<close>

record disk_index =
  ix_pager :: pager
  root_page :: nat
  first_leaf_page :: nat
  ix_size :: nat

definition new_index :: "nat option list \<Rightarrow> disk_index" where
  "new_index faults = \<lparr>ix_pager = new_pager faults, root_page = 0, first_leaf_page = 0, ix_size = 0\<rparr>"

definition kIdxMagic :: nat where
  "kIdxMagic = 0x49445842"

definition kIdxVersion :: nat where
  "kIdxVersion = 1"

definition on_pager :: "(pager, 'a) op \<Rightarrow> (disk_index, 'a) op" where
  "on_pager = zoom ix_pager (\<lambda>p s. s\<lparr>ix_pager := p\<rparr>)"

section \<open>Nodes and the superblock\<close>

definition idx_read_page :: "nat \<Rightarrow> (disk_index, ParsedPage) op" where
  "idx_read_page i = bnd (on_pager (read_page i)) (\<lambda>raw. of_sum (parse_page i raw))"

definition idx_write_page :: "ParsedPage \<Rightarrow> (disk_index, unit) op" where
  "idx_write_page p = bnd (of_sum (page_image p)) (\<lambda>raw. on_pager (write_page (page_id p) raw))"

definition superblock_image :: "disk_index \<Rightarrow> byte list" where
  "superblock_image s =
     poke 16 (le_bytes 8 (ix_size s))
       (poke 12 (le_bytes 4 (first_leaf_page s))
         (poke 8 (le_bytes 4 (root_page s))
           (poke 4 (le_bytes 4 kIdxVersion)
             (poke 0 (le_bytes 4 kIdxMagic) (replicate kPageSize 0)))))"

definition write_superblock :: "(disk_index, unit) op" where
  "write_superblock s =
     (if \<not> st_open (pg_stream (ix_pager s)) then (Inr (), s)
      else on_pager (write_page 0 (superblock_image s)) s)"

definition allocate_node_page :: "(disk_index, nat) op" where
  "allocate_node_page =
     bnd (gets (\<lambda>s. page_count (ix_pager s))) (\<lambda>n.
     andthen (when_op (n = 0) (on_pager (write_page 0 (replicate kPageSize 0))))
       (on_pager allocate_page))"

section \<open>Life cycle\<close>

text \<open>Opening takes what the file system has at the path, as \<open>open_page_file\<close> does.\<close>

definition create_empty :: "string \<Rightarrow> byte list option \<Rightarrow> bool \<Rightarrow> (disk_index, unit) op" where
  "create_empty path existing openable =
     andthen (on_pager (open_page_file path existing openable True))
       (andthen (on_pager (write_page 0 (replicate kPageSize 0)))
         (bnd allocate_node_page (\<lambda>i.
          andthen (modify (\<lambda>s. s\<lparr>root_page := i, first_leaf_page := i, ix_size := 0\<rparr>))
            (andthen (idx_write_page (blank_page i Leaf))
              write_superblock))))"

definition open_index :: "string \<Rightarrow> byte list option \<Rightarrow> bool \<Rightarrow> (disk_index, unit) op" where
  "open_index path existing openable =
     andthen (on_pager (open_page_file path existing openable False))
       (bnd (on_pager (read_page 0)) (\<lambda>page.
        andthen
          (throw_if (le_val (peek 0 4 page) \<noteq> kIdxMagic \<or> le_val (peek 4 4 page) \<noteq> kIdxVersion)
             (Runtime_error (''Bad index file: '' @ path)))
          (modify (\<lambda>s. s\<lparr>root_page := le_val (peek 8 4 page),
                         first_leaf_page := le_val (peek 12 4 page),
                         ix_size := le_val (peek 16 8 page)\<rparr>))))"

definition close_index :: "(disk_index, unit) op" where
  "close_index =
     andthen
       (\<lambda>s. if st_open (pg_stream (ix_pager s))
            then andthen write_superblock (on_pager close) s else (Inr (), s))
       (modify (\<lambda>s. s\<lparr>ix_size := 0\<rparr>))"

definition flush_index :: "(disk_index, unit) op" where
  "flush_index = andthen write_superblock (on_pager flush)"

end
