(* ===== verification/NodeStore.thy ===== *)
theory NodeStore
  imports DiskIndex PageFile
begin

text \<open>
  The index file as a store of nodes: what a client of \<open>idx_read_page\<close> and \<open>idx_write_page\<close>
  sees is a map from page ids to nodes, with the blank pages and the superblock left out. The
  index is the second provider of the page-store interface; allocation extends it.
\<close>

section \<open>The interface\<close>

locale node_store = page_store rd wr inv view count storable stored frame
  for rd :: "nat \<Rightarrow> ('s, 'p) op"
    and wr :: "nat \<Rightarrow> 'p \<Rightarrow> ('s, unit) op"
    and inv :: "'s \<Rightarrow> bool"
    and view :: "'s \<Rightarrow> nat \<Rightarrow> 'p option"
    and count :: "'s \<Rightarrow> nat"
    and storable :: "'p \<Rightarrow> bool"
    and stored :: "nat \<Rightarrow> 'p \<Rightarrow> 'p"
    and frame :: "'s \<Rightarrow> 'f" +
  fixes alloc :: "('s, nat) op"
  assumes alloc_law: "inv s \<Longrightarrow> 0 < count s \<Longrightarrow> count s + 1 < 2 ^ 32 \<Longrightarrow>
      \<exists>s'. alloc s = (Inr (count s), s') \<and> inv s' \<and> view s' = view s
           \<and> count s' = count s + 1 \<and> frame s' = frame s"
    and view_bound: "inv s \<Longrightarrow> view s i = Some p \<Longrightarrow> i < count s"
    and count_bound: "inv s \<Longrightarrow> count s < 2 ^ 32"
begin

lemma wp_alloc:
  assumes "inv s" and "0 < count s" and "count s + 1 < 2 ^ 32"
    and "\<And>s'. inv s' \<Longrightarrow> view s' = view s \<Longrightarrow> count s' = count s + 1 \<Longrightarrow> frame s' = frame s \<Longrightarrow>
              Q (count s) s'"
  shows "wp E alloc Q s"
  using alloc_law [OF assms(1-3)] assms(4) by (auto simp: wp_def)

text \<open>A fresh page is no page of the store, and can be written.\<close>

lemma alloc_fresh: "inv s \<Longrightarrow> view s (count s) = None"
  using view_bound [of s "count s"] by (cases "view s (count s)") auto

lemma wp_wr_mapped:
  assumes "inv s" and "storable p" and "view s i = Some q"
    and "\<And>s'. inv s' \<Longrightarrow> view s' = (view s)(i \<mapsto> stored i p) \<Longrightarrow> count s' = count s \<Longrightarrow>
              frame s' = frame s \<Longrightarrow> Q () s'"
  shows "wp E (wr i p) Q s"
proof (rule wp_wr [OF assms(1,2)])
  have lt: "i < count s" using view_bound [OF assms(1,3)] .
  then show "i \<le> count s" by simp
  show "i + 1 < 2 ^ 32" using lt count_bound [OF assms(1)] by simp
  fix s'
  assume "inv s'" "view s' = (view s)(i \<mapsto> stored i p)" "count s' = max (count s) (i + 1)"
    "frame s' = frame s"
  then show "Q () s'" using lt assms(4) by (simp add: max_absorb1)
qed

end

section \<open>The index file as a provider\<close>

abbreviation idx_count :: "disk_index \<Rightarrow> nat" where
  "idx_count s \<equiv> page_count (ix_pager s)"

abbreviation idx_raw :: "disk_index \<Rightarrow> nat \<Rightarrow> byte list option" where
  "idx_raw s \<equiv> pager_view (ix_pager s)"

definition idx_inv :: "disk_index \<Rightarrow> bool" where
  "idx_inv s \<longleftrightarrow> pager_inv (ix_pager s)"

definition idx_frame :: "disk_index \<Rightarrow> nat \<times> nat \<times> nat" where
  "idx_frame s = (root_page s, first_leaf_page s, ix_size s)"

definition parsed :: "nat \<Rightarrow> byte list option \<Rightarrow> ParsedPage option" where
  "parsed i r = (case r of
      None \<Rightarrow> None
    | Some raw \<Rightarrow> (case parse_page i raw of Inl _ \<Rightarrow> None | Inr p \<Rightarrow> Some p))"

definition node_view :: "disk_index \<Rightarrow> nat \<Rightarrow> ParsedPage option" where
  "node_view s i = parsed i (idx_raw s i)"

definition storable :: "ParsedPage \<Rightarrow> bool" where
  "storable p \<longleftrightarrow> entries_ok p \<and> fits p \<and> small_ids p \<and> key_total p \<le> 255 \<and>
     (node_type p = Inner \<longrightarrow> length (children p) = length (inner_keys p) + 1)"

definition stored_at :: "nat \<Rightarrow> ParsedPage \<Rightarrow> ParsedPage" where
  "stored_at i p = stored_page (p\<lparr>page_id := i\<rparr>)"

lemma storable_page_id [simp]: "storable (p\<lparr>page_id := i\<rparr>) = storable p"
  by (cases "node_type p") (simp_all add: storable_def entries_ok_def fits_def small_ids_def key_total_def)

lemma on_pager_eq:
  "on_pager m s = (case m (ix_pager s) of (r, q) \<Rightarrow> (r, s\<lparr>ix_pager := q\<rparr>))"
  by (simp add: on_pager_def zoom_def)

lemma idx_frame_pager [simp]: "idx_frame (s\<lparr>ix_pager := q\<rparr>) = idx_frame s"
  by (simp add: idx_frame_def)

lemma node_view_pager [simp]:
  "pager_view q = idx_raw s \<Longrightarrow> node_view (s\<lparr>ix_pager := q\<rparr>) = node_view s"
  by (rule ext) (simp add: node_view_def)

lemma node_view_Some:
  "node_view s i = Some p \<longleftrightarrow> (\<exists>raw. idx_raw s i = Some raw \<and> parse_page i raw = Inr p)"
  by (auto simp: node_view_def parsed_def split: option.splits sum.splits)

lemma le_val_zeros: "le_val (replicate n 0) = 0"
  by (induction n) simp_all

lemma parse_blank: "parse_page i (replicate kPageSize 0) = Inl (Runtime_error ''Corrupt index page'')"
proof -
  have "peek 0 4 (replicate kPageSize 0) = (replicate 4 0 :: byte list)"
    by (simp add: peek_def kPageSize_def)
  then show ?thesis by (simp add: parse_page_def kPageMagic_def le_val_zeros)
qed

lemma idx_read_page_ok:
  assumes "idx_inv s" and "node_view s i = Some p"
  shows "\<exists>s'. idx_read_page i s = (Inr p, s') \<and> idx_inv s' \<and> node_view s' = node_view s
              \<and> idx_count s' = idx_count s \<and> idx_frame s' = idx_frame s"
proof -
  obtain raw where raw: "idx_raw s i = Some raw" "parse_page i raw = Inr p"
    using assms(2) by (auto simp: node_view_Some)
  obtain q where q: "read_page i (ix_pager s) = (Inr raw, q)" "pager_inv q"
    "pager_view q = idx_raw s" "page_count q = idx_count s"
    using read_page_ok [of "ix_pager s" i raw] assms(1) raw(1) by (auto simp: idx_inv_def)
  have "idx_read_page i s = (Inr p, s\<lparr>ix_pager := q\<rparr>)"
    using q(1) raw(2) by (simp add: on_pager_eq idx_read_page_def bnd_def of_sum_def)
  then show ?thesis using q by (auto simp: idx_inv_def)
qed

lemma idx_write_page_ok:
  assumes inv: "idx_inv s" and ok: "storable p" and i: "i \<le> idx_count s" "i + 1 < 2 ^ 32"
  shows "\<exists>s'. idx_write_page (p\<lparr>page_id := i\<rparr>) s = (Inr (), s') \<and> idx_inv s'
              \<and> node_view s' = (node_view s)(i \<mapsto> stored_at i p)
              \<and> idx_count s' = max (idx_count s) (i + 1) \<and> idx_frame s' = idx_frame s"
proof -
  let ?p = "p\<lparr>page_id := i\<rparr>"
  have "storable ?p" using ok by simp
  then obtain raw where raw: "page_image ?p = Inr raw" "length raw = kPageSize"
    "parse_page i raw = Inr (stored_page ?p)"
    using page_roundtrip [of ?p] by (auto simp: storable_def)
  obtain q where q: "write_page i raw (ix_pager s) = (Inr (), q)" "pager_inv q"
    "pager_view q = (idx_raw s)(i \<mapsto> raw)" "page_count q = max (idx_count s) (i + 1)"
    using write_page_ok [of "ix_pager s" raw i] inv raw(2) i by (auto simp: idx_inv_def)
  have "idx_write_page ?p s = (Inr (), s\<lparr>ix_pager := q\<rparr>)"
    using q(1) raw(1) by (simp add: on_pager_eq idx_write_page_def bnd_def of_sum_def)
  moreover have "node_view (s\<lparr>ix_pager := q\<rparr>) = (node_view s)(i \<mapsto> stored_at i p)"
    using q(3) raw(3) by (auto simp: node_view_def parsed_def stored_at_def)
  ultimately show ?thesis using q by (auto simp: idx_inv_def)
qed

text \<open>Allocating appends a blank page, which is no node.\<close>

lemma view_bound_pager: "pager_view p i = Some d \<Longrightarrow> i < page_count p"
  by (simp add: pager_view_def split: if_splits)

lemma allocate_node_page_ok:
  assumes inv: "idx_inv s" and pos: "0 < idx_count s" and room: "idx_count s + 1 < 2 ^ 32"
  shows "\<exists>s'. allocate_node_page s = (Inr (idx_count s), s') \<and> idx_inv s'
              \<and> node_view s' = node_view s \<and> idx_count s' = idx_count s + 1
              \<and> idx_frame s' = idx_frame s"
proof -
  obtain q where q: "allocate_page (ix_pager s) = (Inr (idx_count s), q)" "pager_inv q"
    "pager_view q = (idx_raw s)(idx_count s \<mapsto> replicate kPageSize 0)"
    "page_count q = idx_count s + 1"
    using allocate_page_ok [of "ix_pager s"] inv room by (auto simp: idx_inv_def)
  have "allocate_node_page s = (Inr (idx_count s), s\<lparr>ix_pager := q\<rparr>)"
    using q(1) pos by (simp add: on_pager_eq allocate_node_page_def op_simps)
  moreover have "idx_raw s (idx_count s) = None"
    using view_bound_pager [of "ix_pager s" "idx_count s"]
    by (cases "idx_raw s (idx_count s)") auto
  then have "node_view (s\<lparr>ix_pager := q\<rparr>) = node_view s"
    using q(3) by (auto simp: node_view_def parsed_def parse_blank)
  ultimately show ?thesis using q by (auto simp: idx_inv_def)
qed

interpretation nodes: node_store idx_read_page "\<lambda>i p. idx_write_page (p\<lparr>page_id := i\<rparr>)" idx_inv
    node_view idx_count storable stored_at idx_frame allocate_node_page
proof unfold_locales
  show "idx_inv s \<Longrightarrow> node_view s i = Some p \<Longrightarrow> i < idx_count s" for s i p
    using view_bound_pager by (auto simp: node_view_Some)
  show "idx_inv s \<Longrightarrow> idx_count s < 2 ^ 32" for s
    using consistentD(5) by (auto simp: idx_inv_def pager_inv_def)
qed (rule idx_read_page_ok idx_write_page_ok allocate_node_page_ok; assumption)+

text \<open>Writing a node under its own id.\<close>

lemma wp_write_node:
  assumes "idx_inv s" and "storable p" and "page_id p < idx_count s"
    and "\<And>s'. idx_inv s' \<Longrightarrow> node_view s' = (node_view s)(page_id p \<mapsto> stored_page p) \<Longrightarrow>
              idx_count s' = idx_count s \<Longrightarrow> idx_frame s' = idx_frame s \<Longrightarrow> Q () s'"
  shows "wp E (idx_write_page p) Q s"
  using nodes.wp_wr [OF assms(1,2), of "page_id p" Q E] assms(3,4) nodes.count_bound [OF assms(1)]
  by (simp add: stored_at_def max_absorb1)

lemma wp_read_node:
  assumes "idx_inv s" and "node_view s i = Some p"
    and "\<And>s'. idx_inv s' \<Longrightarrow> node_view s' = node_view s \<Longrightarrow> idx_count s' = idx_count s \<Longrightarrow>
              idx_frame s' = idx_frame s \<Longrightarrow> Q p s'"
  shows "wp E (idx_read_page i) Q s"
  using nodes.wp_rd [OF assms(1,2), of Q E] assms(3) by blast

section \<open>The superblock\<close>

lemma superblock_image_eq:
  "superblock_image s = le_bytes 4 kIdxMagic @ le_bytes 4 kIdxVersion @ le_bytes 4 (root_page s) @
     le_bytes 4 (first_leaf_page s) @ le_bytes 8 (ix_size s) @ replicate (kPageSize - 24) 0"
proof -
  have "poke 0 (le_bytes 4 kIdxMagic) ([] @ replicate kPageSize 0) =
      [] @ le_bytes 4 kIdxMagic @ replicate (kPageSize - 4) (0 :: byte)"
    by (subst poke_replicate) (simp_all add: kPageSize_def)
  then have 1: "poke 0 (le_bytes 4 kIdxMagic) (replicate kPageSize 0) =
      le_bytes 4 kIdxMagic @ replicate (kPageSize - 4) (0 :: byte)" by simp
  have step: "poke (length pre) bs (pre @ replicate k 0) = (pre @ bs) @ replicate (k - length bs) (0 :: byte)"
    if "length bs \<le> k" for pre bs k
    using poke_replicate [OF refl that] by simp
  show ?thesis
    unfolding superblock_image_def 1
    using step [of "le_bytes 4 kIdxVersion" "kPageSize - 4" "le_bytes 4 kIdxMagic"]
      step [of "le_bytes 4 (root_page s)" "kPageSize - 8" "le_bytes 4 kIdxMagic @ le_bytes 4 kIdxVersion"]
      step [of "le_bytes 4 (first_leaf_page s)" "kPageSize - 12"
          "le_bytes 4 kIdxMagic @ le_bytes 4 kIdxVersion @ le_bytes 4 (root_page s)"]
      step [of "le_bytes 8 (ix_size s)" "kPageSize - 16"
          "le_bytes 4 kIdxMagic @ le_bytes 4 kIdxVersion @ le_bytes 4 (root_page s) @
           le_bytes 4 (first_leaf_page s)"]
    by (simp add: kPageSize_def)
qed

lemma length_superblock_image [simp]: "length (superblock_image s) = kPageSize"
  unfolding superblock_image_eq by (simp add: kPageSize_def)

lemma parse_superblock: "parse_page i (superblock_image s) = Inl (Runtime_error ''Corrupt index page'')"
proof -
  have "peek 0 4 (superblock_image s) = le_bytes 4 kIdxMagic"
    unfolding superblock_image_eq by (simp add: peek_def)
  then show ?thesis by (simp add: parse_page_def kPageMagic_def kIdxMagic_def)
qed

definition superblock_current :: "disk_index \<Rightarrow> bool" where
  "superblock_current s \<longleftrightarrow> idx_raw s 0 = Some (superblock_image s)"

lemma superblock_image_frame: "idx_frame s' = idx_frame s \<Longrightarrow> superblock_image s' = superblock_image s"
  by (simp add: superblock_image_def idx_frame_def)

lemma write_superblock_ok:
  assumes inv: "idx_inv s"
  shows "\<exists>s'. write_superblock s = (Inr (), s') \<and> idx_inv s' \<and> node_view s' = (node_view s)(0 := None)
              \<and> idx_count s' = max (idx_count s) 1 \<and> idx_frame s' = idx_frame s \<and> superblock_current s'"
proof -
  have op: "st_open (pg_stream (ix_pager s))"
    using inv consistentD(1) by (auto simp: idx_inv_def pager_inv_def healthy_def)
  obtain q where q: "write_page 0 (superblock_image s) (ix_pager s) = (Inr (), q)" "pager_inv q"
    "pager_view q = (idx_raw s)(0 \<mapsto> superblock_image s)" "page_count q = max (idx_count s) 1"
    using write_page_ok [of "ix_pager s" "superblock_image s" 0] inv by (auto simp: idx_inv_def)
  have "write_superblock s = (Inr (), s\<lparr>ix_pager := q\<rparr>)"
    using q(1) op by (simp add: on_pager_eq write_superblock_def)
  moreover have "node_view (s\<lparr>ix_pager := q\<rparr>) = (node_view s)(0 := None)"
    using q(3) by (auto simp: node_view_def parsed_def parse_superblock)
  moreover have "superblock_current (s\<lparr>ix_pager := q\<rparr>)"
    using q(3) by (simp add: superblock_current_def superblock_image_def)
  ultimately show ?thesis using q by (auto simp: idx_inv_def)
qed

lemma wp_write_superblock:
  assumes "idx_inv s" and "0 < idx_count s"
    and "\<And>s'. idx_inv s' \<Longrightarrow> node_view s' = (node_view s)(0 := None) \<Longrightarrow> idx_count s' = idx_count s \<Longrightarrow>
              idx_frame s' = idx_frame s \<Longrightarrow> superblock_current s' \<Longrightarrow> Q () s'"
  shows "wp E write_superblock Q s"
  using write_superblock_ok [OF assms(1)] assms(2,3) by (auto simp: wp_def max_absorb1)

end
