(* ===== verification/IndexTree.thy ===== *)
theory IndexTree
  imports NodeStore "HOL-Library.Multiset"
begin

text \<open>
  What the pages of an index stand for: a tree with the entries in its leaves. The tree exists
  only in the proofs. It says which page holds which node, that separators separate, that the
  leaves are chained from left to right, and it names the contents of the index, a sorted list
  of keys with their record ids. A context is a tree with a hole, the way from the root to a
  node, so that the effect of an operation can be stated where it happens.
\<close>

section \<open>Keys of entries\<close>

definition key_val :: "LeafEntry \<Rightarrow> Value" where
  "key_val e = (case decode_value (key e) (key_len e) of Inl _ \<Rightarrow> VNull | Inr (v, _) \<Rightarrow> v)"

definition good_entry :: "DataType \<Rightarrow> LeafEntry \<Rightarrow> bool" where
  "good_entry ty e \<longleftrightarrow> typed ty (key_val e) \<and> encoded_value_size (key_val e) \<le> kMaxIndexKeyBytes \<and>
     key e = value_bytes (key_val e) \<and> key_len e = encoded_value_size (key_val e) \<and> rid e < 2 ^ 64"

definition strip :: "LeafEntry \<Rightarrow> LeafEntry" where
  "strip e = e\<lparr>rid := 0\<rparr>"

lemma key_val_strip [simp]: "key_val (strip e) = key_val e"
  by (simp add: key_val_def strip_def)

lemma strip_strip [simp]: "strip (strip e) = strip e"
  by (simp add: strip_def)

lemma key_len_strip [simp]: "key_len (strip e) = key_len e"
  by (simp add: strip_def)

lemma good_entry_strip: "good_entry ty e \<Longrightarrow> good_entry ty (strip e)"
  by (simp add: good_entry_def) (simp add: strip_def)

lemma good_entry_ok: "good_entry ty e \<Longrightarrow> entry_ok e"
  using length_value_bytes [of "key_val e"]
  by (auto simp: good_entry_def entry_ok_def kMaxIndexKeyBytes_def)

lemma good_entry_decode:
  "good_entry ty e \<Longrightarrow> decode_value (key e) (key_len e) = Inr (key_val e, key_len e)"
  using decode_image [of "key_val e"] small_encodable [of "key_val e"] by (simp add: good_entry_def)

lemma cmp_key_good:
  "good_entry ty e \<Longrightarrow> typed ty k \<Longrightarrow> cmp_key_bytes e k = Inr (three_way (key_val e) k)"
  by (simp add: cmp_key_bytes_def good_entry_decode)
    (simp add: Value_compare_typed [of ty] good_entry_def)

lemma compare_good:
  "good_entry ty a \<Longrightarrow> good_entry ty b \<Longrightarrow>
     compare_encoded_keys (key a) (key_len a) (key b) (key_len b) = Inr (three_way (key_val a) (key_val b))"
  by (simp add: compare_encoded_keys_def good_entry_decode)
    (simp add: Value_compare_typed [of ty] good_entry_def)

lemma keys_equal_good:
  "good_entry ty a \<Longrightarrow> good_entry ty b \<Longrightarrow> keys_equal_bytes a b = Inr (key_val a = key_val b)"
  by (simp add: keys_equal_bytes_def compare_good)

lemma make_entry_good:
  assumes "typed ty k" and "encoded_value_size k \<le> kMaxIndexKeyBytes" and "r < 2 ^ 64"
  shows "\<exists>e. make_entry k r = Inr e \<and> good_entry ty e \<and> key_val e = k \<and> rid e = r"
proof -
  let ?e = "\<lparr>key = value_bytes k, key_len = encoded_value_size k, rid = r\<rparr>"
  have len: "encoded_value_size k mod 2 ^ 16 = encoded_value_size k"
    using assms(2) by (simp add: kMaxIndexKeyBytes_def)
  have kv: "key_val ?e = k"
    using decode_image [OF small_encodable [OF assms(2)]] by (simp add: key_val_def)
  moreover have "make_entry k r = Inr ?e"
    using assms(2) len by (simp add: make_entry_def encode_value_ok)
  ultimately show ?thesis using assms by (auto simp: good_entry_def)
qed

section \<open>Trees\<close>

datatype btree = BLeaf nat "LeafEntry list" nat | BNode nat "LeafEntry list" "btree list"

fun bid :: "btree \<Rightarrow> nat" where
  "bid (BLeaf i es nx) = i"
| "bid (BNode i ks ts) = i"

fun flat :: "btree \<Rightarrow> LeafEntry list" where
  "flat (BLeaf i es nx) = es"
| "flat (BNode i ks ts) = concat (map flat ts)"

fun leaves :: "btree \<Rightarrow> (nat \<times> LeafEntry list \<times> nat) list" where
  "leaves (BLeaf i es nx) = [(i, es, nx)]"
| "leaves (BNode i ks ts) = concat (map leaves ts)"

fun ids :: "btree \<Rightarrow> nat list" where
  "ids (BLeaf i es nx) = [i]"
| "ids (BNode i ks ts) = i # concat (map ids ts)"

fun bal :: "nat \<Rightarrow> btree \<Rightarrow> bool" where
  "bal n (BLeaf i es nx) = (n = 0)"
| "bal n (BNode i ks ts) = (\<exists>m. n = Suc m \<and> (\<forall>t \<in> set ts. bal m t))"

definition vals :: "btree \<Rightarrow> Value list" where
  "vals t = map key_val (flat t)"

lemma vals_simps [simp]:
  "vals (BLeaf i es nx) = map key_val es"
  "vals (BNode i ks ts) = concat (map vals ts)"
  by (simp_all add: vals_def [abs_def] map_concat comp_def)

lemma flat_leaves: "flat t = concat (map (\<lambda>(i, es, nx). es) (leaves t))"
proof (induction t)
  case (BNode i ks ts)
  then show ?case by (induction ts) simp_all
qed simp

section \<open>Separators\<close>

text \<open>
  Every key left of a separator is below it, every key right of it is not. This is all a
  search needs, and all the operations keep; a separator need not be the least key of its
  subtree.
\<close>

fun seps :: "'a::linorder list \<Rightarrow> 'a list list \<Rightarrow> bool" where
  "seps [] [F] = True"
| "seps (k # ks) (F # Fs) =
     ((\<forall>v \<in> set F. \<forall>x \<in> set (k # ks). v < x) \<and> (\<forall>G \<in> set Fs. \<forall>v \<in> set G. k \<le> v) \<and> seps ks Fs)"
| "seps _ _ = False"

lemma seps_length: "seps ks Fs \<Longrightarrow> length Fs = Suc (length ks)"
  by (induction ks Fs rule: seps.induct) auto

lemma seps_append:
  assumes "length kl = length Fl"
  shows "seps (kl @ kr) (Fl @ F # Fr) \<longleftrightarrow>
           seps (kl @ kr) (Fl @ [] # Fr) \<and>
           (\<forall>v \<in> set F. (\<forall>x \<in> set kl. x \<le> v) \<and> (\<forall>x \<in> set kr. v < x))"
  using assms
proof (induction kl Fl rule: list_induct2)
  case Nil
  show ?case by (cases kr; cases Fr) auto
next
  case (Cons k kl G Fl)
  then show ?case by auto
qed

lemma seps_mins:
  assumes "\<forall>F \<in> set Fs. F \<noteq> []" and "sorted_wrt (<) (concat Fs)" and "Fs \<noteq> []"
  shows "seps (map hd (tl Fs)) Fs"
  using assms
proof (induction Fs)
  case Nil
  then show ?case by simp
next
  case (Cons F Fs)
  show ?case
  proof (cases Fs)
    case Nil
    then show ?thesis by simp
  next
    case (Cons G Gs)
    have IH: "seps (map hd (tl Fs)) Fs" using Cons.IH Cons.prems Cons by (simp add: sorted_wrt_append)
    have lt: "v < w" if "v \<in> set F" "w \<in> set (concat Fs)" for v w
      using Cons.prems(2) that by (auto simp: sorted_wrt_append)
    have hds: "x \<in> set (concat Fs)" if "x \<in> hd ` set Fs" for x
      using that Cons.prems(1) hd_in_set by fastforce
    have G: "hd G \<le> v" if "H \<in> set Fs" "v \<in> set H" for v H
    proof -
      have "sorted_wrt (<) (concat Fs)" using Cons.prems(2) by (simp add: sorted_wrt_append)
      moreover have "concat Fs = hd G # (tl G @ concat Gs)" using Cons Cons.prems(1) by simp
      moreover have "v \<in> set (concat Fs)" using that by auto
      ultimately show ?thesis by (auto intro: less_imp_le)
    qed
    show ?thesis using IH lt hds G Cons by auto
  qed
qed

section \<open>Well-formed trees\<close>

definition leaf_ok :: "DataType \<Rightarrow> LeafEntry list \<Rightarrow> bool" where
  "leaf_ok ty es \<longleftrightarrow> es \<noteq> [] \<and> (\<forall>e \<in> set es. good_entry ty e) \<and> \<not> leaf_overflow es"

definition inner_ok :: "DataType \<Rightarrow> LeafEntry list \<Rightarrow> nat list \<Rightarrow> bool" where
  "inner_ok ty ks cs \<longleftrightarrow> (\<forall>k \<in> set ks. good_entry ty k \<and> rid k = 0) \<and> length ks \<le> 255 \<and>
     \<not> inner_overflow ks cs"

fun wf_tree :: "DataType \<Rightarrow> btree \<Rightarrow> bool" where
  "wf_tree ty (BLeaf i es nx) = leaf_ok ty es"
| "wf_tree ty (BNode i ks ts) =
     (inner_ok ty ks (map bid ts) \<and> seps (map key_val ks) (map vals ts) \<and> (\<forall>t \<in> set ts. wf_tree ty t))"

lemma wf_tree_nonempty: "wf_tree ty t \<Longrightarrow> flat t \<noteq> []"
proof (induction t)
  case (BLeaf i es nx)
  then show ?case by (simp add: leaf_ok_def)
next
  case (BNode i ks ts)
  then have "length ts = Suc (length ks)" using seps_length [of "map key_val ks" "map vals ts"] by simp
  then obtain t ts' where "ts = t # ts'" by (cases ts) auto
  with BNode show ?case by simp
qed

lemma wf_tree_good: "wf_tree ty t \<Longrightarrow> e \<in> set (flat t) \<Longrightarrow> good_entry ty e"
  by (induction t) (auto simp: leaf_ok_def)

text \<open>
  The shortest images have 6 bytes, that of the empty string 5; so a leaf that fits its page
  has at most 255 entries, which its one-byte count can hold.
\<close>

lemma typed_size: "typed ty v \<Longrightarrow> 5 \<le> encoded_value_size v"
  by (cases v) auto

lemma typed_size_above: "typed ty v \<Longrightarrow> typed ty w \<Longrightarrow> v < w \<Longrightarrow> 6 \<le> encoded_value_size w"
  by (cases v; cases w) (auto simp: less_Value_def Suc_le_eq)

lemma leaf_length:
  assumes good: "\<forall>e \<in> set es. good_entry ty e" and sorted: "sorted_wrt (<) (map key_val es)"
    and fits: "\<not> leaf_overflow es"
  shows "length es \<le> 255"
proof (cases es)
  case Nil
  then show ?thesis by simp
next
  case (Cons e fs)
  have e: "typed ty (key_val e)" and big: "5 \<le> key_len e"
    using good Cons typed_size by (auto simp: good_entry_def)
  have "16 \<le> 2 + key_len f + 8" if "f \<in> set fs" for f
    using that good sorted Cons typed_size_above [OF e, of "key_val f"] by (auto simp: good_entry_def)
  then have "16 * length fs \<le> (\<Sum>f\<leftarrow>fs. 2 + key_len f + 8)"
    using sum_list_mono [of fs "\<lambda>_. 16" "\<lambda>f. 2 + key_len f + 8"] by (simp add: sum_list_triv mult.commute)
  with big fits Cons show ?thesis
    by (simp add: leaf_overflow_def leaf_payload_bytes_eq kPageSize_def)
qed

section \<open>Contexts\<close>

text \<open>
  One step of the way down: the inner node's id and its separators and children on either side
  of the child the way goes on in. A context lists the steps from the root.
\<close>

datatype frame = Frame (fid: nat) (fkl: "LeafEntry list") (ftl: "btree list")
  (fkr: "LeafEntry list") (ftr: "btree list")

fun plug :: "frame list \<Rightarrow> btree \<Rightarrow> btree" where
  "plug [] t = t"
| "plug (Frame i kl lts kr rts # c) t = BNode i (kl @ kr) (lts @ plug c t # rts)"

definition left_flat :: "frame list \<Rightarrow> LeafEntry list" where
  "left_flat c = concat (map (\<lambda>f. concat (map flat (ftl f))) c)"

definition right_flat :: "frame list \<Rightarrow> LeafEntry list" where
  "right_flat c = concat (map (\<lambda>f. concat (map flat (ftr f))) (rev c))"

definition left_leaves :: "frame list \<Rightarrow> (nat \<times> LeafEntry list \<times> nat) list" where
  "left_leaves c = concat (map (\<lambda>f. concat (map leaves (ftl f))) c)"

definition right_leaves :: "frame list \<Rightarrow> (nat \<times> LeafEntry list \<times> nat) list" where
  "right_leaves c = concat (map (\<lambda>f. concat (map leaves (ftr f))) (rev c))"

definition ctx_ids :: "frame list \<Rightarrow> nat list" where
  "ctx_ids c = concat (map (\<lambda>f. fid f # concat (map ids (ftl f)) @ concat (map ids (ftr f))) c)"

lemma ctx_simps [simp]:
  "left_flat [] = []" "right_flat [] = []" "left_leaves [] = []" "right_leaves [] = []" "ctx_ids [] = []"
  "left_flat (f # c) = concat (map flat (ftl f)) @ left_flat c"
  "right_flat (f # c) = right_flat c @ concat (map flat (ftr f))"
  "left_leaves (f # c) = concat (map leaves (ftl f)) @ left_leaves c"
  "right_leaves (f # c) = right_leaves c @ concat (map leaves (ftr f))"
  "ctx_ids (f # c) = (fid f # concat (map ids (ftl f)) @ concat (map ids (ftr f))) @ ctx_ids c"
  by (simp_all add: left_flat_def right_flat_def left_leaves_def right_leaves_def ctx_ids_def)

lemma ctx_append [simp]:
  "left_flat (c @ d) = left_flat c @ left_flat d" "right_flat (c @ d) = right_flat d @ right_flat c"
  "left_leaves (c @ d) = left_leaves c @ left_leaves d"
  "right_leaves (c @ d) = right_leaves d @ right_leaves c"
  "ctx_ids (c @ d) = ctx_ids c @ ctx_ids d"
  by (simp_all add: left_flat_def right_flat_def left_leaves_def right_leaves_def ctx_ids_def)

lemma plug_append: "plug (c @ d) t = plug c (plug d t)"
  by (induction c t rule: plug.induct) simp_all

lemma flat_plug: "flat (plug c t) = left_flat c @ flat t @ right_flat c"
  by (induction c t rule: plug.induct) simp_all

lemma leaves_plug: "leaves (plug c t) = left_leaves c @ leaves t @ right_leaves c"
  by (induction c t rule: plug.induct) simp_all

lemma mset_ids_plug: "mset (ids (plug c t)) = mset (ctx_ids c) + mset (ids t)"
  by (induction c t rule: plug.induct) (simp_all add: ac_simps)

lemma set_ids_plug: "set (ids (plug c t)) = set (ctx_ids c) \<union> set (ids t)"
  using mset_ids_plug [of c t] by (metis set_mset_mset set_mset_union)

lemma distinct_ids_plug:
  "distinct (ids (plug c t)) \<longleftrightarrow> distinct (ctx_ids c) \<and> distinct (ids t) \<and> set (ctx_ids c) \<inter> set (ids t) = {}"
proof -
  have "mset (ids (plug c t)) = mset (ctx_ids c @ ids t)" by (simp add: mset_ids_plug)
  then have "distinct (ids (plug c t)) = distinct (ctx_ids c @ ids t)"
    by (rule mset_eq_imp_distinct_iff)
  then show ?thesis by auto
qed

text \<open>The id at the top of a plugged context depends on the hole only when there is no frame.\<close>

definition top_id :: "frame list \<Rightarrow> nat \<Rightarrow> nat" where
  "top_id c r = (case c of [] \<Rightarrow> r | f # _ \<Rightarrow> fid f)"

lemma bid_plug: "bid (plug c t) = top_id c (bid t)"
  by (cases "(c, t)" rule: plug.cases) (simp_all add: top_id_def)

fun depth_at :: "frame list \<Rightarrow> nat \<Rightarrow> bool" where
  "depth_at [] n = True"
| "depth_at (f # c) n = ((\<forall>t \<in> set (ftl f) \<union> set (ftr f). bal (n + length c) t) \<and> depth_at c n)"

lemma bal_plug: "bal m (plug c t) \<longleftrightarrow> (\<exists>n. m = n + length c \<and> bal n t \<and> depth_at c n)"
proof (induction c t arbitrary: m rule: plug.induct)
  case (1 t)
  show ?case by simp
next
  case (2 i kl lts kr rts c t)
  show ?case by (auto simp: 2)
qed

section \<open>Replacing the tree in the hole\<close>

text \<open>The values a subtree may have where a context has its hole.\<close>

definition hole_ok :: "frame list \<Rightarrow> Value \<Rightarrow> bool" where
  "hole_ok c v \<longleftrightarrow> (\<forall>f \<in> set c. (\<forall>x \<in> set (fkl f). key_val x \<le> v) \<and> (\<forall>x \<in> set (fkr f). v < key_val x))"

fun ctx_wf :: "DataType \<Rightarrow> frame list \<Rightarrow> nat \<Rightarrow> bool" where
  "ctx_wf ty [] r = True"
| "ctx_wf ty (Frame i kl lts kr rts # c) r =
     (length kl = length lts \<and> inner_ok ty (kl @ kr) (map bid lts @ top_id c r # map bid rts) \<and>
      seps (map key_val (kl @ kr)) (map vals lts @ map key_val (left_flat c @ right_flat c) # map vals rts) \<and>
      (\<forall>t \<in> set lts \<union> set rts. wf_tree ty t) \<and> ctx_wf ty c r)"

lemma vals_plug: "vals (plug c t) = map key_val (left_flat c) @ vals t @ map key_val (right_flat c)"
  by (simp add: vals_def flat_plug)

lemma seps_hole:
  assumes "length kl = length lts"
  shows "seps (map key_val (kl @ kr)) (map vals lts @ vals (plug c t) # map vals rts) \<longleftrightarrow>
     seps (map key_val (kl @ kr)) (map vals lts @ map key_val (left_flat c @ right_flat c) # map vals rts) \<and>
     (\<forall>v \<in> set (vals t). (\<forall>x \<in> set kl. key_val x \<le> v) \<and> (\<forall>x \<in> set kr. v < key_val x))"
proof -
  have len: "length (map key_val kl) = length (map vals lts)" using assms by simp
  note split = seps_append [OF len, of "map key_val kr" _ "map vals rts"]
  show ?thesis
    using split [of "vals (plug c t)"] split [of "map key_val (left_flat c @ right_flat c)"]
    by (auto simp: vals_plug)
qed

text \<open>
  A plugged context is well formed when the context is, the tree in the hole is, and its
  values are allowed there. The side condition fixes where the hole cuts the separators.
\<close>

fun cut_ok :: "frame list \<Rightarrow> bool" where
  "cut_ok [] = True"
| "cut_ok (f # c) = (length (fkl f) = length (ftl f) \<and> cut_ok c)"

lemma wf_plug:
  assumes "cut_ok c"
  shows "wf_tree ty (plug c t) \<longleftrightarrow> ctx_wf ty c (bid t) \<and> wf_tree ty t \<and> (\<forall>v \<in> set (vals t). hole_ok c v)"
  using assms
proof (induction c t rule: plug.induct)
  case (1 t)
  show ?case by (simp add: hole_ok_def)
next
  case (2 i kl lts kr rts c t)
  then show ?case
    using seps_hole [of kl lts kr c t rts] by (auto simp: bid_plug hole_ok_def)
qed

section \<open>Pages\<close>

definition leaf_page :: "nat \<Rightarrow> LeafEntry list \<Rightarrow> nat \<Rightarrow> ParsedPage" where
  "leaf_page i es nx = (blank_page i Leaf)\<lparr>key_count := length es, next_leaf := nx, leaf_entries := es\<rparr>"

definition node_page :: "nat \<Rightarrow> LeafEntry list \<Rightarrow> nat list \<Rightarrow> ParsedPage" where
  "node_page i ks cs = (blank_page i Inner)\<lparr>key_count := length ks, inner_keys := ks, children := cs\<rparr>"

lemma page_sel [simp]:
  "page_id (leaf_page i es nx) = i" "node_type (leaf_page i es nx) = Leaf"
  "key_count (leaf_page i es nx) = length es" "next_leaf (leaf_page i es nx) = nx"
  "leaf_entries (leaf_page i es nx) = es" "inner_keys (leaf_page i es nx) = []"
  "children (leaf_page i es nx) = []"
  "page_id (node_page i ks cs) = i" "node_type (node_page i ks cs) = Inner"
  "key_count (node_page i ks cs) = length ks" "next_leaf (node_page i ks cs) = 0"
  "leaf_entries (node_page i ks cs) = []" "inner_keys (node_page i ks cs) = ks"
  "children (node_page i ks cs) = cs"
  by (simp_all add: leaf_page_def node_page_def blank_page_def)

fun rep :: "(nat \<Rightarrow> ParsedPage option) \<Rightarrow> btree \<Rightarrow> bool" where
  "rep m (BLeaf i es nx) = (m i = Some (leaf_page i es nx))"
| "rep m (BNode i ks ts) = (m i = Some (node_page i ks (map bid ts)) \<and> (\<forall>t \<in> set ts. rep m t))"

fun rep_ctx :: "(nat \<Rightarrow> ParsedPage option) \<Rightarrow> frame list \<Rightarrow> nat \<Rightarrow> bool" where
  "rep_ctx m [] r = True"
| "rep_ctx m (Frame i kl lts kr rts # c) r =
     (m i = Some (node_page i (kl @ kr) (map bid lts @ top_id c r # map bid rts)) \<and>
      (\<forall>t \<in> set lts \<union> set rts. rep m t) \<and> rep_ctx m c r)"

lemma rep_plug: "rep m (plug c t) \<longleftrightarrow> rep_ctx m c (bid t) \<and> rep m t"
  by (induction c t rule: plug.induct) (auto simp: bid_plug)

lemma rep_cong: "(\<And>i. i \<in> set (ids t) \<Longrightarrow> m' i = m i) \<Longrightarrow> rep m' t = rep m t"
  by (induction t) auto

lemma rep_ctx_cong: "(\<And>i. i \<in> set (ctx_ids c) \<Longrightarrow> m' i = m i) \<Longrightarrow> rep_ctx m' c r = rep_ctx m c r"
proof (induction c)
  case Nil
  show ?case by simp
next
  case (Cons f c)
  obtain i kl lts kr rts where f: "f = Frame i kl lts kr rts" by (cases f)
  have IH: "rep_ctx m' c r = rep_ctx m c r" using Cons by simp
  have i: "m' i = m i" using Cons.prems f by simp
  have "rep m' t = rep m t" if "t \<in> set lts \<union> set rts" for t
    using that f by (intro rep_cong Cons.prems) auto
  then have "(\<forall>t \<in> set lts \<union> set rts. rep m' t) = (\<forall>t \<in> set lts \<union> set rts. rep m t)" by blast
  with IH i show ?case by (simp only: f rep_ctx.simps)
qed

lemma rep_bid: "rep m t \<Longrightarrow> m (bid t) \<noteq> None"
  by (cases t) simp_all

lemma rep_ids: "rep m t \<Longrightarrow> i \<in> set (ids t) \<Longrightarrow> m i \<noteq> None"
  by (induction t) auto

lemma bid_in_ids [simp]: "bid t \<in> set (ids t)"
  by (cases t) simp_all

section \<open>The chain of leaves\<close>

fun first_id :: "(nat \<times> LeafEntry list \<times> nat) list \<Rightarrow> nat \<Rightarrow> nat" where
  "first_id [] z = z"
| "first_id ((i, es, nx) # ls) z = i"

fun chained :: "(nat \<times> LeafEntry list \<times> nat) list \<Rightarrow> nat \<Rightarrow> bool" where
  "chained [] z = True"
| "chained ((i, es, nx) # ls) z = (nx = first_id ls z \<and> chained ls z)"

lemma first_id_append [simp]: "first_id (xs @ ys) z = first_id xs (first_id ys z)"
  by (cases "(xs, z)" rule: first_id.cases) simp_all

lemma chained_append: "chained (xs @ ys) z \<longleftrightarrow> chained xs (first_id ys z) \<and> chained ys z"
  by (induction xs z rule: chained.induct) auto

lemma leaf_ids: "(i, es, nx) \<in> set (leaves t) \<Longrightarrow> i \<in> set (ids t)"
  by (induction t) auto

lemma leaves_nonempty: "wf_tree ty t \<Longrightarrow> leaves t \<noteq> []"
  using wf_tree_nonempty [of ty t] by (auto simp: flat_leaves)

lemma rep_leaves: "rep m t \<Longrightarrow> (i, es, nx) \<in> set (leaves t) \<Longrightarrow> m i = Some (leaf_page i es nx)"
  by (induction t) auto

end
