(* ===== verification/IndexSearch.thy ===== *)
theory IndexSearch
  imports DiskIndex
begin

text \<open>
  Looking things up in \<open>cw_db::DiskBspIndex\<close>: the binary searches within a leaf, the descent
  from the root, the iterators over the chain of leaves, and the walks to the leftmost leaf of
  a subtree. A loop that follows page ids takes fuel: one node per page of the file and one
  more. Reading pages changes no page, so a walk longer than that is in a cycle and the
  program would never leave it.
\<close>

section \<open>Within a leaf\<close>

text \<open>
  \<open>while (lo < hi)\<close> of the two binary searches; \<open>right\<close> says for which outcomes of the
  comparison the search goes on to the right of the middle.
\<close>

function bound_loop :: "(int \<Rightarrow> bool) \<Rightarrow> LeafEntry list \<Rightarrow> Value \<Rightarrow> nat \<Rightarrow> nat \<Rightarrow> error + nat" where
  "bound_loop right es k lo hi =
     (if lo < hi then
        let mid = (lo + hi) div 2
        in if length es \<le> mid then Inl Undefined_behaviour
           else case cmp_key_bytes (es ! mid) k of
             Inl e \<Rightarrow> Inl e
           | Inr c \<Rightarrow> if right c then bound_loop right es k (mid + 1) hi
                     else bound_loop right es k lo mid
      else Inr lo)"
  by pat_completeness auto
termination
  by (relation "measure (\<lambda>(right, es, k, lo, hi). hi - lo)") auto

declare bound_loop.simps [simp del]

definition lower_bound_slot :: "ParsedPage \<Rightarrow> Value \<Rightarrow> error + nat" where
  "lower_bound_slot p k =
     bound_loop (\<lambda>c. c < 0) (leaf_entries p) k 0 (length (leaf_entries p) mod 2 ^ 16)"

definition upper_bound_slot :: "ParsedPage \<Rightarrow> Value \<Rightarrow> error + nat" where
  "upper_bound_slot p k =
     bound_loop (\<lambda>c. c \<le> 0) (leaf_entries p) k 0 (length (leaf_entries p) mod 2 ^ 16)"

section \<open>Iterators\<close>

text \<open>The iterator's pointer to its index is the index the operation runs on.\<close>

record const_iterator =
  it_page :: nat
  it_slot :: nat
  it_key :: Value
  it_rid :: nat
  at_end :: bool

definition end_iter :: const_iterator where
  "end_iter = \<lparr>it_page = 0, it_slot = 0, it_key = VNull, it_rid = 0, at_end = True\<rparr>"

text \<open>The three lines the constructor and \<open>operator++\<close> share: load key and rid of the slot.\<close>

definition load_slot :: "ParsedPage \<Rightarrow> const_iterator \<Rightarrow> error + const_iterator" where
  "load_slot p it =
     (if it_slot it < length (leaf_entries p) then
        let e = leaf_entries p ! it_slot it
        in case decode_value (key e) (key_len e) of
             Inl x \<Rightarrow> Inl x
           | Inr (v, _) \<Rightarrow> Inr (it\<lparr>it_key := v, it_rid := rid e\<rparr>)
      else Inr (it\<lparr>at_end := True\<rparr>))"

definition mk_iter :: "nat \<Rightarrow> nat \<Rightarrow> (disk_index, const_iterator) op" where
  "mk_iter page slot =
     bnd (idx_read_page page) (\<lambda>p.
     of_sum (load_slot p (end_iter\<lparr>it_page := page, it_slot := slot, at_end := False\<rparr>)))"

definition iter_next :: "const_iterator \<Rightarrow> (disk_index, const_iterator) op" where
  "iter_next it =
     (if at_end it then ret it
      else bnd (idx_read_page (it_page it)) (\<lambda>p.
        let it = it\<lparr>it_slot := (it_slot it + 1) mod 2 ^ 16\<rparr>
        in if it_slot it < length (leaf_entries p) then of_sum (load_slot p it)
           else if next_leaf p = 0 then ret (it\<lparr>at_end := True\<rparr>)
           else let it = it\<lparr>it_page := next_leaf p, it_slot := 0\<rparr>
                in bnd (idx_read_page (it_page it)) (\<lambda>np. of_sum (load_slot np it))))"

definition iter_eq :: "const_iterator \<Rightarrow> const_iterator \<Rightarrow> bool" where
  "iter_eq a b \<longleftrightarrow> at_end a = at_end b \<and>
     (at_end a \<or> it_page a = it_page b \<and> it_slot a = it_slot b)"

section \<open>The descent\<close>

text \<open>\<open>for (i = 0; i < p.key_count; ++i)\<close>: the child after the last separator not above the key.\<close>

fun scan_keys :: "nat \<Rightarrow> nat \<Rightarrow> LeafEntry list \<Rightarrow> Value \<Rightarrow> nat \<Rightarrow> error + nat" where
  "scan_keys 0 i ks k child = Inr child"
| "scan_keys (Suc n) i ks k child =
     (if length ks \<le> i then Inl Undefined_behaviour
      else case cmp_key_bytes (ks ! i) k of
        Inl e \<Rightarrow> Inl e
      | Inr c \<Rightarrow> scan_keys n (i + 1) ks k (if c \<le> 0 then i + 1 else child))"

definition next_child :: "ParsedPage \<Rightarrow> Value \<Rightarrow> error + nat" where
  "next_child p k =
     (case scan_keys (key_count p) 0 (inner_keys p) k 0 of
        Inl e \<Rightarrow> Inl e
      | Inr child \<Rightarrow>
          if length (children p) \<le> child then Inl (Runtime_error ''Corrupt inner index page'')
          else Inr (children p ! child))"

text \<open>
  The loop \<open>find\<close>, \<open>lower_bound\<close>, \<open>upper_bound\<close> and \<open>find_leaf\<close> have in common; \<open>at_leaf\<close> is
  what they return on reaching a leaf, from the leaf and the page ids on the way to it.
\<close>

fun descend :: "nat \<Rightarrow> (nat list \<Rightarrow> ParsedPage \<Rightarrow> (disk_index, 'a) op) \<Rightarrow> nat list \<Rightarrow> nat \<Rightarrow> Value
                \<Rightarrow> (disk_index, 'a) op" where
  "descend 0 at_leaf path page k = throw Nontermination"
| "descend (Suc fuel) at_leaf path page k =
     bnd (idx_read_page page) (\<lambda>p.
       if node_type p = Leaf then at_leaf (path @ [page]) p
       else bnd (of_sum (next_child p k)) (\<lambda>c. descend fuel at_leaf (path @ [page]) c k))"

definition from_root :: "(nat list \<Rightarrow> ParsedPage \<Rightarrow> (disk_index, 'a) op) \<Rightarrow> Value \<Rightarrow> (disk_index, 'a) op" where
  "from_root at_leaf k =
     bnd (gets (\<lambda>s. (root_page s, page_count (ix_pager s)))) (\<lambda>(r, n).
     descend (n + 1) at_leaf [] r k)"

definition leaf_find :: "nat \<Rightarrow> Value \<Rightarrow> bool \<Rightarrow> (disk_index, const_iterator) op" where
  "leaf_find page k exact =
     bnd (idx_read_page page) (\<lambda>p.
     bnd (of_sum (lower_bound_slot p k)) (\<lambda>slot.
     bnd (of_sum (if slot < length (leaf_entries p)
                  then map_sum id Some (cmp_key_bytes (leaf_entries p ! slot) k) else Inr None)) (\<lambda>c.
     if c = Some 0 then mk_iter page slot
     else if \<not> exact \<and> (\<exists>x \<in> set_option c. 0 < x) then mk_iter page slot
     else if exact then ret end_iter
     else if slot < length (leaf_entries p) then mk_iter page slot
     else if next_leaf p \<noteq> 0 then mk_iter (next_leaf p) 0
     else ret end_iter)))"

definition leaf_lower :: "nat \<Rightarrow> Value \<Rightarrow> (disk_index, const_iterator) op" where
  "leaf_lower page k =
     bnd (idx_read_page page) (\<lambda>p.
     bnd (of_sum (lower_bound_slot p k)) (\<lambda>slot.
     if slot < length (leaf_entries p) then mk_iter page slot
     else if next_leaf p \<noteq> 0 then mk_iter (next_leaf p) 0
     else ret end_iter))"

definition idx_find :: "Value \<Rightarrow> (disk_index, const_iterator) op" where
  "idx_find k = from_root (\<lambda>path p. leaf_find (last path) k True) k"

definition idx_lower_bound :: "Value \<Rightarrow> (disk_index, const_iterator) op" where
  "idx_lower_bound k = from_root (\<lambda>path p. leaf_lower (last path) k) k"

definition idx_upper_bound :: "Value \<Rightarrow> (disk_index, const_iterator) op" where
  "idx_upper_bound k = from_root (\<lambda>path p.
     bnd (of_sum (upper_bound_slot p k)) (\<lambda>slot.
     if slot < length (leaf_entries p) then mk_iter (last path) slot
     else if next_leaf p \<noteq> 0 then mk_iter (next_leaf p) 0
     else ret end_iter)) k"

definition idx_begin :: "(disk_index, const_iterator) op" where
  "idx_begin =
     bnd (gets (\<lambda>s. (ix_size s, first_leaf_page s))) (\<lambda>(n, i).
     if n = 0 then ret end_iter else mk_iter i 0)"

definition find_leaf :: "Value \<Rightarrow> (disk_index, ParsedPage \<times> nat list) op" where
  "find_leaf k = from_root (\<lambda>path p. ret (p, path)) k"

section \<open>The leftmost leaf of a subtree\<close>

text \<open>\<open>while (p.type != Leaf) p = read_page(p.children.front())\<close>\<close>

fun go_left :: "nat \<Rightarrow> ParsedPage \<Rightarrow> (disk_index, ParsedPage) op" where
  "go_left 0 p = throw Nontermination"
| "go_left (Suc fuel) p =
     (if node_type p = Leaf then ret p
      else if children p = [] then throw (Runtime_error ''Empty internal index node'')
      else bnd (idx_read_page (hd (children p))) (go_left fuel))"

definition leftmost_leaf_page :: "nat \<Rightarrow> (disk_index, ParsedPage) op" where
  "leftmost_leaf_page i =
     bnd (idx_read_page i) (\<lambda>p.
     bnd (gets (\<lambda>s. page_count (ix_pager s))) (\<lambda>n. go_left (n + 1) p))"

definition subtree_min_entry :: "nat \<Rightarrow> (disk_index, LeafEntry) op" where
  "subtree_min_entry i =
     bnd (leftmost_leaf_page i) (\<lambda>p.
     if leaf_entries p = [] then throw (Runtime_error ''Empty leaf in index subtree'')
     else ret (hd (leaf_entries p)))"

definition leftmost_leaf :: "nat \<Rightarrow> (disk_index, nat) op" where
  "leftmost_leaf i = bnd (leftmost_leaf_page i) (\<lambda>p. ret (page_id p))"

definition separator_key_for_page :: "nat \<Rightarrow> (disk_index, LeafEntry) op" where
  "separator_key_for_page i =
     bnd (idx_read_page i) (\<lambda>p.
     if node_type p = Leaf then
       (if leaf_entries p = []
        then throw (Runtime_error ''Cannot take separator from empty leaf'')
        else ret (hd (leaf_entries p)))
     else subtree_min_entry i)"

section \<open>Ranges\<close>

text \<open>
  \<open>Table::index_collect_range\<close>: the loop from a lower bound, or from the first entry, up to
  the first key beyond the upper bound. The fuel is one more than the number of positions an
  iterator can be at.
\<close>

definition past_upper :: "Value option \<Rightarrow> bool \<Rightarrow> Value \<Rightarrow> bool" where
  "past_upper hi hi_inclusive v =
     (case hi of
        None \<Rightarrow> False
      | Some h \<Rightarrow> (case Value_compare v h of
          (c, valid) \<Rightarrow> \<not> valid \<or> (if hi_inclusive then 0 < c else 0 \<le> c)))"

fun range_loop :: "nat \<Rightarrow> Value option \<Rightarrow> bool \<Rightarrow> const_iterator \<Rightarrow> (disk_index, nat list) op" where
  "range_loop 0 hi hi_inclusive it = throw Nontermination"
| "range_loop (Suc fuel) hi hi_inclusive it =
     (if iter_eq it end_iter then ret []
      else if past_upper hi hi_inclusive (it_key it) then ret []
      else bnd (iter_next it) (\<lambda>it'.
           bnd (range_loop fuel hi hi_inclusive it') (\<lambda>rest. ret (it_rid it # rest))))"

definition index_collect_range ::
    "Value option \<Rightarrow> bool \<Rightarrow> Value option \<Rightarrow> bool \<Rightarrow> (disk_index, nat list) op" where
  "index_collect_range lo lo_inclusive hi hi_inclusive =
     bnd (case lo of
            None \<Rightarrow> idx_begin
          | Some l \<Rightarrow> if lo_inclusive then idx_lower_bound l else idx_upper_bound l) (\<lambda>it.
     bnd (gets (\<lambda>s. page_count (ix_pager s))) (\<lambda>n.
     range_loop (n * 2 ^ 16 + 1) hi hi_inclusive it))"

end
