(* ===== verification/IndexSearch_Correct.thy ===== *)
theory IndexSearch_Correct
  imports IndexTree IndexSearch
begin

text \<open>
  A search in an index finds what its contents say: the descent reaches the one leaf where a
  key can be, the binary searches find the place in it, iterators walk the contents in order.
\<close>

section \<open>The state of an index\<close>

definition tree_ok :: "DataType \<Rightarrow> btree \<Rightarrow> bool" where
  "tree_ok ty t \<longleftrightarrow> (wf_tree ty t \<or> (\<exists>i. t = BLeaf i [] 0)) \<and> sorted_wrt (<) (vals t) \<and>
     (\<exists>n. bal n t) \<and> distinct (ids t) \<and> 0 \<notin> set (ids t) \<and> chained (leaves t) 0"

definition index_inv :: "DataType \<Rightarrow> disk_index \<Rightarrow> btree \<Rightarrow> bool" where
  "index_inv ty s t \<longleftrightarrow> idx_inv s \<and> 0 < idx_count s \<and> rep (node_view s) t \<and> tree_ok ty t \<and>
     idx_frame s = (bid t, first_id (leaves t) 0, length (flat t))"

definition contents :: "btree \<Rightarrow> (Value \<times> nat) list" where
  "contents t = map (\<lambda>e. (key_val e, rid e)) (flat t)"

lemma contents_keys [simp]: "map fst (contents t) = vals t"
  by (simp add: contents_def vals_def comp_def)

lemma index_invD:
  assumes "index_inv ty s t"
  shows "idx_inv s" "0 < idx_count s" "rep (node_view s) t" "tree_ok ty t" "root_page s = bid t"
    "first_leaf_page s = first_id (leaves t) 0" "ix_size s = length (flat t)"
  using assms by (auto simp: index_inv_def idx_frame_def)

section \<open>Consequences of the separators\<close>

lemma seps_sides:
  assumes "length kl = length Fl" and "seps (kl @ kr) (Fl @ F # Fr)"
  shows "(\<forall>G \<in> set Fl. \<forall>v \<in> set G. \<exists>x \<in> set kl. v < x) \<and> (\<forall>G \<in> set Fr. \<forall>v \<in> set G. \<exists>x \<in> set kr. x \<le> v)"
  using assms
proof (induction kl Fl rule: list_induct2)
  case Nil
  have "\<forall>G \<in> set Fr. \<forall>v \<in> set G. \<exists>x \<in> set kr. x \<le> v"
  proof (cases kr)
    case Nil
    with Nil.prems show ?thesis by (cases Fr) auto
  next
    case (Cons k ks)
    with Nil.prems show ?thesis by auto
  qed
  then show ?case by simp
next
  case (Cons k kl G Fl)
  then show ?case by auto
qed

lemma seps_sorted:
  assumes "seps ks Fs" and "\<forall>F \<in> set Fs. F \<noteq> []"
  shows "sorted_wrt (<) ks"
  using assms
proof (induction ks Fs rule: seps.induct)
  case (2 k ks F Fs)
  have IH: "sorted_wrt (<) ks" using 2 by simp
  have "k < x" if x: "x \<in> set ks" for x
  proof -
    obtain k' ks' where ks: "ks = k' # ks'" using x by (cases ks) auto
    obtain G Gs where Fs: "Fs = G # Gs" using 2(2) ks by (cases Fs) auto
    obtain v where "v \<in> set G" using 2(3) Fs by (cases G) auto
    with 2(2) ks Fs x show ?thesis by (auto intro: le_less_trans)
  qed
  with IH show ?case by simp
qed auto

lemma hole_bounds:
  assumes "wf_tree ty (plug c t)" and "cut_ok c" and "hole_ok c k"
  shows "\<forall>v \<in> key_val ` set (left_flat c). v < k" "\<forall>v \<in> key_val ` set (right_flat c). k < v"
proof -
  have "(\<forall>v \<in> key_val ` set (left_flat c). v < k) \<and> (\<forall>v \<in> key_val ` set (right_flat c). k < v)"
    using assms
  proof (induction c t rule: plug.induct)
    case (1 t)
    show ?case by simp
  next
    case (2 i kl lts kr rts c t)
    have len: "length (map key_val kl) = length (map vals lts)" using 2(3) by simp
    have seps: "seps (map key_val kl @ map key_val kr) (map vals lts @ vals (plug c t) # map vals rts)"
      using 2(2) by simp
    note sides = seps_sides [OF len seps]
    have kl: "\<forall>x \<in> set (map key_val kl). x \<le> k" and kr: "\<forall>x \<in> set (map key_val kr). k < x"
      using 2(4) by (auto simp: hole_ok_def)
    have "v < k" if "v \<in> set (vals t')" "t' \<in> set lts" for v t'
    proof -
      have "vals t' \<in> set (map vals lts)" using that(2) by simp
      with sides that(1) obtain x where x: "x \<in> set (map key_val kl)" "v < x" by meson
      from x(2) kl [rule_format, OF x(1)] show ?thesis by (rule less_le_trans)
    qed
    moreover have "k < v" if "v \<in> set (vals t')" "t' \<in> set rts" for v t'
    proof -
      have "vals t' \<in> set (map vals rts)" using that(2) by simp
      with sides that(1) obtain x where x: "x \<in> set (map key_val kr)" "x \<le> v" by meson
      from kr [rule_format, OF x(1)] x(2) show ?thesis by (rule less_le_trans)
    qed
    moreover have "(\<forall>v \<in> key_val ` set (left_flat c). v < k) \<and> (\<forall>v \<in> key_val ` set (right_flat c). k < v)"
      by (rule 2(1)) (use 2(2-4) in \<open>simp_all add: hole_ok_def\<close>)
    ultimately show ?case by (fastforce simp: vals_def)
  qed
  then show "\<forall>v \<in> key_val ` set (left_flat c). v < k" "\<forall>v \<in> key_val ` set (right_flat c). k < v"
    by simp_all
qed

section \<open>Choosing a child\<close>

lemma scan_keys_right:
  assumes "\<forall>e \<in> set ks. good_entry ty e" and "typed ty k"
    and "\<forall>j. i \<le> j \<and> j < i + n \<longrightarrow> k < key_val (ks ! j)" and "i + n \<le> length ks"
  shows "scan_keys n i ks k child = Inr child"
  using assms
proof (induction n arbitrary: i)
  case 0
  show ?case by simp
next
  case (Suc n)
  have "cmp_key_bytes (ks ! i) k = Inr (three_way (key_val (ks ! i)) k)"
    using Suc.prems by (intro cmp_key_good) auto
  moreover have "k < key_val (ks ! i)" using Suc.prems(3) by auto
  moreover have "scan_keys n (i + 1) ks k child = Inr child"
    using Suc.prems by (intro Suc.IH) auto
  ultimately show ?case using Suc.prems(4) by (auto dest: leD)
qed

lemma scan_keys_left:
  assumes "\<forall>e \<in> set ks. good_entry ty e" and "typed ty k"
    and "\<forall>j. i \<le> j \<and> j < i + a \<longrightarrow> key_val (ks ! j) \<le> k" and "i + a \<le> length ks"
  shows "scan_keys (a + n) i ks k child = scan_keys n (i + a) ks k (if a = 0 then child else i + a)"
  using assms
proof (induction a arbitrary: i child)
  case 0
  show ?case by simp
next
  case (Suc a)
  have "cmp_key_bytes (ks ! i) k = Inr (three_way (key_val (ks ! i)) k)"
    using Suc.prems by (intro cmp_key_good) auto
  moreover have "key_val (ks ! i) \<le> k" using Suc.prems(3) by auto
  moreover have "scan_keys (a + n) (i + 1) ks k (i + 1) =
      scan_keys n (i + 1 + a) ks k (if a = 0 then i + 1 else i + 1 + a)"
    using Suc.prems by (intro Suc.IH) auto
  ultimately show ?case using Suc.prems(4) by (cases "a = 0") simp_all
qed

lemma scan_keys_split:
  assumes "\<forall>e \<in> set (kl @ kr). good_entry ty e" and "typed ty k"
    and "\<forall>e \<in> set kl. key_val e \<le> k" and "\<forall>e \<in> set kr. k < key_val e"
  shows "scan_keys (length (kl @ kr)) 0 (kl @ kr) k 0 = Inr (length kl)"
proof -
  have "scan_keys (length kl + length kr) 0 (kl @ kr) k 0 =
      scan_keys (length kr) (0 + length kl) (kl @ kr) k (if length kl = 0 then 0 else 0 + length kl)"
    using assms by (intro scan_keys_left [of _ ty]) (auto simp: nth_append)
  also have "\<dots> = Inr (length kl)"
    using assms by (subst scan_keys_right [of _ ty]) (auto simp: nth_append)
  finally show ?thesis by simp
qed

text \<open>Every key cuts the separators of a well-formed node in two.\<close>

lemma cut_separators:
  assumes "sorted_wrt (<) (map key_val ks)"
  obtains kl kr where "ks = kl @ kr" "\<forall>e \<in> set kl. key_val e \<le> k" "\<forall>e \<in> set kr. k < key_val e"
proof
  let ?P = "\<lambda>e. key_val e \<le> k"
  show "ks = takeWhile ?P ks @ dropWhile ?P ks" by simp
  show "\<forall>e \<in> set (takeWhile ?P ks). key_val e \<le> k" by (auto dest: set_takeWhileD)
  show "\<forall>e \<in> set (dropWhile ?P ks). k < key_val e"
  proof (cases "dropWhile ?P ks")
    case (Cons e es)
    then have "k < key_val e" using hd_dropWhile [of ?P ks] by simp
    moreover have "sorted_wrt (<) (map key_val (takeWhile ?P ks @ dropWhile ?P ks))" using assms by simp
    then have "sorted_wrt (<) (map key_val (e # es))"
      unfolding Cons by (simp only: map_append sorted_wrt_append)
    ultimately show ?thesis using Cons by (auto intro: less_trans)
  next
    case Nil
    show ?thesis unfolding Nil by simp
  qed
qed

lemma wf_node_cut:
  assumes "wf_tree ty (BNode i ks ts)"
  obtains kl kr lts t rts where "ks = kl @ kr" "ts = lts @ t # rts" "length kl = length lts"
    "length kr = length rts" "\<forall>e \<in> set kl. key_val e \<le> k" "\<forall>e \<in> set kr. k < key_val e"
proof -
  have seps: "seps (map key_val ks) (map vals ts)" using assms by simp
  have "\<forall>F \<in> set (map vals ts). F \<noteq> []"
    using assms wf_tree_nonempty by (auto simp: vals_def)
  from seps_sorted [OF seps this] obtain kl kr where
    k: "ks = kl @ kr" "\<forall>e \<in> set kl. key_val e \<le> k" "\<forall>e \<in> set kr. k < key_val e"
    using cut_separators by blast
  have len: "length ts = Suc (length kl + length kr)" using seps_length [OF seps] k(1) by simp
  then have "ts = take (length kl) ts @ ts ! length kl # drop (Suc (length kl)) ts"
    by (intro id_take_nth_drop) simp
  then show thesis using len k by (intro that) auto
qed

section \<open>The descent\<close>

lemma wp_descend:
  assumes "idx_inv s" and "rep (node_view s) t" and "wf_tree ty t" and "typed ty k"
    and "bal n t" and "n < fuel"
    and "\<And>c i es nx s'. t = plug c (BLeaf i es nx) \<Longrightarrow> cut_ok c \<Longrightarrow> hole_ok c k \<Longrightarrow> length c = n \<Longrightarrow>
           idx_inv s' \<Longrightarrow> node_view s' = node_view s \<Longrightarrow> idx_count s' = idx_count s \<Longrightarrow>
           idx_frame s' = idx_frame s \<Longrightarrow>
           wp E (at_leaf (path @ map fid c @ [i]) (leaf_page i es nx)) Q s'"
  shows "wp E (descend fuel at_leaf path (bid t) k) Q s"
  using assms
proof (induction n arbitrary: t s fuel path)
  case 0
  obtain f where f: "fuel = Suc f" using 0(6) by (cases fuel) auto
  obtain i es nx where t: "t = BLeaf i es nx" using 0(5) by (cases t) auto
  show ?case
    unfolding f descend.simps wp_bnd t bid.simps
  proof (rule wp_read_node [OF 0(1)])
    show "node_view s i = Some (leaf_page i es nx)" using 0(2) t by simp
  next
    fix s'
    assume s': "idx_inv s'" "node_view s' = node_view s" "idx_count s' = idx_count s" "idx_frame s' = idx_frame s"
    have "wp E (at_leaf (path @ map fid [] @ [i]) (leaf_page i es nx)) Q s'"
      by (rule 0(7) [of "[]"]) (use s' t in \<open>auto simp: hole_ok_def\<close>)
    then show "wp E (if node_type (leaf_page i es nx) = Leaf then at_leaf (path @ [i]) (leaf_page i es nx)
        else bnd (of_sum (next_child (leaf_page i es nx) k))
               (\<lambda>c. descend f at_leaf (path @ [i]) c k)) Q s'"
      by simp
  qed
next
  case (Suc n)
  obtain f where f: "fuel = Suc f" and nf: "n < f" using Suc.prems(6) by (cases fuel) auto
  obtain i ks ts where t: "t = BNode i ks ts" using Suc.prems(5) by (cases t) auto
  obtain kl kr lts u rts where cut: "ks = kl @ kr" "ts = lts @ u # rts" "length kl = length lts"
    "length kr = length rts" "\<forall>e \<in> set kl. key_val e \<le> k" "\<forall>e \<in> set kr. k < key_val e"
    using wf_node_cut [of ty i ks ts] Suc.prems(3) t by metis
  let ?p = "node_page i ks (map bid ts)"
  have next_child: "next_child ?p k = Inr (bid u)"
  proof -
    have "\<forall>e \<in> set (kl @ kr). good_entry ty e" using Suc.prems(3) t cut(1) by (auto simp: inner_ok_def)
    from scan_keys_split [OF this Suc.prems(4) cut(5,6)]
    have "scan_keys (key_count ?p) 0 (inner_keys ?p) k 0 = Inr (length kl)" using cut(1) by simp
    then show ?thesis using cut by (simp add: next_child_def nth_append)
  qed
  show ?case
    unfolding f descend.simps wp_bnd t bid.simps
  proof (rule wp_read_node [OF Suc.prems(1)])
    show "node_view s i = Some ?p" using Suc.prems(2) t by simp
  next
    fix s'
    assume s': "idx_inv s'" "node_view s' = node_view s" "idx_count s' = idx_count s" "idx_frame s' = idx_frame s"
    have "wp E (descend f at_leaf (path @ [i]) (bid u) k) Q s'"
    proof (rule Suc.IH [OF s'(1) _ _ Suc.prems(4) _ nf])
      show "rep (node_view s') u" "wf_tree ty u" "bal n u"
        using Suc.prems(2,3,5) s'(2) t cut(2) by auto
    next
      fix c j es nx s''
      assume c: "u = plug c (BLeaf j es nx)" "cut_ok c" "hole_ok c k" "length c = n"
        and s'': "idx_inv s''" "node_view s'' = node_view s'" "idx_count s'' = idx_count s'"
        "idx_frame s'' = idx_frame s'"
      have "wp E (at_leaf (path @ map fid (Frame i kl lts kr rts # c) @ [j]) (leaf_page j es nx)) Q s''"
        by (rule Suc.prems(7)) (use c s' s'' t cut in \<open>auto simp: hole_ok_def\<close>)
      then show "wp E (at_leaf ((path @ [i]) @ map fid c @ [j]) (leaf_page j es nx)) Q s''" by simp
    qed
    then show "wp E (if node_type ?p = Leaf then at_leaf (path @ [i]) ?p
        else bnd (of_sum (next_child ?p k)) (\<lambda>c. descend f at_leaf (path @ [i]) c k)) Q s'"
      using next_child by simp
  qed
qed

section \<open>From the root\<close>

lemma index_inv_cong:
  assumes "index_inv ty s t" and "idx_inv s'" and "node_view s' = node_view s"
    and "idx_count s' = idx_count s" and "idx_frame s' = idx_frame s"
  shows "index_inv ty s' t"
  using assms by (simp add: index_inv_def)

lemma wf_height: "wf_tree ty t \<Longrightarrow> bal n t \<Longrightarrow> n < length (ids t)"
proof (induction t arbitrary: n)
  case (BLeaf i es nx)
  then show ?case by simp
next
  case (BNode i ks ts)
  obtain m where m: "n = Suc m" "\<forall>t \<in> set ts. bal m t" using BNode.prems(2) by auto
  have "length ts = Suc (length ks)"
    using BNode.prems(1) seps_length [of "map key_val ks" "map vals ts"] by simp
  then obtain u us where ts: "ts = u # us" by (cases ts) auto
  have "m < length (ids u)" using BNode.IH [of u m] BNode.prems(1) m(2) ts by simp
  with m(1) ts show ?case by simp
qed

lemma ids_count:
  assumes "idx_inv s" and "rep (node_view s) t" and "distinct (ids t)"
  shows "set (ids t) \<subseteq> {..<idx_count s}" "length (ids t) \<le> idx_count s"
proof -
  show sub: "set (ids t) \<subseteq> {..<idx_count s}"
    using rep_ids [OF assms(2)] nodes.view_bound [OF assms(1)] by fastforce
  have "card (set (ids t)) \<le> card {..<idx_count s}" by (rule card_mono [OF _ sub]) simp
  then show "length (ids t) \<le> idx_count s" using distinct_card [OF assms(3)] by simp
qed

lemma wp_from_root:
  assumes inv: "index_inv ty s t" and k: "typed ty k"
    and cont: "\<And>c i es nx s'. t = plug c (BLeaf i es nx) \<Longrightarrow> cut_ok c \<Longrightarrow> hole_ok c k \<Longrightarrow>
           index_inv ty s' t \<Longrightarrow> idx_frame s' = idx_frame s \<Longrightarrow> node_view s' = node_view s \<Longrightarrow>
           idx_count s' = idx_count s \<Longrightarrow>
           wp E (at_leaf (map fid c @ [i]) (leaf_page i es nx)) Q s'"
  shows "wp E (from_root at_leaf k) Q s"
proof -
  note I = index_invD [OF inv]
  obtain n where n: "bal n t" and wf: "wf_tree ty t \<or> (\<exists>i. t = BLeaf i [] 0)" and d: "distinct (ids t)"
    using I(4) by (auto simp: tree_ok_def)
  have "wp E (descend (idx_count s + 1) at_leaf [] (bid t) k) Q s"
    using wf
  proof
    assume wf: "wf_tree ty t"
    have "n < idx_count s + 1" using wf_height [OF wf n] ids_count(2) [OF I(1,3) d] by simp
    then show ?thesis
    proof (rule wp_descend [OF I(1,3) wf k n])
      fix c i es nx s'
      assume "t = plug c (BLeaf i es nx)" "cut_ok c" "hole_ok c k" "idx_inv s'"
        "node_view s' = node_view s" "idx_count s' = idx_count s" "idx_frame s' = idx_frame s"
      then show "wp E (at_leaf ([] @ map fid c @ [i]) (leaf_page i es nx)) Q s'"
        using cont index_inv_cong [OF inv] by simp
    qed
  next
    assume "\<exists>i. t = BLeaf i [] 0"
    then obtain i where t: "t = BLeaf i [] 0" by blast
    have nv: "node_view s i = Some (leaf_page i [] 0)" using I(3) t by simp
    have "wp E (bnd (idx_read_page i) (\<lambda>p. if node_type p = Leaf then at_leaf ([] @ [i]) p
        else bnd (of_sum (next_child p k)) (\<lambda>c. descend (idx_count s) at_leaf ([] @ [i]) c k))) Q s"
      unfolding wp_bnd
    proof (rule wp_read_node [OF I(1) nv])
      fix s'
      assume s': "idx_inv s'" "node_view s' = node_view s" "idx_count s' = idx_count s"
        "idx_frame s' = idx_frame s"
      have "wp E (at_leaf (map fid [] @ [i]) (leaf_page i [] 0)) Q s'"
        by (rule cont [of "[]"]) (use s' t index_inv_cong [OF inv] in \<open>auto simp: hole_ok_def\<close>)
      then show "wp E (if node_type (leaf_page i [] 0) = Leaf then at_leaf ([] @ [i]) (leaf_page i [] 0)
          else bnd (of_sum (next_child (leaf_page i [] 0) k))
            (\<lambda>c. descend (idx_count s) at_leaf ([] @ [i]) c k)) Q s'"
        by simp
    qed
    then show ?thesis using t by simp
  qed
  then show ?thesis using I(5) by (simp add: from_root_def)
qed

section \<open>Binary search\<close>

lemma bound_loop_ok:
  assumes "\<forall>e \<in> set (A @ B). good_entry ty e" and "typed ty k"
    and "\<forall>e \<in> set A. right (three_way (key_val e) k)" and "\<forall>e \<in> set B. \<not> right (three_way (key_val e) k)"
    and "lo \<le> length A" and "length A \<le> hi" and "hi \<le> length (A @ B)"
  shows "bound_loop right (A @ B) k lo hi = Inr (length A)"
  using assms(5-7)
proof (induction "hi - lo" arbitrary: lo hi rule: less_induct)
  case less
  show ?case
  proof (cases "lo < hi")
    case False
    then show ?thesis using less.prems by (simp add: bound_loop.simps [of right "A @ B" k lo hi])
  next
    case True
    let ?m = "(lo + hi) div 2"
    have m: "?m < length (A @ B)" "lo \<le> ?m" "?m < hi" using True less.prems by auto
    have cmp: "cmp_key_bytes ((A @ B) ! ?m) k = Inr (three_way (key_val ((A @ B) ! ?m)) k)"
      using assms(1,2) m(1) nth_mem [OF m(1)] by (intro cmp_key_good) blast+
    have r: "right (three_way (key_val ((A @ B) ! ?m)) k) \<longleftrightarrow> ?m < length A"
      using assms(3,4) m(1) by (cases "?m < length A") (auto simp: nth_append)
    show ?thesis
    proof (cases "?m < length A")
      case True
      have "bound_loop right (A @ B) k (?m + 1) hi = Inr (length A)"
        by (rule less.hyps) (use True m less.prems in auto)
      then show ?thesis
        using True m cmp r by (simp add: bound_loop.simps [of right "A @ B" k lo hi] Let_def)
    next
      case False
      have "bound_loop right (A @ B) k lo ?m = Inr (length A)"
        by (rule less.hyps) (use False m less.prems in auto)
      then show ?thesis
        using False m cmp r by (simp add: bound_loop.simps [of right "A @ B" k lo hi] Let_def)
    qed
  qed
qed

lemma cut_sorted:
  assumes "sorted_wrt (<) (map key_val es)" and mono: "\<And>v w. v < w \<Longrightarrow> P w \<Longrightarrow> P v"
  shows "\<forall>e \<in> set (takeWhile (P \<circ> key_val) es). P (key_val e)"
    "\<forall>e \<in> set (dropWhile (P \<circ> key_val) es). \<not> P (key_val e)"
proof -
  show "\<forall>e \<in> set (takeWhile (P \<circ> key_val) es). P (key_val e)" by (auto dest: set_takeWhileD)
  show "\<forall>e \<in> set (dropWhile (P \<circ> key_val) es). \<not> P (key_val e)"
  proof (cases "dropWhile (P \<circ> key_val) es")
    case Nil
    show ?thesis unfolding Nil by simp
  next
    case (Cons e fs)
    then have e: "\<not> P (key_val e)" using hd_dropWhile [of "P \<circ> key_val" es] by simp
    have "sorted_wrt (<) (map key_val (takeWhile (P \<circ> key_val) es @ dropWhile (P \<circ> key_val) es))"
      using assms(1) by simp
    then have "\<forall>f \<in> set fs. key_val e < key_val f"
      unfolding Cons by (simp only: map_append sorted_wrt_append) simp
    with e mono show ?thesis unfolding Cons by (metis set_ConsD)
  qed
qed

lemma bound_loop_cut:
  assumes good: "\<forall>e \<in> set es. good_entry ty e" and sorted: "sorted_wrt (<) (map key_val es)"
    and k: "typed ty k" and mono: "\<And>v w. v < w \<Longrightarrow> P w \<Longrightarrow> P v"
    and right: "\<And>v. right (three_way v k) \<longleftrightarrow> P v"
  shows "bound_loop right es k 0 (length es) = Inr (length (takeWhile (P \<circ> key_val) es))"
proof -
  let ?A = "takeWhile (P \<circ> key_val) es" and ?B = "dropWhile (P \<circ> key_val) es"
  have es: "?A @ ?B = es" by (rule takeWhile_dropWhile_id)
  have "bound_loop right (?A @ ?B) k 0 (length es) = Inr (length ?A)"
  proof (rule bound_loop_ok [OF _ k])
    show "\<forall>e \<in> set (?A @ ?B). good_entry ty e" unfolding es by (rule good)
    show "\<forall>e \<in> set ?A. right (three_way (key_val e) k)"
      unfolding right by (rule cut_sorted(1) [OF sorted mono])
    show "\<forall>e \<in> set ?B. \<not> right (three_way (key_val e) k)"
      unfolding right by (rule cut_sorted(2) [OF sorted mono])
    show "length es \<le> length (?A @ ?B)" unfolding es by simp
  qed (rule le0 length_takeWhile_le)+
  then show ?thesis unfolding es .
qed

lemma bound_slots:
  assumes "\<forall>e \<in> set es. good_entry ty e" and "sorted_wrt (<) (map key_val es)" and "typed ty k"
    and "length es \<le> 255"
  shows "lower_bound_slot (leaf_page i es nx) k = Inr (length (takeWhile ((\<lambda>v. v < k) \<circ> key_val) es))"
    "upper_bound_slot (leaf_page i es nx) k = Inr (length (takeWhile ((\<lambda>v. v \<le> k) \<circ> key_val) es))"
proof -
  have mod: "length es mod 2 ^ 16 = length es" using assms(4) by simp
  have lo: "v < w \<Longrightarrow> w < k \<Longrightarrow> v < k" for v w by (rule less_trans)
  have up: "v < w \<Longrightarrow> w \<le> k \<Longrightarrow> v \<le> k" for v w by (rule less_imp_le) (rule less_le_trans)
  have "bound_loop (\<lambda>c. c < 0) es k 0 (length es) = Inr (length (takeWhile ((\<lambda>v. v < k) \<circ> key_val) es))"
    by (rule bound_loop_cut [OF assms(1-3), of "\<lambda>v. v < k", OF lo]) (assumption+, rule three_way_simps)
  then show "lower_bound_slot (leaf_page i es nx) k = Inr (length (takeWhile ((\<lambda>v. v < k) \<circ> key_val) es))"
    unfolding lower_bound_slot_def page_sel mod .
  have "bound_loop (\<lambda>c. c \<le> 0) es k 0 (length es) = Inr (length (takeWhile ((\<lambda>v. v \<le> k) \<circ> key_val) es))"
    by (rule bound_loop_cut [OF assms(1-3), of "\<lambda>v. v \<le> k", OF up]) (assumption+, rule three_way_simps)
  then show "upper_bound_slot (leaf_page i es nx) k = Inr (length (takeWhile ((\<lambda>v. v \<le> k) \<circ> key_val) es))"
    unfolding upper_bound_slot_def page_sel mod .
qed

section \<open>Leaves of an index\<close>

lemma wf_leaf: "wf_tree ty t \<Longrightarrow> (i, es, nx) \<in> set (leaves t) \<Longrightarrow> leaf_ok ty es"
  by (induction t) auto

definition leaf_es :: "nat \<times> LeafEntry list \<times> nat \<Rightarrow> LeafEntry list" where
  "leaf_es l = fst (snd l)"

lemma leaf_es_simp [simp]: "leaf_es (i, es, nx) = es"
  by (simp add: leaf_es_def)

lemma flat_leaf_es: "flat t = concat (map leaf_es (leaves t))"
  by (simp add: flat_leaves leaf_es_def [abs_def] case_prod_unfold)

text \<open>
  One leaf in the chain: its page, what comes before and after, and its entries, which are in
  order, few, and none only when the index is empty.
\<close>

lemma leaf_facts:
  assumes inv: "index_inv ty s t" and at: "leaves t = L @ (i, es, nx) # R"
  shows "node_view s i = Some (leaf_page i es nx)" "nx = first_id R 0"
    "flat t = concat (map leaf_es L) @ es @ concat (map leaf_es R)"
    "\<forall>e \<in> set es. good_entry ty e" "sorted_wrt (<) (map key_val es)" "length es \<le> 255"
    "es = [] \<Longrightarrow> t = BLeaf i [] 0" "i \<noteq> 0"
proof -
  note I = index_invD [OF inv]
  have mem: "(i, es, nx) \<in> set (leaves t)" using at by simp
  show "node_view s i = Some (leaf_page i es nx)" using rep_leaves [OF I(3) mem] .
  show "nx = first_id R 0" using I(4) at by (simp add: tree_ok_def chained_append)
  show flat: "flat t = concat (map leaf_es L) @ es @ concat (map leaf_es R)"
    by (simp add: flat_leaf_es at)
  have wf: "wf_tree ty t \<or> (\<exists>i. t = BLeaf i [] 0)" using I(4) by (simp add: tree_ok_def)
  show good: "\<forall>e \<in> set es. good_entry ty e"
    using wf wf_leaf [OF _ mem] mem by (auto simp: leaf_ok_def)
  have fits: "\<not> leaf_overflow es"
    using wf wf_leaf [OF _ mem] mem
    by (auto simp: leaf_ok_def) (simp add: leaf_overflow_def leaf_payload_bytes_def kPageSize_def)
  have "sorted_wrt (<) (vals t)" using I(4) by (simp add: tree_ok_def)
  then show sorted: "sorted_wrt (<) (map key_val es)"
    using flat by (simp add: vals_def sorted_wrt_append)
  show "length es \<le> 255" by (rule leaf_length [OF good sorted fits])
  show "es = [] \<Longrightarrow> t = BLeaf i [] 0"
    using wf wf_leaf [OF _ mem] mem by (auto simp: leaf_ok_def)
  show "i \<noteq> 0" using leaf_ids [OF mem] I(4) by (metis tree_ok_def)
qed

section \<open>Iterators\<close>

text \<open>An iterator stands for the entries from its position on; none are left at the end.\<close>

definition iter_at :: "btree \<Rightarrow> const_iterator \<Rightarrow> LeafEntry list \<Rightarrow> bool" where
  "iter_at t it rest \<longleftrightarrow>
     (case rest of
        [] \<Rightarrow> at_end it
      | e # _ \<Rightarrow> \<not> at_end it \<and> it_key it = key_val e \<and> it_rid it = rid e \<and>
          (\<exists>L i es nx R. leaves t = L @ (i, es, nx) # R \<and> it_page it = i \<and> it_slot it < length es \<and>
             rest = drop (it_slot it) es @ concat (map leaf_es R)))"

lemma iter_atI:
  assumes "leaves t = L @ (it_page it, es, nx) # R" and "it_slot it < length es" and "\<not> at_end it"
    and "it_key it = key_val (es ! it_slot it)" and "it_rid it = rid (es ! it_slot it)"
  shows "iter_at t it (drop (it_slot it) es @ concat (map leaf_es R))"
proof -
  have d: "drop (it_slot it) es @ concat (map leaf_es R) =
      es ! it_slot it # (drop (Suc (it_slot it)) es @ concat (map leaf_es R))"
    using assms(2) by (simp add: Cons_nth_drop_Suc [symmetric])
  have "\<exists>L' i es' nx' R'. leaves t = L' @ (i, es', nx') # R' \<and> it_page it = i \<and> it_slot it < length es' \<and>
      drop (it_slot it) es @ concat (map leaf_es R) = drop (it_slot it) es' @ concat (map leaf_es R')"
    using assms(1,2) by blast
  then show ?thesis unfolding iter_at_def d using assms(3-5) by simp
qed

text \<open>Two states that show the same index.\<close>

definition same_index :: "disk_index \<Rightarrow> disk_index \<Rightarrow> bool" where
  "same_index s s' \<longleftrightarrow> idx_inv s' \<and> node_view s' = node_view s \<and> idx_count s' = idx_count s \<and>
     idx_frame s' = idx_frame s"

lemma same_index_inv: "index_inv ty s t \<Longrightarrow> same_index s s' \<Longrightarrow> index_inv ty s' t"
  by (simp add: same_index_def index_inv_def)

lemma same_index_trans: "same_index s s' \<Longrightarrow> same_index s' s'' \<Longrightarrow> same_index s s''"
  by (simp add: same_index_def)

lemma wp_read_leaf:
  assumes "index_inv ty s t" and "leaves t = L @ (i, es, nx) # R"
    and "\<And>s'. same_index s s' \<Longrightarrow> Q (leaf_page i es nx) s'"
  shows "wp E (idx_read_page i) Q s"
  using wp_read_node [OF index_invD(1) [OF assms(1)] leaf_facts(1) [OF assms(1,2)]] assms(3)
  by (simp add: same_index_def)

lemma load_slot_ok:
  assumes "index_inv ty s t" and "leaves t = L @ (i, es, nx) # R" and "it_slot it < length es"
    and "it_page it = i" and "\<not> at_end it"
  shows "\<exists>it'. load_slot (leaf_page i es nx) it = Inr it' \<and>
           iter_at t it' (drop (it_slot it) es @ concat (map leaf_es R))"
proof -
  let ?e = "es ! it_slot it"
  let ?it = "it\<lparr>it_key := key_val ?e, it_rid := rid ?e\<rparr>"
  have "good_entry ty ?e" using leaf_facts(4) [OF assms(1,2)] assms(3) by simp
  then have "load_slot (leaf_page i es nx) it = Inr ?it"
    using assms(3) by (simp add: load_slot_def good_entry_decode Let_def)
  moreover have "iter_at t ?it (drop (it_slot ?it) es @ concat (map leaf_es R))"
    by (rule iter_atI) (use assms in auto)
  then have "iter_at t ?it (drop (it_slot it) es @ concat (map leaf_es R))" by simp
  ultimately show ?thesis by blast
qed

lemma wp_mk_iter:
  assumes inv: "index_inv ty s t" and at: "leaves t = L @ (i, es, nx) # R" and slot: "slot < length es"
    and Q: "\<And>it s'. same_index s s' \<Longrightarrow> iter_at t it (drop slot es @ concat (map leaf_es R)) \<Longrightarrow> Q it s'"
  shows "wp E (mk_iter i slot) Q s"
  unfolding mk_iter_def wp_bnd
proof (rule wp_read_leaf [OF inv at])
  fix s'
  assume s': "same_index s s'"
  obtain it' where "load_slot (leaf_page i es nx)
      (end_iter\<lparr>it_page := i, it_slot := slot, at_end := False\<rparr>) = Inr it'"
    "iter_at t it' (drop slot es @ concat (map leaf_es R))"
    using load_slot_ok [OF inv at, of "end_iter\<lparr>it_page := i, it_slot := slot, at_end := False\<rparr>"] slot
    by auto
  then show "wp E (of_sum (load_slot (leaf_page i es nx)
      (end_iter\<lparr>it_page := i, it_slot := slot, at_end := False\<rparr>))) Q s'"
    using Q [OF s'] by simp
qed

text \<open>Going on to the next leaf, when there is one.\<close>

lemma wp_mk_iter_next:
  assumes inv: "index_inv ty s t" and at: "leaves t = L @ (i, es, nx) # R"
    and Q: "\<And>it s'. same_index s s' \<Longrightarrow> iter_at t it (concat (map leaf_es R)) \<Longrightarrow> Q it s'"
  shows "wp E (if nx \<noteq> 0 then mk_iter nx 0 else ret end_iter) Q s"
proof (cases R)
  case Nil
  have "nx = 0" using leaf_facts(2) [OF inv at] Nil by simp
  moreover have "same_index s s" using index_invD(1) [OF inv] by (simp add: same_index_def)
  ultimately show ?thesis using Q [of s end_iter] Nil by (simp add: iter_at_def end_iter_def)
next
  case (Cons l R')
  obtain j es' nx' where l: "l = (j, es', nx')" by (cases l)
  have at': "leaves t = (L @ [(i, es, nx)]) @ (j, es', nx') # R'" using at Cons l by simp
  note F = leaf_facts [OF inv at']
  have nx: "nx = j" using leaf_facts(2) [OF inv at] Cons l by simp
  have "es' \<noteq> []" using F(7) at' by auto
  then have "wp E (mk_iter j 0) Q s"
    using Q Cons l by (intro wp_mk_iter [OF inv at']) auto
  then show ?thesis using nx F(8) by simp
qed

lemma leaves_not_empty: "index_inv ty s t \<Longrightarrow> leaves t \<noteq> []"
  using leaves_nonempty [of ty t] by (auto simp: index_inv_def tree_ok_def)

text \<open>An iterator's step drops the first of its entries.\<close>

lemma wp_iter_next:
  assumes inv: "index_inv ty s t" and it: "iter_at t it (e # rest)"
    and Q: "\<And>it' s'. same_index s s' \<Longrightarrow> iter_at t it' rest \<Longrightarrow> Q it' s'"
  shows "wp E (iter_next it) Q s"
proof -
  obtain L i es nx R where at: "leaves t = L @ (i, es, nx) # R" and pos: "it_page it = i"
    "it_slot it < length es" and rest: "e # rest = drop (it_slot it) es @ concat (map leaf_es R)"
    and ne: "\<not> at_end it"
    using it by (auto simp: iter_at_def)
  note F = leaf_facts [OF inv at]
  have mod: "(it_slot it + 1) mod 2 ^ 16 = it_slot it + 1" using pos(2) F(6) by simp
  have rest': "rest = drop (it_slot it + 1) es @ concat (map leaf_es R)"
    using rest pos(2) by (simp add: Cons_nth_drop_Suc [symmetric])
  let ?it = "it\<lparr>it_slot := it_slot it + 1\<rparr>"
  show ?thesis
    unfolding iter_next_def using ne
  proof (simp only: if_False wp_bnd pos(1), intro wp_read_leaf [OF inv at])
    fix s'
    assume s': "same_index s s'"
    have inv': "index_inv ty s' t" by (rule same_index_inv [OF inv s'])
    consider (same) "it_slot it + 1 < length es" | (last) "it_slot it + 1 = length es" "R = []"
      | (next_leaf) j es' nx' R' where "it_slot it + 1 = length es" "R = (j, es', nx') # R'"
      using pos(2) by (cases R) force+
    then show "wp E (let it = it\<lparr>it_slot := (it_slot it + 1) mod 2 ^ 16\<rparr>
        in if it_slot it < length (leaf_entries (leaf_page i es nx))
           then of_sum (load_slot (leaf_page i es nx) it)
           else if next_leaf (leaf_page i es nx) = 0 then ret (it\<lparr>at_end := True\<rparr>)
                else let it = it\<lparr>it_page := next_leaf (leaf_page i es nx), it_slot := 0\<rparr>
                     in bnd (idx_read_page (it_page it)) (\<lambda>np. of_sum (load_slot np it))) Q s'"
    proof cases
      case same
      obtain it' where "load_slot (leaf_page i es nx) ?it = Inr it'" "iter_at t it' rest"
        using load_slot_ok [OF inv at, of ?it] same pos(1) ne rest' by auto
      then show ?thesis using same mod Q [OF s'] by (simp add: Let_def)
    next
      case last
      then have "nx = 0" and "rest = []" using F(2) rest' by simp_all
      then show ?thesis using last mod Q [OF s'] by (simp add: Let_def iter_at_def)
    next
      case next_leaf
      let ?it' = "?it\<lparr>it_page := j, it_slot := 0\<rparr>"
      have at': "leaves t = (L @ [(i, es, nx)]) @ (j, es', nx') # R'" using at next_leaf by simp
      note F' = leaf_facts [OF inv at']
      have nx: "nx = j" using F(2) next_leaf by simp
      have "es' \<noteq> []" using F'(7) at' by auto
      then obtain it' where it': "load_slot (leaf_page j es' nx') ?it' = Inr it'" "iter_at t it' rest"
        using load_slot_ok [OF inv at', of ?it'] next_leaf ne rest' by auto
      have "wp E (bnd (idx_read_page j) (\<lambda>np. of_sum (load_slot np ?it'))) Q s'"
        unfolding wp_bnd
        by (rule wp_read_leaf [OF inv' at']) (use it' Q same_index_trans [OF s'] in auto)
      then show ?thesis using next_leaf mod nx F'(8) by (simp add: Let_def)
    qed
  qed
qed

section \<open>Bounds and lookup\<close>

lemma right_flat_leaves: "concat (map leaf_es (right_leaves c)) = right_flat c"
proof (induction c)
  case Nil
  show ?case by simp
next
  case (Cons f c)
  have "concat (map leaf_es (concat (map leaves ts))) = concat (map flat ts)" for ts
    by (induction ts) (simp_all add: flat_leaf_es)
  with Cons show ?case by simp
qed

lemma index_hole_bounds:
  assumes inv: "index_inv ty s t" and t: "t = plug c (BLeaf i es nx)" and c: "cut_ok c" "hole_ok c k"
  shows "\<forall>e \<in> set (left_flat c). key_val e < k" "\<forall>e \<in> set (right_flat c). k < key_val e"
proof -
  have "wf_tree ty t \<or> (\<exists>i. t = BLeaf i [] 0)"
    using index_invD(4) [OF inv] by (simp add: tree_ok_def)
  then have "(\<forall>e \<in> set (left_flat c). key_val e < k) \<and> (\<forall>e \<in> set (right_flat c). k < key_val e)"
  proof
    assume "wf_tree ty t"
    then show ?thesis using hole_bounds [of ty c "BLeaf i es nx" k] c t by simp
  next
    assume "\<exists>i. t = BLeaf i [] 0"
    then have "c = []" using t by (cases "(c, BLeaf i es nx)" rule: plug.cases) auto
    then show ?thesis by simp
  qed
  then show "\<forall>e \<in> set (left_flat c). key_val e < k" "\<forall>e \<in> set (right_flat c). k < key_val e"
    by simp_all
qed

lemma dropWhile_middle:
  assumes "\<forall>x \<in> set L. P x" and "\<forall>x \<in> set R. \<not> P x"
  shows "dropWhile P (L @ es @ R) = drop (length (takeWhile P es)) es @ R"
proof -
  have "dropWhile P (L @ es @ R) = dropWhile P (es @ R)" using assms(1) by simp
  also have "\<dots> = dropWhile P es @ R"
  proof (cases "\<forall>x \<in> set es. P x")
    case True
    have "dropWhile P R = R" using assms(2) by (cases R) simp_all
    with True show ?thesis by (simp add: dropWhile_append)
  next
    case False
    then show ?thesis by auto
  qed
  also have "dropWhile P es = drop (length (takeWhile P es)) es" by (rule dropWhile_eq_drop)
  finally show ?thesis .
qed

text \<open>The end both bounds share: the slot found, or the next leaf.\<close>

lemma wp_at_slot:
  assumes inv: "index_inv ty s t" and at: "leaves t = L @ (i, es, nx) # R"
    and Q: "\<And>it s'. same_index s s' \<Longrightarrow> iter_at t it (drop slot es @ concat (map leaf_es R)) \<Longrightarrow> Q it s'"
  shows "wp E (if slot < length es then mk_iter i slot
               else if nx \<noteq> 0 then mk_iter nx 0 else ret end_iter) Q s"
proof (cases "slot < length es")
  case True
  then show ?thesis using wp_mk_iter [OF inv at True] Q by simp
next
  case False
  then have "drop slot es = []" by simp
  then have "wp E (if nx \<noteq> 0 then mk_iter nx 0 else ret end_iter) Q s"
    using Q by (intro wp_mk_iter_next [OF inv at]) simp
  with False show ?thesis by simp
qed

lemma leaves_plug_leaf: "leaves (plug c (BLeaf i es nx)) = left_leaves c @ (i, es, nx) # right_leaves c"
  by (simp add: leaves_plug)

lemma wp_lower_bound:
  assumes inv: "index_inv ty s t" and k: "typed ty k"
    and Q: "\<And>it s'. same_index s s' \<Longrightarrow> iter_at t it (dropWhile ((\<lambda>v. v < k) \<circ> key_val) (flat t)) \<Longrightarrow> Q it s'"
  shows "wp E (idx_lower_bound k) Q s"
  unfolding idx_lower_bound_def
proof (rule wp_from_root [OF inv k])
  fix c i es nx s1
  assume t: "t = plug c (BLeaf i es nx)" and c: "cut_ok c" "hole_ok c k" and inv1: "index_inv ty s1 t"
    and same: "idx_frame s1 = idx_frame s" "node_view s1 = node_view s" "idx_count s1 = idx_count s"
  have at: "leaves t = left_leaves c @ (i, es, nx) # right_leaves c" by (simp add: t leaves_plug)
  note B = index_hole_bounds [OF inv t c]
  let ?P = "(\<lambda>v. v < k) \<circ> key_val"
  have rest: "drop (length (takeWhile ?P es)) es @ concat (map leaf_es (right_leaves c)) = dropWhile ?P (flat t)"
    unfolding right_flat_leaves t flat_plug flat.simps
    by (rule dropWhile_middle [symmetric]) (use B in \<open>auto dest: less_not_sym\<close>)
  have s1: "same_index s s1" using same index_invD(1) [OF inv1] by (simp add: same_index_def)
  have "wp E (leaf_lower i k) Q s1"
    unfolding leaf_lower_def wp_bnd
  proof (rule wp_read_leaf [OF inv1 at])
    fix s2
    assume s2: "same_index s1 s2"
    have "wp E (if length (takeWhile ?P es) < length es then mk_iter i (length (takeWhile ?P es))
        else if nx \<noteq> 0 then mk_iter nx 0 else ret end_iter) Q s2"
      by (rule wp_at_slot [OF same_index_inv [OF inv1 s2] at])
        (rule Q, use rest same_index_trans [OF s1 s2] same_index_trans in auto)
    then show "wp E (of_sum (lower_bound_slot (leaf_page i es nx) k)) (\<lambda>slot. wp E
        (if slot < length (leaf_entries (leaf_page i es nx)) then mk_iter i slot
         else if next_leaf (leaf_page i es nx) \<noteq> 0 then mk_iter (next_leaf (leaf_page i es nx)) 0
         else ret end_iter) Q) s2"
      by (simp add: bound_slots(1) [OF leaf_facts(4,5) [OF inv at] k leaf_facts(6) [OF inv at]]
          split: if_split_asm)
  qed
  then show "wp E (leaf_lower (last (map fid c @ [i])) k) Q s1" by simp
qed

lemma wp_upper_bound:
  assumes inv: "index_inv ty s t" and k: "typed ty k"
    and Q: "\<And>it s'. same_index s s' \<Longrightarrow> iter_at t it (dropWhile ((\<lambda>v. v \<le> k) \<circ> key_val) (flat t)) \<Longrightarrow> Q it s'"
  shows "wp E (idx_upper_bound k) Q s"
  unfolding idx_upper_bound_def
proof (rule wp_from_root [OF inv k])
  fix c i es nx s1
  assume t: "t = plug c (BLeaf i es nx)" and c: "cut_ok c" "hole_ok c k" and inv1: "index_inv ty s1 t"
    and same: "idx_frame s1 = idx_frame s" "node_view s1 = node_view s" "idx_count s1 = idx_count s"
  have at: "leaves t = left_leaves c @ (i, es, nx) # right_leaves c" by (simp add: t leaves_plug)
  note B = index_hole_bounds [OF inv t c]
  let ?P = "(\<lambda>v. v \<le> k) \<circ> key_val"
  have rest: "drop (length (takeWhile ?P es)) es @ concat (map leaf_es (right_leaves c)) = dropWhile ?P (flat t)"
    unfolding right_flat_leaves t flat_plug flat.simps
    by (rule dropWhile_middle [symmetric]) (use B in \<open>auto dest: leD\<close>)
  have s1: "same_index s s1" using same index_invD(1) [OF inv1] by (simp add: same_index_def)
  have "wp E (if length (takeWhile ?P es) < length es then mk_iter i (length (takeWhile ?P es))
      else if nx \<noteq> 0 then mk_iter nx 0 else ret end_iter) Q s1"
    by (rule wp_at_slot [OF inv1 at]) (rule Q, use rest same_index_trans [OF s1] in auto)
  then show "wp E (bnd (of_sum (upper_bound_slot (leaf_page i es nx) k)) (\<lambda>slot.
      if slot < length (leaf_entries (leaf_page i es nx)) then mk_iter (last (map fid c @ [i])) slot
      else if next_leaf (leaf_page i es nx) \<noteq> 0 then mk_iter (next_leaf (leaf_page i es nx)) 0
      else ret end_iter)) Q s1"
    by (simp add: bound_slots(2) [OF leaf_facts(4,5) [OF inv at] k leaf_facts(6) [OF inv at]]
        split: if_split_asm)
qed

lemma wp_begin:
  assumes inv: "index_inv ty s t"
    and Q: "\<And>it s'. same_index s s' \<Longrightarrow> iter_at t it (flat t) \<Longrightarrow> Q it s'"
  shows "wp E idx_begin Q s"
proof (cases "flat t")
  case Nil
  have "same_index s s" using index_invD(1) [OF inv] by (simp add: same_index_def)
  then show ?thesis
    using Nil Q index_invD(7) [OF inv] by (simp add: idx_begin_def iter_at_def end_iter_def)
next
  case (Cons e fs)
  obtain i es nx R where at: "leaves t = [] @ (i, es, nx) # R"
    using leaves_not_empty [OF inv] by (cases "leaves t") auto
  note F = leaf_facts [OF inv at]
  have "es \<noteq> []" using F(7) Cons by auto
  then have "wp E (mk_iter i 0) Q s"
    using Q F(3) by (intro wp_mk_iter [OF inv at]) auto
  then show ?thesis
    using Cons at index_invD(6,7) [OF inv] by (simp add: idx_begin_def)
qed

text \<open>Where the key itself is, when it is in the index.\<close>

lemma key_in_leaf:
  assumes inv: "index_inv ty s t" and t: "t = plug c (BLeaf i es nx)" and c: "cut_ok c" "hole_ok c k"
  shows "k \<in> set (vals t) \<longleftrightarrow> k \<in> key_val ` set es"
  using index_hole_bounds [OF inv t c] by (auto simp: t vals_def flat_plug)

lemma takeWhile_slot:
  assumes "sorted_wrt (<) (map key_val es)"
    and a_def: "a = length (takeWhile ((\<lambda>v. v < k) \<circ> key_val) es)"
  shows "k \<in> key_val ` set es \<longleftrightarrow> a < length es \<and> key_val (es ! a) = k"
proof -
  obtain A B where AB: "A = takeWhile ((\<lambda>v. v < k) \<circ> key_val) es" "B = dropWhile ((\<lambda>v. v < k) \<circ> key_val) es"
    by blast
  have es: "es = A @ B" unfolding AB by simp
  have a: "a = length A" using a_def AB(1) by simp
  have A: "key_val x < k" if "x \<in> set A" for x
    using that unfolding AB(1) by (auto dest: set_takeWhileD)
  show ?thesis
  proof (cases B)
    case Nil
    have "k \<notin> key_val ` set A" using A by (metis image_iff less_irrefl)
    then show ?thesis using Nil es a by simp
  next
    case (Cons b B')
    have b: "\<not> key_val b < k" using Cons hd_dropWhile [of "(\<lambda>v. v < k) \<circ> key_val" es] AB(2) by simp
    have "sorted_wrt (<) (map key_val (A @ b # B'))" using assms(1) es Cons by simp
    then have B': "key_val b < key_val x" if "x \<in> set B'" for x
      using that by (simp add: sorted_wrt_append)
    have "k \<notin> key_val ` set A" using A by (metis image_iff less_irrefl)
    moreover have "k \<notin> key_val ` set B'" using B' b by (metis image_iff)
    ultimately have "k \<in> key_val ` set es \<longleftrightarrow> key_val b = k" using es Cons by auto
    then show ?thesis using es Cons a by simp
  qed
qed

lemma wp_find:
  assumes inv: "index_inv ty s t" and k: "typed ty k"
    and hit: "\<And>e rest it s'. same_index s s' \<Longrightarrow> iter_at t it (e # rest) \<Longrightarrow> e \<in> set (flat t) \<Longrightarrow>
                key_val e = k \<Longrightarrow> Q it s'"
    and miss: "\<And>s'. same_index s s' \<Longrightarrow> k \<notin> set (vals t) \<Longrightarrow> Q end_iter s'"
  shows "wp E (idx_find k) Q s"
  unfolding idx_find_def
proof (rule wp_from_root [OF inv k])
  fix c i es nx s1
  assume t: "t = plug c (BLeaf i es nx)" and c: "cut_ok c" "hole_ok c k" and inv1: "index_inv ty s1 t"
    and same: "idx_frame s1 = idx_frame s" "node_view s1 = node_view s" "idx_count s1 = idx_count s"
  have at: "leaves t = left_leaves c @ (i, es, nx) # right_leaves c" by (simp add: t leaves_plug)
  note F = leaf_facts [OF inv at]
  define a where "a = length (takeWhile ((\<lambda>v. v < k) \<circ> key_val) es)"
  have present: "k \<in> set (vals t) \<longleftrightarrow> a < length es \<and> key_val (es ! a) = k"
    using key_in_leaf [OF inv t c] takeWhile_slot [OF F(5) a_def] by simp
  have slot: "lower_bound_slot (leaf_page i es nx) k = Inr a"
    using bound_slots(1) [OF F(4,5) k F(6)] by (simp add: a_def)
  have cmp: "cmp_key_bytes (es ! a) k = Inr (three_way (key_val (es ! a)) k)" if "a < length es"
    using F(4) that k by (intro cmp_key_good) auto
  have s1: "same_index s s1" using same index_invD(1) [OF inv1] by (simp add: same_index_def)
  have "wp E (leaf_find i k True) Q s1"
    unfolding leaf_find_def wp_bnd
  proof (rule wp_read_leaf [OF inv1 at])
    fix s2
    assume s2: "same_index s1 s2"
    have s02: "same_index s s2" by (rule same_index_trans [OF s1 s2])
    have hit': "wp E (mk_iter i a) Q s2" if a: "a < length es" and ka: "key_val (es ! a) = k"
    proof (rule wp_mk_iter [OF same_index_inv [OF inv1 s2] at a])
      fix it s3
      assume s3: "same_index s2 s3" and it: "iter_at t it (drop a es @ concat (map leaf_es (right_leaves c)))"
      have "iter_at t it (es ! a # drop (Suc a) es @ concat (map leaf_es (right_leaves c)))"
        using it a by (simp add: Cons_nth_drop_Suc [symmetric])
      moreover have "es ! a \<in> set (flat t)" using a F(3) by simp
      ultimately show "Q it s3" using hit same_index_trans [OF s02 s3] ka by blast
    qed
    have miss': "Q end_iter s2" if "\<not> (a < length es \<and> key_val (es ! a) = k)"
      using miss [OF s02] present that by blast
    show "wp E (of_sum (lower_bound_slot (leaf_page i es nx) k)) (\<lambda>slot. wp E
        (of_sum (if slot < length (leaf_entries (leaf_page i es nx))
                 then map_sum id Some (cmp_key_bytes (leaf_entries (leaf_page i es nx) ! slot) k)
                 else Inr None)) (\<lambda>c. wp E
        (if c = Some 0 then mk_iter i slot
         else if \<not> True \<and> (\<exists>x \<in> set_option c. 0 < x) then mk_iter i slot
         else if True then ret end_iter
         else if slot < length (leaf_entries (leaf_page i es nx)) then mk_iter i slot
         else if next_leaf (leaf_page i es nx) \<noteq> 0 then mk_iter (next_leaf (leaf_page i es nx)) 0
         else ret end_iter) Q)) s2"
      using hit' miss' cmp by (cases "a < length es") (auto simp: slot)
  qed
  then show "wp E (leaf_find (last (map fid c @ [i])) k True) Q s1" by simp
qed

lemma wp_find_leaf:
  assumes inv: "index_inv ty s t" and k: "typed ty k"
    and "\<And>c i es nx s'. t = plug c (BLeaf i es nx) \<Longrightarrow> cut_ok c \<Longrightarrow> hole_ok c k \<Longrightarrow>
           same_index s s' \<Longrightarrow> Q (leaf_page i es nx, map fid c @ [i]) s'"
  shows "wp E (find_leaf k) Q s"
  unfolding find_leaf_def
  by (rule wp_from_root [OF inv k]) (use assms(3) index_invD(1) in \<open>auto simp: same_index_def\<close>)

section \<open>Ranges\<close>

lemma iter_eq_end: "iter_eq it end_iter = at_end it"
  by (auto simp: iter_eq_def end_iter_def)

lemma wp_range_loop:
  assumes "index_inv ty s t" and "iter_at t it rest" and "length rest < fuel"
    and "\<And>s'. same_index s s' \<Longrightarrow>
           Q (map rid (takeWhile (\<lambda>e. \<not> past_upper hi inc (key_val e)) rest)) s'"
  shows "wp E (range_loop fuel hi inc it) Q s"
  using assms
proof (induction rest arbitrary: it s fuel Q)
  case Nil
  obtain f where "fuel = Suc f" using Nil.prems(3) by (cases fuel) auto
  moreover have "same_index s s" using index_invD(1) [OF Nil.prems(1)] by (simp add: same_index_def)
  ultimately show ?case using Nil.prems(2,4) by (simp add: iter_at_def iter_eq_end)
next
  case (Cons e rest)
  obtain f where f: "fuel = Suc f" "length rest < f" using Cons.prems(3) by (cases fuel) auto
  have it: "\<not> at_end it" "it_key it = key_val e" "it_rid it = rid e"
    using Cons.prems(2) by (simp_all add: iter_at_def)
  show ?case
  proof (cases "past_upper hi inc (key_val e)")
    case True
    have "same_index s s" using index_invD(1) [OF Cons.prems(1)] by (simp add: same_index_def)
    then show ?thesis using True it f Cons.prems(4) [of s] by (simp add: iter_eq_end)
  next
    case False
    have "wp E (iter_next it) (\<lambda>it'. wp E (range_loop f hi inc it') (\<lambda>rest. Q (it_rid it # rest))) s"
    proof (rule wp_iter_next [OF Cons.prems(1,2)])
      fix it' s'
      assume s': "same_index s s'" and it': "iter_at t it' rest"
      show "wp E (range_loop f hi inc it') (\<lambda>rest. Q (it_rid it # rest)) s'"
        by (rule Cons.IH [OF same_index_inv [OF Cons.prems(1) s'] it' f(2)])
          (use Cons.prems(4) same_index_trans [OF s'] it False in simp)
    qed
    then show ?thesis using f it False by (simp add: iter_eq_end)
  qed
qed

lemma entries_bound:
  assumes inv: "index_inv ty s t"
  shows "length (flat t) < idx_count s * 2 ^ 16 + 1"
proof -
  note I = index_invD [OF inv]
  have "length es \<le> 255" if "(i, es, nx) \<in> set (leaves t)" for i es nx
    using that leaf_facts(6) [OF inv] by (metis split_list)
  then have "\<forall>l \<in> set (leaves t). length (leaf_es l) \<le> 255" by auto
  then have "length (concat (map leaf_es ls)) \<le> 255 * length ls" if "set ls \<subseteq> set (leaves t)" for ls
    using that by (induction ls) fastforce+
  then have "length (flat t) \<le> 255 * length (leaves t)" by (simp add: flat_leaf_es)
  also have "length (leaves t) \<le> length (ids t)"
  proof (induction t)
    case (BNode i ks ts)
    then have "length (concat (map leaves ts)) \<le> length (concat (map ids ts))"
      by (induction ts) (auto intro: add_mono)
    then show ?case by simp
  qed simp
  also have "\<dots> \<le> idx_count s" using ids_count(2) [OF I(1,3)] I(4) by (simp add: tree_ok_def)
  finally show ?thesis by simp
qed

text \<open>The entries a range query reports, and which of them that is.\<close>

definition from_lower :: "Value option \<Rightarrow> bool \<Rightarrow> LeafEntry list \<Rightarrow> LeafEntry list" where
  "from_lower lo lo_inclusive es =
     (case lo of
        None \<Rightarrow> es
      | Some l \<Rightarrow> dropWhile ((\<lambda>v. if lo_inclusive then v < l else v \<le> l) \<circ> key_val) es)"

lemma wp_index_collect_range:
  assumes inv: "index_inv ty s t" and lo: "\<And>l. lo = Some l \<Longrightarrow> typed ty l"
    and Q: "\<And>s'. same_index s s' \<Longrightarrow>
      Q (map rid (takeWhile (\<lambda>e. \<not> past_upper hi hi_inc (key_val e)) (from_lower lo lo_inc (flat t)))) s'"
  shows "wp E (index_collect_range lo lo_inc hi hi_inc) Q s"
proof -
  have rest: "wp E (bnd (gets (\<lambda>s. idx_count s)) (\<lambda>n. range_loop (n * 2 ^ 16 + 1) hi hi_inc it)) Q s'"
    if s': "same_index s s'" and it: "iter_at t it (from_lower lo lo_inc (flat t))" for it s'
  proof -
    have "length (from_lower lo lo_inc (flat t)) \<le> length (flat t)"
      by (simp add: from_lower_def length_dropWhile_le split: option.split)
    then have "length (from_lower lo lo_inc (flat t)) < idx_count s' * 2 ^ 16 + 1"
      using entries_bound [OF same_index_inv [OF inv s']] by simp
    then have "wp E (range_loop (idx_count s' * 2 ^ 16 + 1) hi hi_inc it) Q s'"
      by (rule wp_range_loop [OF same_index_inv [OF inv s'] it])
        (use Q same_index_trans [OF s'] in blast)
    then show ?thesis by simp
  qed
  show ?thesis
  proof (cases lo)
    case None
    then show ?thesis
      using wp_begin [OF inv, of "\<lambda>it s'. wp E (bnd (gets (\<lambda>s. idx_count s))
          (\<lambda>n. range_loop (n * 2 ^ 16 + 1) hi hi_inc it)) Q s'" E] rest
      by (simp add: index_collect_range_def from_lower_def)
  next
    case (Some l)
    note k = lo [OF Some]
    show ?thesis
    proof (cases lo_inc)
      case True
      with Some show ?thesis
        using wp_lower_bound [OF inv k, of "\<lambda>it s'. wp E (bnd (gets (\<lambda>s. idx_count s))
            (\<lambda>n. range_loop (n * 2 ^ 16 + 1) hi hi_inc it)) Q s'" E] rest
        by (simp add: index_collect_range_def from_lower_def)
    next
      case False
      with Some show ?thesis
        using wp_upper_bound [OF inv k, of "\<lambda>it s'. wp E (bnd (gets (\<lambda>s. idx_count s))
            (\<lambda>n. range_loop (n * 2 ^ 16 + 1) hi hi_inc it)) Q s'" E] rest
        by (simp add: index_collect_range_def from_lower_def)
    qed
  qed
qed

end
