(* ===== verification/IndexInsert.thy ===== *)
theory IndexInsert
  imports IndexSearch
begin

text \<open>
  \<open>DiskBspIndex::insert\<close> and what it calls: keeping separators up to date, giving an entry to a
  sibling, splitting two sibling nodes into three, splitting one node into two, and inserting
  into the parent, which may split in turn. Parameters passed by reference are changed only on
  the paths that end in \<open>return true\<close> or in the caller's last use of them, so the operations
  return no nodes.
\<close>

section \<open>Positions\<close>

text \<open>\<open>std::find\<close> on a vector; \<open>insert\<close> and \<open>erase\<close> at a position within it.\<close>

fun index_of :: "'a \<Rightarrow> 'a list \<Rightarrow> nat option" where
  "index_of x [] = None"
| "index_of x (y # ys) = (if y = x then Some 0 else map_option Suc (index_of x ys))"

definition insert_at :: "nat \<Rightarrow> 'a \<Rightarrow> 'a list \<Rightarrow> 'a list" where
  "insert_at i x xs = take i xs @ x # drop i xs"

definition erase_at :: "nat \<Rightarrow> 'a list \<Rightarrow> 'a list" where
  "erase_at i xs = take i xs @ drop (Suc i) xs"

text \<open>\<open>std::find\<close> followed by a throw when the child is not there.\<close>

definition child_position :: "string \<Rightarrow> ParsedPage \<Rightarrow> nat \<Rightarrow> (disk_index, nat) op" where
  "child_position msg parent i =
     (case index_of i (children parent) of
        None \<Rightarrow> throw (Logic_error msg)
      | Some c \<Rightarrow> ret c)"

section \<open>Separators\<close>

definition rebuild_internal_keys :: "ParsedPage \<Rightarrow> (disk_index, ParsedPage) op" where
  "rebuild_internal_keys node =
     (if node_type node = Leaf then throw (Logic_error ''Leaf node has no internal separators'')
      else if children node = [] then ret (node\<lparr>inner_keys := [], key_count := 0\<rparr>)
      else bnd (map_op subtree_min_entry (tl (children node))) (\<lambda>ks.
           ret (node\<lparr>inner_keys := ks, key_count := length ks mod 256\<rparr>)))"

text \<open>The loop of \<open>propagate_subtree_min_change\<close>, from the position \<open>i\<close> in the path.\<close>

fun propagate_loop :: "nat \<Rightarrow> nat list \<Rightarrow> nat \<Rightarrow> LeafEntry \<Rightarrow> (disk_index, unit) op" where
  "propagate_loop 0 path cur cur_min = ret ()"
| "propagate_loop (Suc i) path cur cur_min =
     bnd (idx_read_page (path ! i)) (\<lambda>parent.
     if node_type parent = Leaf then throw (Logic_error ''Leaf cannot be parent'')
     else case index_of cur (children parent) of
       None \<Rightarrow> ret ()
     | Some c \<Rightarrow>
         if 0 < c then
           (if length (inner_keys parent) < c then throw Undefined_behaviour
            else idx_write_page (parent\<lparr>inner_keys := (inner_keys parent)[c - 1 := cur_min],
                                        key_count := length (inner_keys parent) mod 256\<rparr>))
         else bnd (subtree_min_entry (page_id parent)) (propagate_loop i path (page_id parent)))"

definition propagate_subtree_min_change :: "nat \<Rightarrow> nat list \<Rightarrow> (disk_index, unit) op" where
  "propagate_subtree_min_change i path =
     (if length path < 2 \<or> last path \<noteq> i then ret ()
      else bnd (subtree_min_entry i) (propagate_loop (length path - 1) path i))"

section \<open>Giving an entry to a sibling\<close>

definition try_give_to_right_leaf :: "ParsedPage \<Rightarrow> ParsedPage \<Rightarrow> nat \<Rightarrow> (disk_index, bool) op" where
  "try_give_to_right_leaf leaf parent c =
     (if length (children parent) \<le> c + 1 then ret False
      else bnd (idx_read_page (children parent ! (c + 1))) (\<lambda>right.
        if node_type right \<noteq> Leaf \<or> leaf_entries leaf = [] then ret False
        else let cand_leaf = leaf\<lparr>leaf_entries := butlast (leaf_entries leaf)\<rparr>;
                 cand_right = right\<lparr>leaf_entries := last (leaf_entries leaf) # leaf_entries right\<rparr>
             in if leaf_entries cand_leaf = [] then ret False
                else if leaf_overflow (leaf_entries cand_right) \<or> leaf_overflow (leaf_entries cand_leaf)
                then ret False
                else andthen (idx_write_page cand_leaf)
                       (andthen (idx_write_page cand_right)
                         (bnd (rebuild_internal_keys parent) (\<lambda>parent.
                          andthen (idx_write_page parent) (ret True))))))"

definition try_give_to_left_leaf :: "ParsedPage \<Rightarrow> ParsedPage \<Rightarrow> nat \<Rightarrow> (disk_index, bool) op" where
  "try_give_to_left_leaf leaf parent c =
     (if c = 0 \<or> leaf_entries leaf = [] then ret False
      else bnd (idx_read_page (children parent ! (c - 1))) (\<lambda>left.
        if node_type left \<noteq> Leaf then ret False
        else if leaf_entries left = [] then throw Undefined_behaviour
        else let cand_leaf = leaf\<lparr>leaf_entries := last (leaf_entries left) # leaf_entries leaf\<rparr>;
                 cand_left = left\<lparr>leaf_entries := butlast (leaf_entries left)\<rparr>
             in if leaf_entries cand_left = [] then ret False
                else if leaf_overflow (leaf_entries cand_leaf) \<or> leaf_overflow (leaf_entries cand_left)
                then ret False
                else andthen (idx_write_page cand_leaf)
                       (andthen (idx_write_page cand_left)
                         (bnd (rebuild_internal_keys parent) (\<lambda>parent.
                          andthen (idx_write_page parent) (ret True))))))"

text \<open>
  Moving one child between an inner node and its sibling: \<open>move\<close> says which child, both nodes
  get new separators, and the attempt is given up when either would not fit its page.
\<close>

definition try_redistribute_internal ::
    "(nat list \<Rightarrow> nat list \<Rightarrow> nat list \<times> nat list) \<Rightarrow> ParsedPage \<Rightarrow> nat \<Rightarrow> ParsedPage \<Rightarrow> nat list
     \<Rightarrow> (disk_index, bool) op" where
  "try_redistribute_internal move node sibling parent parent_path =
     bnd (idx_read_page sibling) (\<lambda>sib.
     if node_type sib = Leaf then ret False
     else if length (children sib) \<le> 1 then ret False
     else case move (children node) (children sib) of (cs, ds) \<Rightarrow>
       bnd (rebuild_internal_keys (node\<lparr>children := cs\<rparr>)) (\<lambda>cand.
       bnd (rebuild_internal_keys (sib\<lparr>children := ds\<rparr>)) (\<lambda>cand_sib.
       if inner_overflow (inner_keys cand) (children cand) \<or>
          inner_overflow (inner_keys cand_sib) (children cand_sib) then ret False
       else andthen (idx_write_page cand)
              (andthen (idx_write_page cand_sib)
                (bnd (rebuild_internal_keys parent) (\<lambda>parent.
                 andthen (idx_write_page parent)
                   (andthen (propagate_subtree_min_change (page_id parent) parent_path)
                     (ret True))))))))"

definition try_redistribute_internal_with_right ::
    "ParsedPage \<Rightarrow> ParsedPage \<Rightarrow> nat \<Rightarrow> nat list \<Rightarrow> (disk_index, bool) op" where
  "try_redistribute_internal_with_right node parent c parent_path =
     (if length (children parent) \<le> c + 1 then ret False
      else try_redistribute_internal (\<lambda>cs ds. (cs @ [hd ds], tl ds)) node
             (children parent ! (c + 1)) parent parent_path)"

definition try_redistribute_internal_with_left ::
    "ParsedPage \<Rightarrow> ParsedPage \<Rightarrow> nat \<Rightarrow> nat list \<Rightarrow> (disk_index, bool) op" where
  "try_redistribute_internal_with_left node parent c parent_path =
     (if c = 0 then ret False
      else try_redistribute_internal (\<lambda>cs ds. (last ds # cs, butlast ds)) node
             (children parent ! (c - 1)) parent parent_path)"

section \<open>Splitting\<close>

text \<open>
  \<open>std::sort\<close> by \<open>compare_encoded_keys\<close>. No two entries of an index compare equal, so the
  result does not depend on the algorithm; a key that does not decode throws from the
  comparison.
\<close>

fun insert_sorted :: "LeafEntry \<Rightarrow> LeafEntry list \<Rightarrow> error + LeafEntry list" where
  "insert_sorted e [] = Inr [e]"
| "insert_sorted e (f # fs) =
     (case compare_encoded_keys (key f) (key_len f) (key e) (key_len e) of
        Inl x \<Rightarrow> Inl x
      | Inr c \<Rightarrow> if c < 0 then map_sum id ((#) f) (insert_sorted e fs) else Inr (e # f # fs))"

fun sort_entries :: "LeafEntry list \<Rightarrow> error + LeafEntry list" where
  "sort_entries [] = Inr []"
| "sort_entries (e # es) =
     (case sort_entries es of Inl x \<Rightarrow> Inl x | Inr fs \<Rightarrow> insert_sorted e fs)"

text \<open>A sequence cut into the shares of \<open>three_way_counts\<close>.\<close>

definition three_parts :: "'a list \<Rightarrow> 'a list \<times> 'a list \<times> 'a list" where
  "three_parts xs =
     (case three_way_counts (length xs) of (a, b, _) \<Rightarrow>
        (take a xs, take b (drop a xs), drop (a + b) xs))"

text \<open>
  \<open>split_leaf_pair\<close>, \<open>split_internal_pair\<close>, \<open>insert_into_parent\<close> and \<open>split_internal\<close>. The
  recursion goes up the path: the call for a parent has a path shorter by one.
\<close>

text \<open>The part of \<open>insert_into_parent\<close> for a node that was the root.\<close>

definition new_root_over :: "nat \<Rightarrow> LeafEntry \<Rightarrow> nat \<Rightarrow> (disk_index, unit) op" where
  "new_root_over left sep right =
     bnd allocate_node_page (\<lambda>i.
     andthen (idx_write_page ((blank_page i Inner)\<lparr>children := [left, right], inner_keys := [sep],
                                                    key_count := 1\<rparr>))
       (modify (\<lambda>s. s\<lparr>root_page := i\<rparr>)))"

text \<open>The shares of two inner siblings and their new middle node, before the parent changes.\<close>

definition divide_internal_pair :: "ParsedPage \<Rightarrow> ParsedPage \<Rightarrow> (disk_index, nat) op" where
  "divide_internal_pair left right =
     (case three_parts (children left @ children right) of (lc, mc, rc) \<Rightarrow>
        bnd (rebuild_internal_keys (left\<lparr>children := lc\<rparr>)) (\<lambda>left.
        bnd (rebuild_internal_keys (right\<lparr>children := rc\<rparr>)) (\<lambda>right.
        andthen
          (throw_if (inner_overflow (inner_keys left) (children left) \<or>
                     inner_overflow (inner_keys right) (children right))
             (Length_error ''Redistributed internal siblings do not fit''))
          (bnd allocate_node_page (\<lambda>i.
           bnd (rebuild_internal_keys ((blank_page i Inner)\<lparr>children := mc\<rparr>)) (\<lambda>middle.
           andthen (idx_write_page left)
             (andthen (idx_write_page middle)
               (andthen (idx_write_page right) (ret i)))))))))"

text \<open>The node cut in the middle: what is left of it, and its new right sibling, not yet written.\<close>

definition cut_internal :: "ParsedPage \<Rightarrow> (disk_index, ParsedPage \<times> ParsedPage) op" where
  "cut_internal node =
     bnd allocate_node_page (\<lambda>i.
     let cs = children node; m = length cs div 2
     in bnd (rebuild_internal_keys (node\<lparr>children := take m cs\<rparr>)) (\<lambda>node.
        bnd (rebuild_internal_keys ((blank_page i Inner)\<lparr>children := drop m cs\<rparr>)) (\<lambda>right.
        andthen
          (throw_if (children right = []) (Logic_error ''Internal split produced empty right child''))
          (ret (node, right)))))"

definition sibling_for_split :: "nat \<Rightarrow> (disk_index, ParsedPage) op" where
  "sibling_for_split i =
     bnd (idx_read_page i) (\<lambda>p.
     andthen (throw_if (node_type p = Leaf) (Logic_error ''Expected internal sibling'')) (ret p))"

function split_internal :: "ParsedPage \<Rightarrow> nat list \<Rightarrow> (disk_index, unit) op"
  and split_internal_pair ::
    "ParsedPage \<Rightarrow> ParsedPage \<Rightarrow> ParsedPage \<Rightarrow> nat \<Rightarrow> nat list \<Rightarrow> (disk_index, unit) op"
  and insert_into_parent ::
    "ParsedPage \<Rightarrow> LeafEntry \<Rightarrow> ParsedPage \<Rightarrow> nat list \<Rightarrow> (disk_index, unit) op" where
  "split_internal node path =
     (let new_node =
        bnd (cut_internal node) (\<lambda>(node, right).
        bnd (subtree_min_entry (page_id right)) (\<lambda>separator.
        insert_into_parent node separator right path))
      in if 1 < length path then
        bnd (idx_read_page (path ! (length path - 2))) (\<lambda>parent.
        if node_type parent = Leaf then throw (Logic_error ''Leaf cannot be parent'')
        else bnd (child_position ''Parent missing child'' parent (page_id node)) (\<lambda>c.
          bnd (try_redistribute_internal_with_right node parent c (butlast path)) (\<lambda>done_right.
          if done_right then ret ()
          else bnd (try_redistribute_internal_with_left node parent c (butlast path)) (\<lambda>done_left.
            if done_left then ret ()
            else if c + 1 < length (children parent) then
              bnd (sibling_for_split (children parent ! (c + 1))) (\<lambda>right.
              split_internal_pair node right parent c (butlast path))
            else if 0 < c then
              bnd (sibling_for_split (children parent ! (c - 1))) (\<lambda>left.
              split_internal_pair left node parent (c - 1) (butlast path))
            else new_node))))
      else new_node)"
| "split_internal_pair left right parent c parent_path =
     bnd (divide_internal_pair left right) (\<lambda>i.
     bnd (rebuild_internal_keys (parent\<lparr>children := insert_at (c + 1) i (children parent)\<rparr>)) (\<lambda>parent.
     if \<not> inner_overflow (inner_keys parent) (children parent) then idx_write_page parent
     else split_internal parent parent_path))"
| "insert_into_parent left separator right left_path =
     (if left_path = [] \<or> last left_path \<noteq> page_id left
      then throw (Logic_error ''Invalid path to left node'')
      else andthen (idx_write_page left)
        (andthen (idx_write_page right)
          (if length left_path = 1 then new_root_over (page_id left) separator (page_id right)
           else bnd (idx_read_page (left_path ! (length left_path - 2))) (\<lambda>parent.
             if node_type parent = Leaf then throw (Logic_error ''Leaf cannot be parent'')
             else bnd (child_position ''Parent missing child'' parent (page_id left)) (\<lambda>c.
               bnd (rebuild_internal_keys
                      (parent\<lparr>inner_keys := insert_at c separator (inner_keys parent),
                              children := insert_at (c + 1) (page_id right) (children parent)\<rparr>)) (\<lambda>parent.
               if \<not> inner_overflow (inner_keys parent) (children parent) then idx_write_page parent
               else split_internal parent (butlast left_path)))))))"
  by pat_completeness auto
termination
  by (relation "measure (\<lambda>x. case x of
        Inl (node, path) \<Rightarrow> 3 * length path + 1
      | Inr (Inl (left, right, parent, c, path)) \<Rightarrow> 3 * length path + 2
      | Inr (Inr (left, sep, right, path)) \<Rightarrow> 3 * length path)")
    (auto simp: length_greater_0_conv [symmetric] simp del: length_greater_0_conv)

declare split_internal.simps [simp del] split_internal_pair.simps [simp del]
  insert_into_parent.simps [simp del]

section \<open>Leaves\<close>

text \<open>\<open>split_leaf_pair\<close>: two sibling leaves and a new one between them share all entries.\<close>

definition split_leaf_pair ::
    "ParsedPage \<Rightarrow> ParsedPage \<Rightarrow> ParsedPage \<Rightarrow> nat \<Rightarrow> nat list \<Rightarrow> (disk_index, unit) op" where
  "split_leaf_pair left right parent c parent_path =
     bnd (of_sum (sort_entries (leaf_entries left @ leaf_entries right))) (\<lambda>items.
     bnd allocate_node_page (\<lambda>i.
     case three_parts items of (ls, ms, rs) \<Rightarrow>
       andthen
         (throw_if (ls = [] \<or> ms = [] \<or> rs = []) (Logic_error ''Leaf pair split produced empty node''))
         (andthen (idx_write_page (left\<lparr>leaf_entries := ls, next_leaf := i\<rparr>))
           (andthen (idx_write_page ((blank_page i Leaf)\<lparr>leaf_entries := ms, next_leaf := page_id right\<rparr>))
             (andthen (idx_write_page (right\<lparr>leaf_entries := rs\<rparr>))
               (bnd (rebuild_internal_keys
                       (parent\<lparr>children := insert_at (c + 1) i (children parent)\<rparr>)) (\<lambda>parent.
                if \<not> inner_overflow (inner_keys parent) (children parent) then idx_write_page parent
                else split_internal parent parent_path)))))))"

definition leaf_sibling_for_split :: "nat \<Rightarrow> (disk_index, ParsedPage) op" where
  "leaf_sibling_for_split i =
     bnd (idx_read_page i) (\<lambda>p.
     andthen (throw_if (node_type p \<noteq> Leaf) (Logic_error ''Expected leaf sibling'')) (ret p))"

text \<open>The last part of \<open>split_leaf\<close>, for a leaf without siblings: cut it in the middle.\<close>

definition split_leaf_alone :: "ParsedPage \<Rightarrow> nat list \<Rightarrow> (disk_index, unit) op" where
  "split_leaf_alone leaf path =
     bnd allocate_node_page (\<lambda>i.
     let es = leaf_entries leaf; m = length es div 2;
         right = (blank_page i Leaf)\<lparr>leaf_entries := drop m es, next_leaf := next_leaf leaf\<rparr>;
         leaf = leaf\<lparr>leaf_entries := take m es, next_leaf := i\<rparr>
     in andthen
          (throw_if (leaf_entries right = []) (Logic_error ''Leaf split produced empty right node''))
          (insert_into_parent leaf (hd (leaf_entries right)) right path))"

definition split_leaf :: "ParsedPage \<Rightarrow> nat list \<Rightarrow> (disk_index, unit) op" where
  "split_leaf leaf path =
     (if 1 < length path then
        bnd (idx_read_page (path ! (length path - 2))) (\<lambda>parent.
        if node_type parent = Leaf then throw (Logic_error ''Leaf cannot be parent'')
        else bnd (child_position ''Parent missing child'' parent (page_id leaf)) (\<lambda>c.
          bnd (try_give_to_right_leaf leaf parent c) (\<lambda>done_right.
          if done_right then ret ()
          else bnd (try_give_to_left_leaf leaf parent c) (\<lambda>done_left.
            if done_left then ret ()
            else if c + 1 < length (children parent) then
              bnd (leaf_sibling_for_split (children parent ! (c + 1))) (\<lambda>right.
              split_leaf_pair leaf right parent c (butlast path))
            else if 0 < c then
              bnd (leaf_sibling_for_split (children parent ! (c - 1))) (\<lambda>left.
              split_leaf_pair left leaf parent (c - 1) (butlast path))
            else split_leaf_alone leaf path))))
      else split_leaf_alone leaf path)"

section \<open>Insertion\<close>

definition check_duplicate :: "ParsedPage \<Rightarrow> nat \<Rightarrow> LeafEntry \<Rightarrow> (disk_index, unit) op" where
  "check_duplicate leaf slot ent =
     (if slot < length (leaf_entries leaf) then
        bnd (of_sum (keys_equal_bytes (leaf_entries leaf ! slot) ent)) (\<lambda>same.
        throw_if same (Runtime_error ''Duplicate index key''))
      else ret ())"

definition idx_insert :: "Value \<Rightarrow> nat \<Rightarrow> (disk_index, unit) op" where
  "idx_insert k r =
     andthen (throw_if (is_null k) (Invalid_argument ''Cannot index NULL key''))
       (bnd (of_sum (make_entry k r)) (\<lambda>ent.
        bnd (gets ix_size) (\<lambda>n.
        if n = 0 then
          bnd (gets root_page) (\<lambda>i.
          andthen (idx_write_page ((blank_page i Leaf)\<lparr>leaf_entries := [ent]\<rparr>))
            (andthen (modify (\<lambda>s. s\<lparr>ix_size := 1\<rparr>)) write_superblock))
        else
          bnd (find_leaf k) (\<lambda>(leaf, path).
          bnd (of_sum (lower_bound_slot leaf k)) (\<lambda>slot.
          andthen (check_duplicate leaf slot ent)
            (let leaf = leaf\<lparr>leaf_entries := insert_at slot ent (leaf_entries leaf)\<rparr>
             in andthen
                  (if \<not> leaf_overflow (leaf_entries leaf) then idx_write_page leaf
                   else split_leaf leaf path)
                  (andthen (modify (\<lambda>s. s\<lparr>ix_size := ix_size s + 1\<rparr>)) write_superblock)))))))"

end
