(* ===== verification/IndexUpdate.thy ===== *)
theory IndexUpdate
  imports IndexSearch_Correct IndexInsert
begin

text \<open>
  What the operations that change an index have in common: the least entry of a subtree, the
  separators rebuilt from the children, writing one node, and replacing one subtree of the
  tree an index stands for.
\<close>

section \<open>Least entries and separators\<close>

fun page_of :: "btree \<Rightarrow> ParsedPage" where
  "page_of (BLeaf i es nx) = leaf_page i es nx"
| "page_of (BNode i ks ts) = node_page i ks (map bid ts)"

lemma rep_page: "rep m t \<Longrightarrow> m (bid t) = Some (page_of t)"
  by (cases t) simp_all

text \<open>A subtree in the file: what reading below one page needs.\<close>

definition subtree :: "DataType \<Rightarrow> disk_index \<Rightarrow> btree \<Rightarrow> bool" where
  "subtree ty s t \<longleftrightarrow> rep (node_view s) t \<and> wf_tree ty t \<and> (\<exists>n. bal n t) \<and> distinct (ids t)"

lemma subtree_same: "subtree ty s t \<Longrightarrow> same_index s s' \<Longrightarrow> subtree ty s' t"
  by (simp add: subtree_def same_index_def)

lemma same_index_refl: "idx_inv s \<Longrightarrow> same_index s s"
  by (simp add: same_index_def)

lemma wp_read_sub:
  assumes "idx_inv s" and "rep (node_view s) t" and "\<And>s'. same_index s s' \<Longrightarrow> Q (page_of t) s'"
  shows "wp E (idx_read_page (bid t)) Q s"
  using wp_read_node [OF assms(1) rep_page [OF assms(2)]] assms(3) by (simp add: same_index_def)

lemma wf_first_child:
  assumes "wf_tree ty (BNode i ks ts)"
  obtains u us where "ts = u # us" "flat u \<noteq> []"
proof -
  have "length ts = Suc (length ks)" using assms seps_length [of "map key_val ks" "map vals ts"] by simp
  then obtain u us where "ts = u # us" by (cases ts) auto
  then show thesis using that assms wf_tree_nonempty [of ty u] by simp
qed

lemma wp_go_left:
  assumes "idx_inv s" and "rep (node_view s) t" and "wf_tree ty t" and "bal n t" and "n < fuel"
    and "\<And>i es nx s'. same_index s s' \<Longrightarrow> es \<noteq> [] \<Longrightarrow> hd es = hd (flat t) \<Longrightarrow> Q (leaf_page i es nx) s'"
  shows "wp E (go_left fuel (page_of t)) Q s"
  using assms
proof (induction n arbitrary: t s fuel)
  case 0
  obtain f where f: "fuel = Suc f" using 0(5) by (cases fuel) auto
  obtain i es nx where t: "t = BLeaf i es nx" using 0(4) by (cases t) auto
  show ?case
    using 0(6) [of s es] 0(1,3) same_index_refl f t by (simp add: leaf_ok_def)
next
  case (Suc n)
  obtain f where f: "fuel = Suc f" and nf: "n < f" using Suc.prems(5) by (cases fuel) auto
  obtain i ks ts where t: "t = BNode i ks ts" using Suc.prems(4) by (cases t) auto
  obtain u us where ts: "ts = u # us" and ne: "flat u \<noteq> []"
    using wf_first_child Suc.prems(3) t by metis
  have u: "rep (node_view s) u" "wf_tree ty u" "bal n u" using Suc.prems(2-4) t ts by simp_all
  have "wp E (bnd (idx_read_page (bid u)) (go_left f)) Q s"
    unfolding wp_bnd
  proof (rule wp_read_sub [OF Suc.prems(1) u(1)])
    fix s1
    assume s1: "same_index s s1"
    show "wp E (go_left f (page_of u)) Q s1"
      by (rule Suc.IH [OF _ _ u(2,3) nf])
        (use s1 u(1) Suc.prems(6) ne t ts in \<open>auto simp: same_index_def\<close>)
  qed
  then show ?case using f t ts by simp
qed

lemma wp_leftmost:
  assumes inv: "idx_inv s" and sub: "subtree ty s t"
    and Q: "\<And>i es nx s'. same_index s s' \<Longrightarrow> es \<noteq> [] \<Longrightarrow> hd es = hd (flat t) \<Longrightarrow> Q (leaf_page i es nx) s'"
  shows "wp E (leftmost_leaf_page (bid t)) Q s"
  unfolding leftmost_leaf_page_def wp_bnd
proof (rule wp_read_sub [OF inv])
  show "rep (node_view s) t" using sub by (simp add: subtree_def)
  fix s1
  assume s1: "same_index s s1"
  obtain n where n: "bal n t" using sub by (auto simp: subtree_def)
  have "n < idx_count s + 1"
    using wf_height [OF _ n] ids_count(2) [OF inv] sub by (fastforce simp: subtree_def)
  then have fuel: "n < idx_count s1 + 1" using s1 by (simp add: same_index_def)
  have "wp E (go_left (idx_count s1 + 1) (page_of t)) Q s1"
    by (rule wp_go_left [OF _ _ _ n fuel, of s1 ty])
      (use s1 sub Q same_index_trans [OF s1] in \<open>auto simp: same_index_def subtree_def\<close>)
  then show "wp E (gets (\<lambda>s. idx_count s)) (\<lambda>n. wp E (go_left (n + 1) (page_of t)) Q) s1" by simp
qed

lemma wp_subtree_min:
  assumes "idx_inv s" and "subtree ty s t" and "\<And>s'. same_index s s' \<Longrightarrow> Q (hd (flat t)) s'"
  shows "wp E (subtree_min_entry (bid t)) Q s"
  unfolding subtree_min_entry_def wp_bnd
  by (rule wp_leftmost [OF assms(1,2)]) (use assms(3) in simp)

lemma wp_map_min:
  assumes "idx_inv s" and "\<forall>t \<in> set ts. subtree ty s t"
    and "\<And>s'. same_index s s' \<Longrightarrow> Q (map (hd \<circ> flat) ts) s'"
  shows "wp E (map_op subtree_min_entry (map bid ts)) Q s"
  using assms
proof (induction ts arbitrary: s Q)
  case Nil
  then show ?case using same_index_refl by simp
next
  case (Cons t ts)
  have "wp E (subtree_min_entry (bid t)) (\<lambda>y. wp E (map_op subtree_min_entry (map bid ts))
      (\<lambda>ys. Q (y # ys))) s"
  proof (rule wp_subtree_min [OF Cons.prems(1)])
    show "subtree ty s t" using Cons.prems(2) by simp
    fix s1
    assume s1: "same_index s s1"
    show "wp E (map_op subtree_min_entry (map bid ts)) (\<lambda>ys. Q (hd (flat t) # ys)) s1"
      by (rule Cons.IH) (use s1 Cons.prems subtree_same same_index_trans [OF s1] in
          \<open>auto simp: same_index_def\<close>)
  qed
  then show ?case by simp
qed

lemma wp_rebuild:
  assumes "idx_inv s" and "node_type p = Inner" and "children p = map bid ts" and "ts \<noteq> []"
    and "\<forall>t \<in> set (tl ts). subtree ty s t"
    and "\<And>s'. same_index s s' \<Longrightarrow>
      Q (p\<lparr>inner_keys := map (hd \<circ> flat) (tl ts), key_count := (length ts - 1) mod 256\<rparr>) s'"
  shows "wp E (rebuild_internal_keys p) Q s"
proof -
  have tl: "tl (children p) = map bid (tl ts)" using assms(3) by (simp add: map_tl)
  have "wp E (map_op subtree_min_entry (map bid (tl ts)))
      (\<lambda>ks. Q (p\<lparr>inner_keys := ks, key_count := length ks mod 256\<rparr>)) s"
    by (rule wp_map_min [OF assms(1,5)]) (use assms(6) in simp)
  then show ?thesis using assms(2-4) tl by (simp add: rebuild_internal_keys_def)
qed

section \<open>Writing one node\<close>

lemma stored_leaf:
  "node_type p = Leaf \<Longrightarrow> stored_page p = leaf_page (page_id p) (leaf_entries p) (next_leaf p)"
  by (cases p) (simp add: stored_page_def leaf_page_def blank_page_def)

lemma stored_inner:
  "node_type p = Inner \<Longrightarrow> stored_page p = node_page (page_id p) (map strip (inner_keys p)) (children p)"
  by (cases p) (simp add: stored_page_def node_page_def blank_page_def strip_def [abs_def])

text \<open>What changes when a page of the file is written, and what does not.\<close>

definition wrote :: "disk_index \<Rightarrow> nat \<Rightarrow> ParsedPage \<Rightarrow> disk_index \<Rightarrow> bool" where
  "wrote s i p s' \<longleftrightarrow> idx_inv s' \<and> node_view s' = (node_view s)(i \<mapsto> p) \<and> idx_count s' = idx_count s \<and>
     idx_frame s' = idx_frame s"

lemma wp_write_leaf:
  assumes inv: "idx_inv s" and leaf: "node_type p = Leaf" and good: "\<forall>e \<in> set (leaf_entries p). good_entry ty e"
    and sorted: "sorted_wrt (<) (map key_val (leaf_entries p))" and fits: "\<not> leaf_overflow (leaf_entries p)"
    and nxt: "next_leaf p < 2 ^ 32" and i: "page_id p < idx_count s" and cs: "children p = []"
    and Q: "\<And>s'. wrote s (page_id p) (leaf_page (page_id p) (leaf_entries p) (next_leaf p)) s' \<Longrightarrow> Q () s'"
  shows "wp E (idx_write_page p) Q s"
proof (rule wp_write_node [OF inv _ i])
  show "storable p"
    using leaf good good_entry_ok fits nxt leaf_length [OF good sorted fits] cs
    by (auto simp: storable_def entries_ok_def fits_def small_ids_def key_total_def)
qed (use Q stored_leaf [OF leaf] in \<open>simp add: wrote_def\<close>)

lemma wp_write_inner:
  assumes inv: "idx_inv s" and inner: "node_type p = Inner"
    and good: "\<forall>e \<in> set (inner_keys p). good_entry ty e" and len: "length (inner_keys p) \<le> 255"
    and fits: "\<not> inner_overflow (inner_keys p) (children p)" and nxt: "next_leaf p < 2 ^ 32"
    and cs: "\<forall>c \<in> set (children p). c < 2 ^ 32" and shape: "length (children p) = length (inner_keys p) + 1"
    and i: "page_id p < idx_count s"
    and Q: "\<And>s'. wrote s (page_id p) (node_page (page_id p) (map strip (inner_keys p)) (children p)) s' \<Longrightarrow> Q () s'"
  shows "wp E (idx_write_page p) Q s"
proof (rule wp_write_node [OF inv _ i])
  show "storable p"
    using inner good good_entry_ok len fits nxt cs shape
    by (auto simp: storable_def entries_ok_def fits_def small_ids_def key_total_def)
qed (use Q stored_inner [OF inner] in \<open>simp add: wrote_def\<close>)

section \<open>Replacing a subtree\<close>

lemma tree_ok_plug:
  assumes "tree_ok ty (plug c u)" and "c \<noteq> [] \<or> flat u \<noteq> []"
  shows "wf_tree ty (plug c u)"
proof -
  have "\<not> (\<exists>i. plug c u = BLeaf i [] 0)"
    using assms(2) by (cases "(c, u)" rule: plug.cases) auto
  then show ?thesis using assms(1) by (auto simp: tree_ok_def)
qed

lemma subtree_replaced:
  assumes ok: "tree_ok ty (plug c u)" and wf: "wf_tree ty (plug c u)" and cut: "cut_ok c"
    and bid: "bid u' = bid u" and wf': "wf_tree ty u'" and bal: "\<And>n. bal n u \<Longrightarrow> bal n u'"
    and dist: "distinct (ids u')" and sub: "set (ids u') \<subseteq> set (ids u) \<union> N"
    and N: "N \<inter> set (ids (plug c u)) = {}" "0 \<notin> N"
    and chain: "chained (leaves u') (first_id (right_leaves c) 0)"
    and first: "first_id (leaves u') (first_id (right_leaves c) 0) = first_id (leaves u) (first_id (right_leaves c) 0)"
    and sorted: "sorted_wrt (<) (vals (plug c u'))" and hole: "\<forall>v \<in> set (vals u'). hole_ok c v"
    and rep: "rep m (plug c u)" and rep': "rep m' u'" and same: "\<forall>i \<in> set (ctx_ids c). m' i = m i"
  shows "tree_ok ty (plug c u') \<and> rep m' (plug c u') \<and> bid (plug c u') = bid (plug c u) \<and>
         first_id (leaves (plug c u')) 0 = first_id (leaves (plug c u)) 0"
proof (intro conjI)
  show top: "bid (plug c u') = bid (plug c u)" by (simp add: bid_plug bid)
  have "wf_tree ty (plug c u')"
    using wf wf' hole by (simp add: wf_plug [OF cut] bid)
  moreover have "\<exists>n. bal n (plug c u')"
    using ok bal by (auto simp: tree_ok_def bal_plug)
  moreover have "distinct (ids (plug c u'))"
    using ok dist sub N(1) by (auto simp: tree_ok_def distinct_ids_plug set_ids_plug)
  moreover have "0 \<notin> set (ids (plug c u'))"
    using ok sub N(2) by (auto simp: tree_ok_def set_ids_plug)
  moreover have "chained (leaves (plug c u')) 0"
    using ok chain first by (simp add: tree_ok_def leaves_plug chained_append)
  ultimately show "tree_ok ty (plug c u')" using sorted by (simp add: tree_ok_def)
  show "rep m' (plug c u')"
    using rep rep' rep_ctx_cong [of c m' m "bid u"] same by (simp add: rep_plug bid)
  show "first_id (leaves (plug c u')) 0 = first_id (leaves (plug c u)) 0"
    using first by (simp add: leaves_plug)
qed

end
