(* ===== verification/IndexInsert_Correct.thy ===== *)
theory IndexInsert_Correct
  imports IndexUpdate
begin

text \<open>
  Insertion. A new key goes to the one leaf where it can be; when the leaf has room nothing
  else changes. A full leaf is relieved by its right sibling, or split with a sibling into
  three, or split alone, and the parent's separators are rebuilt; this is proved for keys of
  one size, where the shares fit, and a parent with room for one more child. The contents
  afterwards are the contents before with the new entry in its place.
\<close>

section \<open>Outcomes\<close>

text \<open>The index stands for a tree, its size field holding any number.\<close>

definition holds_tree :: "DataType \<Rightarrow> nat \<Rightarrow> btree \<Rightarrow> disk_index \<Rightarrow> bool" where
  "holds_tree ty n t s \<longleftrightarrow> idx_inv s \<and> 0 < idx_count s \<and> rep (node_view s) t \<and> tree_ok ty t \<and>
     idx_frame s = (bid t, first_id (leaves t) 0, n)"

lemma index_inv_holds: "index_inv ty s t \<longleftrightarrow> holds_tree ty (length (flat t)) t s"
  by (simp add: index_inv_def holds_tree_def)

definition mkleaf :: "nat \<times> LeafEntry list \<times> nat \<Rightarrow> btree" where
  "mkleaf l = (case l of (i, es, nx) \<Rightarrow> BLeaf i es nx)"

lemma mkleaf_simps [simp]:
  "mkleaf (i, es, nx) = BLeaf i es nx" "bid (mkleaf l) = fst l" "flat (mkleaf l) = leaf_es l"
  "leaves (mkleaf l) = [l]" "ids (mkleaf l) = [fst l]" "bal n (mkleaf l) = (n = 0)"
  by (cases l; simp add: mkleaf_def leaf_es_def)+

lemma mkleaf_lists [simp]:
  "map bid (map mkleaf ls) = map fst ls" "concat (map flat (map mkleaf ls)) = concat (map leaf_es ls)"
  "concat (map leaves (map mkleaf ls)) = ls" "concat (map ids (map mkleaf ls)) = map fst ls"
  by (induction ls) simp_all

lemma mkleaf_comp [simp]:
  "bid \<circ> mkleaf = fst" "flat \<circ> mkleaf = leaf_es" "leaves \<circ> mkleaf = (\<lambda>l. [l])"
  "ids \<circ> mkleaf = (\<lambda>l. [fst l])" "vals \<circ> mkleaf = map key_val \<circ> leaf_es"
  by (auto simp: vals_def)

lemma bal_leaves: "\<forall>u \<in> set ts. bal 0 u \<Longrightarrow> \<exists>ls. ts = map mkleaf ls"
proof (induction ts)
  case (Cons u ts)
  then obtain ls where "ts = map mkleaf ls" by auto
  moreover obtain i es nx where "u = BLeaf i es nx" using Cons.prems by (cases u) auto
  ultimately have "u # ts = map mkleaf ((i, es, nx) # ls)" by simp
  then show ?case by (rule exI)
qed simp

text \<open>Leaves in a file, with entries of one key size.\<close>

definition leaves_in :: "DataType \<Rightarrow> nat \<Rightarrow> disk_index \<Rightarrow> (nat \<times> LeafEntry list \<times> nat) list \<Rightarrow> bool" where
  "leaves_in ty n s ls \<longleftrightarrow> (\<forall>(i, es, nx) \<in> set ls. leaf_ok ty es \<and> (\<forall>e \<in> set es. key_len e = n) \<and>
     node_view s i = Some (leaf_page i es nx))"

lemma leaves_in_append: "leaves_in ty n s (xs @ ys) \<longleftrightarrow> leaves_in ty n s xs \<and> leaves_in ty n s ys"
  by (simp add: leaves_in_def ball_Un)

lemma leaves_in_Cons: "leaves_in ty n s ((i, es, nx) # ls) \<longleftrightarrow> leaf_ok ty es \<and>
    (\<forall>e \<in> set es. key_len e = n) \<and> node_view s i = Some (leaf_page i es nx) \<and> leaves_in ty n s ls"
  by (auto simp: leaves_in_def)

lemma leaves_in_cong:
  assumes "leaves_in ty n s ls" and "\<And>i. i \<in> fst ` set ls \<Longrightarrow> node_view s' i = node_view s i"
  shows "leaves_in ty n s' ls"
  unfolding leaves_in_def
proof (intro ballI)
  fix l assume l: "l \<in> set ls"
  then have "node_view s' (fst l) = node_view s (fst l)" by (intro assms(2)) simp
  then show "case l of (i, es, nx) \<Rightarrow> leaf_ok ty es \<and> (\<forall>e \<in> set es. key_len e = n) \<and>
      node_view s' i = Some (leaf_page i es nx)"
    using assms(1) l by (cases l) (auto simp: leaves_in_def)
qed

lemma leaves_in_subtree: "leaves_in ty n s ls \<Longrightarrow> l \<in> set ls \<Longrightarrow> subtree ty s (mkleaf l)"
  by (cases l) (auto simp: leaves_in_def subtree_def)

lemma leaves_in_same: "leaves_in ty n s ls \<Longrightarrow> same_index s s' \<Longrightarrow> leaves_in ty n s' ls"
  by (simp add: leaves_in_def same_index_def)

text \<open>An inner node with \<open>m\<close> children and keys of \<open>n\<close> bytes fits its page and its count.\<close>

definition node_room :: "nat \<Rightarrow> nat \<Rightarrow> bool" where
  "node_room n m \<longleftrightarrow> m \<le> 256 \<and> 12 + 4 * m + (m - 1) * (2 + n) \<le> kPageSize"

lemma inner_payload_uniform:
  assumes "\<forall>k \<in> set ks. key_len k = n"
  shows "inner_payload_bytes ks c = 12 + c * 4 + length ks * (2 + n)"
proof -
  have "(\<Sum>k\<leftarrow>ks. 2 + key_len k) = length ks * (2 + n)" using assms by (induction ks) auto
  then show ?thesis by (simp add: inner_payload_bytes_eq)
qed

lemma leaf_payload_uniform:
  assumes "\<forall>e \<in> set es. key_len e = n"
  shows "leaf_payload_bytes es = 12 + length es * (10 + n)"
proof -
  have "(\<Sum>e\<leftarrow>es. 2 + key_len e + 8) = length es * (10 + n)" using assms by (induction es) auto
  then show ?thesis by (simp add: leaf_payload_bytes_eq)
qed

definition min_keys :: "(nat \<times> LeafEntry list \<times> nat) list \<Rightarrow> LeafEntry list" where
  "min_keys ls = map (hd \<circ> leaf_es) (tl ls)"

lemma min_keys_facts:
  assumes "leaves_in ty n s ls" and "ls \<noteq> []" and "node_room n (length ls)"
  shows "\<forall>k \<in> set (min_keys ls). good_entry ty k" "length (min_keys ls) \<le> 255"
    "\<not> inner_overflow (min_keys ls) (map fst ls)" "length ls = Suc (length (min_keys ls))"
    "inner_ok ty (map strip (min_keys ls)) (map fst ls)"
proof -
  have hd: "good_entry ty (hd (leaf_es l)) \<and> key_len (hd (leaf_es l)) = n" if "l \<in> set ls" for l
    using that assms(1) by (cases l) (auto simp: leaves_in_def leaf_ok_def)
  have mem: "l \<in> set ls" if "l \<in> set (tl ls)" for l using that assms(2) by (metis list.set_sel(2))
  show good: "\<forall>k \<in> set (min_keys ls). good_entry ty k" using hd mem by (auto simp: min_keys_def)
  have len: "\<forall>k \<in> set (min_keys ls). key_len k = n" using hd mem by (auto simp: min_keys_def)
  show eq: "length ls = Suc (length (min_keys ls))" using assms(2) by (simp add: min_keys_def)
  show le: "length (min_keys ls) \<le> 255" using assms(3) eq by (simp add: node_room_def)
  show fits: "\<not> inner_overflow (min_keys ls) (map fst ls)"
    using assms(3) eq by (simp add: inner_overflow_def inner_payload_uniform [OF len] node_room_def)
  have "inner_payload_bytes (map strip (min_keys ls)) c = inner_payload_bytes (min_keys ls) c" for c
    by (simp add: inner_payload_bytes_eq comp_def)
  then show "inner_ok ty (map strip (min_keys ls)) (map fst ls)"
    using good le fits by (auto simp: inner_ok_def inner_overflow_def good_entry_strip) (simp add: strip_def)
qed

text \<open>
  Indexes of at most two levels with keys of \<open>n\<close> bytes, a root above leaves having at least two
  of them, and room for \<open>j\<close> more leaves: what erasure asks for. An insertion adds at most two
  pages and one leaf.
\<close>

fun fan :: "btree \<Rightarrow> nat" where
  "fan (BLeaf i es nx) = 1"
| "fan (BNode i ks ts) = length ts"

fun flat_enough :: "nat \<Rightarrow> btree \<Rightarrow> bool" where
  "flat_enough n (BLeaf i es nx) = True"
| "flat_enough n (BNode i ks ts) = (bal 1 (BNode i ks ts) \<and> 2 \<le> length ts \<and> (\<forall>k \<in> set ks. key_len k = n))"

text \<open>
  A leaf that a split, a merge or a loan leaves behind has a third of what overflows a page. When
  every leaf below a root has that much, the number of entries bounds the number of leaves, and
  the root has room as long as the entries are few enough, however often they change.
\<close>

definition leaf_share :: "nat \<Rightarrow> nat" where
  "leaf_share n = ((kPageSize - 12) div (10 + n) + 1) div 3"

definition thick :: "nat \<Rightarrow> (nat \<times> LeafEntry list \<times> nat) list \<Rightarrow> bool" where
  "thick n ls \<longleftrightarrow> (\<forall>l \<in> set ls. leaf_share n \<le> length (leaf_es l))"

fun thick_tree :: "nat \<Rightarrow> btree \<Rightarrow> bool" where
  "thick_tree n (BLeaf i es nx) = True"
| "thick_tree n (BNode i ks ts) = thick n (leaves (BNode i ks ts))"

definition root_room :: "nat \<Rightarrow> btree \<Rightarrow> nat \<Rightarrow> bool" where
  "root_room n t j \<longleftrightarrow> node_room n (fan t + j) \<or>
     0 < leaf_share n \<and> thick_tree n t \<and> node_room n ((length (flat t) + j) div leaf_share n + 1)"

definition spares :: "nat \<Rightarrow> disk_index \<Rightarrow> btree \<Rightarrow> nat \<Rightarrow> bool" where
  "spares n s t j \<longleftrightarrow> (\<forall>e \<in> set (flat t). key_len e = n) \<and> idx_count s + j < 2 ^ 32 \<and>
     root_room n t j \<and> flat_enough n t"

lemma node_room_mono: "node_room n m \<Longrightarrow> k \<le> m \<Longrightarrow> node_room n k"
proof -
  assume m: "node_room n m" and k: "k \<le> m"
  have "(k - 1) * (2 + n) \<le> (m - 1) * (2 + n)" using k by (intro mult_le_mono1) simp
  then show ?thesis using m k by (simp add: node_room_def)
qed

lemma root_room_mono: "root_room n t j \<Longrightarrow> k \<le> j \<Longrightarrow> root_room n t k"
proof -
  assume "root_room n t j" and k: "k \<le> j"
  moreover have "(length (flat t) + k) div leaf_share n + 1 \<le> (length (flat t) + j) div leaf_share n + 1"
    using k by (simp add: div_le_mono)
  ultimately show ?thesis using k unfolding root_room_def by (metis node_room_mono add_le_cancel_left)
qed

lemma spares_mono: "spares n s t j \<Longrightarrow> k \<le> j \<Longrightarrow> spares n s t k"
  by (auto simp: spares_def intro: root_room_mono)

text \<open>Room for what is there, and for one leaf more.\<close>

lemma thick_fan: "thick n ls \<Longrightarrow> length ls * leaf_share n \<le> length (concat (map leaf_es ls))"
  by (induction ls) (auto simp: thick_def)

lemma root_room_leaves:
  assumes "root_room n t (Suc j)" and "fan t = length ls" and "leaves t = ls" and "flat t = concat (map leaf_es ls)"
    and "thick_tree n t \<Longrightarrow> thick n ls"
  shows "node_room n (Suc (length ls))"
  using assms(1) unfolding root_room_def
proof (elim disjE conjE)
  assume "node_room n (fan t + Suc j)"
  then show ?thesis by (rule node_room_mono) (simp add: assms(2))
next
  assume h: "0 < leaf_share n" "thick_tree n t" "node_room n ((length (flat t) + Suc j) div leaf_share n + 1)"
  have "length ls * leaf_share n \<le> length (flat t) + Suc j" using thick_fan [OF assms(5) [OF h(2)]] assms(4) by simp
  then have "length ls \<le> (length (flat t) + Suc j) div leaf_share n" using h(1) by (simp add: less_eq_div_iff_mult_less_eq)
  then show ?thesis by (intro node_room_mono [OF h(3)]) simp
qed

text \<open>What overflows a page is enough for three leaves.\<close>

lemma overflow_share:
  assumes "\<forall>e \<in> set es. key_len e = n" and "leaf_overflow es"
  shows "leaf_share n \<le> length es div 3"
proof -
  have "kPageSize < 12 + length es * (10 + n)"
    using assms(2) by (simp add: leaf_overflow_def leaf_payload_uniform [OF assms(1)])
  then have "kPageSize - 12 < length es * (10 + n)" by (simp add: kPageSize_def)
  then have "(kPageSize - 12) div (10 + n) < length es" by (simp add: div_less_iff_less_mult)
  then show ?thesis unfolding leaf_share_def by (intro div_le_mono) simp
qed

lemma spares_count: "idx_count s' = idx_count s \<Longrightarrow> spares n s' t j = spares n s t j"
  by (simp add: spares_def)

definition grows :: "disk_index \<Rightarrow> btree \<Rightarrow> disk_index \<Rightarrow> btree \<Rightarrow> bool" where
  "grows s t s' t' \<longleftrightarrow> (\<forall>n j. spares n s t (j + 2) \<longrightarrow> (\<forall>e \<in> set (flat t'). key_len e = n) \<longrightarrow> spares n s' t' j)"

lemma growsI:
  assumes "idx_count s' \<le> idx_count s + 2" and "fan t' \<le> fan t + 1" and "length (flat t') \<le> length (flat t) + 1"
    and "\<And>n. flat_enough n t \<Longrightarrow> \<forall>e \<in> set (flat t'). key_len e = n \<Longrightarrow> flat_enough n t' \<and> (thick_tree n t \<longrightarrow> thick_tree n t')"
  shows "grows s t s' t'"
  unfolding grows_def
proof (intro allI impI)
  fix n j assume sp: "spares n s t (j + 2)" and keys: "\<forall>e \<in> set (flat t'). key_len e = n"
  have "root_room n t' j"
  proof (cases "node_room n (fan t + (j + 2))")
    case True
    then have "node_room n (fan t' + j)" by (rule node_room_mono) (use assms(2) in simp)
    then show ?thesis by (simp add: root_room_def)
  next
    case False
    then have h: "0 < leaf_share n" "thick_tree n t" "node_room n ((length (flat t) + (j + 2)) div leaf_share n + 1)"
      using sp by (simp_all add: spares_def root_room_def)
    have "(length (flat t') + j) div leaf_share n + 1 \<le> (length (flat t) + (j + 2)) div leaf_share n + 1"
      using assms(3) by (simp add: div_le_mono)
    then show ?thesis using h assms(4) keys sp node_room_mono [OF h(3)] by (simp add: root_room_def spares_def)
  qed
  then show "spares n s' t' j" using sp keys assms(1,4) by (simp add: spares_def)
qed

text \<open>
  After an insertion the index stands for the given entries, its size field not yet brought
  up to date.
\<close>

definition holds_entries :: "DataType \<Rightarrow> disk_index \<Rightarrow> btree \<Rightarrow> LeafEntry list \<Rightarrow> disk_index \<Rightarrow> bool" where
  "holds_entries ty s t es s' \<longleftrightarrow> (\<exists>t'. holds_tree ty (ix_size s) t' s' \<and> flat t' = es \<and> grows s t s' t')"

section \<open>The parent of changed leaves\<close>

text \<open>
  The leaves under one inner node were replaced by others; its separators are rebuilt and the
  node is written. The new leaves hold the old entries and one more.
\<close>

definition leaf_parent :: "DataType \<Rightarrow> disk_index \<Rightarrow> btree \<Rightarrow> frame list \<Rightarrow> nat \<Rightarrow> LeafEntry list \<Rightarrow>
    (nat \<times> LeafEntry list \<times> nat) list \<Rightarrow> bool" where
  "leaf_parent ty s t c p ks ls \<longleftrightarrow> index_inv ty s t \<and> t = plug c (BNode p ks (map mkleaf ls)) \<and> cut_ok c \<and>
     wf_tree ty t"

text \<open>The new list of leaves under the parent, against the old one.\<close>

definition relisted :: "btree \<Rightarrow> frame list \<Rightarrow> (nat \<times> LeafEntry list \<times> nat) list \<Rightarrow>
    (nat \<times> LeafEntry list \<times> nat) list \<Rightarrow> bool" where
  "relisted t c ls ls' \<longleftrightarrow> ls' \<noteq> [] \<and> distinct (map fst ls') \<and>
     (\<forall>i \<in> fst ` set ls'. i \<in> fst ` set ls \<or> i \<notin> set (ids t) \<and> i \<noteq> 0) \<and>
     first_id ls' (first_id (right_leaves c) 0) = first_id ls (first_id (right_leaves c) 0) \<and>
     chained ls' (first_id (right_leaves c) 0)"

lemma wp_parent_tree:
  assumes par: "leaf_parent ty s t c p ks ls" and rel: "relisted t c ls ls'"
    and new: "leaves_in ty n s1 ls'" and room: "node_room n (length ls')"
    and flat: "left_flat c @ concat (map leaf_es ls') @ right_flat c = es'"
    and sorted: "sorted_wrt (<) (map key_val es')"
    and hole: "\<forall>v \<in> key_val ` set (concat (map leaf_es ls')). hole_ok c v"
    and s1: "idx_inv s1" "idx_count s \<le> idx_count s1" "idx_frame s1 = (root_page s, first_leaf_page s, m)"
    and ctx: "\<forall>i \<in> set (ctx_ids c). node_view s1 i = node_view s i"
    and pg: "node_type pg = Inner" "page_id pg = p" "next_leaf pg = 0" "children pg = map fst ls'"
  shows "wp E (rebuild_internal_keys pg) (\<lambda>parent s2.
           page_id parent = p \<and> node_type parent = Inner \<and> children parent = map fst ls' \<and>
           idx_frame s2 = idx_frame s1 \<and> \<not> inner_overflow (inner_keys parent) (children parent) \<and>
           wp E (idx_write_page parent) (\<lambda>_ s'. idx_count s' = idx_count s1 \<and>
             holds_tree ty m (plug c (BNode p (map strip (min_keys ls')) (map mkleaf ls'))) s') s2) s1"
proof -
  have inv: "index_inv ty s t" and t: "t = plug c (BNode p ks (map mkleaf ls))" and cut: "cut_ok c"
    and wf: "wf_tree ty t"
    using par unfolding leaf_parent_def by blast+
  note I = index_invD [OF inv]
  have ne: "ls' \<noteq> []" and dist: "distinct (map fst ls')" using rel by (simp_all add: relisted_def)
  note M = min_keys_facts [OF new ne room]
  have "wf_tree ty (BNode p ks (map mkleaf ls))" using wf unfolding t wf_plug [OF cut] by blast
  then have old: "ls \<noteq> []" using wf_first_child by fastforce
  have p_ids: "p \<in> set (ids t)" by (simp add: t set_ids_plug)
  then have p: "p < idx_count s"
    using ids_count(1) [OF I(1,3)] I(4) by (auto simp: tree_ok_def)
  have ids_ls: "fst ` set ls \<subseteq> set (ids t)" "p \<notin> fst ` set ls"
    using I(4) by (auto simp: t set_ids_plug tree_ok_def distinct_ids_plug)
  have p_ls': "p \<notin> fst ` set ls'" using rel ids_ls(2) p_ids by (auto simp: relisted_def)
  have small: "\<forall>i \<in> fst ` set ls'. i < 2 ^ 32"
  proof
    fix i assume "i \<in> fst ` set ls'"
    then obtain es nx where "node_view s1 i = Some (leaf_page i es nx)"
      using new by (auto simp: leaves_in_def)
    then show "i < 2 ^ 32"
      using nodes.view_bound [OF s1(1)] nodes.count_bound [OF s1(1)] by fastforce
  qed
  show ?thesis
  proof (rule wp_rebuild [OF s1(1) pg(1)])
    show "children pg = map bid (map mkleaf ls')" using pg(4) by simp
    show "map mkleaf ls' \<noteq> []" using ne by simp
    show "\<forall>t \<in> set (tl (map mkleaf ls')). subtree ty s1 t"
      using leaves_in_subtree [OF new] ne by (auto simp: map_tl [symmetric] dest: list.set_sel(2))
  next
    fix s2
    assume s2: "same_index s1 s2"
    let ?pg = "pg\<lparr>inner_keys := map (hd \<circ> flat) (tl (map mkleaf ls')),
                  key_count := (length (map mkleaf ls') - 1) mod 256\<rparr>"
    have keys: "map (hd \<circ> flat) (tl (map mkleaf ls')) = min_keys ls'"
      by (simp add: min_keys_def map_tl [symmetric] comp_def)
    have "wp E (idx_write_page ?pg) (\<lambda>_ s'. idx_count s' = idx_count s1 \<and>
             holds_tree ty m (plug c (BNode p (map strip (min_keys ls')) (map mkleaf ls'))) s') s2"
    proof (rule wp_write_inner)
      show "idx_inv s2" using s2 by (simp add: same_index_def)
      show "page_id ?pg < idx_count s2" using p s1(2) s2 pg(2) by (simp add: same_index_def)
      show "\<forall>c \<in> set (children ?pg). c < 2 ^ 32" using small pg(4) by simp
    next
      fix s3
      assume "wrote s2 (page_id ?pg)
        (node_page (page_id ?pg) (map strip (inner_keys ?pg)) (children ?pg)) s3"
      then have s3: "idx_inv s3" "idx_count s3 = idx_count s1" "idx_frame s3 = (root_page s, first_leaf_page s, m)"
        and view: "node_view s3 = (node_view s1)(p \<mapsto> node_page p (map strip (min_keys ls')) (map fst ls'))"
        using s2 pg keys s1(3) by (simp_all add: wrote_def same_index_def)
      let ?u' = "BNode p (map strip (min_keys ls')) (map mkleaf ls')"
      let ?t' = "plug c ?u'"
      have flat': "flat ?t' = es'" using flat by (simp add: flat_plug)
      have "seps (map hd (tl (map (map key_val \<circ> leaf_es) ls'))) (map (map key_val \<circ> leaf_es) ls')"
      proof (rule seps_mins)
        show "\<forall>F \<in> set (map (map key_val \<circ> leaf_es) ls'). F \<noteq> []"
          using new by (auto simp: leaves_in_def leaf_ok_def)
        have "sorted_wrt (<) (map key_val (left_flat c @ concat (map leaf_es ls') @ right_flat c))"
          using sorted flat by simp
        then have "sorted_wrt (<) (map key_val (concat (map leaf_es ls')))"
          by (simp only: map_append sorted_wrt_append)
        then show "sorted_wrt (<) (concat (map (map key_val \<circ> leaf_es) ls'))"
          by (simp add: map_concat comp_def)
      qed (use ne in simp)
      moreover have "map key_val (map strip (min_keys ls')) = map hd (tl (map (map key_val \<circ> leaf_es) ls'))"
        using new ne by (cases ls') (auto simp: min_keys_def leaves_in_def leaf_ok_def hd_map)
      moreover have "map vals (map mkleaf ls') = map (map key_val \<circ> leaf_es) ls'"
        by (simp add: vals_def)
      ultimately have wf': "wf_tree ty ?u'"
        using M(5) new by (auto simp: leaves_in_def)
      have rep': "rep (node_view s3) ?u'"
      proof -
        have "rep (node_view s3) (mkleaf l)" if "l \<in> set ls'" for l
        proof -
          have "fst l \<noteq> p" using that p_ls' by auto
          then show ?thesis using that new view by (cases l) (auto simp: leaves_in_def)
        qed
        then show ?thesis using view by simp
      qed
      have "tree_ok ty ?t' \<and> rep (node_view s3) ?t' \<and> bid ?t' = bid (plug c (BNode p ks (map mkleaf ls))) \<and>
          first_id (leaves ?t') 0 = first_id (leaves (plug c (BNode p ks (map mkleaf ls)))) 0"
      proof (rule subtree_replaced [where N = "fst ` set ls' - fst ` set ls" and m = "node_view s"])
        show "sorted_wrt (<) (vals ?t')" using flat' sorted by (simp add: vals_def)
        show "\<forall>v \<in> set (vals ?u'). hole_ok c v" using hole by (simp add: vals_def)
        show "\<forall>i \<in> set (ctx_ids c). node_view s3 i = node_view s i"
          using ctx view I(4) t by (auto simp: tree_ok_def distinct_ids_plug)
        show "distinct (ids ?u')" using dist p_ls' by auto
        show "0 \<notin> fst ` set ls' - fst ` set ls" using rel unfolding relisted_def by blast
        show "bal n ?u'" if "bal n (BNode p ks (map mkleaf ls))" for n
          using that old by (cases ls) auto
      qed (use I(3,4) wf t cut wf' rep' rel p in \<open>auto simp: relisted_def\<close>)
      moreover have "0 < idx_count s3" using p s1(2) s3(2) by simp
      ultimately show "idx_count s3 = idx_count s1 \<and> holds_tree ty m ?t' s3"
        unfolding holds_tree_def using s3 I(5,6) t by (auto simp: idx_frame_def)
    qed (use M keys pg in simp_all)
    then show "page_id ?pg = p \<and> node_type ?pg = Inner \<and> children ?pg = map fst ls' \<and>
        idx_frame s2 = idx_frame s1 \<and> \<not> inner_overflow (inner_keys ?pg) (children ?pg) \<and>
        wp E (idx_write_page ?pg) (\<lambda>_ s'. idx_count s' = idx_count s1 \<and>
             holds_tree ty m (plug c (BNode p (map strip (min_keys ls')) (map mkleaf ls'))) s') s2"
      using M(3) pg keys s2 by (simp add: same_index_def)
  qed
qed

lemma wp_parent_rebuilt:
  assumes par: "leaf_parent ty s t c p ks ls" and rel: "relisted t c ls ls'"
    and new: "leaves_in ty n s1 ls'" and "node_room n (length ls')"
    and flat: "left_flat c @ concat (map leaf_es ls') @ right_flat c = es'"
    and "sorted_wrt (<) (map key_val es')"
    and "\<forall>v \<in> key_val ` set (concat (map leaf_es ls')). hole_ok c v"
    and s1: "idx_inv s1" "idx_count s \<le> idx_count s1" "idx_frame s1 = idx_frame s"
    and "\<forall>i \<in> set (ctx_ids c). node_view s1 i = node_view s i"
    and "node_type pg = Inner" "page_id pg = p" "next_leaf pg = 0" "children pg = map fst ls'"
    and size: "length ls \<le> length ls'" "length ls' \<le> length ls + 1" "idx_count s1 \<le> idx_count s + 2"
      "length (concat (map leaf_es ls')) \<le> length (concat (map leaf_es ls)) + 1" "thick n ls \<Longrightarrow> thick n ls'"
  shows "wp E (rebuild_internal_keys pg) (\<lambda>parent s2.
           page_id parent = p \<and> \<not> inner_overflow (inner_keys parent) (children parent) \<and>
           wp E (idx_write_page parent) (\<lambda>_ s'. holds_entries ty s t es' s') s2) s1"
proof -
  let ?t' = "plug c (BNode p (map strip (min_keys ls')) (map mkleaf ls'))"
  have t: "t = plug c (BNode p ks (map mkleaf ls))" using par by (simp add: leaf_parent_def)
  have frame: "idx_frame s1 = (root_page s, first_leaf_page s, ix_size s)" using s1(3) by (simp add: idx_frame_def)
  have mins: "set (min_keys ls') \<subseteq> set (flat ?t')"
  proof
    fix k assume "k \<in> set (min_keys ls')"
    then obtain l where l: "l \<in> set ls'" "k = hd (leaf_es l)"
      using rel by (auto simp: min_keys_def relisted_def dest!: list.set_sel(2))
    then have "leaf_es l \<noteq> []" using new by (cases l) (auto simp: leaves_in_def leaf_ok_def)
    then have "k \<in> set (leaf_es l)" using l(2) by simp
    then show "k \<in> set (flat ?t')" using l(1) by (auto simp: flat_plug)
  qed
  have "flat_enough m ?t' \<and> (thick_tree m t \<longrightarrow> thick_tree m ?t')"
    if "flat_enough m t" "\<forall>e \<in> set (flat ?t'). key_len e = m" for m
  proof -
    obtain l ls2 where l: "ls' = l # ls2" using rel by (cases ls') (auto simp: relisted_def)
    then obtain e where e: "e \<in> set (leaf_es l)" using new by (cases "leaf_es l") (auto simp: leaves_in_def leaf_ok_def)
    have "key_len e = n" using e l new by (auto simp: leaves_in_def)
    moreover have "key_len e = m" using e l that(2) by (auto simp: flat_plug)
    ultimately have "n = m" by simp
    have "bal 1 (plug c (BNode p ks (map mkleaf ls)))"
      using that(1) unfolding t by (cases "(c, BNode p ks (map mkleaf ls))" rule: plug.cases) auto
    then have "c = []" by (auto simp: bal_plug)
    then show ?thesis using that mins size(1,5) \<open>n = m\<close> by (auto simp: t comp_def)
  qed
  moreover have "length (flat ?t') \<le> length (flat t) + 1" using size(4) by (simp add: t flat_plug comp_def)
  moreover have "fan ?t' \<le> fan t + 1"
    using size(2) by (cases "(c, BNode p ks (map mkleaf ls))" rule: plug.cases) (simp_all add: t)
  ultimately have grows: "grows s t s' ?t'" if "idx_count s' = idx_count s1" for s'
    using that size(3) by (intro growsI) simp_all
  have whole: "holds_entries ty s t es' s'"
    if "idx_count s' = idx_count s1" "holds_tree ty (ix_size s) ?t' s'" for s'
    unfolding holds_entries_def using that grows flat by (intro exI [of _ ?t']) (simp add: flat_plug)
  show ?thesis
    by (rule wp_mono [OF wp_parent_tree [OF assms(1-7) s1(1,2) frame assms(11-15)]])
      (auto elim!: wp_mono intro: whole)
qed

section \<open>Where an insertion happens\<close>

definition insert_site :: "DataType \<Rightarrow> disk_index \<Rightarrow> btree \<Rightarrow> LeafEntry \<Rightarrow> frame list \<Rightarrow> nat \<Rightarrow>
    LeafEntry list \<Rightarrow> LeafEntry list \<Rightarrow> nat \<Rightarrow> bool" where
  "insert_site ty s t ent c i A B nx \<longleftrightarrow> index_inv ty s t \<and> t = plug c (BLeaf i (A @ B) nx) \<and> cut_ok c \<and>
     hole_ok c (key_val ent) \<and> wf_tree ty t \<and> good_entry ty ent \<and>
     (\<forall>e \<in> set (left_flat c @ A). key_val e < key_val ent) \<and>
     (\<forall>e \<in> set (B @ right_flat c). key_val ent < key_val e)"

abbreviation grown :: "frame list \<Rightarrow> LeafEntry list \<Rightarrow> LeafEntry \<Rightarrow> LeafEntry list \<Rightarrow> LeafEntry list" where
  "grown c A ent B \<equiv> left_flat c @ (A @ ent # B) @ right_flat c"

lemma siteD:
  assumes "insert_site ty s t ent c i A B nx"
  shows "index_inv ty s t" "t = plug c (BLeaf i (A @ B) nx)" "cut_ok c" "hole_ok c (key_val ent)"
    "wf_tree ty t" "good_entry ty ent" "\<forall>e \<in> set (left_flat c @ A). key_val e < key_val ent"
    "\<forall>e \<in> set (B @ right_flat c). key_val ent < key_val e"
  using assms unfolding insert_site_def by blast+

lemma sorted_insert_middle:
  assumes "sorted_wrt (<) (map f (P @ S))" and "\<forall>e \<in> set P. f e < f x" and "\<forall>e \<in> set S. f x < (f e :: 'a::linorder)"
  shows "sorted_wrt (<) (map f (P @ x # S))"
  using assms by (simp add: sorted_wrt_append)

lemma site_sorted:
  assumes "insert_site ty s t ent c i A B nx"
  shows "sorted_wrt (<) (map key_val (grown c A ent B))"
proof -
  note D = siteD [OF assms]
  have "sorted_wrt (<) (vals t)" using index_invD(4) [OF D(1)] by (simp add: tree_ok_def)
  then have "sorted_wrt (<) (map key_val ((left_flat c @ A) @ (B @ right_flat c)))"
    by (simp add: D(2) vals_def flat_plug)
  from sorted_insert_middle [OF this D(7,8)] show ?thesis by simp
qed

lemma sorted_part: "sorted_wrt (<) (map f (P @ es @ S)) \<Longrightarrow> sorted_wrt (<) (map f es)"
  by (simp only: map_append sorted_wrt_append)

lemma site_good:
  assumes "insert_site ty s t ent c i A B nx"
  shows "\<forall>e \<in> set (grown c A ent B). good_entry ty e"
proof -
  note D = siteD [OF assms]
  have "e \<in> set (flat t) \<Longrightarrow> good_entry ty e" for e using wf_tree_good [OF D(5)] by blast
  then show ?thesis using D(6) by (auto simp: D(2) flat_plug)
qed

lemma site_holes:
  assumes "insert_site ty s t ent c i A B nx"
  shows "\<forall>v \<in> key_val ` set (A @ ent # B). hole_ok c v"
proof -
  note D = siteD [OF assms]
  have "\<forall>v \<in> set (vals (BLeaf i (A @ B) nx)). hole_ok c v" using D(2,5) wf_plug [OF D(3)] by blast
  then show ?thesis using D(4) by auto
qed

text \<open>The leaf has room: it is the only page that changes.\<close>

lemma wp_write_grown_leaf:
  assumes site: "insert_site ty s t ent c i A B nx" and fits: "\<not> leaf_overflow (A @ ent # B)"
    and s1: "same_index s s1" and pg: "node_type pg = Leaf" "page_id pg = i" "leaf_entries pg = A @ ent # B"
    "next_leaf pg = nx" "children pg = []"
  shows "wp E (idx_write_page pg) (\<lambda>_ s'. holds_entries ty s t (grown c A ent B) s') s1"
proof -
  note D = siteD [OF site]
  note I = index_invD [OF D(1)]
  have at: "leaves t = left_leaves c @ (i, A @ B, nx) # right_leaves c" by (simp add: D(2) leaves_plug)
  note F = leaf_facts [OF D(1) at]
  have i: "i < idx_count s" using nodes.view_bound [OF I(1) F(1)] .
  have nx: "nx < 2 ^ 32"
  proof (cases "right_leaves c")
    case Nil
    then show ?thesis using F(2) by simp
  next
    case (Cons l R)
    obtain j es' nx' where l: "l = (j, es', nx')" by (cases l)
    then have "leaves t = (left_leaves c @ [(i, A @ B, nx)]) @ (j, es', nx') # R" using at Cons by simp
    from leaf_facts(1) [OF D(1) this] show ?thesis
      using F(2) Cons l nodes.view_bound [OF I(1)] nodes.count_bound [OF I(1)] by fastforce
  qed
  show ?thesis
  proof (rule wp_write_leaf)
    show "idx_inv s1" using s1 by (simp add: same_index_def)
    show "sorted_wrt (<) (map key_val (leaf_entries pg))"
      using sorted_part [OF site_sorted [OF site]] pg(3) by simp
    show "\<forall>e \<in> set (leaf_entries pg). good_entry ty e" using site_good [OF site] pg(3) by auto
    show "page_id pg < idx_count s1" using i s1 pg(2) by (simp add: same_index_def)
  next
    fix s2
    assume "wrote s1 (page_id pg) (leaf_page (page_id pg) (leaf_entries pg) (next_leaf pg)) s2"
    then have s2: "idx_inv s2" "idx_count s2 = idx_count s" "idx_frame s2 = idx_frame s"
      "node_view s2 = (node_view s)(i \<mapsto> leaf_page i (A @ ent # B) nx)"
      using s1 pg by (simp_all add: wrote_def same_index_def)
    let ?u' = "BLeaf i (A @ ent # B) nx"
    have "tree_ok ty (plug c ?u') \<and> rep (node_view s2) (plug c ?u') \<and>
        bid (plug c ?u') = bid (plug c (BLeaf i (A @ B) nx)) \<and>
        first_id (leaves (plug c ?u')) 0 = first_id (leaves (plug c (BLeaf i (A @ B) nx))) 0"
    proof (rule subtree_replaced [where N = "{}" and m = "node_view s"])
      show "sorted_wrt (<) (vals (plug c ?u'))" using site_sorted [OF site] by (simp add: vals_def flat_plug)
      show "\<forall>v \<in> set (vals ?u'). hole_ok c v" using site_holes [OF site] by auto
      show "wf_tree ty ?u'" using site_good [OF site] fits by (auto simp: leaf_ok_def)
      show "\<forall>j \<in> set (ctx_ids c). node_view s2 j = node_view s j"
        using s2(4) I(4) D(2) by (auto simp: tree_ok_def distinct_ids_plug)
      show "chained (leaves ?u') (first_id (right_leaves c) 0)" using F(2) by simp
    qed (use D(2,3,5) I(3,4) s2(4) in auto)
    moreover have "grows s t s2 (plug c ?u')"
    proof (rule growsI)
      show "fan (plug c ?u') \<le> fan t + 1" by (cases "(c, ?u')" rule: plug.cases) (simp_all add: D(2))
      show "length (flat (plug c ?u')) \<le> length (flat t) + 1" by (simp add: D(2) flat_plug)
      have thick: "thick_tree n (plug c ?u')" if "thick_tree n t" for n
        using that by (cases "(c, ?u')" rule: plug.cases) (auto simp: D(2) thick_def leaves_plug)
      show "flat_enough n (plug c ?u') \<and> (thick_tree n t \<longrightarrow> thick_tree n (plug c ?u'))" if "flat_enough n t" for n
        using that bal_plug [of 1 c] thick by (cases "(c, ?u')" rule: plug.cases) (auto simp: D(2) bal_plug)
    qed (use s2(2) in simp)
    ultimately show "holds_entries ty s t (grown c A ent B) s2"
      unfolding holds_entries_def holds_tree_def using s2 I(2,5,6) D(2)
      by (intro exI [of _ "plug c ?u'"]) (auto simp: idx_frame_def flat_plug)
  qed (use pg fits nx in auto)
qed

section \<open>A leaf and its siblings\<close>

text \<open>
  The last step of the way to the leaf: its parent, and the leaves before and after it there.
\<close>

lemma site_parent:
  assumes site: "insert_site ty s t ent c i A B nx" and ne: "c \<noteq> []"
  obtains d p ks X Y where "map fid c = map fid d @ [p]"
    "leaf_parent ty s t d p ks (X @ (i, A @ B, nx) # Y)"
    "left_flat c = left_flat d @ concat (map leaf_es X)" "right_flat c = concat (map leaf_es Y) @ right_flat d"
    "\<And>v. hole_ok c v \<Longrightarrow> hole_ok d v"
proof -
  note D = siteD [OF site]
  obtain d f where c: "c = d @ [f]" using ne by (cases c rule: rev_cases) auto
  obtain p kl lts kr rts where f: "f = Frame p kl lts kr rts" by (cases f)
  have t: "t = plug d (BNode p (kl @ kr) (lts @ BLeaf i (A @ B) nx # rts))"
    by (simp add: D(2) c f plug_append)
  have "\<exists>n. bal n (BNode p (kl @ kr) (lts @ BLeaf i (A @ B) nx # rts))"
    using index_invD(4) [OF D(1)] by (auto simp: tree_ok_def t bal_plug)
  then have "\<forall>u \<in> set lts. bal 0 u" and "\<forall>u \<in> set rts. bal 0 u" by auto
  then obtain X Y where XY: "lts = map mkleaf X" "rts = map mkleaf Y" using bal_leaves by metis
  have cut: "cut_ok d"
    using D(3) unfolding c by (induction d) auto
  show thesis
  proof (rule that)
    show "map fid c = map fid d @ [p]" by (simp add: c f)
    show "leaf_parent ty s t d p (kl @ kr) (X @ (i, A @ B, nx) # Y)"
      using D(1,5) cut t XY by (simp add: leaf_parent_def)
    show "left_flat c = left_flat d @ concat (map leaf_es X)"
      and "right_flat c = concat (map leaf_es Y) @ right_flat d" by (simp_all add: c f XY)
    show "\<And>v. hole_ok c v \<Longrightarrow> hole_ok d v" by (simp add: hole_ok_def c)
  qed
qed

definition sib_site :: "DataType \<Rightarrow> nat \<Rightarrow> disk_index \<Rightarrow> btree \<Rightarrow> LeafEntry \<Rightarrow> frame list \<Rightarrow> nat \<Rightarrow>
    LeafEntry list \<Rightarrow> LeafEntry list \<Rightarrow> nat \<Rightarrow> frame list \<Rightarrow> nat \<Rightarrow> LeafEntry list \<Rightarrow>
    (nat \<times> LeafEntry list \<times> nat) list \<Rightarrow> (nat \<times> LeafEntry list \<times> nat) list \<Rightarrow> bool" where
  "sib_site ty n s t ent c i A B nx d p ks X Y \<longleftrightarrow> insert_site ty s t ent c i A B nx \<and>
     leaf_parent ty s t d p ks (X @ (i, A @ B, nx) # Y) \<and>
     left_flat c = left_flat d @ concat (map leaf_es X) \<and>
     right_flat c = concat (map leaf_es Y) @ right_flat d \<and> (\<forall>v. hole_ok c v \<longrightarrow> hole_ok d v) \<and>
     (\<forall>e \<in> set (flat t). key_len e = n) \<and> key_len ent = n"

lemma sibD:
  assumes "sib_site ty n s t ent c i A B nx d p ks X Y"
  shows "insert_site ty s t ent c i A B nx" "leaf_parent ty s t d p ks (X @ (i, A @ B, nx) # Y)"
    "left_flat c = left_flat d @ concat (map leaf_es X)"
    "right_flat c = concat (map leaf_es Y) @ right_flat d" "\<And>v. hole_ok c v \<Longrightarrow> hole_ok d v"
    "\<forall>e \<in> set (flat t). key_len e = n" "key_len ent = n"
    "t = plug d (BNode p ks (map mkleaf (X @ (i, A @ B, nx) # Y)))" "cut_ok d" "wf_tree ty t"
    "index_inv ty s t"
  using assms unfolding sib_site_def leaf_parent_def by blast+

lemma sib_ids:
  assumes "sib_site ty n s t ent c i A B nx d p ks X Y"
  defines "ls \<equiv> X @ (i, A @ B, nx) # Y"
  shows "distinct (map fst ls)" "p \<notin> fst ` set ls" "set (ctx_ids d) \<inter> insert p (fst ` set ls) = {}"
    "set (ids t) \<subseteq> {..<idx_count s}" "0 \<notin> set (ids t)" "insert p (fst ` set ls) \<subseteq> set (ids t)"
    "chained ls (first_id (right_leaves d) 0)"
proof -
  note D = sibD [OF assms(1), folded ls_def]
  note I = index_invD [OF D(11)]
  have tree: "distinct (ids t)" "0 \<notin> set (ids t)" "chained (leaves t) 0"
    using I(4) by (simp_all add: tree_ok_def)
  show "set (ids t) \<subseteq> {..<idx_count s}" using ids_count(1) [OF I(1,3) tree(1)] .
  show "0 \<notin> set (ids t)" by (rule tree(2))
  show "distinct (map fst ls)" "p \<notin> fst ` set ls" "set (ctx_ids d) \<inter> insert p (fst ` set ls) = {}"
    using tree(1) unfolding D(8) distinct_ids_plug by auto
  show "insert p (fst ` set ls) \<subseteq> set (ids t)" unfolding D(8) set_ids_plug by auto
  show "chained ls (first_id (right_leaves d) 0)"
    using tree(3) unfolding D(8) by (simp add: leaves_plug chained_append)
qed

lemma sib_leaves:
  assumes "sib_site ty n s t ent c i A B nx d p ks X Y"
  shows "leaves_in ty n s (X @ (i, A @ B, nx) # Y)"
proof -
  note D = sibD [OF assms]
  have wf: "wf_tree ty (BNode p ks (map mkleaf (X @ (i, A @ B, nx) # Y)))"
    using D(10) unfolding D(8) wf_plug [OF D(9)] by blast
  have rep: "rep (node_view s) (BNode p ks (map mkleaf (X @ (i, A @ B, nx) # Y)))"
    using index_invD(3) [OF D(11)] unfolding D(8) rep_plug by blast
  show ?thesis
    unfolding leaves_in_def
  proof (intro ballI)
    fix l assume l: "l \<in> set (X @ (i, A @ B, nx) # Y)"
    then have "mkleaf l \<in> set (map mkleaf (X @ (i, A @ B, nx) # Y))" unfolding set_map by (rule imageI)
    then have "wf_tree ty (mkleaf l)" "rep (node_view s) (mkleaf l)" using wf rep by (auto simp del: set_map)
    moreover have "set (leaf_es l) \<subseteq> set (flat t)" using l unfolding D(8) flat_plug by auto
    ultimately show "case l of (i, es, nx) \<Rightarrow> leaf_ok ty es \<and> (\<forall>e \<in> set es. key_len e = n) \<and>
        node_view s i = Some (leaf_page i es nx)"
      using D(6) by (cases l) auto
  qed
qed

text \<open>After the leaves are written as \<open>ls'\<close>, the parent completes the insertion.\<close>

lemma wp_siblings_done:
  assumes sib: "sib_site ty n s t ent c i A B nx d p ks X Y"
    and rel: "relisted t d (X @ (i, A @ B, nx) # Y) ls'" and new: "leaves_in ty n s1 ls'"
    and room: "node_room n (length ls')"
    and es: "concat (map leaf_es ls') = concat (map leaf_es X) @ (A @ ent # B) @ concat (map leaf_es Y)"
    and s1: "idx_inv s1" "idx_count s \<le> idx_count s1" "idx_frame s1 = idx_frame s"
    and ctx: "\<forall>j \<in> set (ctx_ids d). node_view s1 j = node_view s j"
    and pg: "node_type pg = Inner" "page_id pg = p" "next_leaf pg = 0" "children pg = map fst ls'"
    and size: "length (X @ (i, A @ B, nx) # Y) \<le> length ls'" "length ls' \<le> length (X @ (i, A @ B, nx) # Y) + 1"
      "idx_count s1 \<le> idx_count s + 2" "thick n (X @ (i, A @ B, nx) # Y) \<Longrightarrow> thick n ls'"
  shows "wp E (rebuild_internal_keys pg) (\<lambda>parent s2.
           page_id parent = p \<and> \<not> inner_overflow (inner_keys parent) (children parent) \<and>
           wp E (idx_write_page parent) (\<lambda>_ s'. holds_entries ty s t (grown c A ent B) s') s2) s1"
proof (rule wp_parent_rebuilt [OF sibD(2) [OF sib] rel new room _ _ _ s1 ctx pg size(1-3) _ size(4)])
  note D = sibD [OF sib]
  show "length (concat (map leaf_es ls')) \<le> length (concat (map leaf_es (X @ (i, A @ B, nx) # Y))) + 1"
    unfolding es by simp
  show "left_flat d @ concat (map leaf_es ls') @ right_flat d = grown c A ent B"
    unfolding es D(3,4) by simp
  show "sorted_wrt (<) (map key_val (grown c A ent B))" by (rule site_sorted [OF D(1)])
  have "\<forall>v \<in> set (vals (BNode p ks (map mkleaf (X @ (i, A @ B, nx) # Y)))). hole_ok d v"
    using D(10) unfolding D(8) wf_plug [OF D(9)] by blast
  moreover have "hole_ok d (key_val ent)" by (rule D(5) [OF siteD(4) [OF D(1)]])
  moreover have "key_val ` set (concat (map leaf_es ls')) =
      insert (key_val ent) (set (vals (BNode p ks (map mkleaf (X @ (i, A @ B, nx) # Y)))))"
    unfolding es vals_def flat.simps mkleaf_lists by auto
  ultimately show "\<forall>v \<in> key_val ` set (concat (map leaf_es ls')). hole_ok d v" by auto
qed

text \<open>A run of the new entries that fits a page.\<close>

definition part_of :: "nat \<Rightarrow> LeafEntry list \<Rightarrow> LeafEntry list \<Rightarrow> bool" where
  "part_of n es all \<longleftrightarrow> es \<noteq> [] \<and> 12 + length es * (10 + n) \<le> kPageSize \<and> (\<exists>P S. all = P @ es @ S)"

lemma part_ok:
  assumes sib: "sib_site ty n s t ent c i A B nx d p ks X Y" and part: "part_of n es (grown c A ent B)"
  shows "leaf_ok ty es" "\<forall>e \<in> set es. key_len e = n" "sorted_wrt (<) (map key_val es)"
proof -
  note D = sibD [OF sib]
  obtain P S where PS: "grown c A ent B = P @ es @ S" using part by (auto simp: part_of_def)
  then have sub: "set es \<subseteq> set (grown c A ent B)" by auto
  have "set (grown c A ent B) = insert ent (set (flat t))"
    unfolding siteD(2) [OF D(1)] flat_plug flat.simps by auto
  then show len: "\<forall>e \<in> set es. key_len e = n" using sub D(6,7) by auto
  show "sorted_wrt (<) (map key_val es)"
    using site_sorted [OF D(1)] unfolding PS by (rule sorted_part)
  show "leaf_ok ty es"
    using part sub site_good [OF D(1)] leaf_payload_uniform [OF len]
    by (auto simp: leaf_ok_def leaf_overflow_def part_of_def)
qed

lemma wp_write_part:
  assumes sib: "sib_site ty n s t ent c i A B nx d p ks X Y"
    and part: "part_of n (leaf_entries pg) (grown c A ent B)" and s1: "idx_inv s1"
    and pg: "node_type pg = Leaf" "page_id pg < idx_count s1" "next_leaf pg < 2 ^ 32" "children pg = []"
    and Q: "\<And>s'. wrote s1 (page_id pg) (leaf_page (page_id pg) (leaf_entries pg) (next_leaf pg)) s' \<Longrightarrow> Q () s'"
  shows "wp E (idx_write_page pg) Q s1"
proof (rule wp_write_leaf [where ty = ty])
  show "sorted_wrt (<) (map key_val (leaf_entries pg))" by (rule part_ok(3) [OF sib part])
qed (use part_ok(1) [OF sib part] s1 pg Q in \<open>simp_all add: leaf_ok_def\<close>)

lemma part_ofI:
  assumes "sib_site ty n s t ent c i A B nx d p ks X Y"
    and "concat (map leaf_es X) @ (A @ ent # B) @ concat (map leaf_es Y) = P @ es @ S"
    and "es \<noteq> []" and "12 + length es * (10 + n) \<le> kPageSize"
  shows "part_of n es (grown c A ent B)"
proof -
  have "grown c A ent B = (left_flat d @ P) @ es @ (S @ right_flat d)"
    using assms(2) by (simp add: sibD(3,4) [OF assms(1)])
  then show ?thesis using assms(3,4) unfolding part_of_def by blast
qed

section \<open>Giving an entry to a sibling\<close>

lemma chained_next_small:
  assumes "sib_site ty n s t ent c i A B nx d p ks X Y" and "(j, es, nx') \<in> set (X @ (i, A @ B, nx) # Y)"
  shows "nx' < 2 ^ 32" "j < idx_count s"
proof -
  note D = sibD [OF assms(1)] and S = sib_ids [OF assms(1)]
  show j: "j < idx_count s" using S(4,6) assms(2) by force
  have count: "idx_count s < 2 ^ 32" using nodes.count_bound [OF index_invD(1) [OF D(11)]] .
  have "(j, es, nx') \<in> set (leaves t)" using assms(2) unfolding D(8) leaves_plug by auto
  then obtain L R where at: "leaves t = L @ (j, es, nx') # R" by (metis split_list)
  show "nx' < 2 ^ 32"
  proof (cases R)
    case Nil
    then show ?thesis using leaf_facts(2) [OF D(11) at] by simp
  next
    case (Cons l R')
    obtain j' es' nx'' where l: "l = (j', es', nx'')" by (cases l)
    have "j' \<in> set (ids t)" using at Cons l leaf_ids [of j' es' nx'' t] by simp
    then show ?thesis using leaf_facts(2) [OF D(11) at] Cons l S(4) count by auto
  qed
qed

lemma uniform_fits:
  assumes "\<forall>e \<in> set es. key_len e = n"
  shows "leaf_overflow es \<longleftrightarrow> kPageSize < 12 + length es * (10 + n)"
  by (simp add: leaf_overflow_def leaf_payload_uniform [OF assms])

text \<open>
  The attempt to give the last entry to the right sibling either gives up, and nothing has
  changed, or completes the insertion.
\<close>

lemma wp_give_right:
  assumes sib: "sib_site ty n s t ent c i A B nx d p ks X Y" and s0: "same_index s s0"
    and room: "node_room n (length (X @ (i, A @ B, nx) # Y))" and big: "A @ B \<noteq> []"
    and pg: "node_type pg = Leaf" "page_id pg = i" "leaf_entries pg = A @ ent # B" "next_leaf pg = nx"
    "children pg = []"
  shows "wp E (try_give_to_right_leaf pg (node_page p ks (map fst (X @ (i, A @ B, nx) # Y))) (length X))
           (\<lambda>done s'. if done then holds_entries ty s t (grown c A ent B) s' else same_index s s') s0"
proof (cases Y)
  case Nil
  then show ?thesis using s0 by (simp add: try_give_to_right_leaf_def)
next
  case (Cons l Y')
  obtain j es2 nx2 where l: "l = (j, es2, nx2)" by (cases l)
  note D = sibD [OF sib] and S = sib_ids [OF sib]
  let ?ls = "X @ (i, A @ B, nx) # Y" and ?es = "A @ ent # B"
  let ?leaf = "pg\<lparr>leaf_entries := butlast ?es\<rparr>"
  let ?right = "(leaf_page j es2 nx2)\<lparr>leaf_entries := last ?es # es2\<rparr>"
  let ?ls' = "X @ (i, butlast ?es, nx) # (j, last ?es # es2, nx2) # Y'"
  have old: "leaves_in ty n s ?ls" by (rule sib_leaves [OF sib])
  have view: "node_view s j = Some (leaf_page j es2 nx2)" using old Cons l by (simp add: leaves_in_def)
  have child: "children (node_page p ks (map fst ?ls)) ! (length X + 1) = j"
    by (simp add: Cons l nth_append)
  have split: "concat (map leaf_es X) @ ?es @ concat (map leaf_es Y) =
      concat (map leaf_es X) @ butlast ?es @ (last ?es # es2) @ concat (map leaf_es Y')"
    using append_butlast_last_id [of ?es] by (simp add: Cons l)
  show ?thesis
  proof (cases "butlast ?es = [] \<or> leaf_overflow (last ?es # es2) \<or> leaf_overflow (butlast ?es)")
    case True
    then show ?thesis
      unfolding try_give_to_right_leaf_def
      using nodes.wp_rd [of s0 j "leaf_page j es2 nx2"] view s0 pg child Cons
      by (auto simp: same_index_def Let_def)
  next
    case False
    have n_leaf: "\<forall>e \<in> set (butlast ?es). key_len e = n" and n_right: "\<forall>e \<in> set (last ?es # es2). key_len e = n"
    proof -
      have "set ?es \<subseteq> insert ent (set (flat t))" unfolding D(8) flat_plug by auto
      then have all: "\<forall>e \<in> set ?es. key_len e = n" using D(6,7) by auto
      then show "\<forall>e \<in> set (butlast ?es). key_len e = n" by (meson in_set_butlastD)
      have "last ?es \<in> set ?es" by simp
      then show "\<forall>e \<in> set (last ?es # es2). key_len e = n"
        using all old Cons l by (auto simp: leaves_in_def)
    qed
    have part_leaf: "part_of n (butlast ?es) (grown c A ent B)"
      by (rule part_ofI [OF sib, of "concat (map leaf_es X)" _ "(last ?es # es2) @ concat (map leaf_es Y')"])
        (use False split uniform_fits [OF n_leaf] in auto)
    have part_right: "part_of n (last ?es # es2) (grown c A ent B)"
      by (rule part_ofI [OF sib, of "concat (map leaf_es X) @ butlast ?es" _ "concat (map leaf_es Y')"])
        (use False split uniform_fits [OF n_right] in auto)
    have small: "nx < 2 ^ 32" "i < idx_count s" "nx2 < 2 ^ 32" "j < idx_count s"
      using chained_next_small [OF sib, of i "A @ B" nx] chained_next_small [OF sib, of j es2 nx2] Cons l
      by auto
    have rel: "relisted t d ?ls ?ls'"
      using S(1,7) Cons l by (auto simp: relisted_def chained_append)
    have fin: "wp E (bnd (rebuild_internal_keys (node_page p ks (map fst ?ls))) (\<lambda>parent.
          andthen (idx_write_page parent) (ret True)))
        (\<lambda>done s'. if done then holds_entries ty s t (grown c A ent B) s' else same_index s s') s2"
      if s1: "wrote s0' i (leaf_page i (butlast ?es) nx) s1" and s0': "same_index s s0'"
        and s2: "wrote s1 j (leaf_page j (last ?es # es2) nx2) s2" for s0' s1 s2
      unfolding wp_bnd
    proof (rule wp_mono [OF wp_siblings_done [OF sib rel]])
      have v: "node_view s2 = (node_view s)(i \<mapsto> leaf_page i (butlast ?es) nx, j \<mapsto> leaf_page j (last ?es # es2) nx2)"
        using s0' s1 s2 by (simp add: wrote_def same_index_def)
      show "leaves_in ty n s2 ?ls'"
      proof -
        have "leaves_in ty n s X" "leaves_in ty n s Y'"
          using old Cons by (simp_all add: leaves_in_append leaves_in_Cons l)
        moreover have ij: "i \<notin> fst ` set X \<union> fst ` set Y'" "j \<notin> fst ` set X \<union> fst ` set Y'"
          using S(1) Cons l by auto
        have "node_view s2 k = node_view s k" if "k \<in> fst ` set X \<union> fst ` set Y'" for k
          using ij that v by (metis fun_upd_other)
        ultimately have "leaves_in ty n s2 X" "leaves_in ty n s2 Y'"
          by (blast intro: leaves_in_cong [of ty n s])+
        moreover have "i \<noteq> j" using S(1) Cons l by auto
        ultimately show ?thesis
          using part_ok(1,2) [OF sib part_leaf] part_ok(1,2) [OF sib part_right]
          unfolding leaves_in_append leaves_in_Cons by (simp add: v)
      qed
      show "\<forall>j \<in> set (ctx_ids d). node_view s2 j = node_view s j" using S(3) v Cons l by auto
      show "node_room n (length ?ls')" using room Cons by simp
      show "thick n ?ls'" if "thick n ?ls"
        using that by (auto simp: thick_def Cons l)
      show "concat (map leaf_es ?ls') = concat (map leaf_es X) @ ?es @ concat (map leaf_es Y)"
        using split by simp
      show "idx_inv s2" "idx_count s \<le> idx_count s2" "idx_frame s2 = idx_frame s"
        using s0' s1 s2 by (simp_all add: wrote_def same_index_def)
    qed (use s0' s1 s2 in \<open>auto simp: Cons l wrote_def same_index_def\<close>)
    have "wp E (andthen (idx_write_page ?leaf) (andthen (idx_write_page ?right)
        (bnd (rebuild_internal_keys (node_page p ks (map fst ?ls))) (\<lambda>parent.
          andthen (idx_write_page parent) (ret True)))))
        (\<lambda>done s'. if done then holds_entries ty s t (grown c A ent B) s' else same_index s s') s0'"
      if s0': "same_index s s0'" for s0'
      unfolding wp_andthen
    proof (rule wp_write_part [OF sib])
      fix s1
      assume "wrote s0' (page_id ?leaf) (leaf_page (page_id ?leaf) (leaf_entries ?leaf) (next_leaf ?leaf)) s1"
      then have s1: "wrote s0' i (leaf_page i (butlast ?es) nx) s1" using pg by simp
      show "wp E (idx_write_page ?right) (\<lambda>_ s'. wp E (bnd (rebuild_internal_keys (node_page p ks (map fst ?ls)))
          (\<lambda>parent. andthen (idx_write_page parent) (ret True)))
          (\<lambda>done s'. if done then holds_entries ty s t (grown c A ent B) s' else same_index s s') s') s1"
      proof (rule wp_write_part [OF sib])
        fix s2
        assume "wrote s1 (page_id ?right) (leaf_page (page_id ?right) (leaf_entries ?right) (next_leaf ?right)) s2"
        then have "wrote s1 j (leaf_page j (last ?es # es2) nx2) s2" by simp
        then show "wp E (bnd (rebuild_internal_keys (node_page p ks (map fst ?ls)))
            (\<lambda>parent. andthen (idx_write_page parent) (ret True)))
            (\<lambda>done s'. if done then holds_entries ty s t (grown c A ent B) s' else same_index s s') s2"
          by (rule fin [OF s1 s0'])
      qed (use s0' s1 small part_right in \<open>simp_all add: wrote_def same_index_def\<close>)
    qed (use s0' small part_leaf pg in \<open>simp_all add: same_index_def\<close>)
    then show ?thesis
      unfolding try_give_to_right_leaf_def
      using nodes.wp_rd [of s0 j "leaf_page j es2 nx2"] view s0 pg child Cons False
      by (auto simp: same_index_def Let_def)
  qed
qed

text \<open>
  The attempt with the left sibling takes an entry from it, so it always gives up on a leaf
  that is too full already.
\<close>

lemma overflow_Cons: "leaf_overflow es \<Longrightarrow> leaf_overflow (e # es)"
  by (simp add: leaf_overflow_def leaf_payload_bytes_eq)

lemma wp_give_left:
  assumes sib: "sib_site ty n s t ent c i A B nx d p ks X Y" and s0: "same_index s s0"
    and over: "leaf_overflow (leaf_entries pg)"
  shows "wp E (try_give_to_left_leaf pg (node_page p ks (map fst (X @ (i, A @ B, nx) # Y))) (length X))
           (\<lambda>done s'. \<not> done \<and> same_index s s') s0"
proof (cases X rule: rev_cases)
  case Nil
  then show ?thesis using s0 by (simp add: try_give_to_left_leaf_def)
next
  case (snoc X' l)
  obtain j es2 nx2 where l: "l = (j, es2, nx2)" by (cases l)
  have old: "node_view s j = Some (leaf_page j es2 nx2)" "es2 \<noteq> []"
    using sib_leaves [OF sib] snoc l by (auto simp: leaves_in_def leaf_ok_def)
  have child: "children (node_page p ks (map fst (X @ (i, A @ B, nx) # Y))) ! (length X - 1) = j"
    by (simp add: snoc l nth_append)
  show ?thesis
    unfolding try_give_to_left_leaf_def
    using nodes.wp_rd [of s0 j "leaf_page j es2 nx2"] old s0 child overflow_Cons [OF over] snoc
    by (auto simp: same_index_def Let_def)
qed

section \<open>Splitting leaves\<close>

lemma three_parts_facts:
  assumes "three_parts xs = (l, m, r)" and "3 \<le> length xs"
  shows "xs = l @ m @ r" "l \<noteq> []" "m \<noteq> []" "r \<noteq> []"
    "length l \<le> (length xs + 2) div 3" "length m \<le> (length xs + 2) div 3" "length r \<le> (length xs + 2) div 3"
    "length xs div 3 \<le> length l" "length xs div 3 \<le> length m" "length xs div 3 \<le> length r"
proof -
  obtain a b c where abc: "three_way_counts (length xs) = (a, b, c)" by (cases "three_way_counts (length xs)")
  have a: "a = (length xs + 2) div 3" using abc by (auto simp: three_way_counts_def Let_def)
  have sum: "a + b + c = length xs" "c \<le> b" "b \<le> a" "a \<le> c + 1" using three_way_counts_sum [OF abc] by auto
  have lmr: "l = take a xs" "m = take b (drop a xs)" "r = drop (a + b) xs"
    using assms(1) abc by (auto simp: three_parts_def)
  have len: "length l = a" "length m = b" "length r = c" using lmr sum by auto
  have "1 \<le> c" using sum assms(2) by linarith
  then show "l \<noteq> []" "m \<noteq> []" "r \<noteq> []" using len sum by auto
  show "length l \<le> (length xs + 2) div 3" "length m \<le> (length xs + 2) div 3" "length r \<le> (length xs + 2) div 3"
    using len sum a by simp_all
  show "length xs div 3 \<le> length l" "length xs div 3 \<le> length m" "length xs div 3 \<le> length r"
    using len sum by simp_all
  show "xs = l @ m @ r"
    unfolding lmr drop_drop [symmetric] add.commute [of a b]
    by (simp add: append_assoc [symmetric] flip: take_add) (metis add.commute append_take_drop_id take_add)
qed

lemma sort_entries_sorted:
  assumes "\<forall>e \<in> set es. good_entry ty e" and "sorted_wrt (<) (map key_val es)"
  shows "sort_entries es = Inr es"
  using assms
proof (induction es)
  case Nil
  show ?case by simp
next
  case (Cons e es)
  have IH: "sort_entries es = Inr es" using Cons by simp
  show ?case
  proof (cases es)
    case Nil
    then show ?thesis by simp
  next
    case (Cons f fs)
    have "compare_encoded_keys (key f) (key_len f) (key e) (key_len e) = Inr (three_way (key_val f) (key_val e))"
      using Cons.prems(1) Cons by (intro compare_good) auto
    moreover have "\<not> key_val f < key_val e"
      using Cons.prems(2) Cons by (auto dest: less_not_sym)
    ultimately show ?thesis using IH Cons by simp
  qed
qed

text \<open>A leaf page with the next leaf that \<open>ls\<close> says, and a fresh page between two leaves.\<close>

lemma relisted_between:
  assumes ls: "ls = U @ (a, ea, b) # (b, eb, nb) # W" and dist: "distinct (map fst ls)"
    and ids: "fst ` set ls \<subseteq> set (ids t)" and fresh: "m \<notin> set (ids t)" "m \<noteq> 0"
    and chain: "chained ls (first_id (right_leaves d) 0)"
  shows "relisted t d ls (U @ (a, la, m) # (m, lm, b) # (b, lb, nb) # W)"
proof -
  have "m \<notin> fst ` set ls" using ids fresh by blast
  then show ?thesis using dist chain fresh unfolding relisted_def ls by (auto simp: chained_append)
qed

lemma wp_split_pair:
  assumes sib: "sib_site ty n s t ent c i A B nx d p ks X Y" and s0: "same_index s s0"
    and ls: "X @ (i, A @ B, nx) # Y = U @ (a, ea, b) # (b, eb, nb) # W"
    and es: "concat (map leaf_es X) @ (A @ ent # B) @ concat (map leaf_es Y) =
             concat (map leaf_es U) @ (fa @ fb) @ concat (map leaf_es W)"
    and pa: "node_type pa = Leaf" "page_id pa = a" "leaf_entries pa = fa" "children pa = []"
    and pb: "node_type pb = Leaf" "page_id pb = b" "leaf_entries pb = fb" "children pb = []" "next_leaf pb = nb"
    and N: "3 \<le> length (fa @ fb)" "12 + ((length (fa @ fb) + 2) div 3) * (10 + n) \<le> kPageSize"
      "leaf_share n \<le> length (fa @ fb) div 3"
    and room: "node_room n (Suc (length (X @ (i, A @ B, nx) # Y)))" and count: "idx_count s + 1 < 2 ^ 32"
  shows "wp E (split_leaf_pair pa pb (node_page p ks (map fst (X @ (i, A @ B, nx) # Y))) (length U) pp)
           (\<lambda>_ s'. holds_entries ty s t (grown c A ent B) s') s0"
proof -
  note D = sibD [OF sib] and S = sib_ids [OF sib]
  let ?ls = "X @ (i, A @ B, nx) # Y"
  define m where "m = idx_count s"
  have m: "m \<notin> set (ids t)" "m \<noteq> 0" "m < 2 ^ 32"
    using S(4) index_invD(2) [OF D(11)] count by (auto simp: m_def)
  have grown: "grown c A ent B = (left_flat d @ concat (map leaf_es U)) @ (fa @ fb) @ (concat (map leaf_es W) @ right_flat d)"
    using es by (simp add: D(3,4))
  have sorted: "sort_entries (fa @ fb) = Inr (fa @ fb)"
  proof (rule sort_entries_sorted)
    show "sorted_wrt (<) (map key_val (fa @ fb))"
      using site_sorted [OF D(1)] unfolding grown by (rule sorted_part)
    show "\<forall>e \<in> set (fa @ fb). good_entry ty e"
      using site_good [OF D(1)] unfolding grown by auto
  qed
  obtain l mid r where parts: "three_parts (fa @ fb) = (l, mid, r)" by (cases "three_parts (fa @ fb)")
  note T = three_parts_facts [OF parts N(1)]
  have full: "(l = [] \<or> mid = [] \<or> r = []) = False" using T(2-4) by simp
  have bound: "12 + k * (10 + n) \<le> kPageSize" if "k \<le> (length (fa @ fb) + 2) div 3" for k
    using N(2) mult_le_mono1 [OF that, of "10 + n"] by linarith
  have part_l: "part_of n l (grown c A ent B)"
    by (rule part_ofI [OF sib, of "concat (map leaf_es U)" _ "mid @ r @ concat (map leaf_es W)"])
      (use T es bound in auto)
  have part_m: "part_of n mid (grown c A ent B)"
    by (rule part_ofI [OF sib, of "concat (map leaf_es U) @ l" _ "r @ concat (map leaf_es W)"])
      (use T es bound in auto)
  have part_r: "part_of n r (grown c A ent B)"
    by (rule part_ofI [OF sib, of "concat (map leaf_es U) @ l @ mid" _ "concat (map leaf_es W)"])
      (use T es bound in auto)
  have small: "a < m" "b < m" "nb < 2 ^ 32" "b < 2 ^ 32"
    using chained_next_small [OF sib, of a ea b] chained_next_small [OF sib, of b eb nb] count
    by (auto simp: ls m_def)
  let ?ls' = "U @ (a, l, m) # (m, mid, b) # (b, r, nb) # W"
  have rel: "relisted t d ?ls ?ls'"
    by (rule relisted_between [OF ls S(1) _ m(1,2) S(7)]) (use S(6) in simp)
  let ?left = "pa\<lparr>leaf_entries := l, next_leaf := m\<rparr>" and ?right = "pb\<lparr>leaf_entries := r\<rparr>"
  let ?mid = "(blank_page m Leaf)\<lparr>leaf_entries := mid, next_leaf := b\<rparr>"
  let ?parent = "(node_page p ks (map fst ?ls))\<lparr>children := insert_at (length U + 1) m (map fst ?ls)\<rparr>"
  let ?Q = "\<lambda>_. holds_entries ty s t (grown c A ent B)"
  have fin: "wp E (bnd (rebuild_internal_keys ?parent) (\<lambda>parent.
      if \<not> inner_overflow (inner_keys parent) (children parent) then idx_write_page parent
      else split_internal parent pp)) ?Q s4"
    if s4: "idx_inv s4" "idx_count s4 = m + 1" "idx_frame s4 = idx_frame s"
      and v: "node_view s4 = (node_view s)(a \<mapsto> leaf_page a l m, m \<mapsto> leaf_page m mid b, b \<mapsto> leaf_page b r nb)" for s4
    unfolding wp_bnd
  proof (rule wp_mono [OF wp_siblings_done [OF sib rel]])
    show "leaves_in ty n s4 ?ls'"
    proof -
      have "leaves_in ty n s U" "leaves_in ty n s W"
        using sib_leaves [OF sib] by (simp_all add: ls leaves_in_append leaves_in_Cons)
      moreover have out: "a \<notin> fst ` set U \<union> fst ` set W" "b \<notin> fst ` set U \<union> fst ` set W" "a \<noteq> b"
        using S(1) by (auto simp: ls)
      moreover have "m \<notin> fst ` set U \<union> fst ` set W" using S(6) m(1) by (auto simp: ls)
      ultimately have "node_view s4 k = node_view s k" if "k \<in> fst ` set U \<union> fst ` set W" for k
        using that v by (metis fun_upd_other)
      then have "leaves_in ty n s4 U" "leaves_in ty n s4 W"
        using \<open>leaves_in ty n s U\<close> \<open>leaves_in ty n s W\<close> by (blast intro: leaves_in_cong [of ty n s])+
      then show ?thesis
        using part_ok(1,2) [OF sib part_l] part_ok(1,2) [OF sib part_m] part_ok(1,2) [OF sib part_r] out small
        unfolding leaves_in_append leaves_in_Cons by (simp add: v)
    qed
    show "\<forall>j \<in> set (ctx_ids d). node_view s4 j = node_view s j"
    proof
      fix j assume j: "j \<in> set (ctx_ids d)"
      then have "j \<in> set (ids t)" unfolding D(8) set_ids_plug by simp
      then have "j \<noteq> m" using m(1) by auto
      moreover have "j \<noteq> a" "j \<noteq> b" using j S(3) by (auto simp: ls)
      ultimately show "node_view s4 j = node_view s j" by (simp add: v)
    qed
    show "node_room n (length ?ls')" using room by (simp add: ls)
    show "thick n ?ls'" if "thick n ?ls"
      using that T(8-10) N(3) unfolding ls by (auto simp: thick_def)
    show "concat (map leaf_es ?ls') = concat (map leaf_es X) @ (A @ ent # B) @ concat (map leaf_es Y)"
      unfolding es T(1) by simp
    show "children ?parent = map fst ?ls'" by (simp add: ls insert_at_def)
  qed (use s4 arg_cong [OF ls, of length] in \<open>auto simp: m_def\<close>)
  have "wp E (bnd allocate_node_page (\<lambda>i. andthen (throw_if (l = [] \<or> mid = [] \<or> r = [])
        (Logic_error ''Leaf pair split produced empty node''))
      (andthen (idx_write_page (pa\<lparr>leaf_entries := l, next_leaf := i\<rparr>))
        (andthen (idx_write_page ((blank_page i Leaf)\<lparr>leaf_entries := mid, next_leaf := page_id pb\<rparr>))
          (andthen (idx_write_page ?right)
            (bnd (rebuild_internal_keys ((node_page p ks (map fst ?ls))\<lparr>children :=
                insert_at (length U + 1) i (map fst ?ls)\<rparr>)) (\<lambda>parent.
              if \<not> inner_overflow (inner_keys parent) (children parent) then idx_write_page parent
              else split_internal parent pp))))))) ?Q s0"
    unfolding wp_bnd [of _ allocate_node_page]
  proof (rule nodes.wp_alloc)
    show "idx_inv s0" "0 < idx_count s0" "idx_count s0 + 1 < 2 ^ 32"
      using s0 count index_invD(2) [OF D(11)] by (simp_all add: same_index_def)
    fix s1
    assume "idx_inv s1" "node_view s1 = node_view s0" "idx_count s1 = idx_count s0 + 1" "idx_frame s1 = idx_frame s0"
    then have s1: "idx_inv s1" "node_view s1 = node_view s" "idx_count s1 = m + 1" "idx_frame s1 = idx_frame s"
      and m0: "idx_count s0 = m"
      using s0 by (simp_all add: same_index_def m_def)
    show "wp E (andthen (throw_if (l = [] \<or> mid = [] \<or> r = [])
        (Logic_error ''Leaf pair split produced empty node''))
      (andthen (idx_write_page (pa\<lparr>leaf_entries := l, next_leaf := idx_count s0\<rparr>))
        (andthen (idx_write_page ((blank_page (idx_count s0) Leaf)\<lparr>leaf_entries := mid, next_leaf := page_id pb\<rparr>))
          (andthen (idx_write_page ?right)
            (bnd (rebuild_internal_keys ((node_page p ks (map fst ?ls))\<lparr>children :=
                insert_at (length U + 1) (idx_count s0) (map fst ?ls)\<rparr>)) (\<lambda>parent.
              if \<not> inner_overflow (inner_keys parent) (children parent) then idx_write_page parent
              else split_internal parent pp)))))) ?Q s1"
      unfolding m0 pb(2) wp_andthen wp_throw_if full if_False
    proof (rule wp_write_part [OF sib])
      fix s2
      assume "wrote s1 (page_id ?left) (leaf_page (page_id ?left) (leaf_entries ?left) (next_leaf ?left)) s2"
      then have s2: "wrote s1 a (leaf_page a l m) s2" using pa by simp
      show "wp E (idx_write_page ?mid) (\<lambda>_ s'. wp E (idx_write_page ?right) (\<lambda>_ s'.
          wp E (bnd (rebuild_internal_keys ?parent) (\<lambda>parent.
            if \<not> inner_overflow (inner_keys parent) (children parent) then idx_write_page parent
            else split_internal parent pp)) ?Q s') s') s2"
      proof (rule wp_write_part [OF sib])
        fix s3
        assume "wrote s2 (page_id ?mid) (leaf_page (page_id ?mid) (leaf_entries ?mid) (next_leaf ?mid)) s3"
        then have s3: "wrote s2 m (leaf_page m mid b) s3" by (simp add: blank_page_def)
        show "wp E (idx_write_page ?right) (\<lambda>_ s'.
          wp E (bnd (rebuild_internal_keys ?parent) (\<lambda>parent.
            if \<not> inner_overflow (inner_keys parent) (children parent) then idx_write_page parent
            else split_internal parent pp)) ?Q s') s3"
        proof (rule wp_write_part [OF sib])
          fix s4
          assume "wrote s3 (page_id ?right) (leaf_page (page_id ?right) (leaf_entries ?right) (next_leaf ?right)) s4"
          then have s4: "wrote s3 b (leaf_page b r nb) s4" using pb by simp
          show "wp E (bnd (rebuild_internal_keys ?parent) (\<lambda>parent.
            if \<not> inner_overflow (inner_keys parent) (children parent) then idx_write_page parent
            else split_internal parent pp)) ?Q s4"
            by (rule fin) (use s1 s2 s3 s4 in \<open>simp_all add: wrote_def\<close>)
        qed (use s1 s2 s3 pb small part_r in \<open>simp_all add: wrote_def\<close>)
      qed (use s1 s2 small part_m in \<open>simp_all add: wrote_def blank_page_def\<close>)
    qed (use s1 pa small part_l m in simp_all)
  qed
  then show ?thesis
    unfolding split_leaf_pair_def pa(3) pb(3) sorted wp_bnd [of _ "of_sum _"] wp_of_sum parts prod.case page_sel .
qed

text \<open>A leaf without siblings is cut in the middle; the right half goes to a new page.\<close>

lemma halves_fit:
  fixes es :: "LeafEntry list"
  assumes "2 \<le> length es" and "12 + ((length es + 1) div 2) * (10 + n) \<le> kPageSize"
  defines "h \<equiv> length es div 2"
  shows "take h es \<noteq> []" "drop h es \<noteq> []" "12 + length (take h es) * (10 + n) \<le> kPageSize"
    "12 + length (drop h es) * (10 + n) \<le> kPageSize"
    "length es div 3 \<le> length (take h es)" "length es div 3 \<le> length (drop h es)"
proof -
  show "length es div 3 \<le> length (take h es)" "length es div 3 \<le> length (drop h es)" by (auto simp: h_def)
  show "take h es \<noteq> []" "drop h es \<noteq> []" using assms(1) by (auto simp: h_def)
  have "length (take h es) \<le> (length es + 1) div 2" "length (drop h es) \<le> (length es + 1) div 2"
    by (auto simp: h_def)
  then show "12 + length (take h es) * (10 + n) \<le> kPageSize" "12 + length (drop h es) * (10 + n) \<le> kPageSize"
    using assms(2) mult_le_mono1 by (meson add_le_cancel_left order_trans)+
qed

lemma wp_split_alone_parent:
  assumes sib: "sib_site ty n s t ent c i A B nx d p ks [] []" and s0: "same_index s s0"
    and pg: "node_type pg = Leaf" "page_id pg = i" "leaf_entries pg = A @ ent # B" "next_leaf pg = nx"
      "children pg = []"
    and fid: "map fid c = map fid d @ [p]"
    and N: "2 \<le> length (A @ ent # B)" "12 + ((length (A @ ent # B) + 1) div 2) * (10 + n) \<le> kPageSize"
      "leaf_share n \<le> length (A @ ent # B) div 3"
    and room: "node_room n 2" and count: "idx_count s + 1 < 2 ^ 32"
  shows "wp E (split_leaf_alone pg (map fid c @ [i])) (\<lambda>_ s'. holds_entries ty s t (grown c A ent B) s') s0"
proof -
  note D = sibD [OF sib] and S = sib_ids [OF sib]
  let ?es = "A @ ent # B"
  let ?h = "length ?es div 2"
  define L where "L = take ?h ?es"
  define R where "R = drop ?h ?es"
  note H = halves_fit [OF N(1,2), folded L_def R_def]
  have LR: "?es = L @ R" unfolding L_def R_def by (simp only: append_take_drop_id)
  define m where "m = idx_count s"
  have m: "m \<notin> set (ids t)" "m \<noteq> 0" "m < 2 ^ 32"
    using S(4) index_invD(2) [OF D(11)] count by (auto simp: m_def)
  have small: "nx < 2 ^ 32" "i < m" using chained_next_small [OF sib, of i "A @ B" nx] by (auto simp: m_def)
  have cat: "concat (map leaf_es []) @ ?es @ concat (map leaf_es []) = [] @ L @ R"
    "concat (map leaf_es []) @ ?es @ concat (map leaf_es []) = L @ R @ []" unfolding LR by simp_all
  have part_L: "part_of n L (grown c A ent B)" by (rule part_ofI [OF sib cat(1) H(1,3)])
  have part_R: "part_of n R (grown c A ent B)" by (rule part_ofI [OF sib cat(2) H(2,4)])
  let ?left = "pg\<lparr>leaf_entries := L, next_leaf := m\<rparr>"
  let ?right = "(blank_page m Leaf)\<lparr>leaf_entries := R, next_leaf := nx\<rparr>"
  let ?ls' = "[(i, L, m), (m, R, nx)]"
  let ?Q = "\<lambda>_. holds_entries ty s t (grown c A ent B)"
  have len: "length (map fid c @ [i]) \<noteq> 1" "(map fid c @ [i]) ! (length (map fid c @ [i]) - 2) = p"
    "map fid c @ [i] \<noteq> []" "last (map fid c @ [i]) = i"
    using fid by (simp_all add: nth_append)
  have rel: "relisted t d ([] @ (i, A @ B, nx) # []) ?ls'"
    using S(6,7) m by (auto simp: relisted_def)
  have parent_view: "node_view s p = Some (node_page p ks [i])"
    using index_invD(3) [OF D(11)] unfolding D(8) rep_plug by simp
  have fin: "wp E (bnd (idx_read_page p) (\<lambda>parent.
       if node_type parent = Leaf then throw (Logic_error ''Leaf cannot be parent'')
       else bnd (child_position ''Parent missing child'' parent i) (\<lambda>cp.
         bnd (rebuild_internal_keys (parent\<lparr>inner_keys := insert_at cp (hd R) (inner_keys parent),
                                            children := insert_at (cp + 1) m (children parent)\<rparr>)) (\<lambda>parent.
         if \<not> inner_overflow (inner_keys parent) (children parent) then idx_write_page parent
         else split_internal parent pp)))) ?Q s3"
    if s3: "idx_inv s3" "idx_count s3 = m + 1" "idx_frame s3 = idx_frame s"
      and v: "node_view s3 = (node_view s)(i \<mapsto> leaf_page i L m, m \<mapsto> leaf_page m R nx)" for s3 pp
    unfolding wp_bnd [of _ "idx_read_page p"]
  proof (rule wp_read_node [OF s3(1)])
    have pim: "p \<noteq> i" "p \<noteq> m" using S(2,6) m(1) by auto
    then show "node_view s3 p = Some (node_page p ks [i])" using parent_view v by simp
    fix s4
    assume s4: "idx_inv s4" "node_view s4 = node_view s3" "idx_count s4 = idx_count s3" "idx_frame s4 = idx_frame s3"
    let ?pg = "(node_page p ks [i])\<lparr>inner_keys := insert_at 0 (hd R) ks, children := [i, m]\<rparr>"
    have "wp E (bnd (rebuild_internal_keys ?pg) (\<lambda>parent.
        if \<not> inner_overflow (inner_keys parent) (children parent) then idx_write_page parent
        else split_internal parent pp)) ?Q s4"
      unfolding wp_bnd
    proof (rule wp_mono [OF wp_siblings_done [OF sib rel]])
      have "i \<noteq> m" using small by simp
      then show "leaves_in ty n s4 ?ls'"
        using part_ok(1,2) [OF sib part_L] part_ok(1,2) [OF sib part_R]
        unfolding leaves_in_Cons s4(2) v by (simp add: leaves_in_def)
      show "\<forall>j \<in> set (ctx_ids d). node_view s4 j = node_view s j"
      proof
        fix j assume j: "j \<in> set (ctx_ids d)"
        then have "j \<in> set (ids t)" unfolding D(8) set_ids_plug by simp
        then have "j \<noteq> m" using m(1) by auto
        moreover have "j \<noteq> i" using j S(3) by auto
        ultimately show "node_view s4 j = node_view s j" by (simp add: v s4(2))
      qed
      show "node_room n (length ?ls')" using room by (simp add: numeral_2_eq_2)
      show "thick n ?ls'" using N(3) H(5,6) by (auto simp: thick_def)
      show "concat (map leaf_es ?ls') = concat (map leaf_es []) @ ?es @ concat (map leaf_es [])"
        unfolding LR by simp
    qed (use s3 s4 in \<open>auto simp: m_def\<close>)
    then show "wp E (if node_type (node_page p ks [i]) = Leaf then throw (Logic_error ''Leaf cannot be parent'')
       else bnd (child_position ''Parent missing child'' (node_page p ks [i]) i) (\<lambda>cp.
         bnd (rebuild_internal_keys ((node_page p ks [i])\<lparr>inner_keys := insert_at cp (hd R) (inner_keys (node_page p ks [i])),
             children := insert_at (cp + 1) m (children (node_page p ks [i]))\<rparr>)) (\<lambda>parent.
         if \<not> inner_overflow (inner_keys parent) (children parent) then idx_write_page parent
         else split_internal parent pp))) ?Q s4"
      by (simp add: child_position_def insert_at_def)
  qed
  have "wp E (insert_into_parent ?left (hd R) ?right (map fid c @ [i])) ?Q s1"
    if s1: "idx_inv s1" "node_view s1 = node_view s" "idx_count s1 = m + 1" "idx_frame s1 = idx_frame s" for s1
  proof -
    have "wp E (andthen (idx_write_page ?left) (andthen (idx_write_page ?right)
        (bnd (idx_read_page p) (\<lambda>parent.
       if node_type parent = Leaf then throw (Logic_error ''Leaf cannot be parent'')
       else bnd (child_position ''Parent missing child'' parent i) (\<lambda>cp.
         bnd (rebuild_internal_keys (parent\<lparr>inner_keys := insert_at cp (hd R) (inner_keys parent),
                                            children := insert_at (cp + 1) m (children parent)\<rparr>)) (\<lambda>parent.
         if \<not> inner_overflow (inner_keys parent) (children parent) then idx_write_page parent
         else split_internal parent (butlast (map fid c @ [i])))))))) ?Q s1"
      unfolding wp_andthen
    proof (rule wp_write_part [OF sib])
      fix s2
      assume "wrote s1 (page_id ?left) (leaf_page (page_id ?left) (leaf_entries ?left) (next_leaf ?left)) s2"
      then have s2: "wrote s1 i (leaf_page i L m) s2" using pg by simp
      show "wp E (idx_write_page ?right) (\<lambda>_ s'. wp E (bnd (idx_read_page p) (\<lambda>parent.
       if node_type parent = Leaf then throw (Logic_error ''Leaf cannot be parent'')
       else bnd (child_position ''Parent missing child'' parent i) (\<lambda>cp.
         bnd (rebuild_internal_keys (parent\<lparr>inner_keys := insert_at cp (hd R) (inner_keys parent),
                                            children := insert_at (cp + 1) m (children parent)\<rparr>)) (\<lambda>parent.
         if \<not> inner_overflow (inner_keys parent) (children parent) then idx_write_page parent
         else split_internal parent (butlast (map fid c @ [i])))))) ?Q s') s2"
      proof (rule wp_write_part [OF sib])
        fix s3
        assume "wrote s2 (page_id ?right) (leaf_page (page_id ?right) (leaf_entries ?right) (next_leaf ?right)) s3"
        then have s3: "wrote s2 m (leaf_page m R nx) s3" by (simp add: blank_page_def)
        show "wp E (bnd (idx_read_page p) (\<lambda>parent.
           if node_type parent = Leaf then throw (Logic_error ''Leaf cannot be parent'')
           else bnd (child_position ''Parent missing child'' parent i) (\<lambda>cp.
             bnd (rebuild_internal_keys (parent\<lparr>inner_keys := insert_at cp (hd R) (inner_keys parent),
                                                children := insert_at (cp + 1) m (children parent)\<rparr>)) (\<lambda>parent.
             if \<not> inner_overflow (inner_keys parent) (children parent) then idx_write_page parent
             else split_internal parent (butlast (map fid c @ [i])))))) ?Q s3"
          by (rule fin) (use s1 s2 s3 in \<open>simp_all add: wrote_def\<close>)
      qed (use s1 s2 small part_R in \<open>simp_all add: wrote_def blank_page_def\<close>)
    qed (use s1 pg small part_L m in simp_all)
    moreover have pid: "page_id ?left = i" "page_id ?right = m" using pg(2) by (simp_all add: blank_page_def)
    moreover have guard: "(map fid c @ [i] = [] \<or> last (map fid c @ [i]) \<noteq> i) = False"
      "(length (map fid c @ [i]) = 1) = False" using len by simp_all
    ultimately show ?thesis
      unfolding insert_into_parent.simps [of ?left] pid guard if_False len(2) by simp
  qed
  then show ?thesis
    unfolding split_leaf_alone_def wp_bnd pg(3) Let_def L_def [symmetric] R_def [symmetric]
    by (intro nodes.wp_alloc)
      (use s0 count index_invD(2) [OF D(11)] H(2) pg in \<open>auto simp: same_index_def m_def Let_def\<close>)
qed

text \<open>The root leaf: both halves get a new root above them.\<close>

lemma wp_split_alone_root:
  assumes site: "insert_site ty s t ent [] i A B nx" and s0: "same_index s s0"
    and pg: "node_type pg = Leaf" "page_id pg = i" "leaf_entries pg = A @ ent # B" "next_leaf pg = nx"
      "children pg = []"
    and n: "\<forall>e \<in> set (A @ ent # B). key_len e = n"
    and N: "2 \<le> length (A @ ent # B)" "12 + ((length (A @ ent # B) + 1) div 2) * (10 + n) \<le> kPageSize"
      "leaf_share n \<le> length (A @ ent # B) div 3"
    and count: "idx_count s + 2 < 2 ^ 32"
  shows "wp E (split_leaf_alone pg [i]) (\<lambda>_ s'. holds_entries ty s t (A @ ent # B) s') s0"
proof -
  note D = siteD [OF site]
  note I = index_invD [OF D(1)]
  let ?es = "A @ ent # B"
  let ?h = "length ?es div 2"
  define L where "L = take ?h ?es"
  define R where "R = drop ?h ?es"
  note H = halves_fit [OF N(1,2), folded L_def R_def]
  have LR: "?es = L @ R" unfolding L_def R_def by (simp only: append_take_drop_id)
  have t: "t = BLeaf i (A @ B) nx" using D(2) by simp
  have "leaves t = [] @ (i, A @ B, nx) # []" by (simp add: t)
  note F = leaf_facts [OF D(1) this]
  have nx: "nx = 0" using F(2) by simp
  have good: "\<forall>e \<in> set ?es. good_entry ty e" using site_good [OF site] by simp
  have sorted: "sorted_wrt (<) (map key_val ?es)" using site_sorted [OF site] by simp
  have sorted_LR: "sorted_wrt (<) (map key_val L)" "sorted_wrt (<) (map key_val R)"
    using sorted unfolding LR by (simp_all only: map_append sorted_wrt_append)
  have good_LR: "\<forall>e \<in> set L. good_entry ty e" "\<forall>e \<in> set R. good_entry ty e"
    using good unfolding LR by auto
  have fits: "\<not> leaf_overflow L" "\<not> leaf_overflow R"
    using H(3,4) n uniform_fits [of L n] uniform_fits [of R n] unfolding LR by auto
  define m where "m = idx_count s"
  have i: "i < m" "i \<noteq> 0" using nodes.view_bound [OF I(1) F(1)] F(8) by (simp_all add: m_def)
  let ?left = "pg\<lparr>leaf_entries := L, next_leaf := m\<rparr>"
  let ?right = "(blank_page m Leaf)\<lparr>leaf_entries := R, next_leaf := nx\<rparr>"
  let ?root = "BNode (m + 1) [strip (hd R)] [BLeaf i L m, BLeaf m R 0]"
  let ?Q = "\<lambda>_. holds_entries ty s t (A @ ent # B)"
  have hdR: "good_entry ty (hd R)" "key_len (hd R) = n"
    using good_LR(2) H(2) n unfolding LR by (auto simp: hd_in_set)
  have small_n: "n \<le> 512" using hdR by (simp add: good_entry_def kMaxIndexKeyBytes_def)
  have over: "\<not> inner_overflow [hd R] [i, m]" "\<not> inner_overflow [strip (hd R)] [i, m]"
    using hdR(2) small_n by (simp_all add: inner_overflow_def inner_payload_bytes_def kPageSize_def)
  have root: "holds_entries ty s t (A @ ent # B) (s4\<lparr>root_page := m + 1\<rparr>)"
    if s4: "idx_inv s4" "idx_count s4 = m + 2" "idx_frame s4 = idx_frame s"
      and v: "node_view s4 = (node_view s)(i \<mapsto> leaf_page i L m, m \<mapsto> leaf_page m R 0,
                m + 1 \<mapsto> node_page (m + 1) [strip (hd R)] [i, m])" for s4
  proof -
    have keys: "\<forall>v \<in> set (map key_val L). v < key_val (hd R)" "\<forall>v \<in> set (map key_val R). key_val (hd R) \<le> v"
    proof -
      have "R = hd R # tl R" using H(2) by simp
      then have "sorted_wrt (<) (map key_val (L @ hd R # tl R))" using sorted unfolding LR by metis
      then show "\<forall>v \<in> set (map key_val L). v < key_val (hd R)" "\<forall>v \<in> set (map key_val R). key_val (hd R) \<le> v"
        by (auto simp: sorted_wrt_append) (metis \<open>R = hd R # tl R\<close> less_imp_le order_refl set_ConsD)
    qed
    have "tree_ok ty ?root"
      using H good_LR fits hdR over i keys sorted unfolding LR
      by (auto simp: tree_ok_def leaf_ok_def inner_ok_def good_entry_strip vals_def) (simp add: strip_def)
    moreover have "rep (node_view s4) ?root" using v i by simp
    moreover have "grows s t (s4\<lparr>root_page := m + 1\<rparr>) ?root"
    proof (rule growsI)
      have len: "length ?es = length L + length R" by (simp only: LR length_append)
      then show "length (flat ?root) \<le> length (flat t) + 1" by (simp add: t)
      show "flat_enough k ?root \<and> (thick_tree k t \<longrightarrow> thick_tree k ?root)"
        if "\<forall>e \<in> set (flat ?root). key_len e = k" for k
      proof -
        have "hd R \<in> set R" using H(2) by simp
        then have "key_len (hd R) = k" using that by simp
        then show ?thesis using hdR(2) N(3) H(2,5,6) by (auto simp: thick_def)
      qed
    qed (use s4(2) in \<open>auto simp: t m_def\<close>)
    ultimately show ?thesis
      unfolding holds_entries_def holds_tree_def using s4 I(6,7) t LR
      by (intro exI [of _ ?root]) (auto simp: idx_frame_def idx_inv_def node_view_def [abs_def])
  qed
  have new_root: "wp E (new_root_over i (hd R) m) ?Q s3"
    if s3: "idx_inv s3" "idx_count s3 = m + 1" "idx_frame s3 = idx_frame s"
      and v: "node_view s3 = (node_view s)(i \<mapsto> leaf_page i L m, m \<mapsto> leaf_page m R 0)" for s3
    unfolding new_root_over_def wp_bnd
  proof (rule nodes.wp_alloc [OF s3(1)])
    fix s4
    assume s4: "idx_inv s4" "node_view s4 = node_view s3" "idx_count s4 = idx_count s3 + 1" "idx_frame s4 = idx_frame s3"
    let ?pg = "(blank_page (idx_count s3) Inner)\<lparr>children := [i, m], inner_keys := [hd R], key_count := 1\<rparr>"
    show "wp E (andthen (idx_write_page ?pg) (modify (\<lambda>s. s\<lparr>root_page := idx_count s3\<rparr>))) ?Q s4"
      unfolding wp_andthen
    proof (rule wp_write_inner [where ty = ty, OF s4(1)])
      show "\<forall>c \<in> set (children ?pg). c < 2 ^ 32" using i count by (simp add: m_def)
      fix s5
      assume "wrote s4 (page_id ?pg) (node_page (page_id ?pg) (map strip (inner_keys ?pg)) (children ?pg)) s5"
      then show "wp E (modify (\<lambda>s. s\<lparr>root_page := idx_count s3\<rparr>)) ?Q s5"
        using root [of s5] s3 s4 v by (simp add: wrote_def blank_page_def)
    qed (use hdR over s3 s4 in \<open>simp_all add: blank_page_def\<close>)
  qed (use s3 count in \<open>simp_all add: m_def\<close>)
  have "wp E (insert_into_parent ?left (hd R) ?right [i]) ?Q s1"
    if s1: "idx_inv s1" "node_view s1 = node_view s" "idx_count s1 = m + 1" "idx_frame s1 = idx_frame s" for s1
  proof -
    have "wp E (andthen (idx_write_page ?left) (andthen (idx_write_page ?right) (new_root_over i (hd R) m))) ?Q s1"
      unfolding wp_andthen
    proof (rule wp_write_leaf [where ty = ty, OF s1(1)])
      fix s2
      assume "wrote s1 (page_id ?left) (leaf_page (page_id ?left) (leaf_entries ?left) (next_leaf ?left)) s2"
      then have s2: "wrote s1 i (leaf_page i L m) s2" using pg by simp
      show "wp E (idx_write_page ?right) (\<lambda>_ s'. wp E (new_root_over i (hd R) m) ?Q s') s2"
      proof (rule wp_write_leaf [where ty = ty])
        fix s3
        assume "wrote s2 (page_id ?right) (leaf_page (page_id ?right) (leaf_entries ?right) (next_leaf ?right)) s3"
        then show "wp E (new_root_over i (hd R) m) ?Q s3"
          using s1 s2 nx by (intro new_root) (simp_all add: wrote_def blank_page_def)
      qed (use s1 s2 good_LR sorted_LR fits nx in \<open>simp_all add: wrote_def blank_page_def\<close>)
    qed (use s1 pg i good_LR sorted_LR fits count in \<open>simp_all add: m_def\<close>)
    moreover have pid: "page_id ?left = i" "page_id ?right = m" using pg(2) by (simp_all add: blank_page_def)
    ultimately show ?thesis
      unfolding insert_into_parent.simps [of ?left] pid by simp
  qed
  then show ?thesis
    unfolding split_leaf_alone_def wp_bnd pg(3) Let_def L_def [symmetric] R_def [symmetric]
    by (intro nodes.wp_alloc)
      (use s0 count I(2) H(2) pg in \<open>auto simp: same_index_def m_def Let_def\<close>)
qed

end
