(* ===== verification/KeyIndex.thy ===== *)
theory KeyIndex
  imports ValueIO
begin

text \<open>
  The interface of an ordered index of unique keys, as a table uses it: looking a key up,
  adding a new one, and scanning a range. The state stands for a sorted list of keys with
  record ids; \<open>room\<close> says that a key can be added without running into the limits of the
  provider, and looking up or scanning does not change that.
\<close>

section \<open>Sorted contents\<close>

text \<open>The contents with one more key in its place.\<close>

definition with_key :: "Value \<Rightarrow> nat \<Rightarrow> (Value \<times> nat) list \<Rightarrow> (Value \<times> nat) list" where
  "with_key k r kvs = takeWhile (\<lambda>(v, _). v < k) kvs @ (k, r) # dropWhile (\<lambda>(v, _). v < k) kvs"

lemma with_key_middle:
  assumes "\<forall>(v, _) \<in> set P. v < k" and "\<forall>(v, _) \<in> set S. \<not> v < k"
  shows "with_key k r (P @ S) = P @ (k, r) # S"
proof -
  have "takeWhile (\<lambda>(v, _). v < k) S = [] \<and> dropWhile (\<lambda>(v, _). v < k) S = S"
    using assms(2) by (cases S) auto
  moreover have "takeWhile (\<lambda>(v, _). v < k) (P @ S) = P @ takeWhile (\<lambda>(v, _). v < k) S"
    "dropWhile (\<lambda>(v, _). v < k) (P @ S) = dropWhile (\<lambda>(v, _). v < k) S"
    using assms(1) by (auto intro!: takeWhile_append2 dropWhile_append2)
  ultimately show ?thesis by (simp add: with_key_def)
qed

definition in_range :: "Value option \<Rightarrow> bool \<Rightarrow> Value option \<Rightarrow> bool \<Rightarrow> Value \<Rightarrow> bool" where
  "in_range lo lo_inclusive hi hi_inclusive v \<longleftrightarrow>
     (case lo of None \<Rightarrow> True | Some l \<Rightarrow> if lo_inclusive then l \<le> v else l < v) \<and>
     (case hi of None \<Rightarrow> True | Some h \<Rightarrow> if hi_inclusive then v \<le> h else v < h)"

lemma set_with_key: "set (with_key k r kvs) = insert (k, r) (set kvs)"
proof -
  have "set kvs = set (takeWhile (\<lambda>(v, _). v < k) kvs) \<union> set (dropWhile (\<lambda>(v, _). v < k) kvs)"
    by (metis set_append takeWhile_dropWhile_id)
  then show ?thesis by (auto simp: with_key_def)
qed

lemma length_with_key [simp]: "length (with_key k r kvs) = Suc (length kvs)"
  by (simp add: with_key_def) (metis length_append takeWhile_dropWhile_id)

section \<open>The interface\<close>

locale key_index =
  fixes lookup :: "Value \<Rightarrow> ('s, nat option) op"
    and add :: "Value \<Rightarrow> nat \<Rightarrow> ('s, unit) op"
    and scan :: "Value option \<Rightarrow> bool \<Rightarrow> Value option \<Rightarrow> bool \<Rightarrow> ('s, nat list) op"
    and holds :: "DataType \<Rightarrow> 's \<Rightarrow> (Value \<times> nat) list \<Rightarrow> bool"
    and room :: "DataType \<Rightarrow> 's \<Rightarrow> Value \<Rightarrow> bool"
  assumes distinct_keys: "holds ty s kvs \<Longrightarrow> distinct (map fst kvs)"
    and lookup_law: "holds ty s kvs \<Longrightarrow> typed ty k \<Longrightarrow>
      \<exists>s'. lookup k s = (Inr (map_of kvs k), s') \<and> holds ty s' kvs \<and> (\<forall>x. room ty s x \<longrightarrow> room ty s' x)"
    and scan_law: "holds ty s kvs \<Longrightarrow> (\<And>l. lo = Some l \<Longrightarrow> typed ty l) \<Longrightarrow> (\<And>h. hi = Some h \<Longrightarrow> typed ty h) \<Longrightarrow>
      \<exists>s'. scan lo li hi hj s = (Inr (map snd (filter (\<lambda>(v, _). in_range lo li hi hj v) kvs)), s') \<and>
           holds ty s' kvs \<and> (\<forall>x. room ty s x \<longrightarrow> room ty s' x)"
    and add_law: "holds ty s kvs \<Longrightarrow> typed ty k \<Longrightarrow> room ty s k \<Longrightarrow> r < 2 ^ 64 \<Longrightarrow> k \<notin> fst ` set kvs \<Longrightarrow>
      \<exists>s'. add k r s = (Inr (), s') \<and> holds ty s' (with_key k r kvs)"
    and add_twice_law: "holds ty s kvs \<Longrightarrow> typed ty k \<Longrightarrow> room ty s k \<Longrightarrow> r < 2 ^ 64 \<Longrightarrow> k \<in> fst ` set kvs \<Longrightarrow>
      \<exists>s'. add k r s = (Inl (Runtime_error ''Duplicate index key''), s') \<and> holds ty s' kvs"
begin

lemma map_of_with_key:
  "distinct (map fst (with_key k r kvs)) \<Longrightarrow> map_of (with_key k r kvs) k = Some r"
  by (simp add: set_with_key)

text \<open>What was added is found again, and every other key as before.\<close>

lemma lookup_after_add:
  assumes h: "holds ty s kvs" "typed ty k" "room ty s k" "r < 2 ^ 64" "k \<notin> fst ` set kvs" and j: "typed ty j"
  shows "\<exists>s'. andthen (add k r) (lookup j) s = (Inr (if j = k then Some r else map_of kvs j), s')"
proof -
  obtain s1 where s1: "add k r s = (Inr (), s1)" "holds ty s1 (with_key k r kvs)"
    using add_law [OF h] by blast
  obtain s2 where s2: "lookup j s1 = (Inr (map_of (with_key k r kvs) j), s2)"
    using lookup_law [OF s1(2) j] by blast
  have d: "distinct (map fst (with_key k r kvs))" "distinct (map fst kvs)"
    using distinct_keys [OF s1(2)] distinct_keys [OF h(1)] .
  have "map_of (with_key k r kvs) j = (if j = k then Some r else map_of kvs j)"
  proof (cases "j = k")
    case False
    have "map_of (with_key k r kvs) j = Some x \<longleftrightarrow> map_of kvs j = Some x" for x
      using d False by (simp add: set_with_key)
    then show ?thesis using False by (metis option.exhaust)
  qed (use map_of_with_key [OF d(1)] in simp)
  then show ?thesis using s1(1) s2 by (simp add: andthen_def bnd_def)
qed

end

section \<open>Removing keys\<close>

text \<open>The contents without a key.\<close>

definition without_key :: "Value \<Rightarrow> (Value \<times> nat) list \<Rightarrow> (Value \<times> nat) list" where
  "without_key k kvs = filter (\<lambda>(v, _). v \<noteq> k) kvs"

lemma set_without_key: "set (without_key k kvs) = {x \<in> set kvs. fst x \<noteq> k}"
  by (auto simp: without_key_def)

lemma map_of_without_key: "map_of (without_key k kvs) j = (if j = k then None else map_of kvs j)"
  by (induction kvs) (auto simp: without_key_def)

text \<open>
  An index that can lose keys: \<open>spare ty n s j\<close> says that its keys have \<open>n\<close> bytes and that it
  has the means for \<open>j\<close> removals, or half as many additions. Looking and scanning cost nothing.
\<close>

locale erasable_index = key_index lookup add scan holds room
  for lookup :: "Value \<Rightarrow> ('s, nat option) op"
    and add :: "Value \<Rightarrow> nat \<Rightarrow> ('s, unit) op"
    and scan :: "Value option \<Rightarrow> bool \<Rightarrow> Value option \<Rightarrow> bool \<Rightarrow> ('s, nat list) op"
    and holds :: "DataType \<Rightarrow> 's \<Rightarrow> (Value \<times> nat) list \<Rightarrow> bool"
    and room :: "DataType \<Rightarrow> 's \<Rightarrow> Value \<Rightarrow> bool" +
  fixes remove :: "Value \<Rightarrow> ('s, bool) op"
    and spare :: "DataType \<Rightarrow> nat \<Rightarrow> 's \<Rightarrow> nat \<Rightarrow> bool"
  assumes remove_law: "holds ty s kvs \<Longrightarrow> spare ty n s (Suc j) \<Longrightarrow> k \<in> fst ` set kvs \<Longrightarrow>
      \<exists>s'. remove k s = (Inr True, s') \<and> holds ty s' (without_key k kvs) \<and> spare ty n s' j"
    and remove_absent_law: "holds ty s kvs \<Longrightarrow> typed ty k \<Longrightarrow> encoded_value_size k = n \<Longrightarrow> spare ty n s (Suc j) \<Longrightarrow>
      k \<notin> fst ` set kvs \<Longrightarrow> \<exists>s'. remove k s = (Inr False, s') \<and> holds ty s' kvs \<and> spare ty n s' j"
    and spare_room_law: "holds ty s kvs \<Longrightarrow> spare ty n s (Suc (Suc j)) \<Longrightarrow> encoded_value_size k = n \<Longrightarrow> room ty s k"
    and spare_add_law: "holds ty s kvs \<Longrightarrow> typed ty k \<Longrightarrow> encoded_value_size k = n \<Longrightarrow> spare ty n s (Suc (Suc j)) \<Longrightarrow>
      r < 2 ^ 64 \<Longrightarrow> k \<notin> fst ` set kvs \<Longrightarrow> spare ty n (snd (add k r s)) j"
    and spare_lookup_law: "holds ty s kvs \<Longrightarrow> typed ty k \<Longrightarrow> spare ty n s j \<Longrightarrow> spare ty n (snd (lookup k s)) j"
    and spare_scan_law: "holds ty s kvs \<Longrightarrow> (\<And>l. lo = Some l \<Longrightarrow> typed ty l) \<Longrightarrow> (\<And>h. hi = Some h \<Longrightarrow> typed ty h) \<Longrightarrow>
      spare ty n s j \<Longrightarrow> spare ty n (snd (scan lo li hi hj s)) j"
begin

text \<open>Looking up and scanning keep what the index has room for and what it can spare.\<close>

lemma lookup_keeps:
  assumes "holds ty s kvs" and "typed ty k"
  shows "\<exists>s'. lookup k s = (Inr (map_of kvs k), s') \<and> holds ty s' kvs \<and> (\<forall>x. room ty s x \<longrightarrow> room ty s' x) \<and>
           (\<forall>n j. spare ty n s j \<longrightarrow> spare ty n s' j)"
  using lookup_law [OF assms] spare_lookup_law [OF assms] by fastforce

lemma scan_keeps:
  assumes "holds ty s kvs" and "\<And>l. lo = Some l \<Longrightarrow> typed ty l" and "\<And>h. hi = Some h \<Longrightarrow> typed ty h"
  shows "\<exists>s'. scan lo li hi hj s = (Inr (map snd (filter (\<lambda>(v, _). in_range lo li hi hj v) kvs)), s') \<and>
           holds ty s' kvs \<and> (\<forall>x. room ty s x \<longrightarrow> room ty s' x) \<and> (\<forall>n j. spare ty n s j \<longrightarrow> spare ty n s' j)"
  using scan_law [OF assms, of lo hi, of li hj] spare_scan_law [OF assms, of lo hi _ _ li hj] by fastforce

text \<open>A removed key is gone, every other key is found as before.\<close>

lemma lookup_after_remove:
  assumes h: "holds ty s kvs" "spare ty n s (Suc j)" "k \<in> fst ` set kvs" and i: "typed ty i"
  shows "\<exists>s'. andthen (bnd (remove k) (\<lambda>_. ret ())) (lookup i) s =
           (Inr (if i = k then None else map_of kvs i), s') \<and> spare ty n s' j"
proof -
  obtain s1 where s1: "remove k s = (Inr True, s1)" "holds ty s1 (without_key k kvs)" "spare ty n s1 j"
    using remove_law [OF h] by blast
  obtain s2 where s2: "lookup i s1 = (Inr (map_of (without_key k kvs) i), s2)"
    using lookup_law [OF s1(2) i] by blast
  have "spare ty n s2 j" using spare_lookup_law [OF s1(2) i s1(3)] s2 by simp
  then show ?thesis using s1(1) s2 by (simp add: andthen_def bnd_def ret_def map_of_without_key)
qed

text \<open>A key moved: the old one is removed, the new one of the same size added.\<close>

lemma replace_key:
  assumes h: "holds ty s kvs" "spare ty n s (j + 3)" "k \<in> fst ` set kvs"
    and new: "typed ty k'" "encoded_value_size k' = n" "k' \<notin> fst ` set (without_key k kvs)" "r < 2 ^ 64"
  shows "\<exists>s'. andthen (bnd (remove k) (\<lambda>_. ret ())) (add k' r) s = (Inr (), s') \<and>
           holds ty s' (with_key k' r (without_key k kvs)) \<and> spare ty n s' j"
proof -
  have j: "j + 3 = Suc (Suc (Suc j))" by simp
  obtain s1 where s1: "remove k s = (Inr True, s1)" "holds ty s1 (without_key k kvs)" "spare ty n s1 (Suc (Suc j))"
    using remove_law [OF h(1) _ h(3), of n "Suc (Suc j)"] h(2) unfolding j by blast
  have room: "room ty s1 k'" by (rule spare_room_law [OF s1(2,3) new(2)])
  obtain s2 where s2: "add k' r s1 = (Inr (), s2)" "holds ty s2 (with_key k' r (without_key k kvs))"
    using add_law [OF s1(2) new(1) room new(4,3)] by blast
  have "spare ty n s2 j" using spare_add_law [OF s1(2) new(1,2) s1(3) new(4,3)] s2(1) by simp
  then show ?thesis using s1(1) s2 by (simp add: andthen_def bnd_def ret_def)
qed

end

end
