(* ===== verification/IndexInsert_Full.thy ===== *)
theory IndexInsert_Full
  imports IndexInsert_Correct KeyIndex
begin

text \<open>
  Correctness of \<open>split_leaf\<close> and of \<open>insert\<close> as a whole, on top of the lemmas on writing, sharing
  and cutting leaves: the index after the call holds the old entries and the new one, in order.
\<close>

section \<open>A full leaf\<close>

text \<open>Every inner node over leaves can take one more child.\<close>

fun leaf_room :: "nat \<Rightarrow> btree \<Rightarrow> bool" where
  "leaf_room n (BLeaf i es nx) = True"
| "leaf_room n (BNode i ks ts) =
     (((\<exists>u \<in> set ts. bal 0 u) \<longrightarrow> node_room n (Suc (length ts))) \<and> (\<forall>u \<in> set ts. leaf_room n u))"

lemma leaf_room_plug: "leaf_room n (plug c u) \<Longrightarrow> leaf_room n u"
  by (induction c u rule: plug.induct) auto

text \<open>How many entries there are in shares of a leaf with one entry too many, and its sibling.\<close>

lemma share_sizes:
  assumes w: "w \<le> 522" and full: "kPageSize < 12 + (a + 1) * w" and a: "12 + a * w \<le> kPageSize"
    and b: "12 + b * w \<le> kPageSize"
  shows "2 \<le> a + 1" "12 + ((a + 1 + 1) div 2) * w \<le> kPageSize"
    "12 + ((a + 1 + b + 2) div 3) * w \<le> kPageSize" "3 \<le> a + 1"
proof -
  have "\<not> a \<le> 2"
  proof
    assume "a \<le> 2"
    then have "(a + 1) * w \<le> 3 * 522" using w by (intro mult_le_mono) simp_all
    with full show False by (simp add: kPageSize_def)
  qed
  then show "2 \<le> a + 1" "3 \<le> a + 1" by simp_all
  have two: "2 * q \<le> a + 2 \<Longrightarrow> 12 + q * w \<le> kPageSize" for q
  proof -
    assume "2 * q \<le> a + 2"
    then have "2 * q * w \<le> (a + 2) * w" by (rule mult_le_mono1)
    then have "2 * (q * w) \<le> a * w + 2 * w" by (simp add: distrib_right)
    then show ?thesis using a w by (simp add: kPageSize_def)
  qed
  show "12 + ((a + 1 + 1) div 2) * w \<le> kPageSize" by (rule two) simp
  have three: "3 * q \<le> a + b + 3 \<Longrightarrow> 12 + q * w \<le> kPageSize" for q
  proof -
    assume "3 * q \<le> a + b + 3"
    then have "3 * q * w \<le> (a + b + 3) * w" by (rule mult_le_mono1)
    then have "3 * (q * w) \<le> a * w + b * w + 3 * w" by (simp add: distrib_right)
    then show ?thesis using a b w by (simp add: kPageSize_def)
  qed
  show "12 + ((a + 1 + b + 2) div 3) * w \<le> kPageSize" by (rule three) simp
qed

lemma index_of_middle:
  assumes "x \<notin> set xs"
  shows "index_of x (xs @ x # ys) = Some (length xs)"
  using assms by (induction xs) auto

lemma leaves_inD:
  assumes "leaves_in ty n s ls" "(i, es, nx) \<in> set ls"
  shows "leaf_ok ty es" "\<forall>e \<in> set es. key_len e = n" "node_view s i = Some (leaf_page i es nx)"
  using assms unfolding leaves_in_def by fastforce+

lemma wp_split_leaf:
  assumes site: "insert_site ty s t ent c i A B nx" and s0: "same_index s s0"
    and pg: "node_type pg = Leaf" "page_id pg = i" "leaf_entries pg = A @ ent # B" "next_leaf pg = nx"
      "children pg = []"
    and over: "leaf_overflow (A @ ent # B)"
    and n: "\<forall>e \<in> set (flat t). key_len e = n" "key_len ent = n" and room: "leaf_room n t"
    and count: "idx_count s + 2 < 2 ^ 32"
  shows "wp E (split_leaf pg (map fid c @ [i])) (\<lambda>_ s'. holds_entries ty s t (grown c A ent B) s') s0"
proof -
  note D = siteD [OF site]
  have at: "leaves t = left_leaves c @ (i, A @ B, nx) # right_leaves c" by (simp add: D(2) leaves_plug)
  have small_n: "10 + n \<le> 522"
    using D(6) n(2) by (simp add: good_entry_def kMaxIndexKeyBytes_def)
  have n_old: "\<forall>e \<in> set (A @ B). key_len e = n" and n_new: "\<forall>e \<in> set (A @ ent # B). key_len e = n"
    using n by (auto simp: D(2) flat_plug)
  have full: "kPageSize < 12 + (length (A @ B) + 1) * (10 + n)"
    using over uniform_fits [OF n_new] by simp
  have "leaf_ok ty (A @ B)" using wf_leaf [OF D(5)] at by auto
  then have fit: "12 + length (A @ B) * (10 + n) \<le> kPageSize" and ne: "A @ B \<noteq> []"
    using uniform_fits [OF n_old] by (auto simp: leaf_ok_def)
  note Z = share_sizes [OF small_n full fit]
  note share = overflow_share [OF n_new over]
  show ?thesis
  proof (cases "c = []")
    case True
    then have site': "insert_site ty s t ent [] i A B nx" using site by simp
    have "wp E (split_leaf_alone pg [i]) (\<lambda>_ s'. holds_entries ty s t (A @ ent # B) s') s0"
      by (rule wp_split_alone_root [OF site' s0 pg n_new]) (use Z(1,2) fit count share in auto)
    then show ?thesis using True by (simp add: split_leaf_def)
  next
    case False
    obtain d p ks X Y where fid: "map fid c = map fid d @ [p]"
      and lp: "leaf_parent ty s t d p ks (X @ (i, A @ B, nx) # Y)"
      and sides: "left_flat c = left_flat d @ concat (map leaf_es X)"
        "right_flat c = concat (map leaf_es Y) @ right_flat d" "\<And>v. hole_ok c v \<Longrightarrow> hole_ok d v"
      using site_parent [OF site False] by blast
    have sib: "sib_site ty n s t ent c i A B nx d p ks X Y"
      unfolding sib_site_def using site lp sides n by blast
    note S = sib_ids [OF sib] and SD = sibD [OF sib]
    let ?ls = "X @ (i, A @ B, nx) # Y"
    let ?parent = "node_page p ks (map fst ?ls)"
    let ?Q = "\<lambda>_. holds_entries ty s t (grown c A ent B)"
    have "leaf_room n (BNode p ks (map mkleaf ?ls))"
      using room unfolding SD(8) by (rule leaf_room_plug)
    then have room1: "node_room n (Suc (length ?ls))" by simp
    have path: "1 < length (map fid c @ [i])" "(map fid c @ [i]) ! (length (map fid c @ [i]) - 2) = p"
      using fid by (simp_all add: nth_append)
    have parent_view: "node_view s p = Some ?parent"
      using index_invD(3) [OF SD(11)] unfolding SD(8) rep_plug by simp
    have pos: "child_position msg ?parent i = ret (length X)" for msg
      using S(1) by (simp add: child_position_def index_of_middle)
    have sibling: "wp E (bnd (leaf_sibling_for_split j) f) Q s1"
      if "same_index s s1" and "(j, es, nxt) \<in> set ?ls"
        and "\<And>s2. same_index s s2 \<Longrightarrow> wp E (f (leaf_page j es nxt)) Q s2" for j es nxt s1 f Q
    proof -
      have "node_view s1 j = Some (leaf_page j es nxt)"
        using leaves_inD(3) [OF sib_leaves [OF sib] that(2)] that(1) by (simp add: same_index_def)
      then show ?thesis
        using that(1,3) nodes.wp_rd [of s1 j] by (auto simp: leaf_sibling_for_split_def same_index_def)
    qed
    have old_fit: "12 + length es * (10 + n) \<le> kPageSize" if "(j, es, nxt) \<in> set ?ls" for j es nxt
      using leaves_inD(1,2) [OF sib_leaves [OF sib] that] uniform_fits [of es n] by (simp add: leaf_ok_def)
    have after_left: "wp E (if length X + 1 < length (children ?parent) then
              bnd (leaf_sibling_for_split (children ?parent ! (length X + 1))) (\<lambda>right.
              split_leaf_pair pg right ?parent (length X) (butlast (map fid c @ [i])))
            else if 0 < length X then
              bnd (leaf_sibling_for_split (children ?parent ! (length X - 1))) (\<lambda>left.
              split_leaf_pair left pg ?parent (length X - 1) (butlast (map fid c @ [i])))
            else split_leaf_alone pg (map fid c @ [i])) ?Q s1" if s1: "same_index s s1" for s1
    proof (cases Y)
      case (Cons l Y')
      obtain j es2 nx2 where l: "l = (j, es2, nx2)" by (cases l)
      have mem: "(j, es2, nx2) \<in> set ?ls" using Cons l by simp
      have nx: "nx = j" using S(7) Cons l by (simp add: chained_append)
      have "wp E (bnd (leaf_sibling_for_split j) (\<lambda>right.
          split_leaf_pair pg right ?parent (length X) (butlast (map fid c @ [i])))) ?Q s1"
      proof (rule sibling [OF s1 mem])
        fix s2 assume s2: "same_index s s2"
        show "wp E (split_leaf_pair pg (leaf_page j es2 nx2) ?parent (length X) (butlast (map fid c @ [i]))) ?Q s2"
          by (rule wp_split_pair [OF sib s2, of X i "A @ B" j es2 nx2 Y' "A @ ent # B" es2])
            (use Cons l nx pg Z(3,4) [OF old_fit [OF mem]] room1 count le_trans [OF share div_le_mono] in \<open>auto simp: ac_simps\<close>)
      qed
      then show ?thesis using Cons l by (simp add: nth_append)
    next
      case Nil
      show ?thesis
      proof (cases X rule: rev_cases)
        case (snoc X' l)
        obtain j es2 nx2 where l: "l = (j, es2, nx2)" by (cases l)
        have mem: "(j, es2, nx2) \<in> set ?ls" using snoc l by simp
        have nx2: "nx2 = i" using S(7) snoc l by (simp add: chained_append)
        have "wp E (bnd (leaf_sibling_for_split j) (\<lambda>left.
            split_leaf_pair left pg ?parent (length X - 1) (butlast (map fid c @ [i])))) ?Q s1"
        proof (rule sibling [OF s1 mem])
          fix s2 assume s2: "same_index s s2"
          have len: "length X - 1 = length X'" using snoc by simp
          show "wp E (split_leaf_pair (leaf_page j es2 nx2) pg ?parent (length X - 1) (butlast (map fid c @ [i]))) ?Q s2"
            unfolding len
            by (rule wp_split_pair [OF sib s2, of X' j es2 i "A @ B" nx "[]" es2 "A @ ent # B"])
              (use Nil snoc l nx2 pg Z(3,4) [OF old_fit [OF mem]] room1 count le_trans [OF share div_le_mono] in \<open>auto simp: ac_simps\<close>)
        qed
        then show ?thesis using Nil snoc l by (simp add: nth_append)
      next
        case X: Nil
        have sib': "sib_site ty n s t ent c i A B nx d p ks [] []" using sib Nil X by simp
        have "node_room n 2" using room1 Nil X by (simp add: numeral_2_eq_2)
        then have "wp E (split_leaf_alone pg (map fid c @ [i])) ?Q s1"
          by (intro wp_split_alone_parent [OF sib' s1 pg fid]) (use Z(1,2) fit count share in auto)
        then show ?thesis using Nil X by simp
      qed
    qed
    have after_right: "wp E (bnd (try_give_to_left_leaf pg ?parent (length X)) (\<lambda>done_left.
          if done_left then ret ()
          else if length X + 1 < length (children ?parent) then
            bnd (leaf_sibling_for_split (children ?parent ! (length X + 1))) (\<lambda>right.
            split_leaf_pair pg right ?parent (length X) (butlast (map fid c @ [i])))
          else if 0 < length X then
            bnd (leaf_sibling_for_split (children ?parent ! (length X - 1))) (\<lambda>left.
            split_leaf_pair left pg ?parent (length X - 1) (butlast (map fid c @ [i])))
          else split_leaf_alone pg (map fid c @ [i]))) ?Q s1" if s1: "same_index s s1" for s1
      unfolding wp_bnd [of _ "try_give_to_left_leaf _ _ _"]
      by (rule wp_mono [OF wp_give_left [OF sib s1]]) (use over pg(3) after_left in auto)
    have give: "wp E (bnd (try_give_to_right_leaf pg ?parent (length X)) (\<lambda>done_right.
          if done_right then ret ()
          else bnd (try_give_to_left_leaf pg ?parent (length X)) (\<lambda>done_left.
            if done_left then ret ()
            else if length X + 1 < length (children ?parent) then
              bnd (leaf_sibling_for_split (children ?parent ! (length X + 1))) (\<lambda>right.
              split_leaf_pair pg right ?parent (length X) (butlast (map fid c @ [i])))
            else if 0 < length X then
              bnd (leaf_sibling_for_split (children ?parent ! (length X - 1))) (\<lambda>left.
              split_leaf_pair left pg ?parent (length X - 1) (butlast (map fid c @ [i])))
            else split_leaf_alone pg (map fid c @ [i])))) ?Q s1" if s1: "same_index s s1" for s1
      unfolding wp_bnd [of _ "try_give_to_right_leaf _ _ _"]
    proof (rule wp_mono [OF wp_give_right [OF sib s1 _ ne pg]])
      show "node_room n (length ?ls)" by (rule node_room_mono [OF room1]) simp
    qed (use after_right in \<open>auto split: if_split_asm\<close>)
    have "wp E (bnd (idx_read_page p) (\<lambda>parent.
        if node_type parent = Leaf then throw (Logic_error ''Leaf cannot be parent'')
        else bnd (child_position ''Parent missing child'' parent (page_id pg)) (\<lambda>c'.
          bnd (try_give_to_right_leaf pg parent c') (\<lambda>done_right.
          if done_right then ret ()
          else bnd (try_give_to_left_leaf pg parent c') (\<lambda>done_left.
            if done_left then ret ()
            else if c' + 1 < length (children parent) then
              bnd (leaf_sibling_for_split (children parent ! (c' + 1))) (\<lambda>right.
              split_leaf_pair pg right parent c' (butlast (map fid c @ [i])))
            else if 0 < c' then
              bnd (leaf_sibling_for_split (children parent ! (c' - 1))) (\<lambda>left.
              split_leaf_pair left pg parent (c' - 1) (butlast (map fid c @ [i])))
            else split_leaf_alone pg (map fid c @ [i])))))) ?Q s0"
      unfolding wp_bnd [of _ "idx_read_page _"]
    proof (rule wp_read_node)
      show "idx_inv s0" "node_view s0 p = Some ?parent"
        using s0 parent_view by (simp_all add: same_index_def)
      fix s1
      assume "idx_inv s1" "node_view s1 = node_view s0" "idx_count s1 = idx_count s0" "idx_frame s1 = idx_frame s0"
      then have s1: "same_index s s1" using s0 by (simp add: same_index_def)
      show "wp E (if node_type ?parent = Leaf then throw (Logic_error ''Leaf cannot be parent'')
        else bnd (child_position ''Parent missing child'' ?parent (page_id pg)) (\<lambda>c'.
          bnd (try_give_to_right_leaf pg ?parent c') (\<lambda>done_right.
          if done_right then ret ()
          else bnd (try_give_to_left_leaf pg ?parent c') (\<lambda>done_left.
            if done_left then ret ()
            else if c' + 1 < length (children ?parent) then
              bnd (leaf_sibling_for_split (children ?parent ! (c' + 1))) (\<lambda>right.
              split_leaf_pair pg right ?parent c' (butlast (map fid c @ [i])))
            else if 0 < c' then
              bnd (leaf_sibling_for_split (children ?parent ! (c' - 1))) (\<lambda>left.
              split_leaf_pair left pg ?parent (c' - 1) (butlast (map fid c @ [i])))
            else split_leaf_alone pg (map fid c @ [i]))))) ?Q s1"
        unfolding pg(2) pos bnd_ret page_sel using give [OF s1] unfolding page_sel by simp
    qed
    then show ?thesis unfolding split_leaf_def path(2) using path(1) by (simp only: if_True)
  qed
qed

section \<open>The whole insertion\<close>

text \<open>When the leaf can take the entry at once, or can be relieved by the lemmas above.\<close>

definition takes_key :: "disk_index \<Rightarrow> btree \<Rightarrow> Value \<Rightarrow> bool" where
  "takes_key s t k \<longleftrightarrow>
     (\<forall>l \<in> set (leaves t). leaf_payload_bytes (leaf_es l) + (10 + encoded_value_size k) \<le> kPageSize) \<or>
     (\<forall>e \<in> set (flat t). key_len e = encoded_value_size k) \<and> leaf_room (encoded_value_size k) t \<and>
       idx_count s + 2 < 2 ^ 32"

lemma wp_finish_insert:
  assumes holds: "holds_entries ty s0 t0 es s" and len: "length es = ix_size s0 + 1"
    and Q: "\<And>t s'. index_inv ty s' t \<Longrightarrow> flat t = es \<Longrightarrow> superblock_current s' \<Longrightarrow> grows s0 t0 s' t \<Longrightarrow> Q () s'"
  shows "wp E (andthen (modify (\<lambda>s. s\<lparr>ix_size := ix_size s + 1\<rparr>)) write_superblock) Q s"
proof -
  obtain t where t: "idx_inv s" "0 < idx_count s" "rep (node_view s) t" "tree_ok ty t"
    "idx_frame s = (bid t, first_id (leaves t) 0, ix_size s0)" "flat t = es" "grows s0 t0 s t"
    using holds unfolding holds_entries_def holds_tree_def by blast
  let ?s = "s\<lparr>ix_size := ix_size s + 1\<rparr>"
  have "wp E write_superblock Q ?s"
  proof (rule wp_write_superblock)
    show "idx_inv ?s" "0 < idx_count ?s" using t by (simp_all add: idx_inv_def)
    fix s'
    assume s': "idx_inv s'" "node_view s' = (node_view ?s)(0 := None)" "idx_count s' = idx_count ?s"
      "idx_frame s' = idx_frame ?s" "superblock_current s'"
    have "node_view ?s = node_view s" by (rule ext) (simp add: node_view_def)
    then have "rep (node_view s') t \<longleftrightarrow> rep (node_view s) t"
      using t(4) s'(2) by (intro rep_cong) (auto simp: tree_ok_def)
    then have "rep (node_view s') t" using t(3) by blast
    moreover have "idx_frame s' = (bid t, first_id (leaves t) 0, length (flat t))"
      using s'(4) t(5,6) len by (simp add: idx_frame_def)
    ultimately have "index_inv ty s' t" using t s' by (simp add: index_inv_def)
    moreover have "grows s0 t0 s' t" using t(7) s'(3) spares_count [of s' s] by (simp add: grows_def)
    ultimately show "Q () s'" using Q t(6) s'(5) by blast
  qed
  then show ?thesis by simp
qed

text \<open>The place of a key in the leaf the search ends in.\<close>

lemma slot_parts:
  assumes sorted: "sorted_wrt (<) (map key_val es)" and new: "k \<notin> key_val ` set es"
    and a_def: "a = length (takeWhile ((\<lambda>v. v < k) \<circ> key_val) es)"
  shows "\<forall>e \<in> set (take a es). key_val e < k" "\<forall>e \<in> set (drop a es). k < key_val e"
proof -
  let ?P = "\<lambda>v. v < k"
  have tk: "take a es = takeWhile (?P \<circ> key_val) es" and dr: "drop a es = dropWhile (?P \<circ> key_val) es"
    unfolding a_def by (simp_all add: takeWhile_eq_take [symmetric] dropWhile_eq_drop [symmetric])
  have lo: "v < w \<Longrightarrow> ?P w \<Longrightarrow> ?P v" for v w by (rule less_trans)
  show "\<forall>e \<in> set (take a es). key_val e < k" unfolding tk by (rule cut_sorted(1) [OF sorted lo])
  have "\<forall>e \<in> set (drop a es). \<not> key_val e < k" unfolding dr by (rule cut_sorted(2) [OF sorted lo])
  moreover have "\<forall>e \<in> set (drop a es). key_val e \<noteq> k" using new by (metis image_eqI in_set_dropD)
  ultimately show "\<forall>e \<in> set (drop a es). k < key_val e" by (meson neqE)
qed

lemma contents_grown:
  assumes site: "insert_site ty s t ent c i A B nx" and flat: "flat t' = grown c A ent B"
  shows "contents t' = with_key (key_val ent) (rid ent) (contents t)"
proof -
  note D = siteD [OF site]
  let ?kv = "\<lambda>e. (key_val e, rid e)"
  have "\<not> key_val e < key_val ent" if "e \<in> set (B @ right_flat c)" for e
    using D(8) that by (metis less_asym)
  then have "with_key (key_val ent) (rid ent) (map ?kv (left_flat c @ A) @ map ?kv (B @ right_flat c)) =
      map ?kv (left_flat c @ A) @ ?kv ent # map ?kv (B @ right_flat c)"
    using D(7) by (intro with_key_middle) auto
  then show ?thesis using flat by (simp add: contents_def D(2) flat_plug)
qed

lemma wp_insert_empty:
  assumes inv: "index_inv ty s t" and empty: "flat t = []" and k: "typed ty k"
    and size: "encoded_value_size k \<le> kMaxIndexKeyBytes" and r: "r < 2 ^ 64"
    and Q: "\<And>t' s'. index_inv ty s' t' \<Longrightarrow> contents t' = [(k, r)] \<Longrightarrow> superblock_current s' \<Longrightarrow>
              idx_count s' = idx_count s \<Longrightarrow> grows s t s' t' \<Longrightarrow> Q () s'"
  shows "wp E (idx_insert k r) Q s"
proof -
  note I = index_invD [OF inv]
  obtain ent where ent: "make_entry k r = Inr ent" "good_entry ty ent" "key_val ent = k" "rid ent = r"
    using make_entry_good [OF k size r] by blast
  obtain i where t: "t = BLeaf i [] 0"
    using I(4) wf_tree_nonempty [of ty t] empty by (auto simp: tree_ok_def)
  have nn: "\<not> is_null k" using k by (cases k) auto
  have i: "i < idx_count s" "i \<noteq> 0"
    using I(3,4) nodes.view_bound [OF I(1), of i] by (auto simp: t tree_ok_def)
  have fit: "\<not> leaf_overflow [ent]"
    using ent(2) by (simp add: leaf_overflow_def leaf_payload_bytes_eq good_entry_def kMaxIndexKeyBytes_def
        kPageSize_def)
  let ?p = "(blank_page i Leaf)\<lparr>leaf_entries := [ent]\<rparr>"
  let ?t = "BLeaf i [ent] 0"
  have ok: "tree_ok ty ?t"
    using ent(2) fit i(2) by (auto simp: tree_ok_def leaf_ok_def)
  have "wp E (idx_write_page ?p) (\<lambda>_ s'. wp E write_superblock Q (s'\<lparr>ix_size := 1\<rparr>)) s"
  proof (rule wp_write_leaf [where ty = ty])
    fix s1
    assume "wrote s (page_id ?p) (leaf_page (page_id ?p) (leaf_entries ?p) (next_leaf ?p)) s1"
    then have s1: "idx_inv s1" "node_view s1 = (node_view s)(i \<mapsto> leaf_page i [ent] 0)"
      "idx_count s1 = idx_count s" "idx_frame s1 = idx_frame s"
      by (simp_all add: wrote_def blank_page_def)
    let ?s = "s1\<lparr>ix_size := 1\<rparr>"
    have view: "node_view ?s = node_view s1" by (rule ext) (simp add: node_view_def)
    show "wp E write_superblock Q ?s"
    proof (rule wp_write_superblock)
      fix s'
      assume s': "idx_inv s'" "node_view s' = (node_view ?s)(0 := None)" "idx_count s' = idx_count ?s"
        "idx_frame s' = idx_frame ?s" "superblock_current s'"
      have "index_inv ty s' ?t"
        using s' s1 I(2,5,6) i ok view by (simp add: index_inv_def t idx_frame_def)
      moreover have "grows s t s' ?t" by (rule growsI) (use s'(3) s1(3) in \<open>auto simp: t\<close>)
      ultimately show "Q () s'" using Q s'(3,5) s1(3) ent(3,4) by (simp add: contents_def)
    qed (use s1 I(2) in \<open>simp_all add: idx_inv_def\<close>)
  qed (use I(1) i ent(2) fit in \<open>simp_all add: blank_page_def\<close>)
  then show ?thesis
    using nn ent(1) I(5,7) t by (simp add: idx_insert_def)
qed

lemma wp_insert_nonempty:
  assumes inv: "index_inv ty s t" and filled: "flat t \<noteq> []" and k: "typed ty k"
    and size: "encoded_value_size k \<le> kMaxIndexKeyBytes" and r: "r < 2 ^ 64"
    and new: "k \<notin> set (vals t)" and takes: "takes_key s t k"
    and Q: "\<And>t' s'. index_inv ty s' t' \<Longrightarrow> contents t' = with_key k r (contents t) \<Longrightarrow>
              superblock_current s' \<Longrightarrow> grows s t s' t' \<Longrightarrow> Q () s'"
  shows "wp E (idx_insert k r) Q s"
proof -
  note I = index_invD [OF inv]
  obtain ent where ent: "make_entry k r = Inr ent" "good_entry ty ent" "key_val ent = k" "rid ent = r"
    using make_entry_good [OF k size r] by blast
  have nn: "\<not> is_null k" using k by (cases k) auto
  let ?rest = "\<lambda>(leaf, path). bnd (of_sum (lower_bound_slot leaf k)) (\<lambda>slot.
      andthen (check_duplicate leaf slot ent)
        (let leaf = leaf\<lparr>leaf_entries := insert_at slot ent (leaf_entries leaf)\<rparr>
         in andthen
              (if \<not> leaf_overflow (leaf_entries leaf) then idx_write_page leaf else split_leaf leaf path)
              (andthen (modify (\<lambda>s. s\<lparr>ix_size := ix_size s + 1\<rparr>)) write_superblock)))"
  have "wp E (find_leaf k) (\<lambda>lp. wp E (?rest lp) Q) s"
  proof (rule wp_find_leaf [OF inv k])
    fix c i es nx s1
    assume t: "t = plug c (BLeaf i es nx)" and c: "cut_ok c" "hole_ok c k" and s1: "same_index s s1"
    have at: "leaves t = left_leaves c @ (i, es, nx) # right_leaves c" by (simp add: t leaves_plug)
    note F = leaf_facts [OF inv at] and H = index_hole_bounds [OF inv t c]
    define a where "a = length (takeWhile ((\<lambda>v. v < k) \<circ> key_val) es)"
    have slot: "lower_bound_slot (leaf_page i es nx) k = Inr a"
      using bound_slots(1) [OF F(4,5) k F(6)] by (simp add: a_def)
    have k_es: "k \<notin> key_val ` set es" using new key_in_leaf [OF inv t c] by simp
    note P = slot_parts [OF F(5) k_es a_def]
    define A B where "A = take a es" and "B = drop a es"
    have es: "es = A @ B" by (simp add: A_def B_def)
    have wf: "wf_tree ty t" using I(4) filled by (auto simp: tree_ok_def)
    have site: "insert_site ty s t ent c i A B nx"
      unfolding insert_site_def es [symmetric] ent(3) A_def [symmetric] B_def [symmetric] set_append ball_Un
      by (intro conjI inv t c wf ent(2) H P [folded A_def B_def])
    have dup: "wp E (check_duplicate (leaf_page i es nx) a ent) P s1 = P () s1" for P
    proof (cases "a < length es")
      case True
      then have "good_entry ty (es ! a)" "key_val (es ! a) \<noteq> k" using F(4) k_es by (auto simp: image_iff)
      then show ?thesis
        using True keys_equal_good [of ty "es ! a" ent] ent(2,3) by (simp add: check_duplicate_def)
    qed (simp add: check_duplicate_def)
    let ?leaf = "(leaf_page i es nx)\<lparr>leaf_entries := insert_at a ent es\<rparr>"
    have ins: "insert_at a ent es = A @ ent # B" by (simp add: insert_at_def A_def B_def)
    have finish: "wp E (andthen (modify (\<lambda>s. s\<lparr>ix_size := ix_size s + 1\<rparr>)) write_superblock) Q s2"
      if "holds_entries ty s t (grown c A ent B) s2" for s2
    proof (rule wp_finish_insert [OF that])
      show "length (grown c A ent B) = ix_size s + 1" using I(7) t es by (simp add: flat_plug)
      show "\<And>t' s'. index_inv ty s' t' \<Longrightarrow> flat t' = grown c A ent B \<Longrightarrow> superblock_current s' \<Longrightarrow> grows s t s' t' \<Longrightarrow> Q () s'"
        using contents_grown [OF site] ent(3,4) Q by auto
    qed
    have leaf: "node_type ?leaf = Leaf" "page_id ?leaf = i" "leaf_entries ?leaf = A @ ent # B"
      "next_leaf ?leaf = nx" "children ?leaf = []"
      using ins by simp_all
    have body: "wp E (if \<not> leaf_overflow (leaf_entries ?leaf) then idx_write_page ?leaf
        else split_leaf ?leaf (map fid c @ [i])) (\<lambda>_. holds_entries ty s t (grown c A ent B)) s1"
    proof (cases "leaf_overflow (A @ ent # B)")
      case False
      then show ?thesis using wp_write_grown_leaf [OF site False s1 leaf, of E] leaf(3) by simp
    next
      case True
      have "leaf_payload_bytes (A @ ent # B) = leaf_payload_bytes es + (10 + encoded_value_size k)"
        using ent(2,3) by (simp add: leaf_payload_bytes_eq es good_entry_def)
      then have "\<not> leaf_payload_bytes (leaf_es (i, es, nx)) + (10 + encoded_value_size k) \<le> kPageSize"
        using True by (simp add: leaf_overflow_def)
      then have uni: "\<forall>e \<in> set (flat t). key_len e = encoded_value_size k" "leaf_room (encoded_value_size k) t"
        "idx_count s + 2 < 2 ^ 32"
        using takes at unfolding takes_key_def by auto
      have "wp E (split_leaf ?leaf (map fid c @ [i])) (\<lambda>_. holds_entries ty s t (grown c A ent B)) s1"
        by (rule wp_split_leaf [OF site s1 leaf True uni(1) _ uni(2,3)])
          (use ent(2,3) in \<open>simp add: good_entry_def\<close>)
      then show ?thesis using True leaf(3) by simp
    qed
    have "wp E (andthen (if \<not> leaf_overflow (leaf_entries ?leaf) then idx_write_page ?leaf
        else split_leaf ?leaf (map fid c @ [i]))
        (andthen (modify (\<lambda>s. s\<lparr>ix_size := ix_size s + 1\<rparr>)) write_superblock)) Q s1"
      unfolding wp_andthen [of _ "if _ then _ else _"]
      by (rule wp_mono [OF body]) (rule finish)
    then show "wp E (?rest (leaf_page i es nx, map fid c @ [i])) Q s1"
      using slot dup by (simp add: Let_def split: if_split_asm)
  qed
  then show ?thesis
    using nn ent(1) I(7) filled unfolding idx_insert_def by simp
qed

text \<open>Insertion of a key the index does not have.\<close>

lemma wp_insert:
  assumes "index_inv ty s t" and "typed ty k" and "encoded_value_size k \<le> kMaxIndexKeyBytes"
    and "r < 2 ^ 64" and "k \<notin> set (vals t)" and "takes_key s t k"
    and "\<And>t' s'. index_inv ty s' t' \<Longrightarrow> contents t' = with_key k r (contents t) \<Longrightarrow>
              superblock_current s' \<Longrightarrow> grows s t s' t' \<Longrightarrow> Q () s'"
  shows "wp E (idx_insert k r) Q s"
proof (cases "flat t = []")
  case True
  then show ?thesis
    using assms by (intro wp_insert_empty [OF assms(1) True assms(2-4)])
      (simp add: with_key_def contents_def)
next
  case False
  then show ?thesis using assms(7) by (intro wp_insert_nonempty [OF assms(1) False assms(2-6)])
qed

text \<open>A key the index already has is refused, and nothing changes.\<close>

lemma insert_duplicate:
  assumes inv: "index_inv ty s t" and k: "typed ty k" and size: "encoded_value_size k \<le> kMaxIndexKeyBytes"
    and r: "r < 2 ^ 64" and old: "k \<in> set (vals t)"
  shows "\<exists>s'. idx_insert k r s = (Inl (Runtime_error ''Duplicate index key''), s') \<and> same_index s s'"
proof -
  obtain ent where ent: "make_entry k r = Inr ent" "good_entry ty ent" "key_val ent = k"
    using make_entry_good [OF k size r] by blast
  have nn: "\<not> is_null k" using k by (cases k) auto
  have filled: "ix_size s \<noteq> 0" using old index_invD(7) [OF inv] by (auto simp: vals_def)
  have "wp never (find_leaf k) (\<lambda>lp s'. same_index s s' \<and>
      (\<exists>a. lower_bound_slot (fst lp) k = Inr a \<and> a < length (leaf_entries (fst lp)) \<and>
        keys_equal_bytes (leaf_entries (fst lp) ! a) ent = Inr True)) s"
  proof (rule wp_find_leaf [OF inv k])
    fix c i es nx s1
    assume t: "t = plug c (BLeaf i es nx)" and c: "cut_ok c" "hole_ok c k" and s1: "same_index s s1"
    have at: "leaves t = left_leaves c @ (i, es, nx) # right_leaves c" by (simp add: t leaves_plug)
    note F = leaf_facts [OF inv at]
    define a where "a = length (takeWhile ((\<lambda>v. v < k) \<circ> key_val) es)"
    have slot: "lower_bound_slot (leaf_page i es nx) k = Inr a"
      using bound_slots(1) [OF F(4,5) k F(6)] by (simp add: a_def)
    have a: "a < length es" "key_val (es ! a) = k"
      using old key_in_leaf [OF inv t c] takeWhile_slot [OF F(5) a_def] by simp_all
    have "keys_equal_bytes (es ! a) ent = Inr True"
      using keys_equal_good [of ty "es ! a" ent] F(4) a ent(2,3) by simp
    then show "same_index s s1 \<and> (\<exists>b. lower_bound_slot (fst (leaf_page i es nx, map fid c @ [i])) k = Inr b \<and>
        b < length (leaf_entries (fst (leaf_page i es nx, map fid c @ [i]))) \<and>
        keys_equal_bytes (leaf_entries (fst (leaf_page i es nx, map fid c @ [i])) ! b) ent = Inr True)"
      using s1 slot a by simp
  qed
  then obtain leaf path s1 a where "find_leaf k s = (Inr (leaf, path), s1)" "same_index s s1"
    "lower_bound_slot leaf k = Inr a" "a < length (leaf_entries leaf)"
    "keys_equal_bytes (leaf_entries leaf ! a) ent = Inr True"
    unfolding wp_never_iff by auto
  then have "idx_insert k r s = (Inl (Runtime_error ''Duplicate index key''), s1) \<and> same_index s s1"
    using nn ent(1) filled by (simp add: idx_insert_def check_duplicate_def op_simps)
  then show ?thesis by blast
qed

end
