(* ===== verification/Index_Contract.thy ===== *)
theory Index_Contract
  imports IndexInsert_Full KeyIndex
begin

text \<open>
  The disk index as a provider of the interface \<open>key_index\<close>: its searches, range scans and
  insertions, stated on the sorted contents of the tree it stands for.
\<close>

section \<open>Ranges of sorted contents\<close>

lemma takeWhile_filter:
  assumes "sorted_wrt (<) (map f xs)" and "\<And>v w. v < w \<Longrightarrow> P w \<Longrightarrow> P (v :: 'a::linorder)"
  shows "takeWhile (P \<circ> f) xs = filter (P \<circ> f) xs" and "dropWhile (P \<circ> f) xs = filter (\<lambda>x. \<not> P (f x)) xs"
proof -
  have "takeWhile (P \<circ> f) xs = filter (P \<circ> f) xs \<and> dropWhile (P \<circ> f) xs = filter (\<lambda>x. \<not> P (f x)) xs"
    using assms(1)
  proof (induction xs)
    case (Cons x xs)
    show ?case
    proof (cases "P (f x)")
      case False
      have "\<not> P (f y)" if "y \<in> set xs" for y
        using Cons.prems that False assms(2) [of "f x" "f y"] by auto
      then show ?thesis using False by (auto simp: filter_empty_conv filter_id_conv)
    qed (use Cons in simp)
  qed simp
  then show "takeWhile (P \<circ> f) xs = filter (P \<circ> f) xs" "dropWhile (P \<circ> f) xs = filter (\<lambda>x. \<not> P (f x)) xs"
    by blast+
qed

lemma range_is_filter:
  assumes sorted: "sorted_wrt (<) (map key_val es)" and typed: "\<forall>e \<in> set es. typed ty (key_val e)"
    and hi: "\<And>h. hi = Some h \<Longrightarrow> typed ty h"
  shows "takeWhile (\<lambda>e. \<not> past_upper hi hi_inc (key_val e)) (from_lower lo lo_inc es) =
         filter (\<lambda>e. in_range lo lo_inc hi hi_inc (key_val e)) es"
proof -
  let ?lo = "\<lambda>v. case lo of None \<Rightarrow> False | Some l \<Rightarrow> if lo_inc then v < l else v \<le> l"
  let ?hi = "\<lambda>v. case hi of None \<Rightarrow> True | Some h \<Rightarrow> if hi_inc then v \<le> h else v < h"
  have "dropWhile (?lo \<circ> key_val) es = filter (\<lambda>e. \<not> ?lo (key_val e)) es"
    by (rule takeWhile_filter(2) [OF sorted])
      (auto split: option.splits intro: less_trans less_imp_le le_less_trans less_le_trans)
  moreover have "from_lower lo lo_inc es = dropWhile (?lo \<circ> key_val) es"
    by (cases lo) (simp_all add: from_lower_def dropWhile_eq_self_iff comp_def)
  ultimately have lower: "from_lower lo lo_inc es = filter (\<lambda>e. \<not> ?lo (key_val e)) es" by simp
  have "takeWhile (\<lambda>e. \<not> past_upper hi hi_inc (key_val e)) fs = filter (?hi \<circ> key_val) fs"
    if "sorted_wrt (<) (map key_val fs)" and fs: "\<forall>e \<in> set fs. typed ty (key_val e)" for fs
  proof -
    have past: "\<not> past_upper hi hi_inc (key_val e) \<longleftrightarrow> (?hi \<circ> key_val) e" if "e \<in> set fs" for e
      using that fs hi by (cases hi) (auto simp: past_upper_def Value_compare_typed [of ty] not_less not_le)
    have "takeWhile (\<lambda>e. \<not> past_upper hi hi_inc (key_val e)) fs = takeWhile (?hi \<circ> key_val) fs"
      by (rule takeWhile_cong [OF refl past])
    also have "\<dots> = filter (?hi \<circ> key_val) fs"
      by (rule takeWhile_filter(1) [OF that(1)])
        (auto split: option.splits intro: less_trans less_imp_le le_less_trans less_le_trans)
    finally show ?thesis .
  qed
  moreover have "sorted_wrt (<) (map key_val (filter (\<lambda>e. \<not> ?lo (key_val e)) es))"
    using sorted by (simp add: sorted_wrt_map sorted_wrt_filter)
  ultimately have "takeWhile (\<lambda>e. \<not> past_upper hi hi_inc (key_val e)) (from_lower lo lo_inc es) =
      filter (?hi \<circ> key_val) (filter (\<lambda>e. \<not> ?lo (key_val e)) es)"
    unfolding lower using typed by simp
  also have "\<dots> = filter (\<lambda>e. in_range lo lo_inc hi hi_inc (key_val e)) es"
    unfolding filter_filter
    by (rule filter_cong) (auto simp: in_range_def not_less not_le split: option.splits)
  finally show ?thesis .
qed

lemma wf_good: "index_inv ty s t \<Longrightarrow> \<forall>e \<in> set (flat t). good_entry ty e"
  using index_invD(4) [of ty s t] wf_tree_good [of ty t] by (auto simp: tree_ok_def)

section \<open>The operations on contents\<close>

lemma find_ok:
  assumes "index_inv ty s t" and "typed ty k"
  shows "\<exists>it s'. idx_find k s = (Inr it, s') \<and> same_index s s' \<and>
           (case map_of (contents t) k of
              None \<Rightarrow> at_end it
            | Some r \<Rightarrow> \<not> at_end it \<and> it_key it = k \<and> it_rid it = r)"
proof -
  have "distinct (vals t)"
    using index_invD(4) [OF assms(1)] by (simp add: tree_ok_def strict_sorted_iff)
  then have dist: "distinct (map fst (contents t))" by simp
  have "wp never (idx_find k) (\<lambda>it s'. same_index s s' \<and>
      (case map_of (contents t) k of None \<Rightarrow> at_end it
       | Some r \<Rightarrow> \<not> at_end it \<and> it_key it = k \<and> it_rid it = r)) s"
  proof (rule wp_find [OF assms])
    fix e rest it s'
    assume h: "same_index s s'" "iter_at t it (e # rest)" "e \<in> set (flat t)" "key_val e = k"
    have "(k, rid e) \<in> set (contents t)" using h(3,4) by (force simp: contents_def)
    then have "map_of (contents t) k = Some (rid e)" using dist by simp
    then show "same_index s s' \<and> (case map_of (contents t) k of None \<Rightarrow> at_end it
        | Some r \<Rightarrow> \<not> at_end it \<and> it_key it = k \<and> it_rid it = r)"
      using h by (simp add: iter_at_def)
  next
    fix s'
    assume h: "same_index s s'" "k \<notin> set (vals t)"
    then have "map_of (contents t) k = None" by (metis contents_keys map_of_eq_None_iff set_map)
    then show "same_index s s' \<and> (case map_of (contents t) k of None \<Rightarrow> at_end end_iter
        | Some r \<Rightarrow> \<not> at_end end_iter \<and> it_key end_iter = k \<and> it_rid end_iter = r)"
      using h(1) by (simp add: end_iter_def)
  qed
  then show ?thesis by (simp add: wp_never_iff)
qed

lemma range_ok:
  assumes "index_inv ty s t" and "\<And>l. lo = Some l \<Longrightarrow> typed ty l" and "\<And>h. hi = Some h \<Longrightarrow> typed ty h"
  shows "\<exists>s'. index_collect_range lo lo_inc hi hi_inc s =
           (Inr (map snd (filter (\<lambda>(v, _). in_range lo lo_inc hi hi_inc v) (contents t))), s') \<and>
         same_index s s'"
proof -
  have "\<forall>e \<in> set (flat t). typed ty (key_val e)" using wf_good [OF assms(1)] by (simp add: good_entry_def)
  moreover have "sorted_wrt (<) (map key_val (flat t))"
    using index_invD(4) [OF assms(1)] by (simp add: tree_ok_def vals_def)
  ultimately have "map rid (takeWhile (\<lambda>e. \<not> past_upper hi hi_inc (key_val e)) (from_lower lo lo_inc (flat t))) =
      map snd (filter (\<lambda>(v, _). in_range lo lo_inc hi hi_inc v) (contents t))"
    by (simp add: range_is_filter [OF _ _ assms(3)] contents_def filter_map comp_def)
  then have "wp never (index_collect_range lo lo_inc hi hi_inc) (\<lambda>rs s'.
      rs = map snd (filter (\<lambda>(v, _). in_range lo lo_inc hi hi_inc v) (contents t)) \<and> same_index s s') s"
    by (intro wp_index_collect_range [OF assms(1,2)]) auto
  then show ?thesis by (auto simp: wp_never_iff)
qed

lemma insert_ok:
  assumes "index_inv ty s t" and "typed ty k" and "encoded_value_size k \<le> kMaxIndexKeyBytes"
    and "r < 2 ^ 64" and "k \<notin> set (vals t)" and "takes_key s t k"
  shows "\<exists>s' t'. idx_insert k r s = (Inr (), s') \<and> index_inv ty s' t' \<and>
           contents t' = with_key k r (contents t) \<and> superblock_current s'"
proof -
  have "wp never (idx_insert k r) (\<lambda>_ s'. \<exists>t'. index_inv ty s' t' \<and>
      contents t' = with_key k r (contents t) \<and> superblock_current s') s"
    by (rule wp_insert [OF assms]) blast
  then show ?thesis by (auto simp: wp_never_iff)
qed

section \<open>The interface provided\<close>

definition idx_lookup :: "Value \<Rightarrow> (disk_index, nat option) op" where
  "idx_lookup k = bnd (idx_find k) (\<lambda>it. ret (if iter_eq it end_iter then None else Some (it_rid it)))"

definition index_holds :: "DataType \<Rightarrow> disk_index \<Rightarrow> (Value \<times> nat) list \<Rightarrow> bool" where
  "index_holds ty s kvs \<longleftrightarrow> (\<exists>t. index_inv ty s t \<and> contents t = kvs)"

definition index_room :: "DataType \<Rightarrow> disk_index \<Rightarrow> Value \<Rightarrow> bool" where
  "index_room ty s k \<longleftrightarrow> encoded_value_size k \<le> kMaxIndexKeyBytes \<and> (\<exists>t. index_inv ty s t \<and> takes_key s t k)"

text \<open>The pages determine the tree.\<close>

lemma rep_unique: "rep m t \<Longrightarrow> rep m u \<Longrightarrow> bid t = bid u \<Longrightarrow> t = u"
proof (induction t arbitrary: u)
  case (BLeaf i es nx)
  then show ?case by (cases u) (auto simp: leaf_page_def node_page_def blank_page_def)
next
  case (BNode i ks ts)
  then obtain us where u: "u = BNode i ks us" "map bid us = map bid ts"
    by (cases u) (auto simp: leaf_page_def node_page_def blank_page_def)
  have "length us = length ts" using u(2) map_eq_imp_length_eq by blast
  moreover have "us ! j = ts ! j" if j: "j < length ts" for j
  proof -
    have "bid (us ! j) = bid (ts ! j)" using u(2) j calculation by (metis nth_map)
    then show ?thesis using BNode.IH [of "ts ! j" "us ! j"] BNode.prems u(1) j calculation by simp
  qed
  ultimately show ?case using u(1) by (simp add: list_eq_iff_nth_eq)
qed

lemma index_inv_unique: "index_inv ty s t \<Longrightarrow> index_inv ty s u \<Longrightarrow> t = u"
  using index_invD(3,5) [of ty s t] index_invD(3,5) [of ty s u] by (intro rep_unique) auto

lemma takes_key_same: "same_index s s' \<Longrightarrow> takes_key s' t k = takes_key s t k"
  by (simp add: takes_key_def same_index_def)

lemma index_room_same: "same_index s s' \<Longrightarrow> index_room ty s k \<Longrightarrow> index_room ty s' k"
  using same_index_inv takes_key_same unfolding index_room_def by blast

interpretation disk: key_index idx_lookup idx_insert index_collect_range index_holds index_room
proof unfold_locales
  show "index_holds ty s kvs \<Longrightarrow> distinct (map fst kvs)" for ty s kvs
    using index_invD(4) by (fastforce simp: index_holds_def tree_ok_def strict_sorted_iff)
next
  fix ty s kvs k
  assume "index_holds ty s kvs" and k: "typed ty k"
  then obtain t where t: "index_inv ty s t" "contents t = kvs" unfolding index_holds_def by blast
  obtain it s' where it: "idx_find k s = (Inr it, s')" "same_index s s'"
    "case map_of kvs k of None \<Rightarrow> at_end it | Some r \<Rightarrow> \<not> at_end it \<and> it_key it = k \<and> it_rid it = r"
    using find_ok [OF t(1) k] t(2) by blast
  have "idx_lookup k s = (Inr (map_of kvs k), s')"
    using it(1,3) by (auto simp: idx_lookup_def op_simps iter_eq_end split: option.splits)
  moreover have "index_holds ty s' kvs" using t same_index_inv [OF t(1) it(2)] by (auto simp: index_holds_def)
  ultimately show "\<exists>s'. idx_lookup k s = (Inr (map_of kvs k), s') \<and> index_holds ty s' kvs \<and>
      (\<forall>x. index_room ty s x \<longrightarrow> index_room ty s' x)"
    using index_room_same [OF it(2)] by blast
next
  fix ty s kvs lo hi li hj
  assume "index_holds ty s kvs" and b: "\<And>l. lo = Some l \<Longrightarrow> typed ty l" "\<And>h. hi = Some h \<Longrightarrow> typed ty h"
  then obtain t where t: "index_inv ty s t" "contents t = kvs" unfolding index_holds_def by blast
  show "\<exists>s'. index_collect_range lo li hi hj s =
      (Inr (map snd (filter (\<lambda>(v, _). in_range lo li hi hj v) kvs)), s') \<and>
      index_holds ty s' kvs \<and> (\<forall>x. index_room ty s x \<longrightarrow> index_room ty s' x)"
    using range_ok [OF t(1) b, of lo hi, of li hj] t same_index_inv [OF t(1)] index_room_same
    unfolding index_holds_def by blast
next
  fix ty s kvs k r
  assume h: "index_holds ty s kvs" "typed ty k" "index_room ty s k" "r < (2 :: nat) ^ 64" "k \<notin> fst ` set kvs"
  obtain t where t: "index_inv ty s t" "contents t = kvs" using h(1) unfolding index_holds_def by blast
  then have "takes_key s t k" and size: "encoded_value_size k \<le> kMaxIndexKeyBytes"
    using h(3) index_inv_unique by (auto simp: index_room_def)
  moreover have "k \<notin> set (vals t)" using h(5) t(2) by (metis contents_keys set_map)
  ultimately show "\<exists>s'. idx_insert k r s = (Inr (), s') \<and> index_holds ty s' (with_key k r kvs)"
    using insert_ok [OF t(1) h(2) size h(4)] t(2) by (auto simp: index_holds_def)
next
  fix ty s kvs k r
  assume h: "index_holds ty s kvs" "typed ty k" "index_room ty s k" "r < (2 :: nat) ^ 64" "k \<in> fst ` set kvs"
  obtain t where t: "index_inv ty s t" "contents t = kvs" using h(1) unfolding index_holds_def by blast
  have size: "encoded_value_size k \<le> kMaxIndexKeyBytes" using h(3) by (simp add: index_room_def)
  have "k \<in> set (vals t)" using h(5) t(2) by (metis contents_keys set_map)
  then show "\<exists>s'. idx_insert k r s = (Inl (Runtime_error ''Duplicate index key''), s') \<and> index_holds ty s' kvs"
    using insert_duplicate [OF t(1) h(2) size h(4)] t same_index_inv [OF t(1)] by (auto simp: index_holds_def)
qed

text \<open>A key whose encoding is too long is refused before the file is touched.\<close>

lemma insert_oversized:
  assumes "\<not> is_null k" and "kMaxIndexKeyBytes < encoded_value_size k"
  shows "idx_insert k r s = (Inl (Runtime_error ''Index key too large for disk page''), s)"
  using assms by (simp add: idx_insert_def make_entry_def encode_value_def op_simps)

section \<open>Creating\<close>

lemma create_empty_ok:
  "\<exists>s. create_empty path existing True (new_index []) = (Inr (), s) \<and> index_inv ty s (BLeaf 1 [] 0) \<and>
       idx_count s = 2"
proof -
  obtain q where q: "open_page_file path existing True True (new_pager []) = (Inr (), q)" "pager_inv q"
    "page_count q = 0"
    using open_ok [of "new_pager []" "[]" True existing path]
    by (auto simp: new_pager_def closed_stream_def)
  obtain q1 where q1: "write_page 0 (replicate kPageSize 0) q = (Inr (), q1)" "pager_inv q1"
    "page_count q1 = 1"
    using write_page_ok [OF q(2), of "replicate kPageSize 0" 0] q(3) by auto
  let ?s = "(new_index [])\<lparr>ix_pager := q1\<rparr>"
  let ?Q = "\<lambda>_ s. index_inv ty s (BLeaf 1 [] 0) \<and> idx_count s = 2"
  have "wp never (bnd allocate_node_page (\<lambda>i.
          andthen (modify (\<lambda>s. s\<lparr>root_page := i, first_leaf_page := i, ix_size := 0\<rparr>))
            (andthen (idx_write_page (blank_page i Leaf)) write_superblock))) ?Q ?s"
    unfolding wp_bnd
  proof (rule nodes.wp_alloc)
    fix s1
    assume s1: "idx_inv s1" "node_view s1 = node_view ?s" "idx_count s1 = idx_count ?s + 1"
    let ?s1 = "s1\<lparr>root_page := 1, first_leaf_page := 1, ix_size := 0\<rparr>"
    have "wp never (idx_write_page (blank_page 1 Leaf)) (\<lambda>_ s'. wp never write_superblock ?Q s') ?s1"
    proof (rule wp_write_leaf [where ty = ty])
      fix s2
      assume "wrote ?s1 (page_id (blank_page 1 Leaf)) (leaf_page (page_id (blank_page 1 Leaf))
        (leaf_entries (blank_page 1 Leaf)) (next_leaf (blank_page 1 Leaf))) s2"
      then have s2: "idx_inv s2" "node_view s2 = (node_view ?s1)(1 \<mapsto> leaf_page 1 [] 0)"
        "idx_count s2 = 2" "idx_frame s2 = (1, 1, 0)"
        using s1(3) q1(3) by (simp_all add: wrote_def blank_page_def idx_frame_def)
      show "wp never write_superblock ?Q s2"
        by (rule wp_write_superblock)
          (use s2 in \<open>auto simp: index_inv_def tree_ok_def\<close>)
    qed (use s1 q1(3) in \<open>simp_all add: blank_page_def idx_inv_def leaf_overflow_def
          leaf_payload_bytes_eq kPageSize_def\<close>)
    then show "wp never (andthen (modify (\<lambda>s. s\<lparr>root_page := idx_count ?s, first_leaf_page := idx_count ?s,
          ix_size := 0\<rparr>)) (andthen (idx_write_page (blank_page (idx_count ?s) Leaf)) write_superblock)) ?Q s1"
      using q1(3) by simp
  qed (use q1 in \<open>simp_all add: idx_inv_def\<close>)
  moreover have "on_pager (open_page_file path existing True True) (new_index []) =
      (Inr (), (new_index [])\<lparr>ix_pager := q\<rparr>)"
    using q(1) by (simp add: on_pager_eq new_index_def)
  moreover have "on_pager (write_page 0 (replicate kPageSize 0)) ((new_index [])\<lparr>ix_pager := q\<rparr>) = (Inr (), ?s)"
    using q1(1) by (simp add: on_pager_eq)
  ultimately have "wp never (create_empty path existing True) ?Q (new_index [])"
    unfolding create_empty_def wp_andthen [of _ "on_pager _"] by (simp only: wp_returns)
  then show ?thesis unfolding wp_never_iff by auto
qed

text \<open>A created index is empty and takes any key that is short enough.\<close>

lemma created_index_holds:
  "\<exists>s. create_empty path existing True (new_index []) = (Inr (), s) \<and> index_holds ty s [] \<and>
       (\<forall>k. encoded_value_size k \<le> kMaxIndexKeyBytes \<longrightarrow> index_room ty s k)"
proof -
  obtain s where s: "create_empty path existing True (new_index []) = (Inr (), s)" "index_inv ty s (BLeaf 1 [] 0)"
    using create_empty_ok [of path existing ty] by blast
  have "index_holds ty s []"
    unfolding index_holds_def using s(2) by (intro exI [of _ "BLeaf 1 [] 0"]) (simp add: contents_def)
  moreover have "index_room ty s k" if "encoded_value_size k \<le> kMaxIndexKeyBytes" for k
    unfolding index_room_def using s(2) that
    by (intro conjI exI [of _ "BLeaf 1 [] 0"])
      (simp_all add: takes_key_def leaf_payload_bytes_eq kPageSize_def kMaxIndexKeyBytes_def)
  ultimately show ?thesis using s(1) by blast
qed

end
