(* ===== verification/IndexReopen.thy ===== *)
theory IndexReopen
  imports Index_Contract
begin

text \<open>
  What is on the device after an index was flushed is enough to open it again: the superblock
  finds the root, and the pages are the nodes.
\<close>

section \<open>Opening again\<close>

lemma open_index_ok:
  assumes q: "open_page_file path existing True False (new_pager []) = (Inr (), q)" "pager_inv q"
    and view: "pager_view q = idx_raw s" and count: "page_count q = idx_count s"
    and sb: "superblock_current s" and inv: "index_inv ty s t"
  shows "\<exists>r. open_index path existing True (new_index []) = (Inr (), r) \<and> index_inv ty r t"
proof -
  note I = index_invD [OF inv]
  have "length (flat t) < idx_count s * 2 ^ 16 + 1" by (rule entries_bound [OF inv])
  moreover have "idx_count s < 2 ^ 32" using nodes.count_bound [OF I(1)] .
  moreover have "bid t < idx_count s" using nodes.view_bound [OF I(1) rep_page [OF I(3)]] .
  moreover have "first_id (leaves t) 0 < 2 ^ 32"
  proof (cases "leaves t")
    case (Cons l ls)
    obtain i es nx where l: "l = (i, es, nx)" by (cases l)
    have "node_view s i = Some (leaf_page i es nx)" using rep_leaves [OF I(3)] Cons l by simp
    then have "i < idx_count s" by (rule nodes.view_bound [OF I(1)])
    then show ?thesis using nodes.count_bound [OF I(1)] Cons l by simp
  qed simp
  ultimately have small: "root_page s < 256 ^ 4" "first_leaf_page s < 256 ^ 4" "ix_size s < 256 ^ 8"
    using I(5-7) by simp_all
  obtain q1 where q1: "read_page 0 q = (Inr (superblock_image s), q1)" "pager_inv q1"
    "pager_view q1 = pager_view q" "page_count q1 = page_count q"
    using read_page_ok [OF q(2), of 0 "superblock_image s"] sb view by (auto simp: superblock_current_def)
  have fields: "le_val (peek 0 4 (superblock_image s)) = kIdxMagic"
    "le_val (peek 4 4 (superblock_image s)) = kIdxVersion"
    "le_val (peek 8 4 (superblock_image s)) = root_page s"
    "le_val (peek 12 4 (superblock_image s)) = first_leaf_page s"
    "le_val (peek 16 8 (superblock_image s)) = ix_size s"
    using small unfolding superblock_image_eq
    by (simp_all add: peek_def kIdxMagic_def kIdxVersion_def)
  define r where "r = \<lparr>ix_pager = q1, root_page = root_page s, first_leaf_page = first_leaf_page s,
      ix_size = ix_size s\<rparr>"
  have "open_index path existing True (new_index []) = (Inr (), r)"
    using q(1) q1(1) fields
    by (simp add: open_index_def op_simps on_pager_eq new_index_def r_def)
  moreover have "node_view r = node_view s"
    using q1(3) view by (intro ext) (simp add: node_view_def r_def)
  then have "index_inv ty r t"
    using inv q1(2,4) count by (simp add: index_inv_def idx_inv_def idx_frame_def r_def)
  ultimately show ?thesis by blast
qed

lemma pager_view_eqI:
  assumes "page_count p = page_count q" and "\<And>i. i < page_count q \<Longrightarrow> pager_view p i = pager_view q i"
  shows "pager_view p = pager_view q"
proof
  fix i
  show "pager_view p i = pager_view q i"
    by (cases "i < page_count q") (use assms in \<open>simp_all add: pager_view_def\<close>)
qed

lemma reopen_file:
  assumes n: "length file div kPageSize = page_count p" "page_count p < 2 ^ 32"
    and blocks: "\<forall>i < page_count p. pager_view p i = Some (block kPageSize i file)"
  shows "\<exists>q. open_page_file path (Some file) True False (new_pager []) = (Inr (), q) \<and> pager_inv q \<and>
             pager_view q = pager_view p \<and> page_count q = page_count p"
proof -
  obtain q where q: "open_page_file path (Some file) True False (new_pager []) = (Inr (), q)" "pager_inv q"
    "page_count q = page_count p" "\<forall>i < page_count q. pager_view q i = Some (block kPageSize i file)"
    using open_ok [of "new_pager []" "file" False "Some file" path] n
    by (auto simp: new_pager_def closed_stream_def)
  then have "pager_view q = pager_view p" using blocks by (intro pager_view_eqI) simp_all
  with q show ?thesis by blast
qed

text \<open>Writing the superblock of an index leaves the index as it is.\<close>

lemma superblock_written:
  assumes inv: "index_inv ty s t"
  shows "\<exists>s'. write_superblock s = (Inr (), s') \<and> index_inv ty s' t \<and> superblock_current s'"
proof -
  note I = index_invD [OF inv]
  have "wp never write_superblock (\<lambda>_ s'. index_inv ty s' t \<and> superblock_current s') s"
  proof (rule wp_write_superblock [OF I(1,2)])
    fix s'
    assume s': "idx_inv s'" "node_view s' = (node_view s)(0 := None)" "idx_count s' = idx_count s"
      "idx_frame s' = idx_frame s" "superblock_current s'"
    have "rep (node_view s') t \<longleftrightarrow> rep (node_view s) t"
      using I(4) s'(2) by (intro rep_cong) (auto simp: tree_ok_def)
    then show "index_inv ty s' t \<and> superblock_current s'" using inv s' by (simp add: index_inv_def)
  qed
  then show ?thesis by (simp add: wp_never_iff)
qed

section \<open>Flushing\<close>

lemma flush_then_open:
  assumes "index_inv ty s t"
  shows "\<exists>s' r. flush_index s = (Inr (), s') \<and> index_inv ty s' t \<and>
           open_index path (Some (file_of (ix_pager s'))) True (new_index []) = (Inr (), r) \<and> index_inv ty r t"
proof -
  obtain s1 where s1: "write_superblock s = (Inr (), s1)" "index_inv ty s1 t" "superblock_current s1"
    using superblock_written [OF assms] by blast
  have pg: "pager_inv (ix_pager s1)" using index_invD(1) [OF s1(2)] by (simp add: idx_inv_def)
  obtain q where q: "flush (ix_pager s1) = (Inr (), q)" "pager_inv q" "pager_view q = idx_raw s1"
    "page_count q = idx_count s1" "on_disk q"
    using flush_ok [OF pg] by blast
  let ?s = "s1\<lparr>ix_pager := q\<rparr>"
  have run: "flush_index s = (Inr (), ?s)"
    using s1(1) q(1) by (simp add: flush_index_def andthen_def bnd_def on_pager_eq)
  have inv: "index_inv ty ?s t" using s1(2) q by (simp add: index_inv_def idx_inv_def)
  have sb: "superblock_current ?s"
    using s1(3) q(3) by (simp add: superblock_current_def superblock_image_def)
  note D = consistentD [OF pager_inv_consistent [OF q(2)]]
  have "length (file_of q) div kPageSize = page_count q"
    using q(5) D(8) by (intro blocks_count) (auto simp: on_disk_def)
  moreover have "\<forall>i < page_count q. pager_view q i = Some (block kPageSize i (file_of q))"
    using q(5) by (auto simp: on_disk_def)
  ultimately obtain q' where "open_page_file path (Some (file_of q)) True False (new_pager []) = (Inr (), q')"
    "pager_inv q'" "pager_view q' = pager_view q" "page_count q' = page_count q"
    using reopen_file [of "file_of q" q path] D(5) by blast
  then obtain r where "open_index path (Some (file_of q)) True (new_index []) = (Inr (), r)" "index_inv ty r t"
    using open_index_ok [of path "Some (file_of q)" q' ?s ty t] inv sb by auto
  with run inv show ?thesis by (intro exI [of _ ?s] exI [of _ r]) simp
qed

corollary flush_holds:
  assumes "index_holds ty s kvs"
  shows "\<exists>s'. flush_index s = (Inr (), s') \<and> index_holds ty s' kvs \<and>
           (\<forall>path. \<exists>r. open_index path (Some (file_of (ix_pager s'))) True (new_index []) = (Inr (), r) \<and>
                     index_holds ty r kvs)"
proof -
  obtain t where t: "index_inv ty s t" "contents t = kvs" using assms by (auto simp: index_holds_def)
  obtain s' where s': "flush_index s = (Inr (), s')" "index_inv ty s' t"
    using flush_then_open [OF t(1), of "[]"] by blast
  moreover have "\<exists>r. open_index path (Some (file_of (ix_pager s'))) True (new_index []) = (Inr (), r) \<and>
      index_holds ty r kvs" for path
    using flush_then_open [OF t(1), of path] s'(1) t(2) by (auto simp: index_holds_def)
  ultimately show ?thesis using t(2) by (auto simp: index_holds_def)
qed

end
