(* ===== verification/Index_Results.thy ===== *)
theory Index_Results
  imports IndexReopen
begin

text \<open>
  What \<open>DiskBspIndex\<close> promises its callers: a created index is empty, an insertion adds one key
  in its place or refuses it, searches and range queries agree with the sorted contents, and a
  flushed or closed index is the same when it is opened again. One theorem says what goes
  wrong: an inner root that has to be split cannot be.
\<close>

section \<open>An empty index\<close>

definition example_index :: disk_index where
  "example_index = snd (create_empty ''t.idx'' None True (new_index []))"

lemma example_index_ok: "index_inv ty example_index (BLeaf 1 [] 0)" "idx_count example_index = 2"
  using create_empty_ok [of "''t.idx''" None ty] by (auto simp: example_index_def)

section \<open>Splitting a root\<close>

text \<open>An operation that cannot end normally ends with an error.\<close>

lemma wp_must_fail: "wp E m (\<lambda>_ _. False) s \<Longrightarrow> \<exists>e s'. m s = (Inl e, s') \<and> E e"
  by (auto simp: wp_def split: prod.splits sum.splits)

lemma wp_read_no_node:
  assumes inv: "idx_inv s" and none: "node_view s i = None"
  shows "wp (\<lambda>_. True) (idx_read_page i) Q s"
proof (cases "i < idx_count s")
  case True
  have pg: "pager_inv (ix_pager s)" using inv by (simp add: idx_inv_def)
  obtain raw where raw: "idx_raw s i = Some raw" using pages_of_nth [OF pg True] by blast
  obtain q where "read_page i (ix_pager s) = (Inr raw, q)" using read_page_ok [OF pg raw] by blast
  moreover obtain e where "parse_page i raw = Inl e"
    using none raw by (auto simp: node_view_def parsed_def split: sum.splits)
  ultimately show ?thesis by (simp add: idx_read_page_def wp_def on_pager_eq bnd_def of_sum_def)
next
  case False
  then have "read_page i (ix_pager s) = (Inl (past_end i), ix_pager s)"
    using inv by (intro read_past_end) (simp_all add: idx_inv_def)
  then show ?thesis by (simp add: idx_read_page_def wp_def on_pager_eq bnd_def)
qed

lemma wp_cut_internal:
  assumes inv: "idx_inv s" "0 < idx_count s" "idx_count s + 1 < 2 ^ 32"
    and pg: "node_type pg = Inner" "children pg = map bid ts" "2 \<le> length ts"
    and sub: "\<forall>t \<in> set ts. subtree ty s t"
    and Q: "\<And>node right s'. page_id right = idx_count s \<Longrightarrow> idx_inv s' \<Longrightarrow> node_view s' = node_view s \<Longrightarrow>
              Q (node, right) s'"
  shows "wp E (cut_internal pg) Q s"
  unfolding cut_internal_def wp_bnd
proof (rule nodes.wp_alloc [OF inv])
  fix s1
  assume s1: "idx_inv s1" "node_view s1 = node_view s"
  let ?m = "length ts div 2"
  have m: "0 < ?m" "?m < length ts" using pg(3) by auto
  have sub1: "\<forall>t \<in> set ts. subtree ty s1 t" using sub s1(2) by (simp add: subtree_def)
  have in_tl: "x \<in> set xs" if "x \<in> set (tl xs)" for x and xs :: "btree list"
    using that by (cases xs) auto
  have "wp E (rebuild_internal_keys (pg\<lparr>children := take ?m (children pg)\<rparr>)) (\<lambda>node s2.
      wp E (rebuild_internal_keys ((blank_page (idx_count s) Inner)\<lparr>children := drop ?m (children pg)\<rparr>))
        (\<lambda>right s3. (if children right = [] then E (Logic_error ''Internal split produced empty right child'')
                     else Q (node, right) s3)) s2) s1"
  proof (rule wp_rebuild [where ts = "take ?m ts" and ty = ty, OF s1(1)])
    show "\<forall>t \<in> set (tl (take ?m ts)). subtree ty s1 t" using sub1 in_tl in_set_takeD by metis
    fix s2
    assume s2: "same_index s1 s2"
    show "wp E (rebuild_internal_keys ((blank_page (idx_count s) Inner)\<lparr>children := drop ?m (children pg)\<rparr>))
        (\<lambda>right s3. (if children right = [] then E (Logic_error ''Internal split produced empty right child'')
           else Q (pg\<lparr>children := take ?m (children pg), inner_keys := map (hd \<circ> flat) (tl (take ?m ts)),
             key_count := (length (take ?m ts) - 1) mod 256\<rparr>, right) s3)) s2"
    proof (rule wp_rebuild [where ts = "drop ?m ts" and ty = ty])
      have "\<forall>t \<in> set ts. subtree ty s2 t" using sub1 subtree_same [OF _ s2] by blast
      then show "\<forall>t \<in> set (tl (drop ?m ts)). subtree ty s2 t" using in_tl in_set_dropD by metis
    qed (use s1 s2 m pg Q in \<open>auto simp: same_index_def drop_map blank_page_def\<close>)
  qed (use pg m in \<open>auto simp: take_map\<close>)
  then show "wp E (let cs = children pg; m = length cs div 2
      in bnd (rebuild_internal_keys (pg\<lparr>children := take m cs\<rparr>)) (\<lambda>node.
         bnd (rebuild_internal_keys ((blank_page (idx_count s) Inner)\<lparr>children := drop m cs\<rparr>)) (\<lambda>right.
         andthen (throw_if (children right = []) (Logic_error ''Internal split produced empty right child''))
           (ret (node, right))))) Q s1"
    using pg(2) by (simp add: Let_def)
qed

lemma split_root_fails:
  assumes inv: "idx_inv s" "0 < idx_count s" "idx_count s + 1 < 2 ^ 32"
    and pg: "node_type pg = Inner" "children pg = map bid ts" "2 \<le> length ts"
    and sub: "\<forall>t \<in> set ts. subtree ty s t" and path: "length path \<le> 1"
  shows "\<exists>e s'. split_internal pg path s = (Inl e, s')"
proof -
  have "wp (\<lambda>_. True) (bnd (cut_internal pg) (\<lambda>(node, right).
      bnd (subtree_min_entry (page_id right)) (\<lambda>separator.
      insert_into_parent node separator right path))) (\<lambda>_ _. False) s"
    unfolding wp_bnd
  proof (rule wp_cut_internal [OF inv pg sub])
    fix node right :: ParsedPage and s1
    assume s1: "page_id right = idx_count s" "idx_inv s1" "node_view s1 = node_view s"
    have "node_view s1 (page_id right) = None" using nodes.alloc_fresh [OF inv(1)] s1(1,3) by simp
    then have "wp (\<lambda>_. True) (subtree_min_entry (page_id right)) Q s1" for Q
      unfolding subtree_min_entry_def leftmost_leaf_page_def wp_bnd
      by (intro wp_read_no_node [OF s1(2)])
    then show "wp (\<lambda>_. True) (case (node, right) of (node, right) \<Rightarrow>
        bnd (subtree_min_entry (page_id right)) (\<lambda>separator. insert_into_parent node separator right path))
        (\<lambda>_ _. False) s1"
      by simp
  qed
  then have "wp (\<lambda>_. True) (split_internal pg path) (\<lambda>_ _. False) s"
    using path by (simp add: split_internal.simps [of pg path])
  then show ?thesis by (auto dest: wp_must_fail)
qed

section \<open>An index with one key\<close>

definition one_key_index :: disk_index where
  "one_key_index = snd (idx_insert (VInt 5) 7 example_index)"

lemma five_fits: "typed TInt (VInt 5)" "encoded_value_size (VInt 5) \<le> kMaxIndexKeyBytes"
  by (simp_all add: kMaxIndexKeyBytes_def)

lemma one_key_index_full:
  "\<exists>t. index_inv TInt one_key_index t \<and> contents t = [(VInt 5, 7)] \<and> idx_count one_key_index = 2"
proof -
  have "wp never (idx_insert (VInt 5) 7) (\<lambda>_ s. \<exists>t. index_inv TInt s t \<and> contents t = [(VInt 5, 7)] \<and>
      idx_count s = 2) example_index"
    by (rule wp_insert_empty [OF example_index_ok(1) _ five_fits]) (auto simp: example_index_ok(2))
  then show ?thesis by (auto simp: wp_never_iff one_key_index_def)
qed

lemma one_key_index_ok: "\<exists>t. index_inv TInt one_key_index t \<and> contents t = [(VInt 5, 7)]"
  using one_key_index_full by blast

lemma one_key_index_vals: "contents t = [(VInt 5, 7)] \<Longrightarrow> vals t = [VInt 5]"
  using contents_keys [of t] by simp

section \<open>Results\<close>

text \<open>Creating an index file gives an empty index: no key is found, whatever was in the file before.\<close>

theorem created_index_is_empty:
  "\<exists>s t. create_empty path existing True (new_index []) = (Inr (), s) \<and> index_inv ty s t \<and> contents t = []"
  using create_empty_ok [of path existing ty] by (fastforce simp: contents_def)

text \<open>C1: A point lookup finds exactly what the contents of the index say, through whatever inner
  nodes there are: the record id stored under the key, or the end iterator; it changes nothing.\<close>

theorem find_agrees_with_contents:
  assumes "index_inv ty s t" and "typed ty k"
  shows "\<exists>it s'. idx_find k s = (Inr it, s') \<and> index_inv ty s' t \<and>
           (case map_of (contents t) k of
              None \<Rightarrow> at_end it
            | Some r \<Rightarrow> \<not> at_end it \<and> it_key it = k \<and> it_rid it = r)"
  using find_ok [OF assms] same_index_inv [OF assms(1)] by blast

lemma find_agrees_with_contents_witness:
  "\<exists>it s. idx_find (VInt 5) one_key_index = (Inr it, s) \<and> \<not> at_end it \<and> it_rid it = 7"
proof -
  obtain t where t: "index_inv TInt one_key_index t" "contents t = [(VInt 5, 7)]"
    using one_key_index_ok by blast
  from find_agrees_with_contents [OF t(1) five_fits(1)] t(2) show ?thesis by auto
qed

text \<open>C26: A range query over the chained leaves returns the record ids of exactly the keys in the
  range, in key order, for any bounds: none, inclusive or exclusive.\<close>

theorem range_query_is_filter:
  assumes "index_inv ty s t" and "\<And>l. lo = Some l \<Longrightarrow> typed ty l" and "\<And>h. hi = Some h \<Longrightarrow> typed ty h"
  shows "\<exists>s'. index_collect_range lo lo_inc hi hi_inc s =
           (Inr (map snd (filter (\<lambda>(v, _). in_range lo lo_inc hi hi_inc v) (contents t))), s') \<and>
         index_inv ty s' t"
  using range_ok [OF assms] same_index_inv [OF assms(1)] by blast

lemma range_query_is_filter_witness:
  "\<exists>s. index_collect_range (Some (VInt 3)) True None False one_key_index = (Inr [7], s)"
proof -
  obtain t where t: "index_inv TInt one_key_index t" "contents t = [(VInt 5, 7)]"
    using one_key_index_ok by blast
  have "in_range (Some (VInt 3)) True None False (VInt 5)" by (simp add: in_range_def)
  with range_query_is_filter [OF t(1), of "Some (VInt 3)" None True False] t(2) show ?thesis by auto
qed

text \<open>C2: Inserting a new key succeeds, and the contents are the old ones with the key in its place; every
  invariant of the file holds again. Room is asked for in one of two ways: every leaf has room for
  the key, or all keys have its size and the tree has a root of leaves with room for one more, where
  a full leaf gives an entry to its sibling or leaves are split.\<close>

theorem insert_adds_key:
  assumes "index_inv ty s t" and "typed ty k" and "encoded_value_size k \<le> kMaxIndexKeyBytes"
    and "r < 2 ^ 64" and "k \<notin> set (vals t)" and "takes_key s t k"
  shows "\<exists>s' t'. idx_insert k r s = (Inr (), s') \<and> index_inv ty s' t' \<and>
           contents t' = with_key k r (contents t) \<and> superblock_current s'"
  by (rule insert_ok [OF assms])

lemma insert_adds_key_witness:
  "\<exists>s t. idx_insert (VInt 5) 7 example_index = (Inr (), s) \<and> index_inv TInt s t \<and> contents t = [(VInt 5, 7)]"
proof -
  have "takes_key example_index (BLeaf 1 [] 0) (VInt 5)"
    by (simp add: takes_key_def leaf_payload_bytes_eq kPageSize_def)
  moreover have "contents (BLeaf 1 [] 0) = []" "vals (BLeaf 1 [] 0) = []" by (simp_all add: contents_def)
  ultimately show ?thesis
    using insert_adds_key [OF example_index_ok(1) [of TInt] five_fits, of 7] by (auto simp: with_key_def)
qed

text \<open>A key the index already has is refused with the duplicate error, and the index stays as
  it was.\<close>

theorem duplicate_is_refused:
  assumes "index_inv ty s t" and "typed ty k" and "encoded_value_size k \<le> kMaxIndexKeyBytes"
    and "r < 2 ^ 64" and "k \<in> set (vals t)"
  shows "\<exists>s'. idx_insert k r s = (Inl (Runtime_error ''Duplicate index key''), s') \<and> index_inv ty s' t"
  using insert_duplicate [OF assms] same_index_inv [OF assms(1)] by blast

lemma duplicate_is_refused_witness:
  "\<exists>s. idx_insert (VInt 5) 9 one_key_index = (Inl (Runtime_error ''Duplicate index key''), s)"
proof -
  obtain t where t: "index_inv TInt one_key_index t" "contents t = [(VInt 5, 7)]"
    using one_key_index_ok by blast
  from duplicate_is_refused [OF t(1) five_fits, of 9] one_key_index_vals [OF t(2)] show ?thesis by auto
qed

text \<open>What cannot be a key is refused before the file is touched: NULL, and a key whose encoding
  is longer than the limit of a page.\<close>

theorem bad_keys_are_refused:
  "idx_insert VNull r s = (Inl (Invalid_argument ''Cannot index NULL key''), s) \<and>
   (k \<noteq> VNull \<and> kMaxIndexKeyBytes < encoded_value_size k \<longrightarrow>
    idx_insert k r s = (Inl (Runtime_error ''Index key too large for disk page''), s))"
  by (cases k) (auto simp: idx_insert_def make_entry_def encode_value_def op_simps)

lemma bad_keys_are_refused_witness:
  "idx_insert (VStr (replicate 600 CHR ''x'')) 1 example_index =
     (Inl (Runtime_error ''Index key too large for disk page''), example_index)"
  using bad_keys_are_refused [of 1 example_index "VStr (replicate 600 CHR ''x'')"]
  by (simp add: kMaxIndexKeyBytes_def)

text \<open>C30: A flushed index is durable: opening the file as it is on the device after the flush gives
  an index with the same contents, found through the superblock.\<close>

theorem flushed_index_reopens:
  assumes "index_inv ty s t"
  shows "\<exists>s' r. flush_index s = (Inr (), s') \<and> index_inv ty s' t \<and>
           open_index path (Some (file_of (ix_pager s'))) True (new_index []) = (Inr (), r) \<and> index_inv ty r t"
  by (rule flush_then_open [OF assms])

lemma flushed_index_reopens_witness:
  "\<exists>s r it r'. flush_index one_key_index = (Inr (), s) \<and>
     open_index ''t.idx'' (Some (file_of (ix_pager s))) True (new_index []) = (Inr (), r) \<and>
     idx_begin r = (Inr it, r') \<and> it_rid it = 7"
proof -
  obtain t where t: "index_inv TInt one_key_index t" "contents t = [(VInt 5, 7)]"
    using one_key_index_ok by blast
  obtain s r where r: "flush_index one_key_index = (Inr (), s)" "index_inv TInt r t"
    "open_index ''t.idx'' (Some (file_of (ix_pager s))) True (new_index []) = (Inr (), r)"
    using flushed_index_reopens [OF t(1), of "''t.idx''"] by blast
  obtain e where e: "flat t = [e]" "rid e = 7" using t(2) by (auto simp: contents_def map_eq_Cons_conv)
  have "wp never idx_begin (\<lambda>it _. it_rid it = 7) r"
    by (rule wp_begin [OF r(2)]) (use e in \<open>simp add: iter_at_def\<close>)
  with r show ?thesis by (auto simp: wp_never_iff)
qed

text \<open>The same for closing: after \<open>close\<close> a new object on the file holds the same index.\<close>

theorem closed_index_reopens:
  assumes "index_inv ty s t"
  shows "\<exists>s' r. close_index s = (Inr (), s') \<and>
           open_index path (Some (file_of (ix_pager s'))) True (new_index []) = (Inr (), r) \<and> index_inv ty r t"
proof -
  obtain s1 where s1: "write_superblock s = (Inr (), s1)" "index_inv ty s1 t" "superblock_current s1"
    using superblock_written [OF assms] by blast
  note I = index_invD [OF s1(2)]
  have pg: "pager_inv (ix_pager s1)" using I(1) by (simp add: idx_inv_def)
  have op: "st_open (pg_stream (ix_pager s))"
    using index_invD(1) [OF assms] consistentD(1) by (auto simp: idx_inv_def pager_inv_def healthy_def)
  obtain q where q: "close (ix_pager s1) = (Inr (), q)"
    "length (file_of q) div kPageSize = idx_count s1"
    "\<forall>i < idx_count s1. has_block kPageSize i (file_of q) \<and>
       idx_raw s1 i = Some (block kPageSize i (file_of q))"
    using close_ok [OF pg] by blast
  let ?s = "s1\<lparr>ix_pager := q, ix_size := 0\<rparr>"
  have run: "close_index s = (Inr (), ?s)"
    using op s1(1) q(1) by (simp add: close_index_def andthen_def bnd_def on_pager_eq modify_def)
  obtain q' where "open_page_file path (Some (file_of q)) True False (new_pager []) = (Inr (), q')"
    "pager_inv q'" "pager_view q' = idx_raw s1" "page_count q' = idx_count s1"
    using reopen_file [of "file_of q" "ix_pager s1" path] q nodes.count_bound [OF I(1)] by auto
  then obtain r where "open_index path (Some (file_of q)) True (new_index []) = (Inr (), r)" "index_inv ty r t"
    using open_index_ok [of path "Some (file_of q)" q' s1 ty t] s1(2,3) by auto
  with run show ?thesis by (intro exI [of _ ?s] exI [of _ r]) simp
qed

lemma closed_index_reopens_witness:
  "\<exists>s r. close_index one_key_index = (Inr (), s) \<and>
     open_index ''t.idx'' (Some (file_of (ix_pager s))) True (new_index []) = (Inr (), r)"
proof -
  obtain t where "index_inv TInt one_key_index t" using one_key_index_ok by blast
  from closed_index_reopens [OF this, of "''t.idx''"] show ?thesis by blast
qed

text \<open>C32: \<open>split_internal\<close> of a node without a parent never succeeds. It asks for the least entry of
  the new right node before that node has been written, so the read meets a page that is no node
  and throws. A tree whose inner root is full can therefore not grow, and the insertion that
  tried has already rewritten leaves.\<close>

theorem full_inner_root_cannot_split:
  assumes "idx_inv s" and "0 < idx_count s" and "idx_count s + 1 < 2 ^ 32" and "node_type node = Inner"
    and "children node = map bid ts" and "2 \<le> length ts" and "\<forall>t \<in> set ts. subtree ty s t"
  shows "\<exists>e s'. split_internal node [page_id node] s = (Inl e, s')"
  using split_root_fails [OF assms, of "[page_id node]"] by simp

lemma full_inner_root_cannot_split_witness:
  "\<exists>c e s. split_internal ((blank_page 9 Inner)\<lparr>children := [c, c]\<rparr>) [9] one_key_index = (Inl e, s)"
proof -
  obtain t where t: "index_inv TInt one_key_index t" "contents t = [(VInt 5, 7)]"
    using one_key_index_ok by blast
  note I = index_invD [OF t(1)]
  have ne: "flat t \<noteq> []" using t(2) by (auto simp: contents_def)
  have sub: "subtree TInt one_key_index t"
    using I(3,4) ne by (auto simp: subtree_def tree_ok_def)
  have "idx_count one_key_index + 1 < 2 ^ 32" using one_key_index_full by auto
  then have "\<exists>e s'. split_internal ((blank_page 9 Inner)\<lparr>children := [bid t, bid t]\<rparr>)
      [page_id ((blank_page 9 Inner)\<lparr>children := [bid t, bid t]\<rparr>)] one_key_index = (Inl e, s')"
    using I(1,2) sub by (intro full_inner_root_cannot_split [where ts = "[t, t]" and ty = TInt])
      (auto simp: blank_page_def)
  then show ?thesis by (auto simp: blank_page_def)
qed

end
