(* ===== verification/BulkGuard.thy ===== *)
theory BulkGuard
  imports ValueIO Pager
begin

text \<open>
  The memory check before a bulk build (src/storage/bulk_build_guard.cpp, Linux branch). What it
  asks the operating system is a parameter: the environment variable and the lines of
  \<open>/proc/meminfo\<close>. Sizes are 64-bit and wrap.
\<close>

section \<open>The environment\<close>

record memory_env =
  env_budget :: "string option"
  meminfo :: "string list option"

definition is_space :: "char \<Rightarrow> bool" where
  "is_space c \<longleftrightarrow> c = CHR '' '' \<or> (9 \<le> (of_char c :: nat) \<and> (of_char c :: nat) \<le> 13)"

definition is_digit :: "char \<Rightarrow> bool" where
  "is_digit c \<longleftrightarrow> CHR ''0'' \<le> c \<and> c \<le> CHR ''9''"

definition digits_val :: "string \<Rightarrow> nat" where
  "digits_val ds = foldl (\<lambda>v c. v * 10 + (of_char c - 48)) 0 ds"

text \<open>
  \<open>std::strtoull(s, &end, 10)\<close>, \<open>None\<close> when it leaves \<open>end\<close> at the start: blanks, a sign,
  digits; too large a number gives the largest, a minus sign negates modulo \<open>2 ^ 64\<close>. The
  conversion \<open>%llu\<close> of \<open>sscanf\<close> is the same.
\<close>

definition strtoull :: "string \<Rightarrow> nat option" where
  "strtoull s =
     (let t = dropWhile is_space s;
          neg = (t \<noteq> [] \<and> hd t = CHR ''-'');
          ds = takeWhile is_digit (if t \<noteq> [] \<and> hd t \<in> {CHR ''-'', CHR ''+''} then tl t else t);
          v = digits_val ds
      in if ds = [] then None
         else if 2 ^ 64 \<le> v then Some (2 ^ 64 - 1)
         else Some (if neg then (2 ^ 64 - v) mod 2 ^ 64 else v))"

definition bulk_build_memory_budget_override :: "memory_env \<Rightarrow> nat option" where
  "bulk_build_memory_budget_override env =
     (case env_budget env of
        None \<Rightarrow> None
      | Some p \<Rightarrow> if p = [] then None else strtoull p)"

fun mem_available :: "string list \<Rightarrow> nat option" where
  "mem_available [] = None"
| "mem_available (l # ls) =
     (if take 13 l \<noteq> ''MemAvailable:'' then mem_available ls
      else case strtoull (drop 13 l) of
        None \<Rightarrow> None
      | Some kb \<Rightarrow> Some (kb * 1024 mod 2 ^ 64))"

definition available_memory_bytes :: "memory_env \<Rightarrow> nat option" where
  "available_memory_bytes env = (case meminfo env of None \<Rightarrow> None | Some ls \<Rightarrow> mem_available ls)"

section \<open>The check\<close>

definition kPerEntryOverhead :: nat where
  "kPerEntryOverhead = 96"

text \<open>A pair of a value (tag and union, 16 bytes) and a 64-bit id.\<close>

definition pair_bytes :: nat where
  "pair_bytes = 24"

definition estimate_bulk_build_bytes :: "nat \<Rightarrow> nat \<Rightarrow> nat" where
  "estimate_bulk_build_bytes entry_count total_encoded_key_bytes =
     (entry_count * kPerEntryOverhead + total_encoded_key_bytes * 2 + entry_count * pair_bytes
      + kDefaultPageCacheCapacity * kPageSize) mod 2 ^ 64"

fun check_bulk_keys :: "(Value \<times> nat) list \<Rightarrow> nat \<Rightarrow> error + nat" where
  "check_bulk_keys [] total_key_bytes = Inr total_key_bytes"
| "check_bulk_keys ((k, r) # es) total_key_bytes =
     (if is_null k
      then Inl (Runtime_error (''bulk_build: NULL index key for record id '' @ nat_str r))
      else if kMaxIndexKeyBytes < encoded_value_size k
      then Inl (Runtime_error (''bulk_build: index key too large for record id '' @ nat_str r))
      else check_bulk_keys es ((total_key_bytes + encoded_value_size k) mod 2 ^ 64))"

text \<open>
  A quarter of the available memory: the product with \<open>0.25\<close> in \<open>double\<close> is exact for a
  multiple of 1024 below \<open>2 ^ 63\<close>.
\<close>

definition bulk_budget :: "memory_env \<Rightarrow> nat option" where
  "bulk_budget env =
     (case bulk_build_memory_budget_override env of
        Some b \<Rightarrow> Some b
      | None \<Rightarrow> (case available_memory_bytes env of
          None \<Rightarrow> None
        | Some a \<Rightarrow> if a = 0 then None else Some (a div 4)))"

definition over_budget_message :: "memory_env \<Rightarrow> nat \<Rightarrow> nat \<Rightarrow> string" where
  "over_budget_message env need budget =
     ''bulk_build: estimated memory '' @ nat_str need @ '' bytes exceeds budget '' @ nat_str budget
     @ '' bytes'' @
     (if bulk_build_memory_budget_override env \<noteq> None then []
      else case available_memory_bytes env of
        None \<Rightarrow> []
      | Some a \<Rightarrow> if a = 0 then []
                  else '' (25% of available '' @ nat_str a @ '' bytes)'')"

definition validate_bulk_build_input :: "memory_env \<Rightarrow> (Value \<times> nat) list \<Rightarrow> error + unit" where
  "validate_bulk_build_input env entries =
     (case check_bulk_keys entries 0 of
        Inl e \<Rightarrow> Inl e
      | Inr total_key_bytes \<Rightarrow>
          let need = estimate_bulk_build_bytes (length entries) total_key_bytes
          in case bulk_budget env of
               None \<Rightarrow> Inr ()
             | Some budget \<Rightarrow>
                 if budget < need then Inl (Runtime_error (over_budget_message env need budget))
                 else Inr ())"

section \<open>What it accepts\<close>

lemma check_bulk_keys_ok:
  "check_bulk_keys es n = Inr m \<longleftrightarrow>
     (\<forall>(k, r) \<in> set es. \<not> is_null k \<and> encoded_value_size k \<le> kMaxIndexKeyBytes) \<and>
     m = (if es = [] then n else (n + (\<Sum>(k, r) \<leftarrow> es. encoded_value_size k)) mod 2 ^ 64)"
proof (induction es n rule: check_bulk_keys.induct)
  case (1 n)
  then show ?case by auto
next
  case (2 k r es n)
  then show ?case
    by (cases "es = []") (auto simp: mod_simps add.assoc)
qed

lemma validate_ok_keys:
  assumes "validate_bulk_build_input env es = Inr ()"
  shows "\<forall>(k, r) \<in> set es. \<not> is_null k \<and> encoded_value_size k \<le> kMaxIndexKeyBytes"
  using assms check_bulk_keys_ok [of es 0]
  by (auto simp: validate_bulk_build_input_def split: sum.splits)

section \<open>Numbers in decimal\<close>

text \<open>\<open>std::to_string\<close> of an integer, and reading the digits it writes.\<close>

definition int_str :: "int \<Rightarrow> string" where
  "int_str i = (if i < 0 then CHR ''-'' # nat_str (nat (- i)) else nat_str (nat i))"

lemma digit_char: "d < 10 \<Longrightarrow> of_char (char_of (48 + d) :: char) = (48 + d :: nat)"
  by simp

lemma is_digit_char: "d < 10 \<Longrightarrow> is_digit (char_of (48 + d :: nat))"
  by (auto simp: is_digit_def less_eq_char_def less_char_def)

lemma nat_str_digits: "\<forall>c \<in> set (nat_str n). is_digit c"
proof (induction n rule: nat_str.induct)
  case (1 n)
  then show ?case by (subst nat_str.simps) (auto simp: is_digit_char)
qed

lemma nat_str_nonempty [simp]: "nat_str n \<noteq> []"
  by (subst nat_str.simps) simp

lemma digits_val_append1: "digits_val (ds @ [c]) = digits_val ds * 10 + (of_char c - 48)"
  by (simp add: digits_val_def)

lemma digits_val_nat_str: "digits_val (nat_str n) = n"
proof (induction n rule: nat_str.induct)
  case (1 n)
  show ?case
  proof (cases "n < 10")
    case True
    then show ?thesis by (subst nat_str.simps) (simp add: digits_val_def)
  next
    case False
    then have "digits_val (nat_str (n div 10)) = n div 10" by (rule "1")
    moreover have "nat_str n = nat_str (n div 10) @ [char_of (48 + n mod 10)]"
      using False by (subst nat_str.simps) simp
    ultimately show ?thesis by (simp add: digits_val_append1)
  qed
qed

lemma digit_not: "is_digit c \<Longrightarrow> \<not> is_space c \<and> c \<noteq> CHR ''-'' \<and> c \<noteq> CHR ''+'' \<and> c \<noteq> CHR '' '' \<and> c \<noteq> CHR 0x09"
  by (auto simp: is_digit_def is_space_def less_eq_char_def)

lemma tolower_digit: "is_digit c \<Longrightarrow> tolower c = c"
  by (auto simp: is_digit_def tolower_def less_eq_char_def)

end
