(* ===== verification/IndexBulk.thy ===== *)
theory IndexBulk
  imports IndexInsert BulkGuard
begin

text \<open>
  \<open>DiskBspIndex::bulk_build\<close> and \<open>bulk_build_from_flat\<close>: the check of the input, filling leaves
  to the brim and chaining them, and building the levels of inner nodes over them. The loop
  over the levels ends because a level of two or more nodes gives one with fewer; the fuel is
  the number of nodes.
\<close>

section \<open>The leaves\<close>

definition write_leaf_chunk :: "LeafEntry list \<Rightarrow> (disk_index, nat) op" where
  "write_leaf_chunk chunk =
     bnd allocate_node_page (\<lambda>i.
     andthen (idx_write_page ((blank_page i Leaf)\<lparr>leaf_entries := chunk\<rparr>)) (ret i))"

fun write_leaves :: "LeafEntry list \<Rightarrow> LeafEntry list \<Rightarrow> nat \<Rightarrow> nat list \<Rightarrow> (disk_index, nat list) op" where
  "write_leaves [] chunk chunk_bytes leaf_pages =
     (if chunk \<noteq> [] then bnd (write_leaf_chunk chunk) (\<lambda>i. ret (leaf_pages @ [i]))
      else ret leaf_pages)"
| "write_leaves (e # es) chunk chunk_bytes leaf_pages =
     (let need = leaf_entry_bytes (key_len e)
      in if chunk \<noteq> [] \<and> kPageSize < chunk_bytes + need
         then bnd (write_leaf_chunk chunk) (\<lambda>i.
              write_leaves es [e] (kLeafHeader + need) (leaf_pages @ [i]))
         else write_leaves es (chunk @ [e]) (chunk_bytes + need) leaf_pages)"

fun link_leaves :: "nat list \<Rightarrow> (disk_index, unit) op" where
  "link_leaves (i # j # is) =
     bnd (idx_read_page i) (\<lambda>p.
     andthen (idx_write_page (p\<lparr>next_leaf := j\<rparr>)) (link_leaves (j # is)))"
| "link_leaves _ = ret ()"

section \<open>The levels above\<close>

text \<open>
  The children one inner node takes from the rest of its level: the first two always, the next
  ones while an estimate of the page's size allows.
\<close>

fun take_children :: "nat list \<Rightarrow> nat list \<Rightarrow> LeafEntry list \<Rightarrow> nat
                      \<Rightarrow> (disk_index, nat list \<times> LeafEntry list \<times> nat list) op" where
  "take_children [] cs ks page_bytes = ret (cs, ks, [])"
| "take_children (j # js) cs ks page_bytes =
     bnd (separator_key_for_page j) (\<lambda>sep.
     if ks \<noteq> [] \<and> kPageSize < page_bytes + (leaf_entry_bytes (key_len sep) + 4)
     then ret (cs, ks, j # js)
     else take_children js (cs @ [j]) (ks @ [sep])
            (inner_payload_bytes (ks @ [sep]) (length (cs @ [j]))))"

fun build_level :: "nat \<Rightarrow> nat list \<Rightarrow> (disk_index, nat list) op" where
  "build_level fuel [] = ret []"
| "build_level 0 (i # is) = throw Nontermination"
| "build_level (Suc fuel) (i # is) =
     bnd (take_children is [i] [] (kInnerHeader + 4)) (\<lambda>(cs, ks, rest).
     andthen
       (throw_if (length cs = 1 \<and> is \<noteq> [])
          (Runtime_error ''Inner index page cannot fit a separator key during bulk build''))
       (bnd allocate_node_page (\<lambda>inner.
        andthen
          (idx_write_page ((blank_page inner Inner)\<lparr>children := cs, inner_keys := ks,
                                                   key_count := length ks mod 256\<rparr>))
          (bnd (build_level fuel rest) (\<lambda>next. ret (inner # next))))))"

fun build_levels :: "nat \<Rightarrow> nat list \<Rightarrow> (disk_index, nat) op" where
  "build_levels fuel [] = throw Undefined_behaviour"
| "build_levels fuel [i] = ret i"
| "build_levels 0 (i # j # is) = throw Nontermination"
| "build_levels (Suc fuel) (i # j # is) =
     bnd (build_level (length (i # j # is)) (i # j # is)) (build_levels fuel)"

section \<open>Bulk build\<close>

definition bulk_build_from_flat :: "LeafEntry list \<Rightarrow> (disk_index, unit) op" where
  "bulk_build_from_flat flat =
     andthen (on_pager (write_page 0 (replicate kPageSize 0)))
       (andthen (modify (\<lambda>s. s\<lparr>ix_size := length flat\<rparr>))
         (if flat = [] then
            bnd allocate_node_page (\<lambda>i.
            andthen (modify (\<lambda>s. s\<lparr>root_page := i, first_leaf_page := i\<rparr>))
              (andthen (idx_write_page (blank_page i Leaf))
                (andthen write_superblock (on_pager flush))))
          else
            bnd (write_leaves flat [] kLeafHeader []) (\<lambda>leaf_pages.
            andthen (link_leaves leaf_pages)
              (andthen (modify (\<lambda>s. s\<lparr>first_leaf_page := hd leaf_pages\<rparr>))
                (bnd (build_levels (length leaf_pages) leaf_pages) (\<lambda>root.
                 andthen (modify (\<lambda>s. s\<lparr>root_page := root\<rparr>))
                   (andthen write_superblock (on_pager flush))))))))"

fun make_entries :: "(Value \<times> nat) list \<Rightarrow> error + LeafEntry list" where
  "make_entries [] = Inr []"
| "make_entries ((k, r) # es) =
     (case make_entry k r of
        Inl e \<Rightarrow> Inl e
      | Inr ent \<Rightarrow> map_sum id ((#) ent) (make_entries es))"

fun check_increasing :: "LeafEntry list \<Rightarrow> error + unit" where
  "check_increasing (a # b # es) =
     (case compare_encoded_keys (key a) (key_len a) (key b) (key_len b) of
        Inl e \<Rightarrow> Inl e
      | Inr c \<Rightarrow> if 0 \<le> c
                 then Inl (Runtime_error
                   ''bulk_build requires strictly increasing unique keys (sort input first)'')
                 else check_increasing (b # es))"
| "check_increasing _ = Inr ()"

definition bulk_build ::
    "memory_env \<Rightarrow> string \<Rightarrow> byte list option \<Rightarrow> bool \<Rightarrow> (Value \<times> nat) list \<Rightarrow> (disk_index, unit) op" where
  "bulk_build env path existing openable entries =
     andthen (of_sum (validate_bulk_build_input env entries))
       (bnd (of_sum (make_entries entries)) (\<lambda>flat.
        andthen (of_sum (check_increasing flat))
          (andthen (on_pager (open_page_file path existing openable True))
            (bulk_build_from_flat flat))))"

end
