(* ===== verification/IndexBulk_Correct.thy ===== *)
theory IndexBulk_Correct
  imports IndexBulk IndexInsert_Correct
begin

text \<open>
  The bulk build gives the tree of its input: leaves filled from left to right and chained, and
  levels of inner nodes above them until one node is left. The only thing that can go wrong is
  the one-byte count of an inner node: its page has room for more than 255 of the shortest keys.
\<close>

section \<open>Filling leaves\<close>

fun chunks :: "LeafEntry list \<Rightarrow> LeafEntry list \<Rightarrow> nat \<Rightarrow> LeafEntry list list" where
  "chunks [] chunk bytes = (if chunk = [] then [] else [chunk])"
| "chunks (e # es) chunk bytes =
     (if chunk \<noteq> [] \<and> kPageSize < bytes + leaf_entry_bytes (key_len e)
      then chunk # chunks es [e] (kLeafHeader + leaf_entry_bytes (key_len e))
      else chunks es (chunk @ [e]) (bytes + leaf_entry_bytes (key_len e)))"

lemma payload_append: "leaf_payload_bytes (es @ [e]) = leaf_payload_bytes es + leaf_entry_bytes (key_len e)"
  by (simp add: leaf_payload_bytes_eq leaf_entry_bytes_def)

lemma chunks_facts:
  assumes "bytes = leaf_payload_bytes chunk" and "\<not> leaf_overflow chunk"
    and "\<forall>e \<in> set es. key_len e \<le> kMaxIndexKeyBytes"
  shows "concat (chunks es chunk bytes) = chunk @ es \<and> (\<forall>c \<in> set (chunks es chunk bytes). c \<noteq> [] \<and> \<not> leaf_overflow c)"
  using assms
proof (induction es chunk bytes rule: chunks.induct)
  case (1 chunk bytes)
  then show ?case by simp
next
  case (2 e es chunk bytes)
  have one: "\<not> leaf_overflow [e]"
    using "2.prems"(3) by (simp add: leaf_overflow_def leaf_payload_bytes_eq kPageSize_def kMaxIndexKeyBytes_def)
  show ?case
  proof (cases "chunk \<noteq> [] \<and> kPageSize < bytes + leaf_entry_bytes (key_len e)")
    case True
    have "kLeafHeader + leaf_entry_bytes (key_len e) = leaf_payload_bytes [e]"
      by (simp add: leaf_payload_bytes_eq kLeafHeader_def leaf_entry_bytes_def)
    then show ?thesis using "2.IH"(1) [OF True] "2.prems" one True by simp
  next
    case False
    then have "\<not> leaf_overflow (chunk @ [e])"
      using one "2.prems"(1) by (cases "chunk = []") (auto simp: leaf_overflow_def payload_append)
    then show ?thesis using "2.IH"(2) [OF False] "2.prems" False by (auto simp: payload_append)
  qed
qed

lemma chunks_start:
  assumes "\<forall>e \<in> set es. key_len e \<le> kMaxIndexKeyBytes"
  shows "concat (chunks es [] kLeafHeader) = es" "c \<in> set (chunks es [] kLeafHeader) \<Longrightarrow> c \<noteq> [] \<and> \<not> leaf_overflow c"
  using chunks_facts [of kLeafHeader "[]" es] assms
  by (simp_all add: leaf_payload_bytes_eq kLeafHeader_def leaf_overflow_def kPageSize_def)

lemma chunks_length: "length (chunks es chunk bytes) \<le> length es + (if chunk = [] then 0 else 1)"
proof (induction es chunk bytes rule: chunks.induct)
  case (2 e es chunk bytes)
  show ?case
  proof (cases "chunk \<noteq> [] \<and> kPageSize < bytes + leaf_entry_bytes (key_len e)")
    case True
    then show ?thesis using "2.IH"(1) by simp
  next
    case False
    show ?thesis using "2.IH"(2) [OF False] False by (auto split: if_splits)
  qed
qed simp

text \<open>Every chunk becomes a leaf on a page of its own, the pages one after the other.\<close>

definition unlinked :: "disk_index \<Rightarrow> (nat \<times> LeafEntry list) list \<Rightarrow> bool" where
  "unlinked s ps \<longleftrightarrow> (\<forall>(i, es) \<in> set ps. node_view s i = Some (leaf_page i es 0))"

lemma unlinked_cong:
  "unlinked s ps \<Longrightarrow> (\<And>i. i \<in> fst ` set ps \<Longrightarrow> node_view s' i = node_view s i) \<Longrightarrow> unlinked s' ps"
  unfolding unlinked_def by (metis (mono_tags, lifting) case_prodD case_prodI2 fst_conv imageI)

definition good_leaf :: "DataType \<Rightarrow> LeafEntry list \<Rightarrow> bool" where
  "good_leaf ty es \<longleftrightarrow> leaf_ok ty es \<and> sorted_wrt (<) (map key_val es)"

lemma wp_write_chunk:
  assumes inv: "idx_inv s" "0 < idx_count s" "idx_count s + 1 < 2 ^ 32" and ok: "good_leaf ty c"
    and Q: "\<And>s'. idx_inv s' \<Longrightarrow> node_view s' = (node_view s)(idx_count s \<mapsto> leaf_page (idx_count s) c 0) \<Longrightarrow>
      idx_count s' = idx_count s + 1 \<Longrightarrow> idx_frame s' = idx_frame s \<Longrightarrow> Q (idx_count s) s'"
  shows "wp E (write_leaf_chunk c) Q s"
  unfolding write_leaf_chunk_def wp_bnd
proof (rule nodes.wp_alloc [OF inv])
  fix s1
  assume s1: "idx_inv s1" "node_view s1 = node_view s" "idx_count s1 = idx_count s + 1" "idx_frame s1 = idx_frame s"
  let ?p = "(blank_page (idx_count s) Leaf)\<lparr>leaf_entries := c\<rparr>"
  have "wp E (idx_write_page ?p) (\<lambda>_. Q (idx_count s)) s1"
  proof (rule wp_write_leaf [OF s1(1), where ty = ty])
    fix s2 assume "wrote s1 (page_id ?p) (leaf_page (page_id ?p) (leaf_entries ?p) (next_leaf ?p)) s2"
    then show "Q (idx_count s) s2" using s1 by (intro Q) (simp_all add: wrote_def blank_page_def)
  qed (use ok s1(3) in \<open>simp_all add: blank_page_def good_leaf_def leaf_ok_def\<close>)
  then show "wp E (andthen (idx_write_page ?p) (ret (idx_count s))) Q s1" by simp
qed

lemma wp_write_leaves:
  assumes "idx_inv s" and "0 < idx_count s" and "idx_count s + length (chunks es chunk bytes) < 2 ^ 32"
    and "\<forall>c \<in> set (chunks es chunk bytes). good_leaf ty c"
    and "\<And>s'. idx_inv s' \<Longrightarrow> unlinked s' (enumerate (idx_count s) (chunks es chunk bytes)) \<Longrightarrow>
      \<forall>i < idx_count s. node_view s' i = node_view s i \<Longrightarrow>
      idx_count s' = idx_count s + length (chunks es chunk bytes) \<Longrightarrow> idx_frame s' = idx_frame s \<Longrightarrow>
      Q (pages @ map fst (enumerate (idx_count s) (chunks es chunk bytes))) s'"
  shows "wp E (write_leaves es chunk bytes pages) Q s"
  using assms
proof (induction es chunk bytes pages arbitrary: s rule: write_leaves.induct)
  case (1 chunk bytes pages)
  show ?case
  proof (cases "chunk = []")
    case True
    then show ?thesis using "1.prems" by (simp add: unlinked_def)
  next
    case False
    have "wp E (write_leaf_chunk chunk) (\<lambda>i. Q (pages @ [i])) s"
      by (rule wp_write_chunk [OF "1.prems"(1,2), where ty = ty])
        (use False "1.prems"(3-) in \<open>auto simp: unlinked_def\<close>)
    then show ?thesis using False by simp
  qed
next
  case (2 e es chunk bytes pages)
  show ?case
  proof (cases "chunk \<noteq> [] \<and> kPageSize < bytes + leaf_entry_bytes (key_len e)")
    case True
    let ?cs = "chunks es [e] (kLeafHeader + leaf_entry_bytes (key_len e))"
    have cs: "chunks (e # es) chunk bytes = chunk # ?cs" using True by simp
    have "wp E (write_leaf_chunk chunk) (\<lambda>i. wp E (write_leaves es [e] (kLeafHeader + leaf_entry_bytes (key_len e)) (pages @ [i])) Q) s"
    proof (rule wp_write_chunk [OF "2.prems"(1,2), where ty = ty])
      show "idx_count s + 1 < 2 ^ 32" "good_leaf ty chunk" using "2.prems"(3,4) unfolding cs by simp_all
      fix s1
      assume s1: "idx_inv s1" "node_view s1 = (node_view s)(idx_count s \<mapsto> leaf_page (idx_count s) chunk 0)"
        "idx_count s1 = idx_count s + 1" "idx_frame s1 = idx_frame s"
      show "wp E (write_leaves es [e] (kLeafHeader + leaf_entry_bytes (key_len e)) (pages @ [idx_count s])) Q s1"
      proof (rule "2.IH"(1) [OF refl True s1(1)])
        fix s'
        assume s': "idx_inv s'" "unlinked s' (enumerate (idx_count s1) ?cs)" "\<forall>i < idx_count s1. node_view s' i = node_view s1 i"
          "idx_count s' = idx_count s1 + length ?cs" "idx_frame s' = idx_frame s1"
        have "unlinked s' (enumerate (idx_count s) (chunk # ?cs))" using s'(2,3) s1(2,3) by (simp add: unlinked_def)
        then show "Q ((pages @ [idx_count s]) @ map fst (enumerate (idx_count s1) ?cs)) s'"
          using "2.prems"(5) [of s'] s' s1 unfolding cs by simp
      qed (use s1 "2.prems"(3,4) in \<open>simp_all only: cs\<close>, simp_all)
    qed
    then show ?thesis using True by (simp add: Let_def)
  next
    case False
    then have cs: "chunks (e # es) chunk bytes = chunks es (chunk @ [e]) (bytes + leaf_entry_bytes (key_len e))" by auto
    have "write_leaves (e # es) chunk bytes pages = write_leaves es (chunk @ [e]) (bytes + leaf_entry_bytes (key_len e)) pages"
      using False by (auto simp: Let_def)
    then show ?thesis using "2.IH"(2) [OF refl False "2.prems"(1,2)] "2.prems"(3-5) unfolding cs by simp
  qed
qed

section \<open>Chaining them\<close>

fun chain :: "(nat \<times> LeafEntry list) list \<Rightarrow> (nat \<times> LeafEntry list \<times> nat) list" where
  "chain ((i, es) # (j, fs) # ps) = (i, es, j) # chain ((j, fs) # ps)"
| "chain [(i, es)] = [(i, es, 0)]"
| "chain [] = []"

lemma chain_facts: "map fst (chain ps) = map fst ps" "map leaf_es (chain ps) = map snd ps" "chained (chain ps) 0"
  "first_id (chain ps) 0 = (if ps = [] then 0 else fst (hd ps))"
  by (induction ps rule: chain.induct) (simp_all add: leaf_es_def split: list.splits)

lemma length_chain: "length (chain ps) = length ps"
  using arg_cong [OF chain_facts(1) [of ps], of length] by (simp only: length_map)

lemma wp_link_leaves:
  assumes "idx_inv s" and "unlinked s ps" and "distinct (map fst ps)" and "\<forall>(i, es) \<in> set ps. good_leaf ty es"
    and "\<And>s'. idx_inv s' \<Longrightarrow> \<forall>l \<in> set (chain ps). rep (node_view s') (mkleaf l) \<Longrightarrow>
      \<forall>i. i \<notin> fst ` set ps \<longrightarrow> node_view s' i = node_view s i \<Longrightarrow>
      idx_count s' = idx_count s \<Longrightarrow> idx_frame s' = idx_frame s \<Longrightarrow> Q () s'"
  shows "wp E (link_leaves (map fst ps)) Q s"
  using assms
proof (induction ps arbitrary: s rule: chain.induct)
  case (1 i es j fs ps)
  let ?ps = "(j, fs) # ps"
  have view: "node_view s i = Some (leaf_page i es 0)" "node_view s j = Some (leaf_page j fs 0)"
    using "1.prems"(2) by (simp_all add: unlinked_def)
  have lt: "i < idx_count s" "j < 2 ^ 32"
    using nodes.view_bound [OF "1.prems"(1) view(1)] nodes.view_bound [OF "1.prems"(1) view(2)]
      nodes.count_bound [OF "1.prems"(1)] by simp_all
  have es: "good_leaf ty es" using "1.prems"(4) by simp
  have "wp E (idx_read_page i) (\<lambda>p. wp E (idx_write_page (p\<lparr>next_leaf := j\<rparr>)) (\<lambda>_. wp E (link_leaves (map fst ?ps)) Q)) s"
  proof (rule wp_read_node [OF "1.prems"(1) view(1)])
    fix s1
    assume s1: "idx_inv s1" "node_view s1 = node_view s" "idx_count s1 = idx_count s" "idx_frame s1 = idx_frame s"
    let ?p = "(leaf_page i es 0)\<lparr>next_leaf := j\<rparr>"
    have p: "page_id ?p = i" "leaf_entries ?p = es" "node_type ?p = Leaf" "children ?p = []" "next_leaf ?p = j"
      by (simp_all add: leaf_page_def blank_page_def)
    show "wp E (idx_write_page ?p) (\<lambda>_. wp E (link_leaves (map fst ?ps)) Q) s1"
    proof (rule wp_write_leaf [OF s1(1) p(3), where ty = ty])
      fix s2
      assume "wrote s1 (page_id ?p) (leaf_page (page_id ?p) (leaf_entries ?p) (next_leaf ?p)) s2"
      then have s2: "idx_inv s2" "node_view s2 = (node_view s)(i \<mapsto> leaf_page i es j)" "idx_count s2 = idx_count s"
        "idx_frame s2 = idx_frame s"
        using s1 unfolding p by (simp_all add: wrote_def)
      have i: "i \<notin> fst ` set ?ps" using "1.prems"(3) by auto
      have "unlinked s ?ps" using "1.prems"(2) by (simp add: unlinked_def)
      then have "unlinked s2 ?ps" by (rule unlinked_cong) (use i s2(2) in auto)
      then show "wp E (link_leaves (map fst ?ps)) Q s2"
      proof (rule "1.IH" [OF s2(1)])
        fix s'
        assume s': "idx_inv s'" "\<forall>l \<in> set (chain ?ps). rep (node_view s') (mkleaf l)"
          "\<forall>k. k \<notin> fst ` set ?ps \<longrightarrow> node_view s' k = node_view s2 k" "idx_count s' = idx_count s2" "idx_frame s' = idx_frame s2"
        have "node_view s' i = Some (leaf_page i es j)" using s'(3) i s2(2) by simp
        then show "Q () s'"
          using s' s2 i by (intro "1.prems"(5)) auto
      qed (use "1.prems"(3,4) in simp_all)
    qed (use es lt s1(3) p in \<open>simp_all add: good_leaf_def leaf_ok_def\<close>)
  qed
  then show ?case by simp
next
  case (2 i es)
  then show ?case by (simp add: unlinked_def)
next
  case 3
  then show ?case by simp
qed

section \<open>One level above another\<close>

text \<open>The nodes of one level, from left to right, with all that is below them.\<close>

definition forest :: "DataType \<Rightarrow> nat \<Rightarrow> disk_index \<Rightarrow> btree list \<Rightarrow> bool" where
  "forest ty h s ts \<longleftrightarrow> idx_inv s \<and> 0 < idx_count s \<and>
     (\<forall>t \<in> set ts. rep (node_view s) t \<and> wf_tree ty t \<and> bal h t) \<and>
     distinct (concat (map ids ts)) \<and> 0 \<notin> set (concat (map ids ts))"

lemma forest_subtree: "forest ty h s ts \<Longrightarrow> t \<in> set ts \<Longrightarrow> subtree ty s t"
  by (auto simp: forest_def subtree_def distinct_concat_iff)

lemma forest_same: "forest ty h s ts \<Longrightarrow> same_index s s' \<Longrightarrow> forest ty h s' ts"
  by (simp add: forest_def same_index_def)

lemma forest_ids:
  assumes "forest ty h s ts" and "i \<in> set (concat (map ids ts))"
  shows "i < idx_count s"
proof -
  obtain t where t: "t \<in> set ts" "i \<in> set (ids t)" using assms(2) by auto
  have "set (ids t) \<subseteq> {..<idx_count s}"
    using forest_subtree [OF assms(1) t(1)] assms(1) by (intro ids_count(1)) (auto simp: subtree_def forest_def)
  then show ?thesis using t(2) by auto
qed

text \<open>Writing at pages that are new leaves a level as it is.\<close>

lemma forest_frame:
  assumes "forest ty h s ts" and "idx_inv s'" and "idx_count s \<le> idx_count s'"
    and "\<forall>i < idx_count s. node_view s' i = node_view s i"
  shows "forest ty h s' ts"
proof -
  have "rep (node_view s') t" if t: "t \<in> set ts" for t
  proof -
    have "i < idx_count s" if "i \<in> set (ids t)" for i using forest_ids [OF assms(1)] that t by auto
    then have "rep (node_view s') t = rep (node_view s) t" using assms(4) by (intro rep_cong) auto
    then show ?thesis using assms(1) t by (simp add: forest_def)
  qed
  then show ?thesis using assms by (simp add: forest_def)
qed

text \<open>The separators of a group of children.\<close>

definition mins :: "btree list \<Rightarrow> LeafEntry list" where
  "mins g = map (hd \<circ> flat) (tl g)"

lemma mins_snoc: "g \<noteq> [] \<Longrightarrow> mins (g @ [u]) = mins g @ [hd (flat u)]"
  by (cases g) (simp_all add: mins_def)

lemma mins_empty: "g \<noteq> [] \<Longrightarrow> mins g = [] \<longleftrightarrow> length g = 1"
  by (cases g) (simp_all add: mins_def)

lemma mins_mem: "k \<in> set (mins g) \<Longrightarrow> \<exists>t \<in> set g. k = hd (flat t)"
  by (cases g) (auto simp: mins_def)

lemma wp_separator:
  assumes "idx_inv s" and "subtree ty s t" and "\<And>s'. same_index s s' \<Longrightarrow> Q (hd (flat t)) s'"
  shows "wp E (separator_key_for_page (bid t)) Q s"
  unfolding separator_key_for_page_def wp_bnd
proof (rule wp_read_sub [OF assms(1)])
  show "rep (node_view s) t" using assms(2) by (simp add: subtree_def)
  fix s1 assume s1: "same_index s s1"
  show "wp E (if node_type (page_of t) = Leaf
      then if leaf_entries (page_of t) = [] then throw (Runtime_error ''Cannot take separator from empty leaf'')
           else ret (hd (leaf_entries (page_of t)))
      else subtree_min_entry (bid t)) Q s1"
  proof (cases t)
    case (BLeaf i es nx)
    then show ?thesis
      using assms(2,3) s1 by (simp add: subtree_def leaf_ok_def leaf_page_def blank_page_def)
  next
    case (BNode i ks ts)
    have "wp E (subtree_min_entry (bid t)) Q s1"
      using s1 subtree_same [OF assms(2) s1] assms(3) same_index_trans [OF s1]
      by (intro wp_subtree_min [where ty = ty]) (auto simp: same_index_def)
    then show ?thesis using BNode by (simp add: node_page_def blank_page_def)
  qed
qed

text \<open>The children of one inner node: at least two when there are two, and no more than fit.\<close>

lemma wp_take_children:
  assumes "idx_inv s" and "\<forall>t \<in> set us. subtree ty s t" and "g \<noteq> []"
    and "inner_payload_bytes (mins g) (length g) \<le> kPageSize"
    and "\<And>g' rest s'. g @ us = g' @ rest \<Longrightarrow> g' \<noteq> [] \<Longrightarrow> (2 \<le> length (g @ us) \<Longrightarrow> 2 \<le> length g') \<Longrightarrow>
      inner_payload_bytes (mins g') (length g') \<le> kPageSize \<Longrightarrow> same_index s s' \<Longrightarrow>
      Q (map bid g', mins g', map bid rest) s'"
  shows "wp E (take_children (map bid us) (map bid g) (mins g) (inner_payload_bytes (mins g) (length g))) Q s"
  using assms
proof (induction us arbitrary: s g)
  case Nil
  have "Q (map bid g, mins g, map bid []) s"
    by (rule Nil.prems(5)) (use Nil.prems same_index_refl in auto)
  then show ?case by simp
next
  case (Cons u us)
  let ?b = "inner_payload_bytes (mins g) (length g)" and ?k = "hd (flat u)"
  have u: "subtree ty s u" using Cons.prems(2) by simp
  have mins: "mins (g @ [u]) = mins g @ [?k]" by (rule mins_snoc [OF Cons.prems(3)])
  have bytes: "inner_payload_bytes (mins g @ [?k]) (length (g @ [u])) = ?b + 4 + (2 + key_len ?k)"
    by (simp add: inner_payload_bytes_eq)
  have short: "key_len ?k \<le> kMaxIndexKeyBytes"
  proof -
    have "?k \<in> set (flat u)" using u wf_tree_nonempty by (auto simp: subtree_def)
    then show ?thesis using u wf_tree_good by (fastforce simp: subtree_def good_entry_def)
  qed
  have "wp E (separator_key_for_page (bid u)) (\<lambda>sep. wp E
      (if mins g \<noteq> [] \<and> kPageSize < ?b + (leaf_entry_bytes (key_len sep) + 4)
       then ret (map bid g, mins g, bid u # map bid us)
       else take_children (map bid us) (map bid g @ [bid u]) (mins g @ [sep])
              (inner_payload_bytes (mins g @ [sep]) (length (map bid g @ [bid u])))) Q) s"
  proof (rule wp_separator [OF Cons.prems(1) u])
    fix s1 assume s1: "same_index s s1"
    show "wp E (if mins g \<noteq> [] \<and> kPageSize < ?b + (leaf_entry_bytes (key_len ?k) + 4)
       then ret (map bid g, mins g, bid u # map bid us)
       else take_children (map bid us) (map bid g @ [bid u]) (mins g @ [?k])
              (inner_payload_bytes (mins g @ [?k]) (length (map bid g @ [bid u])))) Q s1"
    proof (cases "mins g \<noteq> [] \<and> kPageSize < ?b + (leaf_entry_bytes (key_len ?k) + 4)")
      case True
      then have "2 \<le> length g" using mins_empty [OF Cons.prems(3)] Cons.prems(3) by (cases g) (auto simp: Suc_le_eq)
      then have "Q (map bid g, mins g, map bid (u # us)) s1"
        using Cons.prems(3,4) s1 by (intro Cons.prems(5)) simp_all
      then show ?thesis using True by simp
    next
      case False
      have "inner_payload_bytes (mins (g @ [u])) (length (g @ [u])) \<le> kPageSize"
      proof (cases "mins g = []")
        case True
        then have "length g = 1" using mins_empty [OF Cons.prems(3)] by simp
        then show ?thesis
          unfolding mins bytes using True short by (simp add: inner_payload_bytes_eq kPageSize_def kMaxIndexKeyBytes_def)
      next
        case False
        then show ?thesis
          unfolding mins bytes using \<open>\<not> (mins g \<noteq> [] \<and> kPageSize < ?b + (leaf_entry_bytes (key_len ?k) + 4))\<close>
          by (simp add: leaf_entry_bytes_def)
      qed
      moreover have "\<forall>t \<in> set us. subtree ty s1 t" using Cons.prems(2) subtree_same [OF _ s1] by simp
      moreover have "idx_inv s1" using s1 by (simp add: same_index_def)
      ultimately have "wp E (take_children (map bid us) (map bid (g @ [u])) (mins (g @ [u]))
          (inner_payload_bytes (mins (g @ [u])) (length (g @ [u])))) Q s1"
        by (intro Cons.IH) (use Cons.prems(3,5) same_index_trans [OF s1] in auto)
      then show ?thesis using False unfolding mins by auto
    qed
  qed
  then show ?case by simp
qed

text \<open>Few enough children, or keys long enough, that the count of an inner node fits one byte.\<close>

definition countable :: "nat \<Rightarrow> LeafEntry list \<Rightarrow> bool" where
  "countable m es \<longleftrightarrow> m \<le> 256 \<or> (\<forall>e \<in> set es. 10 \<le> key_len e)"

lemma countable_mono: "countable m es \<Longrightarrow> k \<le> m \<Longrightarrow> set fs \<subseteq> set es \<Longrightarrow> countable k fs"
  by (auto simp: countable_def)

lemma countable_group:
  assumes g: "g \<noteq> []" "\<forall>t \<in> set g. flat t \<noteq> []" and fits: "inner_payload_bytes (mins g) (length g) \<le> kPageSize"
    and ok: "countable (length g) (concat (map flat g))"
  shows "length g \<le> 256"
proof (cases "length g \<le> 256")
  case False
  then have big: "10 \<le> key_len k" if k: "k \<in> set (mins g)" for k
  proof -
    obtain t where t: "t \<in> set g" "k = hd (flat t)" using mins_mem [OF k] by blast
    then have "k \<in> set (concat (map flat g))" using g(2) by (auto intro!: bexI [of _ t])
    then show ?thesis using ok False by (auto simp: countable_def)
  qed
  have "12 * length (mins g) \<le> (\<Sum>k\<leftarrow>mins g. 2 + key_len k)"
    using sum_list_mono [of "mins g" "\<lambda>_. 12" "\<lambda>k. 2 + key_len k"] big by (simp add: sum_list_triv mult.commute)
  moreover have "length (mins g) = length g - 1" by (simp add: mins_def)
  ultimately show ?thesis using fits by (simp add: inner_payload_bytes_eq kPageSize_def)
qed

lemma group_node_wf:
  assumes "forest ty h s g" and "g \<noteq> []" and "inner_payload_bytes (mins g) (length g) \<le> kPageSize"
    and "length g \<le> 256" and "sorted_wrt (<) (concat (map vals g))"
  shows "\<forall>k \<in> set (mins g). good_entry ty k" "wf_tree ty (BNode i (map strip (mins g)) g)"
proof -
  have wf: "wf_tree ty t" if "t \<in> set g" for t using assms(1) that by (simp add: forest_def)
  have ne: "flat t \<noteq> []" if "t \<in> set g" for t using wf_tree_nonempty [OF wf [OF that]] .
  have mem: "t \<in> set g" if "t \<in> set (tl g)" for t using that assms(2) by (metis list.set_sel(2))
  show good: "\<forall>k \<in> set (mins g). good_entry ty k"
    using wf_tree_good [OF wf] ne mins_mem by (metis list.set_sel(1))
  have len: "length (mins g) \<le> 255" using assms(4) by (simp add: mins_def)
  have "inner_payload_bytes (map strip (mins g)) c = inner_payload_bytes (mins g) c" for c
    by (simp add: inner_payload_bytes_eq comp_def)
  then have "inner_ok ty (map strip (mins g)) (map bid g)"
    using good assms(3) len by (auto simp: inner_ok_def inner_overflow_def good_entry_strip) (simp add: strip_def)
  moreover have "map key_val (map strip (mins g)) = map hd (tl (map vals g))"
    using mem ne by (auto simp: mins_def vals_def hd_map simp flip: map_tl)
  then have "seps (map key_val (map strip (mins g))) (map vals g)"
    using seps_mins [of "map vals g"] assms(2,5) ne by (simp add: vals_def)
  ultimately show "wf_tree ty (BNode i (map strip (mins g)) g)" using wf by simp
qed

text \<open>Writing the inner node over a group.\<close>

lemma wp_write_group:
  assumes g: "forest ty h s g" "g \<noteq> []" "inner_payload_bytes (mins g) (length g) \<le> kPageSize" "length g \<le> 256"
    "sorted_wrt (<) (concat (map vals g))"
    and room: "idx_count s + 1 < 2 ^ 32"
    and Q: "\<And>s'. forest ty (Suc h) s' [BNode (idx_count s) (map strip (mins g)) g] \<Longrightarrow>
      \<forall>i < idx_count s. node_view s' i = node_view s i \<Longrightarrow>
      idx_count s' = idx_count s + 1 \<Longrightarrow> idx_frame s' = idx_frame s \<Longrightarrow> Q (idx_count s) s'"
  shows "wp E (bnd allocate_node_page (\<lambda>i. andthen (idx_write_page ((blank_page i Inner)\<lparr>children := map bid g,
      inner_keys := mins g, key_count := length (mins g) mod 256\<rparr>)) (ret i))) Q s"
  unfolding wp_bnd
proof (rule nodes.wp_alloc)
  show inv: "idx_inv s" "0 < idx_count s" using g(1) by (simp_all add: forest_def)
  fix s1
  assume s1: "idx_inv s1" "node_view s1 = node_view s" "idx_count s1 = idx_count s + 1" "idx_frame s1 = idx_frame s"
  let ?i = "idx_count s"
  let ?p = "(blank_page ?i Inner)\<lparr>children := map bid g, inner_keys := mins g, key_count := length (mins g) mod 256\<rparr>"
  have p: "page_id ?p = ?i" "node_type ?p = Inner" "inner_keys ?p = mins g" "children ?p = map bid g" "next_leaf ?p = 0"
    by (simp_all add: blank_page_def)
  have ids: "i < ?i" if "i \<in> set (concat (map ids g))" for i using forest_ids [OF g(1) that] .
  have top: "bid t \<in> set (concat (map ids g))" if "t \<in> set g" for t using that by (cases t) force+
  have "wp E (idx_write_page ?p) (\<lambda>_. Q ?i) s1"
  proof (rule wp_write_inner [OF s1(1) p(2), where ty = ty])
    show "\<forall>e \<in> set (inner_keys ?p). good_entry ty e" unfolding p by (rule group_node_wf(1) [OF g])
    show "length (inner_keys ?p) \<le> 255" "length (children ?p) = length (inner_keys ?p) + 1"
      unfolding p using g(2,4) by (cases g; simp add: mins_def)+
    show "\<not> inner_overflow (inner_keys ?p) (children ?p)" unfolding p using g(3) by (simp add: inner_overflow_def)
    show "\<forall>c \<in> set (children ?p). c < 2 ^ 32" unfolding p using ids [OF top] room by fastforce
    show "next_leaf ?p < 2 ^ 32" "page_id ?p < idx_count s1" unfolding p using s1(3) by simp_all
    fix s2
    assume "wrote s1 (page_id ?p) (node_page (page_id ?p) (map strip (inner_keys ?p)) (children ?p)) s2"
    then have s2: "idx_inv s2" "node_view s2 = (node_view s)(?i \<mapsto> node_page ?i (map strip (mins g)) (map bid g))"
      "idx_count s2 = ?i + 1" "idx_frame s2 = idx_frame s"
      using s1 unfolding p by (simp_all add: wrote_def)
    have keep: "forest ty h s2 g" by (rule forest_frame [OF g(1) s2(1)]) (use s2 in simp_all)
    have "distinct (?i # concat (map ids g))" "0 \<notin> set (?i # concat (map ids g))"
      using g(1) ids inv(2) by (auto simp: forest_def)
    then have "forest ty (Suc h) s2 [BNode ?i (map strip (mins g)) g]"
      using keep s2 group_node_wf(2) [OF g, of ?i] by (simp add: forest_def)
    then show "Q ?i s2" using s2 by (intro Q) simp_all
  qed
  then show "wp E (andthen (idx_write_page ?p) (ret ?i)) Q s1" by simp
qed (rule room)

lemma forest_append:
  "forest ty h s (g @ rest) \<longleftrightarrow> forest ty h s g \<and> forest ty h s rest \<and>
     set (concat (map ids g)) \<inter> set (concat (map ids rest)) = {}"
  by (auto simp: forest_def)

definition raised :: "DataType \<Rightarrow> nat \<Rightarrow> disk_index \<Rightarrow> btree list \<Rightarrow> disk_index \<Rightarrow> btree list \<Rightarrow> bool" where
  "raised ty h s ts s' us \<longleftrightarrow> forest ty (Suc h) s' us \<and> concat (map leaves us) = concat (map leaves ts) \<and>
     2 * length us \<le> length ts + 1 \<and> idx_count s' = idx_count s + length us \<and> idx_frame s' = idx_frame s \<and>
     (\<forall>i < idx_count s. node_view s' i = node_view s i) \<and>
     set (concat (map ids us)) \<subseteq> set (concat (map ids ts)) \<union> {idx_count s..<idx_count s'}"

lemma raised_nil: "forest ty h s [] \<Longrightarrow> raised ty h s [] s []"
  by (simp add: raised_def forest_def)

lemma raised_cons:
  assumes ts: "forest ty h s (g @ rest)" "g \<noteq> []" "2 \<le> length (g @ rest) \<longrightarrow> 2 \<le> length g"
    and s2: "forest ty (Suc h) s2 [BNode (idx_count s) ks g]" "\<forall>i < idx_count s. node_view s2 i = node_view s i"
      "idx_count s2 = idx_count s + 1" "idx_frame s2 = idx_frame s"
    and s3: "raised ty h s2 rest s3 us"
  shows "raised ty h s (g @ rest) s3 (BNode (idx_count s) ks g # us)"
proof -
  let ?u = "BNode (idx_count s) ks g"
  note R = s3 [unfolded raised_def]
  have inv: "idx_inv s3" using R by (simp add: forest_def)
  have "forest ty (Suc h) s3 [?u]"
    by (rule forest_frame [OF s2(1) inv]) (use R in auto)
  moreover have "forest ty (Suc h) s3 us" using R by blast
  moreover have "set (ids ?u) \<inter> set (concat (map ids us)) = {}"
  proof -
    have old: "i < idx_count s" if "i \<in> set (concat (map ids (g @ rest)))" for i by (rule forest_ids [OF ts(1) that])
    have disj: "set (concat (map ids g)) \<inter> set (concat (map ids rest)) = {}" using ts(1) unfolding forest_append by blast
    have "i \<notin> set (concat (map ids us))" if i: "i \<in> set (ids ?u)" for i
    proof
      assume "i \<in> set (concat (map ids us))"
      then have "i \<in> set (concat (map ids rest)) \<or> idx_count s2 \<le> i" using R by fastforce
      moreover have "i = idx_count s \<or> i \<in> set (concat (map ids g))" using i by simp
      moreover have "i \<in> set (concat (map ids rest)) \<Longrightarrow> i < idx_count s" "i \<in> set (concat (map ids g)) \<Longrightarrow> i < idx_count s"
        using old [of i] by (auto simp del: set_concat)
      ultimately show False using disj s2(3) by (fastforce simp del: set_concat)
    qed
    then show ?thesis by blast
  qed
  ultimately have "forest ty (Suc h) s3 (?u # us)" using forest_append [of ty "Suc h" s3 "[?u]" us] by simp
  moreover have "2 * length (?u # us) \<le> length (g @ rest) + 1"
  proof (cases "2 \<le> length (g @ rest)")
    case True
    then show ?thesis using ts(3) R by simp
  next
    case False
    then have "rest = []" using ts(2) by (cases g; cases rest) auto
    then have "us = []" using R by (cases us) auto
    then show ?thesis using ts(2) by (cases g) simp_all
  qed
  moreover have "set (concat (map ids (?u # us))) \<subseteq> set (concat (map ids (g @ rest))) \<union> {idx_count s..<idx_count s3}"
    using R s2(3) by fastforce
  ultimately show ?thesis using R s2 by (simp add: raised_def)
qed

lemma wp_build_level:
  assumes "forest ty h s ts" and "length ts \<le> fuel" and "idx_count s + length ts < 2 ^ 32"
    and "countable (length ts) (concat (map flat ts))" and "sorted_wrt (<) (concat (map vals ts))"
    and "\<And>us s'. raised ty h s ts s' us \<Longrightarrow> Q (map bid us) s'"
  shows "wp E (build_level fuel (map bid ts)) Q s"
  using assms
proof (induction fuel arbitrary: s ts Q)
  case 0
  then have "ts = []" by simp
  then show ?case using "0.prems"(1) "0.prems"(6) [of s "[]"] raised_nil [of ty h s] by simp
next
  case (Suc f)
  show ?case
  proof (cases ts)
    case Nil
    then show ?thesis using Suc.prems(1) Suc.prems(6) [of s "[]"] raised_nil [of ty h s] by simp
  next
    case (Cons t us)
    let ?rest = "\<lambda>rest inner. wp E (build_level f rest) (\<lambda>is. Q (inner # is))"
    have inv: "idx_inv s" using Suc.prems(1) by (simp add: forest_def)
    have sub: "\<forall>u \<in> set us. subtree ty s u" using forest_subtree [OF Suc.prems(1)] Cons by simp
    have start: "take_children (map bid us) [bid t] [] (kInnerHeader + 4) =
        take_children (map bid us) (map bid [t]) (mins [t]) (inner_payload_bytes (mins [t]) (length [t]))"
      by (simp add: mins_def inner_payload_bytes_eq kInnerHeader_def)
    have "wp E (take_children (map bid us) (map bid [t]) (mins [t]) (inner_payload_bytes (mins [t]) (length [t])))
        (\<lambda>r s. (length (fst r) = 1 \<and> us \<noteq> [] \<longrightarrow>
              E (Runtime_error ''Inner index page cannot fit a separator key during bulk build'')) \<and>
           (\<not> (length (fst r) = 1 \<and> us \<noteq> []) \<longrightarrow>
            wp E (bnd allocate_node_page (\<lambda>i. andthen (idx_write_page ((blank_page i Inner)\<lparr>children := fst r,
              inner_keys := fst (snd r), key_count := length (fst (snd r)) mod 256\<rparr>)) (ret i))) (?rest (snd (snd r))) s)) s"
    proof (rule wp_take_children [OF inv sub])
      fix g rest s1
      assume split: "[t] @ us = g @ rest" and g: "g \<noteq> []" "2 \<le> length ([t] @ us) \<Longrightarrow> 2 \<le> length g"
        "inner_payload_bytes (mins g) (length g) \<le> kPageSize" and s1: "same_index s s1"
      have ts: "ts = g @ rest" using split Cons by simp
      have f1: "forest ty h s1 (g @ rest)" using forest_same [OF Suc.prems(1) s1] ts by simp
      then have fg: "forest ty h s1 g" and fr: "forest ty h s1 rest" by (simp_all add: forest_append)
      have count: "idx_count s1 = idx_count s" "idx_frame s1 = idx_frame s" "node_view s1 = node_view s"
        using s1 by (simp_all add: same_index_def)
      have ne: "\<forall>u \<in> set g. flat u \<noteq> []" using fg wf_tree_nonempty by (auto simp: forest_def)
      have "countable (length g) (concat (map flat g))" by (rule countable_mono [OF Suc.prems(4)]) (auto simp: ts)
      then have small: "length g \<le> 256" by (rule countable_group [OF g(1) ne g(3)])
      have sg: "sorted_wrt (<) (concat (map vals g))" and sr: "sorted_wrt (<) (concat (map vals rest))"
        using Suc.prems(5) ts by (simp_all add: sorted_wrt_append)
      have "wp E (bnd allocate_node_page (\<lambda>i. andthen (idx_write_page ((blank_page i Inner)\<lparr>children := map bid g,
          inner_keys := mins g, key_count := length (mins g) mod 256\<rparr>)) (ret i))) (?rest (map bid rest)) s1"
      proof (rule wp_write_group [OF fg g(1,3) small sg])
        show "idx_count s1 + 1 < 2 ^ 32" using Suc.prems(3) Cons count by simp
        fix s2
        assume s2: "forest ty (Suc h) s2 [BNode (idx_count s1) (map strip (mins g)) g]"
          "\<forall>i < idx_count s1. node_view s2 i = node_view s1 i" "idx_count s2 = idx_count s1 + 1" "idx_frame s2 = idx_frame s1"
        have len: "length rest < length ts" using ts g(1) by (cases g) simp_all
        show "wp E (build_level f (map bid rest)) (\<lambda>is. Q (idx_count s1 # is)) s2"
        proof (rule Suc.IH)
          show "forest ty h s2 rest" by (rule forest_frame [OF fr]) (use s2 in \<open>auto simp: forest_def\<close>)
          show "length rest \<le> f" "idx_count s2 + length rest < 2 ^ 32" using len Suc.prems(2,3) s2(3) count(1) by simp_all
          show "countable (length rest) (concat (map flat rest))" by (rule countable_mono [OF Suc.prems(4)]) (auto simp: ts)
          show "sorted_wrt (<) (concat (map vals rest))" by (rule sr)
          fix us' s3 assume s3: "raised ty h s2 rest s3 us'"
          have "raised ty h s1 (g @ rest) s3 (BNode (idx_count s1) (map strip (mins g)) g # us')"
            by (rule raised_cons [OF f1 g(1) _ s2 s3]) (use g(2) split in metis)
          then have "raised ty h s ts s3 (BNode (idx_count s1) (map strip (mins g)) g # us')"
            unfolding raised_def count ts .
          from Suc.prems(6) [OF this] show "Q (idx_count s1 # map bid us') s3" by simp
        qed
      qed
      moreover have "\<not> (length (map bid g) = 1 \<and> us \<noteq> [])" using g(2) by (cases us) auto
      ultimately show "(length (fst (map bid g, mins g, map bid rest)) = 1 \<and> us \<noteq> [] \<longrightarrow>
            E (Runtime_error ''Inner index page cannot fit a separator key during bulk build'')) \<and>
          (\<not> (length (fst (map bid g, mins g, map bid rest)) = 1 \<and> us \<noteq> []) \<longrightarrow>
           wp E (bnd allocate_node_page (\<lambda>i. andthen (idx_write_page ((blank_page i Inner)\<lparr>
             children := fst (map bid g, mins g, map bid rest), inner_keys := fst (snd (map bid g, mins g, map bid rest)),
             key_count := length (fst (snd (map bid g, mins g, map bid rest))) mod 256\<rparr>)) (ret i)))
             (?rest (snd (snd (map bid g, mins g, map bid rest)))) s1)"
        by auto
    qed (simp_all add: mins_def inner_payload_bytes_eq kPageSize_def)
    then show ?thesis unfolding start [symmetric] using Cons by (simp add: split_beta)
  qed
qed

section \<open>All levels\<close>

lemma flats_of_leaves: "concat (map flat ts) = concat (map leaf_es (concat (map leaves ts)))"
  by (induction ts) (simp_all add: flat_leaf_es)

lemma vals_of_leaves: "concat (map vals ts) = map key_val (concat (map leaf_es (concat (map leaves ts))))"
proof -
  have "concat (map vals ts) = map key_val (concat (map flat ts))"
    by (simp add: vals_def [abs_def] map_concat comp_def)
  then show ?thesis by (simp only: flats_of_leaves)
qed

lemma wp_build_levels:
  assumes "forest ty h s ts" and "ts \<noteq> []" and "length ts \<le> Suc fuel" and "idx_count s + 2 * length ts < 2 ^ 32"
    and "countable (length ts) (concat (map flat ts))" and "sorted_wrt (<) (concat (map vals ts))"
    and "\<And>t h' s'. forest ty h' s' [t] \<Longrightarrow> leaves t = concat (map leaves ts) \<Longrightarrow> idx_frame s' = idx_frame s \<Longrightarrow> Q (bid t) s'"
  shows "wp E (build_levels fuel (map bid ts)) Q s"
  using assms
proof (induction fuel arbitrary: s ts h Q)
  case 0
  then obtain t where "ts = [t]" by (cases ts) auto
  then show ?case using "0.prems"(1) "0.prems"(7) [of h s t] by simp
next
  case (Suc f)
  show ?case
  proof (cases "tl ts")
    case Nil
    then obtain t where "ts = [t]" using Suc.prems(2) by (cases ts) auto
    then show ?thesis using Suc.prems(1) Suc.prems(7) [of h s t] by simp
  next
    case (Cons u us)
    then obtain t where ts: "ts = t # u # us" using Suc.prems(2) by (cases ts) auto
    have "wp E (build_level (length ts) (map bid ts)) (\<lambda>is. wp E (build_levels f is) Q) s"
    proof (rule wp_build_level [OF Suc.prems(1) order_refl _ Suc.prems(5,6)])
      show "idx_count s + length ts < 2 ^ 32" using Suc.prems(4) by simp
      fix vs s1 assume r: "raised ty h s ts s1 vs"
      note R = r [unfolded raised_def]
      have same: "concat (map flat vs) = concat (map flat ts)" "concat (map vals vs) = concat (map vals ts)"
        using R by (simp_all add: flats_of_leaves vals_of_leaves)
      have len: "2 * length vs \<le> length ts + 1" "2 \<le> length ts" using R ts by simp_all
      show "wp E (build_levels f (map bid vs)) Q s1"
      proof (rule Suc.IH)
        show "forest ty (Suc h) s1 vs" using R by blast
        have "concat (map flat ts) \<noteq> []" using wf_tree_nonempty Suc.prems(1) ts by (auto simp: forest_def)
        then show "vs \<noteq> []" using same(1) by auto
        show "length vs \<le> Suc f" using len Suc.prems(3) by simp
        show "idx_count s1 + 2 * length vs < 2 ^ 32"
        proof -
          have "idx_count s1 = idx_count s + length vs" using R by blast
          then have "idx_count s1 + 2 * length vs = idx_count s + 3 * length vs" by simp
          also have "\<dots> \<le> idx_count s + 2 * length ts" using len by simp
          finally show ?thesis using Suc.prems(4) by simp
        qed
        show "countable (length vs) (concat (map flat vs))"
          unfolding same using len by (intro countable_mono [OF Suc.prems(5)]) simp_all
        show "sorted_wrt (<) (concat (map vals vs))" unfolding same by (rule Suc.prems(6))
        fix t' h' s' assume "forest ty h' s' [t']" "leaves t' = concat (map leaves vs)" "idx_frame s' = idx_frame s1"
        then show "Q (bid t') s'" using R Suc.prems(7) by simp
      qed
    qed
    then show ?thesis using ts by simp
  qed
qed

section \<open>The whole build\<close>

lemma wp_flush_pager:
  assumes "idx_inv s" and "\<And>s'. same_index s s' \<Longrightarrow> superblock_current s \<longrightarrow> superblock_current s' \<Longrightarrow> Q () s'"
  shows "wp E (on_pager flush) Q s"
proof -
  obtain q where q: "flush (ix_pager s) = (Inr (), q)" "pager_inv q" "pager_view q = idx_raw s" "page_count q = idx_count s"
    using flush_ok assms(1) by (auto simp: idx_inv_def)
  then have "same_index s (s\<lparr>ix_pager := q\<rparr>)" "superblock_current s \<longrightarrow> superblock_current (s\<lparr>ix_pager := q\<rparr>)"
    by (auto simp: same_index_def idx_inv_def superblock_current_def superblock_image_def)
  then show ?thesis using q(1) assms(2) by (simp add: wp_def on_pager_eq)
qed

text \<open>The end of a build: the superblock, and everything to the file.\<close>

lemma wp_finish_build:
  assumes tree: "forest ty h s [t] \<or> t = BLeaf i [] 0 \<and> idx_inv s \<and> 0 < idx_count s \<and> rep (node_view s) t \<and> i \<noteq> 0"
    and chain: "chained (leaves t) 0" and sorted: "sorted_wrt (<) (vals t)"
    and frame: "idx_frame s = (bid t, first_id (leaves t) 0, length (flat t))"
    and Q: "\<And>s'. index_inv ty s' t \<Longrightarrow> superblock_current s' \<Longrightarrow> Q () s'"
  shows "wp E (andthen write_superblock (on_pager flush)) Q s"
proof -
  have inv: "idx_inv s" "0 < idx_count s" "rep (node_view s) t" using tree by (auto simp: forest_def)
  have ok: "tree_ok ty t" using tree chain sorted by (auto simp: tree_ok_def forest_def)
  have "wp E write_superblock (\<lambda>_. wp E (on_pager flush) Q) s"
  proof (rule wp_write_superblock [OF inv(1,2)])
    fix s1
    assume s1: "idx_inv s1" "node_view s1 = (node_view s)(0 := None)" "idx_count s1 = idx_count s"
      "idx_frame s1 = idx_frame s" "superblock_current s1"
    have "rep (node_view s1) t = rep (node_view s) t" using ok s1(2) by (intro rep_cong) (auto simp: tree_ok_def)
    then have "index_inv ty s1 t" using inv ok frame s1 by (simp add: index_inv_def)
    then show "wp E (on_pager flush) Q s1"
      using Q same_index_inv s1(5) by (intro wp_flush_pager [OF s1(1)]) blast
  qed
  then show ?thesis by simp
qed

lemma chunk_leaves:
  assumes good: "\<forall>e \<in> set es. good_entry ty e" and sorted: "sorted_wrt (<) (map key_val es)"
  shows "concat (chunks es [] kLeafHeader) = es" "\<forall>c \<in> set (chunks es [] kLeafHeader). good_leaf ty c"
proof -
  have "\<forall>e \<in> set es. key_len e \<le> kMaxIndexKeyBytes" using good by (simp add: good_entry_def)
  note C = chunks_start [OF this]
  show es: "concat (chunks es [] kLeafHeader) = es" by (rule C(1))
  show "\<forall>c \<in> set (chunks es [] kLeafHeader). good_leaf ty c"
  proof
    fix c assume c: "c \<in> set (chunks es [] kLeafHeader)"
    then obtain xs ys where "chunks es [] kLeafHeader = xs @ c # ys" by (auto simp: in_set_conv_decomp)
    then have "es = concat xs @ c @ concat ys" using es by simp
    then show "good_leaf ty c" using good sorted C(2) [OF c] by (auto simp: good_leaf_def leaf_ok_def sorted_wrt_append)
  qed
qed

text \<open>The chained leaves are the lowest level.\<close>

lemma leaves_forest:
  assumes inv: "idx_inv s" "0 < idx_count s" and rep: "\<forall>l \<in> set (chain ps). rep (node_view s) (mkleaf l)"
    and good: "\<forall>c \<in> set (map snd ps). good_leaf ty c" and ids: "distinct (map fst ps)" "0 \<notin> set (map fst ps)"
  shows "forest ty 0 s (map mkleaf (chain ps))"
proof -
  have "wf_tree ty (mkleaf l)" if "l \<in> set (chain ps)" for l
  proof -
    have "leaf_es l \<in> set (map snd ps)" using that chain_facts(2) [of ps] by (metis image_eqI list.set_map)
    then have "leaf_ok ty (leaf_es l)" using bspec [OF good] by (simp only: good_leaf_def)
    then show ?thesis by (cases l) (simp add: leaf_es_def)
  qed
  moreover have "concat (map ids (map mkleaf (chain ps))) = map fst ps" by (simp only: mkleaf_lists chain_facts)
  ultimately show ?thesis unfolding forest_def using inv rep ids by auto
qed

lemma wp_build_tree:
  assumes inv: "idx_inv s" "idx_count s = 1" and size: "ix_size s = length es" and ne: "es \<noteq> []"
    and good: "\<forall>e \<in> set es. good_entry ty e" and sorted: "sorted_wrt (<) (map key_val es)"
    and room: "3 * length es + 2 < 2 ^ 32" and ok: "countable (length (chunks es [] kLeafHeader)) es"
    and Q: "\<And>t s'. index_inv ty s' t \<Longrightarrow> flat t = es \<Longrightarrow> superblock_current s' \<Longrightarrow> Q () s'"
  shows "wp E (bnd (write_leaves es [] kLeafHeader []) (\<lambda>leaf_pages.
      andthen (link_leaves leaf_pages) (andthen (modify (\<lambda>s. s\<lparr>first_leaf_page := hd leaf_pages\<rparr>))
        (bnd (build_levels (length leaf_pages) leaf_pages) (\<lambda>root.
         andthen (modify (\<lambda>s. s\<lparr>root_page := root\<rparr>)) (andthen write_superblock (on_pager flush))))))) Q s"
  unfolding wp_bnd
proof -
  let ?cs = "chunks es [] kLeafHeader"
  let ?ps = "enumerate 1 ?cs"
  let ?ts = "map mkleaf (chain ?ps)"
  note C = chunk_leaves [OF good sorted]
  have cs: "?cs \<noteq> []" "length ?cs \<le> length es" using C(1) ne chunks_length [of es "[]" kLeafHeader] by auto
  have fsts: "map fst ?ps = [1..<1 + length ?cs]" by simp
  have snds: "map snd ?ps = ?cs" by simp
  have pages: "map bid ?ts = map fst ?ps" by (simp only: mkleaf_lists chain_facts)
  have hd1: "first_id (chain ?ps) 0 = 1" "hd (map fst ?ps) = 1" using cs(1) by (cases ?cs; simp add: chain_facts)+
  have flat: "concat (map flat ?ts) = es" by (simp only: mkleaf_lists chain_facts snds C(1))
  have leaves: "concat (map leaves ?ts) = chain ?ps" by (simp only: mkleaf_lists)
  have vals: "concat (map vals ?ts) = map key_val es"
    by (simp only: vals_of_leaves leaves chain_facts snds C(1))
  have len: "length ?ts = length ?cs" by (simp add: length_chain)
  show "wp E (write_leaves es [] kLeafHeader []) (\<lambda>leaf_pages. wp E
      (andthen (link_leaves leaf_pages) (andthen (modify (\<lambda>s. s\<lparr>first_leaf_page := hd leaf_pages\<rparr>))
        (bnd (build_levels (length leaf_pages) leaf_pages) (\<lambda>root.
         andthen (modify (\<lambda>s. s\<lparr>root_page := root\<rparr>)) (andthen write_superblock (on_pager flush)))))) Q) s"
  proof (rule wp_write_leaves [OF inv(1) _ _ C(2)])
    show "0 < idx_count s" "idx_count s + length ?cs < 2 ^ 32" using inv(2) cs(2) room by simp_all
    fix s1
    assume s1: "idx_inv s1" "unlinked s1 (enumerate (idx_count s) ?cs)" "idx_count s1 = idx_count s + length ?cs"
      "idx_frame s1 = idx_frame s"
    have "wp E (link_leaves (map fst ?ps)) (\<lambda>_ s2. wp E (bnd (build_levels (length (map fst ?ps)) (map fst ?ps)) (\<lambda>root.
        andthen (modify (\<lambda>s. s\<lparr>root_page := root\<rparr>)) (andthen write_superblock (on_pager flush)))) Q (s2\<lparr>first_leaf_page := 1\<rparr>)) s1"
    proof (rule wp_link_leaves [OF s1(1)])
      show "unlinked s1 ?ps" using s1(2) inv(2) by simp
      show "distinct (map fst ?ps)" by simp
      show "\<forall>(i, c) \<in> set ?ps. good_leaf ty c" using C(2) by (auto simp: in_set_enumerate_eq)
      fix s2
      assume s2: "idx_inv s2" "\<forall>l \<in> set (chain ?ps). rep (node_view s2) (mkleaf l)" "idx_count s2 = idx_count s1"
        "idx_frame s2 = idx_frame s1"
      let ?s = "s2\<lparr>first_leaf_page := 1\<rparr>"
      have view: "node_view ?s = node_view s2" by (rule ext) (simp add: node_view_def)
      have "forest ty 0 ?s ?ts"
        by (rule leaves_forest) (use s2 s1(3) inv(2) C(2) view in \<open>auto simp: idx_inv_def\<close>)
      then have "wp E (build_levels (length (map fst ?ps)) (map bid ?ts)) (\<lambda>root.
          wp E (andthen (modify (\<lambda>s. s\<lparr>root_page := root\<rparr>)) (andthen write_superblock (on_pager flush))) Q) ?s"
      proof (rule wp_build_levels)
        show "?ts \<noteq> []" "length ?ts \<le> Suc (length (map fst ?ps))" using len cs(1) by (auto simp del: length_map)
        show "idx_count ?s + 2 * length ?ts < 2 ^ 32" using len cs(2) s2(3) s1(3) inv(2) room by simp
        show "countable (length ?ts) (concat (map flat ?ts))" using ok unfolding len flat .
        show "sorted_wrt (<) (concat (map vals ?ts))" using sorted unfolding vals .
        fix t h s3
        assume s3: "forest ty h s3 [t]" "leaves t = concat (map leaves ?ts)" "idx_frame s3 = idx_frame ?s"
        have lt: "leaves t = chain ?ps" using s3(2) leaves by simp
        have ft: "flat t = es" using lt C(1) by (simp add: flat_leaf_es chain_facts)
        let ?r = "s3\<lparr>root_page := bid t\<rparr>"
        have "node_view ?r = node_view s3" by (rule ext) (simp add: node_view_def)
        then have "forest ty h ?r [t]" using s3(1) by (simp add: forest_def idx_inv_def)
        then have "wp E (andthen write_superblock (on_pager flush)) Q ?r"
        proof (intro wp_finish_build [OF disjI1])
          show "chained (leaves t) 0" "sorted_wrt (<) (vals t)"
            using lt chain_facts(3) ft sorted by (simp_all add: vals_def)
          show "idx_frame ?r = (bid t, first_id (leaves t) 0, length (flat t))"
            using s3(3) s2(4) s1(4) size hd1(1) lt ft by (simp add: idx_frame_def)
          show "Q () s'" if "index_inv ty s' t" "superblock_current s'" for s' by (rule Q [OF that(1) ft that(2)])
        qed
        then show "wp E (andthen (modify (\<lambda>s. s\<lparr>root_page := bid t\<rparr>)) (andthen write_superblock (on_pager flush))) Q s3"
          by simp
      qed
      then show "wp E (bnd (build_levels (length (map fst ?ps)) (map fst ?ps)) (\<lambda>root.
          andthen (modify (\<lambda>s. s\<lparr>root_page := root\<rparr>)) (andthen write_superblock (on_pager flush)))) Q ?s"
        unfolding pages wp_bnd .
    qed
    then show "wp E (andthen (link_leaves ([] @ map fst (enumerate (idx_count s) ?cs)))
        (andthen (modify (\<lambda>u. u\<lparr>first_leaf_page := hd ([] @ map fst (enumerate (idx_count s) ?cs))\<rparr>))
        (bnd (build_levels (length ([] @ map fst (enumerate (idx_count s) ?cs))) ([] @ map fst (enumerate (idx_count s) ?cs)))
        (\<lambda>root. andthen (modify (\<lambda>s. s\<lparr>root_page := root\<rparr>)) (andthen write_superblock (on_pager flush)))))) Q s1"
      unfolding inv(2) append_Nil wp_andthen wp_modify hd1(2) .
  qed
qed

lemma wp_bulk_flat:
  assumes inv: "idx_inv s" "idx_count s = 0" and good: "\<forall>e \<in> set es. good_entry ty e"
    and sorted: "sorted_wrt (<) (map key_val es)" and room: "3 * length es + 2 < 2 ^ 32"
    and ok: "countable (length (chunks es [] kLeafHeader)) es"
    and Q: "\<And>t s'. index_inv ty s' t \<Longrightarrow> flat t = es \<Longrightarrow> superblock_current s' \<Longrightarrow> Q () s'"
  shows "wp E (bulk_build_from_flat es) Q s"
proof -
  obtain q where q: "write_page 0 (replicate kPageSize 0) (ix_pager s) = (Inr (), q)" "pager_inv q" "page_count q = 1"
    using write_page_ok [of "ix_pager s" "replicate kPageSize 0" 0] inv by (auto simp: idx_inv_def)
  let ?s = "s\<lparr>ix_pager := q, ix_size := length es\<rparr>"
  have start: "on_pager (write_page 0 (replicate kPageSize 0)) s = (Inr (), s\<lparr>ix_pager := q\<rparr>)"
    using q(1) by (simp add: on_pager_eq)
  have step: "wp E (andthen (on_pager (write_page 0 (replicate kPageSize 0))) n) Q s = wp E n Q (s\<lparr>ix_pager := q\<rparr>)" for n
    unfolding wp_andthen by (rule wp_returns) (rule start)
  have s: "idx_inv ?s" "idx_count ?s = 1" "ix_size ?s = length es" using q by (simp_all add: idx_inv_def)
  show ?thesis
  proof (cases "es = []")
    case False
    have "wp E (bnd (write_leaves es [] kLeafHeader []) (\<lambda>leaf_pages.
      andthen (link_leaves leaf_pages) (andthen (modify (\<lambda>s. s\<lparr>first_leaf_page := hd leaf_pages\<rparr>))
        (bnd (build_levels (length leaf_pages) leaf_pages) (\<lambda>root.
         andthen (modify (\<lambda>s. s\<lparr>root_page := root\<rparr>)) (andthen write_superblock (on_pager flush))))))) Q ?s"
      by (rule wp_build_tree [OF s False good sorted room ok]) (rule Q)
    then show ?thesis
      using False unfolding bulk_build_from_flat_def step by simp
  next
    case True
    let ?t = "BLeaf 1 [] 0"
    have "wp E (bnd allocate_node_page (\<lambda>i. andthen (modify (\<lambda>s. s\<lparr>root_page := i, first_leaf_page := i\<rparr>))
        (andthen (idx_write_page (blank_page i Leaf)) (andthen write_superblock (on_pager flush))))) Q ?s"
      unfolding wp_bnd
    proof (rule nodes.wp_alloc [OF s(1)])
      show "0 < idx_count ?s" "idx_count ?s + 1 < 2 ^ 32" using s(2) by simp_all
      fix s1
      assume s1: "idx_inv s1" "idx_count s1 = idx_count ?s + 1" "idx_frame s1 = idx_frame ?s"
      let ?u = "s1\<lparr>root_page := 1, first_leaf_page := 1\<rparr>"
      have "wp E (idx_write_page (blank_page 1 Leaf)) (\<lambda>_. wp E write_superblock (\<lambda>_. wp E (on_pager flush) Q)) ?u"
      proof (rule wp_write_leaf [where ty = ty])
        fix s2
        assume "wrote ?u (page_id (blank_page 1 Leaf)) (leaf_page (page_id (blank_page 1 Leaf))
          (leaf_entries (blank_page 1 Leaf)) (next_leaf (blank_page 1 Leaf))) s2"
        then have s2: "idx_inv s2" "node_view s2 = (node_view ?u)(1 \<mapsto> leaf_page 1 [] 0)" "idx_count s2 = 2"
          "idx_frame s2 = (1, 1, 0)"
          using s1(2,3) s(2) True by (simp_all add: wrote_def blank_page_def idx_frame_def)
        have "wp E (andthen write_superblock (on_pager flush)) Q s2"
        proof (rule wp_finish_build [where t = ?t and ty = ty and i = 1])
          show "Q () s'" if "index_inv ty s' ?t" "superblock_current s'" for s' by (rule Q [OF that(1) _ that(2)]) (simp add: True)
        qed (use s2 in simp_all)
        then show "wp E write_superblock (\<lambda>_. wp E (on_pager flush) Q) s2" by simp
      qed (use s1 s(2) in \<open>simp_all add: blank_page_def idx_inv_def leaf_overflow_def leaf_payload_bytes_eq kPageSize_def\<close>)
      then show "wp E (andthen (modify (\<lambda>s. s\<lparr>root_page := idx_count ?s, first_leaf_page := idx_count ?s\<rparr>))
        (andthen (idx_write_page (blank_page (idx_count ?s) Leaf)) (andthen write_superblock (on_pager flush)))) Q s1"
        using s(2) by simp
    qed
    then show ?thesis
      using True unfolding bulk_build_from_flat_def step by simp
  qed
qed

section \<open>What is accepted\<close>

lemma make_entries_good:
  assumes "\<forall>(k, r) \<in> set kvs. typed ty k \<and> encoded_value_size k \<le> kMaxIndexKeyBytes \<and> r < 2 ^ 64"
  shows "\<exists>es. make_entries kvs = Inr es \<and> (\<forall>e \<in> set es. good_entry ty e) \<and> map (\<lambda>e. (key_val e, rid e)) es = kvs"
  using assms
proof (induction kvs)
  case (Cons kv kvs)
  obtain k r where kv: "kv = (k, r)" by (cases kv)
  then obtain e where "make_entry k r = Inr e" "good_entry ty e" "key_val e = k" "rid e = r"
    using Cons.prems make_entry_good [of ty k r] by auto
  moreover obtain es where "make_entries kvs = Inr es" "\<forall>e \<in> set es. good_entry ty e" "map (\<lambda>e. (key_val e, rid e)) es = kvs"
    using Cons by auto
  ultimately show ?case using kv by (intro exI [of _ "e # es"]) simp
qed simp

lemma check_increasing_good:
  assumes "\<forall>e \<in> set es. good_entry ty e"
  shows "check_increasing es = (if sorted_wrt (<) (map key_val es) then Inr ()
     else Inl (Runtime_error ''bulk_build requires strictly increasing unique keys (sort input first)''))"
  using assms
proof (induction es rule: check_increasing.induct)
  case (1 a b es)
  have "compare_encoded_keys (key a) (key_len a) (key b) (key_len b) = Inr (three_way (key_val a) (key_val b))"
    using 1(2) by (intro compare_good) auto
  moreover have "sorted_wrt (<) (map key_val (a # b # es)) \<longleftrightarrow> key_val a < key_val b \<and> sorted_wrt (<) (map key_val (b # es))"
    by (auto intro: less_trans)
  moreover have "0 \<le> three_way (key_val a) (key_val b) \<longleftrightarrow> \<not> key_val a < key_val b"
    by (auto simp: three_way_def)
  ultimately show ?case using 1 by simp
qed simp_all

text \<open>No inner node gets more children than its count can hold.\<close>

definition counts_fit :: "(Value \<times> nat) list \<Rightarrow> bool" where
  "counts_fit kvs \<longleftrightarrow> (\<forall>es. make_entries kvs = Inr es \<longrightarrow> length (chunks es [] kLeafHeader) \<le> 256) \<or>
     (\<forall>(k, r) \<in> set kvs. 10 \<le> encoded_value_size k)"

lemma bulk_build_ok:
  assumes valid: "validate_bulk_build_input env kvs = Inr ()"
    and ty: "\<forall>(k, r) \<in> set kvs. typed ty k \<and> r < 2 ^ 64" and sorted: "sorted_wrt (<) (map fst kvs)"
    and room: "3 * length kvs + 2 < 2 ^ 32"
    and ok: "counts_fit kvs"
  shows "\<exists>s t. bulk_build env path existing True kvs (new_index []) = (Inr (), s) \<and> index_inv ty s t \<and>
           contents t = kvs \<and> superblock_current s"
proof -
  have "\<forall>(k, r) \<in> set kvs. typed ty k \<and> encoded_value_size k \<le> kMaxIndexKeyBytes \<and> r < 2 ^ 64"
    using validate_ok_keys [OF valid] ty by auto
  then obtain es where es: "make_entries kvs = Inr es" and good: "\<forall>e \<in> set es. good_entry ty e"
    and pairs: "map (\<lambda>e. (key_val e, rid e)) es = kvs"
    using make_entries_good by blast
  have keys: "map key_val es = map fst kvs" and len: "length es = length kvs"
    using arg_cong [OF pairs, of "map fst"] arg_cong [OF pairs, of length] by (simp_all add: comp_def)
  have count: "countable (length (chunks es [] kLeafHeader)) es"
  proof (cases "length (chunks es [] kLeafHeader) \<le> 256")
    case False
    have "10 \<le> key_len e" if e: "e \<in> set es" for e
    proof -
      have "(key_val e, rid e) \<in> set kvs" using e pairs by (metis (mono_tags, lifting) image_eqI list.set_map)
      then show ?thesis using ok False es good e by (auto simp: good_entry_def counts_fit_def)
    qed
    then show ?thesis by (simp add: countable_def)
  qed (simp add: countable_def)
  obtain q where q: "open_page_file path existing True True (new_pager []) = (Inr (), q)" "pager_inv q" "page_count q = 0"
    using open_ok [of "new_pager []" "[]" True existing path] by (auto simp: new_pager_def closed_stream_def)
  let ?s = "(new_index [])\<lparr>ix_pager := q\<rparr>"
  have opened: "on_pager (open_page_file path existing True True) (new_index []) = (Inr (), ?s)"
    using q(1) by (simp add: on_pager_eq new_index_def)
  have "wp never (bulk_build_from_flat es) (\<lambda>_ s. \<exists>t. index_inv ty s t \<and> contents t = kvs \<and> superblock_current s) ?s"
  proof (rule wp_bulk_flat [OF _ _ good])
    show "sorted_wrt (<) (map key_val es)" "3 * length es + 2 < 2 ^ 32" using sorted room keys len by simp_all
    fix t s' assume "index_inv ty s' t" "flat t = es" "superblock_current s'"
    then show "\<exists>t. index_inv ty s' t \<and> contents t = kvs \<and> superblock_current s'" using pairs by (auto simp: contents_def)
  qed (use q count in \<open>simp_all add: idx_inv_def\<close>)
  moreover have "check_increasing es = Inr ()" using check_increasing_good [OF good] sorted keys by simp
  ultimately show ?thesis
    using valid es opened by (auto simp: bulk_build_def op_simps wp_never_iff)
qed

lemma few_counts_fit:
  assumes "\<forall>(k, r) \<in> set kvs. typed ty k \<and> encoded_value_size k \<le> kMaxIndexKeyBytes \<and> r < 2 ^ 64" and "length kvs \<le> 256"
  shows "counts_fit kvs"
proof -
  obtain es where "make_entries kvs = Inr es" "map (\<lambda>e. (key_val e, rid e)) es = kvs"
    using make_entries_good [OF assms(1)] by (elim exE conjE) (rule that)
  moreover from this have "length es \<le> 256" using assms(2) arg_cong [of "map _ es" kvs length] by fastforce
  then have "length (chunks es [] kLeafHeader) \<le> 256" using chunks_length [of es "[]" kLeafHeader] by simp
  ultimately show ?thesis by (simp add: counts_fit_def)
qed

end
