(* ===== verification/Bulk_Results.thy ===== *)
theory Bulk_Results
  imports IndexBulk_Correct Index_Results
begin

text \<open>
  What \<open>DiskBspIndex::bulk_build\<close> promises: the index of its input, or an error for input that
  is not in order.
\<close>

text \<open>C27: A bulk build of pairs in strictly increasing order of their keys gives an index with exactly
  these pairs, and every invariant of the file holds, whatever the number of levels. Only an inner
  node with more than 256 children would be damaged; there is none when the leaves are at most 256,
  or when every key has 10 bytes or more, as then no more fit its page.\<close>

theorem bulk_build_gives_its_input:
  assumes "validate_bulk_build_input env kvs = Inr ()" and "\<forall>(k, r) \<in> set kvs. typed ty k \<and> r < 2 ^ 64"
    and "sorted_wrt (<) (map fst kvs)" and "3 * length kvs + 2 < 2 ^ 32" and "counts_fit kvs"
  shows "\<exists>s t. bulk_build env path existing True kvs (new_index []) = (Inr (), s) \<and> index_inv ty s t \<and>
           contents t = kvs \<and> superblock_current s"
  using assms by (rule bulk_build_ok)

definition no_limit :: memory_env where
  "no_limit = \<lparr>env_budget = None, meminfo = None\<rparr>"

lemma no_limit_valid:
  assumes "\<forall>(k, r) \<in> set kvs. typed ty k \<and> encoded_value_size k \<le> kMaxIndexKeyBytes"
  shows "validate_bulk_build_input no_limit kvs = Inr ()"
proof -
  have "\<exists>m. check_bulk_keys kvs 0 = Inr m" unfolding check_bulk_keys_ok using assms by (auto simp: typed_iff)
  then show ?thesis
    by (auto simp: validate_bulk_build_input_def bulk_budget_def bulk_build_memory_budget_override_def
        available_memory_bytes_def no_limit_def)
qed

lemma bulk_build_gives_its_input_witness:
  "\<exists>s t. bulk_build no_limit ''t.idx'' None True [(VInt 3, 8), (VInt 5, 7)] (new_index []) = (Inr (), s) \<and>
     index_inv TInt s t \<and> contents t = [(VInt 3, 8), (VInt 5, 7)]"
proof -
  let ?kvs = "[(VInt 3, 8), (VInt 5, 7)] :: (Value \<times> nat) list"
  have "validate_bulk_build_input no_limit ?kvs = Inr ()"
    by (rule no_limit_valid [where ty = TInt]) (simp add: kMaxIndexKeyBytes_def)
  moreover have "counts_fit ?kvs" by (rule few_counts_fit [where ty = TInt]) (simp_all add: kMaxIndexKeyBytes_def)
  ultimately show ?thesis
    using bulk_build_gives_its_input [of no_limit ?kvs TInt "''t.idx''" None] by (auto simp: less_Value_def)
qed

text \<open>Input with a key that is not greater than the one before it is refused, and the file is not
  opened.\<close>

theorem unsorted_input_is_refused:
  assumes "validate_bulk_build_input env kvs = Inr ()" and "\<forall>(k, r) \<in> set kvs. typed ty k \<and> r < 2 ^ 64"
    and "\<not> sorted_wrt (<) (map fst kvs)"
  shows "bulk_build env path existing openable kvs s =
           (Inl (Runtime_error ''bulk_build requires strictly increasing unique keys (sort input first)''), s)"
proof -
  have "\<forall>(k, r) \<in> set kvs. typed ty k \<and> encoded_value_size k \<le> kMaxIndexKeyBytes \<and> r < 2 ^ 64"
    using validate_ok_keys [OF assms(1)] assms(2) by auto
  then obtain es where es: "make_entries kvs = Inr es" "\<forall>e \<in> set es. good_entry ty e"
    "map (\<lambda>e. (key_val e, rid e)) es = kvs"
    using make_entries_good by blast
  have "map key_val es = map fst kvs" using arg_cong [OF es(3), of "map fst"] by (simp add: comp_def)
  then show ?thesis
    using assms(1,3) es(1) check_increasing_good [OF es(2)] by (simp add: bulk_build_def op_simps)
qed

lemma unsorted_input_is_refused_witness:
  "bulk_build no_limit ''t.idx'' None True [(VInt 5, 7), (VInt 5, 8)] one_key_index =
     (Inl (Runtime_error ''bulk_build requires strictly increasing unique keys (sort input first)''), one_key_index)"
proof (rule unsorted_input_is_refused [where ty = TInt])
  show "validate_bulk_build_input no_limit [(VInt 5, 7), (VInt 5, 8)] = Inr ()"
    by (rule no_limit_valid [where ty = TInt]) (simp add: kMaxIndexKeyBytes_def)
qed simp_all

end
