(* ===== verification/Schema.thy ===== *)
theory Schema
  imports Values
begin

text \<open>
  Column definitions and table schemas (include/sql/schema.h). A schema is the list of its
  columns; \<open>index_of\<close> answers a position or, for the \<open>-1\<close> of the source, \<open>None\<close>.
\<close>

record ColumnDef =
  col_name :: string
  col_type :: DataType
  not_null :: bool
  indexed :: bool
  has_default :: bool
  default_value :: Value

text \<open>A name in the quotes of an error message.\<close>

definition quoted :: "string \<Rightarrow> string" where
  "quoted s = CHR 0x27 # s @ [CHR 0x27]"

fun column_index :: "string \<Rightarrow> ColumnDef list \<Rightarrow> nat option" where
  "column_index nm [] = None"
| "column_index nm (c # cs) = (if col_name c = nm then Some 0 else map_option Suc (column_index nm cs))"

lemma column_index_Some:
  "column_index nm cs = Some i \<Longrightarrow> i < length cs \<and> col_name (cs ! i) = nm \<and> (\<forall>j < i. col_name (cs ! j) \<noteq> nm)"
proof (induction cs arbitrary: i)
  case (Cons c cs)
  show ?case
  proof (cases i)
    case (Suc k)
    then have "column_index nm cs = Some k" "col_name c \<noteq> nm" using Cons.prems by (auto split: if_splits)
    with Cons.IH Suc show ?thesis by (auto simp: less_Suc_eq_0_disj)
  qed (use Cons.prems in \<open>auto split: if_splits\<close>)
qed simp

lemma column_index_None: "column_index nm cs = None \<longleftrightarrow> nm \<notin> col_name ` set cs"
  by (induction cs) auto

lemma column_index_nth:
  "distinct (map col_name cs) \<Longrightarrow> i < length cs \<Longrightarrow> column_index (col_name (cs ! i)) cs = Some i"
proof (induction cs arbitrary: i)
  case (Cons c cs)
  then show ?case by (cases i) auto
qed simp

end
