(* ===== verification/IndexErase.thy ===== *)
theory IndexErase
  imports IndexInsert
begin

text \<open>
  \<open>DiskBspIndex::erase\<close> and what it calls: borrowing an entry or a child from a sibling,
  merging two siblings, and going up the path when the parent has lost a child.
\<close>

section \<open>Redistribution\<close>

text \<open>\<open>redistribute_leaf_pair\<close>: two siblings whose union does not fit one page become three.\<close>

definition redistribute_leaf_pair ::
    "ParsedPage \<Rightarrow> ParsedPage \<Rightarrow> ParsedPage \<Rightarrow> nat list \<Rightarrow> (disk_index, unit) op" where
  "redistribute_leaf_pair left right parent parent_path =
     (case three_parts (leaf_entries left @ leaf_entries right) of (ls, ms, rs) \<Rightarrow>
        andthen
          (throw_if (leaf_overflow ls \<or> leaf_overflow rs)
             (Length_error ''Redistributed leaf siblings do not fit''))
          (bnd allocate_node_page (\<lambda>i.
           andthen (idx_write_page (left\<lparr>leaf_entries := ls, next_leaf := i\<rparr>))
             (andthen (idx_write_page ((blank_page i Leaf)\<lparr>leaf_entries := ms, next_leaf := page_id right\<rparr>))
               (andthen (idx_write_page (right\<lparr>leaf_entries := rs\<rparr>))
                 (bnd (child_position ''Parent missing left child'' parent (page_id left)) (\<lambda>c.
                  bnd (rebuild_internal_keys
                         (parent\<lparr>children := insert_at (c + 1) i (children parent)\<rparr>)) (\<lambda>parent.
                  andthen (idx_write_page parent)
                    (propagate_subtree_min_change (page_id parent) parent_path)))))))))"

definition redistribute_internal_pair ::
    "ParsedPage \<Rightarrow> ParsedPage \<Rightarrow> ParsedPage \<Rightarrow> nat list \<Rightarrow> (disk_index, unit) op" where
  "redistribute_internal_pair left right parent parent_path =
     (let cs = children left @ children right; m = (length cs + 1) div 2
      in bnd (rebuild_internal_keys (left\<lparr>children := take m cs\<rparr>)) (\<lambda>left.
         bnd (rebuild_internal_keys (right\<lparr>children := drop m cs\<rparr>)) (\<lambda>right.
         andthen
           (throw_if (inner_overflow (inner_keys left) (children left) \<or>
                      inner_overflow (inner_keys right) (children right))
              (Length_error ''Redistributed internal siblings do not fit''))
           (andthen (idx_write_page left)
             (andthen (idx_write_page right)
               (bnd (rebuild_internal_keys parent) (\<lambda>parent.
                andthen (idx_write_page parent)
                  (propagate_subtree_min_change (page_id parent) parent_path))))))))"

text \<open>The end all four borrowing branches share, after the two siblings are written.\<close>

definition refresh_parent :: "ParsedPage \<Rightarrow> nat list \<Rightarrow> (disk_index, unit) op" where
  "refresh_parent parent parent_path =
     bnd (rebuild_internal_keys parent) (\<lambda>parent.
     andthen (idx_write_page parent)
       (propagate_subtree_min_change (page_id parent) parent_path))"

definition promote_single_child_root :: "ParsedPage \<Rightarrow> (disk_index, unit) op" where
  "promote_single_child_root root =
     (if node_type root = Leaf \<or> length (children root) \<noteq> 1
      then throw (Logic_error ''Root must have exactly one child to promote'')
      else bnd (idx_read_page (hd (children root))) (\<lambda>child.
           andthen (modify (\<lambda>s. s\<lparr>root_page := page_id child\<rparr>))
             (bnd (if node_type child = Leaf then ret (page_id child)
                   else leftmost_leaf (page_id child)) (\<lambda>i.
              modify (\<lambda>s. s\<lparr>first_leaf_page := i\<rparr>)))))"

section \<open>Inner nodes\<close>

definition expect_internal :: "nat \<Rightarrow> (disk_index, ParsedPage) op" where
  "expect_internal i =
     bnd (idx_read_page i) (\<lambda>p.
     andthen (throw_if (node_type p = Leaf) (Logic_error ''Expected internal sibling'')) (ret p))"

text \<open>The sibling at a position, if there is one that can spare a child.\<close>

definition spare_internal :: "ParsedPage \<Rightarrow> bool \<Rightarrow> nat \<Rightarrow> (disk_index, ParsedPage option) op" where
  "spare_internal parent exists c =
     (if \<not> exists then ret None
      else bnd (expect_internal (children parent ! c)) (\<lambda>sib.
           ret (if \<not> inner_underflow (inner_keys sib) (children sib) False \<and> 1 < length (children sib)
                then Some sib else None)))"

text \<open>The parent after the child at \<open>c\<close> was merged into its neighbour.\<close>

definition without_child :: "nat \<Rightarrow> nat \<Rightarrow> ParsedPage \<Rightarrow> ParsedPage" where
  "without_child c k parent =
     parent\<lparr>children := erase_at c (children parent), inner_keys := erase_at k (inner_keys parent),
            key_count := (length (inner_keys parent) - 1) mod 256\<rparr>"

function fix_internal_underflow :: "ParsedPage \<Rightarrow> nat list \<Rightarrow> (disk_index, unit) op"
  and handle_internal_after_child_removed :: "ParsedPage \<Rightarrow> nat list \<Rightarrow> (disk_index, unit) op" where
  "fix_internal_underflow node path =
     (if path = [] \<or> last path \<noteq> page_id node then throw (Logic_error ''Invalid path'')
      else bnd (gets root_page) (\<lambda>r.
        if page_id node = r then
          (if length (children node) = 1 then promote_single_child_root node
           else bnd (rebuild_internal_keys node) idx_write_page)
        else if length path < 2 then throw Undefined_behaviour
        else bnd (idx_read_page (path ! (length path - 2))) (\<lambda>parent.
          if node_type parent = Leaf then throw (Logic_error ''Leaf cannot be parent'')
          else bnd (child_position ''Parent missing child'' parent (page_id node)) (\<lambda>c.
            bnd (spare_internal parent (0 < c) (c - 1)) (\<lambda>from_left.
            case from_left of
              Some left \<Rightarrow>
                bnd (rebuild_internal_keys (left\<lparr>children := butlast (children left)\<rparr>)) (\<lambda>left'.
                bnd (rebuild_internal_keys (node\<lparr>children := last (children left) # children node\<rparr>)) (\<lambda>node.
                andthen (idx_write_page left')
                  (andthen (idx_write_page node) (refresh_parent parent (butlast path)))))
            | None \<Rightarrow>
                bnd (spare_internal parent (c + 1 < length (children parent)) (c + 1)) (\<lambda>from_right.
                case from_right of
                  Some right \<Rightarrow>
                    bnd (rebuild_internal_keys (right\<lparr>children := tl (children right)\<rparr>)) (\<lambda>right'.
                    bnd (rebuild_internal_keys
                           (node\<lparr>children := children node @ [hd (children right)]\<rparr>)) (\<lambda>node.
                    andthen (idx_write_page right')
                      (andthen (idx_write_page node) (refresh_parent parent (butlast path)))))
                | None \<Rightarrow>
                    if 0 < c then
                      bnd (idx_read_page (children parent ! (c - 1))) (\<lambda>left.
                      bnd (rebuild_internal_keys
                             (left\<lparr>children := children left @ children node\<rparr>)) (\<lambda>merged.
                      if inner_overflow (inner_keys merged) (children merged)
                      then redistribute_internal_pair left node parent (butlast path)
                      else andthen (idx_write_page merged)
                             (handle_internal_after_child_removed (without_child c (c - 1) parent)
                                (butlast path))))
                    else if length (children parent) \<le> c + 1
                    then throw (Logic_error ''Internal node has no sibling for merge'')
                    else
                      bnd (idx_read_page (children parent ! (c + 1))) (\<lambda>right.
                      bnd (rebuild_internal_keys
                             (node\<lparr>children := children node @ children right\<rparr>)) (\<lambda>merged.
                      if inner_overflow (inner_keys merged) (children merged)
                      then redistribute_internal_pair node right parent (butlast path)
                      else andthen (idx_write_page merged)
                             (handle_internal_after_child_removed (without_child (c + 1) c parent)
                                (butlast path))))))))))"
| "handle_internal_after_child_removed node path =
     (if node_type node = Leaf then throw (Logic_error ''Expected internal node'')
      else if path = [] \<or> last path \<noteq> page_id node then throw (Logic_error ''Invalid path'')
      else bnd (rebuild_internal_keys node) (\<lambda>node.
        bnd (gets root_page) (\<lambda>r.
        if page_id node = r then
          (if length (children node) = 1 then promote_single_child_root node
           else idx_write_page node)
        else if inner_underflow (inner_keys node) (children node) False
        then fix_internal_underflow node path
        else andthen (idx_write_page node) (propagate_subtree_min_change (page_id node) path))))"
  by pat_completeness auto
termination
  by (relation "measure (\<lambda>x. case x of
        Inl (node, path) \<Rightarrow> 2 * length path
      | Inr (node, path) \<Rightarrow> 2 * length path + 1)")
    (auto simp: length_greater_0_conv [symmetric] simp del: length_greater_0_conv)

declare fix_internal_underflow.simps [simp del] handle_internal_after_child_removed.simps [simp del]

section \<open>Leaves\<close>

definition expect_leaf :: "nat \<Rightarrow> (disk_index, ParsedPage) op" where
  "expect_leaf i =
     bnd (idx_read_page i) (\<lambda>p.
     andthen (throw_if (node_type p \<noteq> Leaf) (Logic_error ''Expected leaf sibling'')) (ret p))"

definition spare_leaf :: "ParsedPage \<Rightarrow> bool \<Rightarrow> nat \<Rightarrow> (disk_index, ParsedPage option) op" where
  "spare_leaf parent exists c =
     (if \<not> exists then ret None
      else bnd (expect_leaf (children parent ! c)) (\<lambda>sib.
           ret (if \<not> leaf_underflow (leaf_entries sib) False then Some sib else None)))"

text \<open>Merging \<open>b\<close> into its left neighbour \<open>a\<close>, or sharing their entries when they do not fit.\<close>

definition merge_leaves ::
    "ParsedPage \<Rightarrow> ParsedPage \<Rightarrow> ParsedPage \<Rightarrow> nat \<Rightarrow> nat \<Rightarrow> nat list \<Rightarrow> (disk_index, unit) op" where
  "merge_leaves a b parent c k parent_path =
     (let merged = a\<lparr>leaf_entries := leaf_entries a @ leaf_entries b, next_leaf := next_leaf b\<rparr>
      in if leaf_overflow (leaf_entries merged)
         then redistribute_leaf_pair a b parent parent_path
         else andthen (modify (\<lambda>s. if first_leaf_page s = page_id b
                                   then s\<lparr>first_leaf_page := page_id merged\<rparr> else s))
           (andthen (idx_write_page merged)
             (handle_internal_after_child_removed (without_child c k parent) parent_path)))"

definition fix_leaf_underflow :: "ParsedPage \<Rightarrow> nat list \<Rightarrow> (disk_index, unit) op" where
  "fix_leaf_underflow leaf path =
     (if path = [] \<or> last path \<noteq> page_id leaf then throw (Logic_error ''Invalid path'')
      else bnd (gets root_page) (\<lambda>r.
        if page_id leaf = r then idx_write_page leaf
        else if length path < 2 then throw Undefined_behaviour
        else bnd (idx_read_page (path ! (length path - 2))) (\<lambda>parent.
          if node_type parent = Leaf then throw (Logic_error ''Leaf cannot be parent'')
          else bnd (child_position ''Parent missing child'' parent (page_id leaf)) (\<lambda>c.
            bnd (spare_leaf parent (0 < c) (c - 1)) (\<lambda>from_left.
            case from_left of
              Some left \<Rightarrow>
                andthen (idx_write_page (left\<lparr>leaf_entries := butlast (leaf_entries left)\<rparr>))
                  (andthen (idx_write_page
                              (leaf\<lparr>leaf_entries := last (leaf_entries left) # leaf_entries leaf\<rparr>))
                    (refresh_parent parent (butlast path)))
            | None \<Rightarrow>
                bnd (spare_leaf parent (c + 1 < length (children parent)) (c + 1)) (\<lambda>from_right.
                case from_right of
                  Some right \<Rightarrow>
                    andthen (idx_write_page (right\<lparr>leaf_entries := tl (leaf_entries right)\<rparr>))
                      (andthen (idx_write_page
                                  (leaf\<lparr>leaf_entries := leaf_entries leaf @ [hd (leaf_entries right)]\<rparr>))
                        (refresh_parent parent (butlast path)))
                | None \<Rightarrow>
                    if 0 < c then
                      bnd (idx_read_page (children parent ! (c - 1))) (\<lambda>left.
                      merge_leaves left leaf parent c (c - 1) (butlast path))
                    else if length (children parent) \<le> c + 1
                    then throw (Logic_error ''Leaf has no sibling for merge'')
                    else
                      bnd (idx_read_page (children parent ! (c + 1))) (\<lambda>right.
                      merge_leaves leaf right parent (c + 1) c (butlast path))))))))"

section \<open>Erasure\<close>

definition idx_erase :: "Value \<Rightarrow> (disk_index, bool) op" where
  "idx_erase k =
     bnd (gets ix_size) (\<lambda>n.
     if n = 0 then ret False
     else bnd (find_leaf k) (\<lambda>(leaf, path).
       bnd (of_sum (lower_bound_slot leaf k)) (\<lambda>slot.
       if length (leaf_entries leaf) \<le> slot then ret False
       else bnd (of_sum (make_entry k 0)) (\<lambda>probe.
         bnd (of_sum (keys_equal_bytes (leaf_entries leaf ! slot) probe)) (\<lambda>same.
         if \<not> same then ret False
         else let leaf = leaf\<lparr>leaf_entries := erase_at slot (leaf_entries leaf)\<rparr>
           in andthen (modify (\<lambda>s. s\<lparr>ix_size := ix_size s - 1\<rparr>))
             (bnd (gets ix_size) (\<lambda>n.
              if n = 0 then
                andthen (idx_write_page (leaf\<lparr>leaf_entries := []\<rparr>))
                  (andthen (modify (\<lambda>s. s\<lparr>root_page := page_id leaf, first_leaf_page := page_id leaf\<rparr>))
                    (andthen write_superblock (ret True)))
              else bnd (gets root_page) (\<lambda>r.
                if page_id leaf = r \<or> \<not> leaf_underflow (leaf_entries leaf) False then
                  andthen (idx_write_page leaf)
                    (andthen
                      (when_op (slot = 0 \<and> leaf_entries leaf \<noteq> [])
                        (propagate_subtree_min_change (page_id leaf) path))
                      (andthen write_superblock (ret True)))
                else
                  andthen (fix_leaf_underflow leaf path)
                    (andthen write_superblock (ret True))))))))))"

end
