(* ===== verification/Table.thy ===== *)
theory Table
  imports Schema IndexErase IndexBulk
begin

text \<open>
  \<open>cw_db::Table\<close> (include/storage/table.h, src/storage/table.cpp): records by id, the order in
  which they were inserted, and one disk index per indexed column. Values are kept with their
  strings; theory \<open>Values\<close> relates them to the interned values of the source. The indexes of a
  table are opened on demand; what the file system has at their paths is an argument.
\<close>

section \<open>The object\<close>

type_synonym Record = "Value list"

record table =
  tb_name :: string
  tb_schema :: "ColumnDef list"
  tb_records :: "nat \<Rightarrow> Record option"
  tb_order :: "nat list"
  tb_indexes :: "(nat \<times> disk_index) list"
  tb_path :: string
  tb_next :: nat

text \<open>What opening the index of a column meets: a file, whether it can be opened, device faults.\<close>

record index_env =
  ie_existing :: "nat \<Rightarrow> byte list option"
  ie_openable :: "nat \<Rightarrow> bool"
  ie_faults :: "nat \<Rightarrow> nat option list"
  ie_memory :: memory_env

definition new_table :: "string \<Rightarrow> ColumnDef list \<Rightarrow> table" where
  "new_table name schema =
     \<lparr>tb_name = name, tb_schema = schema, tb_records = (\<lambda>_. None), tb_order = [], tb_indexes = [],
      tb_path = [], tb_next = 1\<rparr>"

definition require_column :: "table \<Rightarrow> string \<Rightarrow> error + nat" where
  "require_column t nm =
     (case column_index nm (tb_schema t) of
        None \<Rightarrow> Inl (Runtime_error (''Unknown column '' @ quoted nm @ '' in table '' @ quoted (tb_name t)))
      | Some i \<Rightarrow> Inr i)"

definition column_is_indexed :: "table \<Rightarrow> nat \<Rightarrow> bool" where
  "column_is_indexed t i \<longleftrightarrow> i < length (tb_schema t) \<and> indexed (tb_schema t ! i)"

text \<open>The positions of the indexed columns, in schema order: the columns the loops do not skip.\<close>

definition indexed_columns :: "table \<Rightarrow> nat list" where
  "indexed_columns t = filter (\<lambda>i. indexed (tb_schema t ! i)) [0..<length (tb_schema t)]"

section \<open>Index files\<close>

text \<open>\<open>std::filesystem::path\<close> on a generic path: the directory, the file name, its stem.\<close>

definition file_name :: "string \<Rightarrow> string" where
  "file_name p = rev (takeWhile (\<lambda>c. c \<noteq> CHR ''/'') (rev p))"

definition parent_path :: "string \<Rightarrow> string" where
  "parent_path p = rev (drop 1 (dropWhile (\<lambda>c. c \<noteq> CHR ''/'') (rev p)))"

definition file_stem :: "string \<Rightarrow> string" where
  "file_stem p =
     (let f = file_name p; stem = rev (drop 1 (dropWhile (\<lambda>c. c \<noteq> CHR ''.'') (rev f)))
      in if stem = [] then f else stem)"

definition join_path :: "string \<Rightarrow> string \<Rightarrow> string" where
  "join_path dir f = (if dir = [] then f else dir @ ''/'' @ f)"

definition index_path_for :: "string \<Rightarrow> string" where
  "index_path_for dat_path = join_path (parent_path dat_path) (file_stem dat_path @ ''.idx'')"

definition index_file :: "table \<Rightarrow> nat \<Rightarrow> string" where
  "index_file t c = index_path_for (tb_path t) @ ''.'' @ nat_str c"

text \<open>A member function of the index of one column; \<open>std::unordered_map::at\<close> throws when there is none.\<close>

definition on_index :: "nat \<Rightarrow> (disk_index, 'a) op \<Rightarrow> (table, 'a) op" where
  "on_index c m t =
     (case map_of (tb_indexes t) c of
        None \<Rightarrow> (Inl (Out_of_range ''unordered_map::at''), t)
      | Some ix \<Rightarrow> (case m ix of (r, ix') \<Rightarrow> (r, t\<lparr>tb_indexes := AList.update c ix' (tb_indexes t)\<rparr>)))"

text \<open>Opening the index of one column; an exception leaves the map without it.\<close>

definition open_index_of :: "index_env \<Rightarrow> nat \<Rightarrow> (table, unit) op" where
  "open_index_of env c t =
     (let path = index_file t c;
          start = (case ie_existing env c of
                     Some bytes \<Rightarrow> open_index path (Some bytes) (ie_openable env c)
                   | None \<Rightarrow> create_empty path None (ie_openable env c))
      in case start (new_index (ie_faults env c)) of
           (Inl e, _) \<Rightarrow> (Inl e, t)
         | (Inr _, ix) \<Rightarrow> (Inr (), t\<lparr>tb_indexes := tb_indexes t @ [(c, ix)]\<rparr>))"

definition open_indexes :: "index_env \<Rightarrow> (table, unit) op" where
  "open_indexes env t =
     (if tb_path t = [] then (Inr (), t)
      else for_each (\<lambda>c t. if map_of (tb_indexes t) c \<noteq> None then (Inr (), t) else open_index_of env c t)
             (indexed_columns t) t)"

definition bind_dat_path :: "index_env \<Rightarrow> string \<Rightarrow> (table, unit) op" where
  "bind_dat_path env path = andthen (modify (\<lambda>t. t\<lparr>tb_path := path\<rparr>)) (open_indexes env)"

definition flush_indexes :: "(table, unit) op" where
  "flush_indexes t =
     for_each (\<lambda>c. on_index c (\<lambda>ix. if st_open (pg_stream (ix_pager ix)) then flush_index ix else (Inr (), ix)))
       (map fst (tb_indexes t)) t"

definition mutable_index :: "index_env \<Rightarrow> nat \<Rightarrow> (table, unit) op" where
  "mutable_index env c t =
     (if \<not> column_is_indexed t c then (Inl (Runtime_error ''Column is not indexed''), t)
      else if tb_path t = []
      then (Inl (Runtime_error ''Table storage path is not bound; cannot update on-disk index''), t)
      else open_indexes env t)"

text \<open>\<open>index_at(c) != nullptr\<close>.\<close>

definition has_index :: "table \<Rightarrow> nat \<Rightarrow> bool" where
  "has_index t c \<longleftrightarrow> column_is_indexed t c \<and>
     (case map_of (tb_indexes t) c of None \<Rightarrow> False | Some ix \<Rightarrow> st_open (pg_stream (ix_pager ix)))"

definition index_find :: "nat \<Rightarrow> Value \<Rightarrow> (table, nat option) op" where
  "index_find c k =
     bnd (gets (\<lambda>t. has_index t c)) (\<lambda>there.
     if \<not> there then ret None
     else bnd (on_index c (idx_find k)) (\<lambda>it.
          ret (if iter_eq it end_iter then None else Some (it_rid it))))"

definition collect_range :: "nat \<Rightarrow> Value option \<Rightarrow> bool \<Rightarrow> Value option \<Rightarrow> bool \<Rightarrow> (table, nat list) op" where
  "collect_range c lo lo_inclusive hi hi_inclusive =
     bnd (gets (\<lambda>t. has_index t c)) (\<lambda>there.
     if \<not> there then ret []
     else on_index c (index_collect_range lo lo_inclusive hi hi_inclusive))"

section \<open>Records and constraints\<close>

text \<open>
  \<open>materialize\<close>: \<open>full\<close> and \<open>assigned\<close> are one list, \<open>None\<close> where nothing is assigned yet.
\<close>

fun assign_values :: "ColumnDef list \<Rightarrow> (nat \<times> Value) list \<Rightarrow> Value option list \<Rightarrow> error + Value option list" where
  "assign_values cs [] full = Inr full"
| "assign_values cs ((pos, v) # rest) full =
     (if length full \<le> pos then Inl Undefined_behaviour
      else if full ! pos \<noteq> None
      then Inl (Runtime_error (''INSERT: column '' @ quoted (col_name (cs ! pos)) @ '' specified twice''))
      else assign_values cs rest (full[pos := Some v]))"

definition fill_default :: "ColumnDef \<Rightarrow> Value option \<Rightarrow> Value" where
  "fill_default c v =
     (case v of Some x \<Rightarrow> x | None \<Rightarrow> if has_default c then default_value c else VNull)"

definition materialize :: "table \<Rightarrow> nat list \<Rightarrow> Value list \<Rightarrow> error + Record" where
  "materialize t positions vs =
     (if length positions \<noteq> length vs then Inl (Runtime_error ''INSERT: column/value count mismatch'')
      else case assign_values (tb_schema t) (zip positions vs) (replicate (length (tb_schema t)) None) of
        Inl e \<Rightarrow> Inl e
      | Inr full \<Rightarrow> Inr (map2 fill_default (tb_schema t) full))"

fun check_types :: "ColumnDef list \<Rightarrow> Value list \<Rightarrow> error + unit" where
  "check_types (c # cs) (v # vs) =
     (if is_null v then
        (if not_null c \<or> indexed c
         then Inl (Runtime_error (''NULL not allowed in column '' @ quoted (col_name c)))
         else check_types cs vs)
      else if \<not> matches v (col_type c)
      then Inl (Runtime_error (''Type mismatch for column '' @ quoted (col_name c) @ '' (expected '' @
                               type_name (col_type c) @ '')''))
      else check_types cs vs)"
| "check_types _ _ = Inr ()"

definition check_unique :: "Record \<Rightarrow> nat option \<Rightarrow> nat \<Rightarrow> (table, unit) op" where
  "check_unique r existing c =
     (if is_null (r ! c) then ret ()
      else bnd (index_find c (r ! c)) (\<lambda>found.
           bnd (gets tb_schema) (\<lambda>cs.
           throw_if (\<exists>i \<in> set_option found. existing \<noteq> Some i)
             (Runtime_error (''Duplicate value in indexed column '' @ quoted (col_name (cs ! c)))))))"

definition enforce_constraints :: "Record \<Rightarrow> nat option \<Rightarrow> (table, unit) op" where
  "enforce_constraints r existing t =
     (if length r \<noteq> length (tb_schema t) then (Inl (Runtime_error ''Internal: record arity mismatch''), t)
      else andthen (of_sum (check_types (tb_schema t) r))
             (for_each (check_unique r existing) (indexed_columns t)) t)"

section \<open>Changing records\<close>

definition install_into_indexes :: "index_env \<Rightarrow> nat \<Rightarrow> Record \<Rightarrow> (table, unit) op" where
  "install_into_indexes env i r t =
     for_each (\<lambda>c. if is_null (r ! c) then ret ()
                   else andthen (mutable_index env c) (on_index c (idx_insert (r ! c) i)))
       (indexed_columns t) t"

definition remove_from_indexes :: "index_env \<Rightarrow> nat \<Rightarrow> Record \<Rightarrow> (table, unit) op" where
  "remove_from_indexes env i r t =
     for_each (\<lambda>c. if is_null (r ! c) then ret ()
                   else andthen (mutable_index env c) (bnd (on_index c (idx_erase (r ! c))) (\<lambda>_. ret ())))
       (indexed_columns t) t"

definition table_insert :: "index_env \<Rightarrow> Record \<Rightarrow> (table, nat) op" where
  "table_insert env r =
     andthen (enforce_constraints r None)
       (bnd (gets tb_next) (\<lambda>i.
        andthen (modify (\<lambda>t. t\<lparr>tb_next := (i + 1) mod 2 ^ 64,
                   tb_records := (if tb_records t i = None then (tb_records t)(i \<mapsto> r) else tb_records t),
                   tb_order := tb_order t @ [i]\<rparr>))
          (bnd (gets (\<lambda>t. the (tb_records t i))) (\<lambda>stored.
           andthen (install_into_indexes env i stored) (ret i)))))"

definition assign_all :: "(nat \<times> Value) list \<Rightarrow> Record \<Rightarrow> Record" where
  "assign_all assignments r = foldl (\<lambda>r (c, v). r[c := v]) r assignments"

definition table_update :: "index_env \<Rightarrow> nat \<Rightarrow> (nat \<times> Value) list \<Rightarrow> (table, unit) op" where
  "table_update env i assignments t =
     (case tb_records t i of
        None \<Rightarrow> (Inl (Runtime_error ''Internal: record id not found''), t)
      | Some r \<Rightarrow>
          let updated = assign_all assignments r
          in andthen (enforce_constraints updated (Some i))
               (andthen (remove_from_indexes env i r)
                 (andthen (modify (\<lambda>t. t\<lparr>tb_records := (tb_records t)(i \<mapsto> updated)\<rparr>))
                   (install_into_indexes env i updated))) t)"

definition table_erase :: "index_env \<Rightarrow> nat \<Rightarrow> (table, unit) op" where
  "table_erase env i t =
     (case tb_records t i of
        None \<Rightarrow> (Inr (), t)
      | Some r \<Rightarrow>
          andthen (remove_from_indexes env i r)
            (modify (\<lambda>t. t\<lparr>tb_records := (tb_records t)(i := None), tb_order := remove1 i (tb_order t)\<rparr>)) t)"

end
