(* ===== verification/TableFile.thy ===== *)
theory TableFile
  imports Table
begin

text \<open>
  The file of a table (\<open>Table::save\<close>, \<open>Table::load\<close>): a header, the columns, the next record
  id, and the records in their order. Versions 1 and 2 are read as well, with their indexes
  built from the records; version 3 keeps the indexes in files of their own.
\<close>

definition kMagic :: nat where
  "kMagic = 0x42535444"

definition kVersion :: nat where
  "kVersion = 3"

section \<open>Writing\<close>

text \<open>The length of a string is written in four bytes; a longer string is cut to the length written.\<close>

definition string_bytes :: "string \<Rightarrow> byte list" where
  "string_bytes s =
     (let n = length s mod 2 ^ 32 in le_bytes 4 n @ map byte_of_char (take n s))"

fun file_value_bytes :: "Value \<Rightarrow> byte list" where
  "file_value_bytes VNull = [0]"
| "file_value_bytes (VInt i) = 1 # le_bytes 8 (unat i)"
| "file_value_bytes (VStr s) = 2 # string_bytes s"

definition type_code :: "DataType \<Rightarrow> byte" where
  "type_code t = (case t of TInt \<Rightarrow> 1 | TStr \<Rightarrow> 2)"

definition column_flags :: "ColumnDef \<Rightarrow> byte" where
  "column_flags c = (if not_null c then 1 else 0) + (if indexed c then 2 else 0) + (if has_default c then 4 else 0)"

definition column_bytes :: "ColumnDef \<Rightarrow> byte list" where
  "column_bytes c =
     string_bytes (col_name c) @ [type_code (col_type c), column_flags c]
     @ (if has_default c then file_value_bytes (default_value c) else [])"

definition record_bytes :: "nat \<Rightarrow> Record \<Rightarrow> byte list" where
  "record_bytes i r = le_bytes 8 i @ concat (map file_value_bytes r)"

definition table_bytes :: "table \<Rightarrow> byte list" where
  "table_bytes t =
     le_bytes 4 kMagic @ le_bytes 4 kVersion @ string_bytes (tb_name t)
     @ le_bytes 4 (length (tb_schema t)) @ concat (map column_bytes (tb_schema t))
     @ le_bytes 8 (tb_next t) @ le_bytes 8 (length (tb_order t))
     @ concat (map (\<lambda>i. record_bytes i (the (tb_records t i))) (tb_order t))"

text \<open>
  The result is what the file at \<open>path\<close> holds after the temporary file was renamed;
  \<open>writable\<close> says whether that could be opened. \<open>records_.at\<close> throws for an id in the order
  that has no record.
\<close>

definition save :: "index_env \<Rightarrow> bool \<Rightarrow> string \<Rightarrow> (table, byte list) op" where
  "save env writable path =
     andthen (bind_dat_path env path)
       (andthen flush_indexes
         (bnd (gets id) (\<lambda>t.
          andthen (throw_if (\<not> writable) (Runtime_error (''Cannot write '' @ path)))
            (andthen (throw_if (\<exists>i \<in> set (tb_order t). tb_records t i = None) (Out_of_range ''unordered_map::at''))
              (ret (table_bytes t))))))"

section \<open>Reading\<close>

text \<open>
  A reader is a function from the bytes not yet read to a value and the bytes after it. A
  number that is not all there is left uninitialised by the source and then used.
\<close>

type_synonym 'a reader = "byte list \<Rightarrow> error + 'a \<times> byte list"

definition read_nat :: "nat \<Rightarrow> nat reader" where
  "read_nat n bs = (if length bs < n then Inl Undefined_behaviour else Inr (le_val (take n bs), drop n bs))"

definition read_then :: "'a reader \<Rightarrow> ('a \<Rightarrow> 'b reader) \<Rightarrow> 'b reader" where
  "read_then m f bs = (case m bs of Inl e \<Rightarrow> Inl e | Inr (x, rest) \<Rightarrow> f x rest)"

definition read_ret :: "'a \<Rightarrow> 'a reader" where
  "read_ret x bs = Inr (x, bs)"

definition read_fail :: "error \<Rightarrow> 'a reader" where
  "read_fail e bs = Inl e"

fun read_list :: "nat \<Rightarrow> 'a reader \<Rightarrow> 'a list reader" where
  "read_list 0 m = read_ret []"
| "read_list (Suc n) m = read_then m (\<lambda>x. read_then (read_list n m) (\<lambda>xs. read_ret (x # xs)))"

text \<open>A string that is cut short by the end of the file is filled up with zeros.\<close>

definition read_string :: "string reader" where
  "read_string =
     read_then (read_nat 4) (\<lambda>n bs.
       Inr (map char_of_byte (take n bs @ replicate (n - length bs) 0), drop n bs))"

definition read_value :: "Value reader" where
  "read_value =
     read_then (read_nat 1) (\<lambda>tag.
       if tag = 0 then read_ret VNull
       else if tag = 1 then read_then (read_nat 8) (\<lambda>i. read_ret (VInt (word_of_nat i)))
       else if tag = 2 then read_then read_string (\<lambda>s. read_ret (VStr s))
       else read_fail (Runtime_error ''Corrupt table file: unknown value tag''))"

text \<open>A type byte that is no enumerator of \<open>DataType\<close> is outside the model.\<close>

definition read_column :: "ColumnDef reader" where
  "read_column =
     read_then read_string (\<lambda>nm.
     read_then (read_nat 1) (\<lambda>ty.
     read_then (read_nat 1) (\<lambda>flags.
     if ty \<noteq> 1 \<and> ty \<noteq> 2 then read_fail Undefined_behaviour
     else read_then (if odd (flags div 4) then read_value else read_ret VNull) (\<lambda>d.
          read_ret \<lparr>col_name = nm, col_type = (if ty = 1 then TInt else TStr), not_null = odd flags,
                    indexed = odd (flags div 2), has_default = odd (flags div 4), default_value = d\<rparr>))))"

definition read_record :: "nat \<Rightarrow> (nat \<times> Record) reader" where
  "read_record n = read_then (read_nat 8) (\<lambda>i. read_then (read_list n read_value) (\<lambda>r. read_ret (i, r)))"

definition check_header :: "string \<Rightarrow> nat reader" where
  "check_header path =
     read_then (read_nat 4) (\<lambda>magic.
     if magic \<noteq> kMagic then read_fail (Runtime_error (''Bad magic in '' @ path))
     else read_then (read_nat 4) (\<lambda>version.
       if version \<noteq> 1 \<and> version \<noteq> 2 \<and> version \<noteq> kVersion
       then read_fail (Runtime_error (''Unsupported version in '' @ path))
       else read_ret version))"

text \<open>\<open>records_.emplace\<close> keeps the first record of an id; \<open>order_\<close> gets every id.\<close>

definition put_record :: "nat \<times> Record \<Rightarrow> (nat \<Rightarrow> Record option) \<Rightarrow> nat \<Rightarrow> Record option" where
  "put_record ir m = (case ir of (i, r) \<Rightarrow> if m i = None then m(i \<mapsto> r) else m)"

definition read_table :: "string \<Rightarrow> (nat \<times> table) reader" where
  "read_table path =
     read_then (check_header path) (\<lambda>version.
     read_then read_string (\<lambda>nm.
     read_then (read_nat 4) (\<lambda>cols.
     read_then (read_list cols read_column) (\<lambda>cs.
     read_then (read_nat 8) (\<lambda>next_id.
     read_then (read_nat 8) (\<lambda>n.
     read_then (read_list n (read_record (length cs))) (\<lambda>rs.
     read_ret (version,
       \<lparr>tb_name = nm, tb_schema = cs, tb_records = fold put_record rs (\<lambda>_. None), tb_order = map fst rs,
        tb_indexes = [], tb_path = [], tb_next = next_id\<rparr>))))))))"

section \<open>Building indexes from records\<close>

definition assert_indexed_column_not_null :: "nat \<Rightarrow> table \<Rightarrow> error + unit" where
  "assert_indexed_column_not_null c t =
     (if \<not> column_is_indexed t c then Inr ()
      else case filter (\<lambda>i. case tb_records t i of Some r \<Rightarrow> is_null (r ! c) | None \<Rightarrow> False) (tb_order t) of
        [] \<Rightarrow> Inr ()
      | i # _ \<Rightarrow> Inl (Runtime_error (''Cannot bulk-build index on column '' @ quoted (col_name (tb_schema t ! c)) @
                                     '': NULL in record id '' @ nat_str i)))"

text \<open>\<open>std::sort\<close> by \<open>ValueLess\<close> on keys; equal keys are refused by the bulk build in any order.\<close>

fun insert_less :: "Value \<times> nat \<Rightarrow> (Value \<times> nat) list \<Rightarrow> (Value \<times> nat) list" where
  "insert_less x [] = [x]"
| "insert_less x (y # ys) = (if ValueLess (fst y) (fst x) then y # insert_less x ys else x # y # ys)"

definition sort_less :: "(Value \<times> nat) list \<Rightarrow> (Value \<times> nat) list" where
  "sort_less xs = foldr insert_less xs []"

definition bulk_index :: "index_env \<Rightarrow> nat \<Rightarrow> (Value \<times> nat) list \<Rightarrow> (table, unit) op" where
  "bulk_index env c entries t =
     (case bulk_build (ie_memory env) (index_file t c) (ie_existing env c) (ie_openable env c) (sort_less entries)
             (new_index (ie_faults env c)) of
        (Inl e, _) \<Rightarrow> (Inl e, t)
      | (Inr _, ix) \<Rightarrow> (Inr (), t\<lparr>tb_indexes := tb_indexes t @ [(c, ix)]\<rparr>))"

definition rebuild_indexes_on_disk :: "index_env \<Rightarrow> (table, unit) op" where
  "rebuild_indexes_on_disk env t =
     (if tb_path t = [] then (Inr (), t)
      else andthen (modify (\<lambda>t. t\<lparr>tb_indexes := []\<rparr>))
        (for_each (\<lambda>c. bnd (gets id) (\<lambda>t.
           andthen (of_sum (assert_indexed_column_not_null c t))
             (bulk_index env c (map (\<lambda>i. (the (tb_records t i) ! c, i)) (tb_order t)))))
           (indexed_columns t)) t)"

text \<open>
  The index section of a version 2 file: for each index its column and its record ids. Numbers
  missing at the end of the file are zero, as their variables are initialised.
\<close>

definition read_nat0 :: "nat \<Rightarrow> byte list \<Rightarrow> nat \<times> byte list" where
  "read_nat0 n bs = (le_val (take n bs), drop n bs)"

fun read_ids :: "nat \<Rightarrow> byte list \<Rightarrow> nat list \<times> byte list" where
  "read_ids 0 bs = ([], bs)"
| "read_ids (Suc k) bs =
     (case read_nat0 8 bs of (i, rest) \<Rightarrow> case read_ids k rest of (is, rest') \<Rightarrow> (i # is, rest'))"

fun load_v2_indexes :: "index_env \<Rightarrow> nat \<Rightarrow> byte list \<Rightarrow> (table, unit) op" where
  "load_v2_indexes env 0 bs = ret ()"
| "load_v2_indexes env (Suc b) bs =
     (case read_nat0 4 bs of (c, bs) \<Rightarrow> case read_nat0 8 bs of (k, bs) \<Rightarrow> case read_ids k bs of (ids, bs) \<Rightarrow>
        bnd (gets id) (\<lambda>t.
        if \<not> column_is_indexed t c then load_v2_indexes env b bs
        else andthen (of_sum (assert_indexed_column_not_null c t))
          (andthen (modify (\<lambda>t. t\<lparr>tb_indexes := AList.delete c (tb_indexes t)\<rparr>))
            (andthen (bulk_index env c
                        (map (\<lambda>i. (the (tb_records t i) ! c, i)) (filter (\<lambda>i. tb_records t i \<noteq> None) ids)))
              (load_v2_indexes env b bs)))))"

text \<open>\<open>load\<close> on the bytes of the file, \<open>None\<close> when it cannot be read.\<close>

definition load :: "index_env \<Rightarrow> string \<Rightarrow> byte list option \<Rightarrow> error + table" where
  "load env path file =
     (case file of
        None \<Rightarrow> Inl (Runtime_error (''Cannot read '' @ path))
      | Some bytes \<Rightarrow>
          (case read_table path bytes of
             Inl e \<Rightarrow> Inl e
           | Inr ((version, t), rest) \<Rightarrow>
               (case andthen (bind_dat_path env path)
                       (if version = kVersion then ret ()
                        else if version = 1 then rebuild_indexes_on_disk env
                        else case read_nat0 4 rest of (n, rest) \<Rightarrow> load_v2_indexes env n rest) t of
                  (Inl e, _) \<Rightarrow> Inl e
                | (Inr _, t') \<Rightarrow> Inr t')))"

end
