(* ===== verification/TableFile_Correct.thy ===== *)
theory TableFile_Correct
  imports TableFile Codec
begin

text \<open>
  A saved table is read back as it was: reading is the inverse of writing for every part of
  the file, and the parts follow each other without marks, each saying how long it is.
\<close>

section \<open>Readers and what they read\<close>

definition reads :: "'a reader \<Rightarrow> byte list \<Rightarrow> 'a \<Rightarrow> bool" where
  "reads m bs x \<longleftrightarrow> (\<forall>rest. m (bs @ rest) = Inr (x, rest))"

lemma reads_ret [intro!]: "reads (read_ret x) [] x"
  by (simp add: reads_def read_ret_def)

lemma reads_then: "reads m bs x \<Longrightarrow> reads (f x) cs y \<Longrightarrow> reads (read_then m f) (bs @ cs) y"
  by (simp add: reads_def read_then_def)

lemma reads_then_ret: "reads m bs x \<Longrightarrow> reads (f x) [] y \<Longrightarrow> reads (read_then m f) bs y"
  using reads_then [of m bs x f "[]" y] by simp

lemma reads_nat: "k < 256 ^ n \<Longrightarrow> reads (read_nat n) (le_bytes n k) k"
  by (simp add: reads_def read_nat_def)

lemma reads_byte: "reads (read_nat 1) [b] (unat b)"
  by (simp add: reads_def read_nat_def)

lemma reads_list:
  assumes "\<And>x. x \<in> set xs \<Longrightarrow> reads m (enc x) x"
  shows "reads (read_list (length xs) m) (concat (map enc xs)) xs"
  using assms
proof (induction xs)
  case (Cons x xs)
  have "reads (read_then (read_list (length xs) m) (\<lambda>xs. read_ret (x # xs))) (concat (map enc xs)) (x # xs)"
    using Cons by (intro reads_then_ret [of _ _ xs]) auto
  then show ?case using Cons.prems by (simp add: reads_then [of m "enc x" x])
qed auto

lemma reads_list_map:
  assumes "\<And>x. x \<in> set xs \<Longrightarrow> reads m (enc x) (f x)"
  shows "reads (read_list (length xs) m) (concat (map enc xs)) (map f xs)"
  using assms
proof (induction xs)
  case (Cons x xs)
  have "reads (read_then (read_list (length xs) m) (\<lambda>ys. read_ret (f x # ys))) (concat (map enc xs)) (f x # map f xs)"
    using Cons by (intro reads_then_ret [of _ _ "map f xs"]) auto
  then show ?case using Cons.prems by (simp add: reads_then [of m "enc x" "f x"])
qed auto

section \<open>Values\<close>

definition short_string :: "string \<Rightarrow> bool" where
  "short_string s \<longleftrightarrow> length s < 2 ^ 32"

fun storable_value :: "Value \<Rightarrow> bool" where
  "storable_value (VStr s) = short_string s"
| "storable_value _ = True"

lemma reads_string:
  assumes "short_string s"
  shows "reads read_string (string_bytes s) s"
proof -
  have n: "length s mod 2 ^ 32 = length s" "length s < 256 ^ 4" using assms by (simp_all add: short_string_def)
  have chars: "map (char_of_byte \<circ> byte_of_char) s = s" by (induction s) simp_all
  show ?thesis
    unfolding read_string_def string_bytes_def Let_def n(1)
    by (rule reads_then [OF reads_nat [OF n(2)]]) (simp add: reads_def chars)
qed

lemma reads_value:
  assumes "storable_value v"
  shows "reads read_value (file_value_bytes v) v"
proof (cases v)
  case VNull
  have "reads (read_value) [0] VNull"
    unfolding read_value_def by (rule reads_then_ret [OF reads_byte]) (simp add: reads_ret)
  then show ?thesis using VNull by simp
next
  case (VInt i)
  have "reads (read_then (read_nat 8) (\<lambda>i. read_ret (VInt (word_of_nat i)))) (le_bytes 8 (unat i)) (VInt i)"
    using unsigned_less [of i] by (intro reads_then_ret [OF reads_nat]) (auto simp: reads_def read_ret_def)
  then have "reads read_value ([1] @ le_bytes 8 (unat i)) (VInt i)"
    unfolding read_value_def by (intro reads_then [OF reads_byte]) simp
  then show ?thesis using VInt by simp
next
  case (VStr s)
  have "reads (read_then read_string (\<lambda>s. read_ret (VStr s))) (string_bytes s) (VStr s)"
    using assms VStr by (intro reads_then_ret [OF reads_string]) auto
  then have "reads read_value ([2] @ string_bytes s) (VStr s)"
    unfolding read_value_def by (intro reads_then [OF reads_byte]) simp
  then show ?thesis using VStr by simp
qed

text \<open>The second self-delimiting encoding of values, for the tables' files.\<close>

definition decode_file_value :: "byte list \<Rightarrow> error + (Value \<times> nat)" where
  "decode_file_value bs = map_sum id (\<lambda>(v, rest). (v, length bs - length rest)) (read_value bs)"

interpretation file_values: codec file_value_bytes decode_file_value storable_value
proof
  show "decode_file_value (file_value_bytes x @ rest) = Inr (x, length (file_value_bytes x))"
    if "storable_value x" for x rest
    using reads_value [OF that] by (simp add: decode_file_value_def reads_def)
  show "file_value_bytes x \<noteq> []" for x by (cases x) simp_all
qed

section \<open>Columns and records\<close>

text \<open>A default value is kept only where there is one.\<close>

definition saved_column :: "ColumnDef \<Rightarrow> ColumnDef" where
  "saved_column c = (if has_default c then c else c\<lparr>default_value := VNull\<rparr>)"

definition storable_column :: "ColumnDef \<Rightarrow> bool" where
  "storable_column c \<longleftrightarrow> short_string (col_name c) \<and> storable_value (default_value c)"

lemma flag_bits:
  "odd (unat (column_flags c)) = not_null c" "odd (unat (column_flags c) div 2) = indexed c"
  "odd (unat (column_flags c) div 4) = has_default c"
  by (cases "not_null c"; cases "indexed c"; cases "has_default c"; simp add: column_flags_def)+

lemma reads_column:
  assumes "storable_column c"
  shows "reads read_column (column_bytes c) (saved_column c)"
proof -
  let ?d = "if has_default c then default_value c else VNull"
  let ?f = "\<lambda>d. read_ret \<lparr>col_name = col_name c, col_type = col_type c, not_null = not_null c,
                    indexed = indexed c, has_default = has_default c, default_value = d\<rparr>"
  have def: "reads (read_then (if has_default c then read_value else read_ret VNull) ?f)
      (if has_default c then file_value_bytes (default_value c) else []) (saved_column c)"
  proof (rule reads_then_ret [of _ _ ?d])
    show "reads (if has_default c then read_value else read_ret VNull)
        (if has_default c then file_value_bytes (default_value c) else []) ?d"
      using assms reads_value by (auto simp: storable_column_def)
    show "reads (?f ?d) [] (saved_column c)"
      by (cases c) (auto simp: saved_column_def reads_def read_ret_def)
  qed
  have "reads (read_then (read_nat 1) (\<lambda>ty. read_then (read_nat 1) (\<lambda>flags.
      if ty \<noteq> 1 \<and> ty \<noteq> 2 then read_fail Undefined_behaviour
      else read_then (if odd (flags div 4) then read_value else read_ret VNull) (\<lambda>d.
        read_ret \<lparr>col_name = col_name c, col_type = (if ty = 1 then TInt else TStr), not_null = odd flags,
                  indexed = odd (flags div 2), has_default = odd (flags div 4), default_value = d\<rparr>))))
      ([type_code (col_type c)] @ [column_flags c] @
        (if has_default c then file_value_bytes (default_value c) else [])) (saved_column c)"
    using def
    by (intro reads_then [OF reads_byte] reads_then [OF reads_byte])
      (cases "has_default c"; cases "col_type c"; simp add: flag_bits type_code_def)
  then show ?thesis
    unfolding read_column_def column_bytes_def
    using assms by (intro reads_then [OF reads_string]) (simp_all add: storable_column_def)
qed

lemma reads_record:
  assumes "i < 2 ^ 64" and "\<forall>v \<in> set r. storable_value v" and "length r = n"
  shows "reads (read_record n) (record_bytes i r) (i, r)"
proof -
  have "reads (read_then (read_list n read_value) (\<lambda>r. read_ret (i, r))) (concat (map file_value_bytes r)) (i, r)"
    using reads_list [of r read_value file_value_bytes] reads_value assms
    by (intro reads_then_ret [of _ _ r]) auto
  then show ?thesis
    unfolding read_record_def record_bytes_def
    using assms(1) by (intro reads_then [OF reads_nat]) simp_all
qed

section \<open>Tables\<close>

text \<open>What fits the widths of the file.\<close>

definition storable_table :: "table \<Rightarrow> bool" where
  "storable_table t \<longleftrightarrow> short_string (tb_name t) \<and> length (tb_schema t) < 2 ^ 32 \<and>
     (\<forall>c \<in> set (tb_schema t). storable_column c) \<and> tb_next t < 2 ^ 64 \<and> length (tb_order t) < 2 ^ 64 \<and>
     distinct (tb_order t) \<and> set (tb_order t) = dom (tb_records t) \<and>
     (\<forall>i r. tb_records t i = Some r \<longrightarrow> i < 2 ^ 64 \<and> length r = length (tb_schema t) \<and> (\<forall>v \<in> set r. storable_value v))"

text \<open>What is in the file: everything but the open indexes and the path.\<close>

definition saved_table :: "table \<Rightarrow> table" where
  "saved_table t = t\<lparr>tb_schema := map saved_column (tb_schema t), tb_indexes := [], tb_path := []\<rparr>"

lemma put_records:
  assumes "distinct (map fst rs)" and "\<forall>i \<in> fst ` set rs. m i = None"
  shows "fold put_record rs m = m ++ map_of rs"
  using assms
proof (induction rs arbitrary: m)
  case (Cons ir rs)
  obtain i r where ir: "ir = (i, r)" by (cases ir)
  have "\<forall>j \<in> fst ` set rs. (m(i \<mapsto> r)) j = None" using Cons.prems ir by auto
  then have "fold put_record rs (m(i \<mapsto> r)) = m(i \<mapsto> r) ++ map_of rs" using Cons.IH Cons.prems(1) by simp
  moreover have "i \<notin> dom (map_of rs)" using Cons.prems(1) ir by (simp add: dom_map_of_conv_image_fst)
  then have "m(i \<mapsto> r) ++ map_of rs = (m ++ map_of rs)(i \<mapsto> r)" by (rule map_add_upd_left)
  moreover have "put_record ir m = m(i \<mapsto> r)" using Cons.prems(2) ir by (simp add: put_record_def)
  ultimately show ?case using ir by (simp add: map_add_upd flip: fun_upd_def)
qed simp

lemma records_in_order:
  assumes "set ids = dom m"
  shows "map_of (map (\<lambda>i. (i, the (m i))) ids) = m"
proof
  fix i
  show "map_of (map (\<lambda>i. (i, the (m i))) ids) i = m i"
    using assms by (cases "i \<in> set ids") (auto simp: map_of_map_restrict restrict_map_def)
qed

text \<open>The file of a table in any of the three versions; version 2 has an index section after it.\<close>

definition versioned_bytes :: "nat \<Rightarrow> table \<Rightarrow> byte list" where
  "versioned_bytes v t =
     le_bytes 4 kMagic @ le_bytes 4 v @ string_bytes (tb_name t)
     @ le_bytes 4 (length (tb_schema t)) @ concat (map column_bytes (tb_schema t))
     @ le_bytes 8 (tb_next t) @ le_bytes 8 (length (tb_order t))
     @ concat (map (\<lambda>i. record_bytes i (the (tb_records t i))) (tb_order t))"

lemma reads_versioned:
  assumes ok: "storable_table t" and v: "v = 1 \<or> v = 2 \<or> v = 3"
  shows "reads (read_table path) (versioned_bytes v t) (v, saved_table t)"
proof -
  have order: "distinct (tb_order t)" "set (tb_order t) = dom (tb_records t)"
    using ok by (simp_all add: storable_table_def)
  let ?rs = "map (\<lambda>i. (i, the (tb_records t i))) (tb_order t)"
  have header: "reads (check_header path) (le_bytes 4 kMagic @ le_bytes 4 v) v"
    unfolding check_header_def
    by (rule reads_then [OF reads_nat])
      (use v in \<open>auto simp: kMagic_def kVersion_def intro: reads_then_ret [OF reads_nat]\<close>)
  have rs: "reads (read_list (length (tb_order t)) (read_record (length (map saved_column (tb_schema t)))))
      (concat (map (\<lambda>i. record_bytes i (the (tb_records t i))) (tb_order t))) ?rs"
  proof (rule reads_list_map)
    fix i assume "i \<in> set (tb_order t)"
    then obtain r where "tb_records t i = Some r" using order(2) by auto
    then show "reads (read_record (length (map saved_column (tb_schema t))))
        (record_bytes i (the (tb_records t i))) (i, the (tb_records t i))"
      using ok by (intro reads_record) (auto simp: storable_table_def)
  qed
  have "fold put_record ?rs (\<lambda>_. None) = tb_records t"
    using put_records [of ?rs "\<lambda>_. None"] order records_in_order [OF order(2)] by (simp add: comp_def)
  then have last: "reads (read_ret (v, \<lparr>tb_name = tb_name t, tb_schema = map saved_column (tb_schema t),
      tb_records = fold put_record ?rs (\<lambda>_. None), tb_order = map fst ?rs, tb_indexes = [], tb_path = [],
      tb_next = tb_next t\<rparr>)) [] (v, saved_table t)"
    by (cases t) (simp add: saved_table_def comp_def reads_ret)
  have cols: "reads (read_list (length (tb_schema t)) read_column) (concat (map column_bytes (tb_schema t)))
      (map saved_column (tb_schema t))"
    using ok by (intro reads_list_map reads_column) (simp add: storable_table_def)
  have bytes: "versioned_bytes v t = (le_bytes 4 kMagic @ le_bytes 4 v) @ (string_bytes (tb_name t) @
      (le_bytes 4 (length (tb_schema t)) @ (concat (map column_bytes (tb_schema t)) @
      (le_bytes 8 (tb_next t) @ (le_bytes 8 (length (tb_order t)) @
      (concat (map (\<lambda>i. record_bytes i (the (tb_records t i))) (tb_order t)) @ []))))))"
    by (simp add: versioned_bytes_def)
  show ?thesis
    unfolding read_table_def bytes
    by (intro reads_then [OF header] reads_then [OF reads_string] reads_then [OF reads_nat] reads_then [OF cols]
          reads_then [OF rs] last)
      (use ok in \<open>simp_all add: storable_table_def\<close>)
qed

corollary reads_table:
  "storable_table t \<Longrightarrow> reads (read_table path) (table_bytes t) (3, saved_table t)"
  using reads_versioned [of t 3 path] by (simp add: versioned_bytes_def table_bytes_def kVersion_def)

end
