(* ===== verification/IndexErase_Correct.thy ===== *)
theory IndexErase_Correct
  imports IndexErase IndexInsert_Full
begin

text \<open>
  Erasure. A key that is there is taken from its leaf; a leaf that becomes less than two thirds
  full takes an entry from a sibling that can spare one, is merged with a sibling, or, when the
  two do not fit one page, shares their entries with it and a new leaf between them. This is
  proved for indexes of one leaf and of a root above leaves, which are the ones insertion
  builds, with keys of one size. The contents afterwards are the contents before without the
  key.
\<close>

section \<open>Outcomes\<close>

text \<open>What an erasure leaves before the superblock is written.\<close>

definition erased :: "DataType \<Rightarrow> nat \<Rightarrow> nat \<Rightarrow> LeafEntry list \<Rightarrow> nat \<Rightarrow> disk_index \<Rightarrow> bool" where
  "erased ty n m es j s \<longleftrightarrow> (\<exists>t. holds_tree ty m t s \<and> flat t = es \<and> spares n s t j)"

section \<open>Room in the root\<close>

text \<open>
  Sharing the entries of two leaves makes a third one, so an erasure may ask for room in the root:
  there is room for one leaf more, or all leaves have their share of the entries, before and after.
\<close>

definition list_room :: "nat \<Rightarrow> (nat \<times> LeafEntry list \<times> nat) list \<Rightarrow> nat \<Rightarrow> bool" where
  "list_room n ls j \<longleftrightarrow> node_room n (length ls + j) \<or>
     0 < leaf_share n \<and> thick n ls \<and> node_room n ((length (concat (map leaf_es ls)) + j) div leaf_share n + 1)"

lemma root_room_node: "root_room n (BNode p ks (map mkleaf ls)) j \<longleftrightarrow> list_room n ls j"
  by (simp add: root_room_def list_room_def comp_def)

lemma list_room_node: "list_room n ls j \<Longrightarrow> node_room n (length ls)"
  unfolding list_room_def
proof (elim disjE conjE)
  assume h: "0 < leaf_share n" "thick n ls" "node_room n ((length (concat (map leaf_es ls)) + j) div leaf_share n + 1)"
  have "length ls * leaf_share n \<le> length (concat (map leaf_es ls)) + j" using thick_fan [OF h(2)] by simp
  then have "length ls \<le> (length (concat (map leaf_es ls)) + j) div leaf_share n"
    using h(1) by (simp add: less_eq_div_iff_mult_less_eq)
  then show ?thesis by (intro node_room_mono [OF h(3)]) simp
qed (rule node_room_mono, assumption, simp)

lemma list_room_step:
  assumes "list_room n ls (Suc j)" and "length ls' \<le> Suc (length ls)"
    and "length (concat (map leaf_es ls')) \<le> length (concat (map leaf_es ls))" and "thick n ls \<Longrightarrow> thick n ls'"
  shows "list_room n ls' j"
  using assms(1) unfolding list_room_def
proof (elim disjE conjE)
  assume "node_room n (length ls + Suc j)"
  then have "node_room n (length ls' + j)" by (rule node_room_mono) (use assms(2) in simp)
  then show "node_room n (length ls' + j) \<or> 0 < leaf_share n \<and> thick n ls' \<and>
      node_room n ((length (concat (map leaf_es ls')) + j) div leaf_share n + 1)" ..
next
  assume h: "0 < leaf_share n" "thick n ls" "node_room n ((length (concat (map leaf_es ls)) + Suc j) div leaf_share n + 1)"
  have "node_room n ((length (concat (map leaf_es ls')) + j) div leaf_share n + 1)"
    by (rule node_room_mono [OF h(3)]) (use assms(3) in \<open>simp add: div_le_mono\<close>)
  then show "node_room n (length ls' + j) \<or> 0 < leaf_share n \<and> thick n ls' \<and>
      node_room n ((length (concat (map leaf_es ls')) + j) div leaf_share n + 1)"
    using h(1) assms(4) [OF h(2)] by blast
qed

text \<open>A root that is a leaf needs none.\<close>

lemma list_room_leaf:
  assumes "list_room n ls (Suc j)" and "ls \<noteq> []" and "length es \<le> length (concat (map leaf_es ls))"
  shows "root_room n (BLeaf i es nx) j"
  using assms(1) unfolding list_room_def
proof (elim disjE conjE)
  assume "node_room n (length ls + Suc j)"
  then have "node_room n (1 + j)" by (rule node_room_mono) (use assms(2) in \<open>cases ls; simp\<close>)
  then show ?thesis by (simp add: root_room_def)
next
  assume h: "0 < leaf_share n" "thick n ls" "node_room n ((length (concat (map leaf_es ls)) + Suc j) div leaf_share n + 1)"
  have "node_room n ((length es + j) div leaf_share n + 1)"
    by (rule node_room_mono [OF h(3)]) (use assms(3) in \<open>simp add: div_le_mono\<close>)
  then show ?thesis using h(1) by (simp add: root_room_def)
qed

lemma root_room_less:
  assumes "root_room n (BLeaf i es nx) j" and "length es' \<le> length es" and "k \<le> j"
  shows "root_room n (BLeaf i' es' nx') k"
proof -
  have "(length es' + k) div leaf_share n + 1 \<le> (length es + j) div leaf_share n + 1"
    using assms(2,3) by (simp add: div_le_mono)
  then show ?thesis
    using assms(1,3) node_room_mono [of n "1 + j" "1 + k"] unfolding root_room_def
    by (auto intro: node_room_mono)
qed

section \<open>Steps of the file\<close>

text \<open>
  While an operation runs the file has a view \<open>v\<close> and \<open>c\<close> pages, and the root and the first leaf
  are those of the start.
\<close>

definition stands :: "disk_index \<Rightarrow> nat \<Rightarrow> (nat \<Rightarrow> ParsedPage option) \<Rightarrow> nat \<Rightarrow> disk_index \<Rightarrow> bool" where
  "stands s m v c s1 \<longleftrightarrow> idx_inv s1 \<and> node_view s1 = v \<and> idx_count s1 = c \<and>
     idx_frame s1 = (root_page s, first_leaf_page s, m)"

lemma standsD:
  assumes "stands s m v c s1"
  shows "idx_inv s1" "node_view s1 = v" "idx_count s1 = c" "root_page s1 = root_page s"
    "first_leaf_page s1 = first_leaf_page s" "idx_frame s1 = (root_page s, first_leaf_page s, m)"
  using assms by (simp_all add: stands_def idx_frame_def)

lemma stands_same: "stands s m v c s1 \<Longrightarrow> same_index s1 s2 \<Longrightarrow> stands s m v c s2"
  by (simp add: stands_def same_index_def)

lemma wp_get_node:
  assumes "stands s m v c s1" and "v i = Some p" and "\<And>s2. stands s m v c s2 \<Longrightarrow> Q p s2"
  shows "wp E (idx_read_page i) Q s1"
  using wp_read_node [of s1 i p Q E] assms by (simp add: stands_def)

lemma wp_new_node:
  assumes "stands s m v c s1" and "0 < c" and "c + 1 < 2 ^ 32"
    and "\<And>s2. stands s m v (c + 1) s2 \<Longrightarrow> Q c s2"
  shows "wp E allocate_node_page Q s1"
  using nodes.wp_alloc [of s1 Q E] assms by (simp add: stands_def)

text \<open>Sorted entries with keys of one size, and runs of them that fit a page.\<close>

definition keys_of :: "DataType \<Rightarrow> nat \<Rightarrow> LeafEntry list \<Rightarrow> bool" where
  "keys_of ty n es \<longleftrightarrow> (\<forall>e \<in> set es. good_entry ty e \<and> key_len e = n) \<and> sorted_wrt (<) (map key_val es)"

lemma keys_of_part: "keys_of ty n (P @ es @ S) \<Longrightarrow> keys_of ty n es"
  using sorted_part [of key_val P es S] by (auto simp: keys_of_def)

lemma run_ok:
  assumes "keys_of ty n all" and "part_of n es all"
  shows "leaf_ok ty es" "\<forall>e \<in> set es. key_len e = n" "sorted_wrt (<) (map key_val es)"
proof -
  have "keys_of ty n es" using assms keys_of_part by (auto simp: part_of_def)
  then show "\<forall>e \<in> set es. key_len e = n" "sorted_wrt (<) (map key_val es)"
    and "leaf_ok ty es"
    using assms(2) uniform_fits [of es n] by (auto simp: keys_of_def leaf_ok_def part_of_def)
qed

lemma wp_put_leaf:
  assumes st: "stands s m v c s1" and keys: "keys_of ty n all" and part: "part_of n (leaf_entries pg) all"
    and pg: "node_type pg = Leaf" "page_id pg < c" "next_leaf pg < 2 ^ 32" "children pg = []"
    and Q: "\<And>s2. stands s m (v(page_id pg \<mapsto> leaf_page (page_id pg) (leaf_entries pg) (next_leaf pg))) c s2 \<Longrightarrow>
              Q () s2"
  shows "wp E (idx_write_page pg) Q s1"
proof (rule wp_write_leaf [where ty = ty])
  show "\<forall>e \<in> set (leaf_entries pg). good_entry ty e" "\<not> leaf_overflow (leaf_entries pg)"
    using run_ok(1) [OF keys part] by (simp_all add: leaf_ok_def)
  show "sorted_wrt (<) (map key_val (leaf_entries pg))" by (rule run_ok(3) [OF keys part])
qed (use st pg Q in \<open>simp_all add: stands_def wrote_def\<close>)

section \<open>A root above leaves\<close>

definition two_level :: "DataType \<Rightarrow> nat \<Rightarrow> disk_index \<Rightarrow> nat \<Rightarrow> LeafEntry list \<Rightarrow>
    (nat \<times> LeafEntry list \<times> nat) list \<Rightarrow> bool" where
  "two_level ty n s p ks ls \<longleftrightarrow> index_inv ty s (BNode p ks (map mkleaf ls)) \<and>
     (\<forall>e \<in> set (concat (map leaf_es ls)). key_len e = n)"

lemma two_levelD:
  assumes "two_level ty n s p ks ls"
  defines "t \<equiv> BNode p ks (map mkleaf ls)"
  shows "index_inv ty s t" "wf_tree ty t" "leaf_parent ty s t [] p ks ls" "leaves_in ty n s ls"
    "distinct (map fst ls)" "p \<notin> fst ` set ls" "insert p (fst ` set ls) \<subseteq> {..<idx_count s}"
    "0 \<notin> insert p (fst ` set ls)" "chained ls 0" "keys_of ty n (concat (map leaf_es ls))"
    "root_page s = p" "first_leaf_page s = first_id ls 0" "ix_size s = length (concat (map leaf_es ls))"
    "node_view s p = Some (node_page p ks (map fst ls))" "set (ids t) = insert p (fst ` set ls)"
proof -
  show inv: "index_inv ty s t" using assms by (simp add: two_level_def)
  note I = index_invD [OF inv]
  show wf: "wf_tree ty t" using I(4) by (simp add: tree_ok_def t_def)
  show "leaf_parent ty s t [] p ks ls" using inv wf by (simp add: leaf_parent_def t_def)
  show ids: "set (ids t) = insert p (fst ` set ls)" by (simp add: t_def)
  show "distinct (map fst ls)" "p \<notin> fst ` set ls" "0 \<notin> insert p (fst ` set ls)" "chained ls 0"
    using I(4) by (auto simp: tree_ok_def t_def)
  show "insert p (fst ` set ls) \<subseteq> {..<idx_count s}"
    using ids_count(1) [OF I(1,3)] I(4) ids by (simp add: tree_ok_def)
  show "keys_of ty n (concat (map leaf_es ls))"
    using I(4) wf_tree_good [OF wf] assms(1) by (simp add: keys_of_def two_level_def tree_ok_def t_def vals_def)
  show "root_page s = p" "first_leaf_page s = first_id ls 0" "ix_size s = length (concat (map leaf_es ls))"
    using I(5-7) by (simp_all add: t_def)
  show "node_view s p = Some (node_page p ks (map fst ls))" using I(3) by (simp add: t_def)
  have rep: "rep (node_view s) (mkleaf l)" and ok: "wf_tree ty (mkleaf l)" if "l \<in> set ls" for l
    using that I(3) wf by (auto simp: t_def)
  show "leaves_in ty n s ls"
    unfolding leaves_in_def
  proof (intro ballI)
    fix l assume l: "l \<in> set ls"
    then have "\<forall>e \<in> set (leaf_es l). key_len e = n" using assms(1) by (auto simp: two_level_def)
    then show "case l of (i, es, nx) \<Rightarrow> leaf_ok ty es \<and> (\<forall>e \<in> set es. key_len e = n) \<and>
        node_view s i = Some (leaf_page i es nx)"
      using rep [OF l] ok [OF l] by (cases l) auto
  qed
qed

text \<open>Links between the leaves are page numbers of the file.\<close>

lemma next_small:
  assumes two: "two_level ty n s p ks ls" and at: "(i, es, nx) \<in> set ls"
  shows "nx < 2 ^ 32" "i < idx_count s" "i \<noteq> p" "node_view s i = Some (leaf_page i es nx)"
    "leaf_ok ty es" "\<forall>e \<in> set es. key_len e = n"
proof -
  note D = two_levelD [OF two]
  show "i < idx_count s" "i \<noteq> p" using D(6,7) at by force+
  show "node_view s i = Some (leaf_page i es nx)" "leaf_ok ty es" "\<forall>e \<in> set es. key_len e = n"
    using leaves_inD [OF D(4) at] by simp_all
  have count: "idx_count s < 2 ^ 32" using nodes.count_bound [OF index_invD(1) [OF D(1)]] .
  obtain L R where ls: "ls = L @ (i, es, nx) # R" using at by (metis split_list)
  have "nx = first_id R 0" using D(9) unfolding ls by (simp add: chained_append)
  moreover have "first_id R 0 \<in> insert 0 (fst ` set R)" by (cases "(R, 0::nat)" rule: first_id.cases) auto
  ultimately show "nx < 2 ^ 32" using D(7) count unfolding ls by auto
qed

text \<open>
  The root after its leaves were rewritten as \<open>ls'\<close>: its separators are rebuilt, and writing it
  completes the erasure.
\<close>

definition relinked :: "disk_index \<Rightarrow> (nat \<times> LeafEntry list \<times> nat) list \<Rightarrow>
    (nat \<times> LeafEntry list \<times> nat) list \<Rightarrow> bool" where
  "relinked s ls ls' \<longleftrightarrow> 2 \<le> length ls' \<and> distinct (map fst ls') \<and>
     (\<forall>i \<in> fst ` set ls'. i \<in> fst ` set ls \<or> idx_count s \<le> i) \<and>
     first_id ls' 0 = first_id ls 0 \<and> chained ls' 0"

lemma wp_root_rebuilt:
  assumes two: "two_level ty n s p ks ls" and rel: "relinked s ls ls'" and new: "leaves_in ty n s1 ls'"
    and keys: "keys_of ty n (concat (map leaf_es ls'))"
    and st: "stands s m v c s1" and c: "idx_count s \<le> c" "c + j < 2 ^ 32"
    and room: "list_room n ls' j"
    and pg: "node_type pg = Inner" "page_id pg = p" "next_leaf pg = 0" "children pg = map fst ls'"
  shows "wp E (rebuild_internal_keys pg) (\<lambda>parent s2. page_id parent = p \<and> node_type parent = Inner \<and>
           children parent = map fst ls' \<and> root_page s2 = p \<and>
           wp E (idx_write_page parent) (\<lambda>_. erased ty n m (concat (map leaf_es ls')) j) s2) s1"
proof -
  note D = two_levelD [OF two] and S = standsD [OF st]
  let ?t = "BNode p ks (map mkleaf ls)" and ?t' = "BNode p (map strip (min_keys ls')) (map mkleaf ls')"
  have ne: "ls' \<noteq> []" and two': "2 \<le> length ls'" using rel by (auto simp: relinked_def)
  have old: "i < idx_count s" if "i \<in> set (ids ?t)" for i using that D(7,15) by auto
  have "relisted ?t [] ls ls'"
    using rel ne old index_invD(2) [OF D(1)] by (fastforce simp: relisted_def relinked_def)
  moreover have "node_room n (length ls')" by (rule list_room_node [OF room])
  moreover have "sorted_wrt (<) (map key_val (concat (map leaf_es ls')))" using keys by (simp add: keys_of_def)
  ultimately have "wp E (rebuild_internal_keys pg) (\<lambda>parent s2. page_id parent = p \<and> node_type parent = Inner \<and>
      children parent = map fst ls' \<and> idx_frame s2 = idx_frame s1 \<and>
      \<not> inner_overflow (inner_keys parent) (children parent) \<and>
      wp E (idx_write_page parent) (\<lambda>_ s'. idx_count s' = idx_count s1 \<and>
        holds_tree ty m (plug [] ?t') s') s2) s1"
    by (intro wp_parent_tree [OF D(3) _ new]) (use S c pg in \<open>simp_all add: hole_ok_def\<close>)
  moreover have "erased ty n m (concat (map leaf_es ls')) j s'"
    if "idx_count s' = idx_count s1" "holds_tree ty m (plug [] ?t') s'" for s'
  proof -
    have mins: "\<forall>k \<in> set (min_keys ls'). key_len k = n"
    proof
      fix k assume "k \<in> set (min_keys ls')"
      then obtain i es nx where l: "(i, es, nx) \<in> set ls'" "k = hd es"
        using ne by (auto simp: min_keys_def dest!: list.set_sel(2))
      then have "es \<noteq> []" "\<forall>e \<in> set es. key_len e = n" using leaves_inD [OF new l(1)] by (auto simp: leaf_ok_def)
      then show "key_len k = n" using l(2) by simp
    qed
    have "spares n s' ?t' j"
      using mins keys two' room that(1) S(3) c(2) by (simp add: spares_def keys_of_def root_room_node del: map_map)
    then show ?thesis using that(2) by (auto simp: erased_def)
  qed
  ultimately show ?thesis
    by (elim wp_mono) (use S(6) D(11) in \<open>auto simp: idx_frame_def elim!: wp_mono\<close>)
qed

text \<open>Nothing above the root needs to know.\<close>

lemma propagate_root: "propagate_subtree_min_change i [p] = ret ()"
  by (simp add: propagate_subtree_min_change_def)

section \<open>Two neighbours\<close>

definition pair_at :: "(nat \<times> LeafEntry list \<times> nat) list \<Rightarrow> (nat \<times> LeafEntry list \<times> nat) list \<Rightarrow> nat \<Rightarrow>
    LeafEntry list \<Rightarrow> nat \<Rightarrow> LeafEntry list \<Rightarrow> nat \<Rightarrow> (nat \<times> LeafEntry list \<times> nat) list \<Rightarrow> bool" where
  "pair_at ls U a ea b eb nb W \<longleftrightarrow> ls = U @ (a, ea, b) # (b, eb, nb) # W"

lemma pair_facts:
  assumes two: "two_level ty n s p ks ls" and at: "pair_at ls U a ea b eb nb W"
  shows "a \<noteq> b" "a \<notin> fst ` set U \<union> fst ` set W" "b \<notin> fst ` set U \<union> fst ` set W" "a < idx_count s"
    "b < idx_count s" "b < 2 ^ 32" "nb < 2 ^ 32" "first_leaf_page s \<noteq> b" "a \<noteq> p" "b \<noteq> p"
    "leaves_in ty n s U" "leaves_in ty n s W"
proof -
  note D = two_levelD [OF two]
  have ls: "ls = U @ (a, ea, b) # (b, eb, nb) # W" using at by (simp add: pair_at_def)
  show "a \<noteq> b" "a \<notin> fst ` set U \<union> fst ` set W" "b \<notin> fst ` set U \<union> fst ` set W"
    using D(5) unfolding ls by auto
  show "a < idx_count s" "b < idx_count s" "b < 2 ^ 32" "nb < 2 ^ 32" "a \<noteq> p" "b \<noteq> p"
    using next_small [OF two, of a ea b] next_small [OF two, of b eb nb] unfolding ls by auto
  have "first_id ls 0 \<noteq> b" using D(5) unfolding ls by (cases U) auto
  then show "first_leaf_page s \<noteq> b" using D(12) by simp
  show "leaves_in ty n s U" "leaves_in ty n s W"
    using D(4) unfolding ls by (simp_all add: leaves_in_append leaves_in_Cons)
qed

lemma leaves_in_untouched:
  assumes "leaves_in ty n s U" and "stands s m v c s1" and "\<And>i. i \<notin> N \<Longrightarrow> v i = node_view s i"
    and "\<forall>i \<in> N. i \<notin> fst ` set U"
  shows "leaves_in ty n s1 U"
  using assms(3,4) by (intro leaves_in_cong [OF assms(1)]) (metis standsD(2) [OF assms(2)])

text \<open>After the two leaves were rewritten, the separators are refreshed.\<close>

lemma wp_pair_refreshed:
  assumes two: "two_level ty n s p ks ls" and at: "pair_at ls U a ea b eb nb W"
    and all: "all = concat (map leaf_es U) @ fa @ fb @ concat (map leaf_es W)" and keys: "keys_of ty n all"
    and fa: "part_of n fa all" and fb: "part_of n fb all"
    and st: "stands s m v c s1" and v: "v = (node_view s)(a \<mapsto> leaf_page a fa b, b \<mapsto> leaf_page b fb nb)"
    and c: "c = idx_count s" "c + j < 2 ^ 32" and room: "list_room n (U @ (a, fa, b) # (b, fb, nb) # W) j"
  shows "wp E (refresh_parent (node_page p ks (map fst ls)) [p]) (\<lambda>_. erased ty n m all j) s1"
proof -
  note D = two_levelD [OF two] and F = pair_facts [OF two at]
  have ls: "ls = U @ (a, ea, b) # (b, eb, nb) # W" using at by (simp add: pair_at_def)
  let ?ls = "U @ (a, fa, b) # (b, fb, nb) # W"
  have sum: "concat (map leaf_es ?ls) = all" by (simp add: all)
  have "leaves_in ty n s1 U" "leaves_in ty n s1 W"
    by (rule leaves_in_untouched [OF F(11) st, of "{a, b}"] leaves_in_untouched [OF F(12) st, of "{a, b}"];
        use F(2,3) v in simp)+
  then have new: "leaves_in ty n s1 ?ls"
    using run_ok [OF keys fa] run_ok [OF keys fb] F(1)
    by (simp add: leaves_in_append leaves_in_Cons standsD(2) [OF st] v)
  have rel: "relinked s ls ?ls"
    using D(5,9) unfolding relinked_def ls by (auto simp: chained_append)
  have "wp E (rebuild_internal_keys (node_page p ks (map fst ls))) (\<lambda>parent s2. page_id parent = p \<and>
      node_type parent = Inner \<and> children parent = map fst ?ls \<and> root_page s2 = p \<and>
      wp E (idx_write_page parent) (\<lambda>_. erased ty n m (concat (map leaf_es ?ls)) j) s2) s1"
    by (rule wp_root_rebuilt [OF two rel new _ st]) (use keys sum c room ls in \<open>simp_all\<close>)
  then show ?thesis
    unfolding refresh_parent_def wp_bnd by (rule wp_mono) (use sum in \<open>auto simp: propagate_root\<close>)
qed

section \<open>Borrowing from a sibling\<close>

lemma key_small: "keys_of ty n es \<Longrightarrow> es \<noteq> [] \<Longrightarrow> 10 + n \<le> 522"
  by (cases es) (auto simp: keys_of_def good_entry_def kMaxIndexKeyBytes_def)

lemma underflow_uniform:
  assumes "\<forall>e \<in> set es. key_len e = n"
  shows "leaf_underflow es False \<longleftrightarrow> 12 + length es * (10 + n) < 2734"
  by (simp add: leaf_underflow_def leaf_payload_uniform [OF assms] kMinLeafFillBytes_def kPageSize_def)

text \<open>A leaf that is too empty takes one more entry; a leaf that is not has one to spare.\<close>

lemma spare_sizes:
  assumes w: "w \<le> 522"
  shows "12 + a * w < 2734 \<Longrightarrow> 12 + Suc a * w \<le> kPageSize"
    and "\<not> 12 + b * w < 2734 \<Longrightarrow> 2 \<le> b"
proof -
  show "12 + a * w < 2734 \<Longrightarrow> 12 + Suc a * w \<le> kPageSize" using w by (simp add: kPageSize_def)
  show "\<not> 12 + b * w < 2734 \<Longrightarrow> 2 \<le> b"
  proof (rule ccontr)
    assume big: "\<not> 12 + b * w < 2734" and "\<not> 2 \<le> b"
    then have "b * w \<le> 1 * 522" using w by (intro mult_le_mono) simp_all
    then show False using big by simp
  qed
qed

text \<open>The leaf that lends has more than its share.\<close>

lemma lender_share:
  assumes "10 + n \<le> 522" and "\<not> 12 + b * (10 + n) < 2734"
  shows "leaf_share n < b"
proof (rule ccontr)
  assume "\<not> leaf_share n < b"
  then have "3 * b \<le> (kPageSize - 12) div (10 + n) + 1" unfolding leaf_share_def by simp
  then have "3 * b * (10 + n) \<le> ((kPageSize - 12) div (10 + n) + 1) * (10 + n)" by (intro mult_le_mono1) simp
  also have "\<dots> \<le> kPageSize - 12 + (10 + n)" by (simp add: distrib_right)
  finally show False using assms by (simp add: kPageSize_def)
qed

definition one_less :: "LeafEntry list \<Rightarrow> LeafEntry list \<Rightarrow> LeafEntry list \<Rightarrow> LeafEntry list \<Rightarrow> bool" where
  "one_less ea ga eb gb \<longleftrightarrow> length ga \<le> length ea \<and> length gb \<le> length eb \<and>
     length ea + length eb \<le> Suc (length ga + length gb)"

lemma part_between:
  "all = P @ es @ S \<Longrightarrow> es \<noteq> [] \<Longrightarrow> 12 + length es * (10 + n) \<le> kPageSize \<Longrightarrow> part_of n es all"
  by (auto simp: part_of_def)

text \<open>
  One of the two neighbours has lost its entry: \<open>ga\<close> and \<open>gb\<close> are what they hold now, \<open>all\<close> what
  the leaves hold together, and the pages \<open>pa\<close> and \<open>pb\<close> what the operation has in hand.
\<close>

definition neighbours :: "DataType \<Rightarrow> nat \<Rightarrow> disk_index \<Rightarrow> nat \<Rightarrow> LeafEntry list \<Rightarrow>
    (nat \<times> LeafEntry list \<times> nat) list \<Rightarrow> (nat \<times> LeafEntry list \<times> nat) list \<Rightarrow> nat \<Rightarrow> nat \<Rightarrow> nat \<Rightarrow>
    (nat \<times> LeafEntry list \<times> nat) list \<Rightarrow> LeafEntry list \<Rightarrow> LeafEntry list \<Rightarrow> LeafEntry list \<Rightarrow>
    ParsedPage \<Rightarrow> ParsedPage \<Rightarrow> nat \<Rightarrow> bool" where
  "neighbours ty n s p ks ls U a b nb W ga gb all pa pb j \<longleftrightarrow> two_level ty n s p ks ls \<and>
     (\<exists>ea eb. pair_at ls U a ea b eb nb W \<and> one_less ea ga eb gb) \<and> all = concat (map leaf_es U) @ ga @ gb @ concat (map leaf_es W) \<and>
     keys_of ty n all \<and> node_type pa = Leaf \<and> page_id pa = a \<and> leaf_entries pa = ga \<and> next_leaf pa = b \<and>
     children pa = [] \<and> node_type pb = Leaf \<and> page_id pb = b \<and> leaf_entries pb = gb \<and> next_leaf pb = nb \<and>
     children pb = [] \<and> list_room n ls (Suc j) \<and> idx_count s + Suc j < 2 ^ 32 \<and>
     12 + length ga * (10 + n) \<le> kPageSize \<and> 12 + length gb * (10 + n) \<le> kPageSize"

lemma neighboursD:
  assumes "neighbours ty n s p ks ls U a b nb W ga gb all pa pb j"
  shows "two_level ty n s p ks ls" "all = concat (map leaf_es U) @ ga @ gb @ concat (map leaf_es W)"
    "keys_of ty n all" "node_type pa = Leaf" "page_id pa = a" "leaf_entries pa = ga" "next_leaf pa = b"
    "children pa = []" "node_type pb = Leaf" "page_id pb = b" "leaf_entries pb = gb" "next_leaf pb = nb"
    "children pb = []" "list_room n ls (Suc j)" "idx_count s + Suc j < 2 ^ 32"
    "\<exists>ea eb. pair_at ls U a ea b eb nb W \<and> one_less ea ga eb gb" "idx_count s + j < 2 ^ 32"
    "12 + length ga * (10 + n) \<le> kPageSize"
    "12 + length gb * (10 + n) \<le> kPageSize" "\<forall>e \<in> set ga. key_len e = n" "\<forall>e \<in> set gb. key_len e = n"
  using assms unfolding neighbours_def by (auto simp: keys_of_def)

text \<open>Room for the pair as it will be, with the entries shared in another way.\<close>

lemma pair_room:
  assumes nb: "neighbours ty n s p ks ls U a b nb W ga gb all pa pb j" and same: "length fa + length fb = length ga + length gb"
    and share: "\<And>ea eb. one_less ea ga eb gb \<Longrightarrow> leaf_share n \<le> length ea \<Longrightarrow> leaf_share n \<le> length eb \<Longrightarrow>
      leaf_share n \<le> length fa \<and> leaf_share n \<le> length fb"
  shows "list_room n (U @ (a, fa, b) # (b, fb, nb) # W) j"
proof -
  note D = neighboursD [OF nb]
  obtain ea eb where at: "pair_at ls U a ea b eb nb W" "one_less ea ga eb gb" using D(16) by blast
  then have ls: "ls = U @ (a, ea, b) # (b, eb, nb) # W" by (simp add: pair_at_def)
  show ?thesis
    by (rule list_room_step [OF D(14)])
      (use at(2) same share [of ea eb] in \<open>auto simp: ls thick_def one_less_def\<close>)
qed

text \<open>Writing the two leaves, in either order, and refreshing the separators.\<close>

lemma wp_pair_written:
  assumes nb: "neighbours ty n s p ks ls U a b nb W ga gb all pa pb j" and st: "stands s m (node_view s) (idx_count s) s1"
    and same: "fa @ fb = ga @ gb" and fa: "part_of n fa all" and fb: "part_of n fb all"
    and share: "\<And>ea eb. one_less ea ga eb gb \<Longrightarrow> leaf_share n \<le> length ea \<Longrightarrow> leaf_share n \<le> length eb \<Longrightarrow>
      leaf_share n \<le> length fa \<and> leaf_share n \<le> length fb"
  shows "wp E (andthen (idx_write_page (pa\<lparr>leaf_entries := fa\<rparr>))
          (andthen (idx_write_page (pb\<lparr>leaf_entries := fb\<rparr>))
            (refresh_parent (node_page p ks (map fst ls)) [p]))) (\<lambda>_. erased ty n m all j) s1"
    and "wp E (andthen (idx_write_page (pb\<lparr>leaf_entries := fb\<rparr>))
          (andthen (idx_write_page (pa\<lparr>leaf_entries := fa\<rparr>))
            (refresh_parent (node_page p ks (map fst ls)) [p]))) (\<lambda>_. erased ty n m all j) s1"
proof -
  note D = neighboursD [OF nb]
  obtain ea eb where at: "pair_at ls U a ea b eb nb W" and less: "one_less ea ga eb gb" using D(16) by blast
  note F = pair_facts [OF D(1) at]
  have all: "all = concat (map leaf_es U) @ fa @ fb @ concat (map leaf_es W)" using D(2) same by simp
  let ?P = "refresh_parent (node_page p ks (map fst ls)) [p]" and ?Q = "\<lambda>_. erased ty n m all j"
  let ?v = "(node_view s)(a \<mapsto> leaf_page a fa b, b \<mapsto> leaf_page b fb nb)"
  have "length fa + length fb = length ga + length gb" using arg_cong [OF same, of length] by simp
  note room = pair_room [OF nb this share]
  have last: "wp E ?P ?Q s3" if "stands s m v (idx_count s) s3" "v = ?v" for v s3
    by (rule wp_pair_refreshed [OF D(1) at all D(3) fa fb that refl D(17) room])
  have ab: "v(a \<mapsto> x, b \<mapsto> y) = v(b \<mapsto> y, a \<mapsto> x)" for v :: "nat \<Rightarrow> ParsedPage option" and x y
    using F(1) by (rule fun_upd_twist)
  have write_a: "wp E (idx_write_page (pa\<lparr>leaf_entries := fa\<rparr>)) (\<lambda>_. R) s2"
    if "stands s m v (idx_count s) s2" and "\<And>s3. stands s m (v(a \<mapsto> leaf_page a fa b)) (idx_count s) s3 \<Longrightarrow> R s3" for R v s2
    by (rule wp_put_leaf [OF that(1) D(3)]) (use D F fa that(2) in simp_all)
  have write_b: "wp E (idx_write_page (pb\<lparr>leaf_entries := fb\<rparr>)) (\<lambda>_. R) s2"
    if "stands s m v (idx_count s) s2" and "\<And>s3. stands s m (v(b \<mapsto> leaf_page b fb nb)) (idx_count s) s3 \<Longrightarrow> R s3" for R v s2
    by (rule wp_put_leaf [OF that(1) D(3)]) (use D F fb that(2) in simp_all)
  show "wp E (andthen (idx_write_page (pa\<lparr>leaf_entries := fa\<rparr>))
          (andthen (idx_write_page (pb\<lparr>leaf_entries := fb\<rparr>)) ?P)) ?Q s1"
    unfolding wp_andthen by (intro write_a [OF st]) (erule write_b, erule last, rule refl)
  show "wp E (andthen (idx_write_page (pb\<lparr>leaf_entries := fb\<rparr>))
          (andthen (idx_write_page (pa\<lparr>leaf_entries := fa\<rparr>)) ?P)) ?Q s1"
    unfolding wp_andthen by (intro write_b [OF st]) (erule write_a, erule last, rule ab [symmetric])
qed

lemma pair_parts:
  assumes nb: "neighbours ty n s p ks ls U a b nb W ga gb all pa pb j" and same: "fa @ fb = ga @ gb"
    and ne: "fa \<noteq> []" "fb \<noteq> []" and fits: "12 + length fa * (10 + n) \<le> kPageSize" "12 + length fb * (10 + n) \<le> kPageSize"
  shows "part_of n fa all" "part_of n fb all"
proof -
  note D = neighboursD [OF nb]
  have all: "all = concat (map leaf_es U) @ fa @ fb @ concat (map leaf_es W)" using D(2) same by simp
  show "part_of n fa all" by (rule part_between [OF all ne(1) fits(1)])
  have "all = (concat (map leaf_es U) @ fa) @ fb @ concat (map leaf_es W)" using all by simp
  then show "part_of n fb all" by (rule part_between [OF _ ne(2) fits(2)])
qed

text \<open>The last entry of the left leaf goes to the right one, or the first of the right to the left.\<close>

lemma wp_borrow:
  assumes nb: "neighbours ty n s p ks ls U a b nb W ga gb all pa pb j" and st: "stands s m (node_view s) (idx_count s) s1"
  shows "\<not> leaf_underflow ga False \<Longrightarrow> leaf_underflow gb False \<Longrightarrow>
         wp E (andthen (idx_write_page (pa\<lparr>leaf_entries := butlast ga\<rparr>))
          (andthen (idx_write_page (pb\<lparr>leaf_entries := last ga # gb\<rparr>))
            (refresh_parent (node_page p ks (map fst ls)) [p]))) (\<lambda>_. erased ty n m all j) s1"
    and "\<not> leaf_underflow gb False \<Longrightarrow> leaf_underflow ga False \<Longrightarrow>
         wp E (andthen (idx_write_page (pb\<lparr>leaf_entries := tl gb\<rparr>))
          (andthen (idx_write_page (pa\<lparr>leaf_entries := ga @ [hd gb]\<rparr>))
            (refresh_parent (node_page p ks (map fst ls)) [p]))) (\<lambda>_. erased ty n m all j) s1"
proof -
  note D = neighboursD [OF nb]
  have w: "10 + n \<le> 522" if "ga \<noteq> [] \<or> gb \<noteq> []" using key_small [OF D(3)] D(2) that by auto
  have shorter: "12 + (length es - 1) * (10 + n) \<le> kPageSize" if "12 + length es * (10 + n) \<le> kPageSize" for es :: "LeafEntry list"
    using mult_le_mono1 [of "length es - 1" "length es" "10 + n"] that by linarith
  show "wp E (andthen (idx_write_page (pa\<lparr>leaf_entries := butlast ga\<rparr>))
          (andthen (idx_write_page (pb\<lparr>leaf_entries := last ga # gb\<rparr>))
            (refresh_parent (node_page p ks (map fst ls)) [p]))) (\<lambda>_. erased ty n m all j) s1"
    if h: "\<not> leaf_underflow ga False" "leaf_underflow gb False"
  proof -
    have ne: "ga \<noteq> []" using h(1) by (auto simp: leaf_underflow_def)
    note Z = spare_sizes [OF w [OF disjI1 [OF ne]]]
    have ga: "2 \<le> length ga" using Z(2) h(1) underflow_uniform [OF D(20)] by simp
    then have "butlast ga \<noteq> []" by (cases ga; cases "tl ga") auto
    moreover have same: "butlast ga @ (last ga # gb) = ga @ gb" using ne by simp
    moreover have "12 + length (last ga # gb) * (10 + n) \<le> kPageSize"
      using Z(1) h(2) underflow_uniform [OF D(21)] by simp
    moreover have "12 + length (butlast ga) * (10 + n) \<le> kPageSize" using shorter [OF D(18)] by simp
    ultimately have parts: "part_of n (butlast ga) all" "part_of n (last ga # gb) all"
      by (intro pair_parts [OF nb same]; simp)+
    have "leaf_share n < length ga"
      using lender_share [OF w [OF disjI1 [OF ne]]] h(1) underflow_uniform [OF D(20)] by simp
    then show ?thesis by (intro wp_pair_written(1) [OF nb st same parts]) (auto simp: one_less_def)
  qed
  show "wp E (andthen (idx_write_page (pb\<lparr>leaf_entries := tl gb\<rparr>))
          (andthen (idx_write_page (pa\<lparr>leaf_entries := ga @ [hd gb]\<rparr>))
            (refresh_parent (node_page p ks (map fst ls)) [p]))) (\<lambda>_. erased ty n m all j) s1"
    if h: "\<not> leaf_underflow gb False" "leaf_underflow ga False"
  proof -
    have ne: "gb \<noteq> []" using h(1) by (auto simp: leaf_underflow_def)
    note Z = spare_sizes [OF w [OF disjI2 [OF ne]]]
    have gb: "2 \<le> length gb" using Z(2) h(1) underflow_uniform [OF D(21)] by simp
    then have "tl gb \<noteq> []" by (cases gb; cases "tl gb") auto
    moreover have same: "(ga @ [hd gb]) @ tl gb = ga @ gb" using ne by simp
    moreover have "12 + length (ga @ [hd gb]) * (10 + n) \<le> kPageSize"
      using Z(1) h(2) underflow_uniform [OF D(20)] by simp
    moreover have "12 + length (tl gb) * (10 + n) \<le> kPageSize" using shorter [OF D(19)] by simp
    ultimately have parts: "part_of n (ga @ [hd gb]) all" "part_of n (tl gb) all"
      by (intro pair_parts [OF nb same]; simp)+
    have "leaf_share n < length gb"
      using lender_share [OF w [OF disjI2 [OF ne]]] h(1) underflow_uniform [OF D(21)] by simp
    then show ?thesis by (intro wp_pair_written(2) [OF nb st same parts]) (auto simp: one_less_def)
  qed
qed

section \<open>Sharing with a new leaf\<close>

lemma three_share_sizes:
  assumes w: "w \<le> 522" and full: "kPageSize < 12 + (a + b) * w" and a: "12 + a * w \<le> kPageSize"
    and b: "12 + b * w \<le> kPageSize"
  shows "3 \<le> a + b" and "q \<le> (a + b + 2) div 3 \<Longrightarrow> 12 + q * w \<le> kPageSize"
proof -
  show "3 \<le> a + b"
  proof (rule ccontr)
    assume "\<not> 3 \<le> a + b"
    then have "(a + b) * w \<le> 2 * 522" using w by (intro mult_le_mono) simp_all
    then show False using full by (simp add: kPageSize_def)
  qed
  assume "q \<le> (a + b + 2) div 3"
  then have "3 * q * w \<le> (a + b + 2) * w" by (intro mult_le_mono1) simp
  then have "3 * (q * w) \<le> a * w + b * w + 2 * w" by (simp add: distrib_right)
  then show "12 + q * w \<le> kPageSize" using a b w by (simp add: kPageSize_def)
qed

lemma wp_redistribute:
  assumes nb: "neighbours ty n s p ks ls U a b nb W ga gb all pa pb j" and st: "stands s m (node_view s) (idx_count s) s1"
    and over: "leaf_overflow (ga @ gb)"
  shows "wp E (redistribute_leaf_pair pa pb (node_page p ks (map fst ls)) [p]) (\<lambda>_. erased ty n m all j) s1"
proof -
  note D = neighboursD [OF nb]
  obtain ea eb where at: "pair_at ls U a ea b eb nb W" and less: "one_less ea ga eb gb" using D(16) by blast
  note F = pair_facts [OF D(1) at] and T = two_levelD [OF D(1)]
  have ls: "ls = U @ (a, ea, b) # (b, eb, nb) # W" using at by (simp add: pair_at_def)
  have len: "\<forall>e \<in> set (ga @ gb). key_len e = n" using D(20,21) by auto
  have full: "kPageSize < 12 + (length ga + length gb) * (10 + n)"
    using over uniform_fits [OF len] by simp
  then have ne: "all \<noteq> []" using D(2) by (cases "ga @ gb") (auto simp: kPageSize_def)
  note Z = three_share_sizes [OF key_small [OF D(3) ne] full D(18,19)]
  obtain l mid r where parts: "three_parts (ga @ gb) = (l, mid, r)" by (cases "three_parts (ga @ gb)")
  have "3 \<le> length (ga @ gb)" using Z(1) by simp
  note P = three_parts_facts [OF parts this]
  have fit: "12 + length l * (10 + n) \<le> kPageSize" "12 + length mid * (10 + n) \<le> kPageSize"
    "12 + length r * (10 + n) \<le> kPageSize"
    using P(5-7) by (auto intro!: Z(2))
  have all: "all = concat (map leaf_es U) @ (l @ mid @ r) @ concat (map leaf_es W)" using D(2) P(1) by simp
  have parts_ok: "part_of n l all" "part_of n mid all" "part_of n r all"
  proof -
    show "part_of n l all"
      by (rule part_between [of all "concat (map leaf_es U)" l "mid @ r @ concat (map leaf_es W)"])
        (simp_all add: all P fit)
    show "part_of n mid all"
      by (rule part_between [of all "concat (map leaf_es U) @ l" mid "r @ concat (map leaf_es W)"])
        (simp_all add: all P fit)
    show "part_of n r all"
      by (rule part_between [of all "concat (map leaf_es U) @ l @ mid" r "concat (map leaf_es W)"])
        (simp_all add: all P fit)
  qed
  note R = run_ok [OF D(3) parts_ok(1)] run_ok [OF D(3) parts_ok(2)] run_ok [OF D(3) parts_ok(3)]
  have no: "\<not> leaf_overflow l" "\<not> leaf_overflow r" using R(1,7) by (simp_all add: leaf_ok_def)
  define c where "c = idx_count s"
  have c: "0 < c" "c + 1 < 2 ^ 32" "c < 2 ^ 32" "a < c" "b < c" "c \<noteq> a" "c \<noteq> b"
    using index_invD(2) [OF T(1)] D(15) F(4,5) by (simp_all add: c_def)
  let ?ls = "U @ (a, l, c) # (c, mid, b) # (b, r, nb) # W"
  let ?v = "(node_view s)(a \<mapsto> leaf_page a l c, c \<mapsto> leaf_page c mid b, b \<mapsto> leaf_page b r nb)"
  let ?Q = "\<lambda>_. erased ty n m all j"
  let ?parent = "(node_page p ks (map fst ls))\<lparr>children := insert_at (length U + 1) c (map fst ls)\<rparr>"
  have fresh: "c \<notin> fst ` set ls" using T(7) by (auto simp: c_def)
  have kids: "insert_at (length U + 1) c (map fst ls) = map fst ?ls"
    by (simp add: ls insert_at_def)
  have last: "wp E (bnd (rebuild_internal_keys ?parent) (\<lambda>parent.
      andthen (idx_write_page parent) (propagate_subtree_min_change (page_id parent) [p]))) ?Q s5"
    if st5: "stands s m ?v (c + 1) s5" for s5
    unfolding wp_bnd
  proof (rule wp_mono)
    have "leaves_in ty n s5 U" "leaves_in ty n s5 W"
      by (rule leaves_in_untouched [OF F(11) st5, of "{a, b, c}"] leaves_in_untouched [OF F(12) st5, of "{a, b, c}"];
          use F(2,3) fresh in \<open>simp add: ls image_Un\<close>)+
    then have new: "leaves_in ty n s5 ?ls"
      using R F(1) c(6,7) by (simp add: leaves_in_append leaves_in_Cons standsD(2) [OF st5])
    have rel: "relinked s ls ?ls"
      using T(5,9) fresh c(6,7) unfolding relinked_def ls by (auto simp: chained_append c_def)
    have sum: "concat (map leaf_es ?ls) = all" by (simp add: all)
    have "leaf_share n \<le> length (ga @ gb) div 3" by (rule overflow_share [OF len over])
    then have share: "leaf_share n \<le> length l" "leaf_share n \<le> length mid" "leaf_share n \<le> length r"
      using P(8-10) by simp_all
    have "length l + length mid + length r = length ga + length gb" using arg_cong [OF P(1), of length] by simp
    then have "list_room n ?ls j"
      using less by (intro list_room_step [OF D(14)]) (auto simp: ls thick_def share one_less_def)
    then show "wp E (rebuild_internal_keys ?parent) (\<lambda>parent s2. page_id parent = p \<and> node_type parent = Inner \<and>
        children parent = map fst ?ls \<and> root_page s2 = p \<and>
        wp E (idx_write_page parent) (\<lambda>_. erased ty n m (concat (map leaf_es ?ls)) j) s2) s5"
      by (intro wp_root_rebuilt [OF D(1) rel new _ st5]) (use D(3,15) sum kids in \<open>simp_all add: c_def\<close>)
    fix parent s2
    assume "page_id parent = p \<and> node_type parent = Inner \<and>
        children parent = map fst ?ls \<and> root_page s2 = p \<and>
        wp E (idx_write_page parent) (\<lambda>_. erased ty n m (concat (map leaf_es ?ls)) j) s2"
    then show "wp E (andthen (idx_write_page parent) (propagate_subtree_min_change (page_id parent) [p])) ?Q s2"
      using sum by (simp add: propagate_root)
  qed
  have put: "wp E (idx_write_page pg) (\<lambda>_. R') s2"
    if "stands s m v (c + 1) s2" "node_type pg = Leaf" "children pg = []" "part_of n (leaf_entries pg) all"
      "page_id pg \<le> c" "next_leaf pg < 2 ^ 32"
      "\<And>s3. stands s m (v(page_id pg \<mapsto> leaf_page (page_id pg) (leaf_entries pg) (next_leaf pg))) (c + 1) s3 \<Longrightarrow> R' s3"
    for pg R' v s2
    by (rule wp_put_leaf [OF that(1) D(3) that(4,2) _ that(6,3)]) (use that(5,7) in simp_all)
  have pos: "child_position msg (node_page p ks (map fst ls)) a = ret (length U)" for msg
    using F(2) by (simp add: child_position_def ls index_of_middle)
  let ?tail = "bnd (rebuild_internal_keys ?parent) (\<lambda>parent.
      andthen (idx_write_page parent) (propagate_subtree_min_change (page_id parent) [p]))"
  have writes: "wp E (andthen (idx_write_page (pa\<lparr>leaf_entries := l, next_leaf := c\<rparr>))
      (andthen (idx_write_page ((blank_page c Leaf)\<lparr>leaf_entries := mid, next_leaf := b\<rparr>))
        (andthen (idx_write_page (pb\<lparr>leaf_entries := r\<rparr>)) ?tail))) ?Q s2"
    if st2: "stands s m (node_view s) (c + 1) s2" for s2
    unfolding wp_andthen [of _ "idx_write_page (_\<lparr>leaf_entries := _, next_leaf := _\<rparr>)"]
      wp_andthen [of _ "idx_write_page (_\<lparr>leaf_entries := _\<rparr>)"]
    by (rule put [OF st2]; (rule put)?; (rule put)?)
      (use D parts_ok c F(6,7) last in \<open>simp_all add: blank_page_def\<close>)
  have "redistribute_leaf_pair pa pb (node_page p ks (map fst ls)) [p] =
      bnd allocate_node_page (\<lambda>i.
        andthen (idx_write_page (pa\<lparr>leaf_entries := l, next_leaf := i\<rparr>))
          (andthen (idx_write_page ((blank_page i Leaf)\<lparr>leaf_entries := mid, next_leaf := b\<rparr>))
            (andthen (idx_write_page (pb\<lparr>leaf_entries := r\<rparr>))
              (bnd (rebuild_internal_keys ((node_page p ks (map fst ls))
                     \<lparr>children := insert_at (length U + 1) i (map fst ls)\<rparr>)) (\<lambda>parent.
                andthen (idx_write_page parent) (propagate_subtree_min_change (page_id parent) [p]))))))"
    by (simp add: redistribute_leaf_pair_def D(5,6,10,11) parts no pos throw_if_def andthen_ret)
  then show ?thesis
    using wp_new_node [OF st, folded c_def, OF c(1,2)] writes by simp
qed

section \<open>Merging\<close>

lemma handle_root:
  assumes "node_type node = Inner" and "page_id node = p"
  shows "handle_internal_after_child_removed node [p] =
     bnd (rebuild_internal_keys node) (\<lambda>node.
     bnd (gets root_page) (\<lambda>r.
     if page_id node = r then
       (if length (children node) = 1 then promote_single_child_root node else idx_write_page node)
     else if inner_underflow (inner_keys node) (children node) False then fix_internal_underflow node [p]
     else andthen (idx_write_page node) (propagate_subtree_min_change (page_id node) [p])))"
  using assms by (subst handle_internal_after_child_removed.simps) simp

text \<open>A root left with one leaf gives way to it.\<close>

lemma wp_promote:
  assumes st: "stands s m v c s1" and a: "v a = Some (leaf_page a es 0)" "a \<noteq> 0"
    and es: "leaf_ok ty es" "keys_of ty n es" and c: "0 < c" "c + j < 2 ^ 32" and root: "root_page s = p"
    and room: "root_room n (BLeaf a es 0) j"
    and pg: "node_type pg = Inner" "page_id pg = p" "children pg = [a]"
  shows "wp E (handle_internal_after_child_removed pg [p]) (\<lambda>_. erased ty n m es j) s1"
proof -
  let ?pg = "pg\<lparr>inner_keys := [], key_count := 0\<rparr>"
  have rebuilt: "rebuild_internal_keys pg = ret ?pg"
    using pg by (simp add: rebuild_internal_keys_def)
  have "wp E (promote_single_child_root ?pg) (\<lambda>_. erased ty n m es j) s1"
    unfolding promote_single_child_root_def using pg
  proof (simp, intro wp_get_node [OF st a(1)])
    fix s2
    assume s2: "stands s m v c s2"
    let ?s = "s2\<lparr>root_page := a, first_leaf_page := a\<rparr>" and ?t = "BLeaf a es 0"
    have view: "node_view ?s = v" using standsD(2) [OF s2] by (simp add: node_view_def [abs_def])
    have "tree_ok ty ?t" using es a(2) by (simp add: tree_ok_def keys_of_def vals_def)
    then have "holds_tree ty m ?t ?s"
      using s2 a(1) c(1) view by (simp add: holds_tree_def stands_def idx_inv_def idx_frame_def)
    moreover have "spares n ?s ?t j" using es(2) c(2) s2 room by (simp add: spares_def keys_of_def stands_def)
    ultimately have "erased ty n m es j ?s" by (auto simp: erased_def)
    then show "wp E (if node_type (leaf_page a es 0) = Leaf then ret (page_id (leaf_page a es 0))
          else leftmost_leaf (page_id (leaf_page a es 0)))
        (\<lambda>i s'. erased ty n m es j (s'\<lparr>first_leaf_page := i\<rparr>)) (s2\<lparr>root_page := page_id (leaf_page a es 0)\<rparr>)"
      by simp
  qed
  then show ?thesis
    using rebuilt pg standsD(4) [OF st] root by (simp add: handle_root)
qed

lemma wp_merge:
  assumes nb: "neighbours ty n s p ks ls U a b nb W ga gb all pa pb j" and st: "stands s m (node_view s) (idx_count s) s1"
    and ne: "ga @ gb \<noteq> []"
  shows "wp E (merge_leaves pa pb (node_page p ks (map fst ls)) (length U + 1) k [p]) (\<lambda>_. erased ty n m all j) s1"
proof (cases "leaf_overflow (ga @ gb)")
  case True
  then show ?thesis using wp_redistribute [OF nb st] neighboursD(6,11) [OF nb] by (simp add: merge_leaves_def Let_def)
next
  case False
  note D = neighboursD [OF nb]
  obtain ea eb where at: "pair_at ls U a ea b eb nb W" and less: "one_less ea ga eb gb" using D(16) by blast
  note F = pair_facts [OF D(1) at] and T = two_levelD [OF D(1)]
  have ls: "ls = U @ (a, ea, b) # (b, eb, nb) # W" using at by (simp add: pair_at_def)
  let ?es = "ga @ gb" and ?ls = "U @ (a, ga @ gb, nb) # W" and ?Q = "\<lambda>_. erased ty n m all j"
  let ?merged = "pa\<lparr>leaf_entries := ga @ gb, next_leaf := nb\<rparr>"
  let ?parent = "without_child (length U + 1) k (node_page p ks (map fst ls))"
  have uni: "\<forall>e \<in> set ?es. key_len e = n" using D(20,21) by auto
  have part: "part_of n ?es all"
    using part_between [of all "concat (map leaf_es U)" ?es "concat (map leaf_es W)" n] D(2) ne False
      uniform_fits [OF uni] by simp
  note R = run_ok [OF D(3) part]
  have kids: "children ?parent = map fst ?ls" "node_type ?parent = Inner" "page_id ?parent = p" "next_leaf ?parent = 0"
    by (simp_all add: without_child_def ls erase_at_def)
  let ?v = "(node_view s)(a \<mapsto> leaf_page a ?es nb)"
  have sum: "concat (map leaf_es ?ls) = all" by (simp add: D(2))
  have last: "wp E (handle_internal_after_child_removed ?parent [p]) ?Q s2"
    if st2: "stands s m ?v (idx_count s) s2" for s2
  proof (cases "U = [] \<and> W = []")
    case True
    have nb0: "nb = 0" using T(9) True by (simp add: ls)
    have es: "?es = all" using True D(2) by simp
    have "wp E (handle_internal_after_child_removed ?parent [p]) (\<lambda>_. erased ty n m ?es j) s2"
    proof (rule wp_promote [OF st2])
      show "?v a = Some (leaf_page a ?es 0)" using nb0 by simp
      show "a \<noteq> 0" using T(8) by (simp add: ls)
      show "leaf_ok ty ?es" by (rule R(1))
      show "keys_of ty n ?es" using D(3) es by simp
      show "0 < idx_count s" by (rule index_invD(2) [OF T(1)])
      show "children ?parent = [a]" using kids(1) True by simp
      show "root_room n (BLeaf a ?es 0) j" by (rule list_room_leaf [OF D(14)]) (use less in \<open>auto simp: ls one_less_def\<close>)
    qed (use D(17) T(11) kids in auto)
    then show ?thesis using es by simp
  next
    case False
    have "leaves_in ty n s2 U" "leaves_in ty n s2 W"
      by (rule leaves_in_untouched [OF F(11) st2, of "{a}"] leaves_in_untouched [OF F(12) st2, of "{a}"];
          use F(2) in simp)+
    then have new: "leaves_in ty n s2 ?ls"
      using R by (simp add: leaves_in_append leaves_in_Cons standsD(2) [OF st2])
    have many: "2 \<le> length ?ls" using False by (cases U; cases W) auto
    have rel: "relinked s ls ?ls"
      using T(5,9) many unfolding relinked_def ls by (auto simp: chained_append)
    have room: "list_room n ?ls j"
      by (rule list_room_step [OF D(14)]) (use less in \<open>auto simp: ls thick_def one_less_def\<close>)
    have "wp E (rebuild_internal_keys ?parent) (\<lambda>parent s2. page_id parent = p \<and> node_type parent = Inner \<and>
        children parent = map fst ?ls \<and> root_page s2 = p \<and>
        wp E (idx_write_page parent) (\<lambda>_. erased ty n m (concat (map leaf_es ?ls)) j) s2) s2"
      by (rule wp_root_rebuilt [OF D(1) rel new _ st2 _ D(17) room])
        (use D(3) sum kids in \<open>simp_all del: map_append\<close>)
    then show ?thesis
      unfolding handle_root [OF kids(2,3)] wp_bnd
      by (rule wp_mono) (use many sum in \<open>auto simp: Suc_le_eq\<close>)
  qed
  have "wp E (idx_write_page ?merged) (\<lambda>_. wp E (handle_internal_after_child_removed ?parent [p]) ?Q) s1"
    by (rule wp_put_leaf [OF st D(3)]) (use D F part last in simp_all)
  moreover have "s1\<lparr>first_leaf_page := first_leaf_page s1\<rparr> = s1" by simp
  moreover have "first_leaf_page s1 \<noteq> page_id pb" using standsD(5) [OF st] F(8) D(10) by simp
  ultimately show ?thesis using False D(6,11,12) by (simp add: merge_leaves_def Let_def)
qed

section \<open>A leaf that is too empty\<close>

text \<open>The leaf \<open>i\<close> under the root has lost entries: \<open>es'\<close> is what is left, in hand as \<open>pg\<close>.\<close>

definition thinned :: "DataType \<Rightarrow> nat \<Rightarrow> disk_index \<Rightarrow> nat \<Rightarrow> LeafEntry list \<Rightarrow>
    (nat \<times> LeafEntry list \<times> nat) list \<Rightarrow> (nat \<times> LeafEntry list \<times> nat) list \<Rightarrow> nat \<Rightarrow> LeafEntry list \<Rightarrow> nat \<Rightarrow>
    (nat \<times> LeafEntry list \<times> nat) list \<Rightarrow> LeafEntry list \<Rightarrow> LeafEntry list \<Rightarrow> ParsedPage \<Rightarrow> nat \<Rightarrow> bool" where
  "thinned ty n s p ks ls X i es nx Y es' all pg j \<longleftrightarrow> two_level ty n s p ks ls \<and> ls = X @ (i, es, nx) # Y \<and>
     all = concat (map leaf_es X) @ es' @ concat (map leaf_es Y) \<and> keys_of ty n all \<and> length es' \<le> length es \<and>
     length es \<le> Suc (length es') \<and> node_type pg = Leaf \<and> page_id pg = i \<and> leaf_entries pg = es' \<and> next_leaf pg = nx \<and> children pg = [] \<and>
     2 \<le> length ls \<and> list_room n ls (Suc j) \<and> idx_count s + Suc j < 2 ^ 32"

lemma thinnedD:
  assumes "thinned ty n s p ks ls X i es nx Y es' all pg j"
  shows "two_level ty n s p ks ls" "ls = X @ (i, es, nx) # Y"
    "all = concat (map leaf_es X) @ es' @ concat (map leaf_es Y)" "keys_of ty n all" "length es' \<le> length es"
    "node_type pg = Leaf" "page_id pg = i" "leaf_entries pg = es'" "next_leaf pg = nx" "children pg = []"
    "2 \<le> length ls" "list_room n ls (Suc j)" "idx_count s + Suc j < 2 ^ 32" "length es \<le> Suc (length es')"
  using assms unfolding thinned_def by blast+

lemma page_fits:
  assumes "two_level ty n s p ks ls" and "(i, es, nx) \<in> set ls"
  shows "12 + length es * (10 + n) \<le> kPageSize"
  using next_small(5,6) [OF assms] uniform_fits [of es n] by (simp add: leaf_ok_def)

lemma thinned_fits:
  assumes "thinned ty n s p ks ls X i es nx Y es' all pg j"
  shows "12 + length es' * (10 + n) \<le> kPageSize"
proof -
  note D = thinnedD [OF assms]
  have "12 + length es * (10 + n) \<le> kPageSize" using page_fits [OF D(1)] D(2) by auto
  then show ?thesis using mult_le_mono1 [OF D(5), of "10 + n"] by linarith
qed

text \<open>It and its left neighbour, it and its right neighbour.\<close>

lemma thinned_left:
  assumes thin: "thinned ty n s p ks ls X i es nx Y es' all pg j" and X: "X = X' @ [(l, el, nl)]"
  shows "nl = i" "neighbours ty n s p ks ls X' l i nx Y el es' all (leaf_page l el nl) pg j"
    "node_view s l = Some (leaf_page l el nl)" "el \<noteq> []"
proof -
  note D = thinnedD [OF thin]
  have mem: "(l, el, nl) \<in> set ls" by (simp add: D(2) X)
  show nl: "nl = i" using two_levelD(9) [OF D(1)] by (simp add: D(2) X chained_append)
  show "node_view s l = Some (leaf_page l el nl)" "el \<noteq> []"
    using next_small(4,5) [OF D(1) mem] by (simp_all add: leaf_ok_def)
  have "pair_at ls X' l el i es nx Y" "one_less el el es es'" using D(5,14) by (simp_all add: pair_at_def one_less_def D(2) X nl)
  then have "\<exists>ea eb. pair_at ls X' l ea i eb nx Y \<and> one_less ea el eb es'" by blast
  then show "neighbours ty n s p ks ls X' l i nx Y el es' all (leaf_page l el nl) pg j"
    unfolding neighbours_def using D page_fits [OF D(1) mem] thinned_fits [OF thin] X nl by auto
qed

lemma thinned_right:
  assumes thin: "thinned ty n s p ks ls X i es nx Y es' all pg j" and Y: "Y = (r, er, nr) # Y'"
  shows "nx = r" "neighbours ty n s p ks ls X i r nr Y' es' er all pg (leaf_page r er nr) j"
    "node_view s r = Some (leaf_page r er nr)" "er \<noteq> []"
proof -
  note D = thinnedD [OF thin]
  have mem: "(r, er, nr) \<in> set ls" by (simp add: D(2) Y)
  show nx: "nx = r" using two_levelD(9) [OF D(1)] by (simp add: D(2) Y chained_append)
  show "node_view s r = Some (leaf_page r er nr)" "er \<noteq> []"
    using next_small(4,5) [OF D(1) mem] by (simp_all add: leaf_ok_def)
  have "pair_at ls X i es r er nr Y'" "one_less es es' er er" using D(5,14) by (simp_all add: pair_at_def one_less_def D(2) Y nx)
  then have "\<exists>ea eb. pair_at ls X i ea r eb nr Y' \<and> one_less ea es' eb er" by blast
  then show "neighbours ty n s p ks ls X i r nr Y' es' er all pg (leaf_page r er nr) j"
    unfolding neighbours_def using D page_fits [OF D(1) mem] thinned_fits [OF thin] Y nx by auto
qed

lemma wp_spare:
  assumes st: "stands s m v c s1" and kid: "children parent ! k = l" and l: "v l = Some (leaf_page l el nl)"
    and some: "\<And>s2. stands s m v c s2 \<Longrightarrow> \<not> leaf_underflow el False \<Longrightarrow> Q (Some (leaf_page l el nl)) s2"
    and none: "\<And>s2. stands s m v c s2 \<Longrightarrow> leaf_underflow el False \<Longrightarrow> Q None s2"
  shows "wp E (spare_leaf parent True k) Q s1"
  unfolding spare_leaf_def expect_leaf_def kid if_not_P [of "\<not> True", simplified] wp_bnd
  by (simp, rule wp_get_node [OF st l]) (use some none in simp)

lemma wp_fix_leaf:
  assumes thin: "thinned ty n s p ks ls X i es nx Y es' all pg j" and under: "leaf_underflow es' False"
    and st: "stands s m (node_view s) (idx_count s) s1"
  shows "wp E (fix_leaf_underflow pg [p, i]) (\<lambda>_. erased ty n m all j) s1"
proof -
  note D = thinnedD [OF thin] and T = two_levelD [OF D(1)]
  let ?parent = "node_page p ks (map fst ls)" and ?Q = "\<lambda>_. erased ty n m all j"
  have mem: "(i, es, nx) \<in> set ls" by (simp add: D(2))
  have ip: "i \<noteq> p" using next_small(3) [OF D(1) mem] .
  have pos: "child_position msg ?parent i = ret (length X)" for msg
    using T(5) by (simp add: child_position_def D(2) index_of_middle)
  define M where "M = (if 0 < length X then
        bnd (idx_read_page (map fst ls ! (length X - 1))) (\<lambda>left. merge_leaves left pg ?parent (length X) (length X - 1) [p])
      else if length ls \<le> length X + 1 then throw (Logic_error ''Leaf has no sibling for merge'')
      else bnd (idx_read_page (map fst ls ! (length X + 1))) (\<lambda>right. merge_leaves pg right ?parent (length X + 1) (length X) [p]))"
  have merge: "wp E M ?Q s2" if st2: "stands s m (node_view s) (idx_count s) s2" for s2
  proof (cases X rule: rev_cases)
    case (snoc X' l)
    obtain a ea na where l: "l = (a, ea, na)" by (cases l)
    note L = thinned_left [OF thin, of X' a ea na, OF snoc [unfolded l]]
    have "map fst ls ! (length X - 1) = a" by (simp add: D(2) snoc l nth_append)
    moreover have "wp E (merge_leaves (leaf_page a ea na) pg ?parent (length X' + 1) (length X - 1) [p]) ?Q s3"
      if "stands s m (node_view s) (idx_count s) s3" for s3
      by (rule wp_merge [OF L(2) that]) (use L(4) in simp)
    ultimately show ?thesis using wp_get_node [OF st2 L(3)] snoc by (simp add: M_def)
  next
    case X: Nil
    obtain r Y' where Y: "Y = r # Y'" using D(2,11) X by (cases Y) auto
    obtain b eb nb where r: "r = (b, eb, nb)" by (cases r)
    note R = thinned_right [OF thin, of b eb nb Y', OF Y [unfolded r]]
    have "map fst ls ! 1 = b" by (simp add: D(2) X Y r)
    moreover have "wp E (merge_leaves pg (leaf_page b eb nb) ?parent 1 0 [p]) ?Q s3"
      if "stands s m (node_view s) (idx_count s) s3" for s3
      using wp_merge [OF R(2) that, of E 0] R(4) X by simp
    ultimately show ?thesis using wp_get_node [OF st2 R(3)] X D(11) by (simp add: M_def)
  qed
  define G where "G = bnd (spare_leaf ?parent (length X + 1 < length ls) (length X + 1)) (\<lambda>from_right.
      case from_right of
        Some right \<Rightarrow>
          andthen (idx_write_page (right\<lparr>leaf_entries := tl (leaf_entries right)\<rparr>))
            (andthen (idx_write_page (pg\<lparr>leaf_entries := es' @ [hd (leaf_entries right)]\<rparr>)) (refresh_parent ?parent [p]))
      | None \<Rightarrow> M)"
  have right: "wp E G ?Q s2" if st2: "stands s m (node_view s) (idx_count s) s2" for s2
  proof (cases Y)
    case Nil
    then have "spare_leaf ?parent (length X + 1 < length ls) (length X + 1) = ret None" by (simp add: D(2) spare_leaf_def)
    then show ?thesis using merge [OF st2] by (simp only: G_def bnd_ret option.case)
  next
    case (Cons r Y')
    obtain b eb nb where r: "r = (b, eb, nb)" by (cases r)
    note R = thinned_right [OF thin, of b eb nb Y', OF Cons [unfolded r]]
    have kid: "children ?parent ! (length X + 1) = b" by (simp add: D(2) Cons r nth_append)
    have more: "length X + 1 < length ls" by (simp add: D(2) Cons)
    show ?thesis
      unfolding G_def wp_bnd eqTrueI [OF more]
      by (rule wp_spare [OF st2 kid R(3)]) (use merge wp_borrow(2) [OF R(2)] under in simp_all)
  qed
  have left: "wp E (bnd (spare_leaf ?parent (0 < length X) (length X - 1)) (\<lambda>from_left.
      case from_left of
        Some left \<Rightarrow>
          andthen (idx_write_page (left\<lparr>leaf_entries := butlast (leaf_entries left)\<rparr>))
            (andthen (idx_write_page (pg\<lparr>leaf_entries := last (leaf_entries left) # es'\<rparr>)) (refresh_parent ?parent [p]))
      | None \<Rightarrow> G)) ?Q s2" if st2: "stands s m (node_view s) (idx_count s) s2" for s2
  proof (cases X rule: rev_cases)
    case Nil
    then have "spare_leaf ?parent (0 < length X) (length X - 1) = ret None" by (simp add: spare_leaf_def)
    then show ?thesis using right [OF st2] by (simp only: bnd_ret option.case)
  next
    case (snoc X' l)
    obtain a ea na where l: "l = (a, ea, na)" by (cases l)
    note L = thinned_left [OF thin, of X' a ea na, OF snoc [unfolded l]]
    have kid: "children ?parent ! (length X - 1) = a" by (simp add: D(2) snoc l nth_append)
    have more: "0 < length X" by (simp add: snoc)
    show ?thesis
      unfolding wp_bnd eqTrueI [OF more]
      by (rule wp_spare [OF st2 kid L(3)]) (use right wp_borrow(1) [OF L(2)] under in simp_all)
  qed
  define F where "F parent c = bnd (spare_leaf parent (0 < c) (c - 1)) (\<lambda>from_left.
      case from_left of
        Some left \<Rightarrow>
          andthen (idx_write_page (left\<lparr>leaf_entries := butlast (leaf_entries left)\<rparr>))
            (andthen (idx_write_page (pg\<lparr>leaf_entries := last (leaf_entries left) # es'\<rparr>)) (refresh_parent parent [p]))
      | None \<Rightarrow> bnd (spare_leaf parent (c + 1 < length (children parent)) (c + 1)) (\<lambda>from_right.
          case from_right of
            Some right \<Rightarrow>
              andthen (idx_write_page (right\<lparr>leaf_entries := tl (leaf_entries right)\<rparr>))
                (andthen (idx_write_page (pg\<lparr>leaf_entries := es' @ [hd (leaf_entries right)]\<rparr>)) (refresh_parent parent [p]))
          | None \<Rightarrow>
              if 0 < c then bnd (idx_read_page (children parent ! (c - 1))) (\<lambda>left. merge_leaves left pg parent c (c - 1) [p])
              else if length (children parent) \<le> c + 1 then throw (Logic_error ''Leaf has no sibling for merge'')
              else bnd (idx_read_page (children parent ! (c + 1))) (\<lambda>right. merge_leaves pg right parent (c + 1) c [p])))"
    for parent c
  have F: "wp E (F ?parent (length X)) ?Q s2" if "stands s m (node_view s) (idx_count s) s2" for s2
    using left [OF that] unfolding F_def G_def M_def page_sel length_map .
  have run: "fix_leaf_underflow pg [p, i] = bnd (gets root_page) (\<lambda>r. if i = r then idx_write_page pg
      else bnd (idx_read_page p) (\<lambda>parent. if node_type parent = Leaf then throw (Logic_error ''Leaf cannot be parent'')
        else bnd (child_position ''Parent missing child'' parent i) (F parent)))"
    by (simp add: fix_leaf_underflow_def D(7,8) F_def [abs_def] cong: if_cong option.case_cong)
  have "wp E (bnd (idx_read_page p) (\<lambda>parent. if node_type parent = Leaf then throw (Logic_error ''Leaf cannot be parent'')
        else bnd (child_position ''Parent missing child'' parent i) (F parent))) ?Q s1"
    unfolding wp_bnd [of _ "idx_read_page _"]
    by (rule wp_get_node [OF st T(14)]) (simp add: pos F)
  then show ?thesis using ip standsD(4) [OF st] T(11) unfolding run by simp
qed

section \<open>A leaf that is full enough\<close>

lemma seps_subset:
  assumes "seps ks (Fl @ F # Fr)" and "set F' \<subseteq> set F"
  shows "seps ks (Fl @ F' # Fr)"
proof -
  let ?kl = "take (length Fl) ks" and ?kr = "drop (length Fl) ks"
  have "length ?kl = length Fl" using seps_length [OF assms(1)] by simp
  note eq = seps_append [OF this, of ?kr _ Fr]
  show ?thesis using assms eq [of F] eq [of F'] by auto
qed

text \<open>A separator may rise to the least value right of it.\<close>

lemma seps_raise:
  assumes "length kl = length Fl" and "seps (kl @ k # kr) (Fl @ F # Fr)" and "k \<le> k'"
    and "\<forall>G \<in> set Fr. \<forall>v \<in> set G. k' \<le> v"
  shows "seps (kl @ k' # kr) (Fl @ F # Fr)"
  using assms
proof (induction kl Fl rule: list_induct2)
  case Nil
  then show ?case by (auto intro: less_le_trans)
next
  case (Cons x kl G Fl)
  then show ?case by (auto intro: less_le_trans)
qed

text \<open>The tree with the shorter leaf, and with the separator left of it at its least key.\<close>

definition thin_tree :: "nat \<Rightarrow> LeafEntry list \<Rightarrow> (nat \<times> LeafEntry list \<times> nat) list \<Rightarrow> nat \<Rightarrow> LeafEntry list \<Rightarrow> nat \<Rightarrow>
    (nat \<times> LeafEntry list \<times> nat) list \<Rightarrow> btree" where
  "thin_tree p ks X i es nx Y = BNode p ks (map mkleaf (X @ (i, es, nx) # Y))"

lemma thin_tree_ok:
  assumes thin: "thinned ty n s p ks ls X i es nx Y es' all pg j" and ne: "es' \<noteq> []"
    and sub: "set es' \<subseteq> set es" and ks': "inner_ok ty ks' (map fst ls)"
    and seps: "seps (map key_val ks') (map (map key_val \<circ> leaf_es) (X @ (i, es', nx) # Y))"
  shows "tree_ok ty (thin_tree p ks' X i es' nx Y)"
proof -
  note D = thinnedD [OF thin] and T = two_levelD [OF D(1)]
  have "part_of n es' all" using part_between [OF D(3) ne thinned_fits [OF thin]] .
  from run_ok(1) [OF D(4) this] have leaf: "leaf_ok ty es'" .
  have old: "wf_tree ty (mkleaf l)" if "l \<in> set X \<union> set Y" for l
    using T(2) that by (auto simp: D(2))
  have vals: "map vals (map mkleaf (X @ (i, es', nx) # Y)) = map (map key_val \<circ> leaf_es) (X @ (i, es', nx) # Y)"
    by (simp add: vals_def)
  have "wf_tree ty (thin_tree p ks' X i es' nx Y)"
    using ks' seps leaf old vals by (auto simp: thin_tree_def D(2))
  moreover have "sorted_wrt (<) (vals (thin_tree p ks' X i es' nx Y))"
    using D(4) by (simp add: thin_tree_def vals_def keys_of_def D(3))
  ultimately show ?thesis
    using T(5,6,8,9) by (auto simp: tree_ok_def thin_tree_def D(2) chained_append)
qed

lemma thin_seps:
  assumes thin: "thinned ty n s p ks ls X i es nx Y es' all pg j" and sub: "set es' \<subseteq> set es"
  shows "seps (map key_val ks) (map (map key_val \<circ> leaf_es) (X @ (i, es', nx) # Y))"
proof -
  note D = thinnedD [OF thin] and T = two_levelD [OF D(1)]
  have "map vals (map mkleaf ls) = map (map key_val \<circ> leaf_es) ls" by (simp add: vals_def)
  then have "seps (map key_val ks) (map (map key_val \<circ> leaf_es) X @ map key_val es # map (map key_val \<circ> leaf_es) Y)"
    using T(2) by (simp add: D(2))
  then have "seps (map key_val ks) (map (map key_val \<circ> leaf_es) X @ map key_val es' # map (map key_val \<circ> leaf_es) Y)"
    by (rule seps_subset) (use sub in auto)
  then show ?thesis by simp
qed

lemma thin_holds:
  assumes thin: "thinned ty n s p ks ls X i es nx Y es' all pg j" and ok: "tree_ok ty (thin_tree p ks' X i es' nx Y)"
    and st: "stands s m ((node_view s)(i \<mapsto> leaf_page i es' nx, p \<mapsto> node_page p ks' (map fst ls))) (idx_count s) s1"
  shows "holds_tree ty m (thin_tree p ks' X i es' nx Y) s1"
proof -
  note D = thinnedD [OF thin] and T = two_levelD [OF D(1)]
  have rep: "node_view s (fst l) = Some (page_of (mkleaf l))" "fst l \<noteq> i" "fst l \<noteq> p" if "l \<in> set X \<union> set Y" for l
  proof -
    obtain a es2 nx2 where l: "l = (a, es2, nx2)" by (cases l)
    have mem: "(a, es2, nx2) \<in> set ls" using that by (auto simp: D(2) l)
    show "node_view s (fst l) = Some (page_of (mkleaf l))" "fst l \<noteq> p" using next_small(3,4) [OF D(1) mem] by (simp_all add: l)
    have "fst l \<in> fst ` set X \<union> fst ` set Y" using that by blast
    then show "fst l \<noteq> i" using T(5) by (auto simp: D(2))
  qed
  have ip: "i \<noteq> p" using T(6) by (auto simp: D(2))
  have "rep (node_view s1) (mkleaf l)" if "l \<in> set X \<union> set Y" for l
    using rep [OF that] standsD(2) [OF st] by (cases l) simp
  then have "rep (node_view s1) (thin_tree p ks' X i es' nx Y)"
    using standsD(2) [OF st] ip by (auto simp: thin_tree_def D(2))
  moreover have "0 < idx_count s" by (rule index_invD(2) [OF T(1)])
  ultimately show ?thesis
    using ok st T(11,12) by (simp add: holds_tree_def stands_def) (simp add: thin_tree_def D(2))
qed

lemma strip_keys: "inner_ok ty ks cs \<Longrightarrow> map strip ks = ks"
  by (rule map_idI) (auto simp: inner_ok_def strip_def)

lemma thin_spares:
  assumes thin: "thinned ty n s p ks ls X i es nx Y es' all pg j" and ks': "\<forall>k \<in> set ks'. key_len k = n"
    and c: "idx_count s1 = idx_count s" and full: "\<not> leaf_underflow es' False"
  shows "spares n s1 (thin_tree p ks' X i es' nx Y) j" "flat (thin_tree p ks' X i es' nx Y) = all"
proof -
  note D = thinnedD [OF thin]
  show flat: "flat (thin_tree p ks' X i es' nx Y) = all" by (simp add: thin_tree_def D(3))
  have len: "\<forall>e \<in> set es'. key_len e = n" using D(3,4) by (auto simp: keys_of_def)
  have "es' \<noteq> []" using full by (auto simp: leaf_underflow_def)
  then have "10 + n \<le> 522" using key_small [OF D(4)] D(3) by simp
  then have "leaf_share n < length es'" using lender_share full underflow_uniform [OF len] by simp
  then have "list_room n (X @ (i, es', nx) # Y) j"
    by (intro list_room_step [OF D(12)]) (use D(2,5) in \<open>auto simp: thick_def\<close>)
  then have "root_room n (thin_tree p ks' X i es' nx Y) j" unfolding thin_tree_def root_room_node .
  then show "spares n s1 (thin_tree p ks' X i es' nx Y) j"
    using flat D(2,4,11,13) ks' c by (auto simp: spares_def thin_tree_def keys_of_def)
qed

text \<open>The separator left of the leaf becomes the least key of the leaf.\<close>

lemma wp_raise_separator:
  assumes thin: "thinned ty n s p ks ls X i es nx Y es' all pg j" and full: "\<not> leaf_underflow es' False"
    and sub: "set es' \<subseteq> set es" and ks: "\<forall>k \<in> set ks. key_len k = n" and X: "0 < length X"
    and st: "stands s m ((node_view s)(i \<mapsto> leaf_page i es' nx)) (idx_count s) s1"
  shows "length X \<le> length ks \<and> wp E (idx_write_page ((node_page p ks (map fst ls))
      \<lparr>inner_keys := ks[length X - 1 := hd es'], key_count := length ks mod 256\<rparr>)) (\<lambda>_. erased ty n m all j) s1"
proof -
  note D = thinnedD [OF thin] and T = two_levelD [OF D(1)]
  have ne: "es' \<noteq> []" using full by (auto simp: leaf_underflow_def)
  have inner: "inner_ok ty ks (map fst ls)" using T(2) by simp
  have len: "length ls = Suc (length ks)" using seps_length [of "map key_val ks"] T(2) by fastforce
  then have Xk: "length X \<le> length ks" by (simp add: D(2))
  obtain x X' where X': "X = X' @ [x]" using X by (cases X rule: rev_cases) auto
  define kl k kr where "kl = take (length X') ks" and "k = ks ! length X'" and "kr = drop (Suc (length X')) ks"
  have split: "ks = kl @ k # kr" and lkl: "length kl = length X'"
    using Xk by (simp_all add: kl_def k_def kr_def X' id_take_nth_drop [symmetric])
  let ?ks = "ks[length X - 1 := strip (hd es')]"
  have ks': "?ks = kl @ strip (hd es') # kr" and raw: "ks[length X - 1 := hd es'] = kl @ hd es' # kr"
    by (simp_all add: split X' lkl [symmetric])
  have all_ok: "\<forall>e \<in> set all. good_entry ty e \<and> key_len e = n" and sorted: "sorted_wrt (<) (map key_val all)"
    using D(4) by (simp_all add: keys_of_def)
  have hd_ok: "good_entry ty (hd es')" "key_len (hd es') = n" using all_ok ne by (auto simp: D(3))
  have uni: "\<forall>e \<in> set (kl @ hd es' # kr). key_len e = n" "\<forall>e \<in> set ?ks. key_len e = n" "length (kl @ hd es' # kr) = length ks"
    using ks hd_ok(2) unfolding ks' by (auto simp: split)
  have "inner_payload_bytes (kl @ hd es' # kr) c = inner_payload_bytes ks c" "inner_payload_bytes ?ks c = inner_payload_bytes ks c" for c
    unfolding inner_payload_uniform [OF ks] inner_payload_uniform [OF uni(1)] inner_payload_uniform [OF uni(2)] uni(3)
    by simp_all
  then have fits: "\<not> inner_overflow (kl @ hd es' # kr) (map fst ls)" "\<not> inner_overflow ?ks (map fst ls)"
    using inner by (simp_all add: inner_ok_def inner_overflow_def)
  have good: "\<forall>e \<in> set (kl @ hd es' # kr). good_entry ty e" "inner_ok ty ?ks (map fst ls)"
    using inner hd_ok(1) fits(2) good_entry_strip [OF hd_ok(1)] unfolding ks' inner_ok_def
    by (auto simp: split strip_def)
  note S = thin_seps [OF thin sub]
  have S': "seps (map key_val kl @ key_val k # map key_val kr)
      (map (map key_val \<circ> leaf_es) X' @ map key_val (leaf_es x) # map key_val es' # map (map key_val \<circ> leaf_es) Y)"
    using S by (simp add: split X')
  have least: "\<forall>G \<in> set (map key_val es' # map (map key_val \<circ> leaf_es) Y). \<forall>v \<in> set G. key_val (hd es') \<le> v"
  proof -
    have es': "es' = hd es' # tl es'" using ne by simp
    have "sorted_wrt (<) (map key_val (concat (map leaf_es X) @ es' @ concat (map leaf_es Y)))" using sorted D(3) by simp
    then have "sorted_wrt (<) (map key_val (es' @ concat (map leaf_es Y)))"
      by (simp only: map_append sorted_wrt_append) blast
    then have "sorted_wrt (<) (map key_val (hd es' # tl es' @ concat (map leaf_es Y)))" using es' by (metis append_Cons)
    then have less: "key_val (hd es') < key_val e" if "e \<in> set (tl es') \<union> set (concat (map leaf_es Y))" for e
      using that by auto
    have "set es' = insert (hd es') (set (tl es'))" using ne by (metis es' list.simps(15))
    then show ?thesis using less by (auto intro!: less_imp_le)
  qed
  have above: "key_val k \<le> key_val (hd es')"
  proof -
    have len': "length (map key_val (kl @ [k])) = length (map (map key_val \<circ> leaf_es) X)" using lkl by (simp add: X')
    have "seps (map key_val (kl @ [k]) @ map key_val kr)
        (map (map key_val \<circ> leaf_es) X @ map key_val es' # map (map key_val \<circ> leaf_es) Y)" using S by (simp add: split)
    from iffD1 [OF seps_append [OF len'] this] show ?thesis using ne by simp
  qed
  have "seps (map key_val ?ks) (map (map key_val \<circ> leaf_es) (X @ (i, es', nx) # Y))"
    using seps_raise [OF _ S' above least] lkl unfolding ks' by (simp add: X')
  from thin_tree_ok [OF thin ne sub good(2) this] have ok: "tree_ok ty (thin_tree p ?ks X i es' nx Y)" .
  have "wp E (idx_write_page ((node_page p ks (map fst ls))\<lparr>inner_keys := ks[length X - 1 := hd es'],
      key_count := length ks mod 256\<rparr>)) (\<lambda>_. erased ty n m all j) s1"
  proof (rule wp_write_inner [where ty = ty, OF standsD(1) [OF st]])
    let ?p = "(node_page p ks (map fst ls))\<lparr>inner_keys := ks[length X - 1 := hd es'], key_count := length ks mod 256\<rparr>"
    show "\<forall>c \<in> set (children ?p). c < 2 ^ 32"
      using T(7) nodes.count_bound [OF index_invD(1) [OF T(1)]] by fastforce
    fix s2
    assume w: "wrote s1 (page_id ?p) (node_page (page_id ?p) (map strip (inner_keys ?p)) (children ?p)) s2"
    have "map strip (ks[length X - 1 := hd es']) = ?ks"
      using strip_keys [OF inner] by (simp add: map_update)
    then have st2: "stands s m ((node_view s)(i \<mapsto> leaf_page i es' nx, p \<mapsto> node_page p ?ks (map fst ls))) (idx_count s) s2"
      using w st by (simp add: wrote_def stands_def)
    show "erased ty n m all j s2"
      using thin_holds [OF thin ok st2] thin_spares [OF thin uni(2) standsD(3) [OF st2] full] unfolding erased_def by blast
  qed (use raw good fits inner len uni T(7) standsD(3) [OF st] in \<open>simp_all add: inner_ok_def\<close>)
  then show ?thesis using Xk by blast
qed

lemma wp_write_thin:
  assumes thin: "thinned ty n s p ks ls X i es nx Y es' all pg j" and full: "\<not> leaf_underflow es' False"
    and sub: "set es' \<subseteq> set es" and ks: "\<forall>k \<in> set ks. key_len k = n" and st: "stands s m (node_view s) (idx_count s) s1"
  shows "wp E (andthen (idx_write_page pg) (when_op b (propagate_subtree_min_change i [p, i])))
           (\<lambda>_. erased ty n m all j) s1"
proof -
  note D = thinnedD [OF thin] and T = two_levelD [OF D(1)]
  have ne: "es' \<noteq> []" using full by (auto simp: leaf_underflow_def)
  have mem: "(i, es, nx) \<in> set ls" by (simp add: D(2))
  note N = next_small [OF D(1) mem]
  have inner: "inner_ok ty ks (map fst ls)" using T(2) by simp
  note S = thin_seps [OF thin sub]
  have part: "part_of n es' all" using part_between [OF D(3) ne thinned_fits [OF thin]] .
  let ?t = "thin_tree p ks X i es' nx Y" and ?Q = "\<lambda>_. erased ty n m all j"
  let ?v = "(node_view s)(i \<mapsto> leaf_page i es' nx)"
  have ok: "tree_ok ty ?t" by (rule thin_tree_ok [OF thin ne sub inner S])
  have vp: "?v = (node_view s)(i \<mapsto> leaf_page i es' nx, p \<mapsto> node_page p ks (map fst ls))"
    using T(14) N(3) by auto
  have same: "holds_tree ty m ?t s2" "?Q () s2" if "stands s m ?v (idx_count s) s2" for s2
  proof -
    show "holds_tree ty m ?t s2" using thin_holds [OF thin ok] that vp by simp
    then show "?Q () s2" using thin_spares [OF thin ks standsD(3) [OF that] full] unfolding erased_def by blast
  qed
  have sub_tree: "subtree ty s2 ?t" "subtree ty s2 (BLeaf i es' nx)" if "stands s m ?v (idx_count s) s2" for s2
  proof -
    have h: "rep (node_view s2) ?t" using same(1) [OF that] by (simp add: holds_tree_def)
    have "\<not> (\<exists>i. ?t = BLeaf i [] 0)" by (simp add: thin_tree_def)
    then show "subtree ty s2 ?t" using ok h by (auto simp: subtree_def tree_ok_def)
    then show "subtree ty s2 (BLeaf i es' nx)" by (auto simp: subtree_def thin_tree_def)
  qed
  have pos: "index_of i (map fst ls) = Some (length X)"
    using T(5) by (simp add: D(2) index_of_middle)
  have loop: "wp E (propagate_loop 1 [p, i] i (hd es')) ?Q s2" if st2: "stands s m ?v (idx_count s) s2" for s2
  proof -
    have vp2: "?v p = Some (node_page p ks (map fst ls))" using T(14) N(3) by simp
    have below: "wp E (bnd (subtree_min_entry p) (propagate_loop 0 [p, i] p)) ?Q s3"
      if st3: "stands s m ?v (idx_count s) s3" for s3
    proof -
      have "wp E (subtree_min_entry (bid ?t)) ?Q s3"
        by (rule wp_subtree_min [OF standsD(1) [OF st3] sub_tree(1) [OF st3]])
          (use same(2) stands_same [OF st3] in simp)
      then show ?thesis by (simp add: thin_tree_def)
    qed
    have raise: "length X \<le> length ks \<and> wp E (idx_write_page ((node_page p ks (map fst ls))
        \<lparr>inner_keys := ks[length X - 1 := hd es'], key_count := length ks mod 256\<rparr>)) ?Q s3"
      if st3: "stands s m ?v (idx_count s) s3" and X: "0 < length X" for s3
      using wp_raise_separator [OF thin full sub ks X st3] .
    have step: "propagate_loop 1 [p, i] i (hd es') = bnd (idx_read_page p) (\<lambda>parent.
        if node_type parent = Leaf then throw (Logic_error ''Leaf cannot be parent'')
        else case index_of i (children parent) of None \<Rightarrow> ret ()
        | Some c \<Rightarrow> if 0 < c then
            (if length (inner_keys parent) < c then throw Undefined_behaviour
             else idx_write_page (parent\<lparr>inner_keys := (inner_keys parent)[c - 1 := hd es'],
                                         key_count := length (inner_keys parent) mod 256\<rparr>))
          else bnd (subtree_min_entry (page_id parent)) (propagate_loop 0 [p, i] (page_id parent)))"
      unfolding One_nat_def propagate_loop.simps nth_Cons_0 ..
    show ?thesis
      unfolding step wp_bnd [of _ "idx_read_page _"]
    proof (rule wp_get_node [OF st2 vp2])
      fix s3 assume "stands s m ?v (idx_count s) s3"
      note below [OF this] and raise [OF this]
      then show "wp E (if node_type (node_page p ks (map fst ls)) = Leaf then throw (Logic_error ''Leaf cannot be parent'')
          else case index_of i (children (node_page p ks (map fst ls))) of None \<Rightarrow> ret ()
          | Some c \<Rightarrow> if 0 < c then
              (if length (inner_keys (node_page p ks (map fst ls))) < c then throw Undefined_behaviour
               else idx_write_page ((node_page p ks (map fst ls))
                 \<lparr>inner_keys := (inner_keys (node_page p ks (map fst ls)))[c - 1 := hd es'],
                  key_count := length (inner_keys (node_page p ks (map fst ls))) mod 256\<rparr>))
            else bnd (subtree_min_entry (page_id (node_page p ks (map fst ls))))
                   (propagate_loop 0 [p, i] (page_id (node_page p ks (map fst ls))))) ?Q s3"
        unfolding page_sel pos option.case by (cases "0 < length X") (simp_all add: not_less)
    qed
  qed
  have up: "wp E (propagate_subtree_min_change i [p, i]) ?Q s2" if st2: "stands s m ?v (idx_count s) s2" for s2
  proof -
    have "wp E (subtree_min_entry (bid (BLeaf i es' nx))) (\<lambda>e. wp E (propagate_loop 1 [p, i] i e) ?Q) s2"
      by (rule wp_subtree_min [OF standsD(1) [OF st2] sub_tree(2) [OF st2]])
        (use loop stands_same [OF st2] in \<open>simp del: propagate_loop.simps\<close>)
    moreover have "propagate_subtree_min_change i [p, i] = bnd (subtree_min_entry i) (propagate_loop 1 [p, i] i)"
      by (simp add: propagate_subtree_min_change_def del: propagate_loop.simps)
    ultimately show ?thesis by (simp del: propagate_loop.simps)
  qed
  have "wp E (idx_write_page pg) (\<lambda>_. wp E (when_op b (propagate_subtree_min_change i [p, i])) ?Q) s1"
    by (rule wp_put_leaf [OF st D(4)]) (use D N part up same(2) in auto)
  then show ?thesis by (simp only: wp_andthen)
qed

section \<open>The whole erasure\<close>

text \<open>The superblock completes it.\<close>

lemma wp_close_erase:
  assumes er: "erased ty n (length es) es j s"
    and Q: "\<And>t s'. index_inv ty s' t \<Longrightarrow> flat t = es \<Longrightarrow> spares n s' t j \<Longrightarrow> superblock_current s' \<Longrightarrow> Q () s'"
  shows "wp E write_superblock Q s"
proof -
  obtain t where t: "holds_tree ty (length es) t s" "flat t = es" "spares n s t j"
    using er by (auto simp: erased_def)
  show ?thesis
  proof (rule wp_write_superblock)
    show "idx_inv s" "0 < idx_count s" using t(1) by (simp_all add: holds_tree_def)
    fix s'
    assume s': "idx_inv s'" "node_view s' = (node_view s)(0 := None)" "idx_count s' = idx_count s"
      "idx_frame s' = idx_frame s" "superblock_current s'"
    have "rep (node_view s') t \<longleftrightarrow> rep (node_view s) t"
      using t(1) s'(2) by (intro rep_cong) (auto simp: holds_tree_def tree_ok_def)
    then have "index_inv ty s' t" using t s' by (simp add: index_inv_holds holds_tree_def)
    moreover have "spares n s' t j" using t(3) s'(3) by (simp add: spares_def)
    ultimately show "Q () s'" using Q t(2) s'(5) by blast
  qed
qed

text \<open>A root that is a leaf, and may become empty.\<close>

lemma wp_erase_root_leaf:
  assumes inv: "index_inv ty s (BLeaf i (A @ e # B) nx)" and sp: "spares n s (BLeaf i (A @ e # B) nx) (Suc j)"
    and st: "stands s (length (A @ B)) (node_view s) (idx_count s) s1"
    and pg: "node_type pg = Leaf" "page_id pg = i" "leaf_entries pg = A @ B" "next_leaf pg = nx" "children pg = []"
  shows "wp E (idx_write_page pg) (\<lambda>_ s'. erased ty n (length (A @ B)) (A @ B) j s' \<and>
           root_page s' = i \<and> first_leaf_page s' = i) s1"
proof -
  note I = index_invD [OF inv]
  have "leaves (BLeaf i (A @ e # B) nx) = [] @ (i, A @ e # B, nx) # []" by simp
  note F = leaf_facts [OF inv this]
  have nx: "nx = 0" using F(2) by simp
  have wf: "leaf_ok ty (A @ e # B)" using I(4) by (auto simp: tree_ok_def)
  have good: "\<forall>x \<in> set (A @ B). good_entry ty x" using F(4) by simp
  have sorted: "sorted_wrt (<) (map key_val (A @ B))" using F(5) by (simp add: sorted_wrt_append)
  have fits: "\<not> leaf_overflow (A @ B)"
    using wf by (simp add: leaf_ok_def leaf_overflow_def leaf_payload_bytes_eq)
  have i: "i < idx_count s" "i \<noteq> 0" using nodes.view_bound [OF I(1) F(1)] F(8) by simp_all
  show ?thesis
  proof (rule wp_write_leaf [where ty = ty, OF standsD(1) [OF st]])
    fix s2
    assume "wrote s1 (page_id pg) (leaf_page (page_id pg) (leaf_entries pg) (next_leaf pg)) s2"
    then have s2: "idx_inv s2" "node_view s2 i = Some (leaf_page i (A @ B) 0)" "idx_count s2 = idx_count s"
      "idx_frame s2 = (root_page s, first_leaf_page s, length (A @ B))"
      using st pg nx by (simp_all add: wrote_def stands_def)
    have ok: "tree_ok ty (BLeaf i (A @ B) 0)"
      using good sorted fits i(2) by (cases "A @ B = []") (auto simp: tree_ok_def leaf_ok_def vals_def)
    have "holds_tree ty (length (A @ B)) (BLeaf i (A @ B) 0) s2"
      using s2 ok I(2,5,6) by (simp add: holds_tree_def)
    moreover have "spares n s2 (BLeaf i (A @ B) 0) j"
      using sp s2(3) root_room_less [of n i "A @ e # B" nx "Suc j" "A @ B" j i 0] by (simp add: spares_def)
    ultimately have "erased ty n (length (A @ B)) (A @ B) j s2" unfolding erased_def by auto
    then show "erased ty n (length (A @ B)) (A @ B) j s2 \<and> root_page s2 = i \<and> first_leaf_page s2 = i"
      using s2(4) I(5,6) by (simp add: idx_frame_def)
  qed (use good sorted fits pg nx i st in \<open>simp_all add: stands_def\<close>)
qed

text \<open>The leaf the key is in, under the root.\<close>

lemma thinned_site:
  assumes inv: "index_inv ty s t" and sp: "spares n s t (Suc j)" and t: "t = plug c (BLeaf i (A @ e # B) nx)"
    and c: "c \<noteq> []"
  obtains p ks X Y where "map fid c = [p]" "left_flat c = concat (map leaf_es X)" "right_flat c = concat (map leaf_es Y)"
    "\<forall>k \<in> set ks. key_len k = n" "root_page s = p"
    "\<And>pg. node_type pg = Leaf \<Longrightarrow> page_id pg = i \<Longrightarrow> leaf_entries pg = A @ B \<Longrightarrow> next_leaf pg = nx \<Longrightarrow>
       children pg = [] \<Longrightarrow> thinned ty n s p ks (X @ (i, A @ e # B, nx) # Y) X i (A @ e # B) nx Y (A @ B)
         (left_flat c @ (A @ B) @ right_flat c) pg j"
proof -
  obtain p kl lts kr rts d where cd: "c = Frame p kl lts kr rts # d" using c by (cases c) (metis frame.exhaust, metis frame.exhaust)
  have node: "t = BNode p (kl @ kr) (lts @ plug d (BLeaf i (A @ e # B) nx) # rts)" by (simp add: t cd)
  have S: "bal 1 t" "2 \<le> length (lts @ plug d (BLeaf i (A @ e # B) nx) # rts)" "\<forall>k \<in> set (kl @ kr). key_len k = n"
    "root_room n t (Suc j)" "\<forall>x \<in> set (flat t). key_len x = n" "idx_count s + Suc j < 2 ^ 32"
    using sp by (simp_all add: spares_def node)
  have "bal 0 (plug d (BLeaf i (A @ e # B) nx))" "\<forall>u \<in> set lts. bal 0 u" "\<forall>u \<in> set rts. bal 0 u"
    using S(1) by (simp_all add: node)
  then have d: "d = []" and "\<exists>X. lts = map mkleaf X" and "\<exists>Y. rts = map mkleaf Y"
    using bal_leaves by (auto simp: bal_plug)
  then obtain X Y where XY: "lts = map mkleaf X" "rts = map mkleaf Y" by blast
  let ?ls = "X @ (i, A @ e # B, nx) # Y"
  have tree: "t = BNode p (kl @ kr) (map mkleaf ?ls)" by (simp add: node d XY)
  have two: "two_level ty n s p (kl @ kr) ?ls"
    using inv S(5) unfolding two_level_def tree flat.simps mkleaf_lists by blast
  note T = two_levelD [OF two]
  have sides: "left_flat c = concat (map leaf_es X)" "right_flat c = concat (map leaf_es Y)"
    by (simp_all add: cd d XY)
  have keys: "keys_of ty n (concat (map leaf_es X) @ (A @ B) @ concat (map leaf_es Y))"
    using T(10) by (auto simp: keys_of_def sorted_wrt_append)
  show thesis
  proof (rule that [OF _ sides S(3)])
    show "map fid c = [p]" by (simp add: cd d)
    show "root_page s = p" by (rule T(11))
    fix pg :: ParsedPage
    assume "node_type pg = Leaf" "page_id pg = i" "leaf_entries pg = A @ B" "next_leaf pg = nx" "children pg = []"
    then show "thinned ty n s p (kl @ kr) ?ls X i (A @ e # B) nx Y (A @ B) (left_flat c @ (A @ B) @ right_flat c) pg j"
      using two keys S(2,6) S(4) [unfolded tree root_room_node] unfolding thinned_def sides by (simp add: d XY)
  qed
qed

text \<open>What happens once the entry is found: the leaf in hand is one entry short.\<close>

definition settle :: "ParsedPage \<Rightarrow> nat list \<Rightarrow> nat \<Rightarrow> (disk_index, unit) op" where
  "settle leaf path slot =
     bnd (gets ix_size) (\<lambda>n.
     if n = 0 then
       andthen (idx_write_page (leaf\<lparr>leaf_entries := []\<rparr>))
         (modify (\<lambda>s. s\<lparr>root_page := page_id leaf, first_leaf_page := page_id leaf\<rparr>))
     else bnd (gets root_page) (\<lambda>r.
       if page_id leaf = r \<or> \<not> leaf_underflow (leaf_entries leaf) False then
         andthen (idx_write_page leaf)
           (when_op (slot = 0 \<and> leaf_entries leaf \<noteq> []) (propagate_subtree_min_change (page_id leaf) path))
       else fix_leaf_underflow leaf path))"

lemma set_root_triv:
  "erased ty n m es j s \<Longrightarrow> root_page s = i \<Longrightarrow> first_leaf_page s = i \<Longrightarrow>
     erased ty n m es j (s\<lparr>root_page := i, first_leaf_page := i\<rparr>)"
  by (metis disk_index.surjective disk_index.update_convs(2,3))

lemma wp_settle:
  assumes inv: "index_inv ty s t" and sp: "spares n s t (Suc j)" and t: "t = plug c (BLeaf i (A @ e # B) nx)"
    and st: "stands s (length (flat t) - 1) (node_view s) (idx_count s) s1"
    and pg: "node_type pg = Leaf" "page_id pg = i" "leaf_entries pg = A @ B" "next_leaf pg = nx" "children pg = []"
  shows "wp E (settle pg (map fid c @ [i]) slot)
           (\<lambda>_. erased ty n (length (flat t) - 1) (left_flat c @ (A @ B) @ right_flat c) j) s1"
proof -
  let ?all = "left_flat c @ (A @ B) @ right_flat c"
  have size: "length (flat t) - 1 = length ?all" by (simp add: t flat_plug)
  have frame: "ix_size s1 = length ?all" "root_page s1 = root_page s"
    using st size by (simp_all add: stands_def idx_frame_def)
  show ?thesis
  proof (cases "c = []")
    case True
    have t': "t = BLeaf i (A @ e # B) nx" by (simp add: t True)
    have root: "root_page s1 = i" using frame(2) index_invD(5) [OF inv] t' by simp
    have st': "stands s (length (A @ B)) (node_view s) (idx_count s) s1" using st size True by simp
    have put: "wp E (idx_write_page p) (\<lambda>_ s'. erased ty n (length (A @ B)) (A @ B) j s' \<and>
        root_page s' = i \<and> first_leaf_page s' = i) s1"
      if "node_type p = Leaf" "page_id p = i" "leaf_entries p = A @ B" "next_leaf p = nx" "children p = []" for p
      using wp_erase_root_leaf [OF inv [unfolded t'] sp [unfolded t'] st' that] .
    show ?thesis
    proof (cases "A @ B = []")
      case True
      have "wp E (idx_write_page (pg\<lparr>leaf_entries := []\<rparr>))
          (\<lambda>_ s'. erased ty n 0 [] j (s'\<lparr>root_page := i, first_leaf_page := i\<rparr>)) s1"
        by (rule wp_mono [OF put]) (use True pg in \<open>auto elim!: set_root_triv\<close>)
      then show ?thesis using True \<open>c = []\<close> frame pg unfolding settle_def size by simp
    next
      case False
      have "wp E (idx_write_page pg) (\<lambda>_. erased ty n (length (A @ B)) (A @ B) j) s1"
        by (rule wp_mono [OF put]) (use pg in auto)
      moreover have "when_op b (propagate_subtree_min_change i [i]) = ret ()" for b
        by (simp add: when_op_def propagate_root)
      moreover have "ix_size s1 \<noteq> 0" "root_page s1 = i" using False frame(1) root \<open>c = []\<close> by simp_all
      ultimately have "wp E (settle pg [i] slot) (\<lambda>_. erased ty n (length (A @ B)) (A @ B) j) s1"
        unfolding settle_def wp_bnd wp_gets pg(2) by (simp only: simp_thms if_True if_False wp_bnd wp_gets wp_andthen wp_ret)
      then show ?thesis unfolding size using \<open>c = []\<close> by simp
    qed
  next
    case False
    obtain p ks X Y where site: "map fid c = [p]" "left_flat c = concat (map leaf_es X)" "right_flat c = concat (map leaf_es Y)"
      "\<forall>k \<in> set ks. key_len k = n" "root_page s = p"
      "\<And>pg. node_type pg = Leaf \<Longrightarrow> page_id pg = i \<Longrightarrow> leaf_entries pg = A @ B \<Longrightarrow> next_leaf pg = nx \<Longrightarrow>
         children pg = [] \<Longrightarrow> thinned ty n s p ks (X @ (i, A @ e # B, nx) # Y) X i (A @ e # B) nx Y (A @ B) ?all pg j"
      by (rule thinned_site [OF inv sp t False], rule that, assumption+)
    have thin: "thinned ty n s p ks (X @ (i, A @ e # B, nx) # Y) X i (A @ e # B) nx Y (A @ B) ?all pg j"
      by (rule site(6) [OF pg])
    note D = thinnedD [OF thin]
    have st': "stands s (length ?all) (node_view s) (idx_count s) s1" using st size by simp
    have other: "i \<noteq> p" using next_small(3) [OF D(1), of i "A @ e # B" nx] by simp
    have many: "length ?all \<noteq> 0"
    proof -
      obtain l where l: "l \<in> set X \<union> set Y" using D(11) by (cases X; cases Y) auto
      obtain a es2 nx2 where l': "l = (a, es2, nx2)" by (cases l)
      then have "(a, es2, nx2) \<in> set (X @ (i, A @ e # B, nx) # Y)" using l by auto
      from next_small(5) [OF D(1) this] have "leaf_es l \<noteq> []" by (simp add: leaf_ok_def l')
      then show ?thesis using l by (auto simp: site(2,3))
    qed
    have path: "map fid c @ [i] = [p, i]" using site(1) by simp
    have nz: "ix_size s1 \<noteq> 0" using many frame(1) by simp
    show ?thesis
    proof (cases "leaf_underflow (A @ B) False")
      case True
      have "wp E (fix_leaf_underflow pg [p, i]) (\<lambda>_. erased ty n (length ?all) ?all j) s1"
        by (rule wp_fix_leaf [OF thin True st'])
      then show ?thesis using nz other True frame(2) site(5) pg unfolding settle_def path size by simp
    next
      case False
      have "wp E (andthen (idx_write_page pg) (when_op (slot = 0 \<and> leaf_entries pg \<noteq> [])
          (propagate_subtree_min_change i [p, i]))) (\<lambda>_. erased ty n (length ?all) ?all j) s1"
        by (rule wp_write_thin [OF thin False _ site(4) st']) auto
      then show ?thesis using nz False frame(2) pg unfolding settle_def path size by simp
    qed
  qed
qed

lemma andthen_assoc:
  "andthen (andthen l m) n = andthen l (andthen m n)" "andthen (bnd q f) n = bnd q (\<lambda>x. andthen (f x) n)"
  "andthen (if b then m else m') n = (if b then andthen m n else andthen m' n)"
  by (simp_all add: andthen_def bnd_assoc)

lemma idx_erase_settle:
  "idx_erase k =
     bnd (gets ix_size) (\<lambda>n. if n = 0 then ret False
     else bnd (find_leaf k) (\<lambda>(leaf, path).
       bnd (of_sum (lower_bound_slot leaf k)) (\<lambda>slot.
       if length (leaf_entries leaf) \<le> slot then ret False
       else bnd (of_sum (make_entry k 0)) (\<lambda>probe.
         bnd (of_sum (keys_equal_bytes (leaf_entries leaf ! slot) probe)) (\<lambda>same.
         if \<not> same then ret False
         else andthen (modify (\<lambda>s. s\<lparr>ix_size := ix_size s - 1\<rparr>))
           (andthen (settle (leaf\<lparr>leaf_entries := erase_at slot (leaf_entries leaf)\<rparr>) path slot)
             (andthen write_superblock (ret True))))))))"
  unfolding idx_erase_def settle_def andthen_assoc Let_def by simp

lemma contents_shrunk:
  assumes sorted: "sorted_wrt (<) (map key_val (P @ e # S))" and k: "key_val e = k"
  shows "map (\<lambda>e. (key_val e, rid e)) (P @ S) =
    filter (\<lambda>(v, _). v \<noteq> k) (map (\<lambda>e. (key_val e, rid e)) (P @ e # S))"
proof -
  have "x \<noteq> k" if "x \<in> key_val ` set (P @ S)" for x
    using sorted that k by (auto simp: sorted_wrt_append)
  then show ?thesis using k by (auto simp: filter_map comp_def intro!: filter_True [symmetric])
qed

lemma wp_erase:
  assumes inv: "index_inv ty s t" and k: "typed ty k" and size: "encoded_value_size k \<le> kMaxIndexKeyBytes"
    and sp: "spares n s t (Suc j)"
    and gone: "\<And>t' s'. k \<in> set (vals t) \<Longrightarrow> index_inv ty s' t' \<Longrightarrow>
        contents t' = filter (\<lambda>(v, _). v \<noteq> k) (contents t) \<Longrightarrow> spares n s' t' j \<Longrightarrow>
        superblock_current s' \<Longrightarrow> Q True s'"
    and absent: "\<And>s'. k \<notin> set (vals t) \<Longrightarrow> same_index s s' \<Longrightarrow> Q False s'"
  shows "wp E (idx_erase k) Q s"
proof (cases "flat t = []")
  case True
  then have "ix_size s = 0" using index_invD(7) [OF inv] by simp
  moreover have "Q False s" using True absent same_index_refl [OF index_invD(1) [OF inv]] by (simp add: vals_def)
  ultimately show ?thesis by (simp add: idx_erase_def)
next
  case False
  note I = index_invD [OF inv]
  obtain probe where probe: "make_entry k 0 = Inr probe" "good_entry ty probe" "key_val probe = k"
    using make_entry_good [OF k size, of 0] by auto
  let ?found = "\<lambda>leaf path slot. andthen (modify (\<lambda>s. s\<lparr>ix_size := ix_size s - 1\<rparr>))
      (andthen (settle (leaf\<lparr>leaf_entries := erase_at slot (leaf_entries leaf)\<rparr>) path slot)
        (andthen write_superblock (ret True)))"
  have found: "wp E (?found (leaf_page i es nx) (map fid c @ [i]) a) Q s1"
    if t: "t = plug c (BLeaf i es nx)" and s1: "same_index s s1" and a: "a < length es" "key_val (es ! a) = k"
    for c i es nx a s1
  proof -
    define A e B where "A = take a es" and "e = es ! a" and "B = drop (Suc a) es"
    have es: "es = A @ e # B" using a(1) by (simp add: A_def e_def B_def id_take_nth_drop [symmetric])
    have cut: "erase_at a es = A @ B" by (simp add: erase_at_def A_def B_def)
    let ?s = "s1\<lparr>ix_size := ix_size s1 - 1\<rparr>" and ?all = "left_flat c @ (A @ B) @ right_flat c"
    have view: "node_view ?s = node_view s1" by (rule ext) (simp add: node_view_def)
    have frame: "root_page s1 = root_page s" "first_leaf_page s1 = first_leaf_page s" "ix_size s1 = length (flat t)"
      using s1 I(7) by (simp_all add: same_index_def idx_frame_def)
    have st: "stands s (length (flat t) - 1) (node_view s) (idx_count s) ?s"
      using s1 view frame by (simp add: stands_def same_index_def idx_inv_def idx_frame_def)
    have flat: "flat t = (left_flat c @ A) @ e # (B @ right_flat c)" by (simp add: t es flat_plug)
    have size': "length (flat t) - 1 = length ?all" by (simp add: flat)
    have "sorted_wrt (<) (vals t)" using I(4) by (simp add: tree_ok_def)
    then have "sorted_wrt (<) (map key_val ((left_flat c @ A) @ e # (B @ right_flat c)))" by (simp add: vals_def flat)
    from contents_shrunk [OF this] have contents: "map (\<lambda>e. (key_val e, rid e)) ?all =
        filter (\<lambda>(v, _). v \<noteq> k) (contents t)"
      using a(2) by (simp add: contents_def flat e_def)
    have kin: "k \<in> set (vals t)" using a(2) by (simp add: vals_def flat e_def)
    have "wp E (settle ((leaf_page i es nx)\<lparr>leaf_entries := A @ B\<rparr>) (map fid c @ [i]) a)
        (\<lambda>_. erased ty n (length (flat t) - 1) ?all j) ?s"
      by (rule wp_settle [OF inv sp t [unfolded es] st]) simp_all
    then have "wp E (settle ((leaf_page i es nx)\<lparr>leaf_entries := A @ B\<rparr>) (map fid c @ [i]) a)
        (\<lambda>_ s'. wp E write_superblock (\<lambda>_. Q True) s') ?s"
    proof (rule wp_mono)
      fix s' assume "erased ty n (length (flat t) - 1) ?all j s'"
      then have "erased ty n (length ?all) ?all j s'" by (simp only: size')
      then show "wp E write_superblock (\<lambda>_. Q True) s'"
        by (rule wp_close_erase) (use gone [OF kin] contents in \<open>simp add: contents_def\<close>)
    qed
    then show ?thesis by (simp add: cut)
  qed
  let ?rest = "\<lambda>(leaf, path). bnd (of_sum (lower_bound_slot leaf k)) (\<lambda>slot.
      if length (leaf_entries leaf) \<le> slot then ret False
      else bnd (of_sum (make_entry k 0)) (\<lambda>probe.
        bnd (of_sum (keys_equal_bytes (leaf_entries leaf ! slot) probe)) (\<lambda>same.
        if \<not> same then ret False else ?found leaf path slot)))"
  have "wp E (find_leaf k) (\<lambda>lp. wp E (?rest lp) Q) s"
  proof (rule wp_find_leaf [OF inv k])
    fix c i es nx s1
    assume t: "t = plug c (BLeaf i es nx)" and c: "cut_ok c" "hole_ok c k" and s1: "same_index s s1"
    have at: "leaves t = left_leaves c @ (i, es, nx) # right_leaves c" by (simp add: t leaves_plug)
    note F = leaf_facts [OF inv at]
    define a where "a = length (takeWhile ((\<lambda>v. v < k) \<circ> key_val) es)"
    have slot: "lower_bound_slot (leaf_page i es nx) k = Inr a"
      using bound_slots(1) [OF F(4,5) k F(6)] by (simp add: a_def)
    have iff: "k \<in> set (vals t) \<longleftrightarrow> a < length es \<and> key_val (es ! a) = k"
      using key_in_leaf [OF inv t c] takeWhile_slot [OF F(5) a_def] by simp
    have same: "keys_equal_bytes (es ! a) probe = Inr (key_val (es ! a) = k)" if "a < length es"
      using keys_equal_good [of ty "es ! a" probe] F(4) that probe(2,3) by simp
    show "wp E (?rest (leaf_page i es nx, map fid c @ [i])) Q s1"
    proof (cases "k \<in> set (vals t)")
      case True
      then have a: "a < length es" "key_val (es ! a) = k" using iff by simp_all
      have "wp E (?found (leaf_page i es nx) (map fid c @ [i]) a) Q s1" by (rule found [OF t s1 a])
      then show ?thesis using a same slot probe(1) by simp
    next
      case False
      then have "Q False s1" using absent s1 by simp
      then show ?thesis using False iff same slot probe(1) by simp
    qed
  qed
  then show ?thesis using I(7) False unfolding idx_erase_settle by simp
qed

end
