(* ===== verification/Index_Erasable.thy ===== *)
theory Index_Erasable
  imports Index_Contract IndexErase_Correct
begin

text \<open>
  The disk index as a provider of \<open>erasable_index\<close>: erasure, and the means for it that
  insertions, searches and range scans leave.
\<close>

definition index_spare :: "DataType \<Rightarrow> nat \<Rightarrow> disk_index \<Rightarrow> nat \<Rightarrow> bool" where
  "index_spare ty n s j \<longleftrightarrow> n \<le> kMaxIndexKeyBytes \<and> (\<exists>t. index_inv ty s t \<and> spares n s t j)"

lemma index_spareD:
  assumes "index_spare ty n s j" and "index_inv ty s t"
  shows "n \<le> kMaxIndexKeyBytes" "spares n s t j"
  using assms index_inv_unique unfolding index_spare_def by blast+

lemma index_spare_same: "same_index s s' \<Longrightarrow> index_spare ty n s j \<Longrightarrow> index_spare ty n s' j"
  using same_index_inv spares_count [of s' s] unfolding index_spare_def same_index_def by metis

lemma key_of_contents:
  assumes inv: "index_inv ty s t" and k: "k \<in> fst ` set (contents t)"
  shows "typed ty k" "encoded_value_size k \<le> kMaxIndexKeyBytes" "k \<in> set (vals t)"
proof -
  show v: "k \<in> set (vals t)" using k by (metis contents_keys set_map)
  then obtain e where "e \<in> set (flat t)" "key_val e = k" by (auto simp: vals_def)
  then show "typed ty k" "encoded_value_size k \<le> kMaxIndexKeyBytes"
    using wf_good [OF inv] by (auto simp: good_entry_def)
qed

lemma erase_ok:
  assumes inv: "index_inv ty s t" and k: "typed ty k" "encoded_value_size k \<le> kMaxIndexKeyBytes"
    and sp: "spares n s t (Suc j)"
  shows "\<exists>s' t'. idx_erase k s = (Inr (k \<in> set (vals t)), s') \<and> index_inv ty s' t' \<and>
           contents t' = without_key k (contents t) \<and> spares n s' t' j \<and>
           (k \<in> set (vals t) \<longrightarrow> superblock_current s')"
proof -
  have "wp never (idx_erase k) (\<lambda>b s'. b = (k \<in> set (vals t)) \<and> (\<exists>t'. index_inv ty s' t' \<and>
      contents t' = without_key k (contents t) \<and> spares n s' t' j \<and>
      (k \<in> set (vals t) \<longrightarrow> superblock_current s'))) s"
  proof (rule wp_erase [OF inv k sp])
    fix s' assume absent: "k \<notin> set (vals t)" and same: "same_index s s'"
    have "without_key k (contents t) = contents t"
      using absent by (auto simp: without_key_def contents_def vals_def intro!: filter_True)
    moreover have "spares n s' t j"
      using spares_mono [OF sp, of j] spares_count [of s' s] same by (simp add: same_index_def)
    ultimately show "False = (k \<in> set (vals t)) \<and> (\<exists>t'. index_inv ty s' t' \<and>
        contents t' = without_key k (contents t) \<and> spares n s' t' j \<and> (k \<in> set (vals t) \<longrightarrow> superblock_current s'))"
      using absent same_index_inv [OF inv same] by auto
  qed (auto simp: without_key_def)
  then show ?thesis by (auto simp: wp_never_iff)
qed

text \<open>What an index can spare is enough to take a key of the same size.\<close>

lemma spares_takes:
  assumes "spares n s t (Suc (Suc j))" and "encoded_value_size k = n"
  shows "takes_key s t k"
proof -
  have "leaf_room n t"
  proof (cases t)
    case (BNode i ks ts)
    have b: "bal 1 t" and room: "root_room n t (Suc (Suc j))"
      using assms(1) BNode unfolding spares_def by simp_all
    then obtain ls where ls: "ts = map mkleaf ls" using bal_leaves [of ts] BNode by auto
    have "node_room n (Suc (length ls))"
      by (rule root_room_leaves [OF room]) (simp_all add: BNode ls comp_def)
    moreover have "leaf_room n u" if "u \<in> set ts" for u using that ls by auto
    ultimately show ?thesis using BNode ls by simp
  qed simp
  then show ?thesis using assms by (simp add: takes_key_def spares_def)
qed

interpretation disk_erasing: erasable_index idx_lookup idx_insert index_collect_range index_holds index_room
    idx_erase index_spare
proof unfold_locales
  fix ty s kvs n j k
  assume h: "index_holds ty s kvs" and sp: "index_spare ty n s (Suc j)" and k: "k \<in> fst ` set kvs"
  obtain t where t: "index_inv ty s t" "contents t = kvs" using h unfolding index_holds_def by blast
  note K = key_of_contents [OF t(1), of k, unfolded t(2), OF k] and S = index_spareD [OF sp t(1)]
  show "\<exists>s'. idx_erase k s = (Inr True, s') \<and> index_holds ty s' (without_key k kvs) \<and> index_spare ty n s' j"
    using erase_ok [OF t(1) K(1,2) S(2)] K(3) S(1) t(2) unfolding index_holds_def index_spare_def by auto
next
  fix ty s kvs k n j
  assume h: "index_holds ty s kvs" "typed ty k" and n: "encoded_value_size k = n" and sp: "index_spare ty n s (Suc j)"
    and k: "k \<notin> fst ` set kvs"
  obtain t where t: "index_inv ty s t" "contents t = kvs" using h(1) unfolding index_holds_def by blast
  note S = index_spareD [OF sp t(1)]
  have absent: "k \<notin> set (vals t)" using k t(2) by (metis contents_keys set_map)
  have "without_key k kvs = kvs" using k by (force simp: without_key_def intro!: filter_True)
  then show "\<exists>s'. idx_erase k s = (Inr False, s') \<and> index_holds ty s' kvs \<and> index_spare ty n s' j"
    using erase_ok [OF t(1) h(2) _ S(2)] S(1) n absent t(2) unfolding index_holds_def index_spare_def by auto
next
  fix ty s kvs n j k
  assume "index_holds ty s kvs" "index_spare ty n s (Suc (Suc j))" "encoded_value_size k = n"
  then show "index_room ty s k"
    using index_spareD spares_takes unfolding index_holds_def index_room_def by blast
next
  fix ty s kvs k n j r
  assume h: "index_holds ty s kvs" "typed ty k" and n: "encoded_value_size k = n"
    and sp: "index_spare ty n s (Suc (Suc j))" and r: "r < (2 :: nat) ^ 64" and k: "k \<notin> fst ` set kvs"
  obtain t where t: "index_inv ty s t" "contents t = kvs" using h(1) unfolding index_holds_def by blast
  note S = index_spareD [OF sp t(1)]
  have absent: "k \<notin> set (vals t)" using k t(2) by (metis contents_keys set_map)
  have size: "encoded_value_size k \<le> kMaxIndexKeyBytes" using S(1) n by simp
  have "wp never (idx_insert k r) (\<lambda>_ s'. index_spare ty n s' j) s"
  proof (rule wp_insert [OF t(1) h(2) size r absent spares_takes [OF S(2) n]])
    fix t' s'
    assume s': "index_inv ty s' t'" "contents t' = with_key k r (contents t)" "grows s t s' t'"
    have "key_len e = n" if e: "e \<in> set (flat t')" for e
    proof -
      have good: "good_entry ty e" using wf_good [OF s'(1)] e by blast
      have "(key_val e, rid e) \<in> set (with_key k r (contents t))"
        using e s'(2) by (metis (mono_tags, lifting) contents_def imageI set_map)
      then consider "key_val e = k" | "(key_val e, rid e) \<in> set (contents t)" by (auto simp: set_with_key)
      then show ?thesis
      proof cases
        case 1
        then show ?thesis using good n by (simp add: good_entry_def)
      next
        case 2
        then obtain e' where "e' \<in> set (flat t)" "key_val e' = key_val e" by (auto simp: contents_def)
        then show ?thesis using good wf_good [OF t(1)] S(2) by (auto simp: good_entry_def spares_def)
      qed
    qed
    then have "spares n s' t' j" using s'(3) S(2) by (simp add: grows_def)
    then show "index_spare ty n s' j" using S(1) s'(1) by (auto simp: index_spare_def)
  qed
  then show "index_spare ty n (snd (idx_insert k r s)) j" by (auto simp: wp_never_iff)
next
  fix ty s kvs k n j
  assume h: "index_holds ty s kvs" "typed ty k" and sp: "index_spare ty n s j"
  obtain t where t: "index_inv ty s t" using h(1) unfolding index_holds_def by blast
  obtain it s' where "idx_find k s = (Inr it, s')" "same_index s s'" using find_ok [OF t h(2)] by blast
  then show "index_spare ty n (snd (idx_lookup k s)) j"
    using index_spare_same sp by (simp add: idx_lookup_def op_simps)
next
  fix ty s kvs lo hi n j li hj
  assume "index_holds ty s kvs" and b: "\<And>l. lo = Some l \<Longrightarrow> typed ty l" "\<And>h. hi = Some h \<Longrightarrow> typed ty h"
    and sp: "index_spare ty n s j"
  then obtain t where t: "index_inv ty s t" unfolding index_holds_def by blast
  show "index_spare ty n (snd (index_collect_range lo li hi hj s)) j"
    using range_ok [OF t b, of lo hi, of li hj] index_spare_same sp by fastforce
qed

text \<open>A new index is empty, takes any key that is short enough, and can spare keys of any size:
  as many as its root has children, or as many as leaves with their share hold.\<close>

definition new_room :: "nat \<Rightarrow> nat \<Rightarrow> bool" where
  "new_room n j \<longleftrightarrow> node_room n (1 + j) \<or> 0 < leaf_share n \<and> node_room n (j div leaf_share n + 1)"

lemma created_index:
  "\<exists>s. create_empty path existing True (new_index []) = (Inr (), s) \<and> index_holds ty s [] \<and>
       (\<forall>k. encoded_value_size k \<le> kMaxIndexKeyBytes \<longrightarrow> index_room ty s k) \<and>
       (\<forall>n j. n \<le> kMaxIndexKeyBytes \<longrightarrow> new_room n j \<longrightarrow> index_spare ty n s j)"
proof -
  obtain s where s: "create_empty path existing True (new_index []) = (Inr (), s)" "index_inv ty s (BLeaf 1 [] 0)"
    "idx_count s = 2"
    using create_empty_ok [of path existing ty] by blast
  have "index_spare ty n s j" if "n \<le> kMaxIndexKeyBytes" "new_room n j" for n j
  proof -
    have "Suc a div 3 \<le> 4096" if "a \<le> 4084" for a :: nat using that by linarith
    from this [OF div_le_dividend [of 4084 "10 + n"]]
    have "leaf_share n \<le> 4096" by (simp add: leaf_share_def kPageSize_def)
    have "j < 256 \<or> j div leaf_share n < 256 \<and> 0 < leaf_share n"
      using that(2) by (auto simp: new_room_def node_room_def)
    then have "j < 256 \<or> j < 256 * leaf_share n" by (auto simp: div_less_iff_less_mult)
    then have "j < 256 * 4096" using \<open>leaf_share n \<le> 4096\<close> by linarith
    then have "spares n s (BLeaf 1 [] 0) j" using s(3) that(2) by (simp add: spares_def root_room_def new_room_def)
    then show ?thesis using s(2) that(1) unfolding index_spare_def by blast
  qed
  then show ?thesis using s(1) created_index_holds [of path existing ty] by auto
qed

text \<open>Keys of nine bytes, which integers have, with a share of 71 entries in a leaf: a root of 256
  leaves that have their share has room for all changes, as long as the entries and the changes
  together are at most 18175.\<close>

lemma int_keys_new_room: "j \<le> 18175 \<Longrightarrow> new_room 9 j"
proof -
  assume "j \<le> 18175"
  then have "j div 71 \<le> 255" by linarith
  then show ?thesis by (simp add: new_room_def node_room_def leaf_share_def kPageSize_def)
qed

lemma int_keys_root_room: "thick_tree 9 t \<Longrightarrow> length (flat t) + j \<le> 18175 \<Longrightarrow> root_room 9 t j"
  using int_keys_new_room [of "length (flat t) + j"]
  by (auto simp: new_room_def root_room_def node_room_def leaf_share_def kPageSize_def)

end
