(* ===== verification/Table_Correct.thy ===== *)
theory Table_Correct
  imports Table Index_Erasable
begin

text \<open>
  Tables keep their indexes in step with their rows. The index of a column is used through the
  interface \<open>erasable_index\<close> only; what a table promises in turn is stated on its rows.
\<close>

section \<open>Operations that leave the rows alone\<close>

definition same_rows :: "table \<Rightarrow> table \<Rightarrow> bool" where
  "same_rows t t' \<longleftrightarrow> t' = t\<lparr>tb_indexes := tb_indexes t'\<rparr>"

lemma same_rows_refl [simp]: "same_rows t t"
  by (simp add: same_rows_def)

lemma same_rows_trans: "same_rows t t' \<Longrightarrow> same_rows t' t'' \<Longrightarrow> same_rows t t''"
  unfolding same_rows_def by (metis table.surjective table.update_convs(5))

lemma same_rowsD:
  assumes "same_rows t t'"
  shows "tb_name t' = tb_name t" "tb_schema t' = tb_schema t" "tb_records t' = tb_records t"
    "tb_order t' = tb_order t" "tb_path t' = tb_path t" "tb_next t' = tb_next t"
    "indexed_columns t' = indexed_columns t" "column_is_indexed t' c = column_is_indexed t c"
proof -
  have t': "t' = t\<lparr>tb_indexes := tb_indexes t'\<rparr>" using assms by (simp add: same_rows_def)
  show "tb_name t' = tb_name t" "tb_schema t' = tb_schema t" "tb_records t' = tb_records t"
    "tb_order t' = tb_order t" "tb_path t' = tb_path t" "tb_next t' = tb_next t"
    by (subst t', simp)+
  then show "indexed_columns t' = indexed_columns t" "column_is_indexed t' c = column_is_indexed t c"
    by (simp_all add: indexed_columns_def column_is_indexed_def)
qed

definition keeps_rows :: "(table, 'a) op \<Rightarrow> bool" where
  "keeps_rows m \<longleftrightarrow> (\<forall>t. same_rows t (snd (m t)))"

lemma keeps_rowsD: "keeps_rows m \<Longrightarrow> m t = (x, t') \<Longrightarrow> same_rows t t'"
  by (metis keeps_rows_def snd_conv)

lemma keeps_rows_basic [intro!]:
  "keeps_rows (ret x)" "keeps_rows (throw e)" "keeps_rows (gets g)" "keeps_rows (of_sum r)"
  "keeps_rows (throw_if b e)"
  by (simp_all add: keeps_rows_def op_simps)

lemma keeps_rows_bnd [intro!]:
  assumes "keeps_rows m" and "\<And>x. keeps_rows (f x)"
  shows "keeps_rows (bnd m f)"
  unfolding keeps_rows_def
proof
  fix t
  obtain r t1 where m: "m t = (r, t1)" by (cases "m t")
  have t1: "same_rows t t1" using assms(1) m by (rule keeps_rowsD)
  show "same_rows t (snd (bnd m f t))"
    using t1 same_rows_trans [OF t1] assms(2) by (auto simp: bnd_def m keeps_rows_def split: sum.splits)
qed

lemma keeps_rows_andthen [intro!]: "keeps_rows m \<Longrightarrow> keeps_rows n \<Longrightarrow> keeps_rows (andthen m n)"
  unfolding andthen_def by blast

lemma keeps_rows_if [intro!]: "(b \<Longrightarrow> keeps_rows m) \<Longrightarrow> (\<not> b \<Longrightarrow> keeps_rows n) \<Longrightarrow> keeps_rows (if b then m else n)"
  by simp

lemma keeps_rows_for_each [intro!]: "(\<And>x. keeps_rows (f x)) \<Longrightarrow> keeps_rows (for_each f xs)"
  by (induction xs) auto

lemma keeps_rows_on_index [intro!]: "keeps_rows (on_index c m)"
  by (simp add: keeps_rows_def on_index_def same_rows_def split: option.splits prod.splits)

lemma keeps_rows_index_find [intro!]: "keeps_rows (index_find c k)"
  unfolding index_find_def by blast

lemma keeps_rows_check_unique [intro!]: "keeps_rows (check_unique r existing c)"
  unfolding check_unique_def by blast

lemma keeps_rows_at: "(\<And>t. \<exists>m. f t = m t \<and> keeps_rows m) \<Longrightarrow> keeps_rows f"
  by (metis keeps_rows_def)

lemma keeps_rows_enforce [intro!]: "keeps_rows (enforce_constraints r existing)"
proof (rule keeps_rows_at)
  fix t
  let ?checks = "andthen (of_sum (check_types (tb_schema t) r)) (for_each (check_unique r existing) (indexed_columns t))"
  show "\<exists>m. enforce_constraints r existing t = m t \<and> keeps_rows m"
  proof (cases "length r = length (tb_schema t)")
    case True
    then have "enforce_constraints r existing t = ?checks t" by (simp add: enforce_constraints_def)
    moreover have "keeps_rows ?checks" by blast
    ultimately show ?thesis by blast
  next
    case False
    then have "enforce_constraints r existing t = throw (Runtime_error ''Internal: record arity mismatch'') t"
      by (simp add: enforce_constraints_def throw_def)
    then show ?thesis by blast
  qed
qed

section \<open>Tables with their indexes\<close>

definition column_type :: "table \<Rightarrow> nat \<Rightarrow> DataType" where
  "column_type t c = col_type (tb_schema t ! c)"

text \<open>Exactly the indexed columns have an index open.\<close>

definition own_indexes :: "table \<Rightarrow> bool" where
  "own_indexes t \<longleftrightarrow> fst ` set (tb_indexes t) = set (indexed_columns t)"

lemma own_indexes_update:
  assumes "own_indexes t" and "c \<in> set (indexed_columns t)"
  shows "own_indexes (t\<lparr>tb_indexes := AList.update c ix (tb_indexes t)\<rparr>)"
proof -
  have "indexed_columns (t\<lparr>tb_indexes := AList.update c ix (tb_indexes t)\<rparr>) = indexed_columns t"
    by (simp add: indexed_columns_def)
  then show ?thesis using assms by (simp add: own_indexes_def dom_update insert_absorb)
qed

lemma own_indexes_frame:
  "own_indexes (t\<lparr>tb_next := n, tb_records := rs, tb_order := is\<rparr>) = own_indexes t"
  by (simp add: own_indexes_def indexed_columns_def)

definition indexes_hold :: "table \<Rightarrow> (nat \<Rightarrow> (Value \<times> nat) list) \<Rightarrow> bool" where
  "indexes_hold t f \<longleftrightarrow> tb_path t \<noteq> [] \<and> own_indexes t \<and>
     (\<forall>c \<in> set (indexed_columns t). \<exists>ix. map_of (tb_indexes t) c = Some ix \<and>
        index_holds (column_type t c) ix (f c))"

definition column_room :: "table \<Rightarrow> nat \<Rightarrow> Value \<Rightarrow> bool" where
  "column_room t c k \<longleftrightarrow> (\<exists>ix. map_of (tb_indexes t) c = Some ix \<and> index_room (column_type t c) ix k)"

definition column_spare :: "table \<Rightarrow> nat \<Rightarrow> nat \<Rightarrow> nat \<Rightarrow> bool" where
  "column_spare t c n j \<longleftrightarrow> (\<exists>ix. map_of (tb_indexes t) c = Some ix \<and> index_spare (column_type t c) n ix j)"

text \<open>What the indexes of a table have room for, and what they can spare, is not lost.\<close>

definition keeps_means :: "table \<Rightarrow> table \<Rightarrow> bool" where
  "keeps_means t t' \<longleftrightarrow> (\<forall>c \<in> set (indexed_columns t). (\<forall>k. column_room t c k \<longrightarrow> column_room t' c k) \<and>
     (\<forall>n j. column_spare t c n j \<longrightarrow> column_spare t' c n j))"

lemma keeps_means_refl [simp]: "keeps_means t t"
  by (simp add: keeps_means_def)

lemma keeps_means_trans:
  "keeps_means t t' \<Longrightarrow> keeps_means t' t'' \<Longrightarrow> indexed_columns t' = indexed_columns t \<Longrightarrow> keeps_means t t''"
  by (simp add: keeps_means_def)

definition looked_at :: "(nat \<Rightarrow> (Value \<times> nat) list) \<Rightarrow> table \<Rightarrow> table \<Rightarrow> bool" where
  "looked_at f t t' \<longleftrightarrow> same_rows t t' \<and> indexes_hold t' f \<and> keeps_means t t'"

lemma looked_at_refl: "indexes_hold t f \<Longrightarrow> looked_at f t t"
  by (simp add: looked_at_def)

lemma looked_at_trans: "looked_at f t t' \<Longrightarrow> looked_at f t' t'' \<Longrightarrow> looked_at f t t''"
  using same_rows_trans same_rowsD(7) keeps_means_trans unfolding looked_at_def by metis

lemma holds_open: "index_holds ty ix kvs \<Longrightarrow> st_open (pg_stream (ix_pager ix))"
  using index_invD(1) consistentD(1) by (fastforce simp: index_holds_def idx_inv_def pager_inv_def healthy_def)

lemma indexed_columns_iff: "c \<in> set (indexed_columns t) \<longleftrightarrow> column_is_indexed t c"
  by (auto simp: indexed_columns_def column_is_indexed_def)

lemma holds_has_index:
  assumes "indexes_hold t f" and "c \<in> set (indexed_columns t)"
  shows "has_index t c"
proof -
  obtain ix where "map_of (tb_indexes t) c = Some ix" "index_holds (column_type t c) ix (f c)"
    using assms by (auto simp: indexes_hold_def)
  then show ?thesis using assms(2) holds_open by (simp add: has_index_def indexed_columns_iff)
qed

lemma index_find_lookup:
  "has_index t c \<Longrightarrow> index_find c k t = on_index c (idx_lookup k) t"
  by (auto simp: index_find_def idx_lookup_def on_index_def op_simps split: option.splits prod.splits sum.splits)

text \<open>An operation on one index of a table that leaves what the index stands for.\<close>

lemma on_index_looks:
  assumes inv: "indexes_hold t f" and c: "c \<in> set (indexed_columns t)"
    and m: "\<And>ix. index_holds (column_type t c) ix (f c) \<Longrightarrow>
      \<exists>ix'. m ix = (Inr x, ix') \<and> index_holds (column_type t c) ix' (f c) \<and>
            (\<forall>k. index_room (column_type t c) ix k \<longrightarrow> index_room (column_type t c) ix' k) \<and>
            (\<forall>n j. index_spare (column_type t c) n ix j \<longrightarrow> index_spare (column_type t c) n ix' j)"
  shows "\<exists>t'. on_index c m t = (Inr x, t') \<and> looked_at f t t'"
proof -
  obtain ix where ix: "map_of (tb_indexes t) c = Some ix" "index_holds (column_type t c) ix (f c)"
    using inv c by (auto simp: indexes_hold_def)
  obtain ix' where ix': "m ix = (Inr x, ix')" "index_holds (column_type t c) ix' (f c)"
    "\<forall>k. index_room (column_type t c) ix k \<longrightarrow> index_room (column_type t c) ix' k"
    "\<forall>n j. index_spare (column_type t c) n ix j \<longrightarrow> index_spare (column_type t c) n ix' j"
    using m [OF ix(2)] by blast
  let ?t = "t\<lparr>tb_indexes := AList.update c ix' (tb_indexes t)\<rparr>"
  have ty: "column_type ?t d = column_type t d" "indexed_columns ?t = indexed_columns t" for d
    by (simp_all add: column_type_def indexed_columns_def)
  have "looked_at f t ?t"
    using inv ix ix' holds_open [OF ix'(2)]
      own_indexes_update [OF _ c]
    by (auto simp: looked_at_def keeps_means_def same_rows_def indexes_hold_def column_room_def column_spare_def ty
        update_conv' split: if_splits)
  moreover have "on_index c m t = (Inr x, ?t)" using ix(1) ix'(1) by (simp add: on_index_def)
  ultimately show ?thesis by blast
qed

lemma index_find_ok:
  assumes inv: "indexes_hold t f" and c: "c \<in> set (indexed_columns t)" and k: "typed (column_type t c) k"
  shows "\<exists>t'. index_find c k t = (Inr (map_of (f c) k), t') \<and> looked_at f t t'"
proof -
  have "has_index t c" by (rule holds_has_index [OF inv c])
  then show ?thesis
    using on_index_looks [OF inv c, of "idx_lookup k"] disk_erasing.lookup_keeps [OF _ k] by (simp add: index_find_lookup)
qed

lemma collect_range_ok:
  assumes inv: "indexes_hold t f" and c: "c \<in> set (indexed_columns t)"
    and lo: "\<And>l. lo = Some l \<Longrightarrow> typed (column_type t c) l" and hi: "\<And>h. hi = Some h \<Longrightarrow> typed (column_type t c) h"
  shows "\<exists>t'. collect_range c lo li hi hj t =
           (Inr (map snd (filter (\<lambda>(v, _). in_range lo li hi hj v) (f c))), t') \<and> looked_at f t t'"
proof -
  have "has_index t c" by (rule holds_has_index [OF inv c])
  then have "collect_range c lo li hi hj t = on_index c (index_collect_range lo li hi hj) t"
    by (simp add: collect_range_def op_simps)
  then show ?thesis
    using on_index_looks [OF inv c, of "index_collect_range lo li hi hj"] disk_erasing.scan_keeps [OF _ lo hi] by simp
qed

section \<open>Constraints\<close>

text \<open>A row the columns accept: no NULL where it is not allowed, and the right types.\<close>

lemma check_types_typed:
  "check_types cs vs = Inr () \<Longrightarrow> length vs = length cs \<Longrightarrow> i < length cs \<Longrightarrow> indexed (cs ! i) \<Longrightarrow>
     typed (col_type (cs ! i)) (vs ! i)"
proof (induction cs vs arbitrary: i rule: check_types.induct)
  case (1 c cs v vs)
  then show ?case
    by (cases i) (auto simp: typed_iff split: if_splits)
qed auto

lemma indexed_typed:
  assumes "check_types (tb_schema t) r = Inr ()" and "length r = length (tb_schema t)" and "c \<in> set (indexed_columns t)"
  shows "typed (column_type t c) (r ! c)" "\<not> is_null (r ! c)"
proof -
  show ty: "typed (column_type t c) (r ! c)"
    using check_types_typed [OF assms(1,2)] assms(3) by (simp add: indexed_columns_def column_type_def)
  show "\<not> is_null (r ! c)" using ty by (simp add: typed_iff)
qed

text \<open>The key of a row is free in the index of a column, or belongs to the row itself.\<close>

definition key_free :: "(nat \<Rightarrow> (Value \<times> nat) list) \<Rightarrow> Record \<Rightarrow> nat option \<Rightarrow> nat \<Rightarrow> bool" where
  "key_free f r existing c \<longleftrightarrow> (\<forall>i. map_of (f c) (r ! c) = Some i \<longrightarrow> existing = Some i)"

lemma check_unique_result:
  assumes inv: "indexes_hold t f" and c: "c \<in> set (indexed_columns t)" and k: "typed (column_type t c) (r ! c)"
  shows "\<exists>t'. looked_at f t t' \<and> check_unique r existing c t =
           (if key_free f r existing c then Inr ()
            else Inl (Runtime_error (''Duplicate value in indexed column '' @ quoted (col_name (tb_schema t ! c)))), t')"
proof -
  obtain t' where t': "index_find c (r ! c) t = (Inr (map_of (f c) (r ! c)), t')" "looked_at f t t'"
    using index_find_ok [OF inv c k] by blast
  have "tb_schema t' = tb_schema t" using t'(2) same_rowsD by (auto simp: looked_at_def)
  moreover have "\<not> is_null (r ! c)" using k by (simp add: typed_iff)
  moreover have "key_free f r existing c \<longleftrightarrow> \<not> (\<exists>i \<in> set_option (map_of (f c) (r ! c)). existing \<noteq> Some i)"
    by (auto simp: key_free_def)
  ultimately show ?thesis
    using t' by (intro exI [of _ t']) (simp add: check_unique_def op_simps)
qed

lemma check_all_unique:
  assumes "indexes_hold t f" and "\<forall>c \<in> set cs. c \<in> set (indexed_columns t) \<and> typed (column_type t c) (r ! c)"
  shows "\<exists>t'. looked_at f t t' \<and> for_each (check_unique r existing) cs t =
           (case filter (\<lambda>c. \<not> key_free f r existing c) cs of
              [] \<Rightarrow> Inr ()
            | c # _ \<Rightarrow> Inl (Runtime_error (''Duplicate value in indexed column '' @ quoted (col_name (tb_schema t ! c)))), t')"
  using assms
proof (induction cs arbitrary: t)
  case Nil
  then show ?case using looked_at_refl by (auto simp: op_simps)
next
  case (Cons c cs)
  obtain t1 where t1: "looked_at f t t1" "check_unique r existing c t =
      (if key_free f r existing c then Inr ()
       else Inl (Runtime_error (''Duplicate value in indexed column '' @ quoted (col_name (tb_schema t ! c)))), t1)"
    using check_unique_result [OF Cons.prems(1), of c r existing] Cons.prems(2) by auto
  have rows: "same_rows t t1" and inv1: "indexes_hold t1 f" using t1(1) by (simp_all add: looked_at_def)
  note R = same_rowsD [OF rows]
  show ?case
  proof (cases "key_free f r existing c")
    case True
    obtain t2 where t2: "looked_at f t1 t2" "for_each (check_unique r existing) cs t1 =
        (case filter (\<lambda>c. \<not> key_free f r existing c) cs of
           [] \<Rightarrow> Inr ()
         | c # _ \<Rightarrow> Inl (Runtime_error (''Duplicate value in indexed column '' @ quoted (col_name (tb_schema t1 ! c)))), t2)"
      using Cons.IH [OF inv1] Cons.prems(2) R by (auto simp: column_type_def)
    then show ?thesis
      using looked_at_trans [OF t1(1) t2(1)] t1(2) True R(2)
      by (auto simp: andthen_def bnd_def split: list.splits)
  next
    case False
    then show ?thesis using t1 by (auto simp: andthen_def bnd_def)
  qed
qed

lemma enforce_result:
  assumes inv: "indexes_hold t f" and len: "length r = length (tb_schema t)" and ok: "check_types (tb_schema t) r = Inr ()"
  shows "\<exists>t'. looked_at f t t' \<and> enforce_constraints r existing t =
           (case filter (\<lambda>c. \<not> key_free f r existing c) (indexed_columns t) of
              [] \<Rightarrow> Inr ()
            | c # _ \<Rightarrow> Inl (Runtime_error (''Duplicate value in indexed column '' @ quoted (col_name (tb_schema t ! c)))), t')"
  using check_all_unique [OF inv, of "indexed_columns t" r existing] indexed_typed [OF ok len] len ok
  by (simp add: enforce_constraints_def andthen_def bnd_def of_sum_def)

section \<open>Rows\<close>

definition column_pairs :: "table \<Rightarrow> nat \<Rightarrow> (Value \<times> nat) set" where
  "column_pairs t c = {(r ! c, i) | i r. tb_records t i = Some r}"

definition rows_ok :: "table \<Rightarrow> bool" where
  "rows_ok t \<longleftrightarrow> distinct (tb_order t) \<and> set (tb_order t) = dom (tb_records t) \<and>
     (\<forall>i r. tb_records t i = Some r \<longrightarrow> i < tb_next t \<and> length r = length (tb_schema t) \<and>
        check_types (tb_schema t) r = Inr ())"

definition table_inv :: "table \<Rightarrow> bool" where
  "table_inv t \<longleftrightarrow> rows_ok t \<and> tb_next t < 2 ^ 64 \<and>
     (\<exists>f. indexes_hold t f \<and> (\<forall>c \<in> set (indexed_columns t). set (f c) = column_pairs t c))"

lemma looked_at_inv:
  assumes "looked_at f t t'" and "table_inv t" and "\<forall>c \<in> set (indexed_columns t). set (f c) = column_pairs t c"
  shows "table_inv t'"
proof -
  have rows: "same_rows t t'" and h: "indexes_hold t' f" using assms(1) by (simp_all add: looked_at_def)
  note R = same_rowsD [OF rows]
  show ?thesis
    using assms(2,3) h by (auto simp: table_inv_def rows_ok_def column_pairs_def R)
qed

lemma held_keys_distinct:
  assumes "indexes_hold t f" and "c \<in> set (indexed_columns t)"
  shows "distinct (map fst (f c))"
  using assms disk.distinct_keys by (fastforce simp: indexes_hold_def)

lemma key_free_iff:
  assumes inv: "indexes_hold t f" and c: "c \<in> set (indexed_columns t)" and f: "set (f c) = column_pairs t c"
  shows "key_free f r existing c \<longleftrightarrow> (\<forall>i q. tb_records t i = Some q \<longrightarrow> q ! c = r ! c \<longrightarrow> existing = Some i)"
proof -
  have "map_of (f c) (r ! c) = Some i \<longleftrightarrow> (\<exists>q. tb_records t i = Some q \<and> q ! c = r ! c)" for i
    using held_keys_distinct [OF inv c] f by (auto simp: column_pairs_def)
  then show ?thesis by (auto simp: key_free_def)
qed

section \<open>Insertion\<close>

lemma open_indexes_noop: "indexes_hold t f \<Longrightarrow> open_indexes env t = (Inr (), t)"
proof -
  assume inv: "indexes_hold t f"
  have "for_each (\<lambda>c t. if map_of (tb_indexes t) c \<noteq> None then (Inr (), t) else open_index_of env c t) cs t = (Inr (), t)"
    if "set cs \<subseteq> set (indexed_columns t)" for cs
    using that
  proof (induction cs)
    case (Cons c cs)
    then have "map_of (tb_indexes t) c \<noteq> None" using inv by (fastforce simp: indexes_hold_def)
    then show ?case using Cons by (simp add: op_simps)
  qed (simp add: ret_def)
  then show ?thesis by (simp add: open_indexes_def)
qed

lemma mutable_index_noop:
  "indexes_hold t f \<Longrightarrow> c \<in> set (indexed_columns t) \<Longrightarrow> mutable_index env c t = (Inr (), t)"
  using open_indexes_noop [of t f env]
  by (simp add: mutable_index_def indexed_columns_iff) (simp add: indexes_hold_def)

definition room_for :: "table \<Rightarrow> Record \<Rightarrow> bool" where
  "room_for t r \<longleftrightarrow> (\<forall>c \<in> set (indexed_columns t). column_room t c (r ! c))"

lemma insert_into_one:
  assumes inv: "indexes_hold t f" and c: "c \<in> set (indexed_columns t)" and k: "typed (column_type t c) k"
    and room: "column_room t c k" and i: "i < 2 ^ 64" and new: "k \<notin> fst ` set (f c)"
  shows "\<exists>t'. on_index c (idx_insert k i) t = (Inr (), t') \<and> same_rows t t' \<and>
           indexes_hold t' (f(c := with_key k i (f c))) \<and>
           (\<forall>d. d \<noteq> c \<longrightarrow> (\<forall>x. column_room t' d x = column_room t d x))"
proof -
  obtain ix where ix: "map_of (tb_indexes t) c = Some ix" "index_holds (column_type t c) ix (f c)"
    using inv c by (auto simp: indexes_hold_def)
  have rm: "index_room (column_type t c) ix k" using room ix(1) by (simp add: column_room_def)
  obtain ix' where ix': "idx_insert k i ix = (Inr (), ix')"
    "index_holds (column_type t c) ix' (with_key k i (f c))"
    using disk.add_law [OF ix(2) k rm i new] by blast
  let ?t = "t\<lparr>tb_indexes := AList.update c ix' (tb_indexes t)\<rparr>"
  have ty: "column_type ?t d = column_type t d" "indexed_columns ?t = indexed_columns t" for d
    by (simp_all add: column_type_def indexed_columns_def)
  have "indexes_hold ?t (f(c := with_key k i (f c)))"
    using inv ix'(2) own_indexes_update [OF _ c] by (auto simp: indexes_hold_def ty update_conv')
  moreover have "\<forall>d. d \<noteq> c \<longrightarrow> (\<forall>x. column_room ?t d x = column_room t d x)"
    by (simp add: column_room_def ty update_conv')
  moreover have "on_index c (idx_insert k i) t = (Inr (), ?t)" using ix(1) ix'(1) by (simp add: on_index_def)
  ultimately show ?thesis by (intro exI [of _ ?t]) (simp add: same_rows_def)
qed

lemma install_ok:
  assumes "indexes_hold t f" and "distinct cs" and "set cs \<subseteq> set (indexed_columns t)"
    and "\<forall>c \<in> set cs. typed (column_type t c) (r ! c) \<and> column_room t c (r ! c) \<and> r ! c \<notin> fst ` set (f c)"
    and "i < 2 ^ 64"
  shows "\<exists>t'. for_each (\<lambda>c. if is_null (r ! c) then ret ()
                   else andthen (mutable_index env c) (on_index c (idx_insert (r ! c) i))) cs t = (Inr (), t') \<and>
           same_rows t t' \<and> indexes_hold t' (\<lambda>c. if c \<in> set cs then with_key (r ! c) i (f c) else f c)"
  using assms
proof (induction cs arbitrary: t f)
  case Nil
  then show ?case by (auto simp: ret_def)
next
  case (Cons c cs)
  have c: "c \<in> set (indexed_columns t)" "typed (column_type t c) (r ! c)" "column_room t c (r ! c)"
    "r ! c \<notin> fst ` set (f c)"
    using Cons.prems(3,4) by auto
  let ?f = "f(c := with_key (r ! c) i (f c))"
  obtain t1 where t1: "on_index c (idx_insert (r ! c) i) t = (Inr (), t1)" "same_rows t t1" "indexes_hold t1 ?f"
    "\<And>d x. d \<noteq> c \<Longrightarrow> column_room t1 d x = column_room t d x"
    using insert_into_one [OF Cons.prems(1) c(1-3) Cons.prems(5) c(4)] by blast
  note R = same_rowsD [OF t1(2)]
  have "\<forall>d \<in> set cs. typed (column_type t1 d) (r ! d) \<and> column_room t1 d (r ! d) \<and> r ! d \<notin> fst ` set (?f d)"
    using Cons.prems(2,4) t1(4) R(2) by (auto simp: column_type_def)
  then obtain t2 where t2: "for_each (\<lambda>c. if is_null (r ! c) then ret ()
        else andthen (mutable_index env c) (on_index c (idx_insert (r ! c) i))) cs t1 = (Inr (), t2)"
    "same_rows t1 t2" "indexes_hold t2 (\<lambda>d. if d \<in> set cs then with_key (r ! d) i (?f d) else ?f d)"
    using Cons.IH [OF t1(3)] Cons.prems(2,3,5) R(7) by auto
  have "(\<lambda>d. if d \<in> set cs then with_key (r ! d) i (?f d) else ?f d) =
      (\<lambda>d. if d \<in> set (c # cs) then with_key (r ! d) i (f d) else f d)"
    using Cons.prems(2) by auto
  then show ?case
    using t1(1) t2 same_rows_trans [OF t1(2) t2(2)] c(2) mutable_index_noop [OF Cons.prems(1) c(1)]
    by (auto simp: op_simps typed_iff)
qed

lemma distinct_indexed_columns [simp]: "distinct (indexed_columns t)"
  by (simp add: indexed_columns_def)

lemma column_pairs_new:
  assumes "tb_records t' = (tb_records t)(i \<mapsto> r)" and "tb_records t i = None"
  shows "column_pairs t' c = insert (r ! c, i) (column_pairs t c)"
proof (rule set_eqI)
  fix x :: "Value \<times> nat"
  obtain v j where x: "x = (v, j)" by (cases x)
  show "x \<in> column_pairs t' c \<longleftrightarrow> x \<in> insert (r ! c, i) (column_pairs t c)"
    by (cases "j = i") (use assms x in \<open>auto simp: column_pairs_def\<close>)
qed

text \<open>A row that every constraint accepts is stored; what is left is to give the indexes its keys.\<close>

definition added :: "Record \<Rightarrow> table \<Rightarrow> table \<Rightarrow> bool" where
  "added r t u \<longleftrightarrow> u = t\<lparr>tb_next := tb_next t + 1, tb_records := (tb_records t)(tb_next t \<mapsto> r),
                        tb_order := tb_order t @ [tb_next t], tb_indexes := tb_indexes u\<rparr>"

lemma addedD:
  assumes "added r t u"
  shows "indexed_columns u = indexed_columns t" "tb_schema u = tb_schema t" "tb_name u = tb_name t" "tb_path u = tb_path t"
    "tb_records u = (tb_records t)(tb_next t \<mapsto> r)" "tb_order u = tb_order t @ [tb_next t]" "tb_next u = tb_next t + 1"
proof -
  note u = assms [unfolded added_def]
  show "indexed_columns u = indexed_columns t" "tb_schema u = tb_schema t" "tb_name u = tb_name t" "tb_path u = tb_path t"
    "tb_records u = (tb_records t)(tb_next t \<mapsto> r)" "tb_order u = tb_order t @ [tb_next t]" "tb_next u = tb_next t + 1"
    by (subst u, simp add: indexed_columns_def)+
qed

lemma insert_prepares:
  assumes inv: "table_inv t" and len: "length r = length (tb_schema t)" and ok: "check_types (tb_schema t) r = Inr ()"
    and next_id: "tb_next t + 1 < 2 ^ 64"
    and free: "\<forall>c \<in> set (indexed_columns t). \<forall>i q. tb_records t i = Some q \<longrightarrow> q ! c \<noteq> r ! c"
  shows "\<exists>u f. table_insert env r t = andthen (install_into_indexes env (tb_next t) r) (ret (tb_next t)) u \<and>
           added r t u \<and> keeps_means t u \<and> indexes_hold u f \<and> tb_records t (tb_next t) = None \<and>
           (\<forall>c \<in> set (indexed_columns u). set (f c) = column_pairs t c \<and> typed (column_type u c) (r ! c) \<and>
              r ! c \<notin> fst ` set (f c))"
proof -
  obtain f where f: "indexes_hold t f" "\<forall>c \<in> set (indexed_columns t). set (f c) = column_pairs t c"
    using inv by (auto simp: table_inv_def)
  let ?i = "tb_next t"
  have "key_free f r None c" if "c \<in> set (indexed_columns t)" for c
    using key_free_iff [OF f(1) that] f(2) free that by auto
  then have "filter (\<lambda>c. \<not> key_free f r None c) (indexed_columns t) = []" by (simp add: filter_empty_conv)
  then obtain t1 where t1: "looked_at f t t1" "enforce_constraints r None t = (Inr (), t1)"
    using enforce_result [OF f(1) len ok, of None] by auto
  have rows1: "same_rows t t1" and h1: "indexes_hold t1 f" and k1: "keeps_means t t1"
    using t1(1) by (simp_all add: looked_at_def)
  note R = same_rowsD [OF rows1]
  have fresh: "tb_records t ?i = None"
    using inv by (cases "tb_records t ?i") (auto simp: rows_ok_def table_inv_def)
  let ?u = "t1\<lparr>tb_next := ?i + 1, tb_records := (tb_records t1)(?i \<mapsto> r), tb_order := tb_order t1 @ [?i]\<rparr>"
  have ic: "indexed_columns ?u = indexed_columns t" and ct: "column_type ?u c = column_type t c" for c
    using R(2) by (simp_all add: indexed_columns_def column_type_def)
  have "indexes_hold ?u f" using h1 own_indexes_frame by (auto simp: indexes_hold_def indexed_columns_def column_type_def)
  moreover have "keeps_means t ?u"
    using k1 R(2) by (simp add: keeps_means_def column_room_def column_spare_def column_type_def)
  moreover have "set (f c) = column_pairs t c \<and> typed (column_type ?u c) (r ! c) \<and> r ! c \<notin> fst ` set (f c)"
    if "c \<in> set (indexed_columns ?u)" for c
  proof -
    have c: "c \<in> set (indexed_columns t)" using that by (simp only: ic)
    have "r ! c \<notin> fst ` set (f c)" using f(2) free c by (fastforce simp: column_pairs_def)
    then show ?thesis using indexed_typed(1) [OF ok len c] f(2) c unfolding ct by blast
  qed
  moreover have "table_insert env r t = andthen (install_into_indexes env ?i r) (ret ?i) ?u"
    using t1(2) fresh next_id R(3,6) by (simp add: table_insert_def op_simps split: prod.splits sum.splits)
  moreover have "added r t ?u"
    using rows1 by (cases t; cases t1) (simp add: same_rows_def added_def)
  ultimately show ?thesis using fresh by blast
qed

text \<open>With its keys in every index the row is in the table.\<close>

lemma inserted_inv:
  assumes inv: "table_inv t" and len: "length r = length (tb_schema t)" and ok: "check_types (tb_schema t) r = Inr ()"
    and next_id: "tb_next t + 1 < 2 ^ 64" and fresh: "tb_records t (tb_next t) = None"
    and u: "added r t u"
    and f: "\<forall>c \<in> set (indexed_columns u). set (f c) = column_pairs t c"
    and v: "same_rows u v" "indexes_hold v (\<lambda>c. if c \<in> set (indexed_columns u) then with_key (r ! c) (tb_next t) (f c) else f c)"
  shows "table_inv v"
proof -
  note U = addedD [OF u]
  note S = same_rowsD [OF v(1)]
  have "rows_ok v"
    using inv next_id ok len unfolding rows_ok_def table_inv_def by (auto simp: S U intro: less_SucI)
  moreover have "set (if c \<in> set (indexed_columns u) then with_key (r ! c) (tb_next t) (f c) else f c) = column_pairs v c"
    if "c \<in> set (indexed_columns v)" for c
    using column_pairs_new [of v t "tb_next t" r c] fresh f that by (simp add: S U set_with_key)
  ultimately show ?thesis unfolding table_inv_def using v(2) next_id by (auto simp: S U)
qed

lemma table_insert_ok:
  assumes inv: "table_inv t" and len: "length r = length (tb_schema t)" and ok: "check_types (tb_schema t) r = Inr ()"
    and room: "room_for t r" and next_id: "tb_next t + 1 < 2 ^ 64"
    and free: "\<forall>c \<in> set (indexed_columns t). \<forall>i q. tb_records t i = Some q \<longrightarrow> q ! c \<noteq> r ! c"
  shows "\<exists>t'. table_insert env r t = (Inr (tb_next t), t') \<and> table_inv t' \<and>
           tb_records t' = (tb_records t)(tb_next t \<mapsto> r) \<and> tb_order t' = tb_order t @ [tb_next t] \<and>
           tb_schema t' = tb_schema t \<and> tb_next t' = tb_next t + 1 \<and> tb_name t' = tb_name t \<and> tb_path t' = tb_path t"
proof -
  obtain u f where u: "table_insert env r t = andthen (install_into_indexes env (tb_next t) r) (ret (tb_next t)) u"
    "added r t u"
    "keeps_means t u" "indexes_hold u f" "tb_records t (tb_next t) = None"
    "\<forall>c \<in> set (indexed_columns u). set (f c) = column_pairs t c \<and> typed (column_type u c) (r ! c) \<and>
       r ! c \<notin> fst ` set (f c)"
    using insert_prepares [OF inv len ok next_id free] by blast
  note F = addedD [OF u(2)]
  have "\<forall>c \<in> set (indexed_columns u). typed (column_type u c) (r ! c) \<and> column_room u c (r ! c) \<and> r ! c \<notin> fst ` set (f c)"
    using u(3,6) room unfolding F room_for_def keeps_means_def by blast
  then obtain v where v: "install_into_indexes env (tb_next t) r u = (Inr (), v)" "same_rows u v"
    "indexes_hold v (\<lambda>c. if c \<in> set (indexed_columns u) then with_key (r ! c) (tb_next t) (f c) else f c)"
    using install_ok [OF u(4) distinct_indexed_columns subset_refl, of r "tb_next t" env] next_id
    unfolding install_into_indexes_def by auto
  have "table_inv v" by (rule inserted_inv [OF inv len ok next_id u(5,2) _ v(2,3)]) (use u(6) in blast)
  then show ?thesis using u(1) v(1) same_rowsD [OF v(2)] by (intro exI [of _ v]) (simp add: F op_simps)
qed

text \<open>A row with a key that is taken is refused, and the table stays as it was.\<close>

lemma table_insert_taken:
  assumes inv: "table_inv t" and len: "length r = length (tb_schema t)" and ok: "check_types (tb_schema t) r = Inr ()"
    and c: "c \<in> set (indexed_columns t)" and taken: "tb_records t i = Some q" "q ! c = r ! c"
  shows "\<exists>d \<in> set (indexed_columns t). \<exists>t'. table_insert env r t =
             (Inl (Runtime_error (''Duplicate value in indexed column '' @ quoted (col_name (tb_schema t ! d)))), t') \<and>
           same_rows t t' \<and> table_inv t'"
proof -
  obtain f where f: "indexes_hold t f" "\<forall>c \<in> set (indexed_columns t). set (f c) = column_pairs t c"
    using inv by (auto simp: table_inv_def)
  have "\<not> key_free f r None c" using key_free_iff [OF f(1) c] f(2) c taken by auto
  then obtain d ds where d: "filter (\<lambda>c. \<not> key_free f r None c) (indexed_columns t) = d # ds"
    using c by (cases "filter (\<lambda>c. \<not> key_free f r None c) (indexed_columns t)") (auto simp: filter_empty_conv)
  obtain t' where t': "looked_at f t t'" "enforce_constraints r None t =
      (Inl (Runtime_error (''Duplicate value in indexed column '' @ quoted (col_name (tb_schema t ! d)))), t')"
    using enforce_result [OF f(1) len ok, of None] d by auto
  have "table_insert env r t =
      (Inl (Runtime_error (''Duplicate value in indexed column '' @ quoted (col_name (tb_schema t ! d)))), t')"
    using t'(2) by (simp add: table_insert_def andthen_def bnd_def)
  moreover have "d \<in> set (indexed_columns t)" using d by (metis list.set_intros(1) mem_Collect_eq set_filter)
  ultimately show ?thesis using t'(1) looked_at_inv [OF t'(1) inv f(2)] by (auto simp: looked_at_def)
qed

text \<open>
  A row whose key is too long for the index: the insertion fails when the row is already in the
  table. The row stays, and the index does not know it.
\<close>

lemma table_insert_oversized:
  assumes inv: "table_inv t" and len: "length r = length (tb_schema t)" and ok: "check_types (tb_schema t) r = Inr ()"
    and cols: "indexed_columns t = [c]" and long: "kMaxIndexKeyBytes < encoded_value_size (r ! c)"
    and free: "\<forall>i q. tb_records t i = Some q \<longrightarrow> q ! c \<noteq> r ! c"
  shows "\<exists>t'. table_insert env r t = (Inl (Runtime_error ''Index key too large for disk page''), t') \<and>
           tb_records t' (tb_next t) = Some r \<and> tb_order t' = tb_order t @ [tb_next t] \<and>
           (\<exists>t''. index_find c (r ! c) t' = (Inr None, t''))"
proof -
  obtain f where f: "indexes_hold t f" "set (f c) = column_pairs t c"
    using inv cols by (auto simp: table_inv_def)
  have c: "c \<in> set (indexed_columns t)" using cols by simp
  note ty = indexed_typed [OF ok len c]
  have "key_free f r None c" using key_free_iff [OF f(1) c f(2)] free by auto
  then obtain t1 where t1: "looked_at f t t1" "enforce_constraints r None t = (Inr (), t1)"
    using enforce_result [OF f(1) len ok, of None] cols by auto
  have rows1: "same_rows t t1" and h1: "indexes_hold t1 f" using t1(1) by (simp_all add: looked_at_def)
  note R = same_rowsD [OF rows1]
  let ?i = "tb_next t"
  have fresh: "tb_records t1 ?i = None"
    using inv R(3) by (cases "tb_records t ?i") (auto simp: table_inv_def rows_ok_def)
  let ?t2 = "t1\<lparr>tb_next := (?i + 1) mod 2 ^ 64, tb_records := (tb_records t1)(?i \<mapsto> r), tb_order := tb_order t1 @ [?i]\<rparr>"
  have ic: "indexed_columns ?t2 = [c]" using R(2) cols by (simp add: indexed_columns_def)
  have h2: "indexes_hold ?t2 f" using h1 own_indexes_frame by (auto simp: indexes_hold_def indexed_columns_def column_type_def)
  have c2: "c \<in> set (indexed_columns ?t2)" by (simp only: ic list.set_intros)
  obtain ix where ix: "map_of (tb_indexes ?t2) c = Some ix" using h2 c2 unfolding indexes_hold_def by blast
  let ?t3 = "?t2\<lparr>tb_indexes := AList.update c ix (tb_indexes ?t2)\<rparr>"
  have h3: "indexes_hold ?t3 f"
    using h2 ix own_indexes_update [OF _ c2, of ix]
    by (auto simp: indexes_hold_def indexed_columns_def column_type_def update_conv')
  have "install_into_indexes env ?i r ?t2 = (Inl (Runtime_error ''Index key too large for disk page''), ?t3)"
    unfolding install_into_indexes_def ic
    using ty(2) mutable_index_noop [OF h2 c2] ix insert_oversized [OF ty(2) long]
    by (simp add: op_simps on_index_def)
  then have run: "table_insert env r t = (Inl (Runtime_error ''Index key too large for disk page''), ?t3)"
    using t1(2) fresh R(6) by (simp add: table_insert_def op_simps)
  have ic3: "c \<in> set (indexed_columns ?t3)" using c2 by (simp add: indexed_columns_def)
  have ty3: "typed (column_type ?t3 c) (r ! c)" using ty(1) R(2) by (simp add: column_type_def)
  have "r ! c \<notin> fst ` set (f c)" using f(2) free by (fastforce simp: column_pairs_def)
  then have "map_of (f c) (r ! c) = None" by (simp add: map_of_eq_None_iff)
  then obtain t4 where "index_find c (r ! c) ?t3 = (Inr None, t4)"
    using index_find_ok [OF h3 ic3 ty3] by auto
  then show ?thesis using run R(4) by (intro exI [of _ ?t3]) auto
qed

section \<open>Making rows\<close>

lemma assign_values_distinct:
  assumes "\<forall>p \<in> fst ` set xs. p < length full \<and> full ! p = None" and "distinct (map fst xs)"
  shows "assign_values cs xs full = Inr (map (\<lambda>i. case map_of xs i of Some v \<Rightarrow> Some v | None \<Rightarrow> full ! i) [0..<length full])"
  using assms
proof (induction cs xs full rule: assign_values.induct)
  case (1 cs full)
  then show ?case by (simp add: map_nth)
next
  case (2 cs pos v rest full)
  have none: "map_of rest pos = None" using 2(3) by (simp add: map_of_eq_None_iff)
  have pos: "pos < length full" "full ! pos = None" using 2(2) by simp_all
  have ok: "\<forall>p \<in> fst ` set rest. p < length (full[pos := Some v]) \<and> full[pos := Some v] ! p = None"
    using 2(2,3) by (auto simp: nth_list_update)
  have "assign_values cs rest (full[pos := Some v]) =
      Inr (map (\<lambda>i. case map_of rest i of Some v \<Rightarrow> Some v | None \<Rightarrow> full[pos := Some v] ! i) [0..<length full])"
    using 2(1) [OF _ _ ok] pos 2(3) by simp
  moreover have "map (\<lambda>i. case map_of rest i of Some v \<Rightarrow> Some v | None \<Rightarrow> full[pos := Some v] ! i) [0..<length full] =
      map (\<lambda>i. case map_of ((pos, v) # rest) i of Some v \<Rightarrow> Some v | None \<Rightarrow> full ! i) [0..<length full]"
    using none 2(2) by (auto simp: nth_list_update split: option.splits)
  ultimately show ?case using 2(2) by simp
qed

lemma assign_values_repeated:
  assumes "\<forall>p \<in> fst ` set xs. p < length full" and "\<not> (distinct (map fst xs) \<and> (\<forall>p \<in> fst ` set xs. full ! p = None))"
  shows "\<exists>p \<in> fst ` set xs. assign_values cs xs full =
    Inl (Runtime_error (''INSERT: column '' @ quoted (col_name (cs ! p)) @ '' specified twice''))"
  using assms
proof (induction cs xs full rule: assign_values.induct)
  case (2 cs pos v rest full)
  show ?case
  proof (cases "full ! pos = None")
    case True
    have pos: "pos < length full" using 2(2) by simp
    have "\<exists>p \<in> fst ` set rest. p = pos \<or> full ! p \<noteq> None \<or> \<not> distinct (map fst rest)"
    proof (cases "rest = []")
      case False
      then show ?thesis using 2(3) True by (cases rest) auto
    qed (use 2(3) True in simp)
    then have "\<not> (distinct (map fst rest) \<and> (\<forall>p \<in> fst ` set rest. full[pos := Some v] ! p = None))"
      using pos by (auto simp: nth_list_update)
    moreover have "\<forall>p \<in> fst ` set rest. p < length (full[pos := Some v])" using 2(2) by simp
    ultimately have "\<exists>p \<in> fst ` set rest. assign_values cs rest (full[pos := Some v]) =
        Inl (Runtime_error (''INSERT: column '' @ quoted (col_name (cs ! p)) @ '' specified twice''))"
      using 2(1) pos True by simp
    then show ?thesis using pos True by simp
  next
    case False
    then show ?thesis using 2(2) by simp
  qed
qed simp

lemma materialize_distinct:
  assumes "\<forall>p \<in> set ps. p < length (tb_schema t)" and len: "length ps = length vs" and "distinct ps"
  shows "materialize t ps vs =
    Inr (map (\<lambda>i. fill_default (tb_schema t ! i) (map_of (zip ps vs) i)) [0..<length (tb_schema t)])"
proof -
  let ?n = "length (tb_schema t)" and ?given = "map (map_of (zip ps vs)) [0..<length (tb_schema t)]"
  have keys: "map fst (zip ps vs) = ps" using len by simp
  then have keyset: "fst ` set (zip ps vs) = set ps" by (metis list.set_map)
  have "map (\<lambda>i. case map_of (zip ps vs) i of Some v \<Rightarrow> Some v | None \<Rightarrow> replicate ?n None ! i)
      [0..<length (replicate ?n None)] = ?given"
    by (auto split: option.splits)
  then have "assign_values (tb_schema t) (zip ps vs) (replicate ?n None) = Inr ?given"
    using assign_values_distinct [of "zip ps vs" "replicate ?n None" "tb_schema t"] assms
    by (simp add: keyset keys)
  moreover have "map2 fill_default (tb_schema t) ?given =
      map (\<lambda>i. fill_default (tb_schema t ! i) (map_of (zip ps vs) i)) [0..<?n]"
    by (rule nth_equalityI) simp_all
  ultimately show ?thesis using len by (simp add: materialize_def)
qed

lemma materialize_all:
  assumes "length r = length (tb_schema t)"
  shows "materialize t [0..<length (tb_schema t)] r = Inr r"
proof -
  have given: "fill_default c (map_of (zip [0..<length (tb_schema t)] r) i) = r ! i"
    if "i < length (tb_schema t)" for c i
    using that assms map_of_zip_nth [of "[0..<length (tb_schema t)]" r i] by (simp add: fill_default_def)
  have "map (\<lambda>i. fill_default (tb_schema t ! i) (map_of (zip [0..<length (tb_schema t)] r) i)) [0..<length (tb_schema t)] = r"
    by (rule nth_equalityI) (simp_all only: length_map length_upt minus_nat.diff_0 assms nth_map given nth_upt add_0)
  then show ?thesis using materialize_distinct [of "[0..<length (tb_schema t)]" t r] assms by simp
qed

section \<open>A new table\<close>

definition fresh_env :: "index_env \<Rightarrow> bool" where
  "fresh_env env \<longleftrightarrow> (\<forall>c. ie_existing env c = None \<and> ie_openable env c \<and> ie_faults env c = [])"

definition no_files :: "memory_env \<Rightarrow> index_env" where
  "no_files mem = \<lparr>ie_existing = (\<lambda>_. None), ie_openable = (\<lambda>_. True), ie_faults = (\<lambda>_. []), ie_memory = mem\<rparr>"

lemma no_files_fresh [simp]: "fresh_env (no_files mem)"
  by (simp add: fresh_env_def no_files_def)

definition empty_index :: "DataType \<Rightarrow> disk_index \<Rightarrow> bool" where
  "empty_index ty ix \<longleftrightarrow> index_holds ty ix [] \<and>
     (\<forall>k. encoded_value_size k \<le> kMaxIndexKeyBytes \<longrightarrow> index_room ty ix k) \<and>
     (\<forall>n j. n \<le> kMaxIndexKeyBytes \<longrightarrow> new_room n j \<longrightarrow> index_spare ty n ix j)"

text \<open>Opening the indexes that are not open: each column gets an index of which \<open>P\<close> holds.\<close>

lemma open_each:
  assumes opens: "\<And>u c. same_rows t u \<Longrightarrow> c \<in> set cs \<Longrightarrow>
      \<exists>ix. open_index_of env c u = (Inr (), u\<lparr>tb_indexes := tb_indexes u @ [(c, ix)]\<rparr>) \<and> P c ix"
    and "\<forall>c \<in> D. \<exists>ix. map_of (tb_indexes t) c = Some ix \<and> P c ix"
    and "\<forall>c. c \<notin> D \<longrightarrow> map_of (tb_indexes t) c = None"
  shows "\<exists>t'. for_each (\<lambda>c t. if map_of (tb_indexes t) c \<noteq> None then (Inr (), t) else open_index_of env c t) cs t =
             (Inr (), t') \<and> same_rows t t' \<and> fst ` set (tb_indexes t') = fst ` set (tb_indexes t) \<union> set cs \<and>
           (\<forall>c \<in> D \<union> set cs. \<exists>ix. map_of (tb_indexes t') c = Some ix \<and> P c ix)"
  using assms
proof (induction cs arbitrary: t D)
  case Nil
  then show ?case by (auto simp: ret_def)
next
  case (Cons c cs)
  show ?case
  proof (cases "c \<in> D")
    case True
    then have "map_of (tb_indexes t) c \<noteq> None" using Cons.prems(2) by fastforce
    moreover from this have "c \<in> fst ` set (tb_indexes t)" by (simp add: map_of_eq_None_iff)
    ultimately show ?thesis using Cons.IH [of t D] Cons.prems True by (auto simp: andthen_def bnd_def insert_absorb)
  next
    case False
    obtain ix where ix: "open_index_of env c t = (Inr (), t\<lparr>tb_indexes := tb_indexes t @ [(c, ix)]\<rparr>)" "P c ix"
      using Cons.prems(1) [of t c] by auto
    let ?t = "t\<lparr>tb_indexes := tb_indexes t @ [(c, ix)]\<rparr>"
    have rows: "same_rows t ?t" by (simp add: same_rows_def)
    have none: "map_of (tb_indexes t) c = None" using Cons.prems(3) False by blast
    have "\<forall>d \<in> insert c D. \<exists>ix. map_of (tb_indexes ?t) d = Some ix \<and> P d ix"
    proof
      fix d assume d: "d \<in> insert c D"
      show "\<exists>ix. map_of (tb_indexes ?t) d = Some ix \<and> P d ix"
      proof (cases "d = c")
        case True
        then show ?thesis using none ix(2) by (simp add: map_add_Some_iff)
      next
        case False
        then obtain iy where "map_of (tb_indexes t) d = Some iy" "P d iy" using d Cons.prems(2) by blast
        then show ?thesis using False by (simp add: map_add_def)
      qed
    qed
    moreover have "\<forall>d. d \<notin> insert c D \<longrightarrow> map_of (tb_indexes ?t) d = None"
      using Cons.prems(3) by (simp add: map_add_def)
    moreover have "\<exists>ix. open_index_of env d u = (Inr (), u\<lparr>tb_indexes := tb_indexes u @ [(d, ix)]\<rparr>) \<and> P d ix"
      if "same_rows ?t u" "d \<in> set cs" for u d
      using Cons.prems(1) [OF same_rows_trans [OF rows that(1)]] that(2) by simp
    ultimately obtain t' where t': "for_each (\<lambda>c t. if map_of (tb_indexes t) c \<noteq> None then (Inr (), t)
        else open_index_of env c t) cs ?t = (Inr (), t')" "same_rows ?t t'"
      "fst ` set (tb_indexes t') = fst ` set (tb_indexes ?t) \<union> set cs"
      "\<forall>d \<in> insert c D \<union> set cs. \<exists>ix. map_of (tb_indexes t') d = Some ix \<and> P d ix"
      using Cons.IH [of ?t "insert c D"] by blast
    then show ?thesis using none ix(1) same_rows_trans [OF rows t'(2)] by (intro exI [of _ t']) (simp add: andthen_def bnd_def)
  qed
qed

lemma open_fresh_index:
  assumes "fresh_env env"
  shows "\<exists>ix. open_index_of env c t = (Inr (), t\<lparr>tb_indexes := tb_indexes t @ [(c, ix)]\<rparr>) \<and> empty_index ty ix"
proof -
  obtain ix where "create_empty (index_file t c) None True (new_index []) = (Inr (), ix)" "empty_index ty ix"
    using created_index [of "index_file t c" None ty] by (auto simp: empty_index_def)
  then show ?thesis using assms by (intro exI [of _ ix]) (simp add: open_index_of_def fresh_env_def Let_def)
qed

lemma bind_new_table:
  assumes "fresh_env env" and "path \<noteq> []"
  shows "\<exists>t. bind_dat_path env path (new_table name cs) = (Inr (), t) \<and> table_inv t \<and>
           tb_schema t = cs \<and> tb_records t = (\<lambda>_. None) \<and> tb_order t = [] \<and> tb_next t = 1 \<and> tb_name t = name \<and> tb_path t = path \<and>
           (\<forall>r. (\<forall>c \<in> set (indexed_columns t). encoded_value_size (r ! c) \<le> kMaxIndexKeyBytes) \<longrightarrow> room_for t r) \<and>
           (\<forall>c \<in> set (indexed_columns t). \<forall>n j. n \<le> kMaxIndexKeyBytes \<longrightarrow> new_room n j \<longrightarrow> column_spare t c n j)"
proof -
  let ?t0 = "(new_table name cs)\<lparr>tb_path := path\<rparr>"
  obtain t where t: "for_each (\<lambda>c t. if map_of (tb_indexes t) c \<noteq> None then (Inr (), t) else open_index_of env c t)
      (indexed_columns ?t0) ?t0 = (Inr (), t)" "same_rows ?t0 t"
    "fst ` set (tb_indexes t) = fst ` set (tb_indexes ?t0) \<union> set (indexed_columns ?t0)"
    "\<forall>c \<in> {} \<union> set (indexed_columns ?t0). \<exists>ix. map_of (tb_indexes t) c = Some ix \<and> empty_index (column_type ?t0 c) ix"
    using open_each [of ?t0 "indexed_columns ?t0" env "\<lambda>c. empty_index (column_type ?t0 c)" "{}"]
      open_fresh_index [OF assms(1)] by (auto simp: new_table_def)
  note R = same_rowsD [OF t(2)]
  have ct: "column_type t c = column_type ?t0 c" for c by (simp add: column_type_def R)
  have "indexes_hold t (\<lambda>_. [])"
    using t(3,4) assms(2) by (auto simp: indexes_hold_def own_indexes_def R ct empty_index_def new_table_def)
  moreover have "rows_ok t" by (simp add: rows_ok_def R new_table_def)
  moreover have "column_pairs t c = {}" for c by (simp add: column_pairs_def R new_table_def)
  ultimately have "table_inv t" by (auto simp: table_inv_def R new_table_def)
  moreover have "room_for t r"
    if "\<forall>c \<in> set (indexed_columns t). encoded_value_size (r ! c) \<le> kMaxIndexKeyBytes" for r
    unfolding room_for_def
  proof
    fix c assume c: "c \<in> set (indexed_columns t)"
    then obtain ix where "map_of (tb_indexes t) c = Some ix" "empty_index (column_type ?t0 c) ix"
      using t(4) R(7) by auto
    then show "column_room t c (r ! c)" using that c by (auto simp: column_room_def ct empty_index_def)
  qed
  moreover have "\<forall>c \<in> set (indexed_columns t). \<forall>n j. n \<le> kMaxIndexKeyBytes \<longrightarrow> new_room n j \<longrightarrow> column_spare t c n j"
    using t(4) R(7) by (fastforce simp: column_spare_def ct empty_index_def)
  moreover have "bind_dat_path env path (new_table name cs) = (Inr (), t)"
    using t(1) assms(2) by (simp add: bind_dat_path_def op_simps open_indexes_def)
  ultimately show ?thesis by (intro exI [of _ t]) (simp add: R new_table_def)
qed

end
