(* ===== verification/TableReopen.thy ===== *)
theory TableReopen
  imports TableFile_Correct Table_Correct IndexReopen
begin

text \<open>
  A table survives a restart: what \<open>save\<close> leaves on the device, the table's file and the files
  of its indexes, is enough for \<open>load\<close> to come back to the same rows with indexes in step.
\<close>

section \<open>Flushing every index\<close>

definition reopens :: "DataType \<Rightarrow> disk_index \<Rightarrow> (Value \<times> nat) list \<Rightarrow> bool" where
  "reopens ty ix kvs \<longleftrightarrow> index_holds ty ix kvs \<and>
     (\<forall>path. \<exists>r. open_index path (Some (file_of (ix_pager ix))) True (new_index []) = (Inr (), r) \<and>
               index_holds ty r kvs)"

definition column_reopens :: "table \<Rightarrow> (nat \<Rightarrow> (Value \<times> nat) list) \<Rightarrow> nat \<Rightarrow> bool" where
  "column_reopens t f c \<longleftrightarrow> (\<exists>ix. map_of (tb_indexes t) c = Some ix \<and> reopens (column_type t c) ix (f c))"

abbreviation flush_one :: "(disk_index, unit) op" where
  "flush_one \<equiv> \<lambda>ix. if st_open (pg_stream (ix_pager ix)) then flush_index ix else (Inr (), ix)"

lemma flush_column:
  assumes inv: "indexes_hold t f" and c: "c \<in> set (indexed_columns t)"
  shows "\<exists>t'. on_index c flush_one t = (Inr (), t') \<and> same_rows t t' \<and> indexes_hold t' f \<and> column_reopens t' f c \<and>
           (\<forall>d. d \<noteq> c \<longrightarrow> map_of (tb_indexes t') d = map_of (tb_indexes t) d)"
proof -
  obtain ix where ix: "map_of (tb_indexes t) c = Some ix" "index_holds (column_type t c) ix (f c)"
    using inv c by (auto simp: indexes_hold_def)
  obtain ix' where ix': "flush_index ix = (Inr (), ix')" "reopens (column_type t c) ix' (f c)"
    using flush_holds [OF ix(2)] by (auto simp: reopens_def)
  let ?t = "t\<lparr>tb_indexes := AList.update c ix' (tb_indexes t)\<rparr>"
  have ty: "column_type ?t d = column_type t d" "indexed_columns ?t = indexed_columns t" for d
    by (simp_all add: column_type_def indexed_columns_def)
  have "on_index c flush_one t = (Inr (), ?t)"
    using ix(1) ix'(1) holds_open [OF ix(2)] by (simp add: on_index_def)
  moreover have "indexes_hold ?t f"
    using inv ix'(2) own_indexes_update [OF _ c] by (auto simp: indexes_hold_def reopens_def ty update_conv')
  ultimately show ?thesis
    using ix'(2) by (intro exI [of _ ?t]) (simp add: same_rows_def column_reopens_def ty update_conv')
qed

lemma flush_columns:
  assumes "indexes_hold t f" and "set cs \<subseteq> set (indexed_columns t)" and "\<forall>c \<in> D. column_reopens t f c"
  shows "\<exists>t'. for_each (\<lambda>c. on_index c flush_one) cs t = (Inr (), t') \<and> same_rows t t' \<and> indexes_hold t' f \<and>
           (\<forall>c \<in> D \<union> set cs. column_reopens t' f c)"
  using assms
proof (induction cs arbitrary: t D)
  case Nil
  then show ?case by (auto simp: ret_def)
next
  case (Cons c cs)
  obtain t1 where t1: "on_index c flush_one t = (Inr (), t1)" "same_rows t t1" "indexes_hold t1 f"
    "column_reopens t1 f c" "\<And>d. d \<noteq> c \<Longrightarrow> map_of (tb_indexes t1) d = map_of (tb_indexes t) d"
    using flush_column [OF Cons.prems(1), of c] Cons.prems(2) by (auto simp del: split_paired_Ex)
  note R = same_rowsD [OF t1(2)]
  have "column_reopens t1 f d" if "d \<in> insert c D" for d
  proof (cases "d = c")
    case False
    then have "column_reopens t f d" using that Cons.prems(3) by blast
    then show ?thesis by (simp only: column_reopens_def column_type_def R t1(5) [OF False])
  qed (use t1(4) in simp)
  then obtain t2 where t2: "for_each (\<lambda>c. on_index c flush_one) cs t1 = (Inr (), t2)" "same_rows t1 t2"
    "indexes_hold t2 f" "\<forall>d \<in> insert c D \<union> set cs. column_reopens t2 f d"
    using Cons.IH [OF t1(3), of "insert c D"] Cons.prems(2) R(7) by auto
  then show ?case
    using t1(1) same_rows_trans [OF t1(2) t2(2)] by (intro exI [of _ t2]) (simp add: andthen_def bnd_def)
qed

section \<open>Saving\<close>

lemma table_bytes_same_rows: "same_rows t t' \<Longrightarrow> table_bytes t' = table_bytes t"
  by (simp add: table_bytes_def same_rowsD)

lemma save_ok:
  assumes inv: "indexes_hold t f" and rows: "rows_ok t"
  shows "\<exists>t'. save env True (tb_path t) t = (Inr (table_bytes t), t') \<and> same_rows t t' \<and> indexes_hold t' f \<and>
           (\<forall>c \<in> set (indexed_columns t). column_reopens t' f c)"
proof -
  have keys: "set (map fst (tb_indexes t)) = set (indexed_columns t)" using inv by (simp add: indexes_hold_def own_indexes_def)
  obtain t' where t': "flush_indexes t = (Inr (), t')" "same_rows t t'" "indexes_hold t' f"
    "\<forall>c \<in> set (indexed_columns t). column_reopens t' f c"
    using flush_columns [OF inv, of "map fst (tb_indexes t)" "{}"] unfolding flush_indexes_def keys by auto
  note R = same_rowsD [OF t'(2)]
  have all: "(\<exists>i \<in> set (tb_order t'). tb_records t' i = None) = False" using rows by (auto simp: R rows_ok_def)
  have "bind_dat_path env (tb_path t) t = (Inr (), t)"
    using open_indexes_noop [OF inv] by (simp add: bind_dat_path_def op_simps)
  then have "save env True (tb_path t) t = (Inr (table_bytes t'), t')"
    using t'(1) by (simp add: save_def andthen_def bnd_def gets_def throw_if_def ret_def all)
  then show ?thesis using t' table_bytes_same_rows [OF t'(2)] by auto
qed

section \<open>Loading\<close>

text \<open>The files a table with open indexes has on the device.\<close>

definition files_of :: "memory_env \<Rightarrow> table \<Rightarrow> index_env" where
  "files_of mem t =
     \<lparr>ie_existing = (\<lambda>c. map_option (\<lambda>ix. file_of (ix_pager ix)) (map_of (tb_indexes t) c)),
      ie_openable = (\<lambda>_. True), ie_faults = (\<lambda>_. []), ie_memory = mem\<rparr>"

lemma saved_column_simps [simp]:
  "col_name (saved_column c) = col_name c" "col_type (saved_column c) = col_type c"
  "not_null (saved_column c) = not_null c" "indexed (saved_column c) = indexed c"
  by (simp_all add: saved_column_def)

lemma check_types_saved: "check_types (map saved_column cs) vs = check_types cs vs"
  by (induction cs vs rule: check_types.induct) auto

lemma saved_table_columns [simp]:
  "indexed_columns (saved_table t) = indexed_columns t"
  "c < length (tb_schema t) \<Longrightarrow> column_type (saved_table t) c = column_type t c"
  by (auto simp: indexed_columns_def column_type_def saved_table_def intro: filter_cong)

lemma indexed_columns_bound: "c \<in> set (indexed_columns t) \<Longrightarrow> c < length (tb_schema t)"
  by (simp add: indexed_columns_def)

lemma bind_saved:
  assumes path: "tb_path t \<noteq> []" and open_all: "\<forall>c \<in> set (indexed_columns t). column_reopens t f c"
  shows "\<exists>u. bind_dat_path (files_of mem t) (tb_path t) (saved_table t) = (Inr (), u) \<and>
           same_rows (saved_table t\<lparr>tb_path := tb_path t\<rparr>) u \<and> indexes_hold u f"
proof -
  let ?t0 = "(saved_table t)\<lparr>tb_path := tb_path t\<rparr>"
  have ic: "indexed_columns ?t0 = indexed_columns t"
    using saved_table_columns(1) [of t] by (simp add: indexed_columns_def)
  have ct: "column_type ?t0 c = column_type t c" if "c \<in> set (indexed_columns t)" for c
    using saved_table_columns(2) [OF indexed_columns_bound [OF that]] by (simp add: column_type_def)
  have "\<exists>ix. open_index_of (files_of mem t) c u = (Inr (), u\<lparr>tb_indexes := tb_indexes u @ [(c, ix)]\<rparr>) \<and>
      index_holds (column_type t c) ix (f c)" if c: "c \<in> set (indexed_columns ?t0)" for c u
  proof -
    obtain ix r where ix: "map_of (tb_indexes t) c = Some ix"
      and r: "open_index (index_file u c) (Some (file_of (ix_pager ix))) True (new_index []) = (Inr (), r)"
        "index_holds (column_type t c) r (f c)"
      using bspec [OF open_all c [unfolded ic]] unfolding column_reopens_def reopens_def by meson
    then show ?thesis by (intro exI [of _ r]) (simp add: open_index_of_def files_of_def Let_def)
  qed
  moreover have "map_of (tb_indexes ?t0) c = None" for c by (simp add: saved_table_def)
  ultimately obtain u where u: "for_each (\<lambda>c t'. if map_of (tb_indexes t') c \<noteq> None then (Inr (), t')
        else open_index_of (files_of mem t) c t') (indexed_columns ?t0) ?t0 = (Inr (), u)" "same_rows ?t0 u"
    "fst ` set (tb_indexes u) = fst ` set (tb_indexes ?t0) \<union> set (indexed_columns ?t0)"
    "\<forall>c \<in> {} \<union> set (indexed_columns ?t0). \<exists>ix. map_of (tb_indexes u) c = Some ix \<and> index_holds (column_type t c) ix (f c)"
    using open_each [of ?t0 "indexed_columns ?t0" "files_of mem t" "\<lambda>c ix. index_holds (column_type t c) ix (f c)" "{}"] by blast
  note R = same_rowsD [OF u(2)]
  have "column_type u c = column_type t c" if "c \<in> set (indexed_columns t)" for c
    using ct [OF that] by (simp add: column_type_def R)
  then have "indexes_hold u f" using u(3,4) path ic by (auto simp: indexes_hold_def own_indexes_def R saved_table_def)
  moreover have "bind_dat_path (files_of mem t) (tb_path t) (saved_table t) = (Inr (), u)"
    using u(1) path by (simp add: bind_dat_path_def op_simps open_indexes_def)
  ultimately show ?thesis using u(2) by blast
qed

lemma save_then_load:
  assumes inv: "table_inv t" and fits: "storable_table t"
  shows "\<exists>bytes t' u. save env True (tb_path t) t = (Inr bytes, t') \<and> same_rows t t' \<and> table_inv t' \<and>
           load (files_of mem t') (tb_path t) (Some bytes) = Inr u \<and> table_inv u \<and>
           same_rows ((saved_table t)\<lparr>tb_path := tb_path t\<rparr>) u"
proof -
  obtain f where f: "indexes_hold t f" "\<forall>c \<in> set (indexed_columns t). set (f c) = column_pairs t c"
    using inv by (auto simp: table_inv_def)
  have rows: "rows_ok t" using inv by (simp add: table_inv_def)
  obtain t' where t': "save env True (tb_path t) t = (Inr (table_bytes t), t')" "same_rows t t'" "indexes_hold t' f"
    "\<forall>c \<in> set (indexed_columns t). column_reopens t' f c"
    using save_ok [OF f(1) rows] by blast
  note R = same_rowsD [OF t'(2)]
  have t'_inv: "table_inv t'" using inv f(2) t'(3) by (auto simp: table_inv_def rows_ok_def column_pairs_def R)
  have path: "tb_path t \<noteq> []" using f(1) by (simp add: indexes_hold_def)
  have saved: "saved_table t' = saved_table t"
    by (cases t; cases t') (use R in \<open>simp add: saved_table_def\<close>)
  obtain u where u: "bind_dat_path (files_of mem t') (tb_path t) (saved_table t) = (Inr (), u)"
    "same_rows (saved_table t\<lparr>tb_path := tb_path t\<rparr>) u" "indexes_hold u f"
    using bind_saved [of t' f mem] path t'(4) unfolding R saved by blast
  have "read_table (tb_path t) (table_bytes t) = Inr ((3, saved_table t), [])"
    using reads_table [OF fits, of "tb_path t"] unfolding reads_def by (metis append_Nil2)
  then have "load (files_of mem t') (tb_path t) (Some (table_bytes t)) = Inr u"
    using u(1) by (simp add: load_def kVersion_def op_simps)
  moreover have "table_inv u"
  proof -
    note S = same_rowsD [OF u(2)]
    have "indexed_columns u = indexed_columns t"
      using S(7) saved_table_columns(1) [of t] by (simp add: indexed_columns_def)
    then show ?thesis
      using inv f(2) u(3)
      by (auto simp: table_inv_def rows_ok_def column_pairs_def S saved_table_def check_types_saved)
  qed
  ultimately show ?thesis using t'(1,2) t'_inv u(2) by blast
qed

end
