(* ===== verification/Table_Results.thy ===== *)
theory Table_Results
  imports TableReopen
begin

text \<open>
  What \<open>Table\<close> promises the statements that use it: rows and indexes stay in step, a row is
  refused exactly when a constraint says so, and a saved table comes back. One theorem says
  where an insertion goes wrong: a key too long for its index.
\<close>

section \<open>A table to look at\<close>

definition id_column :: ColumnDef where
  "id_column = \<lparr>col_name = ''id'', col_type = TInt, not_null = True, indexed = True, has_default = False,
                default_value = VNull\<rparr>"

definition name_column :: ColumnDef where
  "name_column = \<lparr>col_name = ''name'', col_type = TStr, not_null = False, indexed = False, has_default = True,
                  default_value = VStr ''new''\<rparr>"

definition tag_column :: ColumnDef where
  "tag_column = \<lparr>col_name = ''tag'', col_type = TStr, not_null = True, indexed = True, has_default = False,
                 default_value = VNull\<rparr>"

definition some_env :: index_env where
  "some_env = no_files \<lparr>env_budget = None, meminfo = None\<rparr>"

definition people :: table where
  "people = snd (bind_dat_path some_env ''d/people.dat'' (new_table ''people'' [id_column, name_column]))"

definition tags :: table where
  "tags = snd (bind_dat_path some_env ''d/tags.dat'' (new_table ''tags'' [tag_column]))"

lemma some_env_fresh [simp]: "fresh_env some_env"
  by (simp add: some_env_def)

lemma new_people:
  "bind_dat_path some_env ''d/people.dat'' (new_table ''people'' [id_column, name_column]) = (Inr (), people)"
  "table_inv people" "tb_schema people = [id_column, name_column]" "tb_records people = (\<lambda>_. None)"
  "tb_order people = []" "tb_next people = 1" "tb_name people = ''people''" "tb_path people = ''d/people.dat''"
  "(\<forall>c \<in> set (indexed_columns people). encoded_value_size (r ! c) \<le> kMaxIndexKeyBytes) \<Longrightarrow> room_for people r"
  "c \<in> set (indexed_columns people) \<Longrightarrow> n \<le> kMaxIndexKeyBytes \<Longrightarrow> new_room n j \<Longrightarrow> column_spare people c n j"
proof -
  obtain t where t: "bind_dat_path some_env ''d/people.dat'' (new_table ''people'' [id_column, name_column]) = (Inr (), t)"
    "table_inv t" "tb_schema t = [id_column, name_column]" "tb_records t = (\<lambda>_. None)"
    "tb_order t = []" "tb_next t = 1" "tb_name t = ''people''" "tb_path t = ''d/people.dat''"
    "\<And>r. (\<forall>c \<in> set (indexed_columns t). encoded_value_size (r ! c) \<le> kMaxIndexKeyBytes) \<Longrightarrow> room_for t r"
    "\<And>c n j. c \<in> set (indexed_columns t) \<Longrightarrow> n \<le> kMaxIndexKeyBytes \<Longrightarrow> new_room n j \<Longrightarrow> column_spare t c n j"
    using bind_new_table [OF some_env_fresh, of "''d/people.dat''" "''people''" "[id_column, name_column]"] by blast
  moreover have "people = t" by (simp only: people_def t(1) snd_conv)
  ultimately show
    "bind_dat_path some_env ''d/people.dat'' (new_table ''people'' [id_column, name_column]) = (Inr (), people)"
    "table_inv people" "tb_schema people = [id_column, name_column]" "tb_records people = (\<lambda>_. None)"
    "tb_order people = []" "tb_next people = 1" "tb_name people = ''people''" "tb_path people = ''d/people.dat''"
    "(\<forall>c \<in> set (indexed_columns people). encoded_value_size (r ! c) \<le> kMaxIndexKeyBytes) \<Longrightarrow> room_for people r"
    "c \<in> set (indexed_columns people) \<Longrightarrow> n \<le> kMaxIndexKeyBytes \<Longrightarrow> new_room n j \<Longrightarrow> column_spare people c n j"
    by blast+
qed

lemma people_indexed: "tb_schema t = [id_column, name_column] \<Longrightarrow> indexed_columns t = [0]"
  by (simp add: indexed_columns_def id_column_def name_column_def)

lemma new_tags:
  "table_inv tags" "tb_schema tags = [tag_column]" "tb_records tags = (\<lambda>_. None)"
  "tb_order tags = []" "tb_next tags = 1" "indexed_columns tags = [0]"
proof -
  obtain t where t: "bind_dat_path some_env ''d/tags.dat'' (new_table ''tags'' [tag_column]) = (Inr (), t)"
    "table_inv t" "tb_schema t = [tag_column]" "tb_records t = (\<lambda>_. None)" "tb_order t = []" "tb_next t = 1"
    using bind_new_table [OF some_env_fresh, of "''d/tags.dat''" "''tags''" "[tag_column]"] by blast
  have "tags = t" by (simp only: tags_def t(1) snd_conv)
  then show "table_inv tags" "tb_schema tags = [tag_column]" "tb_records tags = (\<lambda>_. None)"
    "tb_order tags = []" "tb_next tags = 1" "indexed_columns tags = [0]"
    using t by (simp_all add: indexed_columns_def tag_column_def)
qed

abbreviation bob :: Record where
  "bob \<equiv> [VInt 7, VStr ''bob'']"

lemma bob_fits: "room_for people bob" "check_types [id_column, name_column] bob = Inr ()"
  by (rule new_people(9)) (simp_all add: people_indexed new_people kMaxIndexKeyBytes_def id_column_def name_column_def)

definition people1 :: table where
  "people1 = snd (table_insert some_env bob people)"

lemma people1_ok:
  "table_insert some_env bob people = (Inr 1, people1)" "table_inv people1" "tb_records people1 = [1 \<mapsto> bob]"
  "tb_order people1 = [1]" "tb_schema people1 = [id_column, name_column]" "tb_next people1 = 2"
  "tb_name people1 = ''people''" "tb_path people1 = ''d/people.dat''"
proof -
  obtain t where t: "table_insert some_env bob people = (Inr 1, t)" "table_inv t" "tb_records t = [1 \<mapsto> bob]"
    "tb_order t = [1]" "tb_schema t = [id_column, name_column]" "tb_next t = 2" "tb_name t = ''people''"
    "tb_path t = ''d/people.dat''"
    using table_insert_ok [OF new_people(2), of bob some_env] bob_fits new_people(3-8) by auto
  have "people1 = t" by (simp only: people1_def t(1) snd_conv)
  then show "table_insert some_env bob people = (Inr 1, people1)" "table_inv people1" "tb_records people1 = [1 \<mapsto> bob]"
    "tb_order people1 = [1]" "tb_schema people1 = [id_column, name_column]" "tb_next people1 = 2"
    "tb_name people1 = ''people''" "tb_path people1 = ''d/people.dat''"
    using t by simp_all
qed

section \<open>Insertion\<close>

text \<open>C18: A row that the columns accept and whose indexed values are new is added under the next id
  at the end of the order, and the invariant of the table holds again: every index holds exactly
  the values of its column with the ids of their rows.\<close>

theorem insert_keeps_table_invariant:
  assumes "table_inv t" and "length r = length (tb_schema t)" and "check_types (tb_schema t) r = Inr ()"
    and "room_for t r" and "tb_next t + 1 < 2 ^ 64"
    and "\<forall>c \<in> set (indexed_columns t). \<forall>i q. tb_records t i = Some q \<longrightarrow> q ! c \<noteq> r ! c"
  shows "\<exists>t'. table_insert env r t = (Inr (tb_next t), t') \<and> table_inv t' \<and>
           tb_records t' = (tb_records t)(tb_next t \<mapsto> r) \<and> tb_order t' = tb_order t @ [tb_next t] \<and>
           tb_schema t' = tb_schema t \<and> tb_next t' = tb_next t + 1 \<and> tb_name t' = tb_name t \<and> tb_path t' = tb_path t"
  using assms by (rule table_insert_ok)

lemma insert_keeps_table_invariant_witness:
  "\<exists>t. table_insert some_env bob people = (Inr 1, t) \<and> table_inv t \<and> tb_records t = [1 \<mapsto> bob]"
  using insert_keeps_table_invariant [OF new_people(2), of bob some_env] bob_fits new_people(3-6) by auto

text \<open>A row whose value in an indexed column belongs to another row is refused, and the table keeps
  its rows and its invariant.\<close>

theorem taken_key_is_refused:
  assumes "table_inv t" and "length r = length (tb_schema t)" and "check_types (tb_schema t) r = Inr ()"
    and "c \<in> set (indexed_columns t)" and "tb_records t i = Some q" and "q ! c = r ! c"
  shows "\<exists>d \<in> set (indexed_columns t). \<exists>t'. table_insert env r t =
             (Inl (Runtime_error (''Duplicate value in indexed column '' @ quoted (col_name (tb_schema t ! d)))), t') \<and>
           same_rows t t' \<and> table_inv t'"
  using assms by (rule table_insert_taken)

lemma taken_key_is_refused_witness:
  "\<exists>t. table_insert some_env [VInt 7, VNull] people1 =
     (Inl (Runtime_error (''Duplicate value in indexed column '' @ quoted ''id'')), t) \<and> same_rows people1 t"
  using taken_key_is_refused [OF people1_ok(2), of "[VInt 7, VNull]" 0 1 bob some_env] people1_ok(3,5)
  by (auto simp: people_indexed id_column_def name_column_def)

text \<open>C35: A row whose key is too long for its index passes every constraint. The insertion fails in the
  index, after the row was stored: the caller gets an error, the row stays in the table, and the
  index does not find it.\<close>

theorem oversized_key_leaves_row:
  assumes "table_inv t" and "length r = length (tb_schema t)" and "check_types (tb_schema t) r = Inr ()"
    and "indexed_columns t = [c]" and "kMaxIndexKeyBytes < encoded_value_size (r ! c)"
    and "\<forall>i q. tb_records t i = Some q \<longrightarrow> q ! c \<noteq> r ! c"
  shows "\<exists>t'. table_insert env r t = (Inl (Runtime_error ''Index key too large for disk page''), t') \<and>
           tb_records t' (tb_next t) = Some r \<and> tb_order t' = tb_order t @ [tb_next t] \<and>
           (\<exists>t''. index_find c (r ! c) t' = (Inr None, t''))"
  using assms by (rule table_insert_oversized)

lemma oversized_key_leaves_row_witness:
  "\<exists>t. table_insert some_env [VStr (replicate 600 CHR ''x'')] tags =
     (Inl (Runtime_error ''Index key too large for disk page''), t) \<and>
     tb_records t 1 = Some [VStr (replicate 600 CHR ''x'')]"
  using oversized_key_leaves_row [OF new_tags(1), of "[VStr (replicate 600 CHR ''x'')]" 0 some_env] new_tags
  by (auto simp: tag_column_def kMaxIndexKeyBytes_def)

section \<open>Constraints\<close>

lemma duplicates_by_rows:
  assumes "indexes_hold t f" and "\<forall>c \<in> set (indexed_columns t). set (f c) = column_pairs t c"
  shows "filter (\<lambda>c. \<not> key_free f r existing c) (indexed_columns t) =
    filter (\<lambda>c. \<exists>i q. tb_records t i = Some q \<and> q ! c = r ! c \<and> existing \<noteq> Some i) (indexed_columns t)"
  using key_free_iff [OF assms(1)] assms(2) by (auto intro: filter_cong)

text \<open>C25: \<open>enforce_constraints\<close> decides: it refuses a row for the first violation in the order length,
  NULLs and types column by column, uniqueness column by column. A value counts as taken when a
  row other than the one being updated has it. Nothing but the state of the caches changes.\<close>

theorem constraints_decide:
  assumes "table_inv t"
  shows "\<exists>t'. same_rows t t' \<and> table_inv t' \<and> enforce_constraints r existing t =
    (if length r \<noteq> length (tb_schema t) then Inl (Runtime_error ''Internal: record arity mismatch'')
     else case check_types (tb_schema t) r of
       Inl e \<Rightarrow> Inl e
     | Inr _ \<Rightarrow>
         (case filter (\<lambda>c. \<exists>i q. tb_records t i = Some q \<and> q ! c = r ! c \<and> existing \<noteq> Some i) (indexed_columns t) of
            [] \<Rightarrow> Inr ()
          | c # _ \<Rightarrow> Inl (Runtime_error (''Duplicate value in indexed column '' @
                                       quoted (col_name (tb_schema t ! c))))), t')"
proof -
  obtain f where f: "indexes_hold t f" "\<forall>c \<in> set (indexed_columns t). set (f c) = column_pairs t c"
    using assms by (auto simp: table_inv_def)
  show ?thesis
  proof (cases "length r = length (tb_schema t) \<and> check_types (tb_schema t) r = Inr ()")
    case True
    then obtain t' where "looked_at f t t'" "enforce_constraints r existing t =
        (case filter (\<lambda>c. \<not> key_free f r existing c) (indexed_columns t) of
           [] \<Rightarrow> Inr ()
         | c # _ \<Rightarrow> Inl (Runtime_error (''Duplicate value in indexed column '' @ quoted (col_name (tb_schema t ! c)))), t')"
      using enforce_result [OF f(1)] by blast
    then show ?thesis
      using True looked_at_inv [OF _ assms f(2)] unfolding duplicates_by_rows [OF f] by (auto simp: looked_at_def)
  next
    case False
    then show ?thesis
      using assms by (intro exI [of _ t]) (auto simp: enforce_constraints_def op_simps split: sum.splits)
  qed
qed

lemma constraints_decide_witness:
  "\<exists>t. enforce_constraints [VInt 7, VStr ''eve''] None people1 =
     (Inl (Runtime_error (''Duplicate value in indexed column '' @ quoted ''id'')), t) \<and> same_rows people1 t"
proof -
  have "filter (\<lambda>c. \<exists>i q. tb_records people1 i = Some q \<and> q ! c = [VInt 7, VStr ''eve''] ! c \<and> None \<noteq> Some i)
      (indexed_columns people1) = [0]"
    using people1_ok(3) by (simp add: people_indexed people1_ok(5))
  moreover have "check_types (tb_schema people1) [VInt 7, VStr ''eve''] = Inr ()" "length (tb_schema people1) = 2"
    "col_name (tb_schema people1 ! 0) = ''id''"
    using people1_ok(5) by (simp_all add: id_column_def name_column_def)
  ultimately show ?thesis
    using constraints_decide [OF people1_ok(2), of "[VInt 7, VStr ''eve'']" None] by auto
qed

section \<open>Default values\<close>

text \<open>\<open>materialize\<close> builds the whole row: the given values at their columns, the default of every
  other column where it has one and NULL where it has none; it refuses a column named twice and a
  number of values that does not fit.\<close>

theorem materialized_row:
  assumes "\<forall>p \<in> set ps. p < length (tb_schema t)"
  shows "if length ps \<noteq> length vs
         then materialize t ps vs = Inl (Runtime_error ''INSERT: column/value count mismatch'')
         else if distinct ps
         then materialize t ps vs =
                Inr (map (\<lambda>i. fill_default (tb_schema t ! i) (map_of (zip ps vs) i)) [0..<length (tb_schema t)])
         else \<exists>p \<in> set ps. materialize t ps vs =
                Inl (Runtime_error (''INSERT: column '' @ quoted (col_name (tb_schema t ! p)) @ '' specified twice''))"
proof (cases "length ps = length vs")
  case len: True
  let ?n = "length (tb_schema t)"
  have keys: "map fst (zip ps vs) = ps" using len by simp
  then have keyset: "fst ` set (zip ps vs) = set ps" by (metis list.set_map)
  show ?thesis
  proof (cases "distinct ps")
    case True
    then show ?thesis using materialize_distinct [OF assms len True] len by simp
  next
    case False
    have "\<exists>p \<in> fst ` set (zip ps vs). assign_values (tb_schema t) (zip ps vs) (replicate ?n None) =
        Inl (Runtime_error (''INSERT: column '' @ quoted (col_name (tb_schema t ! p)) @ '' specified twice''))"
      by (rule assign_values_repeated) (use assms False in \<open>simp_all add: keyset keys\<close>)
    then show ?thesis using len False unfolding keyset by (auto simp: materialize_def)
  qed
qed (simp add: materialize_def)

lemma materialized_row_witness:
  "materialize people [0] [VInt 3] = Inr [VInt 3, VStr ''new'']"
  using materialized_row [of "[0]" people "[VInt 3]"] new_people(3)
  by (simp add: fill_default_def name_column_def id_column_def)

section \<open>Restart\<close>

text \<open>C19: Saving a table and loading it again, with the files that saving left on the device, gives a
  table with the same name, columns, rows, order and next id, whose indexes are in step with the
  rows. A default value survives only where the column has one.\<close>

theorem saved_table_loads:
  assumes "table_inv t" and "storable_table t"
  shows "\<exists>bytes t' u. save env True (tb_path t) t = (Inr bytes, t') \<and> same_rows t t' \<and> table_inv t' \<and>
           load (files_of mem t') (tb_path t) (Some bytes) = Inr u \<and> table_inv u \<and>
           same_rows ((saved_table t)\<lparr>tb_path := tb_path t\<rparr>) u"
  using assms by (rule save_then_load)

lemma saved_table_loads_witness:
  "\<exists>bytes t u. save some_env True (tb_path people1) people1 = (Inr bytes, t) \<and>
     load (files_of (ie_memory some_env) t) (tb_path people1) (Some bytes) = Inr u \<and> tb_records u = [1 \<mapsto> bob] \<and> table_inv u"
proof -
  have "storable_table people1"
    using people1_ok(3-7)
    by (auto simp: storable_table_def storable_column_def id_column_def name_column_def short_string_def)
  from saved_table_loads [OF people1_ok(2) this, of some_env "ie_memory some_env"] show ?thesis
    using people1_ok(3) same_rowsD(3) by (fastforce simp: saved_table_def)
qed

end
