(* ===== verification/Ast.thy ===== *)
theory Ast
  imports Schema
begin

text \<open>
  Statements as the parser hands them to the executor (include/sql/ast.h). A null \<open>where\<close> is
  \<open>None\<close>; the operands inside an expression are never null, as the grammar builds them.
\<close>

record TableRef =
  ref_database :: string
  ref_table :: string

datatype CompareOp = Eq | NotEq | Lt | Gt | LtEq | GtEq

datatype LogicalOp = And | Or

datatype Expr =
    ColumnRefExpr string
  | LiteralExpr Value
  | CompareExpr CompareOp Expr Expr
  | BetweenExpr Expr Expr Expr
  | LikeExpr Expr Expr
  | LogicalExpr LogicalOp Expr Expr

datatype AggregateFn = AggNone | Sum | Count | Avg

record SelectItem =
  is_star :: bool
  agg :: AggregateFn
  agg_star :: bool
  item_column :: string
  item_alias :: string

datatype Statement =
    CreateDatabaseStmt string
  | DropDatabaseStmt string
  | UseStmt string
  | CreateTableStmt TableRef "ColumnDef list"
  | DropTableStmt TableRef
  | InsertStmt TableRef "string list" "Value list list"
  | UpdateStmt TableRef "(string \<times> Expr) list" "Expr option"
  | DeleteStmt TableRef "Expr option"
  | SelectStmt TableRef "SelectItem list" "Expr option"

end
