(* ===== verification/Where.thy ===== *)
theory Where
  imports Ast Table
begin

text \<open>
  The WHERE clause of a statement (src/sql/executor.cpp): its three-valued evaluation on a row,
  and the hint it gives for reading an index instead of the whole table.
\<close>

section \<open>Evaluation on a row\<close>

definition to_bool_three_valued :: "int \<Rightarrow> CompareOp \<Rightarrow> bool" where
  "to_bool_three_valued r cmp =
     (case cmp of Eq \<Rightarrow> r = 0 | NotEq \<Rightarrow> r \<noteq> 0 | Lt \<Rightarrow> r < 0 | Gt \<Rightarrow> 0 < r | LtEq \<Rightarrow> r \<le> 0 | GtEq \<Rightarrow> 0 \<le> r)"

fun eval_atom :: "Expr \<Rightarrow> table \<Rightarrow> Record \<Rightarrow> error + Value" where
  "eval_atom (LiteralExpr v) t row = Inr v"
| "eval_atom (ColumnRefExpr c) t row = sum_bind (require_column t c) (\<lambda>i. Inr (row ! i))"
| "eval_atom _ t row = Inl (Runtime_error ''invalid expression in atom position'')"

record TriBool =
  tri_value :: bool
  tri_unknown :: bool

definition tri :: "bool \<Rightarrow> bool \<Rightarrow> TriBool" where
  "tri v u = \<lparr>tri_value = v, tri_unknown = u\<rparr>"

lemma tri_simps [simp]: "tri_value (tri v u) = v" "tri_unknown (tri v u) = u"
  by (simp_all add: tri_def)

definition tri_or :: "TriBool \<Rightarrow> TriBool \<Rightarrow> TriBool" where
  "tri_or a b =
     (if tri_value a \<or> tri_value b then tri True False
      else if tri_unknown a \<or> tri_unknown b then tri False True
      else tri False False)"

definition tri_and :: "TriBool \<Rightarrow> TriBool \<Rightarrow> TriBool" where
  "tri_and a b =
     (if tri_unknown a \<and> \<not> tri_value b then tri False (\<not> tri_value b)
      else if tri_unknown b \<and> \<not> tri_value a then tri False True
      else if \<not> tri_value a \<or> \<not> tri_value b then
        (if tri_value a \<and> tri_unknown b then tri False True
         else if tri_value b \<and> tri_unknown a then tri False True
         else tri False False)
      else tri True False)"

text \<open>
  \<open>std::regex\<close> is a library: a pattern and a string give the answer of \<open>regex_match\<close>, or the
  text of the \<open>regex_error\<close> the pattern causes.
\<close>

type_synonym regex = "string \<Rightarrow> string \<Rightarrow> string + bool"

definition like :: "regex \<Rightarrow> Value \<Rightarrow> Value \<Rightarrow> error + TriBool" where
  "like re v pat =
     (if is_null v \<or> is_null pat then Inr (tri False True)
      else case (v, pat) of
        (VStr s, VStr p) \<Rightarrow>
          (case re p s of Inl msg \<Rightarrow> Inl (Runtime_error (''Bad regex in LIKE: '' @ msg)) | Inr b \<Rightarrow> Inr (tri b False))
      | _ \<Rightarrow> Inl (Runtime_error ''LIKE expects string operands''))"

fun eval_where :: "regex \<Rightarrow> Expr \<Rightarrow> table \<Rightarrow> Record \<Rightarrow> error + TriBool" where
  "eval_where re (CompareExpr cmp l r) t row =
     sum_bind (eval_atom l t row) (\<lambda>lhs.
     sum_bind (eval_atom r t row) (\<lambda>rhs.
     case Value_compare lhs rhs of (c, valid) \<Rightarrow>
       Inr (if \<not> valid then tri False True else tri (to_bool_three_valued c cmp) False)))"
| "eval_where re (BetweenExpr e l h) t row =
     sum_bind (eval_atom e t row) (\<lambda>v.
     sum_bind (eval_atom l t row) (\<lambda>lo.
     sum_bind (eval_atom h t row) (\<lambda>hi.
     case Value_compare v lo of (c1, valid1) \<Rightarrow> case Value_compare v hi of (c2, valid2) \<Rightarrow>
       Inr (if \<not> valid1 \<or> \<not> valid2 then tri False True else tri (0 \<le> c1 \<and> c2 \<le> 0) False))))"
| "eval_where re (LikeExpr e p) t row =
     sum_bind (eval_atom e t row) (\<lambda>v. sum_bind (eval_atom p t row) (\<lambda>pat. like re v pat))"
| "eval_where re (LogicalExpr lop l r) t row =
     sum_bind (eval_where re l t row) (\<lambda>a.
     sum_bind (eval_where re r t row) (\<lambda>b.
     Inr (case lop of And \<Rightarrow> tri_and a b | Or \<Rightarrow> tri_or a b)))"
| "eval_where re (LiteralExpr v) t row = Inl (Runtime_error ''standalone literal not allowed in WHERE'')"
| "eval_where re (ColumnRefExpr c) t row =
     Inl (Runtime_error ''standalone column reference not allowed in WHERE'')"

text \<open>What the statements do with the answer: a row counts only when the clause is true and known.\<close>

definition selected :: "TriBool \<Rightarrow> bool" where
  "selected b \<longleftrightarrow> tri_value b \<and> \<not> tri_unknown b"

section \<open>Index hints\<close>

record IndexHint =
  hint_has :: bool
  hint_column :: "nat option"
  hint_eq :: bool
  eq_value :: Value
  has_lo :: bool
  lo_value :: Value
  lo_inclusive :: bool
  has_hi :: bool
  hi_value :: Value
  hi_inclusive :: bool

definition no_hint :: IndexHint where
  "no_hint = \<lparr>hint_has = False, hint_column = None, hint_eq = False, eq_value = VNull,
              has_lo = False, lo_value = VNull, lo_inclusive = False,
              has_hi = False, hi_value = VNull, hi_inclusive = False\<rparr>"

fun is_column_named :: "Expr \<Rightarrow> string \<Rightarrow> bool" where
  "is_column_named (ColumnRefExpr c) col = (c = col)"
| "is_column_named _ col = False"

fun as_literal :: "Expr \<Rightarrow> Value option" where
  "as_literal (LiteralExpr v) = Some v"
| "as_literal _ = None"

text \<open>The clauses of the chain of ANDs at the top.\<close>

fun walk :: "Expr \<Rightarrow> Expr list" where
  "walk (LogicalExpr And l r) = walk l @ walk r"
| "walk e = [e]"

definition swap_op :: "CompareOp \<Rightarrow> CompareOp" where
  "swap_op cmp = (case cmp of Lt \<Rightarrow> Gt | Gt \<Rightarrow> Lt | LtEq \<Rightarrow> GtEq | GtEq \<Rightarrow> LtEq | _ \<Rightarrow> cmp)"

text \<open>A comparison of the column with a literal, read with the column on the left.\<close>

definition column_against_literal :: "string \<Rightarrow> CompareOp \<Rightarrow> Expr \<Rightarrow> Expr \<Rightarrow> (CompareOp \<times> Value) option" where
  "column_against_literal col cmp l r =
     (case (if is_column_named l col then as_literal r else None) of
        Some v \<Rightarrow> Some (cmp, v)
      | None \<Rightarrow> (case (if is_column_named r col then as_literal l else None) of
                  Some v \<Rightarrow> Some (swap_op cmp, v)
                | None \<Rightarrow> None))"

definition tighten :: "CompareOp \<Rightarrow> Value \<Rightarrow> IndexHint \<Rightarrow> IndexHint" where
  "tighten cmp v cand =
     (case cmp of
        Eq \<Rightarrow> cand\<lparr>hint_eq := True, eq_value := v\<rparr>
      | Lt \<Rightarrow> cand\<lparr>has_hi := True, hi_value := v, hi_inclusive := False\<rparr>
      | LtEq \<Rightarrow> cand\<lparr>has_hi := True, hi_value := v, hi_inclusive := True\<rparr>
      | Gt \<Rightarrow> cand\<lparr>has_lo := True, lo_value := v, lo_inclusive := False\<rparr>
      | GtEq \<Rightarrow> cand\<lparr>has_lo := True, lo_value := v, lo_inclusive := True\<rparr>
      | NotEq \<Rightarrow> cand)"

fun use_clause :: "ColumnDef \<Rightarrow> Expr \<Rightarrow> IndexHint \<Rightarrow> IndexHint" where
  "use_clause col (CompareExpr cmp l r) cand =
     (case column_against_literal (col_name col) cmp l r of
        None \<Rightarrow> cand
      | Some (cmp', v) \<Rightarrow> if \<not> matches v (col_type col) then cand else tighten cmp' v cand)"
| "use_clause col (BetweenExpr e l h) cand =
     (if \<not> is_column_named e (col_name col) then cand
      else case (as_literal l, as_literal h) of
        (Some lo, Some hi) \<Rightarrow>
          cand\<lparr>has_lo := True, lo_value := lo, lo_inclusive := True,
               has_hi := True, hi_value := hi, hi_inclusive := True\<rparr>
      | _ \<Rightarrow> cand)"
| "use_clause col _ cand = cand"

definition column_hint :: "nat \<Rightarrow> ColumnDef \<Rightarrow> Expr list \<Rightarrow> IndexHint" where
  "column_hint i col clauses = fold (use_clause col) clauses (no_hint\<lparr>hint_column := Some i\<rparr>)"

fun first_hint :: "table \<Rightarrow> Expr list \<Rightarrow> ColumnDef list \<Rightarrow> IndexHint" where
  "first_hint t clauses [] = no_hint"
| "first_hint t clauses (col # cols) =
     (case column_index (col_name col) (tb_schema t) of
        None \<Rightarrow> first_hint t clauses cols
      | Some i \<Rightarrow>
          if \<not> column_is_indexed t i then first_hint t clauses cols
          else let cand = column_hint i col clauses
               in if hint_eq cand \<or> has_lo cand \<or> has_hi cand then cand\<lparr>hint_has := True\<rparr>
                  else first_hint t clauses cols)"

definition derive_index_hint :: "Expr option \<Rightarrow> table \<Rightarrow> IndexHint" where
  "derive_index_hint cond t =
     (case cond of None \<Rightarrow> no_hint | Some e \<Rightarrow> first_hint t (walk e) (tb_schema t))"

text \<open>The rows to look at: one found in an index, a range of an index, or all of them.\<close>

definition select_candidates :: "Expr option \<Rightarrow> (table, nat list) op" where
  "select_candidates cond t =
     (let h = derive_index_hint cond t; c = the (hint_column h)
      in if \<not> hint_has h \<or> \<not> column_is_indexed t c then (Inr (tb_order t), t)
         else if hint_eq h
         then bnd (index_find c (eq_value h)) (\<lambda>found. ret (case found of None \<Rightarrow> [] | Some i \<Rightarrow> [i])) t
         else collect_range c (if has_lo h then Some (lo_value h) else None) (lo_inclusive h)
                (if has_hi h then Some (hi_value h) else None) (hi_inclusive h) t)"

end
