(* ===== verification/Aggregates.thy ===== *)
theory Aggregates
  imports Ast Table
begin

text \<open>
  What SELECT answers (src/sql/executor.cpp): JSON values, and the aggregates. Sums are kept in
  \<open>long double\<close>, on the x86-64 target a format with 64 bits of significand: every sum of
  integers is an integer again, rounded to 64 significant bits, to the nearest and on a tie to
  the even one. An average is a quotient rounded twice, to 64 bits and then to the 53 of
  \<open>double\<close>; a \<open>double\<close> is kept as its significand and exponent.
\<close>

section \<open>JSON\<close>

datatype json =
    JNull
  | JBool bool
  | JInt int
  | JDouble int int
  | JStr string
  | JObj "(string \<times> json) list"
  | JArr "json list"

fun to_json :: "Value \<Rightarrow> json" where
  "to_json VNull = JNull"
| "to_json (VInt i) = JInt (sint i)"
| "to_json (VStr s) = JStr s"

section \<open>Rounding\<close>

fun bit_length :: "nat \<Rightarrow> nat" where
  "bit_length n = (if n = 0 then 0 else Suc (bit_length (n div 2)))"

declare bit_length.simps [simp del]

definition divide_to_even :: "nat \<Rightarrow> nat \<Rightarrow> nat" where
  "divide_to_even n d =
     (let q = n div d; r = n mod d in if d < 2 * r \<or> (2 * r = d \<and> odd q) then q + 1 else q)"

definition round_nat :: "nat \<Rightarrow> nat \<Rightarrow> nat" where
  "round_nat p n = (let e = bit_length n - p in divide_to_even n (2 ^ e) * 2 ^ e)"

definition round_int :: "nat \<Rightarrow> int \<Rightarrow> int" where
  "round_int p i = sgn i * int (round_nat p (nat \<bar>i\<bar>))"

definition add_long_double :: "int \<Rightarrow> int \<Rightarrow> int" where
  "add_long_double a b = round_int 64 (a + b)"

text \<open>\<open>s / c\<close> rounded to 64 bits: the pair \<open>(m, e)\<close> stands for \<open>m * 2 powi e\<close>.\<close>

definition divide_long_double :: "int \<Rightarrow> nat \<Rightarrow> int \<times> int" where
  "divide_long_double s c =
     (let a = nat \<bar>s\<bar> * 2 ^ (64 + bit_length c); drop = bit_length (a div c) - 64
      in (sgn s * int (divide_to_even a (c * 2 ^ drop)), int drop - int (64 + bit_length c)))"

definition to_double :: "int \<times> int \<Rightarrow> int \<times> int" where
  "to_double x = (round_int 53 (fst x), snd x)"

text \<open>\<open>std::floor(x) == x\<close>, and the integer it then is.\<close>

definition integral :: "int \<times> int \<Rightarrow> bool" where
  "integral x \<longleftrightarrow> 0 \<le> snd x \<or> 2 ^ nat (- snd x) dvd fst x"

definition integer_of :: "int \<times> int \<Rightarrow> int" where
  "integer_of x = (if 0 \<le> snd x then fst x * 2 ^ nat (snd x) else fst x div 2 ^ nat (- snd x))"

definition int64_range :: "int \<Rightarrow> bool" where
  "int64_range i \<longleftrightarrow> - (2 ^ 63) \<le> i \<and> i < 2 ^ 63"

section \<open>Select items\<close>

datatype ItemKind = Plain | AggStar | Agg

record ResolvedItem =
  ri_kind :: ItemKind
  ri_column :: nat
  ri_agg :: AggregateFn
  ri_label :: string

definition aggregate_name :: "AggregateFn \<Rightarrow> string" where
  "aggregate_name fn = (case fn of Sum \<Rightarrow> ''SUM'' | Count \<Rightarrow> ''COUNT'' | _ \<Rightarrow> ''AVG'')"

definition resolve_item :: "table \<Rightarrow> SelectItem \<Rightarrow> error + ResolvedItem" where
  "resolve_item t it =
     (if agg it \<noteq> AggNone then
        sum_bind (if agg_star it then Inr 0 else require_column t (item_column it)) (\<lambda>c.
        Inr \<lparr>ri_kind = (if agg_star it then AggStar else Agg), ri_column = c, ri_agg = agg it,
             ri_label = (if item_alias it = []
                         then aggregate_name (agg it) @ ''('' @ (if agg_star it then ''*'' else item_column it) @ '')''
                         else item_alias it)\<rparr>)
      else if is_star it then Inl (Runtime_error (quoted ''*'' @ '' may only appear by itself in SELECT''))
      else sum_bind (require_column t (item_column it)) (\<lambda>c.
        Inr \<lparr>ri_kind = Plain, ri_column = c, ri_agg = AggNone,
             ri_label = (if item_alias it = [] then item_column it else item_alias it)\<rparr>))"

fun sum_map :: "('a \<Rightarrow> error + 'b) \<Rightarrow> 'a list \<Rightarrow> error + 'b list" where
  "sum_map f [] = Inr []"
| "sum_map f (x # xs) = sum_bind (f x) (\<lambda>y. sum_bind (sum_map f xs) (\<lambda>ys. Inr (y # ys)))"

definition every_column :: "table \<Rightarrow> ResolvedItem list" where
  "every_column t =
     map (\<lambda>i. \<lparr>ri_kind = Plain, ri_column = i, ri_agg = AggNone, ri_label = col_name (tb_schema t ! i)\<rparr>)
       [0..<length (tb_schema t)]"

definition is_aggregate :: "ResolvedItem \<Rightarrow> bool" where
  "is_aggregate it \<longleftrightarrow> ri_kind it \<noteq> Plain"

definition resolve_items :: "table \<Rightarrow> SelectItem list \<Rightarrow> error + ResolvedItem list" where
  "resolve_items t items =
     (case items of
        [it] \<Rightarrow> if is_star it then Inr (every_column t) else sum_map (resolve_item t) items
      | _ \<Rightarrow>
          sum_bind (sum_map (resolve_item t) items) (\<lambda>rs.
          if (\<exists>r \<in> set rs. is_aggregate r) \<and> (\<exists>r \<in> set rs. \<not> is_aggregate r)
          then Inl (Runtime_error ''Cannot mix aggregates with plain columns without GROUP BY'')
          else Inr rs))"

section \<open>Aggregates\<close>

record accumulator =
  ac_count :: nat
  ac_sum :: int
  ac_seen :: bool

definition empty_acc :: accumulator where
  "empty_acc = \<lparr>ac_count = 0, ac_sum = 0, ac_seen = False\<rparr>"

definition add_row :: "table \<Rightarrow> Record \<Rightarrow> ResolvedItem \<times> accumulator \<Rightarrow> error + (ResolvedItem \<times> accumulator)" where
  "add_row t r p =
     (case p of (it, ac) \<Rightarrow>
        if ri_kind it = AggStar then Inr (it, ac\<lparr>ac_count := ac_count ac + 1\<rparr>)
        else let v = r ! ri_column it
        in if is_null v then Inr (it, ac)
           else if ri_agg it = Count then Inr (it, ac\<lparr>ac_count := ac_count ac + 1\<rparr>)
           else (case v of
             VInt i \<Rightarrow> Inr (it, \<lparr>ac_count = ac_count ac + 1, ac_sum = add_long_double (ac_sum ac) (sint i), ac_seen = True\<rparr>)
           | _ \<Rightarrow> Inl (Runtime_error (''Aggregate requires int column '' @
                                    quoted (col_name (tb_schema t ! ri_column it))))))"

text \<open>The cast of a sum that no 64-bit integer holds is undefined.\<close>

definition sum_json :: "accumulator \<Rightarrow> error + json" where
  "sum_json ac =
     (if \<not> ac_seen ac then Inr JNull
      else if int64_range (ac_sum ac) then Inr (JInt (ac_sum ac)) else Inl Undefined_behaviour)"

definition avg_json :: "accumulator \<Rightarrow> json" where
  "avg_json ac =
     (if \<not> ac_seen ac \<or> ac_count ac = 0 then JNull
      else let x = to_double (divide_long_double (ac_sum ac) (ac_count ac))
      in if integral x \<and> \<bar>integer_of x\<bar> < 9 * 10 ^ 15 then JInt (integer_of x) else JDouble (fst x) (snd x))"

definition aggregate_json :: "ResolvedItem \<times> accumulator \<Rightarrow> error + (string \<times> json)" where
  "aggregate_json p =
     (case p of (it, ac) \<Rightarrow>
        map_sum id (\<lambda>j. (ri_label it, j))
          (case ri_agg it of Count \<Rightarrow> Inr (JInt (int (ac_count ac))) | Sum \<Rightarrow> sum_json ac | _ \<Rightarrow> Inr (avg_json ac)))"

text \<open>\<open>row[label] = value\<close> in an \<open>ordered_json\<close> object: a label that is there already keeps its place.\<close>

definition json_object :: "(string \<times> json) list \<Rightarrow> json" where
  "json_object kvs = JObj (fold (\<lambda>(k, v). AList.update k v) kvs [])"

definition row_json :: "ResolvedItem list \<Rightarrow> Record \<Rightarrow> json" where
  "row_json items r = json_object (map (\<lambda>it. (ri_label it, to_json (r ! ri_column it))) items)"

end
