(* ===== verification/Database.thy ===== *)
theory Database
  imports TableFile
begin

text \<open>
  \<open>cw_db::Database\<close> (include/storage/database.h, src/storage/database.cpp): tables by name and the
  directory they are kept in. The directory is part of the state, as a list of file names with
  their bytes; the file of an index that is open lives in its pager instead, and is put back
  when the table is dropped. Directories can be created and files renamed; which files can be
  opened, and the faults of the device, are arguments. Tables are visited in the order of the
  list; the source leaves the order of an \<open>unordered_map\<close> open.
\<close>

type_synonym listing = "(string \<times> byte list) list"

record io_env =
  io_openable :: "string \<Rightarrow> bool"
  io_writable :: "string \<Rightarrow> bool"
  io_faults :: "string \<Rightarrow> nat option list"
  io_memory :: memory_env

record database =
  db_name :: string
  db_tables :: "(string \<times> table) list"
  db_dir :: string
  db_files :: listing

definition new_database :: "string \<Rightarrow> listing \<Rightarrow> database" where
  "new_database name files = \<lparr>db_name = name, db_tables = [], db_dir = [], db_files = files\<rparr>"

definition dat_file :: "string \<Rightarrow> string" where
  "dat_file name = name @ ''.dat''"

text \<open>What the table of a name meets when its indexes are opened in a directory.\<close>

definition index_env_of :: "io_env \<Rightarrow> listing \<Rightarrow> string \<Rightarrow> string \<Rightarrow> index_env" where
  "index_env_of io files dir name =
     (let path = (\<lambda>c. index_path_for (join_path dir (dat_file name)) @ ''.'' @ nat_str c)
      in \<lparr>ie_existing = (\<lambda>c. map_of files (file_name (path c))), ie_openable = (\<lambda>c. io_openable io (path c)),
          ie_faults = (\<lambda>c. io_faults io (path c)), ie_memory = io_memory io\<rparr>)"

section \<open>Tables\<close>

definition has_table :: "database \<Rightarrow> string \<Rightarrow> bool" where
  "has_table db name \<longleftrightarrow> map_of (db_tables db) name \<noteq> None"

definition unknown_table :: "database \<Rightarrow> string \<Rightarrow> error" where
  "unknown_table db name =
     Runtime_error (''Unknown table '' @ quoted name @ '' in database '' @ quoted (db_name db))"

text \<open>\<open>require_table\<close> and a call on the table it answers.\<close>

definition on_table :: "string \<Rightarrow> (table, 'a) op \<Rightarrow> (database, 'a) op" where
  "on_table name m db =
     (case map_of (db_tables db) name of
        None \<Rightarrow> (Inl (unknown_table db name), db)
      | Some t \<Rightarrow> (case m t of (r, t') \<Rightarrow> (r, db\<lparr>db_tables := AList.update name t' (db_tables db)\<rparr>)))"

definition bind_table :: "io_env \<Rightarrow> string \<Rightarrow> (database, unit) op" where
  "bind_table io name =
     bnd (gets id) (\<lambda>db.
     on_table name (bind_dat_path (index_env_of io (db_files db) (db_dir db) name) (join_path (db_dir db) (dat_file name))))"

definition set_storage_dir :: "io_env \<Rightarrow> string \<Rightarrow> (database, unit) op" where
  "set_storage_dir io dir =
     andthen (modify (\<lambda>db. db\<lparr>db_dir := dir\<rparr>))
       (bnd (gets (\<lambda>db. map fst (db_tables db))) (\<lambda>names. for_each (bind_table io) names))"

definition create_table :: "io_env \<Rightarrow> string \<Rightarrow> ColumnDef list \<Rightarrow> (database, unit) op" where
  "create_table io name schema =
     bnd (gets id) (\<lambda>db.
     andthen (throw_if (has_table db name)
                (Runtime_error (''Table '' @ quoted name @ '' already exists in '' @ quoted (db_name db))))
       (andthen (modify (\<lambda>db. db\<lparr>db_tables := db_tables db @ [(name, new_table name schema)]\<rparr>))
         (if db_dir db = [] then ret () else bind_table io name)))"

text \<open>Destroying a table closes the files of its indexes as they are.\<close>

definition close_files :: "table \<Rightarrow> listing \<Rightarrow> listing" where
  "close_files t files =
     fold (\<lambda>(c, ix). AList.update (file_name (index_file t c)) (st_file (pg_stream (ix_pager ix)))) (tb_indexes t) files"

definition drop_table :: "string \<Rightarrow> (database, unit) op" where
  "drop_table name db =
     (case map_of (db_tables db) name of
        None \<Rightarrow> (Inl (unknown_table db name), db)
      | Some t \<Rightarrow> (Inr (), db\<lparr>db_tables := AList.delete name (db_tables db), db_files := close_files t (db_files db)\<rparr>))"

section \<open>Directories\<close>

text \<open>\<open>path::extension\<close>, and \<open>find\<close> of a string with what comes before it.\<close>

definition file_extension :: "string \<Rightarrow> string" where
  "file_extension p = drop (length (file_stem p)) (file_name p)"

fun before :: "string \<Rightarrow> string \<Rightarrow> string option" where
  "before pat [] = (if pat = [] then Some [] else None)"
| "before pat (c # cs) = (if take (length pat) (c # cs) = pat then Some [] else map_option (Cons c) (before pat cs))"

text \<open>The table a file belongs to, by its name.\<close>

definition file_owner :: "string \<Rightarrow> string option" where
  "file_owner f =
     (if length f < 5 then None
      else if file_extension f = ''.dat'' then Some (file_stem f)
      else before ''.idx'' f)"

definition stale :: "(string \<times> table) list \<Rightarrow> string \<Rightarrow> bool" where
  "stale tables f \<longleftrightarrow> (\<exists>s \<in> set_option (file_owner f). map_of tables s = None)"

definition remove_stale :: "(database, unit) op" where
  "remove_stale = modify (\<lambda>db. db\<lparr>db_files := filter (\<lambda>(f, _). \<not> stale (db_tables db) f) (db_files db)\<rparr>)"

definition save_table :: "io_env \<Rightarrow> string \<Rightarrow> (database, unit) op" where
  "save_table io name =
     bnd (gets id) (\<lambda>db.
     let path = join_path (db_dir db) (dat_file name)
     in bnd (on_table name (save (index_env_of io (db_files db) (db_dir db) name) (io_writable io path) path)) (\<lambda>bytes.
        modify (\<lambda>db. db\<lparr>db_files := AList.update (dat_file name) bytes (db_files db)\<rparr>)))"

definition save_to :: "io_env \<Rightarrow> string \<Rightarrow> (database, unit) op" where
  "save_to io dir =
     andthen (set_storage_dir io dir)
       (andthen (set_storage_dir io dir)
         (andthen remove_stale
           (bnd (gets (\<lambda>db. map fst (db_tables db))) (\<lambda>names. for_each (save_table io) names))))"

definition load_table :: "io_env \<Rightarrow> string \<times> byte list \<Rightarrow> (database, unit) op" where
  "load_table io file =
     (case file of (f, bytes) \<Rightarrow>
        if file_extension f \<noteq> ''.dat'' then ret ()
        else bnd (gets id) (\<lambda>db.
          let path = join_path (db_dir db) f; name = file_stem f
          in bnd (of_sum (load (index_env_of io (db_files db) (db_dir db) name) path
                           (if io_openable io path then Some bytes else None))) (\<lambda>t.
             modify (\<lambda>db. if has_table db name then db else db\<lparr>db_tables := db_tables db @ [(name, t)]\<rparr>))))"

definition load_from :: "io_env \<Rightarrow> string \<Rightarrow> (database, unit) op" where
  "load_from io dir =
     andthen (modify (\<lambda>db. db\<lparr>db_tables := [], db_dir := dir\<rparr>))
       (bnd (gets db_files) (\<lambda>files. for_each (load_table io) files))"

end
