(* ===== verification/Dbms.thy ===== *)
theory Dbms
  imports Database
begin

text \<open>
  \<open>cw_db::Dbms\<close> (include/core/dbms.h, src/core/dbms.cpp): databases by name, the name of the active
  one, and the directory below which each has its own. \<open>dm_dirs\<close> has the directories that were
  there before their databases were loaded or created.
\<close>

record dbms =
  dm_root :: string
  dm_databases :: "(string \<times> database) list"
  dm_active :: string
  dm_dirs :: "(string \<times> listing) list"

definition new_dbms :: "string \<Rightarrow> (string \<times> listing) list \<Rightarrow> dbms" where
  "new_dbms root dirs = \<lparr>dm_root = root, dm_databases = [], dm_active = [], dm_dirs = dirs\<rparr>"

definition has_database :: "dbms \<Rightarrow> string \<Rightarrow> bool" where
  "has_database d name \<longleftrightarrow> map_of (dm_databases d) name \<noteq> None"

definition unknown_database :: "string \<Rightarrow> error" where
  "unknown_database name = Runtime_error (''Unknown database '' @ quoted name)"

text \<open>\<open>require_database\<close> and a call on the database it answers.\<close>

definition on_database :: "string \<Rightarrow> (database, 'a) op \<Rightarrow> (dbms, 'a) op" where
  "on_database name m d =
     (case map_of (dm_databases d) name of
        None \<Rightarrow> (Inl (unknown_database name), d)
      | Some db \<Rightarrow> (case m db of (r, db') \<Rightarrow> (r, d\<lparr>dm_databases := AList.update name db' (dm_databases d)\<rparr>)))"

definition require_database :: "string \<Rightarrow> (dbms, unit) op" where
  "require_database name = on_database name (ret ())"

definition create_database :: "io_env \<Rightarrow> string \<Rightarrow> (dbms, unit) op" where
  "create_database io name =
     bnd (gets id) (\<lambda>d.
     andthen (throw_if (has_database d name) (Runtime_error (''Database '' @ quoted name @ '' already exists'')))
       (andthen (modify (\<lambda>d. d\<lparr>dm_databases := dm_databases d @
                               [(name, new_database name (case map_of (dm_dirs d) name of None \<Rightarrow> [] | Some fs \<Rightarrow> fs))]\<rparr>))
         (on_database name (set_storage_dir io (join_path (dm_root d) name)))))"

definition drop_database :: "string \<Rightarrow> (dbms, unit) op" where
  "drop_database name =
     bnd (gets id) (\<lambda>d.
     andthen (throw_if (\<not> has_database d name) (unknown_database name))
       (modify (\<lambda>d. d\<lparr>dm_databases := AList.delete name (dm_databases d),
                      dm_active := (if dm_active d = name then [] else dm_active d),
                      dm_dirs := AList.delete name (dm_dirs d)\<rparr>)))"

definition use_database :: "string \<Rightarrow> (dbms, unit) op" where
  "use_database name = andthen (require_database name) (modify (\<lambda>d. d\<lparr>dm_active := name\<rparr>))"

text \<open>\<open>active_or_throw\<close>, as the name of the database it answers.\<close>

definition active_or_throw :: "(dbms, string) op" where
  "active_or_throw =
     bnd (gets dm_active) (\<lambda>name.
     andthen (throw_if (name = []) (Runtime_error ''No database selected (use USE first)''))
       (andthen (require_database name) (ret name)))"

definition save_database :: "io_env \<Rightarrow> string \<Rightarrow> (dbms, unit) op" where
  "save_database io name =
     bnd (gets id) (\<lambda>d.
     if \<not> has_database d name then ret ()
     else on_database name (save_to io (join_path (dm_root d) name)))"

definition save_all :: "io_env \<Rightarrow> (dbms, unit) op" where
  "save_all io = bnd (gets (\<lambda>d. map fst (dm_databases d))) (\<lambda>names. for_each (save_database io) names)"

text \<open>An exception while a database is loaded leaves it out and ends the loading.\<close>

definition load_database :: "io_env \<Rightarrow> string \<times> listing \<Rightarrow> (dbms, unit) op" where
  "load_database io entry d =
     (case entry of (name, files) \<Rightarrow>
        case load_from io (join_path (dm_root d) name) (new_database name files) of
          (Inl e, _) \<Rightarrow> (Inl e, d)
        | (Inr _, db) \<Rightarrow>
            (Inr (), if has_database d name then d else d\<lparr>dm_databases := dm_databases d @ [(name, db)]\<rparr>))"

definition load_all :: "io_env \<Rightarrow> (dbms, unit) op" where
  "load_all io =
     andthen (modify (\<lambda>d. d\<lparr>dm_databases := []\<rparr>))
       (bnd (gets dm_dirs) (\<lambda>dirs. for_each (load_database io) dirs))"

end
