(* ===== verification/Executor.thy ===== *)
theory Executor
  imports Where Aggregates Dbms
begin

text \<open>
  Statements (src/sql/executor.cpp): each resolves its database, works on it and saves it. What
  the executor gets from libraries is an argument: regular expressions, the text of a JSON
  value, the parser that bison and flex generate, and the file system below the tables.
\<close>

record sql_env =
  sq_regex :: regex
  sq_dump :: "json \<Rightarrow> error + string"
  sq_io :: io_env

record ExecutionResult =
  res_ok :: bool
  res_output :: string
  res_error :: string
  res_affected :: nat

definition done_with :: "string \<Rightarrow> nat \<Rightarrow> ExecutionResult" where
  "done_with text n = \<lparr>res_ok = True, res_output = text, res_error = [], res_affected = n\<rparr>"

definition failed_with :: "string \<Rightarrow> ExecutionResult" where
  "failed_with msg = \<lparr>res_ok = False, res_output = [], res_error = msg, res_affected = 0\<rparr>"

section \<open>Rows a statement works on\<close>

definition row_matches :: "regex \<Rightarrow> Expr option \<Rightarrow> table \<Rightarrow> Record \<Rightarrow> error + bool" where
  "row_matches re cond t r =
     (case cond of None \<Rightarrow> Inr True | Some e \<Rightarrow> sum_bind (eval_where re e t r) (\<lambda>b. Inr (selected b)))"

definition record_at :: "table \<Rightarrow> nat \<Rightarrow> error + Record" where
  "record_at t i = (case tb_records t i of None \<Rightarrow> Inl (Out_of_range ''unordered_map::at'') | Some r \<Rightarrow> Inr r)"

text \<open>The loop over the candidates: \<open>f\<close> is what is done with a row that matches.\<close>

fun scan_rows :: "regex \<Rightarrow> Expr option \<Rightarrow> table \<Rightarrow> (nat \<Rightarrow> Record \<Rightarrow> 'a \<Rightarrow> error + 'a) \<Rightarrow> nat list \<Rightarrow> 'a \<Rightarrow> error + 'a" where
  "scan_rows re cond t f [] acc = Inr acc"
| "scan_rows re cond t f (i # ids) acc =
     sum_bind (record_at t i) (\<lambda>r.
     sum_bind (row_matches re cond t r) (\<lambda>b.
     sum_bind (if b then f i r acc else Inr acc) (\<lambda>acc. scan_rows re cond t f ids acc)))"

definition matched_rows :: "regex \<Rightarrow> Expr option \<Rightarrow> (table, nat list) op" where
  "matched_rows re cond =
     bnd (select_candidates cond) (\<lambda>ids.
     bnd (gets id) (\<lambda>t. of_sum (scan_rows re cond t (\<lambda>i r acc. Inr (acc @ [i])) ids [])))"

section \<open>Statements on a table\<close>

definition insert_positions :: "table \<Rightarrow> string list \<Rightarrow> error + nat list" where
  "insert_positions t cols =
     (if cols = [] then Inr [0..<length (tb_schema t)] else sum_map (require_column t) cols)"

definition insert_row :: "index_env \<Rightarrow> nat list \<Rightarrow> Value list \<Rightarrow> (table, unit) op" where
  "insert_row env positions row =
     andthen (throw_if (length row \<noteq> length positions)
                (Runtime_error ''INSERT: value count does not match column count''))
       (bnd (gets id) (\<lambda>t.
        bnd (of_sum (materialize t positions row)) (\<lambda>r.
        bnd (table_insert env r) (\<lambda>_. ret ()))))"

definition insert_rows :: "string list \<Rightarrow> Value list list \<Rightarrow> index_env \<Rightarrow> (table, nat) op" where
  "insert_rows cols rows env =
     bnd (gets id) (\<lambda>t.
     bnd (of_sum (insert_positions t cols)) (\<lambda>positions.
     andthen (for_each (insert_row env positions) rows) (ret (length rows))))"

definition assigned_column :: "table \<Rightarrow> string \<times> Expr \<Rightarrow> error + (nat \<times> Expr)" where
  "assigned_column t a = sum_bind (require_column t (fst a)) (\<lambda>i. Inr (i, snd a))"

definition update_row :: "index_env \<Rightarrow> (nat \<times> Expr) list \<Rightarrow> nat \<Rightarrow> (table, unit) op" where
  "update_row env assignments i =
     bnd (gets id) (\<lambda>t.
     bnd (of_sum (record_at t i)) (\<lambda>r.
     bnd (of_sum (sum_map (\<lambda>(c, e). sum_bind (eval_atom e t r) (\<lambda>v. Inr (c, v))) assignments)) (\<lambda>assigns.
     table_update env i assigns)))"

definition update_rows :: "regex \<Rightarrow> (string \<times> Expr) list \<Rightarrow> Expr option \<Rightarrow> index_env \<Rightarrow> (table, nat) op" where
  "update_rows re assignments cond env =
     bnd (gets id) (\<lambda>t.
     bnd (of_sum (sum_map (assigned_column t) assignments)) (\<lambda>cols.
     bnd (matched_rows re cond) (\<lambda>matched.
     andthen (for_each (update_row env cols) matched) (ret (length matched)))))"

definition delete_rows :: "regex \<Rightarrow> Expr option \<Rightarrow> index_env \<Rightarrow> (table, nat) op" where
  "delete_rows re cond env =
     bnd (matched_rows re cond) (\<lambda>matched.
     andthen (for_each (table_erase env) matched) (ret (length matched)))"

definition select_aggregates :: "sql_env \<Rightarrow> Expr option \<Rightarrow> table \<Rightarrow> ResolvedItem list \<Rightarrow> nat list \<Rightarrow> error + ExecutionResult" where
  "select_aggregates env cond t items ids =
     sum_bind (scan_rows (sq_regex env) cond t (\<lambda>i r. sum_map (add_row t r)) ids (map (\<lambda>it. (it, empty_acc)) items))
       (\<lambda>accs.
     sum_bind (sum_map aggregate_json accs) (\<lambda>row.
     sum_bind (sq_dump env (JArr [json_object row])) (\<lambda>text. Inr (done_with text 1))))"

definition select_plain :: "sql_env \<Rightarrow> Expr option \<Rightarrow> table \<Rightarrow> ResolvedItem list \<Rightarrow> nat list \<Rightarrow> error + ExecutionResult" where
  "select_plain env cond t items ids =
     sum_bind (scan_rows (sq_regex env) cond t (\<lambda>i r rows. Inr (rows @ [row_json items r])) ids []) (\<lambda>rows.
     sum_bind (sq_dump env (JArr rows)) (\<lambda>text. Inr (done_with text (length rows))))"

definition select_rows :: "sql_env \<Rightarrow> SelectItem list \<Rightarrow> Expr option \<Rightarrow> (table, ExecutionResult) op" where
  "select_rows env items cond =
     bnd (gets id) (\<lambda>t.
     bnd (of_sum (resolve_items t items)) (\<lambda>resolved.
     bnd (select_candidates cond) (\<lambda>ids.
     of_sum (if \<exists>it \<in> set resolved. is_aggregate it
             then select_aggregates env cond t resolved ids
             else select_plain env cond t resolved ids))))"

section \<open>Statements on the whole system\<close>

definition resolve_database :: "TableRef \<Rightarrow> (dbms, string) op" where
  "resolve_database ref =
     (if ref_database ref \<noteq> [] then andthen (require_database (ref_database ref)) (ret (ref_database ref))
      else active_or_throw)"

text \<open>A call on a table of a database, with what its directory holds.\<close>

definition at_table :: "sql_env \<Rightarrow> string \<Rightarrow> string \<Rightarrow> (index_env \<Rightarrow> (table, 'a) op) \<Rightarrow> (dbms, 'a) op" where
  "at_table env dbn name m =
     on_database dbn (bnd (gets id) (\<lambda>db.
       on_table name (m (index_env_of (sq_io env) (db_files db) (db_dir db) name))))"

definition save_named :: "sql_env \<Rightarrow> string \<Rightarrow> (dbms, string) op" where
  "save_named env dbn =
     bnd (on_database dbn (gets db_name)) (\<lambda>name. andthen (save_database (sq_io env) name) (ret name))"

definition exec_create_database :: "sql_env \<Rightarrow> string \<Rightarrow> (dbms, ExecutionResult) op" where
  "exec_create_database env name =
     andthen (create_database (sq_io env) name)
       (andthen (save_database (sq_io env) name) (ret (done_with (''Database created: '' @ name) 0)))"

definition exec_drop_database :: "string \<Rightarrow> (dbms, ExecutionResult) op" where
  "exec_drop_database name = andthen (drop_database name) (ret (done_with (''Database dropped: '' @ name) 0))"

definition exec_use :: "string \<Rightarrow> (dbms, ExecutionResult) op" where
  "exec_use name = andthen (use_database name) (ret (done_with (''Active database: '' @ name) 0))"

fun first_repeated :: "string list \<Rightarrow> string list \<Rightarrow> string option" where
  "first_repeated seen [] = None"
| "first_repeated seen (x # xs) = (if x \<in> set seen then Some x else first_repeated (x # seen) xs)"

definition exec_create_table :: "sql_env \<Rightarrow> TableRef \<Rightarrow> ColumnDef list \<Rightarrow> (dbms, ExecutionResult) op" where
  "exec_create_table env ref cols =
     bnd (resolve_database ref) (\<lambda>dbn.
     andthen (case first_repeated [] (map col_name cols) of
                None \<Rightarrow> ret () | Some c \<Rightarrow> throw (Runtime_error (''Duplicate column name '' @ quoted c)))
       (andthen (on_database dbn (create_table (sq_io env) (ref_table ref) cols))
         (bnd (save_named env dbn) (\<lambda>name.
          ret (done_with (''Table created: '' @ name @ ''.'' @ ref_table ref) 0)))))"

definition exec_drop_table :: "sql_env \<Rightarrow> TableRef \<Rightarrow> (dbms, ExecutionResult) op" where
  "exec_drop_table env ref =
     bnd (resolve_database ref) (\<lambda>dbn.
     andthen (on_database dbn (drop_table (ref_table ref)))
       (bnd (save_named env dbn) (\<lambda>name.
        ret (done_with (''Table dropped: '' @ name @ ''.'' @ ref_table ref) 0))))"

text \<open>INSERT, UPDATE and DELETE differ in their work on the table and in their text.\<close>

definition change_table :: "sql_env \<Rightarrow> TableRef \<Rightarrow> (index_env \<Rightarrow> (table, nat) op) \<Rightarrow> string \<Rightarrow> (dbms, ExecutionResult) op" where
  "change_table env ref m verb =
     bnd (resolve_database ref) (\<lambda>dbn.
     bnd (at_table env dbn (ref_table ref) m) (\<lambda>n.
     bnd (save_named env dbn) (\<lambda>_. ret (done_with (verb @ nat_str n @ '' row(s)'') n))))"

definition exec_insert :: "sql_env \<Rightarrow> TableRef \<Rightarrow> string list \<Rightarrow> Value list list \<Rightarrow> (dbms, ExecutionResult) op" where
  "exec_insert env ref cols rows = change_table env ref (insert_rows cols rows) ''Inserted ''"

definition exec_update :: "sql_env \<Rightarrow> TableRef \<Rightarrow> (string \<times> Expr) list \<Rightarrow> Expr option \<Rightarrow> (dbms, ExecutionResult) op" where
  "exec_update env ref assignments cond =
     change_table env ref (update_rows (sq_regex env) assignments cond) ''Updated ''"

definition exec_delete :: "sql_env \<Rightarrow> TableRef \<Rightarrow> Expr option \<Rightarrow> (dbms, ExecutionResult) op" where
  "exec_delete env ref cond = change_table env ref (delete_rows (sq_regex env) cond) ''Deleted ''"

definition exec_select :: "sql_env \<Rightarrow> TableRef \<Rightarrow> SelectItem list \<Rightarrow> Expr option \<Rightarrow> (dbms, ExecutionResult) op" where
  "exec_select env ref items cond =
     bnd (resolve_database ref) (\<lambda>dbn. at_table env dbn (ref_table ref) (\<lambda>_. select_rows env items cond))"

fun exec_statement :: "sql_env \<Rightarrow> Statement \<Rightarrow> (dbms, ExecutionResult) op" where
  "exec_statement env (CreateDatabaseStmt name) = exec_create_database env name"
| "exec_statement env (DropDatabaseStmt name) = exec_drop_database name"
| "exec_statement env (UseStmt name) = exec_use name"
| "exec_statement env (CreateTableStmt ref cols) = exec_create_table env ref cols"
| "exec_statement env (DropTableStmt ref) = exec_drop_table env ref"
| "exec_statement env (InsertStmt ref cols rows) = exec_insert env ref cols rows"
| "exec_statement env (UpdateStmt ref assignments cond) = exec_update env ref assignments cond"
| "exec_statement env (DeleteStmt ref cond) = exec_delete env ref cond"
| "exec_statement env (SelectStmt ref items cond) = exec_select env ref items cond"

text \<open>\<open>e.what()\<close>; undefined behaviour and endless loops are no exceptions and are not caught.\<close>

fun error_text :: "error \<Rightarrow> string option" where
  "error_text (Runtime_error s) = Some s"
| "error_text (Logic_error s) = Some s"
| "error_text (Length_error s) = Some s"
| "error_text (Out_of_range s) = Some s"
| "error_text (Invalid_argument s) = Some s"
| "error_text Undefined_behaviour = None"
| "error_text Nontermination = None"

definition execute :: "sql_env \<Rightarrow> Statement \<Rightarrow> (dbms, ExecutionResult) op" where
  "execute env stmt d =
     (case exec_statement env stmt d of
        (Inr r, d') \<Rightarrow> (Inr r, d')
      | (Inl e, d') \<Rightarrow> (case error_text e of None \<Rightarrow> (Inl e, d') | Some msg \<Rightarrow> (Inr (failed_with msg), d')))"

text \<open>\<open>Parser::eof\<close> on a new parser, and \<open>run_query\<close>; \<open>parse\<close> answers a statement or the text of its error.\<close>

definition parser_eof :: "string \<Rightarrow> bool" where
  "parser_eof source = (\<forall>c \<in> set source. is_space c)"

definition run_query :: "sql_env \<Rightarrow> (string \<Rightarrow> string + Statement) \<Rightarrow> string \<Rightarrow> (dbms, ExecutionResult) op" where
  "run_query env parse sql =
     (if parser_eof sql then ret (done_with [] 0)
      else case parse sql of Inl msg \<Rightarrow> ret (failed_with msg) | Inr stmt \<Rightarrow> execute env stmt)"

end
