(* ===== verification/Where_Correct.thy ===== *)
theory Where_Correct
  imports Where Table_Correct
begin

text \<open>
  The evaluation of a WHERE clause against the logic of SQL, and the rows an index offers
  against the rows the clause selects.
\<close>

section \<open>Three-valued logic\<close>

text \<open>Kleene's logic: \<open>None\<close> is UNKNOWN.\<close>

fun kleene_and :: "bool option \<Rightarrow> bool option \<Rightarrow> bool option" where
  "kleene_and (Some False) _ = Some False"
| "kleene_and _ (Some False) = Some False"
| "kleene_and (Some True) b = b"
| "kleene_and None _ = None"

fun kleene_or :: "bool option \<Rightarrow> bool option \<Rightarrow> bool option" where
  "kleene_or (Some True) _ = Some True"
| "kleene_or _ (Some True) = Some True"
| "kleene_or (Some False) b = b"
| "kleene_or None _ = None"

lemma kleene_true:
  "kleene_and a b = Some True \<longleftrightarrow> a = Some True \<and> b = Some True"
  "kleene_or a b = Some True \<longleftrightarrow> a = Some True \<or> b = Some True"
  by (cases "(a, b)" rule: kleene_and.cases; simp) (cases "(a, b)" rule: kleene_or.cases; simp)

text \<open>Values are compared when both are integers or both are strings.\<close>

definition comparable :: "Value \<Rightarrow> Value \<Rightarrow> bool" where
  "comparable v w \<longleftrightarrow> (case (v, w) of (VInt _, VInt _) \<Rightarrow> True | (VStr _, VStr _) \<Rightarrow> True | _ \<Rightarrow> False)"

definition ordered_by :: "CompareOp \<Rightarrow> Value \<Rightarrow> Value \<Rightarrow> bool" where
  "ordered_by cmp v w =
     (case cmp of Eq \<Rightarrow> v = w | NotEq \<Rightarrow> v \<noteq> w | Lt \<Rightarrow> v < w | Gt \<Rightarrow> w < v | LtEq \<Rightarrow> v \<le> w | GtEq \<Rightarrow> w \<le> v)"

definition sql_compare :: "CompareOp \<Rightarrow> Value \<Rightarrow> Value \<Rightarrow> bool option" where
  "sql_compare cmp v w = (if comparable v w then Some (ordered_by cmp v w) else None)"

fun sql_truth :: "regex \<Rightarrow> Expr \<Rightarrow> table \<Rightarrow> Record \<Rightarrow> error + bool option" where
  "sql_truth re (CompareExpr cmp l r) t row =
     sum_bind (eval_atom l t row) (\<lambda>v. sum_bind (eval_atom r t row) (\<lambda>w. Inr (sql_compare cmp v w)))"
| "sql_truth re (BetweenExpr e l h) t row =
     sum_bind (eval_atom e t row) (\<lambda>v. sum_bind (eval_atom l t row) (\<lambda>lo. sum_bind (eval_atom h t row) (\<lambda>hi.
       Inr (kleene_and (sql_compare GtEq v lo) (sql_compare LtEq v hi)))))"
| "sql_truth re (LogicalExpr lop l r) t row =
     sum_bind (sql_truth re l t row) (\<lambda>a. sum_bind (sql_truth re r t row) (\<lambda>b.
       Inr ((case lop of And \<Rightarrow> kleene_and | Or \<Rightarrow> kleene_or) a b)))"
| "sql_truth re e t row =
     map_sum id (\<lambda>b. if tri_unknown b then None else Some (tri_value b)) (eval_where re e t row)"

lemma comparable_typed: "comparable v w \<longleftrightarrow> (\<exists>ty. typed ty v \<and> typed ty w)"
  by (cases v; cases w) (auto simp: comparable_def)

lemma Value_compare_ordered:
  assumes "Value_compare v w = (c, valid)"
  shows "valid = comparable v w \<and> (valid \<longrightarrow> to_bool_three_valued c cmp = ordered_by cmp v w)"
proof (cases "comparable v w")
  case True
  then obtain ty where "typed ty v" "typed ty w" by (auto simp: comparable_typed)
  then have "c = three_way v w" "valid" using assms by (simp_all add: Value_compare_typed)
  then show ?thesis using True by (cases cmp) (simp_all add: to_bool_three_valued_def ordered_by_def)
next
  case False
  then show ?thesis using assms by (cases v; cases w) (auto simp: comparable_def)
qed

text \<open>An answer of the code that stands for one of the logic, as far as selecting rows goes.\<close>

definition stands_for :: "TriBool \<Rightarrow> bool option \<Rightarrow> bool" where
  "stands_for b k \<longleftrightarrow> (tri_value b \<longleftrightarrow> k = Some True) \<and> \<not> (tri_value b \<and> tri_unknown b)"

lemma stands_for_selected: "stands_for b k \<Longrightarrow> selected b \<longleftrightarrow> k = Some True"
  by (auto simp: stands_for_def selected_def)

lemma stands_for_tri:
  "stands_for a j \<Longrightarrow> stands_for b k \<Longrightarrow> stands_for (tri_and a b) (kleene_and j k)"
  "stands_for a j \<Longrightarrow> stands_for b k \<Longrightarrow> stands_for (tri_or a b) (kleene_or j k)"
  unfolding stands_for_def kleene_true
  by (cases "tri_value a"; cases "tri_value b"; cases "tri_unknown a"; cases "tri_unknown b";
      simp add: tri_and_def tri_or_def)+

lemma like_known: "like re v p = Inr b \<Longrightarrow> \<not> (tri_value b \<and> tri_unknown b)"
  by (auto simp: like_def split: if_splits "Value.splits" sum.splits)

lemma eval_where_stands_for:
  "rel_sum (=) stands_for (eval_where re e t row) (sql_truth re e t row)"
proof (induction re e t row rule: eval_where.induct)
  case (1 re cmp l r t row)
  show ?case
  proof (cases "eval_atom l t row"; cases "eval_atom r t row")
    fix v w assume vw: "eval_atom l t row = Inr v" "eval_atom r t row = Inr w"
    obtain c valid where c: "Value_compare v w = (c, valid)" by (cases "Value_compare v w")
    show ?thesis using vw c Value_compare_ordered [OF c, of cmp] by (auto simp: stands_for_def sql_compare_def)
  qed simp_all
next
  case (2 re e l h t row)
  show ?case
  proof (cases "eval_atom e t row"; cases "eval_atom l t row"; cases "eval_atom h t row")
    fix v lo hi
    assume at: "eval_atom e t row = Inr v" "eval_atom l t row = Inr lo" "eval_atom h t row = Inr hi"
    obtain c1 valid1 where c1: "Value_compare v lo = (c1, valid1)" by (cases "Value_compare v lo")
    obtain c2 valid2 where c2: "Value_compare v hi = (c2, valid2)" by (cases "Value_compare v hi")
    show ?thesis
      using at c1 c2 Value_compare_ordered [OF c1, of GtEq] Value_compare_ordered [OF c2, of LtEq]
      by (auto simp: stands_for_def sql_compare_def kleene_true to_bool_three_valued_def)
  qed simp_all
next
  case (3 re e p t row)
  show ?case
  proof (cases "eval_where re (LikeExpr e p) t row")
    case (Inr b)
    then obtain v w where "like re v w = Inr b" by (auto simp: sum_bind_Inr)
    then show ?thesis using Inr like_known by (auto simp: stands_for_def)
  qed simp
next
  case (4 re lop l r t row)
  show ?case
  proof (cases "eval_where re l t row")
    case (Inl e)
    then show ?thesis using 4(1) by (cases "sql_truth re l t row") auto
  next
    case (Inr a)
    then obtain j where j: "sql_truth re l t row = Inr j" "stands_for a j"
      using 4(1) Inr by (cases "sql_truth re l t row") auto
    have r: "rel_sum (=) stands_for (eval_where re r t row) (sql_truth re r t row)" by (rule 4(2))
    show ?thesis
    proof (cases "eval_where re r t row")
      case (Inl e)
      then show ?thesis using r \<open>eval_where re l t row = Inr a\<close> j by (cases "sql_truth re r t row") auto
    next
      case (Inr b)
      then obtain k where k: "sql_truth re r t row = Inr k" "stands_for b k"
        using r by (cases "sql_truth re r t row") auto
      show ?thesis
        using \<open>eval_where re l t row = Inr a\<close> Inr j k stands_for_tri [OF j(2) k(2)] by (cases lop) auto
    qed
  qed
qed simp_all

text \<open>A clause that is FALSE for one operand and UNKNOWN for the other is UNKNOWN to the code.\<close>

lemma false_and_unknown: "tri_and (tri False False) (tri False True) = tri False True"
  "kleene_and (Some False) None = Some False"
  by (simp_all add: tri_and_def)

section \<open>Clauses a hint is made of\<close>

definition satisfies :: "regex \<Rightarrow> Expr \<Rightarrow> table \<Rightarrow> Record \<Rightarrow> bool" where
  "satisfies re e t row \<longleftrightarrow> (\<exists>b. eval_where re e t row = Inr b \<and> selected b)"

lemma eval_where_value: "eval_where re e t row = Inr b \<Longrightarrow> selected b \<longleftrightarrow> tri_value b"
  using eval_where_stands_for [of re e t row]
  by (cases "sql_truth re e t row") (auto simp: stands_for_def selected_def)

lemma satisfies_value: "satisfies re e t row \<longleftrightarrow> (\<exists>b. eval_where re e t row = Inr b \<and> tri_value b)"
  using eval_where_value by (auto simp: satisfies_def)

lemma satisfies_and:
  "satisfies re (LogicalExpr And l r) t row \<Longrightarrow> satisfies re l t row \<and> satisfies re r t row"
  by (auto simp: satisfies_value sum_bind_Inr tri_and_def split: if_splits)

lemma satisfies_walk: "satisfies re e t row \<Longrightarrow> c \<in> set (walk e) \<Longrightarrow> satisfies re c t row"
  by (induction e rule: walk.induct) (auto dest: satisfies_and)

definition admits :: "IndexHint \<Rightarrow> Value \<Rightarrow> bool" where
  "admits h v \<longleftrightarrow>
     (hint_eq h \<longrightarrow> comparable v (eq_value h) \<and> v = eq_value h) \<and>
     (has_lo h \<longrightarrow> comparable v (lo_value h) \<and> (if lo_inclusive h then lo_value h \<le> v else lo_value h < v)) \<and>
     (has_hi h \<longrightarrow> comparable v (hi_value h) \<and> (if hi_inclusive h then v \<le> hi_value h else v < hi_value h))"

lemma admits_has: "admits (h\<lparr>hint_has := b\<rparr>) v = admits h v"
  by (simp add: admits_def)

lemma comparable_commute: "comparable v w = comparable w v"
  by (auto simp: comparable_typed)

lemma satisfies_compare:
  assumes "satisfies re (CompareExpr cmp l r) t row" and "eval_atom l t row = Inr v" and "eval_atom r t row = Inr w"
  shows "comparable v w \<and> ordered_by cmp v w"
proof -
  obtain c valid where c: "Value_compare v w = (c, valid)" by (cases "Value_compare v w")
  show ?thesis
    using assms Value_compare_ordered [OF c, of cmp]
    by (auto simp: satisfies_def c selected_def split: if_splits)
qed

lemma satisfies_between:
  assumes "satisfies re (BetweenExpr e l h) t row" and "eval_atom e t row = Inr v" "eval_atom l t row = Inr lo"
    "eval_atom h t row = Inr hi"
  shows "comparable v lo \<and> lo \<le> v \<and> comparable v hi \<and> v \<le> hi"
proof -
  obtain c1 valid1 where c1: "Value_compare v lo = (c1, valid1)" by (cases "Value_compare v lo")
  obtain c2 valid2 where c2: "Value_compare v hi = (c2, valid2)" by (cases "Value_compare v hi")
  show ?thesis
    using assms Value_compare_ordered [OF c1, of GtEq] Value_compare_ordered [OF c2, of LtEq]
    by (auto simp: satisfies_def c1 c2 selected_def to_bool_three_valued_def ordered_by_def split: if_splits)
qed

lemma column_value:
  assumes "is_column_named e nm" and "column_index nm (tb_schema t) = Some i"
  shows "eval_atom e t row = Inr (row ! i)"
  using assms by (cases e) (auto simp: require_column_def)

lemma literal_value: "as_literal e = Some v \<Longrightarrow> eval_atom e t row = Inr v"
  by (cases e) auto

lemma against_literal_holds:
  assumes sat: "satisfies re (CompareExpr cmp l r) t row" and i: "column_index nm (tb_schema t) = Some i"
    and lit: "column_against_literal nm cmp l r = Some (cmp', w)"
  shows "comparable (row ! i) w \<and> ordered_by cmp' (row ! i) w"
proof (cases "is_column_named l nm \<and> (\<exists>v. as_literal r = Some v)")
  case True
  then have "as_literal r = Some w" "cmp' = cmp" using lit by (auto simp: column_against_literal_def)
  then show ?thesis
    using satisfies_compare [OF sat column_value [OF _ i] literal_value] True by blast
next
  case False
  then have w: "as_literal l = Some w" "is_column_named r nm" "cmp' = swap_op cmp"
    using lit by (auto simp: column_against_literal_def split: if_splits option.splits)
  then have "comparable w (row ! i) \<and> ordered_by cmp w (row ! i)"
    using satisfies_compare [OF sat literal_value column_value [OF _ i]] by blast
  then show ?thesis
    using w(3) comparable_commute by (cases cmp) (auto simp: ordered_by_def swap_op_def)
qed

lemma admits_tighten:
  assumes "admits h v" and "comparable v w" and "ordered_by cmp v w"
  shows "admits (tighten cmp w h) v"
  using assms by (cases cmp) (auto simp: admits_def tighten_def ordered_by_def)

lemma admits_use_clause:
  assumes h: "admits h (row ! i)" and i: "column_index (col_name col) (tb_schema t) = Some i"
    and sat: "satisfies re c t row"
  shows "admits (use_clause col c h) (row ! i)"
proof (cases "(col, c, h)" rule: use_clause.cases)
  case (1 col' cmp l r cand)
  then show ?thesis
    using h sat i against_literal_holds [of re cmp l r t row "col_name col" i]
    by (auto split: option.splits prod.splits intro: admits_tighten)
next
  case (2 col' e l hh cand)
  show ?thesis
  proof (cases "is_column_named e (col_name col) \<and> (\<exists>lo hi. as_literal l = Some lo \<and> as_literal hh = Some hi)")
    case True
    then obtain lo hi where "as_literal l = Some lo" "as_literal hh = Some hi" by blast
    then show ?thesis
      using h 2 True satisfies_between [of re e l hh t row "row ! i" lo hi] sat
        column_value [OF _ i, of e row] literal_value
      by (auto simp: admits_def)
  next
    case False
    then show ?thesis using h 2 by (auto split: option.splits)
  qed
qed (use h in auto)

lemma admits_column_hint:
  assumes "column_index (col_name col) (tb_schema t) = Some i" and "\<forall>c \<in> set clauses. satisfies re c t row"
  shows "admits (column_hint i col clauses) (row ! i)"
proof -
  have "admits (fold (use_clause col) clauses h) (row ! i)" if "admits h (row ! i)" for h
    using assms(2) that by (induction clauses arbitrary: h) (auto intro: admits_use_clause [OF _ assms(1)])
  moreover have "admits (no_hint\<lparr>hint_column := Some i\<rparr>) (row ! i)" by (simp add: admits_def no_hint_def)
  ultimately show ?thesis by (simp add: column_hint_def)
qed

lemma tighten_column: "hint_column (tighten cmp w h) = hint_column h"
  by (cases cmp) (simp_all add: tighten_def)

lemma use_clause_column: "hint_column (use_clause col c h) = hint_column h"
  by (cases "(col, c, h)" rule: use_clause.cases) (auto simp: tighten_column split: option.splits)

lemma column_hint_column: "hint_column (column_hint i col clauses) = Some i"
proof -
  have "hint_column (fold (use_clause col) clauses h) = hint_column h" for h
    by (induction clauses arbitrary: h) (simp_all add: use_clause_column)
  then show ?thesis by (simp add: column_hint_def)
qed

lemma first_hint_cases:
  "\<not> hint_has (first_hint t clauses cols) \<or>
   (\<exists>i col. first_hint t clauses cols = (column_hint i col clauses)\<lparr>hint_has := True\<rparr> \<and>
      column_index (col_name col) (tb_schema t) = Some i \<and> column_is_indexed t i \<and>
      (hint_eq (column_hint i col clauses) \<or> has_lo (column_hint i col clauses) \<or> has_hi (column_hint i col clauses)))"
proof (induction cols)
  case (Cons col cols)
  then show ?case
    by (auto simp: Let_def split: option.splits simp del: split_paired_Ex)
qed (simp add: no_hint_def)


section \<open>Candidates\<close>

definition hint_typed :: "DataType \<Rightarrow> IndexHint \<Rightarrow> bool" where
  "hint_typed ty h \<longleftrightarrow> (hint_eq h \<longrightarrow> typed ty (eq_value h)) \<and>
     (\<not> hint_eq h \<longrightarrow> (has_lo h \<longrightarrow> typed ty (lo_value h)) \<and> (has_hi h \<longrightarrow> typed ty (hi_value h)))"

lemma admits_typed: "admits h v \<Longrightarrow> typed ty v \<Longrightarrow> hint_typed ty h"
  by (cases v) (auto simp: admits_def hint_typed_def comparable_typed typed_iff)

text \<open>Every literal the hint uses can be looked up in the index it names.\<close>

definition hint_usable :: "Expr option \<Rightarrow> table \<Rightarrow> bool" where
  "hint_usable cond t \<longleftrightarrow>
     (let h = derive_index_hint cond t in hint_has h \<longrightarrow> hint_typed (column_type t (the (hint_column h))) h)"

lemma hint_column_indexed:
  assumes "hint_has (derive_index_hint cond t)"
  shows "the (hint_column (derive_index_hint cond t)) \<in> set (indexed_columns t)"
proof -
  obtain e where e: "cond = Some e" using assms by (cases cond) (simp_all add: derive_index_hint_def no_hint_def)
  then show ?thesis
    using assms first_hint_cases [of t "walk e" "tb_schema t"]
    by (auto simp: derive_index_hint_def indexed_columns_iff column_hint_column)
qed

lemma hint_admits:
  assumes "hint_has (derive_index_hint (Some e) t)" and "satisfies re e t row"
  shows "admits (derive_index_hint (Some e) t) (row ! the (hint_column (derive_index_hint (Some e) t)))"
proof -
  obtain i col where h: "first_hint t (walk e) (tb_schema t) = (column_hint i col (walk e))\<lparr>hint_has := True\<rparr>"
    "column_index (col_name col) (tb_schema t) = Some i"
    using assms(1) first_hint_cases [of t "walk e" "tb_schema t"] by (auto simp: derive_index_hint_def)
  have "admits (column_hint i col (walk e)) (row ! i)"
    using admits_column_hint [OF h(2)] satisfies_walk [OF assms(2)] by blast
  then show ?thesis by (simp add: derive_index_hint_def h(1) column_hint_column admits_has)
qed

text \<open>The ids that \<open>select_candidates\<close> answers: those of the rows whose value the hint admits.\<close>

definition offered :: "Expr option \<Rightarrow> table \<Rightarrow> nat \<Rightarrow> bool" where
  "offered cond t i \<longleftrightarrow> (\<exists>r. tb_records t i = Some r \<and>
     (let h = derive_index_hint cond t; v = r ! the (hint_column h) in
      hint_has h \<longrightarrow>
        (if hint_eq h then v = eq_value h
         else in_range (if has_lo h then Some (lo_value h) else None) (lo_inclusive h)
                (if has_hi h then Some (hi_value h) else None) (hi_inclusive h) v)))"

lemma column_pairs_snd:
  assumes "distinct (map fst kvs)" and "set kvs = column_pairs t c"
  shows "distinct (map snd (filter P kvs))"
proof -
  have "inj_on snd (set (filter P kvs))" using assms(2) by (auto simp: inj_on_def column_pairs_def)
  moreover have "distinct (filter P kvs)" using assms(1) by (simp add: distinct_map)
  ultimately show ?thesis by (simp add: distinct_map)
qed

lemma candidates_ok:
  assumes inv: "table_inv t" and usable: "hint_usable cond t"
  shows "\<exists>ids t'. select_candidates cond t = (Inr ids, t') \<and> same_rows t t' \<and> table_inv t' \<and>
           distinct ids \<and> (\<forall>i. i \<in> set ids \<longleftrightarrow> offered cond t i) \<and> keeps_means t t'"
proof (cases "hint_has (derive_index_hint cond t)")
  case False
  then have "select_candidates cond t = (Inr (tb_order t), t)" by (simp add: select_candidates_def Let_def)
  then show ?thesis
    using inv False by (intro exI [of _ "tb_order t"] exI [of _ t]) (auto simp: table_inv_def rows_ok_def offered_def Let_def)
next
  case True
  define h where "h = derive_index_hint cond t"
  define c where "c = the (hint_column h)"
  have c: "c \<in> set (indexed_columns t)" using hint_column_indexed [OF True] by (simp add: h_def c_def)
  have ty: "hint_typed (column_type t c) h" using usable True by (simp add: hint_usable_def Let_def h_def c_def)
  obtain f where f: "indexes_hold t f" "\<forall>c \<in> set (indexed_columns t). set (f c) = column_pairs t c"
    using inv by (auto simp: table_inv_def)
  have fc: "set (f c) = column_pairs t c" "distinct (map fst (f c))"
    using f(2) c held_keys_distinct [OF f(1) c] by auto
  have offers: "offered cond t i \<longleftrightarrow> (\<exists>v. (v, i) \<in> set (f c) \<and>
      (if hint_eq h then v = eq_value h
       else in_range (if has_lo h then Some (lo_value h) else None) (lo_inclusive h)
              (if has_hi h then Some (hi_value h) else None) (hi_inclusive h) v))" for i
    using True unfolding offered_def fc(1) column_pairs_def h_def [symmetric] Let_def c_def [symmetric] by auto
  show ?thesis
  proof (cases "hint_eq h")
    case eq: True
    then have "typed (column_type t c) (eq_value h)" using ty by (simp add: hint_typed_def)
    then obtain t' where t': "index_find c (eq_value h) t = (Inr (map_of (f c) (eq_value h)), t')" "looked_at f t t'"
      using index_find_ok [OF f(1) c] by blast
    let ?ids = "case map_of (f c) (eq_value h) of None \<Rightarrow> [] | Some i \<Rightarrow> [i]"
    have "select_candidates cond t = (Inr ?ids, t')"
      using True c eq t'(1)
      by (simp add: select_candidates_def Let_def indexed_columns_iff flip: h_def c_def) (simp add: bnd_def ret_def)
    moreover have "i \<in> set ?ids \<longleftrightarrow> offered cond t i" for i
      using eq fc(2) by (auto simp: offers split: option.splits dest: map_of_SomeD)
    moreover have "distinct ?ids" by (simp split: option.splits)
    ultimately show ?thesis using t'(2) looked_at_inv [OF t'(2) inv f(2)] by (auto simp: looked_at_def)
  next
    case range: False
    let ?P = "in_range (if has_lo h then Some (lo_value h) else None) (lo_inclusive h)
                (if has_hi h then Some (hi_value h) else None) (hi_inclusive h)"
    let ?ids = "map snd (filter (\<lambda>(v, _). ?P v) (f c))"
    have bounds: "\<And>l. (if has_lo h then Some (lo_value h) else None) = Some l \<Longrightarrow> typed (column_type t c) l"
      "\<And>u. (if has_hi h then Some (hi_value h) else None) = Some u \<Longrightarrow> typed (column_type t c) u"
      using ty range by (auto simp: hint_typed_def split: if_splits)
    obtain t' where t': "collect_range c (if has_lo h then Some (lo_value h) else None) (lo_inclusive h)
        (if has_hi h then Some (hi_value h) else None) (hi_inclusive h) t = (Inr ?ids, t')" "looked_at f t t'"
      using collect_range_ok [OF f(1) c bounds] by blast
    have "select_candidates cond t = (Inr ?ids, t')"
      using True c range t'(1)
      by (simp add: select_candidates_def Let_def indexed_columns_iff flip: h_def c_def)
    moreover have "i \<in> set ?ids \<longleftrightarrow> offered cond t i" for i
      unfolding offers if_not_P [OF range] by force
    moreover have "distinct ?ids" by (rule column_pairs_snd [OF fc(2,1)])
    ultimately show ?thesis using t'(2) looked_at_inv [OF t'(2) inv f(2)] by (auto simp: looked_at_def)
  qed
qed

text \<open>No row that satisfies the clause is passed over; where there is one, the hint is usable.\<close>

lemma satisfies_offered:
  assumes row: "tb_records t i = Some r" and sat: "satisfies re e t r"
  shows "offered (Some e) t i"
proof (cases "hint_has (derive_index_hint (Some e) t)")
  case True
  then show ?thesis
    using row hint_admits [OF True sat] by (auto simp: offered_def Let_def admits_def in_range_def)
qed (use row in \<open>simp add: offered_def\<close>)

lemma satisfies_usable:
  assumes inv: "table_inv t" and row: "tb_records t i = Some r" and sat: "satisfies re e t r"
  shows "hint_usable (Some e) t"
proof (cases "hint_has (derive_index_hint (Some e) t)")
  case True
  let ?c = "the (hint_column (derive_index_hint (Some e) t))"
  have ok: "check_types (tb_schema t) r = Inr ()" "length r = length (tb_schema t)"
    using inv row by (auto simp: table_inv_def rows_ok_def)
  have "typed (column_type t ?c) (r ! ?c)" by (rule indexed_typed(1) [OF ok hint_column_indexed [OF True]])
  then show ?thesis
    using admits_typed [OF hint_admits [OF True sat]] by (simp add: hint_usable_def Let_def)
qed (simp add: hint_usable_def)

end
