(* ===== verification/Executor_Correct.thy ===== *)
theory Executor_Correct
  imports Executor Where_Correct "HOL-Library.Multiset"
begin

text \<open>
  The loops of the executor over the rows of a table, and the frame of its operations: what
  they keep of the table, of the database and of the system.
\<close>

section \<open>A table is read through its schema\<close>

lemma require_column_same_rows: "same_rows t t' \<Longrightarrow> require_column t' nm = require_column t nm"
  by (simp add: require_column_def same_rowsD cong: option.case_cong)

lemma eval_atom_same_rows: "same_rows t t' \<Longrightarrow> eval_atom e t' r = eval_atom e t r"
  by (cases e) (simp_all add: require_column_same_rows)

lemma eval_where_same_rows:
  assumes "same_rows t t'"
  shows "eval_where re e t' r = eval_where re e t r"
proof (induction e)
  case (LogicalExpr lop e1 e2)
  then show ?case by (simp cong: sum.case_cong)
qed (simp_all add: eval_atom_same_rows [OF assms])

lemma row_matches_same_rows: "same_rows t t' \<Longrightarrow> row_matches re cond t' r = row_matches re cond t r"
  by (simp add: row_matches_def eval_where_same_rows split: option.split)

lemma record_at_same_rows: "same_rows t t' \<Longrightarrow> record_at t' i = record_at t i"
  by (simp add: record_at_def same_rowsD)

lemma scan_rows_same_rows:
  assumes "same_rows t t'"
  shows "scan_rows re cond t' f rids acc = scan_rows re cond t f rids acc"
proof (induction rids arbitrary: acc)
  case (Cons i rids)
  have "scan_rows re cond t' f rids = scan_rows re cond t f rids" by (rule ext) (rule Cons.IH)
  then show ?case by (simp add: record_at_same_rows [OF assms] row_matches_same_rows [OF assms])
qed simp

section \<open>Rows that match\<close>

definition matches_row :: "regex \<Rightarrow> Expr option \<Rightarrow> table \<Rightarrow> nat \<Rightarrow> bool" where
  "matches_row re cond t i \<longleftrightarrow> (\<exists>r. tb_records t i = Some r \<and> row_matches re cond t r = Inr True)"

definition no_where_errors :: "regex \<Rightarrow> Expr option \<Rightarrow> table \<Rightarrow> bool" where
  "no_where_errors re cond t \<longleftrightarrow>
     (\<forall>i r. tb_records t i = Some r \<longrightarrow> offered cond t i \<longrightarrow> (\<exists>b. row_matches re cond t r = Inr b))"

lemma scan_rows_filter:
  assumes "\<forall>i \<in> set rids. \<exists>r b. tb_records t i = Some r \<and> row_matches re cond t r = Inr b"
  shows "scan_rows re cond t f rids acc = scan_rows re None t f (filter (matches_row re cond t) rids) acc"
  using assms
proof (induction rids arbitrary: acc)
  case (Cons i rids)
  obtain r b where "tb_records t i = Some r" "row_matches re cond t r = Inr b" using Cons.prems by auto
  moreover from this have "matches_row re cond t i = b" by (simp add: matches_row_def)
  moreover have "scan_rows re cond t f rids = scan_rows re None t f (filter (matches_row re cond t) rids)"
    by (rule ext) (use Cons in simp)
  ultimately show ?case by (cases b) (simp_all add: record_at_def row_matches_def [of re None])
qed simp

lemma scan_rows_push:
  assumes "\<forall>i \<in> set rids. tb_records t i \<noteq> None"
  shows "scan_rows re None t (\<lambda>i r acc. Inr (acc @ [g i r])) rids acc =
    Inr (acc @ map (\<lambda>i. g i (the (tb_records t i))) rids)"
  using assms
proof (induction rids arbitrary: acc)
  case (Cons i rids)
  obtain r where "tb_records t i = Some r" using Cons.prems by auto
  then show ?case using Cons by (simp add: record_at_def row_matches_def)
qed simp

lemma scan_rows_matched:
  assumes "\<forall>i \<in> set rids. \<exists>r b. tb_records t i = Some r \<and> row_matches re cond t r = Inr b"
  shows "scan_rows re cond t (\<lambda>i r acc. Inr (acc @ [g i r])) rids acc =
    Inr (acc @ map (\<lambda>i. g i (the (tb_records t i))) (filter (matches_row re cond t) rids))"
proof -
  have "\<forall>i \<in> set (filter (matches_row re cond t) rids). tb_records t i \<noteq> None" by (auto simp: matches_row_def)
  from scan_rows_push [OF this] show ?thesis unfolding scan_rows_filter [OF assms] .
qed

lemma satisfies_matches:
  assumes "tb_records t i = Some r" and "row_matches re cond t r = Inr True"
  shows "offered cond t i"
proof (cases cond)
  case None
  then show ?thesis using assms(1) by (simp add: offered_def derive_index_hint_def no_hint_def)
next
  case (Some e)
  then have "satisfies re e t r" using assms(2) by (auto simp: row_matches_def satisfies_def sum_bind_Inr)
  then show ?thesis using satisfies_offered [OF assms(1)] Some by simp
qed

lemma matched_rows_ok:
  assumes inv: "table_inv t" and usable: "hint_usable cond t" and ok: "no_where_errors re cond t"
  shows "\<exists>rids t'. matched_rows re cond t = (Inr rids, t') \<and> same_rows t t' \<and> table_inv t' \<and>
           distinct rids \<and> set rids = {i. matches_row re cond t i} \<and> keeps_means t t'"
proof -
  obtain rids t' where c: "select_candidates cond t = (Inr rids, t')" "same_rows t t'" "table_inv t'" "distinct rids"
    "\<And>i. i \<in> set rids \<longleftrightarrow> offered cond t i" "keeps_means t t'"
    using candidates_ok [OF inv usable] by blast
  have rows: "\<forall>i \<in> set rids. \<exists>r b. tb_records t i = Some r \<and> row_matches re cond t r = Inr b"
    using ok c(5) by (fastforce simp: no_where_errors_def offered_def)
  let ?m = "filter (matches_row re cond t) rids"
  have "scan_rows re cond t (\<lambda>i r acc. Inr (acc @ [i])) rids [] = Inr ?m"
    using scan_rows_matched [OF rows, of "\<lambda>i r. i"] by simp
  then have "matched_rows re cond t = (Inr ?m, t')"
    using c(1) by (simp add: matched_rows_def op_simps scan_rows_same_rows [OF c(2)])
  moreover have "set ?m = {i. matches_row re cond t i}"
    using c(5) satisfies_matches by (auto simp: matches_row_def)
  ultimately show ?thesis using c by (intro exI [of _ ?m] exI [of _ t']) simp
qed

text \<open>The same rows as a scan of the whole table, in another order.\<close>

lemma matched_rows_scan:
  assumes "table_inv t" and "hint_usable cond t"
    and "\<forall>i r. tb_records t i = Some r \<longrightarrow> (\<exists>b. row_matches re cond t r = Inr b)"
  shows "\<exists>rids all t'. matched_rows re cond t = (Inr rids, t') \<and>
           scan_rows re cond t (\<lambda>i r acc. Inr (acc @ [i])) (tb_order t) [] = Inr all \<and>
           mset rids = mset all \<and> same_rows t t' \<and> table_inv t'"
proof -
  have order: "distinct (tb_order t)" "set (tb_order t) = dom (tb_records t)"
    using assms(1) by (simp_all add: table_inv_def rows_ok_def)
  obtain rids t' where m: "matched_rows re cond t = (Inr rids, t')" "same_rows t t'" "table_inv t'"
    "distinct rids" "set rids = {i. matches_row re cond t i}"
    using matched_rows_ok [OF assms(1,2), of re] assms(3) by (auto simp: no_where_errors_def)
  let ?all = "filter (matches_row re cond t) (tb_order t)"
  have "\<forall>i \<in> set (tb_order t). \<exists>r b. tb_records t i = Some r \<and> row_matches re cond t r = Inr b"
    using assms(3) order(2) by blast
  then have all: "scan_rows re cond t (\<lambda>i r acc. Inr (acc @ [i])) (tb_order t) [] = Inr ?all"
    using scan_rows_matched [of "tb_order t" t re cond "\<lambda>i r. i"] by simp
  have "set rids = set ?all" using m(5) order(2) by (auto simp: matches_row_def)
  moreover have "distinct ?all" using order(1) by simp
  ultimately have "mset rids = mset ?all" using m(4) set_eq_iff_mset_eq_distinct by blast
  with m all show ?thesis by blast
qed


section \<open>The system stays in shape\<close>

text \<open>
  Databases are filed under their own names, each once, and the active database exists. Every
  statement keeps that, whether it ends normally or not.
\<close>

definition dbms_inv :: "dbms \<Rightarrow> bool" where
  "dbms_inv d \<longleftrightarrow> distinct (map fst (dm_databases d)) \<and> (\<forall>k db. map_of (dm_databases d) k = Some db \<longrightarrow> db_name db = k) \<and>
     (dm_active d = [] \<or> has_database d (dm_active d))"

definition keeps :: "('s \<Rightarrow> bool) \<Rightarrow> ('s, 'a) op \<Rightarrow> bool" where
  "keeps P m \<longleftrightarrow> (\<forall>s. P s \<longrightarrow> P (snd (m s)))"

lemma keepsD: "keeps P m \<Longrightarrow> P s \<Longrightarrow> P (snd (m s))"
  by (simp add: keeps_def)

lemma keeps_bnd:
  assumes "keeps P m" and "\<And>x. keeps P (f x)"
  shows "keeps P (bnd m f)"
  unfolding keeps_def
proof (intro allI impI)
  fix s assume "P s"
  obtain r s1 where m: "m s = (r, s1)" by (cases "m s")
  then have "P s1" using keepsD [OF assms(1) \<open>P s\<close>] by simp
  then show "P (snd (bnd m f s))" using assms(2) m by (auto simp: bnd_def keeps_def split: sum.splits)
qed

lemma keeps_for_each: "(\<And>x. keeps P (f x)) \<Longrightarrow> keeps P (for_each f xs)"
  by (induction xs) (auto simp: andthen_def intro!: keeps_bnd, simp_all add: keeps_def ret_def)

lemma keeps_basic:
  "keeps P (ret x)" "keeps P (throw e)" "keeps P (gets g)" "keeps P (of_sum r)" "keeps P (throw_if b e)"
  by (simp_all add: keeps_def op_simps)

lemma keeps_modify: "(\<And>s. P s \<Longrightarrow> P (f s)) \<Longrightarrow> keeps P (modify f)"
  by (simp add: keeps_def modify_def)

lemma keeps_andthen: "keeps P m \<Longrightarrow> keeps P n \<Longrightarrow> keeps P (andthen m n)"
  by (simp add: andthen_def keeps_bnd)

lemma keeps_if: "keeps P m \<Longrightarrow> keeps P n \<Longrightarrow> keeps P (if b then m else n)"
  by simp

lemmas keeps_rules = keeps_bnd keeps_andthen keeps_for_each keeps_basic keeps_modify keeps_if

lemma keeps_on_table: "keeps (\<lambda>db. db_name db = n) (on_table name m)"
  by (simp add: keeps_def on_table_def split: option.splits prod.splits)

lemma keeps_set_storage_dir: "keeps (\<lambda>db. db_name db = n) (set_storage_dir io dir)"
  unfolding set_storage_dir_def bind_table_def by (intro keeps_rules keeps_on_table) simp

lemma keeps_create_table: "keeps (\<lambda>db. db_name db = n) (create_table io name cols)"
  unfolding create_table_def bind_table_def by (intro keeps_rules keeps_on_table) simp

lemma keeps_drop_table: "keeps (\<lambda>db. db_name db = n) (drop_table name)"
  by (simp add: keeps_def drop_table_def split: option.splits)

lemma keeps_save_to: "keeps (\<lambda>db. db_name db = n) (save_to io dir)"
  unfolding save_to_def remove_stale_def save_table_def Let_def
  by (intro keeps_rules keeps_set_storage_dir keeps_on_table) simp_all

text \<open>Databases are changed in place: no name is lost, and none is added.\<close>

lemma keeps_on_database:
  assumes "\<And>n. keeps (\<lambda>db. db_name db = n) m"
  shows "keeps dbms_inv (on_database k m)"
  unfolding keeps_def
proof (intro allI impI)
  fix d assume inv: "dbms_inv d"
  show "dbms_inv (snd (on_database k m d))"
  proof (cases "map_of (dm_databases d) k")
    case (Some db)
    obtain r db' where m: "m db = (r, db')" by (cases "m db")
    have "db_name db = k" using inv Some by (simp add: dbms_inv_def)
    then have "db_name db' = k" using keepsD [OF assms, of db k] m by simp
    then show ?thesis
      using inv Some m by (auto simp: dbms_inv_def on_database_def distinct_update has_database_def update_conv')
  qed (use inv in \<open>simp add: on_database_def\<close>)
qed


lemma inv_new_database:
  assumes "dbms_inv d" and "\<not> has_database d name"
  shows "dbms_inv (d\<lparr>dm_databases := dm_databases d @ [(name, new_database name files)]\<rparr>)"
  using assms
  by (auto simp: dbms_inv_def has_database_def new_database_def map_add_def map_of_eq_None_iff split: option.splits)

lemma inv_drop_database:
  assumes "dbms_inv d"
  shows "dbms_inv (d\<lparr>dm_databases := AList.delete name (dm_databases d),
                     dm_active := (if dm_active d = name then [] else dm_active d), dm_dirs := dirs\<rparr>)"
  using assms by (auto simp: dbms_inv_def has_database_def delete_conv' distinct_delete)

lemma keeps_create_database: "keeps dbms_inv (create_database io name)"
  unfolding keeps_def
proof (intro allI impI)
  fix d assume inv: "dbms_inv d"
  show "dbms_inv (snd (create_database io name d))"
  proof (cases "has_database d name")
    case False
    let ?d = "d\<lparr>dm_databases := dm_databases d @
        [(name, new_database name (case map_of (dm_dirs d) name of None \<Rightarrow> [] | Some fs \<Rightarrow> fs))]\<rparr>"
    have "create_database io name d = on_database name (set_storage_dir io (join_path (dm_root d) name)) ?d"
      using False by (simp add: create_database_def op_simps)
    then show ?thesis
      using keepsD [OF keeps_on_database [OF keeps_set_storage_dir] inv_new_database [OF inv False]] by simp
  qed (use inv in \<open>simp add: create_database_def op_simps\<close>)
qed

lemma keeps_drop_database: "keeps dbms_inv (drop_database name)"
  unfolding drop_database_def
  by (intro keeps_rules) (rule inv_drop_database)

lemma keeps_require_database: "keeps dbms_inv (require_database name)"
  unfolding require_database_def by (intro keeps_on_database keeps_rules)

lemma keeps_use_database: "keeps dbms_inv (use_database name)"
  unfolding keeps_def
proof (intro allI impI)
  fix d assume inv: "dbms_inv d"
  show "dbms_inv (snd (use_database name d))"
  proof (cases "map_of (dm_databases d) name")
    case (Some db)
    then have "AList.update name db (dm_databases d) = dm_databases d" by (rule update_triv)
    then have "use_database name d = (Inr (), d\<lparr>dm_active := name\<rparr>)"
      using Some by (simp add: use_database_def require_database_def on_database_def op_simps)
    then show ?thesis using inv Some by (simp add: dbms_inv_def has_database_def)
  qed (use inv in \<open>simp add: use_database_def require_database_def on_database_def op_simps\<close>)
qed

lemma keeps_save_database: "keeps dbms_inv (save_database io name)"
  unfolding save_database_def by (intro keeps_rules keeps_on_database keeps_save_to)

lemma keeps_resolve: "keeps dbms_inv (resolve_database ref)"
  unfolding resolve_database_def active_or_throw_def by (intro keeps_rules keeps_require_database)

lemma keeps_save_named: "keeps dbms_inv (save_named env dbn)"
  unfolding save_named_def by (intro keeps_rules keeps_on_database keeps_save_database)

lemma keeps_at_table: "keeps dbms_inv (at_table env dbn name m)"
  unfolding at_table_def by (intro keeps_on_database keeps_rules keeps_on_table)

lemma keeps_change_table: "keeps dbms_inv (change_table env ref m verb)"
  unfolding change_table_def by (intro keeps_rules keeps_resolve keeps_at_table keeps_save_named)

lemma keeps_first_repeated: "keeps P (case first_repeated seen xs of None \<Rightarrow> ret () | Some c \<Rightarrow> throw (e c))"
  by (simp add: keeps_basic split: option.split)

lemma keeps_exec_statement: "keeps dbms_inv (exec_statement env stmt)"
proof (cases stmt)
  case (CreateTableStmt ref cols)
  then show ?thesis
    by (simp add: exec_create_table_def)
      (intro keeps_rules keeps_resolve keeps_first_repeated keeps_on_database keeps_create_table keeps_save_named)
next
  case (DropTableStmt ref)
  then show ?thesis
    by (simp add: exec_drop_table_def)
      (intro keeps_rules keeps_resolve keeps_on_database keeps_drop_table keeps_save_named)
qed (simp_all add: exec_create_database_def exec_drop_database_def exec_use_def exec_insert_def exec_update_def
      exec_delete_def exec_select_def keeps_rules keeps_create_database keeps_drop_database keeps_use_database
      keeps_save_database keeps_resolve keeps_at_table keeps_change_table)

lemma execute_state: "snd (execute env stmt d) = snd (exec_statement env stmt d)"
  by (simp add: execute_def split: prod.splits sum.splits option.splits)

lemma execute_keeps_inv: "dbms_inv d \<Longrightarrow> dbms_inv (snd (execute env stmt d))"
  by (simp add: execute_state keepsD [OF keeps_exec_statement])

end
