(* ===== verification/Select_Correct.thy ===== *)
theory Select_Correct
  imports Executor_Correct
begin

text \<open>
  What SELECT answers: the JSON of the rows that match, or one row of aggregates over them. A
  sum is exact as long as it cannot leave the range of 64-bit integers.
\<close>

section \<open>Sums\<close>

lemma bit_length_bound: "n < 2 ^ k \<Longrightarrow> bit_length n \<le> k"
proof (induction k arbitrary: n)
  case (Suc k)
  then have "bit_length (n div 2) \<le> k" by simp
  then show ?case by (subst bit_length.simps) simp
qed (simp add: bit_length.simps)

lemma round_nat_exact: "n < 2 ^ p \<Longrightarrow> round_nat p n = n"
  using bit_length_bound [of n p] by (simp add: round_nat_def divide_to_even_def)

lemma round_int_exact: "\<bar>i\<bar> < 2 ^ p \<Longrightarrow> round_int p i = i"
  by (simp add: round_int_def round_nat_exact nat_less_iff sgn_mult_abs)

fun int_value :: "Value \<Rightarrow> int" where
  "int_value (VInt i) = sint i"
| "int_value _ = 0"

definition cell :: "table \<Rightarrow> nat \<Rightarrow> nat \<Rightarrow> Value" where
  "cell t c i = the (tb_records t i) ! c"

lemma add_row_sum:
  assumes it: "ri_kind it = Agg" "ri_agg it = Sum" and v: "r ! ri_column it = v" "matches v TInt"
    and small: "\<bar>ac_sum ac + int_value v\<bar> < 2 ^ 63"
  shows "\<exists>ac'. sum_map (add_row t r) [(it, ac)] = Inr [(it, ac')] \<and> ac_sum ac' = ac_sum ac + int_value v \<and>
           (ac_seen ac' \<longleftrightarrow> ac_seen ac \<or> \<not> is_null v)"
proof (cases v)
  case (VInt i)
  have "\<bar>ac_sum ac + sint i\<bar> < 2 ^ 64" using small VInt by simp
  then have "add_long_double (ac_sum ac) (sint i) = ac_sum ac + sint i"
    unfolding add_long_double_def by (rule round_int_exact)
  then show ?thesis using it v VInt by (simp add: add_row_def)
qed (use it v in \<open>simp_all add: add_row_def\<close>)

lemma scan_sum:
  assumes it: "ri_kind it = Agg" "ri_agg it = Sum"
    and rows: "\<forall>i \<in> set rids. tb_records t i \<noteq> None \<and> matches (cell t (ri_column it) i) TInt"
    and small: "\<bar>ac_sum ac\<bar> + (\<Sum>i\<leftarrow>rids. \<bar>int_value (cell t (ri_column it) i)\<bar>) < 2 ^ 63"
  shows "\<exists>ac'. scan_rows re None t (\<lambda>i r. sum_map (add_row t r)) rids [(it, ac)] = Inr [(it, ac')] \<and>
           ac_sum ac' = ac_sum ac + (\<Sum>i\<leftarrow>rids. int_value (cell t (ri_column it) i)) \<and>
           (ac_seen ac' \<longleftrightarrow> ac_seen ac \<or> (\<exists>i \<in> set rids. \<not> is_null (cell t (ri_column it) i)))"
  using rows small
proof (induction rids arbitrary: ac)
  case (Cons i rids)
  let ?v = "cell t (ri_column it) i"
  obtain r where r: "tb_records t i = Some r" "r ! ri_column it = ?v"
    using Cons.prems(1) by (auto simp: cell_def)
  have abs_sum: "0 \<le> (\<Sum>i\<leftarrow>rids. \<bar>int_value (cell t (ri_column it) i)\<bar>)" by (rule sum_list_nonneg) auto
  have small: "\<bar>ac_sum ac + int_value ?v\<bar> < 2 ^ 63" using Cons.prems(2) abs_sum by simp
  have m: "matches ?v TInt" using Cons.prems(1) by simp
  obtain ac1 where ac1: "sum_map (add_row t r) [(it, ac)] = Inr [(it, ac1)]" "ac_sum ac1 = ac_sum ac + int_value ?v"
    "ac_seen ac1 \<longleftrightarrow> ac_seen ac \<or> \<not> is_null ?v"
    using add_row_sum [OF it r(2) m small] by blast
  have "\<bar>ac_sum ac1\<bar> + (\<Sum>i\<leftarrow>rids. \<bar>int_value (cell t (ri_column it) i)\<bar>) < 2 ^ 63"
    using Cons.prems(2) ac1(2) by simp
  then obtain ac2 where "scan_rows re None t (\<lambda>i r. sum_map (add_row t r)) rids [(it, ac1)] = Inr [(it, ac2)]"
    "ac_sum ac2 = ac_sum ac1 + (\<Sum>i\<leftarrow>rids. int_value (cell t (ri_column it) i))"
    "ac_seen ac2 \<longleftrightarrow> ac_seen ac1 \<or> (\<exists>i \<in> set rids. \<not> is_null (cell t (ri_column it) i))"
    using Cons.IH [of ac1] Cons.prems(1) by auto
  then show ?case using r(1) ac1 by (auto simp: record_at_def row_matches_def)
qed simp

section \<open>Rows of a table with its invariant\<close>

lemma check_types_matches:
  "check_types cs vs = Inr () \<Longrightarrow> length vs = length cs \<Longrightarrow> i < length cs \<Longrightarrow> matches (vs ! i) (col_type (cs ! i))"
proof (induction cs vs arbitrary: i rule: check_types.induct)
  case (1 c cs v vs)
  have "check_types cs vs = Inr ()" using "1.prems"(1) by (auto split: if_splits)
  moreover have "matches v (col_type c)" using "1.prems"(1) by (cases v) (auto split: if_splits)
  ultimately show ?case using 1 by (cases i) (auto split: if_splits)
qed auto

lemma cell_matches:
  assumes "table_inv t" and "tb_records t i = Some r" and "c < length (tb_schema t)"
  shows "matches (cell t c i) (col_type (tb_schema t ! c))"
  using assms check_types_matches by (auto simp: cell_def table_inv_def rows_ok_def)

text \<open>The candidates with those that do not match left out, each once.\<close>

lemma candidates_filtered:
  assumes inv: "table_inv t" and usable: "hint_usable cond t" and ok: "no_where_errors re cond t"
  obtains cands found t' where "select_candidates cond t = (Inr cands, t')" "same_rows t t'" "table_inv t'"
    "distinct found" "set found = {i. matches_row re cond t i}"
    "\<And>f acc. scan_rows re cond t f cands acc = scan_rows re None t f found acc"
proof -
  obtain cands t' where c: "select_candidates cond t = (Inr cands, t')" "same_rows t t'" "table_inv t'" "distinct cands"
    "\<And>i. i \<in> set cands \<longleftrightarrow> offered cond t i"
    using candidates_ok [OF inv usable] by blast
  have rows: "\<forall>i \<in> set cands. \<exists>r b. tb_records t i = Some r \<and> row_matches re cond t r = Inr b"
    using ok c(5) by (fastforce simp: no_where_errors_def offered_def)
  let ?found = "filter (matches_row re cond t) cands"
  have "distinct ?found" using c(4) by simp
  moreover have "set ?found = {i. matches_row re cond t i}"
    using c(5) satisfies_matches by (auto simp: matches_row_def)
  ultimately show ?thesis by (rule that [OF c(1-3) _ _ scan_rows_filter [OF rows]])
qed

section \<open>Items and rows as SQL names them\<close>

text \<open>
  What an item stands for, without the code that resolves it: a column is the first of its name,
  the label is the alias or, without one, the name; a star is every column in the order of the
  schema. An answer has one pair per label, in the order in which the labels come first; when two
  items have the same label the value is that of the last.
\<close>

definition is_column :: "table \<Rightarrow> string \<Rightarrow> nat \<Rightarrow> bool" where
  "is_column t nm c \<longleftrightarrow> c < length (tb_schema t) \<and> col_name (tb_schema t ! c) = nm \<and>
     (\<forall>b < c. col_name (tb_schema t ! b) \<noteq> nm)"

definition names_column :: "table \<Rightarrow> SelectItem \<Rightarrow> string \<times> nat \<Rightarrow> bool" where
  "names_column t it kc \<longleftrightarrow> agg it = AggNone \<and> \<not> is_star it \<and> is_column t (item_column it) (snd kc) \<and>
     fst kc = (if item_alias it = [] then item_column it else item_alias it)"

definition star_columns :: "table \<Rightarrow> (string \<times> nat) list" where
  "star_columns t = zip (map col_name (tb_schema t)) [0..<length (tb_schema t)]"

definition names_columns :: "table \<Rightarrow> SelectItem list \<Rightarrow> (string \<times> nat) list \<Rightarrow> bool" where
  "names_columns t items kcs \<longleftrightarrow>
     (\<exists>it. items = [it] \<and> is_star it \<and> kcs = star_columns t) \<or> list_all2 (names_column t) items kcs"

fun value_json :: "Value \<Rightarrow> json" where
  "value_json VNull = JNull"
| "value_json (VInt i) = JInt (sint i)"
| "value_json (VStr s) = JStr s"

definition first_labels :: "string list \<Rightarrow> string list" where
  "first_labels ks = rev (remdups (rev ks))"

definition row_object :: "(string \<times> nat) list \<Rightarrow> Record \<Rightarrow> json" where
  "row_object kcs r =
     JObj (map (\<lambda>k. (k, value_json (r ! the (map_of (rev kcs) k)))) (first_labels (map fst kcs)))"

lemma require_is_column: "is_column t nm c \<Longrightarrow> require_column t nm = Inr c"
proof -
  assume c: "is_column t nm c"
  then have "nm \<in> col_name ` set (tb_schema t)" by (force simp: is_column_def)
  then obtain b where b: "column_index nm (tb_schema t) = Some b"
    using column_index_None [of nm "tb_schema t"] by (cases "column_index nm (tb_schema t)") auto
  have "b = c" using column_index_Some [OF b] c by (metis is_column_def linorder_neqE_nat)
  then show ?thesis using b by (simp add: require_column_def)
qed

definition plain_items :: "(string \<times> nat) list \<Rightarrow> ResolvedItem list" where
  "plain_items = map (\<lambda>kc. \<lparr>ri_kind = Plain, ri_column = snd kc, ri_agg = AggNone, ri_label = fst kc\<rparr>)"

lemma plain_items_plain: "it \<in> set (plain_items kcs) \<Longrightarrow> \<not> is_aggregate it"
  by (auto simp: plain_items_def is_aggregate_def)

lemma resolve_named:
  "list_all2 (names_column t) items kcs \<Longrightarrow> sum_map (resolve_item t) items = Inr (plain_items kcs)"
  by (induction rule: list_all2_induct)
    (auto simp: plain_items_def resolve_item_def names_column_def require_is_column)

lemma resolve_plain:
  assumes "names_columns t items kcs"
  shows "resolve_items t items = Inr (plain_items kcs)"
proof -
  have star: "every_column t = plain_items (star_columns t)"
    by (rule nth_equalityI) (simp_all add: every_column_def plain_items_def star_columns_def)
  show ?thesis
  proof (cases "\<exists>it. items = [it] \<and> is_star it")
    case True
    then have "kcs = star_columns t"
      using assms by (auto simp: names_columns_def list_all2_Cons1 names_column_def)
    then show ?thesis using True star by (auto simp: resolve_items_def)
  next
    case False
    then have "sum_map (resolve_item t) items = Inr (plain_items kcs)"
      using assms by (intro resolve_named) (auto simp: names_columns_def)
    then show ?thesis
      using False plain_items_plain [of _ kcs] by (auto simp: resolve_items_def split: list.split)
  qed
qed

lemma update_labels: "AList.update k v (map (\<lambda>k. (k, g k)) ks) = map (\<lambda>l. (l, (g(k := v)) l)) (if k \<in> set ks then ks else ks @ [k])"
  if "distinct ks" for ks :: "string list"
  using that by (induction ks) auto

lemma first_labels_snoc:
  "first_labels (ks @ [k]) = (if k \<in> set ks then first_labels ks else first_labels ks @ [k])"
  by (simp add: first_labels_def)

lemma fold_labels:
  "fold (\<lambda>(k, v). AList.update k v) kvs [] =
     map (\<lambda>k. (k, the (map_of (rev kvs) k))) (first_labels (map fst kvs))"
proof (induction kvs rule: rev_induct)
  case (snoc kv kvs)
  obtain k v where kv: "kv = (k, v)" by (cases kv)
  have "distinct (first_labels (map fst kvs))" "set (first_labels (map fst kvs)) = fst ` set kvs"
    by (simp_all add: first_labels_def)
  then show ?case
    using snoc update_labels [of "first_labels (map fst kvs)" k v "\<lambda>k. the (map_of (rev kvs) k)"] kv
    by (auto simp: first_labels_snoc)
qed (simp add: first_labels_def)

lemma row_json_object: "row_json (plain_items kcs) r = row_object kcs r"
proof -
  have to_value: "to_json v = value_json v" for v by (cases v) auto
  have "map_of (rev (map (\<lambda>kc. (fst kc, to_json (r ! snd kc))) kcs)) k = map_option (\<lambda>c. value_json (r ! c)) (map_of (rev kcs) k)" for k
    using map_of_map [of "\<lambda>c. value_json (r ! c)" "rev kcs"] by (simp add: rev_map case_prod_beta' to_value)
  moreover have "map_of (rev kcs) k \<noteq> None" if "k \<in> set (first_labels (map fst kcs))" for k
    using that by (auto simp: first_labels_def map_of_eq_None_iff)
  ultimately show ?thesis
    by (fastforce simp: row_json_def json_object_def fold_labels row_object_def plain_items_def comp_def)
qed

section \<open>SELECT of columns\<close>

text \<open>What is sent is the text that the JSON library makes of the answer, or its exception.\<close>

definition sent :: "sql_env \<Rightarrow> json \<Rightarrow> nat \<Rightarrow> error + ExecutionResult" where
  "sent env j n = map_sum id (\<lambda>text. done_with text n) (sq_dump env j)"

lemma sent_bind: "sum_bind (sq_dump env j) (\<lambda>text. Inr (done_with text n)) = sent env j n"
  by (cases "sq_dump env j") (auto simp: sent_def)

lemma select_plain_ok:
  assumes inv: "table_inv t" and usable: "hint_usable cond t" and ok: "no_where_errors (sq_regex env) cond t"
    and items: "names_columns t items kcs"
  shows "\<exists>found t'. select_rows env items cond t =
           (sent env (JArr (map (\<lambda>i. row_object kcs (the (tb_records t i))) found)) (length found), t') \<and>
           distinct found \<and> set found = {i. matches_row (sq_regex env) cond t i} \<and> same_rows t t' \<and> table_inv t'"
proof -
  obtain cands found t' where c: "select_candidates cond t = (Inr cands, t')" "same_rows t t'" "table_inv t'"
    "distinct found" "set found = {i. matches_row (sq_regex env) cond t i}"
    "\<And>f acc. scan_rows (sq_regex env) cond t f cands (acc :: json list) = scan_rows (sq_regex env) None t f found acc"
    using candidates_filtered [OF inv usable ok] by metis
  have "\<forall>i \<in> set found. tb_records t i \<noteq> None" using c(5) by (auto simp: matches_row_def)
  then have plain: "select_plain env cond t (plain_items kcs) cands =
      sent env (JArr (map (\<lambda>i. row_object kcs (the (tb_records t i))) found)) (length found)"
    using scan_rows_push [of found t "sq_regex env" "\<lambda>i. row_json (plain_items kcs)" "[]"]
    by (simp add: select_plain_def c(6) sent_bind row_json_object)
  have "select_rows env items cond t = (select_plain env cond t (plain_items kcs) cands, t')"
    using c(1) resolve_plain [OF items] plain_items_plain by (auto simp: select_rows_def op_simps)
  then show ?thesis using c plain by auto
qed

section \<open>SELECT of a sum\<close>

text \<open>What a sum answers: NULL over no value at all, and the sum of the values otherwise.\<close>

definition sum_of_cells :: "table \<Rightarrow> nat \<Rightarrow> nat set \<Rightarrow> json" where
  "sum_of_cells t c M =
     (if \<forall>i \<in> M. is_null (cell t c i) then JNull else JInt (\<Sum>i \<in> M. int_value (cell t c i)))"

definition names_sum :: "table \<Rightarrow> SelectItem \<Rightarrow> string \<Rightarrow> nat \<Rightarrow> bool" where
  "names_sum t it k c \<longleftrightarrow> agg it = Sum \<and> \<not> agg_star it \<and> \<not> is_star it \<and> is_column t (item_column it) c \<and>
     col_type (tb_schema t ! c) = TInt \<and>
     k = (if item_alias it = [] then ''SUM('' @ item_column it @ '')'' else item_alias it)"

lemma resolve_sum:
  "names_sum t it k c \<Longrightarrow> resolve_items t [it] = Inr [\<lparr>ri_kind = Agg, ri_column = c, ri_agg = Sum, ri_label = k\<rparr>]"
  by (auto simp: names_sum_def resolve_items_def resolve_item_def require_is_column aggregate_name_def)

lemma select_sum_ok:
  assumes inv: "table_inv t" and usable: "hint_usable cond t" and ok: "no_where_errors (sq_regex env) cond t"
    and item: "names_sum t it k c" and M: "M = {i. matches_row (sq_regex env) cond t i}"
    and small: "(\<Sum>i \<in> M. \<bar>int_value (cell t c i)\<bar>) < 2 ^ 63"
  shows "\<exists>t'. select_rows env [it] cond t = (sent env (JArr [JObj [(k, sum_of_cells t c M)]]) 1, t') \<and>
           same_rows t t' \<and> table_inv t'"
proof -
  let ?it = "\<lparr>ri_kind = Agg, ri_column = c, ri_agg = Sum, ri_label = k\<rparr>"
  have col: "c < length (tb_schema t)" "col_type (tb_schema t ! c) = TInt"
    using item by (auto simp: names_sum_def is_column_def)
  obtain cands found t' where c: "select_candidates cond t = (Inr cands, t')" "same_rows t t'" "table_inv t'"
    "distinct found" "set found = M"
    "\<And>f acc. scan_rows (sq_regex env) cond t f cands (acc :: (ResolvedItem \<times> accumulator) list) =
       scan_rows (sq_regex env) None t f found acc"
    using candidates_filtered [OF inv usable ok] M by metis
  have sums: "(\<Sum>i\<leftarrow>found. g i) = (\<Sum>i \<in> M. g i)" for g :: "nat \<Rightarrow> int"
    using sum.distinct_set_conv_list [OF c(4), of g] c(5) by simp
  have rows: "\<forall>i \<in> set found. tb_records t i \<noteq> None \<and> matches (cell t (ri_column ?it) i) TInt"
    using c(5) M cell_matches [OF inv _ col(1)] col(2) by (auto simp: matches_row_def)
  obtain ac where ac: "scan_rows (sq_regex env) None t (\<lambda>i r. sum_map (add_row t r)) found [(?it, empty_acc)] = Inr [(?it, ac)]"
    "ac_sum ac = (\<Sum>i \<in> M. int_value (cell t c i))" "ac_seen ac \<longleftrightarrow> (\<exists>i \<in> M. \<not> is_null (cell t c i))"
    using scan_sum [OF _ _ rows, of empty_acc "sq_regex env"] small by (auto simp: sums empty_acc_def c(5))
  have "\<bar>ac_sum ac\<bar> < 2 ^ 63" unfolding ac(2) by (rule le_less_trans [OF sum_abs small])
  then have "int64_range (ac_sum ac)" by (auto simp: int64_range_def)
  then have "aggregate_json (?it, ac) = Inr (k, sum_of_cells t c M)"
    using ac(2,3) by (auto simp: aggregate_json_def sum_json_def sum_of_cells_def)
  then have "select_aggregates env cond t [?it] cands = sent env (JArr [JObj [(k, sum_of_cells t c M)]]) 1"
    using ac(1) by (simp add: select_aggregates_def c(6) json_object_def sent_bind)
  then show ?thesis
    using c(1-3) resolve_sum [OF item] by (intro exI [of _ t']) (simp add: select_rows_def op_simps is_aggregate_def)
qed

end
