(* ===== verification/Database_Correct.thy ===== *)
theory Database_Correct
  imports Database TableReopen
begin

text \<open>
  A database keeps its tables ready: each with its indexes in step, bound to its file in the
  directory. Saving succeeds, changes no row, and leaves in the directory the bytes of every
  table and no file of a table that is gone.
\<close>

section \<open>Ready databases\<close>

definition table_path :: "database \<Rightarrow> string \<Rightarrow> string" where
  "table_path db name = join_path (db_dir db) (dat_file name)"

definition db_ready :: "database \<Rightarrow> bool" where
  "db_ready db \<longleftrightarrow> distinct (map fst (db_tables db)) \<and>
     (\<forall>n t. map_of (db_tables db) n = Some t \<longrightarrow> table_inv t \<and> tb_path t = table_path db n)"

text \<open>The directory has every table as it is.\<close>

definition in_sync :: "database \<Rightarrow> bool" where
  "in_sync db \<longleftrightarrow> (\<forall>n t. map_of (db_tables db) n = Some t \<longrightarrow> map_of (db_files db) (dat_file n) = Some (table_bytes t))"

definition same_tables :: "database \<Rightarrow> database \<Rightarrow> bool" where
  "same_tables db db' \<longleftrightarrow> db_name db' = db_name db \<and> db_dir db' = db_dir db \<and>
     map fst (db_tables db') = map fst (db_tables db) \<and>
     (\<forall>n t. map_of (db_tables db) n = Some t \<longrightarrow> (\<exists>t'. map_of (db_tables db') n = Some t' \<and> same_rows t t'))"

lemma same_tables_refl [simp]: "same_tables db db"
  by (simp add: same_tables_def)

lemma same_tables_trans: "same_tables a b \<Longrightarrow> same_tables b c \<Longrightarrow> same_tables a c"
  unfolding same_tables_def using same_rows_trans by metis

lemma dat_file_inject [simp]: "dat_file a = dat_file b \<longleftrightarrow> a = b"
  by (simp add: dat_file_def)

lemma map_fst_update: "map_of al k = Some v \<Longrightarrow> map fst (AList.update k w al) = map fst al"
  by (induction al) auto

lemma names_iff: "n \<in> set (map fst (db_tables db)) \<longleftrightarrow> (\<exists>t. map_of (db_tables db) n = Some t)"
  by (metis domD domI dom_map_of_conv_image_fst list.set_map)

section \<open>Binding\<close>

lemma bind_noop: "table_inv t \<Longrightarrow> bind_dat_path env (tb_path t) t = (Inr (), t)"
  using open_indexes_noop by (auto simp: table_inv_def bind_dat_path_def op_simps)

lemma on_table_noop:
  assumes "map_of (db_tables db) n = Some t" and "m t = (Inr x, t)"
  shows "on_table n m db = (Inr x, db)"
  using assms by (simp add: on_table_def update_triv)

lemma bind_table_noop:
  assumes "db_ready db" and "n \<in> set (map fst (db_tables db))"
  shows "bind_table io n db = (Inr (), db)"
proof -
  obtain t where t: "map_of (db_tables db) n = Some t" using assms(2) unfolding names_iff by blast
  then have "table_inv t" "tb_path t = table_path db n" using assms(1) by (simp_all add: db_ready_def)
  then show ?thesis
    using bind_noop [of t] on_table_noop [of db n t _ "()", OF t] by (simp add: bind_table_def op_simps table_path_def)
qed

lemma set_storage_dir_noop:
  assumes "db_ready db"
  shows "set_storage_dir io (db_dir db) db = (Inr (), db)"
proof -
  have "for_each (bind_table io) ns db = (Inr (), db)" if "set ns \<subseteq> set (map fst (db_tables db))" for ns
    using that bind_table_noop [OF assms] by (induction ns) (simp_all add: op_simps)
  from this [of "map fst (db_tables db)"] show ?thesis by (simp add: set_storage_dir_def op_simps)
qed

section \<open>Saving\<close>

lemma save_inv:
  assumes "table_inv t"
  shows "\<exists>t'. save env True (tb_path t) t = (Inr (table_bytes t), t') \<and> same_rows t t' \<and> table_inv t'"
proof -
  obtain f where f: "indexes_hold t f" "\<forall>c \<in> set (indexed_columns t). set (f c) = column_pairs t c"
    using assms by (auto simp: table_inv_def)
  have rows: "rows_ok t" using assms by (simp add: table_inv_def)
  obtain t' where t': "save env True (tb_path t) t = (Inr (table_bytes t), t')" "same_rows t t'" "indexes_hold t' f"
    using save_ok [OF f(1) rows] by blast
  note R = same_rowsD [OF t'(2)]
  have "table_inv t'" using assms f(2) t'(3) by (auto simp: table_inv_def rows_ok_def column_pairs_def R)
  then show ?thesis using t' by blast
qed

definition writes_one :: "database \<Rightarrow> string \<Rightarrow> database \<Rightarrow> bool" where
  "writes_one db n db' \<longleftrightarrow> db_ready db' \<and> same_tables db db' \<and>
     (\<forall>t. map_of (db_tables db') n = Some t \<longrightarrow> map_of (db_files db') (dat_file n) = Some (table_bytes t)) \<and>
     (\<forall>m. m \<noteq> n \<longrightarrow> map_of (db_tables db') m = map_of (db_tables db) m) \<and>
     (\<forall>f. f \<noteq> dat_file n \<longrightarrow> map_of (db_files db') f = map_of (db_files db) f)"

lemma save_table_ok:
  assumes ready: "db_ready db" and n: "n \<in> set (map fst (db_tables db))" and w: "io_writable io (table_path db n)"
  shows "\<exists>db'. save_table io n db = (Inr (), db') \<and> writes_one db n db'"
proof -
  obtain t where t: "map_of (db_tables db) n = Some t" using n unfolding names_iff by blast
  have inv: "table_inv t" "tb_path t = table_path db n" using ready t by (simp_all add: db_ready_def)
  obtain t' where t': "save (index_env_of io (db_files db) (db_dir db) n) True (tb_path t) t = (Inr (table_bytes t), t')"
    "same_rows t t'" "table_inv t'"
    using save_inv [OF inv(1)] by blast
  let ?db = "db\<lparr>db_tables := AList.update n t' (db_tables db),
                db_files := AList.update (dat_file n) (table_bytes t) (db_files db)\<rparr>"
  have "save_table io n db = (Inr (), ?db)"
    using t t'(1) inv(2) w by (simp add: save_table_def op_simps on_table_def table_path_def)
  moreover have "same_tables db ?db"
    using t t'(2) by (auto simp: same_tables_def map_fst_update update_conv')
  moreover have "db_ready ?db"
    using ready t t'(3) same_rowsD(5) [OF t'(2)] inv(2)
    by (auto simp: db_ready_def distinct_update update_conv' table_path_def)
  moreover have "table_bytes t' = table_bytes t" by (rule table_bytes_same_rows [OF t'(2)])
  ultimately show ?thesis by (intro exI [of _ ?db]) (simp add: writes_one_def update_conv')
qed

lemma save_tables_ok:
  assumes "db_ready db" and "distinct ns" and "set ns \<subseteq> set (map fst (db_tables db))"
    and "\<forall>n \<in> set ns. io_writable io (table_path db n)"
  shows "\<exists>db'. for_each (save_table io) ns db = (Inr (), db') \<and> db_ready db' \<and> same_tables db db' \<and>
           (\<forall>n \<in> set ns. \<forall>t. map_of (db_tables db') n = Some t \<longrightarrow>
              map_of (db_files db') (dat_file n) = Some (table_bytes t)) \<and>
           (\<forall>m. m \<notin> set ns \<longrightarrow> map_of (db_tables db') m = map_of (db_tables db) m) \<and>
           (\<forall>f. f \<notin> dat_file ` set ns \<longrightarrow> map_of (db_files db') f = map_of (db_files db) f)"
  using assms
proof (induction ns arbitrary: db)
  case Nil
  then show ?case by (intro exI [of _ db]) (simp add: ret_def)
next
  case (Cons n ns)
  obtain db1 where db1: "save_table io n db = (Inr (), db1)" "writes_one db n db1"
    using save_table_ok [OF Cons.prems(1), of n io] Cons.prems(3,4) by auto
  have one: "db_ready db1" "same_tables db db1"
    "\<And>m. m \<noteq> n \<Longrightarrow> map_of (db_tables db1) m = map_of (db_tables db) m"
    "\<And>f. f \<noteq> dat_file n \<Longrightarrow> map_of (db_files db1) f = map_of (db_files db) f"
    "\<And>t. map_of (db_tables db1) n = Some t \<Longrightarrow> map_of (db_files db1) (dat_file n) = Some (table_bytes t)"
    using db1(2) by (simp_all add: writes_one_def)
  have keys: "map fst (db_tables db1) = map fst (db_tables db)" "db_dir db1 = db_dir db"
    using one(2) by (simp_all add: same_tables_def)
  obtain db2 where db2: "for_each (save_table io) ns db1 = (Inr (), db2)" "db_ready db2" "same_tables db1 db2"
    "\<forall>n \<in> set ns. \<forall>t. map_of (db_tables db2) n = Some t \<longrightarrow> map_of (db_files db2) (dat_file n) = Some (table_bytes t)"
    "\<forall>m. m \<notin> set ns \<longrightarrow> map_of (db_tables db2) m = map_of (db_tables db1) m"
    "\<forall>f. f \<notin> dat_file ` set ns \<longrightarrow> map_of (db_files db2) f = map_of (db_files db1) f"
    using Cons.IH [OF one(1)] Cons.prems(2-4) unfolding keys table_path_def by (auto simp del: split_paired_Ex)
  have n: "n \<notin> set ns" "dat_file n \<notin> dat_file ` set ns" using Cons.prems(2) by auto
  have "map_of (db_files db2) (dat_file n) = Some (table_bytes t)" if "map_of (db_tables db2) n = Some t" for t
    using that db2(5,6) n one(5) by simp
  then show ?case
    using db1(1) db2 one(3,4) same_tables_trans [OF one(2) db2(3)]
    by (intro exI [of _ db2]) (simp add: andthen_def bnd_def)
qed

text \<open>Names that can be a file: not empty, without a directory separator.\<close>

definition plain_name :: "string \<Rightarrow> bool" where
  "plain_name n \<longleftrightarrow> n \<noteq> [] \<and> CHR ''/'' \<notin> set n"

lemma file_name_plain: "CHR ''/'' \<notin> set p \<Longrightarrow> file_name p = p"
proof -
  assume "CHR ''/'' \<notin> set p"
  then have "takeWhile (\<lambda>c. c \<noteq> CHR ''/'') (rev p) = rev p" by (auto simp: takeWhile_eq_all_conv)
  then show ?thesis by (simp only: file_name_def rev_rev_ident)
qed

lemma file_owner_dat:
  assumes "plain_name n"
  shows "file_owner (dat_file n) = Some n"
proof -
  have "CHR ''/'' \<notin> set (dat_file n)" using assms by (simp add: plain_name_def dat_file_def)
  then have f: "file_name (dat_file n) = dat_file n" by (rule file_name_plain)
  have "dropWhile (\<lambda>c. c \<noteq> CHR ''.'') (rev (dat_file n)) = CHR ''.'' # rev n" by (simp add: dat_file_def)
  then have "file_stem (dat_file n) = n" using assms by (simp add: file_stem_def f Let_def plain_name_def)
  moreover have "4 < length (dat_file n)" using assms by (simp add: dat_file_def plain_name_def)
  ultimately show ?thesis by (simp add: file_owner_def file_extension_def f) (simp add: dat_file_def)
qed

definition tidy :: "database \<Rightarrow> bool" where
  "tidy db \<longleftrightarrow> (\<forall>f. map_of (db_files db) f \<noteq> None \<longrightarrow> \<not> stale (db_tables db) f)"

lemma stale_same_names: "map fst ts = map fst us \<Longrightarrow> stale ts f = stale us f"
  unfolding stale_def by (metis list.set_map map_of_eq_None_iff)

lemma remove_stale_result:
  "remove_stale db = (Inr (), db\<lparr>db_files := filter (\<lambda>(f, _). \<not> stale (db_tables db) f) (db_files db)\<rparr>)"
  by (simp add: remove_stale_def modify_def)

lemma map_of_filter_keys: "map_of (filter (\<lambda>(k, _). P k) al) k = (if P k then map_of al k else None)"
  by (induction al) auto

lemma save_to_ok:
  assumes ready: "db_ready db" and names: "\<forall>n \<in> fst ` set (db_tables db). plain_name n \<and> io_writable io (table_path db n)"
  shows "\<exists>db'. save_to io (db_dir db) db = (Inr (), db') \<and> db_ready db' \<and> same_tables db db' \<and> in_sync db' \<and> tidy db' \<and>
           (\<forall>f. file_owner f = None \<longrightarrow> map_of (db_files db') f = map_of (db_files db) f)"
proof -
  let ?ns = "map fst (db_tables db)"
  let ?db1 = "db\<lparr>db_files := filter (\<lambda>(f, _). \<not> stale (db_tables db) f) (db_files db)\<rparr>"
  have ready1: "db_ready ?db1" using ready by (simp add: db_ready_def table_path_def)
  have "distinct ?ns" using ready by (simp add: db_ready_def)
  then obtain db' where db': "for_each (save_table io) ?ns ?db1 = (Inr (), db')" "db_ready db'" "same_tables ?db1 db'"
    "\<forall>n \<in> set ?ns. \<forall>t. map_of (db_tables db') n = Some t \<longrightarrow> map_of (db_files db') (dat_file n) = Some (table_bytes t)"
    "\<forall>f. f \<notin> dat_file ` set ?ns \<longrightarrow> map_of (db_files db') f = map_of (db_files ?db1) f"
    using save_tables_ok [OF ready1, of ?ns io] names by (auto simp: table_path_def simp del: split_paired_Ex)
  have run: "save_to io (db_dir db) db = (Inr (), db')"
    using db'(1) set_storage_dir_noop [OF ready]
    by (simp add: save_to_def andthen_def bnd_def gets_def remove_stale_result)
  have keys: "map fst (db_tables db') = ?ns" using db'(3) by (simp add: same_tables_def)
  have "same_tables db db'" using db'(3) by (simp add: same_tables_def)
  moreover have "in_sync db'"
    unfolding in_sync_def
  proof (intro allI impI)
    fix n t assume t: "map_of (db_tables db') n = Some t"
    then have "n \<in> set ?ns" using names_iff [of n db'] keys by auto
    then show "map_of (db_files db') (dat_file n) = Some (table_bytes t)" using db'(4) t by blast
  qed
  moreover have "tidy db'"
    unfolding tidy_def
  proof (intro allI impI)
    fix f assume f: "map_of (db_files db') f \<noteq> None"
    show "\<not> stale (db_tables db') f"
    proof (cases "f \<in> dat_file ` set ?ns")
      case True
      then obtain n where n: "n \<in> set ?ns" "f = dat_file n" by blast
      then have "file_owner f = Some n" using names file_owner_dat by auto
      moreover have "map_of (db_tables db') n \<noteq> None" using n(1) names_iff [of n db'] keys by simp
      ultimately show ?thesis by (simp add: stale_def)
    next
      case False
      then have "map_of (db_files ?db1) f \<noteq> None" using f db'(5) by simp
      then show ?thesis using stale_same_names [OF keys] by (auto simp: map_of_filter_keys split: if_splits)
    qed
  qed
  moreover have "map_of (db_files db') f = map_of (db_files db) f" if "file_owner f = None" for f
  proof -
    have "f \<notin> dat_file ` set ?ns" using that names file_owner_dat by fastforce
    then show ?thesis using that db'(5) by (simp add: map_of_filter_keys stale_def)
  qed
  ultimately show ?thesis using run db'(2) by blast
qed

section \<open>New tables\<close>

lemma create_table_ok:
  assumes ready: "db_ready db" and dir: "db_dir db \<noteq> []" and new: "\<not> has_table db name"
    and fresh: "fresh_env (index_env_of io (db_files db) (db_dir db) name)"
  shows "\<exists>db' t. create_table io name cols db = (Inr (), db') \<and> db_ready db' \<and>
           db_tables db' = db_tables db @ [(name, t)] \<and> tb_name t = name \<and> tb_schema t = cols \<and>
           tb_records t = (\<lambda>_. None) \<and> tb_order t = [] \<and> tb_next t = 1 \<and>
           db_name db' = db_name db \<and> db_dir db' = db_dir db \<and> db_files db' = db_files db"
proof -
  have path: "table_path db name \<noteq> []" using dir by (simp add: table_path_def join_path_def)
  obtain t where t: "bind_dat_path (index_env_of io (db_files db) (db_dir db) name) (table_path db name)
      (new_table name cols) = (Inr (), t)" "table_inv t" "tb_schema t = cols" "tb_records t = (\<lambda>_. None)"
    "tb_order t = []" "tb_next t = 1" "tb_name t = name" "tb_path t = table_path db name"
    using bind_new_table [OF fresh path] by blast
  let ?db = "db\<lparr>db_tables := db_tables db @ [(name, t)]\<rparr>"
  have none: "map_of (db_tables db) name = None" using new by (simp add: has_table_def)
  have at_end: "AList.update k v (al @ [(k, w)]) = al @ [(k, v)]" if "map_of al k = None" for k :: string and v w :: table and al
    using that by (induction al) (auto split: if_splits)
  have "create_table io name cols db = (Inr (), ?db)"
    using new dir t(1) none at_end [OF none]
    by (simp add: create_table_def op_simps bind_table_def on_table_def table_path_def map_add_def)
  moreover have "db_ready ?db"
    using ready none t(2,8) by (auto simp: db_ready_def map_of_eq_None_iff map_add_def table_path_def split: option.splits)
  ultimately show ?thesis using t by (intro exI [of _ ?db] exI [of _ t]) simp
qed

end
