(* ===== verification/Statement_Correct.thy ===== *)
theory Statement_Correct
  imports Select_Correct Database_Correct
begin

text \<open>
  A statement from its database to its file: the database is resolved, the table changed, and
  the database saved. What is left in the directory is the table as the statement left it.
\<close>

definition system_ready :: "sql_env \<Rightarrow> dbms \<Rightarrow> string \<Rightarrow> database \<Rightarrow> bool" where
  "system_ready env d dbn db \<longleftrightarrow>
     map_of (dm_databases d) dbn = Some db \<and> db_name db = dbn \<and> db_dir db = join_path (dm_root d) dbn \<and> db_ready db \<and>
     (\<forall>n \<in> fst ` set (db_tables db). plain_name n \<and> io_writable (sq_io env) (table_path db n))"

text \<open>A reference names its database, or there is an active one.\<close>

definition refers :: "dbms \<Rightarrow> TableRef \<Rightarrow> string \<Rightarrow> bool" where
  "refers d ref dbn \<longleftrightarrow> dbn \<noteq> [] \<and> has_database d dbn \<and>
     (ref_database ref = dbn \<or> ref_database ref = [] \<and> dm_active d = dbn)"

lemma require_database_there:
  assumes "has_database d dbn"
  shows "require_database dbn d = (Inr (), d)"
proof -
  obtain db where "map_of (dm_databases d) dbn = Some db" using assms by (auto simp: has_database_def)
  then show ?thesis by (simp add: require_database_def on_database_def ret_def update_triv)
qed

lemma resolve_refers: "refers d ref dbn \<Longrightarrow> resolve_database ref d = (Inr dbn, d)"
  by (auto simp: refers_def resolve_database_def active_or_throw_def op_simps require_database_there)

lemma save_named_ok:
  assumes ready: "system_ready env d dbn db"
  shows "\<exists>d' db'. save_named env dbn d = (Inr dbn, d') \<and> system_ready env d' dbn db' \<and>
           same_tables db db' \<and> in_sync db' \<and> tidy db' \<and>
           (\<forall>n. n \<noteq> dbn \<longrightarrow> map_of (dm_databases d') n = map_of (dm_databases d) n) \<and> dm_active d' = dm_active d"
proof -
  have S: "map_of (dm_databases d) dbn = Some db" "db_name db = dbn" "db_dir db = join_path (dm_root d) dbn"
    "db_ready db" "\<forall>n \<in> fst ` set (db_tables db). plain_name n \<and> io_writable (sq_io env) (table_path db n)"
    using ready by (simp_all add: system_ready_def)
  obtain db' where db': "save_to (sq_io env) (db_dir db) db = (Inr (), db')" "db_ready db'" "same_tables db db'"
    "in_sync db'" "tidy db'"
    using save_to_ok [OF S(4,5)] by blast
  let ?d = "d\<lparr>dm_databases := AList.update dbn db' (dm_databases d)\<rparr>"
  have "save_named env dbn d = (Inr dbn, ?d)"
    using S(1-3) db'(1)
    by (simp add: save_named_def on_database_def op_simps update_triv save_database_def has_database_def)
  moreover have "fst ` set (db_tables db') = fst ` set (db_tables db)" "db_dir db' = db_dir db" "db_name db' = db_name db"
    using db'(3) unfolding same_tables_def by (metis list.set_map, blast+)
  then have "system_ready env ?d dbn db'"
    using S db'(2) by (simp add: system_ready_def update_conv' table_path_def)
  ultimately show ?thesis using db' by (intro exI [of _ ?d] exI [of _ db']) (simp add: update_conv')
qed

lemma change_table_ok:
  assumes ready: "system_ready env d dbn db" and ref: "refers d ref dbn"
    and t: "map_of (db_tables db) (ref_table ref) = Some t"
    and m: "m (index_env_of (sq_io env) (db_files db) (db_dir db) (ref_table ref)) t = (Inr n, t1)"
    and t1: "table_inv t1" "tb_path t1 = tb_path t"
  shows "\<exists>d' db' t2. change_table env ref m verb d = (Inr (done_with (verb @ nat_str n @ '' row(s)'') n), d') \<and>
           system_ready env d' dbn db' \<and> in_sync db' \<and> tidy db' \<and>
           map_of (db_tables db') (ref_table ref) = Some t2 \<and> same_rows t1 t2 \<and> table_inv t2 \<and>
           (\<forall>k u. k \<noteq> ref_table ref \<longrightarrow> map_of (db_tables db) k = Some u \<longrightarrow>
              (\<exists>u'. map_of (db_tables db') k = Some u' \<and> same_rows u u')) \<and>
           (\<forall>k. k \<noteq> dbn \<longrightarrow> map_of (dm_databases d') k = map_of (dm_databases d) k)"
proof -
  let ?tn = "ref_table ref"
  have S: "map_of (dm_databases d) dbn = Some db" "db_name db = dbn" "db_dir db = join_path (dm_root d) dbn"
    "db_ready db" "\<forall>n \<in> fst ` set (db_tables db). plain_name n \<and> io_writable (sq_io env) (table_path db n)"
    using ready by (simp_all add: system_ready_def)
  let ?db = "db\<lparr>db_tables := AList.update ?tn t1 (db_tables db)\<rparr>"
  let ?d = "d\<lparr>dm_databases := AList.update dbn ?db (dm_databases d)\<rparr>"
  have at: "at_table env dbn ?tn m d = (Inr n, ?d)"
    using S(1) t m by (simp add: at_table_def on_database_def op_simps on_table_def)
  have "tb_path t1 = table_path db ?tn" using S(4) t t1(2) by (simp add: db_ready_def)
  then have "db_ready ?db"
    using S(4) t1(1) by (auto simp: db_ready_def distinct_update update_conv' table_path_def)
  moreover have "fst ` set (db_tables ?db) = fst ` set (db_tables db)"
    using map_fst_update [OF t, of t1] by simp (metis list.set_map)
  ultimately have "system_ready env ?d dbn ?db"
    using S by (simp add: system_ready_def update_conv' table_path_def)
  then obtain d' db' where d': "save_named env dbn ?d = (Inr dbn, d')" "system_ready env d' dbn db'"
    "same_tables ?db db'" "in_sync db'" "tidy db'"
    "\<forall>n. n \<noteq> dbn \<longrightarrow> map_of (dm_databases d') n = map_of (dm_databases ?d) n"
    using save_named_ok by blast
  have kept: "\<exists>u'. map_of (db_tables db') k = Some u' \<and> same_rows u u'" if "map_of (db_tables ?db) k = Some u" for k u
    using d'(3) that by (simp add: same_tables_def)
  obtain t2 where t2: "map_of (db_tables db') ?tn = Some t2" "same_rows t1 t2"
    using kept [of ?tn t1] by (auto simp: update_conv')
  have "table_inv t2" using d'(2) t2(1) by (simp add: system_ready_def db_ready_def)
  moreover have "change_table env ref m verb d = (Inr (done_with (verb @ nat_str n @ '' row(s)'') n), d')"
    using resolve_refers [OF ref] at d'(1) by (simp add: change_table_def op_simps)
  moreover have "\<forall>k u. k \<noteq> ?tn \<longrightarrow> map_of (db_tables db) k = Some u \<longrightarrow>
      (\<exists>u'. map_of (db_tables db') k = Some u' \<and> same_rows u u')"
    using kept by (simp add: update_conv')
  moreover have "\<forall>k. k \<noteq> dbn \<longrightarrow> map_of (dm_databases d') k = map_of (dm_databases d) k"
    using d'(6) by (simp add: update_conv')
  ultimately show ?thesis using d'(2,4,5) t2 by blast
qed

text \<open>A statement that changes one table, as \<open>execute\<close> sees it.\<close>

lemma change_statement_ok:
  assumes "system_ready env d dbn db" and "refers d ref dbn"
    and "map_of (db_tables db) (ref_table ref) = Some t"
    and "m (index_env_of (sq_io env) (db_files db) (db_dir db) (ref_table ref)) t = (Inr k, t1)"
    and "table_inv t1" and "tb_path t1 = tb_path t"
    and "exec_statement env stmt = change_table env ref m verb"
  shows "\<exists>d' db' t'. execute env stmt d = (Inr (done_with (verb @ nat_str k @ '' row(s)'') k), d') \<and>
           system_ready env d' dbn db' \<and> in_sync db' \<and> tidy db' \<and>
           map_of (db_tables db') (ref_table ref) = Some t' \<and> table_inv t' \<and>
           tb_records t' = tb_records t1 \<and> tb_order t' = tb_order t1 \<and>
           (\<forall>k u. k \<noteq> ref_table ref \<longrightarrow> map_of (db_tables db) k = Some u \<longrightarrow>
              (\<exists>u'. map_of (db_tables db') k = Some u' \<and> same_rows u u')) \<and>
           (\<forall>k. k \<noteq> dbn \<longrightarrow> map_of (dm_databases d') k = map_of (dm_databases d) k)"
proof -
  obtain d' db' t2 where d': "change_table env ref m verb d = (Inr (done_with (verb @ nat_str k @ '' row(s)'') k), d')"
    "system_ready env d' dbn db'" "in_sync db'" "tidy db'" "map_of (db_tables db') (ref_table ref) = Some t2"
    "same_rows t1 t2" "table_inv t2"
    "\<forall>k u. k \<noteq> ref_table ref \<longrightarrow> map_of (db_tables db) k = Some u \<longrightarrow>
       (\<exists>u'. map_of (db_tables db') k = Some u' \<and> same_rows u u')"
    "\<forall>k. k \<noteq> dbn \<longrightarrow> map_of (dm_databases d') k = map_of (dm_databases d) k"
    using change_table_ok [where m = m, OF assms(1-6)] by blast
  have "execute env stmt d = (Inr (done_with (verb @ nat_str k @ '' row(s)'') k), d')"
    using d'(1) assms(7) by (simp add: execute_def)
  then show ?thesis
    using d' same_rowsD(3,4) [OF d'(6)] by (intro exI [of _ d'] exI [of _ db'] exI [of _ t2]) simp
qed

lemma insert_one_row:
  assumes inv: "table_inv t" and len: "length r = length (tb_schema t)" and ok: "check_types (tb_schema t) r = Inr ()"
    and room: "room_for t r" and next_id: "tb_next t + 1 < 2 ^ 64"
    and free: "\<forall>c \<in> set (indexed_columns t). \<forall>i q. tb_records t i = Some q \<longrightarrow> q ! c \<noteq> r ! c"
  shows "\<exists>t'. insert_rows [] [r] env t = (Inr 1, t') \<and> table_inv t' \<and> tb_path t' = tb_path t \<and>
           tb_records t' = (tb_records t)(tb_next t \<mapsto> r) \<and> tb_order t' = tb_order t @ [tb_next t]"
proof -
  obtain t' where t': "table_insert env r t = (Inr (tb_next t), t')" "table_inv t'"
    "tb_records t' = (tb_records t)(tb_next t \<mapsto> r)" "tb_order t' = tb_order t @ [tb_next t]" "tb_path t' = tb_path t"
    using table_insert_ok [OF assms] by blast
  have "insert_rows [] [r] env t = (Inr 1, t')"
    using t'(1) materialize_all [OF len] len by (simp add: insert_rows_def insert_positions_def insert_row_def op_simps)
  then show ?thesis using t' by blast
qed

end
