(* ===== verification/Sql_Results.thy ===== *)
theory Sql_Results
  imports Statement_Correct Table_Results
begin

text \<open>
  What a statement does: a WHERE clause selects the rows that SQL selects, an index changes
  nothing but the rows looked at, errors are reported and not thrown, and the system stays in
  shape. What a statement does not do: it does not undo what it did before an error.
\<close>

section \<open>WHERE\<close>

text \<open>C7: A row is selected by the code exactly when the clause is TRUE in three-valued logic, and an
  error of one is an error of the other. The code answers UNKNOWN for FALSE AND UNKNOWN, and for
  a BETWEEN with one NULL bound whatever the other says; neither makes a difference to what is
  selected, as there is no NOT.\<close>

theorem where_is_three_valued_logic:
  "map_sum id selected (eval_where re e t row) = map_sum id (\<lambda>k. k = Some True) (sql_truth re e t row)"
  using eval_where_stands_for [of re e t row]
  by (cases "eval_where re e t row"; cases "sql_truth re e t row") (auto dest: stands_for_selected)

definition from_five :: Expr where
  "from_five = CompareExpr GtEq (ColumnRefExpr ''id'') (LiteralExpr (VInt 5))"

definition some_regex :: regex where
  "some_regex = (\<lambda>pattern s. Inr (pattern = s))"

lemma from_five_people: "eval_where re from_five people1 bob = Inr (tri True False)"
  using people1_ok(5)
  by (simp add: from_five_def require_column_def id_column_def three_way_def to_bool_three_valued_def)

text \<open>C8: No index hides a row: when a row satisfies the clause, the candidates are found without an
  error and the row is one of them.\<close>

theorem no_row_is_missed:
  assumes "table_inv t" and "tb_records t i = Some r" and "eval_where re e t r = Inr b" and "selected b"
  shows "\<exists>cands t'. select_candidates (Some e) t = (Inr cands, t') \<and> i \<in> set cands \<and> same_rows t t' \<and> table_inv t'"
proof -
  have sat: "satisfies re e t r" using assms(3,4) by (auto simp: satisfies_def)
  show ?thesis
    using candidates_ok [OF assms(1) satisfies_usable [OF assms(1,2) sat]] satisfies_offered [OF assms(2) sat] by blast
qed

lemma no_row_is_missed_witness:
  "\<exists>cands t. select_candidates (Some from_five) people1 = (Inr cands, t) \<and> 1 \<in> set cands"
  using no_row_is_missed [OF people1_ok(2) _ from_five_people, of 1] people1_ok(3) by (auto simp: selected_def)

text \<open>C21: The rows a statement works on are those of a scan of the whole table, each once, whether an
  index is used or not.\<close>

theorem matched_rows_are_those_of_a_full_scan:
  assumes "table_inv t" and "hint_usable cond t"
    and "\<forall>i r. tb_records t i = Some r \<longrightarrow> (\<exists>b. row_matches re cond t r = Inr b)"
  shows "\<exists>found all t'. matched_rows re cond t = (Inr found, t') \<and>
           scan_rows re cond t (\<lambda>i r acc. Inr (acc @ [i])) (tb_order t) [] = Inr all \<and>
           mset found = mset all \<and> same_rows t t' \<and> table_inv t'"
  using assms by (rule matched_rows_scan)

lemma matched_rows_are_those_of_a_full_scan_witness:
  "\<exists>t. matched_rows some_regex (Some from_five) people1 = (Inr [1], t)"
proof -
  have usable: "hint_usable (Some from_five) people1"
    using satisfies_usable [OF people1_ok(2) _, of 1 bob some_regex from_five] people1_ok(3) from_five_people
    by (auto simp: satisfies_def selected_def)
  have match: "row_matches some_regex (Some from_five) people1 bob = Inr True"
    by (simp add: row_matches_def from_five_people selected_def)
  then have "\<forall>i r. tb_records people1 i = Some r \<longrightarrow> (\<exists>b. row_matches some_regex (Some from_five) people1 r = Inr b)"
    using people1_ok(3) by auto
  from matched_rows_are_those_of_a_full_scan [OF people1_ok(2) usable this]
  obtain found all t where m: "matched_rows some_regex (Some from_five) people1 = (Inr found, t)"
    "scan_rows some_regex (Some from_five) people1 (\<lambda>i r acc. Inr (acc @ [i])) (tb_order people1) [] = Inr all" "mset found = mset all"
    by blast
  have "all = [1]" using m(2) people1_ok(3,4) match by (simp add: record_at_def)
  then show ?thesis using m(1,3) by auto
qed

section \<open>Statements\<close>

definition some_io :: io_env where
  "some_io = \<lparr>io_openable = (\<lambda>_. True), io_writable = (\<lambda>_. True), io_faults = (\<lambda>_. []),
              io_memory = \<lparr>env_budget = None, meminfo = None\<rparr>\<rparr>"

definition some_sql_env :: sql_env where
  "some_sql_env = \<lparr>sq_regex = some_regex, sq_dump = (\<lambda>_. Inr ''[]''), sq_io = some_io\<rparr>"

text \<open>\<open>execute\<close> reports every exception as a result that is not ok. What is left are behaviours that
  are no exceptions.\<close>

theorem execute_reports_errors:
  "(\<exists>r. fst (execute env stmt d) = Inr r) \<or> fst (execute env stmt d) = Inl Undefined_behaviour \<or>
   fst (execute env stmt d) = Inl Nontermination"
proof (cases "exec_statement env stmt d")
  case (Pair r d')
  then show ?thesis by (cases r; cases "projl r") (auto simp: execute_def)
qed

text \<open>Every statement, whether it succeeds or fails, leaves the databases filed once each under their
  own names, and the active database, if there is one, exists.\<close>

theorem execute_keeps_system_invariant:
  assumes "dbms_inv d"
  shows "dbms_inv (snd (execute env stmt d))"
  using assms by (rule execute_keeps_inv)

lemma execute_keeps_system_invariant_witness:
  "dbms_inv (snd (execute some_sql_env (UseStmt ''shop'') (new_dbms ''data'' [])))"
  by (rule execute_keeps_system_invariant) (simp add: dbms_inv_def new_dbms_def)

text \<open>An INSERT of several rows is not undone when one of them is refused: here the first row stays
  and the statement fails.\<close>

theorem failed_insert_keeps_earlier_rows:
  "\<exists>t. insert_rows [] [bob, [VInt 7, VStr ''eve'']] some_env people =
     (Inl (Runtime_error (''Duplicate value in indexed column '' @ quoted ''id'')), t) \<and>
     tb_records t = [1 \<mapsto> bob]"
proof -
  let ?eve = "[VInt 7, VStr ''eve'']"
  have full: "materialize t [0, 1] [v, w] = Inr [v, w]" if "tb_schema t = [id_column, name_column]" for t v w
    using that by (simp add: materialize_def fill_default_def)
  have "insert_row some_env [0, 1] bob people = (Inr (), people1)"
    using people1_ok(1) full [OF new_people(3)] by (simp add: insert_row_def op_simps)
  moreover obtain t where t: "table_insert some_env ?eve people1 =
      (Inl (Runtime_error (''Duplicate value in indexed column '' @ quoted ''id'')), t)" "same_rows people1 t"
    using table_insert_taken [OF people1_ok(2), of ?eve 0 1 bob some_env] people1_ok(3,5)
    by (auto simp: people_indexed id_column_def name_column_def)
  moreover have "insert_row some_env [0, 1] ?eve people1 =
      (Inl (Runtime_error (''Duplicate value in indexed column '' @ quoted ''id'')), t)"
    using t(1) full [OF people1_ok(5)] by (simp add: insert_row_def op_simps)
  moreover have "insert_positions people [] = Inr [0, 1]" using new_people(3) by (simp add: insert_positions_def)
  ultimately have "insert_rows [] [bob, ?eve] some_env people =
      (Inl (Runtime_error (''Duplicate value in indexed column '' @ quoted ''id'')), t)"
    by (simp add: insert_rows_def op_simps)
  then show ?thesis using t(2) people1_ok(3) same_rowsD(3) by auto
qed


section \<open>Databases\<close>

definition shop :: database where
  "shop = \<lparr>db_name = ''d'', db_tables = [(''people'', people)], db_dir = ''d'',
           db_files = [(''gone.dat'', []), (''gone.idx.0'', []), (''notes'', [])]\<rparr>"

definition shop_system :: dbms where
  "shop_system = \<lparr>dm_root = [], dm_databases = [(''d'', shop)], dm_active = ''d'', dm_dirs = []\<rparr>"

lemma shop_ready: "db_ready shop" "plain_name ''people''"
  using new_people(2,8) by (simp_all add: db_ready_def shop_def table_path_def join_path_def dat_file_def plain_name_def)

text \<open>C22: Saving a database in its directory succeeds when its files can be written. No row changes, and
  the directory then has the bytes of every table as it is and no file that belongs, by its name,
  to a table that is gone; files that belong to no table stay.\<close>

theorem saved_directory_matches_tables:
  assumes "db_ready db"
    and "\<forall>n \<in> fst ` set (db_tables db). plain_name n \<and> io_writable io (table_path db n)"
  shows "\<exists>db'. save_to io (db_dir db) db = (Inr (), db') \<and> db_ready db' \<and> same_tables db db' \<and> in_sync db' \<and> tidy db' \<and>
           (\<forall>f. file_owner f = None \<longrightarrow> map_of (db_files db') f = map_of (db_files db) f)"
  using assms by (rule save_to_ok)

lemma saved_directory_matches_tables_witness:
  "\<exists>db. save_to some_io ''d'' shop = (Inr (), db) \<and> map_of (db_files db) ''gone.idx.0'' = None \<and>
     map_of (db_files db) ''notes'' = Some []"
proof -
  have "\<forall>n \<in> fst ` set (db_tables shop). plain_name n \<and> io_writable some_io (table_path shop n)"
    using shop_ready(2) by (simp add: shop_def some_io_def)
  from saved_directory_matches_tables [OF shop_ready(1) this]
  obtain db where db: "save_to some_io ''d'' shop = (Inr (), db)" "same_tables shop db" "tidy db"
    "\<forall>f. file_owner f = None \<longrightarrow> map_of (db_files db) f = map_of (db_files shop) f"
    by (auto simp: shop_def)
  have names: "map fst (db_tables db) = [''people'']" using db(2) by (simp add: same_tables_def shop_def)
  have "map_of (db_tables db) ''gone'' = None" using names by (cases "db_tables db") (auto simp: map_of_eq_None_iff)
  then have "stale (db_tables db) ''gone.idx.0''"
    by (simp add: stale_def file_owner_def file_extension_def file_stem_def file_name_def Let_def)
  then have "map_of (db_files db) ''gone.idx.0'' = None" using db(3) by (auto simp: tidy_def)
  moreover have "file_owner ''notes'' = None"
    by (simp add: file_owner_def file_extension_def file_stem_def file_name_def Let_def)
  then have "map_of (db_files db) ''notes'' = Some []" using db(4) by (simp add: shop_def)
  ultimately show ?thesis using db(1) by blast
qed

text \<open>A new table is empty, is bound to its file in the directory and has its indexes open, all in
  step with no rows; the other tables are as they were.\<close>

theorem created_table_is_ready:
  assumes "db_ready db" and "db_dir db \<noteq> []" and "\<not> has_table db name"
    and "fresh_env (index_env_of io (db_files db) (db_dir db) name)"
  shows "\<exists>db' t. create_table io name cols db = (Inr (), db') \<and> db_ready db' \<and>
           db_tables db' = db_tables db @ [(name, t)] \<and> tb_name t = name \<and> tb_schema t = cols \<and>
           tb_records t = (\<lambda>_. None) \<and> tb_order t = [] \<and> tb_next t = 1 \<and>
           db_name db' = db_name db \<and> db_dir db' = db_dir db \<and> db_files db' = db_files db"
  using assms by (rule create_table_ok)

lemma created_table_is_ready_witness:
  "\<exists>db. create_table some_io ''tags'' [tag_column] shop = (Inr (), db) \<and> db_ready db \<and>
     map fst (db_tables db) = [''people'', ''tags'']"
proof -
  have no_file: "map_of (db_files shop) (file_name (index_path_for (join_path (db_dir shop) (dat_file ''tags'')) @ ''.'' @ s)) = None"
    if "CHR ''/'' \<notin> set s" for s
  proof -
    have "index_path_for (join_path (db_dir shop) (dat_file ''tags'')) = ''d/tags.idx''"
      by (simp add: shop_def join_path_def dat_file_def index_path_for_def parent_path_def file_stem_def file_name_def Let_def)
    moreover have "file_name (''d/tags.idx'' @ ''.'' @ s) = ''tags.idx.'' @ s"
      using that by (auto simp: file_name_def takeWhile_append takeWhile_eq_all_conv)
    ultimately show ?thesis by (simp add: shop_def)
  qed
  have digits: "CHR ''/'' \<notin> set (nat_str n)" for n
  proof (induction n rule: nat_str.induct)
    case (1 n)
    have "CHR ''/'' \<noteq> char_of (48 + k)" if "k < 10" for k :: nat
    proof
      assume "CHR ''/'' = char_of (48 + k)"
      then have "of_char (CHR ''/'') = (48 + k) mod 256" by (metis of_char_of)
      then show False using that by simp
    qed
    then show ?case using 1 by (subst nat_str.simps) auto
  qed
  have "fresh_env (index_env_of some_io (db_files shop) (db_dir shop) ''tags'')"
    using no_file [OF digits] by (simp add: fresh_env_def index_env_of_def Let_def some_io_def)
  from created_table_is_ready [OF shop_ready(1) _ _ this, of "[tag_column]"] show ?thesis
    by (auto simp: shop_def has_table_def)
qed

text \<open>C4: An INSERT of one whole row into a table of a ready system succeeds: the row is in the table
  under the next id, the table keeps its invariant, the other tables keep their rows and the
  other databases are untouched, and the directory has every table as it now is.\<close>

theorem insert_statement_adds_row_and_saves:
  assumes "system_ready env d dbn db" and "refers d ref dbn"
    and "map_of (db_tables db) (ref_table ref) = Some t"
    and "length r = length (tb_schema t)" and "check_types (tb_schema t) r = Inr ()"
    and "room_for t r" and "tb_next t + 1 < 2 ^ 64"
    and "\<forall>c \<in> set (indexed_columns t). \<forall>i q. tb_records t i = Some q \<longrightarrow> q ! c \<noteq> r ! c"
  shows "\<exists>d' db' t'. execute env (InsertStmt ref [] [r]) d = (Inr (done_with ''Inserted 1 row(s)'' 1), d') \<and>
           system_ready env d' dbn db' \<and> in_sync db' \<and> tidy db' \<and>
           map_of (db_tables db') (ref_table ref) = Some t' \<and> table_inv t' \<and>
           tb_records t' = (tb_records t)(tb_next t \<mapsto> r) \<and> tb_order t' = tb_order t @ [tb_next t] \<and>
           (\<forall>k u. k \<noteq> ref_table ref \<longrightarrow> map_of (db_tables db) k = Some u \<longrightarrow>
              (\<exists>u'. map_of (db_tables db') k = Some u' \<and> same_rows u u')) \<and>
           (\<forall>k. k \<noteq> dbn \<longrightarrow> map_of (dm_databases d') k = map_of (dm_databases d) k)"
proof -
  have "table_inv t" using assms(1,3) by (simp add: system_ready_def db_ready_def)
  then obtain t1 where t1: "insert_rows [] [r] (index_env_of (sq_io env) (db_files db) (db_dir db) (ref_table ref)) t = (Inr 1, t1)"
    "table_inv t1" "tb_path t1 = tb_path t" "tb_records t1 = (tb_records t)(tb_next t \<mapsto> r)"
    "tb_order t1 = tb_order t @ [tb_next t]"
    using insert_one_row [OF _ assms(4-8)] by blast
  have "nat_str 1 = ''1''" by (subst nat_str.simps) (simp add: char_of_eq_iff)
  then show ?thesis
    using change_statement_ok [where m = "insert_rows [] [r]", OF assms(1-3) t1(1-3), of "InsertStmt ref [] [r]" "''Inserted ''"]
    by (simp add: t1(4,5) exec_insert_def)
qed

lemma insert_statement_adds_row_and_saves_witness:
  "\<exists>d. execute some_sql_env (InsertStmt \<lparr>ref_database = [], ref_table = ''people''\<rparr> [] [bob]) shop_system =
     (Inr (done_with ''Inserted 1 row(s)'' 1), d)"
proof -
  have "system_ready some_sql_env shop_system ''d'' shop"
    using shop_ready
    by (simp add: system_ready_def shop_system_def) (simp add: shop_def join_path_def some_sql_env_def some_io_def)
  moreover have "refers shop_system \<lparr>ref_database = [], ref_table = ''people''\<rparr> ''d''"
    by (simp add: refers_def shop_system_def has_database_def)
  moreover have "map_of (db_tables shop) ''people'' = Some people" by (simp add: shop_def)
  ultimately show ?thesis
    using insert_statement_adds_row_and_saves [of some_sql_env shop_system "''d''" shop
        "\<lparr>ref_database = [], ref_table = ''people''\<rparr>" people bob] bob_fits new_people(3,4,6)
    by auto
qed

section \<open>SELECT\<close>

text \<open>C24: SELECT of columns answers one JSON object per matching row, each once, and counts them; an
  index may change their order and nothing else. The object of a row has the cell of each named
  column under its label (the alias or the name; for a star every column of the schema in its
  order); of two items with one label the last gives the value. What is sent is the text the JSON
  library makes of the array; when the library refuses (a cell that is not UTF-8) its error is
  the answer.\<close>

theorem select_answers_matching_rows:
  assumes "table_inv t" and "hint_usable cond t" and "no_where_errors (sq_regex env) cond t"
    and "names_columns t items kcs"
  shows "\<exists>found t'. select_rows env items cond t =
           (map_sum id (\<lambda>text. done_with text (length found))
              (sq_dump env (JArr (map (\<lambda>i. row_object kcs (the (tb_records t i))) found))), t') \<and>
           distinct found \<and> set found = {i. matches_row (sq_regex env) cond t i} \<and> same_rows t t' \<and> table_inv t'"
  using select_plain_ok [OF assms] unfolding sent_def .

definition star :: SelectItem where
  "star = \<lparr>is_star = True, agg = AggNone, agg_star = False, item_column = [], item_alias = []\<rparr>"

lemma all_people: "hint_usable None people1" "no_where_errors some_regex None people1"
  "matches_row some_regex None people1 i \<longleftrightarrow> i = 1"
  using people1_ok(3)
  by (auto simp: hint_usable_def derive_index_hint_def no_hint_def no_where_errors_def row_matches_def matches_row_def
      split: if_splits)

definition name_item :: SelectItem where
  "name_item = \<lparr>is_star = False, agg = AggNone, agg_star = False, item_column = ''name'', item_alias = ''id''\<rparr>"

definition id_item :: SelectItem where
  "id_item = \<lparr>is_star = False, agg = AggNone, agg_star = False, item_column = ''id'', item_alias = []\<rparr>"

text \<open>A library that accepts the answers \<open>[{id: 7, name: bob}]\<close> and \<open>[{id: bob}]\<close> and refuses any other.\<close>

definition show_rows :: "json \<Rightarrow> error + string" where
  "show_rows j =
     (if j = JArr [JObj [(''id'', JInt 7), (''name'', JStr ''bob'')]] then Inr ''both''
      else if j = JArr [JObj [(''id'', JStr ''bob'')]] then Inr ''last''
      else Inl (Runtime_error ''type_error.316''))"

lemma people_named: "names_columns people1 [star] [(''id'', 0), (''name'', 1)]"
  "names_columns people1 [id_item, name_item] [(''id'', 0), (''id'', 1)]"
  using people1_ok(5)
  by (simp_all add: names_columns_def star_def star_columns_def id_column_def name_column_def names_column_def
      id_item_def name_item_def is_column_def)

lemma one_row: "distinct found \<Longrightarrow> set found = {i. matches_row some_regex None people1 i} \<Longrightarrow> found = [1]"
  using all_people(3) by (cases found) (auto simp: subset_singleton_iff)

lemma select_answers_matching_rows_witness:
  "(\<exists>t. select_rows (some_sql_env\<lparr>sq_dump := show_rows\<rparr>) [star] None people1 = (Inr (done_with ''both'' 1), t)) \<and>
   (\<exists>t. select_rows (some_sql_env\<lparr>sq_dump := show_rows\<rparr>) [id_item, name_item] None people1 = (Inr (done_with ''last'' 1), t))"
proof -
  let ?env = "some_sql_env\<lparr>sq_dump := show_rows\<rparr>"
  have re: "sq_regex ?env = some_regex" "sq_dump ?env = show_rows" by (simp_all add: some_sql_env_def)
  have row: "the (tb_records people1 1) = bob" using people1_ok(3) by simp
  have both: "row_object [(''id'', 0), (''name'', 1)] bob = JObj [(''id'', JInt 7), (''name'', JStr ''bob'')]"
    by (simp add: row_object_def first_labels_def)
  have last: "row_object [(''id'', 0), (''id'', 1)] bob = JObj [(''id'', JStr ''bob'')]"
    by (simp add: row_object_def first_labels_def)
  obtain f t where "select_rows ?env [star] None people1 =
      (map_sum id (\<lambda>text. done_with text (length f)) (show_rows (JArr (map (\<lambda>i. row_object [(''id'', 0), (''name'', 1)] (the (tb_records people1 i))) f))), t)"
    "f = [1]"
    using select_answers_matching_rows [OF people1_ok(2) all_people(1) _ people_named(1), of ?env] all_people(2) one_row re
    by metis
  moreover obtain g u where "select_rows ?env [id_item, name_item] None people1 =
      (map_sum id (\<lambda>text. done_with text (length g)) (show_rows (JArr (map (\<lambda>i. row_object [(''id'', 0), (''id'', 1)] (the (tb_records people1 i))) g))), u)"
    "g = [1]"
    using select_answers_matching_rows [OF people1_ok(2) all_people(1) _ people_named(2), of ?env] all_people(2) one_row re
    by metis
  ultimately show ?thesis by (simp add: show_rows_def row [unfolded One_nat_def] both [unfolded One_nat_def] last [unfolded One_nat_def])
qed

text \<open>C23: SELECT SUM of an integer column is the sum over the matching rows, NULL when there is no value,
  as long as the magnitudes add up to less than \<open>2 ^ 63\<close>, whatever the order of the rows. It is
  answered under its alias or its own text, as the JSON library writes that one object (or with
  the library's error, when the label is not UTF-8).\<close>

theorem sum_query_is_exact:
  assumes "table_inv t" and "hint_usable cond t" and "no_where_errors (sq_regex env) cond t"
    and "names_sum t it k c" and "M = {i. matches_row (sq_regex env) cond t i}"
    and "(\<Sum>i \<in> M. \<bar>int_value (cell t c i)\<bar>) < 2 ^ 63"
  shows "\<exists>t'. select_rows env [it] cond t =
           (map_sum id (\<lambda>text. done_with text 1)
              (sq_dump env (JArr [JObj [(k,
                 if \<forall>i \<in> M. is_null (cell t c i) then JNull else JInt (\<Sum>i \<in> M. int_value (cell t c i)))]])), t') \<and>
           same_rows t t' \<and> table_inv t'"
  using select_sum_ok [OF assms] unfolding sent_def sum_of_cells_def .

definition sum_of_ids :: SelectItem where
  "sum_of_ids = \<lparr>is_star = False, agg = Sum, agg_star = False, item_column = ''id'', item_alias = ''total''\<rparr>"

definition show_sum :: "json \<Rightarrow> error + string" where
  "show_sum j = (if j = JArr [JObj [(''total'', JInt 7)]] then Inr ''seven'' else Inl (Runtime_error ''type_error.316''))"

lemma sum_query_is_exact_witness:
  "\<exists>t. select_rows (some_sql_env\<lparr>sq_dump := show_sum\<rparr>) [sum_of_ids] None people1 = (Inr (done_with ''seven'' 1), t)"
proof -
  let ?env = "some_sql_env\<lparr>sq_dump := show_sum\<rparr>"
  have re: "sq_regex ?env = some_regex" "sq_dump ?env = show_sum" by (simp_all add: some_sql_env_def)
  have item: "names_sum people1 sum_of_ids ''total'' 0"
    using people1_ok(5) by (simp add: names_sum_def sum_of_ids_def is_column_def id_column_def)
  have M: "{1} = {i. matches_row (sq_regex ?env) None people1 i}" using all_people(3) re by auto
  have v: "cell people1 0 1 = VInt 7" using people1_ok(3) by (simp add: cell_def)
  show ?thesis
    using sum_query_is_exact [OF people1_ok(2) all_people(1) _ item M] all_people(2) v
    by (auto simp: re show_sum_def)
qed

text \<open>A sum that leaves the range of 64-bit integers is cast all the same: the behaviour of the query
  is undefined.\<close>

theorem sum_beyond_int64_is_undefined:
  "\<exists>ac. sum_bind (add_row t [VInt (2 ^ 63 - 1)] (\<lparr>ri_kind = Agg, ri_column = 0, ri_agg = Sum, ri_label = l\<rparr>, empty_acc))
      (add_row t [VInt 1]) = Inr ac \<and> aggregate_json ac = Inl Undefined_behaviour"
proof -
  have "round_int 64 (2 ^ 63 - 1) = 2 ^ 63 - 1" "round_int 64 (2 ^ 63) = 2 ^ 63" by (simp_all add: round_int_exact)
  moreover have "sint (2 ^ 63 - 1 :: 64 word) = 2 ^ 63 - 1" by (simp add: signed_take_bit_def)
  ultimately show ?thesis
    by (simp add: add_row_def empty_acc_def add_long_double_def aggregate_json_def sum_json_def int64_range_def)
qed

end
