(* ===== verification/Table_Change.thy ===== *)
theory Table_Change
  imports Table_Correct
begin

text \<open>
  Erasing and updating rows. The keys of a row are taken out of every index, and for an update
  put back as they are then; what the indexes can spare says for how many rows this goes on.
\<close>

section \<open>Changing one index\<close>

lemma on_index_changes:
  assumes inv: "indexes_hold t f" and c: "c \<in> set (indexed_columns t)"
    and ix: "map_of (tb_indexes t) c = Some ix" and m: "m ix = (x, ix')"
    and holds: "index_holds (column_type t c) ix' kvs"
  shows "\<exists>t'. on_index c m t = (x, t') \<and> same_rows t t' \<and> indexes_hold t' (f(c := kvs)) \<and>
           map_of (tb_indexes t') = (map_of (tb_indexes t))(c \<mapsto> ix')"
proof -
  let ?t = "t\<lparr>tb_indexes := AList.update c ix' (tb_indexes t)\<rparr>"
  have ty: "column_type ?t d = column_type t d" "indexed_columns ?t = indexed_columns t" for d
    by (simp_all add: column_type_def indexed_columns_def)
  have "indexes_hold ?t (f(c := kvs))"
    using inv holds own_indexes_update [OF _ c] by (auto simp: indexes_hold_def ty update_conv')
  moreover have "on_index c m t = (x, ?t)" using ix m by (simp add: on_index_def)
  ultimately show ?thesis by (intro exI [of _ ?t]) (simp add: same_rows_def update_conv')
qed

text \<open>For each column the size of its keys: every index can spare \<open>j\<close>.\<close>

definition spare_all :: "table \<Rightarrow> (nat \<Rightarrow> nat) \<Rightarrow> nat \<Rightarrow> bool" where
  "spare_all t n j \<longleftrightarrow> (\<forall>c \<in> set (indexed_columns t). column_spare t c (n c) j)"

lemma spare_all_keeps:
  "spare_all t n j \<Longrightarrow> keeps_means t t' \<Longrightarrow> indexed_columns t' = indexed_columns t \<Longrightarrow> spare_all t' n j"
  by (simp add: spare_all_def keeps_means_def)

lemma column_spare_frame:
  assumes "same_rows t t'" and "map_of (tb_indexes t') = (map_of (tb_indexes t))(c \<mapsto> ix')"
  shows "d \<noteq> c \<Longrightarrow> column_spare t' d n j = column_spare t d n j"
    and "column_spare t' c n j = index_spare (column_type t c) n ix' j"
  using same_rowsD(2) [OF assms(1)] assms(2) by (simp_all add: column_spare_def column_type_def)

lemma erase_from_one:
  assumes inv: "indexes_hold t f" and c: "c \<in> set (indexed_columns t)" and sp: "column_spare t c n (Suc j)"
    and k: "k \<in> fst ` set (f c)"
  shows "\<exists>t'. on_index c (idx_erase k) t = (Inr True, t') \<and> same_rows t t' \<and>
           indexes_hold t' (f(c := without_key k (f c))) \<and> column_spare t' c n j \<and>
           (\<forall>d. d \<noteq> c \<longrightarrow> (\<forall>n j. column_spare t' d n j = column_spare t d n j))"
proof -
  obtain ix where ix: "map_of (tb_indexes t) c = Some ix" "index_holds (column_type t c) ix (f c)"
    using inv c by (auto simp: indexes_hold_def)
  have "index_spare (column_type t c) n ix (Suc j)" using sp ix(1) by (simp add: column_spare_def)
  from disk_erasing.remove_law [OF ix(2) this k] obtain ix' where ix': "idx_erase k ix = (Inr True, ix')"
    "index_holds (column_type t c) ix' (without_key k (f c))" "index_spare (column_type t c) n ix' j"
    by blast
  obtain t' where t': "on_index c (idx_erase k) t = (Inr True, t')" "same_rows t t'"
    "indexes_hold t' (f(c := without_key k (f c)))" "map_of (tb_indexes t') = (map_of (tb_indexes t))(c \<mapsto> ix')"
    using on_index_changes [where m = "idx_erase k", OF inv c ix(1) ix'(1,2)] by blast
  then show ?thesis using column_spare_frame [OF t'(2,4)] ix'(3) by blast
qed

lemma insert_sparing:
  assumes inv: "indexes_hold t f" and c: "c \<in> set (indexed_columns t)" and k: "typed (column_type t c) k"
    and n: "encoded_value_size k = n" and sp: "column_spare t c n (Suc (Suc j))" and i: "i < 2 ^ 64"
    and new: "k \<notin> fst ` set (f c)"
  shows "\<exists>t'. on_index c (idx_insert k i) t = (Inr (), t') \<and> same_rows t t' \<and>
           indexes_hold t' (f(c := with_key k i (f c))) \<and> column_spare t' c n j \<and>
           (\<forall>d. d \<noteq> c \<longrightarrow> (\<forall>n j. column_spare t' d n j = column_spare t d n j))"
proof -
  obtain ix where ix: "map_of (tb_indexes t) c = Some ix" "index_holds (column_type t c) ix (f c)"
    using inv c by (auto simp: indexes_hold_def)
  have s: "index_spare (column_type t c) n ix (Suc (Suc j))" using sp ix(1) by (simp add: column_spare_def)
  have room: "index_room (column_type t c) ix k" by (rule disk_erasing.spare_room_law [OF ix(2) s n])
  obtain ix' where ix': "idx_insert k i ix = (Inr (), ix')"
    "index_holds (column_type t c) ix' (with_key k i (f c))"
    using disk.add_law [OF ix(2) k room i new] by blast
  have sp': "index_spare (column_type t c) n ix' j"
    using disk_erasing.spare_add_law [OF ix(2) k n s i new] ix'(1) by simp
  obtain t' where t': "on_index c (idx_insert k i) t = (Inr (), t')" "same_rows t t'"
    "indexes_hold t' (f(c := with_key k i (f c)))" "map_of (tb_indexes t') = (map_of (tb_indexes t))(c \<mapsto> ix')"
    using on_index_changes [where m = "idx_insert k i", OF inv c ix(1) ix'] by blast
  then show ?thesis using column_spare_frame [OF t'(2,4)] sp' by blast
qed

section \<open>All indexes of a table\<close>

text \<open>
  The loops over the indexed columns: \<open>step\<close> changes the index of one column, and what the
  indexes hold, column by column.
\<close>

lemma each_index:
  assumes step: "\<And>t f c. indexes_hold t f \<Longrightarrow> c \<in> set (indexed_columns t) \<Longrightarrow> column_type t c = ty c \<Longrightarrow>
      column_spare t c (n c) i \<Longrightarrow> P c (f c) \<Longrightarrow> \<exists>t'. m c t = (Inr (), t') \<and> same_rows t t' \<and>
           indexes_hold t' (f(c := g c (f c))) \<and> column_spare t' c (n c) j \<and>
           (\<forall>d. d \<noteq> c \<longrightarrow> (\<forall>n j. column_spare t' d n j = column_spare t d n j))"
    and "indexes_hold t f" and "distinct cs" and "set cs \<subseteq> set (indexed_columns t)"
    and "\<forall>c \<in> set cs. column_spare t c (n c) i \<and> P c (f c) \<and> column_type t c = ty c"
  shows "\<exists>t'. for_each m cs t = (Inr (), t') \<and> same_rows t t' \<and>
           indexes_hold t' (\<lambda>c. if c \<in> set cs then g c (f c) else f c) \<and>
           (\<forall>c \<in> set cs. column_spare t' c (n c) j) \<and>
           (\<forall>d. d \<notin> set cs \<longrightarrow> (\<forall>n j. column_spare t' d n j = column_spare t d n j))"
  using assms(2-5)
proof (induction cs arbitrary: t f)
  case Nil
  then show ?case by (auto simp: ret_def)
next
  case (Cons c cs)
  obtain t1 where t1: "m c t = (Inr (), t1)" "same_rows t t1" "indexes_hold t1 (f(c := g c (f c)))"
    "column_spare t1 c (n c) j" "\<And>d n j. d \<noteq> c \<Longrightarrow> column_spare t1 d n j = column_spare t d n j"
    using step [OF Cons.prems(1)] Cons.prems(3,4) by fastforce
  note R = same_rowsD [OF t1(2)]
  let ?f = "f(c := g c (f c))"
  have ne: "d \<noteq> c" if "d \<in> set cs" for d using that Cons.prems(2) by auto
  have "\<forall>d \<in> set cs. column_spare t1 d (n d) i \<and> P d (?f d) \<and> column_type t1 d = ty d"
    using Cons.prems(4) ne t1(5) R(2) by (auto simp: column_type_def)
  then obtain t2 where t2: "for_each m cs t1 = (Inr (), t2)" "same_rows t1 t2"
    "indexes_hold t2 (\<lambda>d. if d \<in> set cs then g d (?f d) else ?f d)" "\<forall>d \<in> set cs. column_spare t2 d (n d) j"
    "\<forall>d. d \<notin> set cs \<longrightarrow> (\<forall>n j. column_spare t2 d n j = column_spare t1 d n j)"
    using Cons.IH [OF t1(3)] Cons.prems(2,3) R(7) by auto
  have "(\<lambda>d. if d \<in> set cs then g d (?f d) else ?f d) = (\<lambda>d. if d \<in> set (c # cs) then g d (f d) else f d)"
    using Cons.prems(2) by auto
  moreover have "column_spare t2 c (n c) j" using t2(5) t1(4) Cons.prems(2) by simp
  moreover have "\<forall>d. d \<notin> set (c # cs) \<longrightarrow> (\<forall>n j. column_spare t2 d n j = column_spare t d n j)"
    using t2(5) t1(5) by simp
  ultimately show ?case
    using t1(1) t2(1-4) same_rows_trans [OF t1(2) t2(2)] by (intro exI [of _ t2]) (simp add: op_simps)
qed

lemma remove_ok:
  assumes inv: "indexes_hold t f" and sp: "spare_all t n (Suc j)"
    and keys: "\<forall>c \<in> set (indexed_columns t). \<not> is_null (r ! c) \<and> r ! c \<in> fst ` set (f c)"
  shows "\<exists>t'. remove_from_indexes env i r t = (Inr (), t') \<and> same_rows t t' \<and> spare_all t' n j \<and>
           indexes_hold t' (\<lambda>c. if c \<in> set (indexed_columns t) then without_key (r ! c) (f c) else f c)"
proof -
  let ?m = "\<lambda>c. if is_null (r ! c) then ret ()
      else andthen (mutable_index env c) (bnd (on_index c (idx_erase (r ! c))) (\<lambda>_. ret ()))"
  have "\<exists>t'. for_each ?m (indexed_columns t) t = (Inr (), t') \<and> same_rows t t' \<and>
      indexes_hold t' (\<lambda>c. if c \<in> set (indexed_columns t) then without_key (r ! c) (f c) else f c) \<and>
      (\<forall>c \<in> set (indexed_columns t). column_spare t' c (n c) j) \<and>
      (\<forall>d. d \<notin> set (indexed_columns t) \<longrightarrow> (\<forall>n j. column_spare t' d n j = column_spare t d n j))"
  proof (rule each_index [where P = "\<lambda>c kvs. \<not> is_null (r ! c) \<and> r ! c \<in> fst ` set kvs" and i = "Suc j" and ty = "column_type t"])
    fix u f' c
    assume h: "indexes_hold u f'" "c \<in> set (indexed_columns u)" "column_spare u c (n c) (Suc j)"
      "\<not> is_null (r ! c) \<and> r ! c \<in> fst ` set (f' c)"
    show "\<exists>t'. ?m c u = (Inr (), t') \<and> same_rows u t' \<and> indexes_hold t' (f'(c := without_key (r ! c) (f' c))) \<and>
        column_spare t' c (n c) j \<and> (\<forall>d. d \<noteq> c \<longrightarrow> (\<forall>n j. column_spare t' d n j = column_spare u d n j))"
    proof -
      obtain t' where t': "on_index c (idx_erase (r ! c)) u = (Inr True, t')" "same_rows u t'"
        "indexes_hold t' (f'(c := without_key (r ! c) (f' c)))" "column_spare t' c (n c) j"
        "\<forall>d. d \<noteq> c \<longrightarrow> (\<forall>n j. column_spare t' d n j = column_spare u d n j)"
        using erase_from_one [OF h(1-3)] h(4) by blast
      then have "?m c u = (Inr (), t')" using h(4) mutable_index_noop [OF h(1,2)] by (simp add: op_simps)
      then show ?thesis using t'(2-5) by blast
    qed
  qed (use inv sp keys in \<open>auto simp: spare_all_def\<close>)
  then show ?thesis using same_rowsD(7) by (fastforce simp: remove_from_indexes_def spare_all_def)
qed

lemma reinstall_ok:
  assumes inv: "indexes_hold t f" and sp: "spare_all t n (Suc (Suc j))" and i: "i < 2 ^ 64"
    and keys: "\<forall>c \<in> set (indexed_columns t). typed (column_type t c) (r ! c) \<and> encoded_value_size (r ! c) = n c \<and>
        r ! c \<notin> fst ` set (f c)"
  shows "\<exists>t'. install_into_indexes env i r t = (Inr (), t') \<and> same_rows t t' \<and> spare_all t' n j \<and>
           indexes_hold t' (\<lambda>c. if c \<in> set (indexed_columns t) then with_key (r ! c) i (f c) else f c)"
proof -
  let ?m = "\<lambda>c. if is_null (r ! c) then ret ()
      else andthen (mutable_index env c) (on_index c (idx_insert (r ! c) i))"
  have "\<exists>t'. for_each ?m (indexed_columns t) t = (Inr (), t') \<and> same_rows t t' \<and>
      indexes_hold t' (\<lambda>c. if c \<in> set (indexed_columns t) then with_key (r ! c) i (f c) else f c) \<and>
      (\<forall>c \<in> set (indexed_columns t). column_spare t' c (n c) j) \<and>
      (\<forall>d. d \<notin> set (indexed_columns t) \<longrightarrow> (\<forall>n j. column_spare t' d n j = column_spare t d n j))"
  proof (rule each_index [where P = "\<lambda>c kvs. encoded_value_size (r ! c) = n c \<and> typed (column_type t c) (r ! c) \<and>
        r ! c \<notin> fst ` set kvs" and i = "Suc (Suc j)" and ty = "column_type t"])
    fix u f' c
    assume h: "indexes_hold u f'" "c \<in> set (indexed_columns u)" "column_type u c = column_type t c"
      "column_spare u c (n c) (Suc (Suc j))"
      "encoded_value_size (r ! c) = n c \<and> typed (column_type t c) (r ! c) \<and> r ! c \<notin> fst ` set (f' c)"
    then have "\<not> is_null (r ! c)" by (simp add: typed_iff)
    then show "\<exists>t'. ?m c u = (Inr (), t') \<and> same_rows u t' \<and> indexes_hold t' (f'(c := with_key (r ! c) i (f' c))) \<and>
        column_spare t' c (n c) j \<and> (\<forall>d. d \<noteq> c \<longrightarrow> (\<forall>n j. column_spare t' d n j = column_spare u d n j))"
    proof -
      have k: "typed (column_type u c) (r ! c)" "encoded_value_size (r ! c) = n c" "r ! c \<notin> fst ` set (f' c)"
        using h(3,5) by simp_all
      obtain t' where t': "on_index c (idx_insert (r ! c) i) u = (Inr (), t')" "same_rows u t'"
        "indexes_hold t' (f'(c := with_key (r ! c) i (f' c)))" "column_spare t' c (n c) j"
        "\<forall>d. d \<noteq> c \<longrightarrow> (\<forall>n j. column_spare t' d n j = column_spare u d n j)"
        using insert_sparing [OF h(1,2) k(1,2) h(4) i k(3)] by blast
      then have "?m c u = (Inr (), t')" using \<open>\<not> is_null (r ! c)\<close> mutable_index_noop [OF h(1,2)] by (simp add: op_simps)
      then show ?thesis using t'(2-5) by blast
    qed
  qed (use inv sp keys in \<open>auto simp: spare_all_def\<close>)
  then show ?thesis using same_rowsD(7) by (fastforce simp: install_into_indexes_def spare_all_def)
qed

section \<open>What an insertion leaves\<close>

lemma table_insert_spares:
  assumes inv: "table_inv t" and len: "length r = length (tb_schema t)" and ok: "check_types (tb_schema t) r = Inr ()"
    and next_id: "tb_next t + 1 < 2 ^ 64"
    and free: "\<forall>c \<in> set (indexed_columns t). \<forall>i q. tb_records t i = Some q \<longrightarrow> q ! c \<noteq> r ! c"
    and size: "\<forall>c \<in> set (indexed_columns t). encoded_value_size (r ! c) = n c" and sp: "spare_all t n (j + 2)"
  shows "spare_all (snd (table_insert env r t)) n j"
proof -
  obtain u f where u: "table_insert env r t = andthen (install_into_indexes env (tb_next t) r) (ret (tb_next t)) u"
    "added r t u"
    "keeps_means t u" "indexes_hold u f"
    "\<forall>c \<in> set (indexed_columns u). typed (column_type u c) (r ! c) \<and> r ! c \<notin> fst ` set (f c)"
    using insert_prepares [OF inv len ok next_id free] by blast
  note cols = addedD(1) [OF u(2)]
  have "spare_all u n (Suc (Suc j))" using spare_all_keeps [OF sp u(3) cols] by simp
  from reinstall_ok [OF u(4) this, of "tb_next t" r env] show ?thesis
    using u(1,5) size next_id cols by (auto simp: op_simps)
qed

section \<open>Erasing a row\<close>

lemma pairs_without:
  assumes f: "set kvs = column_pairs t c" "distinct (map fst kvs)" and r: "tb_records t i = Some r"
    and t': "tb_records t' = (tb_records t)(i := None)"
  shows "set (without_key (r ! c) kvs) = column_pairs t' c"
proof -
  have "j = i" if "tb_records t j = Some q" "q ! c = r ! c" for j q
  proof -
    have "(r ! c, j) \<in> set kvs" "(r ! c, i) \<in> set kvs" using that r f(1) by (auto simp: column_pairs_def)
    then show "j = i" using f(2) by (meson eq_key_imp_eq_value)
  qed
  then have only: "tb_records t j = Some q \<Longrightarrow> q ! c \<noteq> r ! c" if "j \<noteq> i" for j q
    using that by blast
  have "(v, j) \<in> set (without_key (r ! c) kvs) \<longleftrightarrow> (v, j) \<in> column_pairs t' c" for v j
  proof (cases "j = i")
    case True
    then show ?thesis using r by (simp add: set_without_key f(1) column_pairs_def t')
  next
    case False
    then show ?thesis using only [OF False] by (auto simp: set_without_key f(1) column_pairs_def t')
  qed
  then show ?thesis by auto
qed

lemma row_keys:
  assumes inv: "table_inv t" and r: "tb_records t i = Some r" and c: "c \<in> set (indexed_columns t)"
    and f: "set (f c) = column_pairs t c"
  shows "\<not> is_null (r ! c)" "typed (column_type t c) (r ! c)" "r ! c \<in> fst ` set (f c)"
proof -
  have "check_types (tb_schema t) r = Inr ()" "length r = length (tb_schema t)"
    using inv r by (auto simp: table_inv_def rows_ok_def)
  from indexed_typed [OF this c] show "\<not> is_null (r ! c)" "typed (column_type t c) (r ! c)" by simp_all
  show "r ! c \<in> fst ` set (f c)" using r by (force simp: f column_pairs_def)
qed

lemma table_erase_ok:
  assumes inv: "table_inv t" and r: "tb_records t i = Some r" and sp: "spare_all t n (Suc j)"
  shows "\<exists>t'. table_erase env i t = (Inr (), t') \<and> table_inv t' \<and> spare_all t' n j \<and>
           t' = t\<lparr>tb_records := (tb_records t)(i := None), tb_order := remove1 i (tb_order t), tb_indexes := tb_indexes t'\<rparr>"
proof -
  obtain f where f: "indexes_hold t f" "\<forall>c \<in> set (indexed_columns t). set (f c) = column_pairs t c"
    using inv by (auto simp: table_inv_def)
  have "\<forall>c \<in> set (indexed_columns t). \<not> is_null (r ! c) \<and> r ! c \<in> fst ` set (f c)"
    using row_keys [OF inv r] f(2) by blast
  from remove_ok [OF f(1) sp this] obtain t1 where t1: "remove_from_indexes env i r t = (Inr (), t1)" "same_rows t t1"
    "spare_all t1 n j" "indexes_hold t1 (\<lambda>c. if c \<in> set (indexed_columns t) then without_key (r ! c) (f c) else f c)"
    by blast
  note R = same_rowsD [OF t1(2)]
  let ?t = "t1\<lparr>tb_records := (tb_records t1)(i := None), tb_order := remove1 i (tb_order t1)\<rparr>"
  have cols: "indexed_columns ?t = indexed_columns t" "column_type ?t c = column_type t1 c" for c
    using R(2) by (simp_all add: indexed_columns_def column_type_def)
  have "indexes_hold ?t (\<lambda>c. if c \<in> set (indexed_columns t) then without_key (r ! c) (f c) else f c)"
    using t1(4) R(7) cols by (simp add: indexes_hold_def own_indexes_def)
  moreover have "rows_ok ?t"
    using inv R unfolding table_inv_def rows_ok_def by (auto simp: distinct_remove1 set_remove1_eq split: if_splits)
  moreover have "set (without_key (r ! c) (f c)) = column_pairs ?t c" if "c \<in> set (indexed_columns t)" for c
    by (rule pairs_without [OF _ held_keys_distinct [OF f(1) that] r]) (use f(2) that R in auto)
  ultimately have "table_inv ?t" using inv R cols by (auto simp: table_inv_def)
  moreover have "spare_all ?t n j"
    using t1(3) cols R(7) by (simp add: spare_all_def column_spare_def column_type_def)
  moreover have "table_erase env i t = (Inr (), ?t)" using r t1(1) by (simp add: table_erase_def op_simps)
  moreover have "?t = t\<lparr>tb_records := (tb_records t)(i := None), tb_order := remove1 i (tb_order t), tb_indexes := tb_indexes ?t\<rparr>"
    using t1(2) R(3,4) by (cases t; cases t1) (simp add: same_rows_def)
  ultimately show ?thesis by blast
qed

section \<open>Updating a row\<close>

lemma length_assign_all [simp]: "length (assign_all as r) = length r"
  unfolding assign_all_def by (induction as arbitrary: r) auto

lemma table_update_ok:
  assumes inv: "table_inv t" and r: "tb_records t i = Some r" and u: "u = assign_all assignments r"
    and ok: "check_types (tb_schema t) u = Inr ()" and size: "\<forall>c \<in> set (indexed_columns t). encoded_value_size (u ! c) = n c"
    and free: "\<forall>c \<in> set (indexed_columns t). \<forall>i' q. tb_records t i' = Some q \<longrightarrow> q ! c = u ! c \<longrightarrow> i' = i"
    and sp: "spare_all t n (j + 3)"
  shows "\<exists>t'. table_update env i assignments t = (Inr (), t') \<and> table_inv t' \<and> spare_all t' n j \<and>
           t' = t\<lparr>tb_records := (tb_records t)(i \<mapsto> u), tb_indexes := tb_indexes t'\<rparr>"
proof -
  obtain f where f: "indexes_hold t f" "\<forall>c \<in> set (indexed_columns t). set (f c) = column_pairs t c"
    using inv by (auto simp: table_inv_def)
  have "length r = length (tb_schema t) \<and> i < tb_next t \<and> tb_next t < 2 ^ 64"
    using inv r unfolding table_inv_def rows_ok_def by blast
  then have rows: "length r = length (tb_schema t)" "i < 2 ^ 64" by simp_all
  then have len: "length u = length (tb_schema t)" by (simp add: u)
  have "key_free f u (Some i) c" if "c \<in> set (indexed_columns t)" for c
    using key_free_iff [OF f(1) that] f(2) free that by blast
  then have "filter (\<lambda>c. \<not> key_free f u (Some i) c) (indexed_columns t) = []" by (simp add: filter_empty_conv)
  then obtain t1 where t1: "looked_at f t t1" "enforce_constraints u (Some i) t = (Inr (), t1)"
    using enforce_result [OF f(1) len ok, of "Some i"] by auto
  have rows1: "same_rows t t1" and h1: "indexes_hold t1 f" and k1: "keeps_means t t1"
    using t1(1) by (simp_all add: looked_at_def)
  note R = same_rowsD [OF rows1]
  have sp1: "spare_all t1 n (Suc (Suc (Suc j)))" using spare_all_keeps [OF sp k1 R(7)] by (simp add: numeral_3_eq_3)
  have "\<forall>c \<in> set (indexed_columns t1). \<not> is_null (r ! c) \<and> r ! c \<in> fst ` set (f c)"
    using row_keys [OF inv r] f(2) R(7) by auto
  from remove_ok [OF h1 sp1 this] obtain t2 where t2: "remove_from_indexes env i r t1 = (Inr (), t2)" "same_rows t1 t2"
    "spare_all t2 n (Suc (Suc j))"
    "indexes_hold t2 (\<lambda>c. if c \<in> set (indexed_columns t1) then without_key (r ! c) (f c) else f c)"
    by blast
  note R2 = same_rowsD [OF t2(2)]
  let ?f = "\<lambda>c. if c \<in> set (indexed_columns t) then without_key (r ! c) (f c) else f c"
  let ?t = "t2\<lparr>tb_records := (tb_records t2)(i \<mapsto> u)\<rparr>"
  have cols: "indexed_columns ?t = indexed_columns t" "column_type ?t c = column_type t c" for c
    using R(2) R2(2) by (simp_all add: indexed_columns_def column_type_def)
  have h3: "indexes_hold ?t ?f"
    using t2(4) R(7) R2(2,7) R(2) by (simp add: indexes_hold_def own_indexes_def indexed_columns_def column_type_def)
  have sp3: "spare_all ?t n (Suc (Suc j))"
    using t2(3) R2(2) R(2) by (simp add: spare_all_def column_spare_def column_type_def indexed_columns_def)
  let ?gone = "t\<lparr>tb_records := (tb_records t)(i := None)\<rparr>"
  have pairs: "set (without_key (r ! c) (f c)) = column_pairs ?gone c" if "c \<in> set (indexed_columns t)" for c
    by (rule pairs_without [OF _ held_keys_distinct [OF f(1) that] r]) (use f(2) that in auto)
  have "u ! c \<notin> fst ` set (?f c)" if c: "c \<in> set (indexed_columns t)" for c
    using free c pairs [OF c] by (fastforce simp: column_pairs_def split: if_splits)
  then have "\<forall>c \<in> set (indexed_columns ?t). typed (column_type ?t c) (u ! c) \<and> encoded_value_size (u ! c) = n c \<and>
      u ! c \<notin> fst ` set (?f c)"
    using indexed_typed(1) [OF ok len] size unfolding cols by blast
  from reinstall_ok [OF h3 sp3 rows(2) this] obtain t4 where t4: "install_into_indexes env i u ?t = (Inr (), t4)"
    "same_rows ?t t4" "spare_all t4 n j"
    "indexes_hold t4 (\<lambda>c. if c \<in> set (indexed_columns ?t) then with_key (u ! c) i (?f c) else ?f c)"
    by blast
  note R4 = same_rowsD [OF t4(2)]
  have frame: "t4 = t\<lparr>tb_records := (tb_records t)(i \<mapsto> u), tb_indexes := tb_indexes t4\<rparr>"
    using rows1 t2(2) t4(2) by (cases t; cases t1; cases t2; cases t4) (simp add: same_rows_def)
  have recs: "tb_records t4 = (tb_records t)(i \<mapsto> u)" by (subst frame) simp
  have "rows_ok t4"
    using inv r ok len R R2 R4 unfolding table_inv_def rows_ok_def by (auto simp: recs split: if_splits)
  moreover have "set (with_key (u ! c) i (?f c)) = column_pairs t4 c" if c: "c \<in> set (indexed_columns t)" for c
    using column_pairs_new [of t4 ?gone i u c] pairs [OF c] c by (simp add: set_with_key recs)
  ultimately have "table_inv t4"
    using t4(4) inv R4(6,7) R2(6) R(6) cols(1) unfolding table_inv_def
    by (intro conjI exI [of _ "\<lambda>c. if c \<in> set (indexed_columns ?t) then with_key (u ! c) i (?f c) else ?f c"]) auto
  moreover have "table_update env i assignments t = (Inr (), t4)"
    using r t1(2) t2(1) t4(1) u by (simp add: table_update_def op_simps Let_def)
  ultimately show ?thesis using t4(3) frame by blast
qed

end
