(* ===== verification/Change_Correct.thy ===== *)
theory Change_Correct
  imports Statement_Correct Table_Change
begin

text \<open>
  DELETE and UPDATE: the rows that match are erased or changed, one after the other, and no
  other row is touched.
\<close>

section \<open>Erasing the matching rows\<close>

lemma erase_rows:
  assumes "table_inv t" and "distinct rids" and "set rids \<subseteq> dom (tb_records t)" and "spare_all t n (length rids + j)"
  shows "\<exists>t'. for_each (table_erase env) rids t = (Inr (), t') \<and> table_inv t' \<and> spare_all t' n j \<and>
           t' = t\<lparr>tb_records := tb_records t |` (- set rids), tb_order := filter (\<lambda>i. i \<notin> set rids) (tb_order t),
                   tb_indexes := tb_indexes t'\<rparr>"
  using assms
proof (induction rids arbitrary: t)
  case Nil
  then show ?case by (intro exI [of _ t]) (simp add: ret_def)
next
  case (Cons i rids)
  obtain r where r: "tb_records t i = Some r" using Cons.prems(3) by auto
  have "spare_all t n (Suc (length rids + j))" using Cons.prems(4) by simp
  from table_erase_ok [OF Cons.prems(1) r this] obtain t1 where t1: "table_erase env i t = (Inr (), t1)" "table_inv t1"
    "spare_all t1 n (length rids + j)"
    "t1 = t\<lparr>tb_records := (tb_records t)(i := None), tb_order := remove1 i (tb_order t), tb_indexes := tb_indexes t1\<rparr>"
    by blast
  have F: "tb_records t1 = (tb_records t)(i := None)" "tb_order t1 = remove1 i (tb_order t)"
    by (subst t1(4), simp)+
  have "set rids \<subseteq> dom (tb_records t1)" using Cons.prems(2,3) by (auto simp: F)
  then obtain t2 where t2: "for_each (table_erase env) rids t1 = (Inr (), t2)" "table_inv t2" "spare_all t2 n j"
    "t2 = t1\<lparr>tb_records := tb_records t1 |` (- set rids), tb_order := filter (\<lambda>i. i \<notin> set rids) (tb_order t1),
             tb_indexes := tb_indexes t2\<rparr>"
    using Cons.IH [OF t1(2)] Cons.prems(2) t1(3) by auto
  have "distinct (tb_order t)" using Cons.prems(1) by (simp add: table_inv_def rows_ok_def)
  then have "filter (\<lambda>x. x \<notin> set rids) (remove1 i (tb_order t)) = filter (\<lambda>x. x \<notin> set (i # rids)) (tb_order t)"
    by (simp add: distinct_remove1_removeAll removeAll_filter_not_eq) (rule filter_cong, auto)
  moreover have "(tb_records t)(i := None) |` (- set rids) = tb_records t |` (- set (i # rids))"
    by (auto simp: restrict_map_def)
  ultimately have "t2 = t\<lparr>tb_records := tb_records t |` (- set (i # rids)),
      tb_order := filter (\<lambda>x. x \<notin> set (i # rids)) (tb_order t), tb_indexes := tb_indexes t2\<rparr>"
    using t1(4) t2(4) F by (cases t; cases t1; cases t2) simp
  then show ?case using t1(1) t2(1-3) by (intro exI [of _ t2]) (simp add: op_simps)
qed

definition matching :: "regex \<Rightarrow> Expr option \<Rightarrow> table \<Rightarrow> nat set" where
  "matching re cond t = {i. matches_row re cond t i}"

lemma delete_rows_ok:
  assumes inv: "table_inv t" and usable: "hint_usable cond t" and ok: "no_where_errors re cond t"
    and sp: "spare_all t n (card (matching re cond t) + j)"
  shows "\<exists>t'. delete_rows re cond env t = (Inr (card (matching re cond t)), t') \<and> table_inv t' \<and> spare_all t' n j \<and>
           tb_records t' = tb_records t |` (- matching re cond t) \<and>
           tb_order t' = filter (\<lambda>i. i \<notin> matching re cond t) (tb_order t) \<and> tb_path t' = tb_path t"
proof -
  obtain rids t1 where m: "matched_rows re cond t = (Inr rids, t1)" "same_rows t t1" "table_inv t1" "distinct rids"
    "set rids = matching re cond t" "keeps_means t t1"
    using matched_rows_ok [OF inv usable ok] by (auto simp: matching_def)
  note R = same_rowsD [OF m(2)]
  have len: "length rids = card (matching re cond t)" using distinct_card [OF m(4)] m(5) by simp
  have "set rids \<subseteq> dom (tb_records t1)" unfolding m(5) R by (auto simp: matching_def matches_row_def)
  moreover have "spare_all t1 n (length rids + j)" using spare_all_keeps [OF sp m(6) R(7)] len by simp
  ultimately obtain t2 where t2: "for_each (table_erase env) rids t1 = (Inr (), t2)" "table_inv t2" "spare_all t2 n j"
    "t2 = t1\<lparr>tb_records := tb_records t1 |` (- set rids), tb_order := filter (\<lambda>i. i \<notin> set rids) (tb_order t1),
             tb_indexes := tb_indexes t2\<rparr>"
    using erase_rows [OF m(3,4)] by blast
  have "delete_rows re cond env t = (Inr (card (matching re cond t)), t2)"
    using m(1) t2(1) len by (simp add: delete_rows_def op_simps)
  moreover have "tb_records t2 = tb_records t |` (- matching re cond t)"
    "tb_order t2 = filter (\<lambda>i. i \<notin> matching re cond t) (tb_order t)" "tb_path t2 = tb_path t"
    by (subst t2(4), simp add: m(5) R)+
  ultimately show ?thesis using t2(2,3) by blast
qed

section \<open>Changing the matching rows\<close>

text \<open>Expressions are read through the schema; the rows do not matter.\<close>

lemma eval_atom_schema:
  "tb_schema t' = tb_schema t \<Longrightarrow> tb_name t' = tb_name t \<Longrightarrow> eval_atom e t' r = eval_atom e t r"
  by (cases e) (simp_all add: require_column_def cong: option.case_cong)

definition assigned :: "(nat \<times> Expr) list \<Rightarrow> table \<Rightarrow> Record \<Rightarrow> error + (nat \<times> Value) list" where
  "assigned cols t r = sum_map (\<lambda>(c, e). sum_bind (eval_atom e t r) (\<lambda>v. Inr (c, v))) cols"

lemma assigned_schema:
  assumes "tb_schema t' = tb_schema t" and "tb_name t' = tb_name t"
  shows "assigned cols t' r = assigned cols t r"
  unfolding assigned_def eval_atom_schema [OF assms] ..

text \<open>
  The rows to change and what they become: every new row is one the columns accept, its keys
  have the sizes of the old ones, and no two rows, old or new, share a key.
\<close>

definition changes_ok :: "(nat \<times> Expr) list \<Rightarrow> table \<Rightarrow> (nat \<Rightarrow> nat) \<Rightarrow> nat set \<Rightarrow> (nat \<Rightarrow> Record) \<Rightarrow> bool" where
  "changes_ok cols t n I new \<longleftrightarrow> I \<subseteq> dom (tb_records t) \<and>
     (\<forall>i \<in> I. \<exists>as. assigned cols t (the (tb_records t i)) = Inr as \<and> new i = assign_all as (the (tb_records t i)) \<and>
        check_types (tb_schema t) (new i) = Inr () \<and>
        (\<forall>c \<in> set (indexed_columns t). encoded_value_size (new i ! c) = n c \<and>
           (\<forall>i' q. i' \<noteq> i \<longrightarrow> tb_records t i' = Some q \<longrightarrow> q ! c \<noteq> new i ! c) \<and>
           (\<forall>i' \<in> I. i' \<noteq> i \<longrightarrow> new i' ! c \<noteq> new i ! c)))"

definition changed :: "nat set \<Rightarrow> (nat \<Rightarrow> Record) \<Rightarrow> table \<Rightarrow> nat \<Rightarrow> Record option" where
  "changed I new t = (\<lambda>i. if i \<in> I then Some (new i) else tb_records t i)"

lemma update_rows_loop:
  assumes "table_inv t" and "distinct rids" and "changes_ok cols t n (set rids) new" and "spare_all t n (3 * length rids + j)"
  shows "\<exists>t'. for_each (update_row env cols) rids t = (Inr (), t') \<and> table_inv t' \<and> spare_all t' n j \<and>
           t' = t\<lparr>tb_records := changed (set rids) new t, tb_indexes := tb_indexes t'\<rparr>"
  using assms
proof (induction rids arbitrary: t)
  case Nil
  then show ?case by (intro exI [of _ t]) (simp add: ret_def changed_def)
next
  case (Cons i rids)
  obtain r where r: "tb_records t i = Some r" using Cons.prems(3) by (auto simp: changes_ok_def)
  obtain as where as: "assigned cols t r = Inr as" "new i = assign_all as r" "check_types (tb_schema t) (new i) = Inr ()"
    "\<forall>c \<in> set (indexed_columns t). encoded_value_size (new i ! c) = n c \<and>
       (\<forall>i' q. i' \<noteq> i \<longrightarrow> tb_records t i' = Some q \<longrightarrow> q ! c \<noteq> new i ! c) \<and>
       (\<forall>i' \<in> set rids. i' \<noteq> i \<longrightarrow> new i' ! c \<noteq> new i ! c)"
    using Cons.prems(3) r by (auto simp: changes_ok_def)
  have sp: "spare_all t n ((3 * length rids + j) + 3)" using Cons.prems(4) by (simp add: algebra_simps)
  have size: "\<forall>c \<in> set (indexed_columns t). encoded_value_size (new i ! c) = n c" using as(4) by blast
  have free: "\<forall>c \<in> set (indexed_columns t). \<forall>i' q. tb_records t i' = Some q \<longrightarrow> q ! c = new i ! c \<longrightarrow> i' = i"
    using as(4) by blast
  obtain t1 where t1: "table_update env i as t = (Inr (), t1)" "table_inv t1" "spare_all t1 n (3 * length rids + j)"
    "t1 = t\<lparr>tb_records := (tb_records t)(i \<mapsto> new i), tb_indexes := tb_indexes t1\<rparr>"
    using table_update_ok [OF Cons.prems(1) r as(2,3) size free sp, of env] by auto
  have F: "tb_records t1 = (tb_records t)(i \<mapsto> new i)" "tb_schema t1 = tb_schema t" "tb_name t1 = tb_name t"
    by (subst t1(4), simp)+
  have cols: "indexed_columns t1 = indexed_columns t" by (simp add: indexed_columns_def F)
  have "changes_ok cols t1 n (set rids) new"
    unfolding changes_ok_def
  proof (intro conjI ballI)
    show "set rids \<subseteq> dom (tb_records t1)" using Cons.prems(3) by (auto simp: changes_ok_def F)
    fix k assume k: "k \<in> set rids"
    then have ki: "k \<noteq> i" using Cons.prems(2) by auto
    have "k \<in> set (i # rids)" using k by simp
    then obtain bs where bs: "assigned cols t (the (tb_records t k)) = Inr bs" "new k = assign_all bs (the (tb_records t k))"
      "check_types (tb_schema t) (new k) = Inr ()"
      "\<forall>c \<in> set (indexed_columns t). encoded_value_size (new k ! c) = n c \<and>
         (\<forall>i' q. i' \<noteq> k \<longrightarrow> tb_records t i' = Some q \<longrightarrow> q ! c \<noteq> new k ! c) \<and>
         (\<forall>i' \<in> set (i # rids). i' \<noteq> k \<longrightarrow> new i' ! c \<noteq> new k ! c)"
      using Cons.prems(3) unfolding changes_ok_def by blast
    have "assigned cols t1 (the (tb_records t1 k)) = Inr bs"
      using bs(1) ki assigned_schema [OF F(2,3)] by (simp add: F)
    moreover have "q ! c \<noteq> new k ! c" if "c \<in> set (indexed_columns t)" "i' \<noteq> k" "tb_records t1 i' = Some q" for c i' q
      using bs(4) that by (cases "i' = i") (auto simp: F)
    ultimately show "\<exists>as. assigned cols t1 (the (tb_records t1 k)) = Inr as \<and> new k = assign_all as (the (tb_records t1 k)) \<and>
        check_types (tb_schema t1) (new k) = Inr () \<and>
        (\<forall>c \<in> set (indexed_columns t1). encoded_value_size (new k ! c) = n c \<and>
           (\<forall>i' q. i' \<noteq> k \<longrightarrow> tb_records t1 i' = Some q \<longrightarrow> q ! c \<noteq> new k ! c) \<and>
           (\<forall>i' \<in> set rids. i' \<noteq> k \<longrightarrow> new i' ! c \<noteq> new k ! c))"
      using bs(2-4) ki by (intro exI [of _ bs]) (simp add: F cols)
  qed
  then obtain t2 where t2: "for_each (update_row env cols) rids t1 = (Inr (), t2)" "table_inv t2" "spare_all t2 n j"
    "t2 = t1\<lparr>tb_records := changed (set rids) new t1, tb_indexes := tb_indexes t2\<rparr>"
    using Cons.IH [OF t1(2)] Cons.prems(2) t1(3) by auto
  have "update_row env cols i t = (Inr (), t1)"
    using r as(1) t1(1) by (simp add: update_row_def op_simps record_at_def assigned_def)
  moreover have "changed (set rids) new t1 = changed (set (i # rids)) new t"
    using Cons.prems(2) by (auto simp: changed_def F)
  then have "t2 = t\<lparr>tb_records := changed (set (i # rids)) new t, tb_indexes := tb_indexes t2\<rparr>"
    using t1(4) t2(4) by (cases t; cases t1; cases t2) simp
  ultimately show ?case using t2(1-3) by (intro exI [of _ t2]) (simp add: op_simps)
qed

lemma changes_ok_same_rows:
  assumes "same_rows t t'" and "changes_ok cols t n I new"
  shows "changes_ok cols t' n I new"
proof -
  note R = same_rowsD [OF assms(1)]
  show ?thesis using assms(2) unfolding changes_ok_def assigned_schema [OF R(2,1)] R .
qed

lemma update_rows_ok:
  assumes inv: "table_inv t" and usable: "hint_usable cond t" and ok: "no_where_errors re cond t"
    and cols: "sum_map (assigned_column t) assignments = Inr cols"
    and new: "changes_ok cols t n (matching re cond t) new"
    and sp: "spare_all t n (3 * card (matching re cond t) + j)"
  shows "\<exists>t'. update_rows re assignments cond env t = (Inr (card (matching re cond t)), t') \<and> table_inv t' \<and> spare_all t' n j \<and>
           tb_records t' = changed (matching re cond t) new t \<and> tb_order t' = tb_order t \<and> tb_path t' = tb_path t"
proof -
  obtain rids t1 where m: "matched_rows re cond t = (Inr rids, t1)" "same_rows t t1" "table_inv t1" "distinct rids"
    "set rids = matching re cond t" "keeps_means t t1"
    using matched_rows_ok [OF inv usable ok] by (auto simp: matching_def)
  note R = same_rowsD [OF m(2)]
  have len: "length rids = card (matching re cond t)" using distinct_card [OF m(4)] m(5) by simp
  have sp1: "spare_all t1 n (3 * length rids + j)" using spare_all_keeps [OF sp m(6) R(7)] len by simp
  have "changes_ok cols t1 n (set rids) new" unfolding m(5) by (rule changes_ok_same_rows [OF m(2) new])
  from update_rows_loop [OF m(3,4) this sp1] obtain t2 where t2: "for_each (update_row env cols) rids t1 = (Inr (), t2)" "table_inv t2" "spare_all t2 n j"
    "t2 = t1\<lparr>tb_records := changed (set rids) new t1, tb_indexes := tb_indexes t2\<rparr>"
    by blast
  have "update_rows re assignments cond env t = (Inr (card (matching re cond t)), t2)"
    using m(1) t2(1) len cols by (simp add: update_rows_def op_simps)
  moreover have same: "changed (set rids) new t1 = changed (matching re cond t) new t" unfolding changed_def m(5) R ..
  have "tb_records t2 = changed (matching re cond t) new t" "tb_order t2 = tb_order t" "tb_path t2 = tb_path t"
    by (subst t2(4), simp add: same R)+
  ultimately show ?thesis using t2(2,3) by blast
qed

end
