(* ===== verification/Typing.thy ===== *)
theory Typing
  imports Executor_Correct
begin

text \<open>
  Every value that is stored has the type of its column, and is not NULL where NULL is not
  allowed. No statement changes that, whether it succeeds or fails, and whatever the indexes
  and their files do.
\<close>

section \<open>Rows that fit their columns\<close>

definition value_fits :: "ColumnDef \<Rightarrow> Value \<Rightarrow> bool" where
  "value_fits c v \<longleftrightarrow> (if is_null v then \<not> not_null c \<and> \<not> indexed c else matches v (col_type c))"

definition rows_typed :: "table \<Rightarrow> bool" where
  "rows_typed t \<longleftrightarrow> (\<forall>i r. tb_records t i = Some r \<longrightarrow> list_all2 value_fits (tb_schema t) r)"

definition database_typed :: "database \<Rightarrow> bool" where
  "database_typed db \<longleftrightarrow> (\<forall>t \<in> snd ` set (db_tables db). rows_typed t)"

definition system_typed :: "dbms \<Rightarrow> bool" where
  "system_typed d \<longleftrightarrow> (\<forall>db \<in> snd ` set (dm_databases d). database_typed db)"

lemma check_types_fits:
  "length r = length cs \<Longrightarrow> check_types cs r = Inr () \<longleftrightarrow> list_all2 value_fits cs r"
  by (induction cs r rule: check_types.induct) (auto simp: value_fits_def)

section \<open>Operations on a table\<close>

lemma rows_typed_same: "same_rows t t' \<Longrightarrow> rows_typed t' = rows_typed t"
  by (simp add: rows_typed_def same_rowsD)

lemma keeps_typed_rows: "keeps_rows m \<Longrightarrow> keeps rows_typed m"
  unfolding keeps_def keeps_rows_def using rows_typed_same by blast

lemma keeps_rows_of [intro!]: "(\<And>t. keeps_rows (m t)) \<Longrightarrow> keeps_rows (\<lambda>t. m t t)"
  by (simp add: keeps_rows_def)

lemma keeps_rows_open_index_of [intro!]: "keeps_rows (open_index_of env c)"
  by (simp add: keeps_rows_def open_index_of_def same_rows_def Let_def split: option.splits prod.splits sum.splits)

lemma keeps_rows_when [intro!]:
  "keeps_rows m \<Longrightarrow> keeps_rows n \<Longrightarrow> keeps_rows (\<lambda>t. if b t then m t else n t)"
  by (simp add: keeps_rows_def)

lemma keeps_rows_stop [intro!]: "keeps_rows (\<lambda>t. (x, t))"
  by (simp add: keeps_rows_def)

lemma keeps_rows_open_indexes [intro!]: "keeps_rows (open_indexes env)"
proof -
  have "keeps_rows (\<lambda>t. if map_of (tb_indexes t) c \<noteq> None then (Inr (), t) else open_index_of env c t)" for c
    by (intro keeps_rows_when keeps_rows_stop keeps_rows_open_index_of)
  then have "keeps_rows (for_each (\<lambda>c t. if map_of (tb_indexes t) c \<noteq> None then (Inr (), t) else open_index_of env c t) cs)" for cs
    by (rule keeps_rows_for_each)
  then show ?thesis by (simp add: keeps_rows_def open_indexes_def)
qed

lemma keeps_rows_mutable_index [intro!]: "keeps_rows (mutable_index env c)"
  unfolding mutable_index_def by (intro keeps_rows_when keeps_rows_stop keeps_rows_open_indexes)

lemma keeps_rows_install [intro!]: "keeps_rows (install_into_indexes env i r)"
  unfolding install_into_indexes_def by (rule keeps_rows_of) blast

lemma keeps_rows_remove [intro!]: "keeps_rows (remove_from_indexes env i r)"
  unfolding remove_from_indexes_def by (rule keeps_rows_of) blast

lemma keeps_rows_flush [intro!]: "keeps_rows flush_indexes"
proof -
  have "keeps_rows (for_each (\<lambda>c. on_index c m) cs)" for m cs by blast
  then show ?thesis unfolding flush_indexes_def by (rule keeps_rows_of)
qed

lemma enforce_fits:
  assumes "enforce_constraints r existing t = (Inr x, t')"
  shows "list_all2 value_fits (tb_schema t) r" "same_rows t t'"
proof -
  show "same_rows t t'" using keeps_rows_enforce assms by (rule keeps_rowsD)
  have len: "length r = length (tb_schema t)"
    using assms by (simp add: enforce_constraints_def split: if_splits)
  then have "check_types (tb_schema t) r = Inr ()"
    using assms by (cases "check_types (tb_schema t) r") (simp_all add: enforce_constraints_def op_simps)
  then show "list_all2 value_fits (tb_schema t) r" using check_types_fits [OF len] by simp
qed

text \<open>An operation that first checks a row may go on as if the row fitted.\<close>

lemma keeps_enforced:
  assumes "\<And>t. rows_typed t \<Longrightarrow> list_all2 value_fits (tb_schema t) r \<Longrightarrow> rows_typed (snd (m t))"
  shows "keeps rows_typed (andthen (enforce_constraints r existing) m)"
  unfolding keeps_def
proof (intro allI impI)
  fix t assume t: "rows_typed t"
  obtain x t1 where e: "enforce_constraints r existing t = (x, t1)" by (cases "enforce_constraints r existing t")
  have rows: "same_rows t t1" using keeps_rows_enforce e by (rule keeps_rowsD)
  show "rows_typed (snd (andthen (enforce_constraints r existing) m t))"
  proof (cases x)
    case (Inl err)
    then show ?thesis using e t rows_typed_same [OF rows] by (simp add: op_simps)
  next
    case (Inr y)
    then have "list_all2 value_fits (tb_schema t1) r" using enforce_fits(1) e same_rowsD(2) [OF rows] by simp
    then show ?thesis using e Inr t rows_typed_same [OF rows] assms by (simp add: op_simps)
  qed
qed

lemma rows_typed_add:
  "rows_typed t \<Longrightarrow> list_all2 value_fits (tb_schema t) r \<Longrightarrow> tb_schema u = tb_schema t \<Longrightarrow>
     tb_records u = (tb_records t)(i \<mapsto> r) \<or> tb_records u = tb_records t \<Longrightarrow> rows_typed u"
  by (auto simp: rows_typed_def split: if_splits)

lemma typed_insert: "keeps rows_typed (table_insert env r)"
  unfolding table_insert_def
proof (rule keeps_enforced)
  fix t assume t: "rows_typed t" "list_all2 value_fits (tb_schema t) r"
  let ?u = "t\<lparr>tb_next := (tb_next t + 1) mod 2 ^ 64,
      tb_records := (if tb_records t (tb_next t) = None then (tb_records t)(tb_next t \<mapsto> r) else tb_records t),
      tb_order := tb_order t @ [tb_next t]\<rparr>"
  have "rows_typed ?u" by (rule rows_typed_add [OF t, where i = "tb_next t"]) simp_all
  moreover have "keeps rows_typed (andthen (install_into_indexes env i q) (ret i))" for i q
    by (intro keeps_rules keeps_typed_rows keeps_rows_install)
  ultimately have "rows_typed (snd (andthen (install_into_indexes env i q) (ret i) ?u))" for i q
    by (simp add: keepsD)
  then show "rows_typed (snd (bnd (gets tb_next) (\<lambda>i. andthen (modify (\<lambda>t. t\<lparr>tb_next := (i + 1) mod 2 ^ 64,
      tb_records := if tb_records t i = None then (tb_records t)(i \<mapsto> r) else tb_records t,
      tb_order := tb_order t @ [i]\<rparr>)) (bnd (gets (\<lambda>t. the (tb_records t i)))
      (\<lambda>stored. andthen (install_into_indexes env i stored) (ret i)))) t))"
    by (simp add: bnd_def andthen_def modify_def gets_def)
qed

lemma typed_update: "keeps rows_typed (table_update env i as)"
proof -
  have "keeps rows_typed (andthen (enforce_constraints u (Some i)) (andthen (remove_from_indexes env i r)
      (andthen (modify (\<lambda>t. t\<lparr>tb_records := (tb_records t)(i \<mapsto> u)\<rparr>)) (install_into_indexes env i u))))" for r u
  proof (rule keeps_enforced)
    let ?P = "\<lambda>t. rows_typed t \<and> list_all2 value_fits (tb_schema t) u"
    have same: "keeps_rows m \<Longrightarrow> keeps ?P m" for m :: "(table, 'b) op"
      unfolding keeps_def keeps_rows_def using rows_typed_same same_rowsD(2) by metis
    have "keeps ?P (andthen (remove_from_indexes env i r)
        (andthen (modify (\<lambda>t. t\<lparr>tb_records := (tb_records t)(i \<mapsto> u)\<rparr>)) (install_into_indexes env i u)))"
      by (intro keeps_rules same keeps_rows_remove keeps_rows_install) (auto intro: rows_typed_add)
    then show "rows_typed (snd (andthen (remove_from_indexes env i r)
        (andthen (modify (\<lambda>t. t\<lparr>tb_records := (tb_records t)(i \<mapsto> u)\<rparr>)) (install_into_indexes env i u)) t))"
      if "rows_typed t" "list_all2 value_fits (tb_schema t) u" for t
      using that keepsD [of ?P] by blast
  qed
  then show ?thesis by (simp add: keeps_def table_update_def Let_def split: option.splits)
qed

lemma typed_erase: "keeps rows_typed (table_erase env i)"
proof -
  have "keeps rows_typed (andthen (remove_from_indexes env i r)
      (modify (\<lambda>t. t\<lparr>tb_records := (tb_records t)(i := None), tb_order := remove1 i (tb_order t)\<rparr>)))" for r
    by (intro keeps_rules keeps_typed_rows keeps_rows_remove) (auto simp: rows_typed_def split: if_splits)
  then show ?thesis by (simp add: keeps_def table_erase_def split: option.splits)
qed

section \<open>Statements\<close>

lemma keeps_rows_candidates: "keeps_rows (select_candidates cond)"
proof -
  have "keeps_rows (bnd (index_find c k) (\<lambda>found. ret (g found)))" for c k and g :: "nat option \<Rightarrow> nat list"
    by blast
  moreover have "keeps_rows (collect_range c lo li hi hj)" for c lo li hi hj
    unfolding collect_range_def by blast
  ultimately show ?thesis by (simp add: keeps_rows_def select_candidates_def Let_def)
qed

lemma keeps_rows_matched: "keeps_rows (matched_rows re cond)"
  unfolding matched_rows_def by (intro keeps_rows_bnd keeps_rows_candidates keeps_rows_basic)

lemma typed_insert_rows: "keeps rows_typed (insert_rows cols rows env)"
  unfolding insert_rows_def insert_row_def by (intro keeps_rules typed_insert)

lemma typed_update_rows: "keeps rows_typed (update_rows re as cond env)"
  unfolding update_rows_def update_row_def by (intro keeps_rules typed_update keeps_typed_rows keeps_rows_matched)

lemma typed_delete_rows: "keeps rows_typed (delete_rows re cond env)"
  unfolding delete_rows_def by (intro keeps_rules typed_erase keeps_typed_rows keeps_rows_matched)

lemma typed_select_rows: "keeps rows_typed (select_rows env items cond)"
  unfolding select_rows_def by (intro keeps_rules keeps_typed_rows keeps_rows_candidates)

section \<open>Databases and the system\<close>

lemma typed_bind: "keeps rows_typed (bind_dat_path env path)"
  unfolding bind_dat_path_def
  by (intro keeps_rules keeps_typed_rows keeps_rows_open_indexes) (simp add: rows_typed_def)

lemma typed_save: "keeps rows_typed (save env w path)"
  unfolding save_def by (intro keeps_rules typed_bind keeps_typed_rows keeps_rows_flush)

lemma set_update_subset: "set (AList.update k v al) \<subseteq> insert (k, v) (set al)"
  by (induction al) auto

lemma set_delete_subset: "set (AList.delete k al) \<subseteq> set al"
  by (auto simp: AList.delete_eq)

lemma typed_on_table:
  assumes "keeps rows_typed m"
  shows "keeps database_typed (on_table name m)"
  unfolding keeps_def
proof (intro allI impI)
  fix db assume db: "database_typed db"
  show "database_typed (snd (on_table name m db))"
  proof (cases "map_of (db_tables db) name")
    case (Some t)
    obtain r t' where m: "m t = (r, t')" by (cases "m t")
    have "rows_typed t" using db Some by (force simp: database_typed_def dest: map_of_SomeD)
    then have "rows_typed t'" using keepsD [OF assms, of t] m by simp
    then show ?thesis
      using db Some m set_update_subset [of name t' "db_tables db"] by (fastforce simp: database_typed_def on_table_def)
  qed (use db in \<open>simp add: on_table_def\<close>)
qed

lemma typed_set_storage_dir: "keeps database_typed (set_storage_dir io dir)"
  unfolding set_storage_dir_def bind_table_def
  by (intro keeps_rules typed_on_table typed_bind) (simp add: database_typed_def)

lemma typed_create_table: "keeps database_typed (create_table io name cols)"
  unfolding create_table_def bind_table_def
  by (intro keeps_rules typed_on_table typed_bind) (auto simp: database_typed_def rows_typed_def new_table_def)

lemma typed_drop_table: "keeps database_typed (drop_table name)"
  using set_delete_subset by (fastforce simp: keeps_def drop_table_def database_typed_def split: option.splits)

lemma typed_save_to: "keeps database_typed (save_to io dir)"
  unfolding save_to_def remove_stale_def save_table_def Let_def
  by (intro keeps_rules typed_set_storage_dir typed_on_table typed_save) (simp_all add: database_typed_def)

lemma typed_on_database:
  assumes "keeps database_typed m"
  shows "keeps system_typed (on_database k m)"
  unfolding keeps_def
proof (intro allI impI)
  fix d assume d: "system_typed d"
  show "system_typed (snd (on_database k m d))"
  proof (cases "map_of (dm_databases d) k")
    case (Some db)
    obtain r db' where m: "m db = (r, db')" by (cases "m db")
    have "database_typed db" using d Some by (force simp: system_typed_def dest: map_of_SomeD)
    then have "database_typed db'" using keepsD [OF assms, of db] m by simp
    then show ?thesis
      using d Some m set_update_subset [of k db' "dm_databases d"] by (fastforce simp: system_typed_def on_database_def)
  qed (use d in \<open>simp add: on_database_def\<close>)
qed

lemma typed_create_database: "keeps system_typed (create_database io name)"
  unfolding create_database_def
  by (intro keeps_rules typed_on_database typed_set_storage_dir)
    (auto simp: system_typed_def new_database_def database_typed_def)

lemma typed_drop_database: "keeps system_typed (drop_database name)"
  unfolding drop_database_def using set_delete_subset by (intro keeps_rules) (fastforce simp: system_typed_def)

lemma typed_require: "keeps system_typed (require_database name)"
  unfolding require_database_def by (intro typed_on_database keeps_rules)

lemma typed_use: "keeps system_typed (use_database name)"
  unfolding use_database_def by (intro keeps_rules typed_require) (simp add: system_typed_def)

lemma typed_save_database: "keeps system_typed (save_database io name)"
  unfolding save_database_def by (intro keeps_rules typed_on_database typed_save_to)

lemma typed_resolve: "keeps system_typed (resolve_database ref)"
  unfolding resolve_database_def active_or_throw_def by (intro keeps_rules typed_require)

lemma typed_save_named: "keeps system_typed (save_named env dbn)"
  unfolding save_named_def by (intro keeps_rules typed_on_database typed_save_database)

lemma typed_at_table: "(\<And>e. keeps rows_typed (m e)) \<Longrightarrow> keeps system_typed (at_table env dbn name m)"
  unfolding at_table_def by (intro typed_on_database keeps_rules typed_on_table)

lemma typed_change_table: "(\<And>e. keeps rows_typed (m e)) \<Longrightarrow> keeps system_typed (change_table env ref m verb)"
  unfolding change_table_def by (intro keeps_rules typed_resolve typed_at_table typed_save_named)

lemma typed_exec: "keeps system_typed (exec_statement env stmt)"
proof (cases stmt)
  case (CreateTableStmt ref cols)
  then show ?thesis
    by (simp add: exec_create_table_def)
      (intro keeps_rules typed_resolve keeps_first_repeated typed_on_database typed_create_table typed_save_named)
next
  case (DropTableStmt ref)
  then show ?thesis
    by (simp add: exec_drop_table_def)
      (intro keeps_rules typed_resolve typed_on_database typed_drop_table typed_save_named)
qed (simp_all add: exec_create_database_def exec_drop_database_def exec_use_def exec_insert_def exec_update_def
      exec_delete_def exec_select_def keeps_rules typed_create_database typed_drop_database typed_use
      typed_save_database typed_resolve typed_at_table typed_change_table typed_insert_rows typed_update_rows
      typed_delete_rows typed_select_rows)

end
