(* ===== verification/Change_Results.thy ===== *)
theory Change_Results
  imports Index_Results Sql_Results Change_Correct Typing
begin

text \<open>
  What erasing does: the index loses one key and nothing else, DELETE the rows that match,
  and UPDATE changes the rows that match, with the indexes in step. Besides, two theorems for
  every statement and every index: types are kept, and scans end.
\<close>

section \<open>Erasing from an index\<close>

text \<open>C3: Erasing a key takes exactly that key out of the index, whether its leaf stays as it is, borrows
  an entry from a sibling, is merged with it or leaves its parent with one child; the answer is
  whether the key was there, and every invariant of the file holds again. The index has keys of
  one size, at most two levels, and room in its root for the leaf that a redistribution can add:
  the root can take one more child, or every leaf has its share of entries and as many leaves as
  the entries can fill then fit under the root.\<close>

theorem erase_removes_key:
  assumes "index_inv ty s t" and "typed ty k" and "encoded_value_size k \<le> kMaxIndexKeyBytes" and "spares n s t (Suc j)"
  shows "\<exists>s' t'. idx_erase k s = (Inr (k \<in> set (vals t)), s') \<and> index_inv ty s' t' \<and>
           contents t' = without_key k (contents t) \<and> spares n s' t' j \<and>
           (k \<in> set (vals t) \<longrightarrow> superblock_current s')"
  using assms by (rule erase_ok)

lemma one_key_index_spares: "index_spare TInt 9 one_key_index 4"
proof -
  obtain s where s: "create_empty ''t.idx'' None True (new_index []) = (Inr (), s)" "index_holds TInt s []"
    "\<forall>n j. n \<le> kMaxIndexKeyBytes \<longrightarrow> new_room n j \<longrightarrow> index_spare TInt n s j"
    using created_index [of "''t.idx''" None TInt] by blast
  have "index_spare TInt 9 s (Suc (Suc 4))"
    using s(3) by (simp add: new_room_def node_room_def kPageSize_def kMaxIndexKeyBytes_def)
  moreover have "s = example_index" using s(1) by (simp add: example_index_def)
  ultimately show ?thesis
    using disk_erasing.spare_add_law [OF s(2) five_fits(1), of 9 4 7] by (simp add: one_key_index_def)
qed

lemma erase_removes_key_witness:
  "\<exists>s t. idx_erase (VInt 5) one_key_index = (Inr True, s) \<and> index_inv TInt s t \<and> contents t = []"
proof -
  obtain t where t: "index_inv TInt one_key_index t" "contents t = [(VInt 5, 7)]"
    using one_key_index_ok by blast
  have "spares 9 one_key_index t (Suc 3)" using index_spareD(2) [OF one_key_index_spares t(1)] by simp
  from erase_removes_key [OF t(1) five_fits this] show ?thesis
    using t(2) one_key_index_vals [OF t(2)] by (auto simp: without_key_def)
qed

text \<open>C28: The loop of a scan takes one step for each entry and then ends: with any fuel beyond the number
  of entries it gives the record ids up to the upper bound.\<close>

theorem scan_ends:
  assumes "index_inv ty s t" and "length (contents t) < fuel"
  shows "\<exists>it s1 s2. idx_begin s = (Inr it, s1) \<and>
           range_loop fuel hi inc it s1 = (Inr (map snd (takeWhile (\<lambda>(k, _). \<not> past_upper hi inc k) (contents t))), s2) \<and>
           index_inv ty s2 t"
proof -
  have len: "length (flat t) < fuel" using assms(2) by (simp add: contents_def)
  have upto: "map rid (takeWhile (\<lambda>e. \<not> past_upper hi inc (key_val e)) (flat t)) =
      map snd (takeWhile (\<lambda>(k, _). \<not> past_upper hi inc k) (contents t))"
    by (simp add: contents_def takeWhile_map comp_def)
  have "wp never (bnd idx_begin (range_loop fuel hi inc)) (\<lambda>rs s'.
      rs = map snd (takeWhile (\<lambda>(k, _). \<not> past_upper hi inc k) (contents t)) \<and> same_index s s') s"
    unfolding wp_bnd
  proof (rule wp_begin [OF assms(1)])
    fix it s'
    assume s': "same_index s s'" and it: "iter_at t it (flat t)"
    show "wp never (range_loop fuel hi inc it) (\<lambda>rs s'.
        rs = map snd (takeWhile (\<lambda>(k, _). \<not> past_upper hi inc k) (contents t)) \<and> same_index s s') s'"
      by (rule wp_range_loop [OF same_index_inv [OF assms(1) s'] it len])
        (use upto same_index_trans [OF s'] in simp)
  qed
  then obtain s2 where s2: "bnd idx_begin (range_loop fuel hi inc) s =
      (Inr (map snd (takeWhile (\<lambda>(k, _). \<not> past_upper hi inc k) (contents t))), s2)" "same_index s s2"
    by (auto simp: wp_never_iff)
  then show ?thesis
    using same_index_inv [OF assms(1) s2(2)] by (auto simp: bnd_def split: prod.splits sum.splits)
qed

lemma scan_ends_witness:
  "\<exists>it s1 s2. idx_begin one_key_index = (Inr it, s1) \<and> range_loop 2 None True it s1 = (Inr [7], s2)"
proof -
  obtain t where t: "index_inv TInt one_key_index t" "contents t = [(VInt 5, 7)]"
    using one_key_index_ok by blast
  from scan_ends [OF t(1), of 2 None True] show ?thesis using t(2) by (auto simp: past_upper_def)
qed

text \<open>C33: Inserting into a full leaf, the code first tries its left sibling. The attempt moves an entry of
  the sibling to the leaf, which then is even fuller, so it never succeeds.\<close>

theorem left_sibling_never_helps:
  assumes "leaf_overflow (leaf_entries leaf)"
  shows "fst (try_give_to_left_leaf leaf parent c s) \<noteq> Inr True"
proof -
  have "leaf_overflow (e # leaf_entries leaf)" for e
    using assms by (simp add: leaf_overflow_def leaf_payload_bytes_eq)
  then show ?thesis
    by (auto simp: try_give_to_left_leaf_def op_simps Let_def split: prod.splits sum.splits)
qed

lemma left_sibling_never_helps_witness:
  "fst (try_give_to_left_leaf ((blank_page 3 Leaf)\<lparr>leaf_entries := replicate 500 \<lparr>key = [], key_len = 0, rid = 0\<rparr>\<rparr>)
     (blank_page 4 Inner) 1 one_key_index) \<noteq> Inr True"
  by (rule left_sibling_never_helps) (simp add: leaf_overflow_def leaf_payload_bytes_eq kPageSize_def blank_page_def sum_list_replicate)

section \<open>DELETE\<close>

text \<open>C5: A DELETE in a ready system, with a clause that raises no error on the rows it is evaluated on,
  succeeds when the indexes can spare the rows: it erases exactly the rows the clause selects, counts them, keeps the order of the others and the invariant of the table, so
  that no index knows an erased row; other tables keep their rows, other databases are untouched,
  and the directory has every table as it now is.
  What the indexes can spare (spare_all) is a limit of the theorem. Of every indexed column, all
  keys have one encoded size (integers do, strings only when they are equally long), and its index
  has at most two levels. Its root also has room for the leaves that redistributing thin leaves
  adds: one child for each erased row, with at most 256 children in all; or every leaf has its
  share, a third of a page, and the entries together with the erased rows do not fill more such
  leaves than the root can have. By the second way an index of integers spares any number of rows
  while entries and erased rows are at most 18175 (int_keys_root_room). Outside of the limit an
  erasure can fail: redistribute_leaf_pair adds a child without asking for room.\<close>

theorem delete_statement_erases_matching_rows:
  assumes "system_ready env d dbn db" and "refers d ref dbn"
    and "map_of (db_tables db) (ref_table ref) = Some t"
    and "hint_usable cond t" and "no_where_errors (sq_regex env) cond t"
    and "spare_all t n (card (matching (sq_regex env) cond t))"
  shows "\<exists>d' db' t'. execute env (DeleteStmt ref cond) d =
             (Inr (done_with (''Deleted '' @ nat_str (card (matching (sq_regex env) cond t)) @ '' row(s)'')
                     (card (matching (sq_regex env) cond t))), d') \<and>
           system_ready env d' dbn db' \<and> in_sync db' \<and> tidy db' \<and>
           map_of (db_tables db') (ref_table ref) = Some t' \<and> table_inv t' \<and>
           tb_records t' = tb_records t |` (- matching (sq_regex env) cond t) \<and>
           tb_order t' = filter (\<lambda>i. i \<notin> matching (sq_regex env) cond t) (tb_order t) \<and>
           (\<forall>k u. k \<noteq> ref_table ref \<longrightarrow> map_of (db_tables db) k = Some u \<longrightarrow>
              (\<exists>u'. map_of (db_tables db') k = Some u' \<and> same_rows u u')) \<and>
           (\<forall>k. k \<noteq> dbn \<longrightarrow> map_of (dm_databases d') k = map_of (dm_databases d) k)"
proof -
  let ?M = "matching (sq_regex env) cond t"
  have inv: "table_inv t" using assms(1,3) by (simp add: system_ready_def db_ready_def)
  have sp: "spare_all t n (card ?M + 0)" using assms(6) by simp
  let ?m = "delete_rows (sq_regex env) cond"
  obtain t1 where t1: "?m (index_env_of (sq_io env) (db_files db) (db_dir db) (ref_table ref)) t = (Inr (card ?M), t1)"
    "table_inv t1" "tb_path t1 = tb_path t" "tb_records t1 = tb_records t |` (- ?M)"
    "tb_order t1 = filter (\<lambda>i. i \<notin> ?M) (tb_order t)"
    using delete_rows_ok [OF inv assms(4,5) sp] by blast
  show ?thesis
    using change_statement_ok [where m = ?m, OF assms(1-3) t1(1-3), of "DeleteStmt ref cond" "''Deleted ''"]
    by (simp add: t1(4,5) exec_delete_def)
qed

text \<open>The system with one row in its table.\<close>

definition full_shop :: database where
  "full_shop = \<lparr>db_name = ''d'', db_tables = [(''people'', people1)], db_dir = ''d'', db_files = []\<rparr>"

definition full_system :: dbms where
  "full_system = \<lparr>dm_root = [], dm_databases = [(''d'', full_shop)], dm_active = ''d'', dm_dirs = []\<rparr>"

abbreviation people_ref :: TableRef where
  "people_ref \<equiv> \<lparr>ref_database = [], ref_table = ''people''\<rparr>"

lemma full_system_ready:
  "system_ready some_sql_env full_system ''d'' full_shop" "refers full_system people_ref ''d''"
  "map_of (db_tables full_shop) ''people'' = Some people1"
proof -
  show "system_ready some_sql_env full_system ''d'' full_shop"
    using people1_ok(2,8) shop_ready(2)
    by (simp add: system_ready_def full_system_def db_ready_def full_shop_def table_path_def join_path_def dat_file_def
        some_sql_env_def some_io_def)
  show "refers full_system people_ref ''d''" by (simp add: refers_def full_system_def has_database_def)
  show "map_of (db_tables full_shop) ''people'' = Some people1" by (simp add: full_shop_def)
qed

lemma people1_spares: "spare_all people1 (\<lambda>_. 9) 4"
proof -
  have "spare_all people (\<lambda>_. 9) (4 + 2)"
    using new_people(10) by (simp add: spare_all_def new_room_def node_room_def kPageSize_def kMaxIndexKeyBytes_def)
  from table_insert_spares [OF new_people(2) _ _ _ _ _ this, of bob some_env] show ?thesis
    using bob_fits new_people(3,4,6) by (simp add: people1_def people_indexed id_column_def name_column_def)
qed

lemma all_match: "matching some_regex None people1 = {1}"
  using all_people(3) by (auto simp: matching_def)

lemma delete_statement_erases_matching_rows_witness:
  "\<exists>d db t. execute some_sql_env (DeleteStmt people_ref None) full_system =
       (Inr (done_with (''Deleted '' @ nat_str 1 @ '' row(s)'') 1), d) \<and>
     map_of (db_tables db) ''people'' = Some t \<and> system_ready some_sql_env d ''d'' db \<and> tb_records t = (\<lambda>_. None)"
proof -
  have re: "sq_regex some_sql_env = some_regex" by (simp add: some_sql_env_def)
  have "spare_all people1 (\<lambda>_. 9) (card (matching (sq_regex some_sql_env) None people1))"
    using people1_spares unfolding re all_match spare_all_def column_spare_def index_spare_def
    by (fastforce intro: spares_mono)
  from delete_statement_erases_matching_rows [OF full_system_ready(1,2) _ all_people(1) _ this] show ?thesis
    using full_system_ready(3) all_people(2) people1_ok(3) by (fastforce simp: re all_match)
qed

section \<open>UPDATE\<close>

text \<open>C6: An UPDATE in a ready system, with a clause that raises no error on the rows it is evaluated on,
  succeeds when the indexes can spare the rows, every new row is one the columns accept, its
  indexed values have the encoded size of the other keys of their column,
  and no indexed value is one that any other row has or comes to have: it changes exactly the rows
  the clause selects, each to what the assignments make of it, and counts them; the order of the
  rows and the invariant of the table are kept, and nothing else is changed.
  Every indexed value of a row is erased and inserted again, whether it changes or not, so the
  limit is the one of DELETE with three in place of one for each row: keys of one encoded size,
  at most two levels, and a root with room for three children more for each changed row, or leaves
  that have their share and no more entries and three times the rows than the root's leaves hold
  (18175 for integers).\<close>

theorem update_statement_changes_matching_rows:
  assumes "system_ready env d dbn db" and "refers d ref dbn"
    and "map_of (db_tables db) (ref_table ref) = Some t"
    and "hint_usable cond t" and "no_where_errors (sq_regex env) cond t"
    and "sum_map (assigned_column t) assignments = Inr cols"
    and "changes_ok cols t n (matching (sq_regex env) cond t) new"
    and "spare_all t n (3 * card (matching (sq_regex env) cond t))"
  shows "\<exists>d' db' t'. execute env (UpdateStmt ref assignments cond) d =
             (Inr (done_with (''Updated '' @ nat_str (card (matching (sq_regex env) cond t)) @ '' row(s)'')
                     (card (matching (sq_regex env) cond t))), d') \<and>
           system_ready env d' dbn db' \<and> in_sync db' \<and> tidy db' \<and>
           map_of (db_tables db') (ref_table ref) = Some t' \<and> table_inv t' \<and>
           tb_records t' = changed (matching (sq_regex env) cond t) new t \<and> tb_order t' = tb_order t \<and>
           (\<forall>k u. k \<noteq> ref_table ref \<longrightarrow> map_of (db_tables db) k = Some u \<longrightarrow>
              (\<exists>u'. map_of (db_tables db') k = Some u' \<and> same_rows u u')) \<and>
           (\<forall>k. k \<noteq> dbn \<longrightarrow> map_of (dm_databases d') k = map_of (dm_databases d) k)"
proof -
  let ?M = "matching (sq_regex env) cond t"
  have inv: "table_inv t" using assms(1,3) by (simp add: system_ready_def db_ready_def)
  have sp: "spare_all t n (3 * card ?M + 0)" using assms(8) by simp
  let ?m = "update_rows (sq_regex env) assignments cond"
  obtain t1 where t1: "?m (index_env_of (sq_io env) (db_files db) (db_dir db) (ref_table ref)) t = (Inr (card ?M), t1)"
    "table_inv t1" "tb_path t1 = tb_path t" "tb_records t1 = changed ?M new t" "tb_order t1 = tb_order t"
    using update_rows_ok [OF inv assms(4-7) sp] by blast
  show ?thesis
    using change_statement_ok [where m = ?m, OF assms(1-3) t1(1-3), of "UpdateStmt ref assignments cond" "''Updated ''"]
    by (simp add: t1(4,5) exec_update_def)
qed

lemma update_statement_changes_matching_rows_witness:
  "\<exists>d db t. execute some_sql_env (UpdateStmt people_ref [(''name'', LiteralExpr (VStr ''rob''))] None) full_system =
       (Inr (done_with (''Updated '' @ nat_str 1 @ '' row(s)'') 1), d) \<and>
     map_of (db_tables db) ''people'' = Some t \<and> system_ready some_sql_env d ''d'' db \<and>
     tb_records t = [1 \<mapsto> [VInt 7, VStr ''rob'']]"
proof -
  let ?rob = "[VInt 7, VStr ''rob'']" and ?cols = "[(1, LiteralExpr (VStr ''rob''))]"
  have re: "sq_regex some_sql_env = some_regex" by (simp add: some_sql_env_def)
  have cols: "sum_map (assigned_column people1) [(''name'', LiteralExpr (VStr ''rob''))] = Inr ?cols"
    using people1_ok(5) by (simp add: assigned_column_def require_column_def id_column_def name_column_def)
  have new: "changes_ok ?cols people1 (\<lambda>_. 9) (matching (sq_regex some_sql_env) None people1) (\<lambda>_. ?rob)"
    unfolding re all_match changes_ok_def
    using people1_ok(3,5)
    by (auto simp: people_indexed assigned_def assign_all_def id_column_def name_column_def)
  have "spare_all people1 (\<lambda>_. 9) (3 * card (matching (sq_regex some_sql_env) None people1))"
    using people1_spares unfolding re all_match spare_all_def column_spare_def index_spare_def
    by (fastforce intro: spares_mono)
  moreover have "changed {1} (\<lambda>_. ?rob) people1 = [1 \<mapsto> ?rob]" using people1_ok(3) by (auto simp: changed_def)
  ultimately show ?thesis
    using update_statement_changes_matching_rows [OF full_system_ready(1,2) _ all_people(1) _ cols new]
      full_system_ready(3) all_people(2) by (fastforce simp: re all_match)
qed

section \<open>Types\<close>

text \<open>C9: Whatever a statement does, and whether it succeeds or fails, every value that is stored has the
  type of its column, and is not NULL where the column is NOT NULL or indexed. Nothing is asked of
  the indexes or of their files.\<close>

theorem statements_keep_types:
  assumes "system_typed d"
  shows "system_typed (snd (execute env stmt d))"
  using keepsD [OF typed_exec assms] by (simp add: execute_state)

lemma statements_keep_types_witness:
  "system_typed (snd (execute some_sql_env (InsertStmt people_ref [] [[VStr ''seven'', VNull]]) full_system))"
  by (rule statements_keep_types)
    (simp add: system_typed_def full_system_def database_typed_def full_shop_def rows_typed_def people1_ok value_fits_def
      id_column_def name_column_def)

end
