(* ===== verification/Splitter.thy ===== *)
theory Splitter
  imports BulkGuard
begin

text \<open>
  Cutting a stream of SQL into statements: \<open>StreamSplitter\<close> of src/apps/main.cpp and the loop
  of src/apps/client_main.cpp, two copies of one state machine. The stream is the list of the
  characters not read yet; \<open>peek\<close> at its end answers \<open>EOF\<close>.
\<close>

section \<open>The local program\<close>

datatype split_state = Code | String_lit | LineComment | BlockComment

definition upcoming :: "string \<Rightarrow> char option" where
  "upcoming input = (case input of [] \<Rightarrow> None | c # _ \<Rightarrow> Some c)"

text \<open>
  The switch on the state and the character just read: the statement is complete, or the loop
  goes on in a new state, after taking the next character too when the flag is set.
\<close>

datatype split_step = Complete | Continue split_state bool

fun on_char :: "split_state \<Rightarrow> char \<Rightarrow> char option \<Rightarrow> split_step" where
  "on_char Code c peeked =
     (if c = CHR 0x22 then Continue String_lit False
      else if c = CHR ''-'' \<and> peeked = Some (CHR ''-'') then Continue LineComment True
      else if c = CHR ''/'' \<and> peeked = Some (CHR ''*'') then Continue BlockComment True
      else if c = CHR '';'' then Complete
      else Continue Code False)"
| "on_char String_lit c peeked =
     (if c = CHR 0x5C \<and> peeked \<noteq> None then Continue String_lit True
      else if c = CHR 0x22 then Continue Code False
      else Continue String_lit False)"
| "on_char LineComment c peeked = Continue (if c = CHR 0x0A then Code else LineComment) False"
| "on_char BlockComment c peeked =
     (if c = CHR ''*'' \<and> peeked = Some (CHR ''/'') then Continue Code True
      else Continue BlockComment False)"

text \<open>The loop of \<open>next\<close>: whether it met a \<open>;\<close>, what it collected, and what is left.\<close>

function next_loop :: "split_state \<Rightarrow> string \<Rightarrow> string \<Rightarrow> bool \<times> string \<times> string" where
  "next_loop st out [] = (False, out, [])"
| "next_loop st out (c # input) =
     (case on_char st c (upcoming input) of
        Complete \<Rightarrow> (True, out @ [c], input)
      | Continue st' two \<Rightarrow>
          if two then next_loop st' (out @ [c, hd input]) (tl input)
          else next_loop st' (out @ [c]) input)"
  by pat_completeness auto
termination by (relation "measure (\<lambda>(st, out, input). length input)") auto

definition blank :: "string \<Rightarrow> bool" where
  "blank s \<longleftrightarrow> (\<forall>c \<in> set s. is_space c)"

definition next_statement :: "string \<Rightarrow> string option \<times> string" where
  "next_statement input =
     (case next_loop Code [] input of
        (found, out, rest) \<Rightarrow> (if found \<or> \<not> blank out then Some out else None, rest))"

section \<open>Pieces\<close>

text \<open>A step takes a second character only where there is one.\<close>

lemma on_char_two: "on_char st c peeked = Continue st' True \<Longrightarrow> peeked \<noteq> None"
  by (cases st) (auto split: if_splits)

text \<open>What is collected, with what is left, is the input; a complete statement ends with \<open>;\<close>.\<close>

lemma next_loop_pieces:
  "next_loop st out input = (found, s, rest) \<Longrightarrow> s @ rest = out @ input"
proof (induction st out input rule: next_loop.induct)
  case (2 st out c input)
  show ?case
  proof (cases "on_char st c (upcoming input)")
    case Complete
    with "2.prems" show ?thesis by simp
  next
    case (Continue st' two)
    show ?thesis
    proof (cases two)
      case True
      with Continue have "input \<noteq> []"
        using on_char_two [of st c "upcoming input" st'] by (auto simp: upcoming_def)
      with True Continue "2.prems" "2.IH"(1) [OF Continue True] show ?thesis by simp
    next
      case False
      with Continue "2.prems" "2.IH"(2) [OF Continue False] show ?thesis by simp
    qed
  qed
qed simp

lemma next_loop_found: "next_loop st out input = (True, s, rest) \<Longrightarrow> \<exists>p. s = p @ '';''"
proof (induction st out input rule: next_loop.induct)
  case (2 st out c input)
  have "on_char st c (upcoming input) = Complete \<Longrightarrow> c = CHR '';''"
    by (cases st) (auto split: if_splits)
  with 2 show ?case by (auto split: split_step.splits if_splits)
qed simp

lemma next_loop_not_found: "next_loop st out input = (False, s, rest) \<Longrightarrow> rest = []"
proof (induction st out input rule: next_loop.induct)
  case (2 st out c input)
  then show ?case by (auto split: split_step.splits if_splits)
qed simp

lemma next_statement_pieces:
  assumes "next_statement input = (Some sql, rest)"
  shows "sql @ rest = input" and "sql \<noteq> []"
proof -
  from assms obtain found where *: "next_loop Code [] input = (found, sql, rest)" "found \<or> \<not> blank sql"
    by (auto simp: next_statement_def split: prod.splits if_splits)
  then show "sql @ rest = input" by (auto dest: next_loop_pieces)
  from * show "sql \<noteq> []" by (cases found) (auto simp: blank_def dest: next_loop_found)
qed

lemma next_statement_shorter: "next_statement input = (Some sql, rest) \<Longrightarrow> length rest < length input"
  using next_statement_pieces [of input sql rest] by (cases sql) auto

section \<open>All statements\<close>

text \<open>The loop of \<open>main\<close> over the statements of its input.\<close>

function statements :: "string \<Rightarrow> string list" where
  "statements input =
     (case next_statement input of (None, _) \<Rightarrow> [] | (Some sql, rest) \<Rightarrow> sql # statements rest)"
  by pat_completeness auto
termination
  by (relation "measure length") (auto dest: next_statement_shorter [OF sym])

declare statements.simps [simp del]

section \<open>The client\<close>

text \<open>
  The client's loop keeps the text in \<open>buf\<close> and hands it over at a \<open>;\<close>. What is done with it
  is an argument: it answers whether the server could be reached. The result is the exit code.
\<close>

function client_loop ::
  "(string \<Rightarrow> ('w, bool) op) \<Rightarrow> split_state \<Rightarrow> string \<Rightarrow> string \<Rightarrow> ('w, nat) op" where
  "client_loop post st buf [] = ret 0"
| "client_loop post st buf (c # input) =
     (let buf = buf @ [c] in
      case st of
        Code \<Rightarrow>
          if c = CHR 0x22 then client_loop post String_lit buf input
          else if c = CHR ''-'' \<and> upcoming input = Some (CHR ''-'')
          then client_loop post LineComment (buf @ [hd input]) (tl input)
          else if c = CHR ''/'' \<and> upcoming input = Some (CHR ''*'')
          then client_loop post BlockComment (buf @ [hd input]) (tl input)
          else if c = CHR '';''
          then bnd (post buf) (\<lambda>ok. if ok then client_loop post Code [] input else ret 1)
          else client_loop post Code buf input
      | String_lit \<Rightarrow>
          if c = CHR 0x5C \<and> upcoming input \<noteq> None
          then client_loop post String_lit (buf @ [hd input]) (tl input)
          else client_loop post (if c = CHR 0x22 then Code else String_lit) buf input
      | LineComment \<Rightarrow> client_loop post (if c = CHR 0x0A then Code else LineComment) buf input
      | BlockComment \<Rightarrow>
          if c = CHR ''*'' \<and> upcoming input = Some (CHR ''/'')
          then client_loop post Code (buf @ [hd input]) (tl input)
          else client_loop post BlockComment buf input)"
  by pat_completeness auto
termination
  by (relation "measure (\<lambda>(post, st, buf, input). length input)") auto

section \<open>Pieces\<close>

text \<open>The collected text only grows.\<close>

lemma next_loop_append:
  "next_loop st (pre @ out) input =
     (case next_loop st out input of (found, s, rest) \<Rightarrow> (found, pre @ s, rest))"
proof (induction st out input rule: next_loop.induct)
  case (2 st out c input)
  then show ?case by (cases "on_char st c (upcoming input)") auto
qed simp

end
