(* ===== verification/Splitter_Correct.thy ===== *)
theory Splitter_Correct
  imports Splitter
begin

text \<open>
  What the splitter is for: a \<open>;\<close> ends a statement unless it is inside a string or a comment.
  A statement is a list of items (characters, strings, comments) and a \<open>;\<close>; the splitter
  returns exactly the texts of that form. The client cuts its input in the same places.
\<close>

section \<open>The text of a statement\<close>

datatype quoted_char = Raw char | Escaped char

datatype item = Plain char | Quoted "quoted_char list" | Line string | Block string

fun quoted_text :: "quoted_char \<Rightarrow> string" where
  "quoted_text (Raw c) = [c]"
| "quoted_text (Escaped c) = [CHR 0x5C, c]"

fun raw_ok :: "quoted_char \<Rightarrow> bool" where
  "raw_ok (Raw c) \<longleftrightarrow> c \<noteq> CHR 0x22 \<and> c \<noteq> CHR 0x5C"
| "raw_ok (Escaped c) \<longleftrightarrow> True"

fun has_close :: "string \<Rightarrow> bool" where
  "has_close (a # b # s) \<longleftrightarrow> a = CHR ''*'' \<and> b = CHR ''/'' \<or> has_close (b # s)"
| "has_close _ \<longleftrightarrow> False"

fun item_text :: "item \<Rightarrow> string" where
  "item_text (Plain c) = [c]"
| "item_text (Quoted qs) = CHR 0x22 # concat (map quoted_text qs) @ [CHR 0x22]"
| "item_text (Line s) = ''--'' @ s @ [CHR 0x0A]"
| "item_text (Block s) = ''/*'' @ s @ ''*/''"

text \<open>The characters \<open>--\<close> and \<open>/*\<close> open a comment, so they are not two plain items.\<close>

fun item_ok :: "item \<Rightarrow> string \<Rightarrow> bool" where
  "item_ok (Plain c) follow \<longleftrightarrow>
     c \<noteq> CHR 0x22 \<and> c \<noteq> CHR '';'' \<and> (c = CHR ''-'' \<longrightarrow> upcoming follow \<noteq> Some (CHR ''-''))
     \<and> (c = CHR ''/'' \<longrightarrow> upcoming follow \<noteq> Some (CHR ''*''))"
| "item_ok (Quoted qs) follow \<longleftrightarrow> list_all raw_ok qs"
| "item_ok (Line s) follow \<longleftrightarrow> CHR 0x0A \<notin> set s"
| "item_ok (Block s) follow \<longleftrightarrow> \<not> has_close s"

definition sql_text :: "item list \<Rightarrow> string" where
  "sql_text items = concat (map item_text items) @ '';''"

fun items_ok :: "item list \<Rightarrow> bool" where
  "items_ok [] \<longleftrightarrow> True"
| "items_ok (i # items) \<longleftrightarrow> item_ok i (sql_text items) \<and> items_ok items"

lemma sql_text_simps [simp]:
  "sql_text [] = '';''" "sql_text (i # items) = item_text i @ sql_text items"
  by (simp_all add: sql_text_def)

lemma sql_text_nonempty [simp]: "sql_text items \<noteq> []"
  by (simp add: sql_text_def)

lemma upcoming_simps [simp]:
  "upcoming [] = None" "upcoming (c # s) = Some c" "s \<noteq> [] \<Longrightarrow> upcoming (s @ t) = upcoming s"
  by (auto simp: upcoming_def split: list.splits)

section \<open>Statements of that form are found\<close>

lemma loop_string:
  "list_all raw_ok qs \<Longrightarrow>
   next_loop String_lit out (concat (map quoted_text qs) @ CHR 0x22 # input) =
   next_loop Code (out @ concat (map quoted_text qs) @ [CHR 0x22]) input"
proof (induction qs arbitrary: out)
  case (Cons q qs)
  then show ?case by (cases q) auto
qed simp

lemma loop_line:
  "CHR 0x0A \<notin> set s \<Longrightarrow>
   next_loop LineComment out (s @ CHR 0x0A # input) = next_loop Code (out @ s @ [CHR 0x0A]) input"
  by (induction s arbitrary: out) auto

lemma loop_block:
  "\<not> has_close s \<Longrightarrow>
   next_loop BlockComment out (s @ ''*/'' @ input) = next_loop Code (out @ s @ ''*/'') input"
proof (induction s arbitrary: out)
  case (Cons c s)
  then have "\<not> (c = CHR ''*'' \<and> upcoming (s @ ''*/'' @ input) = Some (CHR ''/''))" and "\<not> has_close s"
    by (cases s; auto)+
  with Cons.IH show ?case by auto
qed simp

lemma loop_item:
  "item_ok i follow \<Longrightarrow> upcoming input = upcoming follow \<Longrightarrow>
   next_loop Code out (item_text i @ input) = next_loop Code (out @ item_text i) input"
  using loop_string loop_line loop_block by (cases i) auto

lemma loop_items:
  "items_ok items \<Longrightarrow> next_loop Code out (sql_text items @ rest) = (True, out @ sql_text items, rest)"
proof (induction items arbitrary: out)
  case (Cons i items)
  then show ?case by (simp add: loop_item [of i "sql_text items"])
qed simp

section \<open>Every statement found has that form\<close>

text \<open>What the loop takes from a state on, up to and including the \<open>;\<close>.\<close>

fun shape :: "split_state \<Rightarrow> string \<Rightarrow> bool" where
  "shape Code t \<longleftrightarrow> (\<exists>items. items_ok items \<and> t = sql_text items)"
| "shape String_lit t \<longleftrightarrow>
     (\<exists>qs items. list_all raw_ok qs \<and> items_ok items
       \<and> t = concat (map quoted_text qs) @ CHR 0x22 # sql_text items)"
| "shape LineComment t \<longleftrightarrow>
     (\<exists>s items. CHR 0x0A \<notin> set s \<and> items_ok items \<and> t = s @ CHR 0x0A # sql_text items)"
| "shape BlockComment t \<longleftrightarrow>
     (\<exists>s items. \<not> has_close s \<and> items_ok items \<and> t = s @ ''*/'' @ sql_text items)"

lemma shape_nonempty: "shape st t \<Longrightarrow> t \<noteq> []"
  by (cases st) auto

lemma shape_items [intro]: "items_ok items \<Longrightarrow> shape Code (sql_text items)"
  by auto

text \<open>One step backwards: the characters of a step in front of a text of the next state.\<close>

lemma shape_one:
  assumes "on_char st c (upcoming t) = Continue st' False" and "shape st' t"
  shows "shape st (c # t)"
proof (cases st)
  case Code
  show ?thesis
  proof (cases "c = CHR 0x22")
    case True
    with Code assms obtain qs items where "list_all raw_ok qs" "items_ok items"
      "t = concat (map quoted_text qs) @ CHR 0x22 # sql_text items" by auto
    with True have "items_ok (Quoted qs # items) \<and> c # t = sql_text (Quoted qs # items)" by simp
    with Code show ?thesis by (metis shape.simps(1))
  next
    case False
    with Code assms obtain items where *: "items_ok items" "t = sql_text items"
      by (auto split: if_splits)
    with False Code assms have "items_ok (Plain c # items) \<and> c # t = sql_text (Plain c # items)"
      by (auto split: if_splits)
    with Code show ?thesis by (metis shape.simps(1))
  qed
next
  case String_lit
  show ?thesis
  proof (cases "c = CHR 0x22")
    case True
    with String_lit assms obtain items where "items_ok items" "t = sql_text items" by (auto split: if_splits)
    with True String_lit show ?thesis
      by (auto intro!: exI [of _ "[] :: quoted_char list"] exI [of _ items])
  next
    case False
    with String_lit assms obtain qs items where "list_all raw_ok qs" "items_ok items"
      "t = concat (map quoted_text qs) @ CHR 0x22 # sql_text items" by (auto split: if_splits)
    moreover from False String_lit assms shape_nonempty [of st' t] have "c \<noteq> CHR 0x5C"
      by (auto simp: upcoming_def split: if_splits list.splits)
    ultimately show ?thesis using String_lit False
      by (auto intro!: exI [of _ "Raw c # qs"])
  qed
next
  case LineComment
  show ?thesis
  proof (cases "c = CHR 0x0A")
    case True
    with LineComment assms show ?thesis by (auto intro!: exI [of _ "[] :: string"])
  next
    case False
    with LineComment assms obtain s items where "CHR 0x0A \<notin> set s" "items_ok items"
      "t = s @ CHR 0x0A # sql_text items" by auto
    with LineComment False show ?thesis by (auto intro!: exI [of _ "c # s"])
  qed
next
  case BlockComment
  with assms obtain s items where *: "\<not> has_close s" "items_ok items" "t = s @ ''*/'' @ sql_text items"
    by (auto split: if_splits)
  moreover from BlockComment assms * have "\<not> has_close (c # s)"
    by (cases s) (auto split: if_splits)
  ultimately show ?thesis using BlockComment by (auto intro!: exI [of _ "c # s"])
qed

lemma shape_two:
  assumes "on_char st c (Some d) = Continue st' True" and "shape st' t"
  shows "shape st (c # d # t)"
proof (cases st)
  case Code
  consider (line) "st' = LineComment" "c = CHR ''-''" "d = CHR ''-''"
    | (block) "st' = BlockComment" "c = CHR ''/''" "d = CHR ''*''"
    using Code assms(1) by (auto split: if_splits)
  then show ?thesis
  proof cases
    case line
    with assms obtain s items where "CHR 0x0A \<notin> set s" "items_ok items" "t = s @ CHR 0x0A # sql_text items"
      by auto
    with line have "items_ok (Line s # items) \<and> c # d # t = sql_text (Line s # items)" by simp
    with Code show ?thesis by (metis shape.simps(1))
  next
    case block
    with assms obtain s items where "\<not> has_close s" "items_ok items" "t = s @ ''*/'' @ sql_text items"
      by auto
    with block have "items_ok (Block s # items) \<and> c # d # t = sql_text (Block s # items)" by simp
    with Code show ?thesis by (metis shape.simps(1))
  qed
next
  case String_lit
  with assms obtain qs items where "c = CHR 0x5C" "list_all raw_ok qs" "items_ok items"
    "t = concat (map quoted_text qs) @ CHR 0x22 # sql_text items" by (auto split: if_splits)
  with String_lit show ?thesis by (auto intro!: exI [of _ "Escaped d # qs"])
next
  case LineComment
  with assms show ?thesis by simp
next
  case BlockComment
  with assms obtain items where "c = CHR ''*''" "d = CHR ''/''" "items_ok items" "t = sql_text items"
    by (auto split: if_splits)
  with BlockComment show ?thesis by (auto intro!: exI [of _ "[] :: string"] exI [of _ items])
qed

lemma loop_shape:
  "next_loop st out input = (True, s, rest) \<Longrightarrow> \<exists>t. s = out @ t \<and> input = t @ rest \<and> shape st t"
proof (induction st out input rule: next_loop.induct)
  case (2 st out c input)
  show ?case
  proof (cases "on_char st c (upcoming input)")
    case Complete
    then have "st = Code \<and> c = CHR '';''" by (cases st) (auto split: if_splits)
    with Complete "2.prems" show ?thesis by (auto intro!: exI [of _ "[]"])
  next
    case (Continue st' two)
    show ?thesis
    proof (cases two)
      case True
      with Continue obtain d more where input: "input = d # more"
        using on_char_two [of st c "upcoming input" st'] by (cases input) auto
      from "2.IH"(1) [OF Continue True] True Continue "2.prems"
      obtain t where "s = (out @ [c, hd input]) @ t \<and> tl input = t @ rest \<and> shape st' t" by auto
      moreover from this input Continue True have "shape st (c # d # t)" by (simp add: shape_two)
      ultimately show ?thesis using input by auto
    next
      case False
      from "2.IH"(2) [OF Continue False] False Continue "2.prems"
      obtain t where t: "s = (out @ [c]) @ t \<and> input = t @ rest \<and> shape st' t" by auto
      with shape_nonempty have "upcoming input = upcoming t" by auto
      with t Continue False have "shape st (c # t)" by (simp add: shape_one)
      with t show ?thesis by auto
    qed
  qed
qed simp

lemma statement_found_iff:
  "next_loop Code [] input = (True, s, rest) \<longleftrightarrow>
   (\<exists>items. items_ok items \<and> s = sql_text items \<and> input = s @ rest)"
  using loop_shape [of Code "[]" input s rest] loop_items [where out = "[]"] by auto

section \<open>The whole input\<close>

lemma statements_cover: "\<exists>tail. blank tail \<and> input = concat (statements input) @ tail"
proof (induction input rule: statements.induct)
  case (1 input)
  obtain sql rest where eq: "next_statement input = (sql, rest)" by force
  show ?case
  proof (cases sql)
    case None
    with eq obtain s where "next_loop Code [] input = (False, s, rest)" "blank s"
      by (auto simp: next_statement_def split: prod.splits if_splits)
    then have "blank input" using next_loop_pieces next_loop_not_found by fastforce
    with None eq show ?thesis by (simp add: statements.simps)
  next
    case (Some p)
    with eq "1" obtain tail where "blank tail" "rest = concat (statements rest) @ tail" by auto
    with Some eq next_statement_pieces [of input p rest] show ?thesis
      by (auto simp: statements.simps [of input])
  qed
qed

text \<open>The statements that end with a \<open>;\<close>: the input up to the last one.\<close>

function complete_statements :: "string \<Rightarrow> string list" where
  "complete_statements input =
     (case next_loop Code [] input of (found, sql, rest) \<Rightarrow>
        if found then sql # complete_statements rest else [])"
  by pat_completeness auto
termination
proof (relation "measure length")
  fix input found sql rest y
  assume "(found, y) = next_loop Code [] input" "(sql, rest) = y" found
  then show "(rest, input) \<in> measure length"
    using next_statement_shorter [of input sql rest] by (auto simp: next_statement_def dest: sym)
qed simp

declare complete_statements.simps [simp del]

text \<open>Handing statements over one after the other, until one of them fails.\<close>

fun post_all :: "(string \<Rightarrow> ('w, bool) op) \<Rightarrow> string list \<Rightarrow> ('w, nat) op" where
  "post_all post [] = ret 0"
| "post_all post (s # ss) = bnd (post s) (\<lambda>ok. if ok then post_all post ss else ret 1)"

text \<open>One step of the client's loop is the step of the splitter.\<close>

lemma client_step:
  "client_loop post st buf (c # input) =
     (case on_char st c (upcoming input) of
        Complete \<Rightarrow> bnd (post (buf @ [c])) (\<lambda>ok. if ok then client_loop post Code [] input else ret 1)
      | Continue st' two \<Rightarrow>
          if two then client_loop post st' (buf @ [c, hd input]) (tl input)
          else client_loop post st' (buf @ [c]) input)"
  by (cases st) (auto simp: Let_def)

lemma client_loop_next:
  "client_loop post st buf input =
     (case next_loop st buf input of (found, sql, rest) \<Rightarrow>
        if \<not> found then ret 0
        else bnd (post sql) (\<lambda>ok. if ok then client_loop post Code [] rest else ret 1))"
proof (induction st buf input rule: next_loop.induct)
  case (2 st buf c input)
  then show ?case
    by (cases "on_char st c (upcoming input)") (auto simp: client_step simp del: client_loop.simps(2))
qed simp

lemma client_posts_all: "client_loop post Code [] input = post_all post (complete_statements input)"
proof (induction input rule: complete_statements.induct)
  case (1 input)
  show ?case
    using "1" by (auto simp: client_loop_next [of post Code "[]" input] complete_statements.simps [of input]
        cong: if_cong split: prod.splits)
qed

lemma statements_complete:
  "statements input = complete_statements input
   \<or> (\<exists>last. \<not> blank last \<and> statements input = complete_statements input @ [last])"
proof (induction input rule: complete_statements.induct)
  case (1 input)
  obtain found sql rest where eq: "next_loop Code [] input = (found, sql, rest)" by (metis prod_cases3)
  show ?case
  proof (cases found)
    case True
    with eq have "next_statement input = (Some sql, rest)" by (simp add: next_statement_def)
    with "1" [OF eq [symmetric] refl True] eq True show ?thesis
      by (auto simp: statements.simps [of input] complete_statements.simps [of input])
  next
    case False
    then have "rest = []" using eq next_loop_not_found by simp
    moreover have "statements [] = []" by (simp add: statements.simps next_statement_def blank_def)
    ultimately show ?thesis using False eq
      by (auto simp: statements.simps [of input] complete_statements.simps [of input] next_statement_def)
  qed
qed

end
