(* ===== verification/Telemetry.thy ===== *)
theory Telemetry
  imports Aggregates
begin

text \<open>
  Request metrics (src/net/telemetry.cpp): a queue of the requests of the last ten minutes and
  two counters. Points and lengths of time of the steady clock are nanoseconds.
\<close>

section \<open>Time\<close>

abbreviation second :: int where
  "second \<equiv> 1000000000"

text \<open>\<open>std::chrono::duration_cast\<close> to a unit of \<open>n\<close> nanoseconds rounds towards zero.\<close>

definition duration_cast :: "int \<Rightarrow> int \<Rightarrow> int" where
  "duration_cast n d = sgn d * (\<bar>d\<bar> div n)"

text \<open>The quotient of a \<open>double\<close> that holds an integer and a positive integer, as significand and exponent.\<close>

definition divide_double :: "int \<Rightarrow> nat \<Rightarrow> int \<times> int" where
  "divide_double s c =
     (let a = nat \<bar>s\<bar> * 2 ^ (53 + bit_length c); drop = bit_length (a div c) - 53
      in (sgn s * int (divide_to_even a (c * 2 ^ drop)), int drop - int (53 + bit_length c)))"

section \<open>The object\<close>

record telemetry_entry =
  te_when :: int
  te_latency :: int
  te_ok :: bool

record telemetry =
  tm_window :: "telemetry_entry list"
  tm_requests :: "64 word"
  tm_errors :: "64 word"

definition new_telemetry :: telemetry where
  "new_telemetry = \<lparr>tm_window = [], tm_requests = 0, tm_errors = 0\<rparr>"

definition prune_locked :: "int \<Rightarrow> telemetry_entry list \<Rightarrow> telemetry_entry list" where
  "prune_locked now w = dropWhile (\<lambda>e. 600 * second < now - te_when e) w"

definition observe :: "int \<Rightarrow> int \<Rightarrow> bool \<Rightarrow> (telemetry, unit) op" where
  "observe started finished ok =
     modify (\<lambda>t.
       \<lparr>tm_window = prune_locked finished (tm_window t @
          [\<lparr>te_when = finished, te_latency = duration_cast 1000 (finished - started), te_ok = ok\<rparr>]),
        tm_requests = tm_requests t + 1,
        tm_errors = (if ok then tm_errors t else tm_errors t + 1)\<rparr>)"

section \<open>Snapshots\<close>

record snapshot =
  current_rps :: nat
  avg_rps_10m :: "int \<times> int"
  max_rps_10m :: nat
  avg_latency_us_10s :: "int \<times> int"
  errors_1m :: "64 word"
  total_requests :: "64 word"
  total_errors :: "64 word"

record window_counts =
  wc_1s :: nat
  wc_10s :: nat
  wc_latency :: int
  wc_errors :: "64 word"

text \<open>The body of the loop over the window.\<close>

definition count_entry :: "int \<Rightarrow> telemetry_entry \<Rightarrow> window_counts \<Rightarrow> window_counts" where
  "count_entry now e c =
     (let d = now - te_when e in
      \<lparr>wc_1s = (if d \<le> second then wc_1s c + 1 else wc_1s c),
       wc_10s = (if d \<le> 10 * second then wc_10s c + 1 else wc_10s c),
       wc_latency = (if d \<le> 10 * second then wc_latency c + te_latency e else wc_latency c),
       wc_errors = (if d \<le> 60 * second \<and> \<not> te_ok e then wc_errors c + 1 else wc_errors c)\<rparr>)"

definition bucket_count :: nat where
  "bucket_count = 601"

definition add_to_bucket :: "int \<Rightarrow> telemetry_entry \<Rightarrow> 32 word list \<Rightarrow> 32 word list" where
  "add_to_bucket now e buckets =
     (let age = duration_cast second (now - te_when e) in
      if 0 \<le> age \<and> age < int (length buckets)
      then buckets[nat age := buckets ! nat age + 1] else buckets)"

definition fill_buckets :: "int \<Rightarrow> telemetry_entry list \<Rightarrow> 32 word list" where
  "fill_buckets now w = fold (add_to_bucket now) w (replicate bucket_count 0)"

definition bucket_sum :: "32 word list \<Rightarrow> nat" where
  "bucket_sum buckets = fold (\<lambda>v s. (s + unat v) mod 2 ^ 64) buckets 0"

definition bucket_max :: "32 word list \<Rightarrow> nat" where
  "bucket_max buckets = fold (\<lambda>v m. max m (unat v)) buckets 0"

definition take_snapshot :: "int \<Rightarrow> (telemetry, snapshot) op" where
  "take_snapshot now =
     andthen (modify (\<lambda>t. t\<lparr>tm_window := prune_locked now (tm_window t)\<rparr>))
     (gets (\<lambda>t.
        let w = tm_window t;
            c = fold (count_entry now) w \<lparr>wc_1s = 0, wc_10s = 0, wc_latency = 0, wc_errors = 0\<rparr>;
            buckets = fill_buckets now w
        in \<lparr>current_rps = wc_1s c,
            avg_rps_10m = (if w = [] then (0, 0) else divide_double (int (bucket_sum buckets)) bucket_count),
            max_rps_10m = (if w = [] then 0 else bucket_max buckets),
            avg_latency_us_10s =
              (if wc_10s c = 0 then (0, 0) else divide_double (round_int 53 (wc_latency c)) (wc_10s c)),
            errors_1m = wc_errors c,
            total_requests = tm_requests t,
            total_errors = tm_errors t\<rparr>))"

end
