(* ===== verification/Telemetry_Correct.thy ===== *)
theory Telemetry_Correct
  imports Telemetry
begin

text \<open>
  The window against the list of all requests ever observed. Requests are observed by several
  threads, so the finishing times in the window need not be sorted, and a request that is too
  old may stay behind a younger one; what a snapshot counts does not depend on that.
\<close>

type_synonym request = "int \<times> int \<times> bool"

fun entry_of :: "request \<Rightarrow> telemetry_entry" where
  "entry_of (started, finished, ok) =
     \<lparr>te_when = finished, te_latency = duration_cast 1000 (finished - started), te_ok = ok\<rparr>"

fun finish_time :: "request \<Rightarrow> int" where
  "finish_time (started, finished, ok) = finished"

fun answered_ok :: "request \<Rightarrow> bool" where
  "answered_ok (started, finished, ok) = ok"

fun observe_request :: "request \<Rightarrow> (telemetry, unit) op" where
  "observe_request (started, finished, ok) = observe started finished ok"

definition observe_all :: "request list \<Rightarrow> (telemetry, unit) op" where
  "observe_all = for_each observe_request"

lemma entry_of_simps [simp]:
  "te_when (entry_of r) = finish_time r" "te_ok (entry_of r) = answered_ok r"
  by (cases r; simp)+

section \<open>What pruning keeps\<close>

lemma filter_dropWhile: "(\<And>x. x \<in> set xs \<Longrightarrow> Q x \<Longrightarrow> \<not> P x) \<Longrightarrow> filter P (dropWhile Q xs) = filter P xs"
  by (induction xs) auto

lemma filter_prune:
  "(\<And>e. P e \<Longrightarrow> now - te_when e \<le> 600 * second) \<Longrightarrow> filter P (prune_locked now w) = filter P w"
  unfolding prune_locked_def by (rule filter_dropWhile) force

lemma filter_recent:
  "filter (\<lambda>e. now - te_when e \<le> second) (prune_locked now w) = filter (\<lambda>e. now - te_when e \<le> second) w"
  "filter (\<lambda>e. now - te_when e \<le> 10 * second) (prune_locked now w) = filter (\<lambda>e. now - te_when e \<le> 10 * second) w"
  "filter (\<lambda>e. now - te_when e \<le> 60 * second \<and> \<not> te_ok e) (prune_locked now w) =
   filter (\<lambda>e. now - te_when e \<le> 60 * second \<and> \<not> te_ok e) w"
  by (rule filter_prune; simp)+

lemma set_prune: "set (prune_locked now w) \<subseteq> set w"
  unfolding prune_locked_def by (auto dest: set_dropWhileD)

lemma dropWhile_sorted:
  "sorted (map f xs) \<Longrightarrow> dropWhile (\<lambda>x. f x < (c::int)) xs = filter (\<lambda>x. c \<le> f x) xs"
proof (induction xs)
  case (Cons x xs)
  then show ?case by (auto intro!: filter_True [symmetric] dest: order_trans)
qed simp

lemma prune_sorted:
  fixes w :: "telemetry_entry list"
  assumes "sorted (map te_when w)"
  shows "prune_locked now w = filter (\<lambda>e. now - te_when e \<le> 600 * second) w"
proof -
  have "(\<lambda>e :: telemetry_entry. 600 * second < now - te_when e) = (\<lambda>e. te_when e < now - 600 * second)"
    and "(\<lambda>e :: telemetry_entry. now - te_when e \<le> 600 * second) = (\<lambda>e. now - 600 * second \<le> te_when e)" by auto
  then show ?thesis using dropWhile_sorted [OF assms, of "now - 600 * second"] by (simp only: prune_locked_def)
qed

section \<open>After a list of requests\<close>

lemma observe_run:
  "observe_request r t =
     (Inr (), \<lparr>tm_window = prune_locked (finish_time r) (tm_window t @ [entry_of r]),
               tm_requests = tm_requests t + 1,
               tm_errors = (if answered_ok r then tm_errors t else tm_errors t + 1)\<rparr>)"
  by (cases r) (simp add: observe_def modify_def)

lemma observe_all_run:
  obtains t' where "observe_all rs t = (Inr (), t')"
    "tm_requests t' = tm_requests t + word_of_nat (length rs)"
    "tm_errors t' = tm_errors t + word_of_nat (length (filter (\<lambda>r. \<not> answered_ok r) rs))"
    "\<And>P now. (\<And>e :: telemetry_entry. P e \<Longrightarrow> now - te_when e \<le> 600 * second) \<Longrightarrow> (\<And>r. r \<in> set rs \<Longrightarrow> finish_time r \<le> now) \<Longrightarrow>
       filter P (tm_window t') = filter P (tm_window t @ map entry_of rs)"
    "set (tm_window t') \<subseteq> set (tm_window t) \<union> entry_of ` set rs"
proof (induction rs arbitrary: t thesis)
  case Nil
  then show ?case by (simp add: observe_all_def ret_def)
next
  case (Cons r rs)
  define t1 where "t1 = snd (observe_request r t)"
  have t1: "observe_request r t = (Inr (), t1)" by (simp add: t1_def observe_run)
  obtain t' where t': "observe_all rs t1 = (Inr (), t')"
    "tm_requests t' = tm_requests t1 + word_of_nat (length rs)"
    "tm_errors t' = tm_errors t1 + word_of_nat (length (filter (\<lambda>r. \<not> answered_ok r) rs))"
    "\<And>P now. (\<And>e :: telemetry_entry. P e \<Longrightarrow> now - te_when e \<le> 600 * second) \<Longrightarrow> (\<And>r. r \<in> set rs \<Longrightarrow> finish_time r \<le> now) \<Longrightarrow>
       filter P (tm_window t') = filter P (tm_window t1 @ map entry_of rs)"
    "set (tm_window t') \<subseteq> set (tm_window t1) \<union> entry_of ` set rs"
    using Cons.IH [of t1] by metis
  show ?case
  proof (rule Cons.prems)
    show "observe_all (r # rs) t = (Inr (), t')"
      using t1 t'(1) by (simp add: observe_all_def andthen_def bnd_def)
    show "tm_requests t' = tm_requests t + word_of_nat (length (r # rs))"
      using t'(2) by (simp add: t1_def observe_run)
    show "tm_errors t' = tm_errors t + word_of_nat (length (filter (\<lambda>r. \<not> answered_ok r) (r # rs)))"
      using t'(3) by (simp add: t1_def observe_run)
    show "set (tm_window t') \<subseteq> set (tm_window t) \<union> entry_of ` set (r # rs)"
      using t'(5) set_prune by (fastforce simp: t1_def observe_run)
    fix P :: "telemetry_entry \<Rightarrow> bool" and now
    assume P: "\<And>e. P e \<Longrightarrow> now - te_when e \<le> 600 * second"
      and fin: "\<And>q. q \<in> set (r # rs) \<Longrightarrow> finish_time q \<le> now"
    have "filter P (tm_window t1) = filter P (tm_window t @ [entry_of r])"
    proof -
      have "finish_time r - te_when e \<le> 600 * second" if "P e" for e
        using P [OF that] fin [of r] by simp
      then show ?thesis by (simp add: t1_def observe_run filter_prune)
    qed
    with t'(4) [of P now] P fin show "filter P (tm_window t') = filter P (tm_window t @ map entry_of (r # rs))"
      by simp
  qed
qed

lemma observe_all_sorted:
  assumes "sorted (map finish_time rs)" and "observe_all rs new_telemetry = (Inr (), t')"
  shows "sorted (map te_when (tm_window t'))"
proof -
  have "sorted (map te_when (tm_window t @ map entry_of rs)) \<Longrightarrow> observe_all rs t = (Inr (), t') \<Longrightarrow>
    sorted (map te_when (tm_window t'))" for t
  proof (induction rs arbitrary: t)
    case Nil
    then show ?case by (simp add: observe_all_def ret_def)
  next
    case (Cons r rs)
    let ?t = "snd (observe_request r t)"
    have "sorted (map te_when (prune_locked (finish_time r) (tm_window t @ [entry_of r]) @ map entry_of rs))"
    proof -
      have all: "map te_when (tm_window t @ map entry_of (r # rs)) =
        map te_when ((tm_window t @ [entry_of r]) @ map entry_of rs)" by simp
      obtain pre where "tm_window t @ [entry_of r] = pre @ prune_locked (finish_time r) (tm_window t @ [entry_of r])"
        unfolding prune_locked_def by (metis takeWhile_dropWhile_id)
      then obtain q where "map te_when (tm_window t @ map entry_of (r # rs)) =
        map te_when pre @ map te_when (q @ map entry_of rs)"
        and "q = prune_locked (finish_time r) (tm_window t @ [entry_of r])"
        using all by (metis append.assoc map_append)
      with Cons.prems(1) show ?thesis by (metis sorted_append)
    qed
    with Cons.IH [of ?t] Cons.prems(2) show ?case
      by (simp add: observe_all_def andthen_def bnd_def observe_run)
  qed
  from this [of new_telemetry] assms show ?thesis by (simp add: new_telemetry_def comp_def)
qed

section \<open>Counting\<close>

lemma count_entries:
  "fold (count_entry now) w c =
     \<lparr>wc_1s = wc_1s c + length (filter (\<lambda>e. now - te_when e \<le> second) w),
      wc_10s = wc_10s c + length (filter (\<lambda>e. now - te_when e \<le> 10 * second) w),
      wc_latency = wc_latency c + sum_list (map te_latency (filter (\<lambda>e. now - te_when e \<le> 10 * second) w)),
      wc_errors = wc_errors c + word_of_nat (length (filter (\<lambda>e. now - te_when e \<le> 60 * second \<and> \<not> te_ok e) w))\<rparr>"
proof (induction w arbitrary: c)
  case (Cons e w)
  show ?case by (simp add: Cons.IH) (simp add: count_entry_def Let_def)
qed simp

lemma snapshot_run:
  obtains s where "take_snapshot now t = (Inr s, t\<lparr>tm_window := prune_locked now (tm_window t)\<rparr>)"
    "current_rps s = length (filter (\<lambda>e. now - te_when e \<le> second) (tm_window t))"
    "errors_1m s = word_of_nat (length (filter (\<lambda>e. now - te_when e \<le> 60 * second \<and> \<not> te_ok e) (tm_window t)))"
    "total_requests s = tm_requests t" "total_errors s = tm_errors t"
    "avg_rps_10m s = (let w = prune_locked now (tm_window t) in
       if w = [] then (0, 0) else divide_double (int (bucket_sum (fill_buckets now w))) 601)"
    "avg_latency_us_10s s = (let w = filter (\<lambda>e. now - te_when e \<le> 10 * second) (tm_window t) in
       if w = [] then (0, 0) else divide_double (round_int 53 (sum_list (map te_latency w))) (length w))"
proof -
  define s where "s = projr (fst (take_snapshot now t))"
  have run: "take_snapshot now t = (Inr s, t\<lparr>tm_window := prune_locked now (tm_window t)\<rparr>)"
    by (simp add: s_def take_snapshot_def op_simps)
  show ?thesis
    by (rule that [OF run])
      (simp_all add: s_def take_snapshot_def op_simps Let_def count_entries filter_recent [simplified] bucket_count_def)
qed

section \<open>Buckets\<close>

definition total :: "32 word list \<Rightarrow> nat" where
  "total buckets = sum_list (map unat buckets)"

lemma bucket_sum_total: "total buckets < 2 ^ 64 \<Longrightarrow> bucket_sum buckets = total buckets"
proof -
  have "fold (\<lambda>v s. (s + unat v) mod 2 ^ 64) vs n = (n + total vs) mod 2 ^ 64" if "n < 2 ^ 64" for vs :: "32 word list" and n
    using that
  proof (induction vs arbitrary: n)
    case (Cons v vs)
    have "(n + unat v) mod 2 ^ 64 < 2 ^ 64" by simp
    with Cons.IH show ?case by (simp add: total_def mod_add_left_eq add.assoc)
  qed (simp add: total_def)
  then show "total buckets < 2 ^ 64 \<Longrightarrow> bucket_sum buckets = total buckets" by (simp add: bucket_sum_def)
qed

lemma total_update:
  assumes "i < length bs" and "total bs < 2 ^ 32 - 1"
  shows "total (bs[i := bs ! i + 1]) = total bs + 1"
proof -
  have split: "bs = take i bs @ bs ! i # drop (Suc i) bs" using assms(1) by (rule id_take_nth_drop)
  have "total bs = total (take i bs) + unat (bs ! i) + total (drop (Suc i) bs)"
    by (subst split) (simp add: total_def)
  moreover from this assms(2) have "unat (bs ! i + 1) = unat (bs ! i) + 1"
    by (simp add: unat_word_ariths)
  ultimately show ?thesis using assms(1) by (simp add: upd_conv_take_nth_drop total_def)
qed

lemma add_to_bucket_total:
  assumes "0 \<le> now - te_when e" "now - te_when e < int (length bs) * second" "total bs < 2 ^ 32 - 1"
  shows "total (add_to_bucket now e bs) = total bs + 1" "length (add_to_bucket now e bs) = length bs"
proof -
  have "duration_cast second (now - te_when e) = (now - te_when e) div second"
    using assms(1) by (cases "now - te_when e = 0") (auto simp: duration_cast_def sgn_if)
  moreover have "0 \<le> (now - te_when e) div second" using assms(1) by (simp add: pos_imp_zdiv_nonneg_iff)
  moreover have "(now - te_when e) div second < int (length bs)"
    using assms(2) by (simp add: div_less_iff_less_mult)
  ultimately show "total (add_to_bucket now e bs) = total bs + 1" "length (add_to_bucket now e bs) = length bs"
    using total_update [of "nat ((now - te_when e) div second)" bs] assms(3)
    by (simp_all add: add_to_bucket_def Let_def nat_less_iff)
qed

lemma fill_buckets_total:
  assumes "\<forall>e \<in> set w. 0 \<le> now - te_when e \<and> now - te_when e \<le> 600 * second" and "length w < 2 ^ 32"
  shows "bucket_sum (fill_buckets now w) = length w"
proof -
  have "length bs = 601 \<Longrightarrow> total bs + length w < 2 ^ 32 \<Longrightarrow> total (fold (add_to_bucket now) w bs) = total bs + length w" for bs
    using assms(1)
  proof (induction w arbitrary: bs)
    case (Cons e w)
    have "total (add_to_bucket now e bs) = total bs + 1" "length (add_to_bucket now e bs) = length bs"
      using Cons.prems add_to_bucket_total [of now e bs] by auto
    with Cons.IH [of "add_to_bucket now e bs"] Cons.prems show ?case by simp
  qed simp
  from this [of "replicate bucket_count 0"] assms(2)
  have "total (fill_buckets now w) = length w"
    by (simp add: fill_buckets_def bucket_count_def total_def sum_list_replicate)
  with assms(2) show ?thesis by (simp add: bucket_sum_total)
qed

end
