(* ===== verification/AccessLog.thy ===== *)
theory AccessLog
  imports Aggregates
begin

text \<open>
  The access log (src/net/logger.cpp): a stream that is open or not, and the next request id.
  Points of time are nanoseconds since 1970. Writing to an open stream succeeds.
\<close>

section \<open>Time stamps\<close>

text \<open>\<open>gmtime_r\<close>: year, month and day of a day, counted from 1 January 1970.\<close>

definition civil_of_days :: "nat \<Rightarrow> nat \<times> nat \<times> nat" where
  "civil_of_days days =
     (let z = days + 719468; era = z div 146097; doe = z mod 146097;
          yoe = (doe - doe div 1460 + doe div 36524 - doe div 146096) div 365;
          doy = doe - (365 * yoe + yoe div 4 - yoe div 100);
          mp = (5 * doy + 2) div 153;
          m = (if mp < 10 then mp + 3 else mp - 9)
      in (yoe + era * 400 + (if m \<le> 2 then 1 else 0), m, doy - (153 * mp + 2) div 5 + 1))"

definition padded :: "nat \<Rightarrow> nat \<Rightarrow> string" where
  "padded width n = replicate (width - length (nat_str n)) (CHR ''0'') @ nat_str n"

definition fmt_time :: "nat \<Rightarrow> string" where
  "fmt_time tp =
     (let t = tp div 10 ^ 9; us = tp div 1000 mod 1000000; s = t mod 86400
      in case civil_of_days (t div 86400) of (y, m, d) \<Rightarrow>
        nat_str y @ ''-'' @ padded 2 m @ ''-'' @ padded 2 d @ ''T'' @
        padded 2 (s div 3600) @ '':'' @ padded 2 (s div 60 mod 60) @ '':'' @ padded 2 (s mod 60) @
        ''.'' @ padded 6 us @ ''Z'')"

section \<open>The object\<close>

record access_log =
  lg_out :: "string option"
  lg_files :: "string \<Rightarrow> string"
  lg_next :: "64 word"

definition close_log :: "(access_log, unit) op" where
  "close_log = modify (\<lambda>l. l\<lparr>lg_out := None\<rparr>)"

text \<open>\<open>open\<close> appends to what is there; the argument tells which paths can be opened.\<close>

definition open_log :: "(string \<Rightarrow> bool) \<Rightarrow> string \<Rightarrow> (access_log, unit) op" where
  "open_log can_open path =
     andthen close_log
     (when_op (path \<noteq> [] \<and> can_open path) (modify (\<lambda>l. l\<lparr>lg_out := Some path\<rparr>)))"

definition log_is_open :: "access_log \<Rightarrow> bool" where
  "log_is_open l \<longleftrightarrow> lg_out l \<noteq> None"

definition next_request_id :: "(access_log, 64 word) op" where
  "next_request_id = andthen (modify (\<lambda>l. l\<lparr>lg_next := lg_next l + 1\<rparr>)) (gets lg_next)"

record request_times =
  rt_t0 :: nat
  rt_t1 :: nat
  rt_s0 :: int
  rt_s1 :: int

definition log_entry ::
  "64 word \<Rightarrow> string \<Rightarrow> string \<Rightarrow> string \<Rightarrow> request_times \<Rightarrow> nat \<Rightarrow> string \<Rightarrow> json" where
  "log_entry req_id client_id handler_id request_body stamps status_code status_text =
     JObj [(''request_id'', JInt (uint req_id)),
           (''client_id'', JStr client_id),
           (''handler_id'', JStr handler_id),
           (''started_at'', JStr (fmt_time (rt_t0 stamps))),
           (''ended_at'', JStr (fmt_time (rt_t1 stamps))),
           (''duration_us'', JInt (let d = int (rt_t1 stamps) - int (rt_t0 stamps) in sgn d * (\<bar>d\<bar> div 1000))),
           (''status'', JInt (int status_code)),
           (''status_text'', JStr status_text),
           (''request'', JStr request_body)]"

text \<open>\<open>dump\<close> throws on text that is not UTF-8, after the request has been served.\<close>

definition log_request ::
  "(json \<Rightarrow> error + string) \<Rightarrow> 64 word \<Rightarrow> string \<Rightarrow> string \<Rightarrow> string \<Rightarrow> request_times \<Rightarrow> nat \<Rightarrow> string
   \<Rightarrow> (access_log, unit) op" where
  "log_request dump req_id client_id handler_id request_body stamps status_code status_text =
     bnd (gets lg_out) (\<lambda>out.
     case out of
       None \<Rightarrow> ret ()
     | Some path \<Rightarrow>
         bnd (of_sum (dump (log_entry req_id client_id handler_id request_body stamps status_code status_text)))
           (\<lambda>line. modify (\<lambda>l. l\<lparr>lg_files := (lg_files l)(path := lg_files l path @ line @ [CHR 0x0A])\<rparr>)))"

lemma civil_examples:
  "civil_of_days 0 = (1970, 1, 1)" "civil_of_days 11016 = (2000, 2, 29)" "civil_of_days 20453 = (2025, 12, 31)"
  by (simp_all add: civil_of_days_def cong: let_weak_cong)

end
