(* ===== verification/LocalProgram.thy ===== *)
theory LocalProgram
  imports Splitter AccessLog Telemetry Executor
begin

text \<open>
  The local program (src/apps/main.cpp): its arguments, the loop over the statements of a script
  or of the terminal, and what it prints.
\<close>

section \<open>Output\<close>

datatype printed = Cout string | Cerr string

definition print_result :: "ExecutionResult \<Rightarrow> bool \<Rightarrow> printed" where
  "print_result r to_stderr_for_status =
     (if res_ok r then
        if res_output r \<noteq> [] \<and> hd (res_output r) = CHR ''['' then Cout (res_output r @ [CHR 0x0A])
        else if to_stderr_for_status then Cerr (''-- '' @ res_output r @ [CHR 0x0A])
        else Cout (res_output r @ [CHR 0x0A])
      else Cerr (''ERROR: '' @ res_error r @ [CHR 0x0A]))"

section \<open>Arguments\<close>

record main_args =
  ma_data :: string
  ma_script :: string
  ma_quiet :: bool
  ma_log :: bool
  ma_log_path :: string

definition default_args :: main_args where
  "default_args = \<lparr>ma_data = [], ma_script = [], ma_quiet = False, ma_log = False, ma_log_path = ''./access.log''\<rparr>"

text \<open>The loop over \<open>argv\<close>; \<open>None\<close> is the exit after the usage text.\<close>

fun parse_args :: "main_args \<Rightarrow> string list \<Rightarrow> main_args option" where
  "parse_args m [] = Some m"
| "parse_args m [a] =
     (if a = ''--quiet'' then Some (m\<lparr>ma_quiet := True\<rparr>)
      else if a = ''--log'' then Some (m\<lparr>ma_log := True\<rparr>)
      else if a = ''--help'' \<or> a = ''-h'' then None
      else Some (m\<lparr>ma_script := a\<rparr>))"
| "parse_args m (a # b # rest) =
     (if a = ''--data'' then parse_args (m\<lparr>ma_data := b\<rparr>) rest
      else if a = ''--quiet'' then parse_args (m\<lparr>ma_quiet := True\<rparr>) (b # rest)
      else if a = ''--log'' then
        if upcoming b \<noteq> Some (CHR ''-'') then parse_args (m\<lparr>ma_log := True, ma_log_path := b\<rparr>) rest
        else parse_args (m\<lparr>ma_log := True\<rparr>) (b # rest)
      else if a = ''--help'' \<or> a = ''-h'' then None
      else parse_args (m\<lparr>ma_script := a\<rparr>) (b # rest))"

section \<open>Statements\<close>

record program_env =
  pe_sql :: sql_env
  pe_parse :: "string \<Rightarrow> string + Statement"
  pe_times :: "nat \<Rightarrow> request_times"

record program =
  pg_dbms :: dbms
  pg_log :: access_log
  pg_telemetry :: telemetry
  pg_rid :: "64 word"
  pg_printed :: "printed list"

definition on_dbms :: "(dbms, 'a) op \<Rightarrow> (program, 'a) op" where
  "on_dbms = zoom pg_dbms (\<lambda>d p. p\<lparr>pg_dbms := d\<rparr>)"

definition on_log :: "(access_log, 'a) op \<Rightarrow> (program, 'a) op" where
  "on_log = zoom pg_log (\<lambda>l p. p\<lparr>pg_log := l\<rparr>)"

definition on_telemetry :: "(telemetry, 'a) op \<Rightarrow> (program, 'a) op" where
  "on_telemetry = zoom pg_telemetry (\<lambda>t p. p\<lparr>pg_telemetry := t\<rparr>)"

definition emit :: "printed \<Rightarrow> (program, unit) op" where
  "emit x = modify (\<lambda>p. p\<lparr>pg_printed := pg_printed p @ [x]\<rparr>)"

text \<open>The body of the loop, for the \<open>i\<close>-th statement; \<open>pe_times\<close> are the readings of the clocks.\<close>

definition run_one :: "program_env \<Rightarrow> bool \<Rightarrow> nat \<times> string \<Rightarrow> (program, unit) op" where
  "run_one env quiet isql =
     (case isql of (i, sql) \<Rightarrow>
       when_op (\<not> blank sql)
         (bnd (on_dbms (run_query (pe_sql env) (pe_parse env) sql)) (\<lambda>r.
          bnd (gets (\<lambda>p. log_is_open (pg_log p))) (\<lambda>logging.
          andthen (when_op logging
            (bnd (andthen (modify (\<lambda>p. p\<lparr>pg_rid := pg_rid p + 1\<rparr>)) (gets pg_rid)) (\<lambda>rid.
             on_log (log_request (sq_dump (pe_sql env)) rid ''local'' ''main'' sql (pe_times env i)
               (if res_ok r then 200 else 400) (if res_ok r then ''OK'' else res_error r)))))
          (andthen (on_telemetry (observe (rt_s0 (pe_times env i)) (rt_s1 (pe_times env i)) (res_ok r)))
          (emit (print_result r quiet)))))))"

definition session :: "program_env \<Rightarrow> bool \<Rightarrow> string \<Rightarrow> (program, unit) op" where
  "session env quiet input =
     andthen (for_each (run_one env quiet) (enumerate 0 (statements input))) (on_log close_log)"

section \<open>main\<close>

text \<open>
  What surrounds the loop. The arguments are the directories below a data directory, the
  scripts that can be read, the text and kind of the standard input, and the paths a log can be
  opened at. An error while loading ends the program with exit code 1.
\<close>

record surroundings =
  su_directories :: "string \<Rightarrow> (string \<times> listing) list"
  su_script :: "string \<Rightarrow> string option"
  su_stdin :: string
  su_tty :: bool
  su_can_log :: "string \<Rightarrow> bool"

definition load_or_report :: "program_env \<Rightarrow> string \<Rightarrow> (program, bool) op" where
  "load_or_report env dir p =
     (case on_dbms (load_all (sq_io (pe_sql env))) p of
        (Inr _, p') \<Rightarrow> (Inr True, p')
      | (Inl e, p') \<Rightarrow>
          (case error_text e of
             None \<Rightarrow> (Inl e, p')
           | Some msg \<Rightarrow> andthen (emit (Cerr (''Failed to load state from '' @ dir @ '': '' @ msg @ [CHR 0x0A])))
                           (ret False) p'))"

definition main_program :: "program_env \<Rightarrow> surroundings \<Rightarrow> string list \<Rightarrow> (program, nat) op" where
  "main_program env su args =
     (case parse_args default_args args of
        None \<Rightarrow> andthen (emit (Cerr (''Usage: prog [script.sql] [--data DIR] [--quiet] [--log [path]]'' @ [CHR 0x0A])))
                  (ret 0)
      | Some m \<Rightarrow>
          let dir = (if ma_data m = [] then ''./data'' else ma_data m);
              interactive = (ma_script m = []) in
          andthen (when_op (ma_log m) (on_log (open_log (su_can_log su) (ma_log_path m))))
          (andthen (modify (\<lambda>p. p\<lparr>pg_dbms := new_dbms dir (su_directories su dir)\<rparr>))
          (bnd (load_or_report env dir) (\<lambda>loaded.
           if \<not> loaded then ret 1
           else case (if interactive then Some (su_stdin su) else su_script su (ma_script m)) of
             None \<Rightarrow> andthen (emit (Cerr (''Cannot open '' @ ma_script m @ [CHR 0x0A]))) (ret 1)
           | Some input \<Rightarrow>
               andthen (when_op (interactive \<and> su_tty su)
                 (emit (Cerr (''cw_db interactive mode. End statements with '' @ [CHR 0x27, CHR '';'', CHR 0x27] @
                   '', Ctrl-D to exit.'' @ [CHR 0x0A]))))
               (andthen (session env (ma_quiet m) input) (ret 0))))))"

end
