(* ===== verification/Server.thy ===== *)
theory Server
  imports AccessLog Telemetry Executor
begin

text \<open>
  The HTTP server (src/net/server.cpp, src/apps/server_main.cpp): what the handlers of \<open>/query\<close>
  and \<open>/health\<close> answer, and starting and stopping. Crow delivers the requests; it and the JSON
  library are not part of the sources, so reading a JSON text is an argument, and so is whether
  Crow could start.
\<close>

section \<open>The text of a query\<close>

definition normalise_sql :: "string \<Rightarrow> string" where
  "normalise_sql sql =
     (let t = rev (dropWhile is_space (rev sql))
      in if t \<noteq> [] \<and> last t \<noteq> CHR '';'' then t @ '';'' else t)"

section \<open>The object\<close>

record server =
  sv_dbms :: dbms
  sv_log :: access_log
  sv_telemetry :: telemetry
  sv_running :: bool

record server_env =
  se_sql :: sql_env
  se_parse :: "string \<Rightarrow> string + Statement"
  se_json :: "string \<Rightarrow> string + json"

record http_request =
  rq_remote :: string
  rq_body :: string

record http_response =
  rs_status :: nat
  rs_body :: string
  rs_type :: "string option"

text \<open>\<open>start\<close> and \<open>stop\<close>: the flag is exchanged first, and put back when Crow cannot start.\<close>

definition server_start :: "bool \<Rightarrow> (server, bool) op" where
  "server_start crow_starts =
     bnd (gets sv_running) (\<lambda>already.
     andthen (modify (\<lambda>s. s\<lparr>sv_running := True\<rparr>))
       (if already then ret False
        else if crow_starts then ret True
        else andthen (modify (\<lambda>s. s\<lparr>sv_running := False\<rparr>)) (ret False)))"

definition server_stop :: "(server, unit) op" where
  "server_stop = modify (\<lambda>s. s\<lparr>sv_running := False\<rparr>)"

section \<open>Handlers\<close>

definition health :: "server_env \<Rightarrow> error + http_response" where
  "health env =
     sum_bind (sq_dump (se_sql env) (JObj [(''ok'', JBool True)])) (\<lambda>text.
     Inr \<lparr>rs_status = 200, rs_body = text, rs_type = None\<rparr>)"

text \<open>The body of the answer. An array in the output is taken apart and put under \<open>data\<close>.\<close>

definition query_response :: "server_env \<Rightarrow> ExecutionResult \<Rightarrow> error + http_response" where
  "query_response env r =
     (let reply = (\<lambda>status body type. sum_bind (sq_dump (se_sql env) (JObj body)) (\<lambda>text.
            Inr \<lparr>rs_status = status, rs_body = text, rs_type = type\<rparr>));
          json_type = Some ''application/json'';
          affected = (''affected_rows'', JInt (int (res_affected r)))
      in if \<not> res_ok r then
           reply 400 [(''ok'', JBool False), (''error'', JStr (res_error r))] json_type
         else if res_output r \<noteq> [] \<and> hd (res_output r) = CHR ''['' then
           (case se_json env (res_output r) of
              Inl what \<Rightarrow>
                reply 500 [(''ok'', JBool False), (''error'', JStr (''internal: bad SELECT JSON: '' @ what))] None
            | Inr data \<Rightarrow> reply 200 [(''ok'', JBool True), (''data'', data), affected] json_type)
         else reply 200 [(''ok'', JBool True), (''text'', JStr (res_output r)), affected] json_type)"

definition serve_dbms :: "(dbms, 'a) op \<Rightarrow> (server, 'a) op" where
  "serve_dbms = zoom sv_dbms (\<lambda>d s. s\<lparr>sv_dbms := d\<rparr>)"

definition serve_log :: "(access_log, 'a) op \<Rightarrow> (server, 'a) op" where
  "serve_log = zoom sv_log (\<lambda>l s. s\<lparr>sv_log := l\<rparr>)"

definition serve_telemetry :: "(telemetry, 'a) op \<Rightarrow> (server, 'a) op" where
  "serve_telemetry = zoom sv_telemetry (\<lambda>t s. s\<lparr>sv_telemetry := t\<rparr>)"

text \<open>The handler of \<open>/query\<close>; the name of the thread and the readings of the clocks are given.\<close>

definition handle_query ::
  "server_env \<Rightarrow> string \<Rightarrow> request_times \<Rightarrow> http_request \<Rightarrow> (server, http_response) op" where
  "handle_query env thread rt req =
     (let sql = normalise_sql (rq_body req) in
      bnd (serve_log next_request_id) (\<lambda>rid.
      bnd (serve_dbms (run_query (se_sql env) (se_parse env) sql)) (\<lambda>r.
      andthen (serve_log (log_request (sq_dump (se_sql env)) rid (''client-'' @ rq_remote req)
                 (''thread-'' @ thread) sql rt (if res_ok r then 200 else 400)
                 (if res_ok r then ''OK'' else res_error r)))
      (andthen (serve_telemetry (observe (rt_s0 rt) (rt_s1 rt) (res_ok r)))
      (of_sum (query_response env r))))))"

section \<open>The server's main\<close>

record server_args =
  sa_data :: string
  sa_log :: string
  sa_port :: int

definition default_server_args :: server_args where
  "default_server_args = \<lparr>sa_data = ''./data'', sa_log = ''./access.log'', sa_port = 5432\<rparr>"

text \<open>
  \<open>std::atol\<close> and \<open>std::atoi\<close> of glibc: \<open>strtol\<close>, which answers the nearest 64-bit integer when the
  number does not fit, and the low 32 bits of what it answers.
\<close>

definition atol :: "string \<Rightarrow> int" where
  "atol s =
     (let t = dropWhile is_space s;
          u = (if t \<noteq> [] \<and> hd t \<in> {CHR ''-'', CHR ''+''} then tl t else t);
          v = int (digits_val (takeWhile is_digit u));
          i = (if t \<noteq> [] \<and> hd t = CHR ''-'' then - v else v)
      in max (- (2 ^ 63)) (min (2 ^ 63 - 1) i))"

definition atoi :: "string \<Rightarrow> int" where
  "atoi s = sint (word_of_int (atol s) :: 32 word)"

fun parse_server_args :: "server_args \<Rightarrow> string list \<Rightarrow> server_args" where
  "parse_server_args m [] = m"
| "parse_server_args m [a] = (if a = ''--no-log'' then m\<lparr>sa_log := []\<rparr> else m)"
| "parse_server_args m (a # b # rest) =
     (if a = ''--port'' then parse_server_args (m\<lparr>sa_port := atoi b\<rparr>) rest
      else if a = ''--data'' then parse_server_args (m\<lparr>sa_data := b\<rparr>) rest
      else if a = ''--log'' then parse_server_args (m\<lparr>sa_log := b\<rparr>) rest
      else if a = ''--no-log'' then parse_server_args (m\<lparr>sa_log := []\<rparr>) (b # rest)
      else parse_server_args m (b # rest))"

text \<open>Up to the loop that prints snapshots: the log, the databases, the start; 1 is the exit code.\<close>

definition server_main ::
  "server_env \<Rightarrow> (string \<Rightarrow> (string \<times> listing) list) \<Rightarrow> (string \<Rightarrow> bool) \<Rightarrow> (int \<Rightarrow> bool) \<Rightarrow> string list
   \<Rightarrow> (server, nat option) op" where
  "server_main env directories can_log crow_starts args =
     (let m = parse_server_args default_server_args args in
      andthen (serve_log (open_log can_log (sa_log m)))
      (andthen (modify (\<lambda>s. s\<lparr>sv_dbms := new_dbms (sa_data m) (directories (sa_data m))\<rparr>))
      (andthen (serve_dbms (load_all (sq_io (se_sql env))))
      (bnd (server_start (crow_starts (sa_port m))) (\<lambda>ok. ret (if ok then None else Some 1))))))"

end
