(* ===== verification/HttpClient.thy ===== *)
theory HttpClient
  imports LocalProgram Server
begin

text \<open>
  The client (src/apps/client_main.cpp): one connection per statement, the request it writes,
  how it reads the answer, and what it prints. The network is an argument: how many bytes each
  \<open>send\<close> takes, and the pieces in which the answer to a text arrives.
\<close>

section \<open>Sockets\<close>

record 'w network =
  nw_connect :: "string \<Rightarrow> int \<Rightarrow> 'w \<Rightarrow> nat list option \<times> 'w"
  nw_reply :: "string \<Rightarrow> 'w \<Rightarrow> string list \<times> 'w"

text \<open>\<open>send_all\<close>: \<open>ks\<close> are the answers of \<open>send\<close>; 0 or the end of the list is a failure.\<close>

fun send_all :: "nat list \<Rightarrow> string \<Rightarrow> bool" where
  "send_all ks [] = True"
| "send_all [] (c # p) = False"
| "send_all (k # ks) (c # p) = (if k = 0 then False else send_all ks (drop k (c # p)))"

text \<open>\<open>recv\<close> answers at most \<open>n\<close> bytes of the next piece; nothing at the end of the connection.\<close>

fun recv :: "nat \<Rightarrow> string list \<Rightarrow> string \<times> string list" where
  "recv n [] = ([], [])"
| "recv n (s # segs) = (take n s, if length s \<le> n then segs else drop n s # segs)"

definition ends_with :: "string \<Rightarrow> string \<Rightarrow> bool" where
  "ends_with acc t \<longleftrightarrow> length t \<le> length acc \<and> drop (length acc - length t) acc = t"

lemma recv_length:
  "recv n segs = (c # cs, segs') \<Longrightarrow> length (concat segs') < length (concat segs)"
  by (cases segs) (auto split: if_splits simp: take_Cons' Cons_eq_append_conv dest!: arg_cong [of _ _ length])

function read_until :: "string \<Rightarrow> string \<Rightarrow> string list \<Rightarrow> bool \<times> string \<times> string list" where
  "read_until t acc segs =
     (if ends_with acc t then (True, acc, segs)
      else case recv 1 segs of
        ([], segs') \<Rightarrow> (False, acc, segs')
      | (ch # _, segs') \<Rightarrow> read_until t (acc @ [ch]) segs')"
  by pat_completeness auto
termination
  by (relation "measure (\<lambda>(t, acc, segs). length (concat segs))") (auto dest: recv_length [OF sym])

function read_exact :: "nat \<Rightarrow> string \<Rightarrow> string list \<Rightarrow> bool \<times> string" where
  "read_exact n got segs =
     (if n \<le> length got then (True, got)
      else case recv (n - length got) segs of
        ([], segs') \<Rightarrow> (False, got)
      | (c # cs, segs') \<Rightarrow> read_exact n (got @ c # cs) segs')"
  by pat_completeness auto
termination
  by (relation "measure (\<lambda>(n, got, segs). length (concat segs))") (auto dest: recv_length [OF sym])

declare read_until.simps [simp del] read_exact.simps [simp del]

section \<open>One request\<close>

abbreviation crlf :: string where
  "crlf \<equiv> [CHR 0x0D, CHR 0x0A]"

definition request_text :: "string \<Rightarrow> int \<Rightarrow> string \<Rightarrow> string" where
  "request_text host port sql =
     ''POST /query HTTP/1.1'' @ crlf @
     ''Host: '' @ host @ '':'' @ int_str port @ crlf @
     ''Content-Type: application/sql'' @ crlf @
     ''Content-Length: '' @ nat_str (length sql) @ crlf @
     ''Connection: close'' @ crlf @
     crlf @ sql"

record HttpResponse =
  hr_status :: int
  hr_body :: string

text \<open>What follows the first occurrence of a text, as \<open>find\<close> and \<open>substr\<close> give it.\<close>

fun after :: "string \<Rightarrow> string \<Rightarrow> string option" where
  "after pat [] = (if pat = [] then Some [] else None)"
| "after pat (c # s) =
     (if take (length pat) (c # s) = pat then Some (drop (length pat) (c # s)) else after pat s)"

text \<open>The text between the first two blanks of the head, if there are two.\<close>

definition status_text :: "string \<Rightarrow> string option" where
  "status_text head =
     (case after '' '' head of
        None \<Rightarrow> None
      | Some s \<Rightarrow> if CHR '' '' \<in> set s then Some (takeWhile (\<lambda>c. c \<noteq> CHR '' '') s) else None)"

definition content_length :: "string \<Rightarrow> nat" where
  "content_length head =
     (case after ''content-length:'' (map tolower head) of
        None \<Rightarrow> 0
      | Some s \<Rightarrow> nat (atol (dropWhile (\<lambda>c. c = CHR '' '' \<or> c = CHR 0x09) s) mod 2 ^ 64))"

text \<open>The answer read from the pieces; \<open>assign\<close> throws when the length is that of no string.\<close>

definition read_response :: "string list \<Rightarrow> error + HttpResponse option" where
  "read_response segs =
     (case read_until (crlf @ crlf) [] segs of (found, head, segs') \<Rightarrow>
        if \<not> found then Inr None
        else case status_text head of
          None \<Rightarrow> Inr None
        | Some code \<Rightarrow>
            let n = content_length head in
            if n = 0 then Inr (Some \<lparr>hr_status = atoi code, hr_body = []\<rparr>)
            else if 2 ^ 63 \<le> n then Inl (Length_error ''basic_string::_M_replace_aux'')
            else case read_exact n [] segs' of (complete, body) \<Rightarrow>
              Inr (if complete then Some \<lparr>hr_status = atoi code, hr_body = body\<rparr> else None))"

definition http_post_query :: "'w network \<Rightarrow> string \<Rightarrow> int \<Rightarrow> string \<Rightarrow> ('w, HttpResponse option) op" where
  "http_post_query net host port sql w =
     (case nw_connect net host port w of
        (None, w') \<Rightarrow> (Inr None, w')
      | (Some ks, w') \<Rightarrow>
          if \<not> send_all ks (request_text host port sql) then (Inr None, w')
          else case nw_reply net (request_text host port sql) w' of (segs, w'') \<Rightarrow>
            (read_response segs, w''))"

section \<open>Printing the answer\<close>

text \<open>\<open>body.value\<close>, \<open>contains\<close> and \<open>get\<close> of the JSON library throw when the types do not fit.\<close>

definition type_error :: error where
  "type_error = Runtime_error ''[json.exception.type_error]''"

definition value_bool :: "json \<Rightarrow> string \<Rightarrow> bool \<Rightarrow> error + bool" where
  "value_bool j k dflt =
     (case j of
        JObj kvs \<Rightarrow> (case map_of kvs k of None \<Rightarrow> Inr dflt | Some (JBool b) \<Rightarrow> Inr b | Some _ \<Rightarrow> Inl type_error)
      | _ \<Rightarrow> Inl type_error)"

definition value_string :: "json \<Rightarrow> string \<Rightarrow> string \<Rightarrow> error + string" where
  "value_string j k dflt =
     (case j of
        JObj kvs \<Rightarrow> (case map_of kvs k of None \<Rightarrow> Inr dflt | Some (JStr s) \<Rightarrow> Inr s | Some _ \<Rightarrow> Inl type_error)
      | _ \<Rightarrow> Inl type_error)"

definition member :: "json \<Rightarrow> string \<Rightarrow> json option" where
  "member j k = (case j of JObj kvs \<Rightarrow> map_of kvs k | _ \<Rightarrow> None)"

definition print_response :: "server_env \<Rightarrow> HttpResponse \<Rightarrow> error + printed list" where
  "print_response env resp =
     (case se_json env (hr_body resp) of
        Inl _ \<Rightarrow> Inr [Cerr (''ERROR: server returned non-JSON (status '' @ int_str (hr_status resp) @ ''): '' @
                   hr_body resp @ [CHR 0x0A])]
      | Inr body \<Rightarrow>
          sum_bind (value_bool body ''ok'' False) (\<lambda>ok.
          if ok then
            case member body ''data'' of
              Some data \<Rightarrow> sum_bind (sq_dump (se_sql env) data) (\<lambda>text. Inr [Cout (text @ [CHR 0x0A])])
            | None \<Rightarrow>
                (case member body ''text'' of
                   Some (JStr s) \<Rightarrow> Inr [Cout (''-- '' @ s @ [CHR 0x0A])]
                 | Some _ \<Rightarrow> Inl type_error
                 | None \<Rightarrow> Inr [])
          else sum_bind (value_string body ''error'' ''unknown error'') (\<lambda>msg.
            Inr [Cerr (''ERROR: '' @ msg @ [CHR 0x0A])])))"


section \<open>main\<close>

record client_args =
  ca_host :: string
  ca_port :: int
  ca_script :: string

definition default_client_args :: client_args where
  "default_client_args = \<lparr>ca_host = ''127.0.0.1'', ca_port = 5432, ca_script = []\<rparr>"

fun parse_client_args :: "client_args \<Rightarrow> string list \<Rightarrow> client_args" where
  "parse_client_args m [] = m"
| "parse_client_args m [a] = m\<lparr>ca_script := a\<rparr>"
| "parse_client_args m (a # b # rest) =
     (if a = ''--host'' then parse_client_args (m\<lparr>ca_host := b\<rparr>) rest
      else if a = ''--port'' then parse_client_args (m\<lparr>ca_port := atoi b\<rparr>) rest
      else parse_client_args (m\<lparr>ca_script := a\<rparr>) (b # rest))"

text \<open>What the loop does with a statement: send it, print the answer. The state has what was printed.\<close>

definition client_post ::
  "server_env \<Rightarrow> 'w network \<Rightarrow> string \<Rightarrow> int \<Rightarrow> string \<Rightarrow> ('w \<times> printed list, bool) op" where
  "client_post env net host port sql =
     bnd (zoom fst (\<lambda>w p. (w, snd p)) (http_post_query net host port sql)) (\<lambda>answer.
     case answer of
       None \<Rightarrow> andthen (modify (\<lambda>(w, out). (w, out @ [Cerr (''ERROR: failed to talk to '' @ host @ '':'' @
                  int_str port @ [CHR 0x0A])]))) (ret False)
     | Some resp \<Rightarrow>
         bnd (of_sum (print_response env resp)) (\<lambda>ps.
         andthen (modify (\<lambda>(w, out). (w, out @ ps))) (ret True)))"

definition client_main ::
  "server_env \<Rightarrow> 'w network \<Rightarrow> (string \<Rightarrow> string option) \<Rightarrow> string \<Rightarrow> string list \<Rightarrow> ('w \<times> printed list, nat) op" where
  "client_main env net script stdin args =
     (let m = parse_client_args default_client_args args in
      case (if ca_script m = [] then Some stdin else script (ca_script m)) of
        None \<Rightarrow> andthen (modify (\<lambda>(w, out). (w, out @ [Cerr (''Cannot open '' @ ca_script m @ [CHR 0x0A])]))) (ret 1)
      | Some input \<Rightarrow> client_loop (client_post env net (ca_host m) (ca_port m)) Code [] input)"

end
