(* ===== verification/HttpClient_Correct.thy ===== *)
theory HttpClient_Correct
  imports HttpClient "HOL-Library.Sublist"
begin

text \<open>
  The client reads the whole answer however the network cuts it into pieces, and prints of it
  what the local program prints of the same result.
\<close>

section \<open>Numbers in decimal\<close>

lemma atol_nat_str:
  assumes "s = [] \<or> \<not> is_digit (hd s)" and "n < 2 ^ 63"
  shows "atol (nat_str n @ s) = int n"
proof -
  obtain c cs where c: "nat_str n = c # cs" by (cases "nat_str n") auto
  then have "is_digit c" using nat_str_digits [of n] by auto
  then have "dropWhile is_space (nat_str n @ s) = nat_str n @ s" and "c \<noteq> CHR ''-''" "c \<noteq> CHR ''+''"
    using c digit_not [of c] by auto
  moreover have "takeWhile is_digit (nat_str n @ s) = nat_str n"
    using nat_str_digits [of n] assms by (auto simp: takeWhile_append2 takeWhile_eq_Nil_iff)
  ultimately show ?thesis using c digits_val_nat_str [of n] assms(2) by (simp add: atol_def Let_def del: nat_str_nonempty)
qed

lemma atoi_nat_str:
  assumes "n < 2 ^ 31"
  shows "atoi (nat_str n) = int n"
proof -
  have "atol (nat_str n) = int n" using atol_nat_str [of "[]" n] assms by simp
  then have "atoi (nat_str n) = (int n + 2 ^ 31) mod 2 ^ 32 - 2 ^ 31" by (simp only: atoi_def int_word_sint) simp
  then show ?thesis using assms by simp
qed

section \<open>Reading from pieces\<close>

definition no_empty :: "string list \<Rightarrow> bool" where
  "no_empty segs \<longleftrightarrow> [] \<notin> set segs"

lemma recv_pieces:
  assumes "no_empty segs" "concat segs \<noteq> []" "0 < n" "recv n segs = (got, segs')"
  shows "got \<noteq> []" "length got \<le> n" "no_empty segs'" "got @ concat segs' = concat segs"
  using assms by (cases segs; auto simp: no_empty_def split: if_splits)+

text \<open>\<open>read_until\<close> stops at the shortest text that ends with the terminator.\<close>

lemma read_until_pieces:
  assumes "no_empty segs" "concat segs = part @ rest" "ends_with (acc @ part) t"
    and "\<And>p. strict_prefix p part \<Longrightarrow> \<not> ends_with (acc @ p) t"
  shows "\<exists>segs'. read_until t acc segs = (True, acc @ part, segs') \<and> no_empty segs' \<and> concat segs' = rest"
  using assms
proof (induction part arbitrary: acc segs)
  case Nil
  then show ?case by (simp add: read_until.simps)
next
  case (Cons c part)
  obtain got segs' where recv: "recv 1 segs = (got, segs')" by force
  from recv_pieces [OF Cons.prems(1) _ _ recv] Cons.prems(2)
  have got: "got = [c]" "no_empty segs'" "concat segs' = part @ rest"
    by (cases got; auto simp: Cons_eq_append_conv)+
  have "\<not> ends_with acc t" using Cons.prems(4) [of "[]"] by simp
  with recv got have "read_until t acc segs = read_until t (acc @ [c]) segs'"
    by (subst read_until.simps) simp
  moreover have "\<exists>s. read_until t (acc @ [c]) segs' = (True, (acc @ [c]) @ part, s) \<and> no_empty s \<and> concat s = rest"
  proof (rule Cons.IH [OF got(2,3)])
    show "ends_with ((acc @ [c]) @ part) t" using Cons.prems(3) by simp
    fix p assume "strict_prefix p part"
    then show "\<not> ends_with ((acc @ [c]) @ p) t" using Cons.prems(4) [of "c # p"] by simp
  qed
  ultimately show ?case by simp
qed

lemma read_exact_pieces:
  assumes "no_empty segs" "concat segs = part @ rest" "n = length acc + length part"
  shows "read_exact n acc segs = (True, acc @ part)"
  using assms
proof (induction "length part" arbitrary: part acc segs rule: less_induct)
  case less
  show ?case
  proof (cases "part = []")
    case True
    with less.prems show ?thesis by (simp add: read_exact.simps)
  next
    case False
    obtain got segs' where recv: "recv (n - length acc) segs = (got, segs')" by force
    from recv_pieces [OF less.prems(1) _ _ recv] less.prems False
    have got: "got \<noteq> []" "length got \<le> length part" "no_empty segs'" "got @ concat segs' = part @ rest" by auto
    then obtain left where left: "part = got @ left" "concat segs' = left @ rest"
      by (metis append_eq_append_conv_if append_eq_append_conv2 append_take_drop_id)
    with got have "read_exact n (acc @ got) segs' = (True, (acc @ got) @ left)"
      by (intro less.hyps) (auto simp: less.prems)
    moreover from recv got less.prems False have "read_exact n acc segs = read_exact n (acc @ got) segs'"
      by (subst read_exact.simps) (auto split: list.splits)
    ultimately show ?thesis using left by simp
  qed
qed

section \<open>The head of an answer\<close>

text \<open>A head as HTTP has it: a status line and fields, each ended by CRLF, and an empty line.\<close>

definition response_head :: "string list \<Rightarrow> string" where
  "response_head ls = concat (map (\<lambda>l. l @ crlf) ls) @ crlf"

definition head_lines :: "nat \<Rightarrow> string \<Rightarrow> string list \<Rightarrow> nat \<Rightarrow> string list \<Rightarrow> string list" where
  "head_lines code reason early n late =
     (''HTTP/1.1 '' @ nat_str code @ '' '' @ reason) # early @ (''Content-Length: '' @ nat_str n) # late"

definition line_ok :: "string \<Rightarrow> bool" where
  "line_ok l \<longleftrightarrow> l \<noteq> [] \<and> CHR 0x0D \<notin> set l"

definition names_length :: "string \<Rightarrow> bool" where
  "names_length l \<longleftrightarrow> after ''content-length:'' (map tolower l) \<noteq> None"

lemma response_head_simps:
  "response_head [] = crlf" "response_head (l # ls) = l @ crlf @ response_head ls"
  by (simp_all add: response_head_def)

lemma after_found: "pat \<noteq> [] \<Longrightarrow> s = p @ pat @ q \<Longrightarrow> \<exists>r. after pat s = Some r \<and> length q \<le> length r"
proof (induction s arbitrary: p)
  case (Cons c s)
  show ?case
  proof (cases "take (length pat) (c # s) = pat")
    case True
    have "length (c # s) = length p + length pat + length q" using Cons.prems(2) by simp
    with True show ?thesis by simp
  next
    case False
    with Cons.prems obtain p' where "p = c # p'" by (cases p) auto
    with Cons False show ?thesis by auto
  qed
qed simp

lemma after_skip: "a \<notin> set l \<Longrightarrow> after (a # pat) (l @ s) = after (a # pat) s"
  by (induction l) auto

lemma after_head:
  assumes "\<forall>l \<in> set ls. line_ok l"
  shows "after (crlf @ crlf) (response_head (l # ls)) = (if CHR 0x0D \<in> set l then after (crlf @ crlf) (response_head (l # ls)) else Some [])"
  using assms
proof (induction ls arbitrary: l)
  case Nil
  then show ?case by (simp add: response_head_simps after_skip)
next
  case (Cons m ls)
  then obtain d ds where "m = d # ds" "d \<noteq> CHR 0x0D" "CHR 0x0D \<notin> set m" by (cases m) (auto simp: line_ok_def)
  with Cons show ?case
    by (auto simp: response_head_simps(2) [of l] after_skip) (simp add: response_head_simps)
qed

text \<open>The blank line ends the head and nothing before it.\<close>

lemma head_end:
  assumes "\<forall>l \<in> set (l # ls). line_ok l"
  shows "ends_with (response_head (l # ls)) (crlf @ crlf)"
    and "strict_prefix p (response_head (l # ls)) \<Longrightarrow> \<not> ends_with p (crlf @ crlf)"
proof -
  have "\<exists>p. response_head (l # ls) = p @ crlf @ crlf"
  proof (induction ls arbitrary: l)
    case Nil
    then show ?case by (simp add: response_head_simps)
  next
    case (Cons m ls)
    then show ?case by (metis append.assoc response_head_simps(2))
  qed
  then show "ends_with (response_head (l # ls)) (crlf @ crlf)" by (auto simp: ends_with_def)
  assume sp: "strict_prefix p (response_head (l # ls))"
  show "\<not> ends_with p (crlf @ crlf)"
  proof
    assume "ends_with p (crlf @ crlf)"
    then have "p = take (length p - length (crlf @ crlf)) p @ crlf @ crlf"
      by (metis append_take_drop_id ends_with_def)
    moreover from sp obtain q where "response_head (l # ls) = p @ q" "q \<noteq> []" by (auto simp: strict_prefix_def prefix_def)
    ultimately have "response_head (l # ls) = take (length p - length (crlf @ crlf)) p @ (crlf @ crlf) @ q" by (metis append.assoc)
    from after_found [OF _ this] after_head [of ls l] assms \<open>q \<noteq> []\<close> show False by (auto simp: line_ok_def)
  qed
qed

lemma status_text_head:
  "status_text (response_head (head_lines code reason early n late)) = Some (nat_str code)"
proof -
  have no_blank: "CHR '' '' \<notin> set (nat_str code)" using nat_str_digits [of code] digit_not by blast
  obtain s where s: "response_head (head_lines code reason early n late) = ''HTTP/1.1 '' @ nat_str code @ '' '' @ s"
    by (simp add: head_lines_def response_head_simps)
  then have "after '' '' (response_head (head_lines code reason early n late)) = Some (nat_str code @ '' '' @ s)"
    by simp
  moreover have "takeWhile (\<lambda>c. c \<noteq> CHR '' '') (nat_str code @ '' '' @ s) = nat_str code"
    using no_blank by (subst takeWhile_append2) auto
  ultimately show ?thesis by (simp add: status_text_def)
qed

lemma after_line:
  "after pat s = None \<Longrightarrow> pat \<noteq> [] \<Longrightarrow> c \<notin> set pat \<Longrightarrow> after pat (s @ c # r) = after pat r"
proof (induction s)
  case Nil
  then show ?case by (cases pat) auto
next
  case (Cons a s)
  have "take (length pat) (a # s @ c # r) \<noteq> pat"
  proof (cases "length pat \<le> length (a # s)")
    case True
    then have "take (length pat) (a # s @ c # r) = take (length pat) (a # s)" by (metis append_Cons append_take_drop_id take_append diff_is_0_eq take_0 append_Nil2)
    with Cons.prems show ?thesis by (auto split: if_splits)
  next
    case False
    then have "c \<in> set (take (length pat) ((a # s) @ c # r))" by (auto simp: take_append take_Cons')
    with Cons.prems show ?thesis by auto
  qed
  with Cons show ?case by (auto split: if_splits)
qed

lemma content_length_head:
  assumes "\<forall>l \<in> set early. \<not> names_length l" "\<not> names_length (''HTTP/1.1 '' @ nat_str code @ '' '' @ reason)"
    and "n < 2 ^ 63"
  shows "content_length (response_head (head_lines code reason early n late)) = n"
proof -
  let ?key = "''content-length:''"
  have skip: "after ?key (map tolower (l @ crlf @ s)) = after ?key (map tolower s)" if "\<not> names_length l" for l s
  proof -
    have "after ?key (map tolower l @ CHR 0x0D # CHR 0x0A # map tolower s) = after ?key (CHR 0x0A # map tolower s)"
      using that by (intro after_line) (auto simp: names_length_def)
    then show ?thesis by (simp add: tolower_def)
  qed
  have lines: "after ?key (map tolower (response_head (ls @ k))) = after ?key (map tolower (response_head k))"
    if "\<forall>l \<in> set ls. \<not> names_length l" for ls k
    using that
  proof (induction ls)
    case (Cons a ls)
    then have "after ?key (map tolower (a @ crlf @ response_head (ls @ k))) = after ?key (map tolower (response_head (ls @ k)))"
      by (intro skip) simp
    with Cons show ?case by (simp add: response_head_simps)
  qed simp
  obtain s where s: "response_head ((''Content-Length: '' @ nat_str n) # late) = ''Content-Length: '' @ nat_str n @ CHR 0x0D # s"
    by (simp add: response_head_simps)
  have key: "map tolower ''Content-Length: '' = ''content-length: ''" by code_simp
  have low: "map tolower (nat_str n) = nat_str n"
    using nat_str_digits [of n] tolower_digit by (induction "nat_str n") (auto intro: map_idI)
  have "after ?key (map tolower (response_head (head_lines code reason early n late))) =
    after ?key (map tolower (response_head ((''Content-Length: '' @ nat_str n) # late)))"
    unfolding head_lines_def response_head_simps(2) [of "''HTTP/1.1 '' @ nat_str code @ '' '' @ reason"]
    using skip [OF assms(2)] lines [OF assms(1)] by (rule trans)
  also have "\<dots> = Some ('' '' @ nat_str n @ map tolower (CHR 0x0D # s))"
    by (simp only: s map_append low key) simp
  finally have found: "after ?key (map tolower (response_head (head_lines code reason early n late))) =
    Some ('' '' @ nat_str n @ map tolower (CHR 0x0D # s))" .
  obtain c cs where c: "nat_str n = c # cs" by (cases "nat_str n") auto
  then have "is_digit c" using nat_str_digits [of n] by auto
  with c have "dropWhile (\<lambda>c. c = CHR '' '' \<or> c = CHR 0x09) ('' '' @ nat_str n @ map tolower (CHR 0x0D # s)) =
    nat_str n @ map tolower (CHR 0x0D # s)" using digit_not [of c] by simp
  moreover have "atol (nat_str n @ map tolower (CHR 0x0D # s)) = int n"
    using assms(3) by (intro atol_nat_str) (simp_all add: tolower_def is_digit_def less_eq_char_def)
  ultimately show ?thesis using assms(3) by (simp add: content_length_def found)
qed

section \<open>The whole answer\<close>

lemma read_response_pieces:
  assumes "no_empty segs"
    and "concat segs = response_head (head_lines code reason early (length body) late) @ body @ rest"
    and "\<forall>l \<in> set (early @ late). line_ok l" "CHR 0x0D \<notin> set reason"
    and "\<forall>l \<in> set early. \<not> names_length l" "\<not> names_length (''HTTP/1.1 '' @ nat_str code @ '' '' @ reason)"
    and "length body < 2 ^ 63" and "code < 2 ^ 31"
  shows "read_response segs = Inr (Some \<lparr>hr_status = int code, hr_body = body\<rparr>)"
proof -
  let ?head = "response_head (head_lines code reason early (length body) late)"
  have digits: "CHR 0x0D \<notin> set (nat_str n)" for n
    using nat_str_digits [of n] by (auto simp: is_digit_def less_eq_char_def)
  obtain l ls where ls: "head_lines code reason early (length body) late = l # ls" by (simp add: head_lines_def)
  have ok: "\<forall>k \<in> set (l # ls). line_ok k"
    unfolding ls [symmetric] head_lines_def using assms(3,4) digits by (auto simp: line_ok_def)
  have "\<exists>segs'. read_until (crlf @ crlf) [] segs = (True, [] @ ?head, segs') \<and> no_empty segs' \<and> concat segs' = body @ rest"
    by (rule read_until_pieces [OF assms(1,2)]) (use head_end [OF ok] ls in auto)
  then obtain segs' where head: "read_until (crlf @ crlf) [] segs = (True, ?head, segs')"
    and segs': "no_empty segs'" "concat segs' = body @ rest" by auto
  have code: "status_text ?head = Some (nat_str code)" by (rule status_text_head)
  have len: "content_length ?head = length body" using assms(5-7) by (intro content_length_head) auto
  have body: "read_exact (length body) [] segs' = (True, body)"
    using read_exact_pieces [OF segs', of "length body" "[]"] by simp
  have "atoi (nat_str code) = int code" using assms(8) by (rule atoi_nat_str)
  with head code len body assms(7) show ?thesis by (simp add: read_response_def Let_def)
qed

end
