(* ===== verification/Remote.thy ===== *)
theory Remote
  imports HttpClient_Correct
begin

text \<open>
  The client and the server together: what the client prints of an answer is what the local
  program prints of the result, and a query over HTTP does to the databases what it does locally.
\<close>

section \<open>The JSON library\<close>

text \<open>Two values are the same when they differ at most in how a \<open>double\<close> is written.\<close>

definition same_double :: "int \<times> int \<Rightarrow> int \<times> int \<Rightarrow> bool" where
  "same_double x y \<longleftrightarrow>
     fst x * 2 ^ nat (snd x - min (snd x) (snd y)) = fst y * 2 ^ nat (snd y - min (snd x) (snd y))"

fun same_json :: "json \<Rightarrow> json \<Rightarrow> bool" where
  "same_json (JDouble m e) (JDouble m' e') \<longleftrightarrow> same_double (m, e) (m', e')"
| "same_json (JObj kvs) (JObj kvs') \<longleftrightarrow> list_all2 (\<lambda>p q. fst p = fst q \<and> same_json (snd p) (snd q)) kvs kvs'"
| "same_json (JArr js) (JArr js') \<longleftrightarrow> list_all2 same_json js js'"
| "same_json j j' \<longleftrightarrow> j = j'"

text \<open>Objects have every key once.\<close>

fun proper_json :: "json \<Rightarrow> bool" where
  "proper_json (JObj kvs) \<longleftrightarrow> distinct (map fst kvs) \<and> (\<forall>p \<in> set kvs. proper_json (snd p))"
| "proper_json (JArr js) \<longleftrightarrow> (\<forall>j \<in> set js. proper_json j)"
| "proper_json _ \<longleftrightarrow> True"

text \<open>
  What is used of nlohmann::json: what \<open>dump\<close> wrote is parsed to the same value, the same
  values are written alike, and an array starts with a bracket.
\<close>

definition json_library :: "(json \<Rightarrow> error + string) \<Rightarrow> (string \<Rightarrow> string + json) \<Rightarrow> bool" where
  "json_library dump parse \<longleftrightarrow>
     (\<forall>j text. proper_json j \<longrightarrow> dump j = Inr text \<longrightarrow> (\<exists>j'. parse text = Inr j' \<and> same_json j j')) \<and>
     (\<forall>j j'. same_json j j' \<longrightarrow> dump j' = dump j) \<and>
     (\<forall>js text. dump (JArr js) = Inr text \<longrightarrow> text \<noteq> [] \<and> hd text = CHR ''['')"

lemma list_all2_member: "list_all2 P xs ys \<Longrightarrow> y \<in> set ys \<Longrightarrow> \<exists>x \<in> set xs. P x y"
  by (induction rule: list_all2_induct) auto

lemma same_json_proper: "same_json j j' \<Longrightarrow> proper_json j \<Longrightarrow> proper_json j'"
proof (induction j j' rule: same_json.induct)
  case (2 kvs kvs')
  then have "map fst kvs = map fst kvs'" by (auto simp: list_all2_conv_all_nth intro: nth_equalityI)
  moreover from 2 have "proper_json (snd q)" if q: "q \<in> set kvs'" for q
    using q list_all2_member [of "\<lambda>p q. fst p = fst q \<and> same_json (snd p) (snd q)" kvs kvs' q] by fastforce
  ultimately show ?case using 2 by simp
next
  case (3 js js')
  then have "proper_json j'" if j': "j' \<in> set js'" for j'
    using j' list_all2_member [of same_json js js' j'] by fastforce
  then show ?case by simp
qed auto

lemma same_members:
  "list_all2 (\<lambda>p q. fst p = fst q \<and> same_json (snd p) (snd q)) kvs kvs' \<Longrightarrow>
   rel_option same_json (map_of kvs k) (map_of kvs' k)"
  by (induction rule: list_all2_induct) auto

lemma same_members_cases:
  assumes "same_json (JObj kvs) j'"
  obtains kvs' where "j' = JObj kvs'" "\<And>k. rel_option same_json (map_of kvs k) (map_of kvs' k)"
proof (cases j')
  case (JObj kvs')
  with assms show ?thesis by (intro that [OF JObj]) (simp add: same_members)
qed (use assms in auto)

lemma same_json_simps [simp]:
  "same_json (JBool b) j \<longleftrightarrow> j = JBool b" "same_json (JStr s) j \<longleftrightarrow> j = JStr s" "same_json (JInt i) j \<longleftrightarrow> j = JInt i"
  by (cases j; auto)+

section \<open>What the client prints\<close>

definition selected_array :: "ExecutionResult \<Rightarrow> bool" where
  "selected_array r \<longleftrightarrow> res_output r \<noteq> [] \<and> hd (res_output r) = CHR ''[''"

text \<open>Only the status text is shown in another way than \<open>print_result\<close> does.\<close>

definition remote_print :: "ExecutionResult \<Rightarrow> printed" where
  "remote_print r =
     (if res_ok r \<and> \<not> selected_array r then Cout (''-- '' @ res_output r @ [CHR 0x0A]) else print_result r True)"

text \<open>The output of a query is an array that \<open>dump\<close> wrote, or it is a status text.\<close>

definition answer_text :: "(json \<Rightarrow> error + string) \<Rightarrow> ExecutionResult \<Rightarrow> bool" where
  "answer_text dump r \<longleftrightarrow>
     selected_array r \<longrightarrow> (\<exists>js. proper_json (JArr js) \<and> dump (JArr js) = Inr (res_output r))"

definition as_received :: "http_response \<Rightarrow> HttpResponse" where
  "as_received resp = \<lparr>hr_status = int (rs_status resp), hr_body = rs_body resp\<rparr>"

lemma reply_printed:
  assumes json: "json_library (sq_dump (se_sql env)) (se_json env)"
    and answered: "answer_text (sq_dump (se_sql env)) r" and resp: "query_response env r = Inr resp"
  shows "print_response env (as_received resp) = Inr [remote_print r]"
proof -
  let ?dump = "sq_dump (se_sql env)"
  have reread: "\<exists>kvs'. se_json env t = Inr (JObj kvs') \<and> (\<forall>k. rel_option same_json (map_of kvs k) (map_of kvs' k))"
    if "?dump (JObj kvs) = Inr t" "proper_json (JObj kvs)" for kvs t
  proof -
    from json that obtain j' where "se_json env t = Inr j'" "same_json (JObj kvs) j'"
      unfolding json_library_def by blast
    then show ?thesis by (metis same_members_cases)
  qed
  consider (failed) "\<not> res_ok r" | (rows) "res_ok r" "selected_array r" | (status) "res_ok r" "\<not> selected_array r"
    by auto
  then show ?thesis
  proof cases
    case failed
    let ?body = "[(''ok'', JBool False), (''error'', JStr (res_error r))]"
    from failed resp obtain t where t: "?dump (JObj ?body) = Inr t" "rs_body resp = t"
      by (auto simp: query_response_def Let_def sum_bind_Inr)
    with reread [of ?body t] obtain kvs' where "se_json env t = Inr (JObj kvs')"
      "\<forall>k. rel_option same_json (map_of ?body k) (map_of kvs' k)" by auto
    moreover from this(2) [rule_format, of "''ok''"] this(2) [rule_format, of "''error''"]
    have "map_of kvs' ''ok'' = Some (JBool False)" "map_of kvs' ''error'' = Some (JStr (res_error r))"
      by (auto simp: option_rel_Some1)
    ultimately show ?thesis using failed t
      by (simp add: print_response_def as_received_def value_bool_def value_string_def remote_print_def print_result_def)
  next
    case rows
    from answered rows obtain js where js: "proper_json (JArr js)" "?dump (JArr js) = Inr (res_output r)"
      by (auto simp: answer_text_def)
    with json obtain data where data: "se_json env (res_output r) = Inr data" "same_json (JArr js) data"
      unfolding json_library_def by blast
    let ?body = "[(''ok'', JBool True), (''data'', data), (''affected_rows'', JInt (int (res_affected r)))]"
    from rows resp data obtain t where t: "?dump (JObj ?body) = Inr t" "rs_body resp = t"
      by (auto simp: query_response_def Let_def sum_bind_Inr selected_array_def)
    moreover have "proper_json data" using data(2) js(1) same_json_proper by blast
    ultimately obtain kvs' where kvs': "se_json env t = Inr (JObj kvs')"
      "\<forall>k. rel_option same_json (map_of ?body k) (map_of kvs' k)" using reread [of ?body t] by auto
    from kvs'(2) [rule_format, of "''ok''"] kvs'(2) [rule_format, of "''data''"]
    obtain data' where ok: "map_of kvs' ''ok'' = Some (JBool True)"
      and data': "map_of kvs' ''data'' = Some data'" "same_json data data'"
      by (auto simp: option_rel_Some1)
    have "?dump data' = Inr (res_output r)"
      using json data(2) data'(2) js(2) unfolding json_library_def by metis
    with ok data' kvs' t rows show ?thesis
      by (simp add: print_response_def as_received_def value_bool_def member_def remote_print_def
          print_result_def selected_array_def)
  next
    case status
    let ?body = "[(''ok'', JBool True), (''text'', JStr (res_output r)), (''affected_rows'', JInt (int (res_affected r)))]"
    from status resp obtain t where t: "?dump (JObj ?body) = Inr t" "rs_body resp = t"
      by (auto simp: query_response_def Let_def sum_bind_Inr selected_array_def)
    with reread [of ?body t] obtain kvs' where kvs': "se_json env t = Inr (JObj kvs')"
      "\<forall>k. rel_option same_json (map_of ?body k) (map_of kvs' k)" by auto
    from kvs'(2) [rule_format, of "''ok''"] kvs'(2) [rule_format, of "''text''"] kvs'(2) [rule_format, of "''data''"]
    have "map_of kvs' ''ok'' = Some (JBool True)" "map_of kvs' ''text'' = Some (JStr (res_output r))"
      "map_of kvs' ''data'' = None"
      by (auto simp: option_rel_Some1)
    with kvs' t status show ?thesis
      by (simp add: print_response_def as_received_def value_bool_def member_def remote_print_def)
  qed
qed

section \<open>What a query answers\<close>

definition answers :: "('a \<Rightarrow> bool) \<Rightarrow> ('s, 'a) op \<Rightarrow> bool" where
  "answers P m \<longleftrightarrow> (\<forall>s r s'. m s = (Inr r, s') \<longrightarrow> P r)"

lemma answers_ret [intro]: "P x \<Longrightarrow> answers P (ret x)"
  by (simp add: answers_def ret_def)

lemma answers_bnd [intro]: "(\<And>x. answers P (f x)) \<Longrightarrow> answers P (bnd m f)"
  by (auto simp: answers_def bnd_def split: prod.splits sum.splits)

lemma answers_andthen [intro]: "answers P n \<Longrightarrow> answers P (andthen m n)"
  by (auto simp: andthen_def)

lemma answers_of_sum: "(\<And>x. r = Inr x \<Longrightarrow> P x) \<Longrightarrow> answers P (of_sum r)"
  by (simp add: answers_def of_sum_def)

lemma answers_on_table: "answers P m \<Longrightarrow> answers P (on_table name m)"
  by (auto simp: answers_def on_table_def op_simps split: option.splits prod.splits)

lemma answers_on_database: "answers P m \<Longrightarrow> answers P (on_database name m)"
  by (auto simp: answers_def on_database_def op_simps split: option.splits prod.splits)

lemma proper_object: "(\<forall>p \<in> set kvs. proper_json (snd p)) \<Longrightarrow> proper_json (json_object kvs)"
proof -
  assume kvs: "\<forall>p \<in> set kvs. proper_json (snd p)"
  have "distinct (map fst (fold (\<lambda>(k, v). AList.update k v) kvs al)) \<and>
    (\<forall>p \<in> set (fold (\<lambda>(k, v). AList.update k v) kvs al). proper_json (snd p))"
    if "distinct (map fst al)" "\<forall>p \<in> set al. proper_json (snd p)" for al
    using kvs that
  proof (induction kvs arbitrary: al)
    case (Cons p kvs)
    obtain k v where p: "p = (k, v)" by force
    have "\<forall>q \<in> set (AList.update k v al). proper_json (snd q)"
      using Cons.prems p by (induction al) (auto split: if_splits)
    with Cons.IH [of "AList.update k v al"] Cons.prems p show ?case by (simp add: distinct_update)
  qed simp
  from this [of "[]"] show ?thesis by (simp add: json_object_def)
qed

lemma proper_row: "proper_json (row_json items r)"
proof -
  have "proper_json (to_json v)" for v by (cases v) auto
  then show ?thesis unfolding row_json_def by (intro proper_object) auto
qed

lemma proper_aggregate: "aggregate_json p = Inr (k, j) \<Longrightarrow> proper_json j"
  by (auto simp: aggregate_json_def sum_json_def avg_json_def Let_def split: prod.splits AggregateFn.splits if_splits)

lemma sum_map_all: "sum_map f xs = Inr ys \<Longrightarrow> \<forall>y \<in> set ys. \<exists>x \<in> set xs. f x = Inr y"
  by (induction xs arbitrary: ys) (fastforce simp: sum_bind_Inr)+

lemma scan_rows_invariant:
  assumes "\<And>i r acc acc'. f i r acc = Inr acc' \<Longrightarrow> P acc \<Longrightarrow> P acc'"
  shows "scan_rows re cond t f is acc = Inr acc' \<Longrightarrow> P acc \<Longrightarrow> P acc'"
  by (induction "is" arbitrary: acc) (auto simp: sum_bind_Inr split: if_splits intro: assms)

lemma select_answers: "answers (answer_text (sq_dump env)) (select_rows env items cond)"
proof -
  have plain: "answer_text (sq_dump env) x" if x: "select_plain env cond t rs rids = Inr x" for t rs rids x
  proof -
    from x obtain rows where rows: "scan_rows (sq_regex env) cond t (\<lambda>i r rows. Inr (rows @ [row_json rs r])) rids [] = Inr rows"
      and "sq_dump env (JArr rows) = Inr (res_output x)" by (auto simp: select_plain_def sum_bind_Inr done_with_def)
    moreover have "\<forall>j \<in> set rows. proper_json j"
      by (rule scan_rows_invariant [OF _ rows, where P = "\<lambda>rows. \<forall>j \<in> set rows. proper_json j"]) (auto simp: proper_row)
    ultimately show ?thesis unfolding answer_text_def by auto
  qed
  have aggregates: "answer_text (sq_dump env) x" if x: "select_aggregates env cond t rs rids = Inr x" for t rs rids x
  proof -
    from x obtain accs row where "sum_map aggregate_json accs = Inr row"
      and dumped: "sq_dump env (JArr [json_object row]) = Inr (res_output x)"
      by (auto simp: select_aggregates_def sum_bind_Inr done_with_def)
    then have "\<forall>p \<in> set row. proper_json (snd p)"
      using sum_map_all proper_aggregate by (metis prod.collapse)
    then have "proper_json (JArr [json_object row])" using proper_object by simp
    with dumped show ?thesis unfolding answer_text_def by blast
  qed
  show ?thesis
    unfolding select_rows_def by (intro answers_bnd answers_of_sum) (auto split: if_splits dest: plain aggregates)
qed

lemma answer_status: "text = [] \<or> hd text \<noteq> CHR ''['' \<Longrightarrow> answer_text dump (done_with text n)"
  by (auto simp: answer_text_def selected_array_def done_with_def)

lemma answer_failed: "answer_text dump (failed_with msg)"
  by (simp add: answer_text_def selected_array_def failed_with_def)

lemma change_table_answers: "verb \<noteq> [] \<Longrightarrow> hd verb \<noteq> CHR ''['' \<Longrightarrow> answers (answer_text dump) (change_table env ref m verb)"
  unfolding change_table_def by (intro answers_bnd answers_ret answer_status) auto

lemma exec_answers: "answers (answer_text (sq_dump env)) (exec_statement env stmt)"
proof (cases stmt)
  case (SelectStmt ref items cond)
  then show ?thesis
    by (auto simp: exec_select_def at_table_def intro!: answers_on_database answers_on_table select_answers)
qed (auto simp: exec_create_database_def exec_drop_database_def exec_use_def exec_create_table_def
    exec_drop_table_def exec_insert_def exec_update_def exec_delete_def
    intro!: answers_andthen answers_bnd answers_ret answer_status change_table_answers)

lemma run_query_answers:
  assumes "run_query env parse sql d = (Inr r, d')"
  shows "answer_text (sq_dump env) r"
proof -
  have "answers (answer_text (sq_dump env)) (execute env stmt)" for stmt
    using exec_answers [of env stmt] answer_failed
    by (auto simp: answers_def execute_def split: prod.splits sum.splits option.splits)
  then have "answers (answer_text (sq_dump env)) (run_query env parse sql)"
    by (auto simp: run_query_def answer_failed intro!: answer_status split: sum.splits)
  with assms show ?thesis unfolding answers_def by blast
qed

section \<open>A query over the network\<close>

text \<open>
  The answer of Crow to a request: its head, in the form HTTP has, and the body of the handler,
  cut into pieces by the network.
\<close>

definition carries :: "string list \<Rightarrow> http_response \<Rightarrow> bool" where
  "carries segs resp \<longleftrightarrow>
     (\<exists>reason early late.
        concat segs = response_head (head_lines (rs_status resp) reason early (length (rs_body resp)) late) @ rs_body resp \<and>
        (\<forall>l \<in> set (early @ late). line_ok l) \<and> CHR 0x0D \<notin> set reason \<and>
        (\<forall>l \<in> set early. \<not> names_length l) \<and>
        \<not> names_length (''HTTP/1.1 '' @ nat_str (rs_status resp) @ '' '' @ reason))
     \<and> no_empty segs \<and> length (rs_body resp) < 2 ^ 63"

lemma query_status: "query_response env r = Inr resp \<Longrightarrow> rs_status resp \<in> {200, 400, 500}"
  by (auto simp: query_response_def Let_def sum_bind_Inr split: if_splits sum.splits)

lemma carried_response: "carries segs resp \<Longrightarrow> rs_status resp < 2 ^ 31 \<Longrightarrow> read_response segs = Inr (Some (as_received resp))"
  unfolding carries_def as_received_def
  by (elim conjE exE) (rule read_response_pieces [where rest = "[]"], simp_all)

lemma zoom_run: "zoom get put m s = (fst (m (get s)), put (snd (m (get s))) s)"
  by (simp add: zoom_def split: prod.splits)

text \<open>What the handler does when it answers.\<close>

lemma handle_query_run:
  assumes "handle_query env thread rt req s = (Inr resp, s')"
  obtains r d' where
    "run_query (se_sql env) (se_parse env) (normalise_sql (rq_body req)) (sv_dbms s) = (Inr r, d')"
    "sv_dbms s' = d'" "query_response env r = Inr resp"
    "snd (observe (rt_s0 rt) (rt_s1 rt) (res_ok r) (sv_telemetry s)) = sv_telemetry s'"
  using assms
  by (auto simp: handle_query_def Let_def bnd_def andthen_def serve_dbms_def serve_log_def serve_telemetry_def
      zoom_def of_sum_def observe_def modify_def next_request_id_def gets_def
      split: prod.splits sum.splits)

end
