(* ===== verification/Front_Results.thy ===== *)
theory Front_Results
  imports Splitter_Correct Telemetry_Correct Remote
begin

text \<open>
  The results about the programs in front of the executor: how input is cut into statements,
  what the metrics count, and what a client gets of a query.
\<close>

section \<open>Cutting the input\<close>

text \<open>C36: The splitter returns a text with its final semicolon exactly when the text is a list of
  characters, strings and comments followed by a semicolon: no semicolon inside a string or a
  comment ends a statement, and every other one does.\<close>

theorem splitter_respects_strings_and_comments:
  "next_loop Code [] input = (True, s, rest) \<longleftrightarrow>
   (\<exists>items. items_ok items \<and> s = sql_text items \<and> input = s @ rest)"
  by (rule statement_found_iff)

text \<open>C37: The pieces of the local program are the whole input but blanks at the end. The client
  sends the same pieces in the same order until one cannot be sent, but never a last piece
  without a semicolon.\<close>

theorem client_sends_complete_statements:
  "client_loop post Code [] input = post_all post (complete_statements input) \<and>
   (statements input = complete_statements input \<or>
    (\<exists>p. statements input = complete_statements input @ [p])) \<and>
   (\<exists>tail. blank tail \<and> input = concat (statements input) @ tail)"
  using client_posts_all statements_complete statements_cover by blast

section \<open>Metrics\<close>

text \<open>C38: In whatever order threads observe their requests, a snapshot counts exactly the requests
  of the last second, the failed ones of the last minute, and all of them since the start.\<close>

theorem snapshot_counts_requests:
  assumes "\<forall>r \<in> set rs. finish_time r \<le> now"
  shows "\<exists>s t'. andthen (observe_all rs) (take_snapshot now) new_telemetry = (Inr s, t') \<and>
    current_rps s = length (filter (\<lambda>r. now - finish_time r \<le> second) rs) \<and>
    errors_1m s = word_of_nat (length (filter (\<lambda>r. now - finish_time r \<le> 60 * second \<and> \<not> answered_ok r) rs)) \<and>
    total_requests s = word_of_nat (length rs) \<and>
    total_errors s = word_of_nat (length (filter (\<lambda>r. \<not> answered_ok r) rs))"
proof -
  obtain t where t: "observe_all rs new_telemetry = (Inr (), t)"
    "tm_requests t = tm_requests new_telemetry + word_of_nat (length rs)"
    "tm_errors t = tm_errors new_telemetry + word_of_nat (length (filter (\<lambda>r. \<not> answered_ok r) rs))"
    "\<And>P now. (\<And>e :: telemetry_entry. P e \<Longrightarrow> now - te_when e \<le> 600 * second) \<Longrightarrow>
       (\<And>r. r \<in> set rs \<Longrightarrow> finish_time r \<le> now) \<Longrightarrow>
       filter P (tm_window t) = filter P (tm_window new_telemetry @ map entry_of rs)"
    using observe_all_run by metis
  obtain s where s: "take_snapshot now t = (Inr s, t\<lparr>tm_window := prune_locked now (tm_window t)\<rparr>)"
    "current_rps s = length (filter (\<lambda>e. now - te_when e \<le> second) (tm_window t))"
    "errors_1m s = word_of_nat (length (filter (\<lambda>e. now - te_when e \<le> 60 * second \<and> \<not> te_ok e) (tm_window t)))"
    "total_requests s = tm_requests t" "total_errors s = tm_errors t"
    by (rule snapshot_run)
  have "filter (\<lambda>e. now - te_when e \<le> second) (tm_window t) =
      filter (\<lambda>e. now - te_when e \<le> second) (map entry_of rs)"
    and "filter (\<lambda>e. now - te_when e \<le> 60 * second \<and> \<not> te_ok e) (tm_window t) =
      filter (\<lambda>e. now - te_when e \<le> 60 * second \<and> \<not> te_ok e) (map entry_of rs)"
    using t(4) [of "\<lambda>e. now - te_when e \<le> second" now]
      t(4) [of "\<lambda>e. now - te_when e \<le> 60 * second \<and> \<not> te_ok e" now] assms
    by (simp_all add: new_telemetry_def)
  with s t show ?thesis
    by (simp add: andthen_def bnd_def new_telemetry_def filter_map comp_def)
qed

theorem snapshot_counts_requests_witness:
  "\<exists>s t'. andthen (observe_all [(0, 5 * second, True), (0, 4 * second, False)]) (take_snapshot (5 * second))
      new_telemetry = (Inr s, t') \<and> current_rps s = 2 \<and> errors_1m s = 1 \<and> total_requests s = 2"
  using snapshot_counts_requests [of "[(0, 5 * second, True), (0, 4 * second, False)]" "5 * second"]
  by (auto simp: numeral_eq_Suc)

section \<open>Queries over HTTP\<close>

text \<open>C39: The client reads status and body of an answer, whatever its other header fields are and
  however the network cuts it into pieces. The status fits an \<open>int\<close>, the length of the body a
  \<open>long\<close>.\<close>

theorem answer_is_reassembled:
  assumes "no_empty segs"
    and "concat segs = response_head (head_lines code reason early (length body) late) @ body @ rest"
    and "\<forall>l \<in> set (early @ late). line_ok l" and "CHR 0x0D \<notin> set reason"
    and "\<forall>l \<in> set early. \<not> names_length l"
    and "\<not> names_length (''HTTP/1.1 '' @ nat_str code @ '' '' @ reason)"
    and "length body < 2 ^ 63" and "code < 2 ^ 31"
  shows "read_response segs = Inr (Some \<lparr>hr_status = int code, hr_body = body\<rparr>)"
  using assms by (rule read_response_pieces)

definition some_answer :: "string list" where
  "some_answer =
     [''HTTP/1.1 2'', ''00 OK'' @ [CHR 0x0D], [CHR 0x0A] @ ''Server: Crow'' @ crlf @ ''Content-'', ''Length: 2'' @ crlf @ crlf @ ''{'', ''}'']"

theorem answer_is_reassembled_witness:
  "read_response some_answer = Inr (Some \<lparr>hr_status = 200, hr_body = ''{}''\<rparr>)"
proof -
  have num: "nat_str 200 = ''200''" "nat_str (Suc (Suc 0)) = ''2''" by code_simp+
  have parts: "no_empty some_answer"
    "concat some_answer = response_head (head_lines 200 ''OK'' [''Server: Crow''] (length ''{}'') []) @ ''{}'' @ []"
    by (simp_all add: some_answer_def no_empty_def response_head_def head_lines_def num)
  have names: "\<not> names_length ''Server: Crow''" "\<not> names_length (''HTTP/1.1 '' @ ''200'' @ '' '' @ ''OK'')" by code_simp+
  show ?thesis
    using answer_is_reassembled [OF parts] names by (simp add: line_ok_def num)
qed

text \<open>C40: A query sent to the server changes the databases as running it does, is counted once, and
  the client prints of its result what the local program prints, but for the mark before a
  status text.\<close>

theorem query_over_http:
  assumes json: "json_library (sq_dump (se_sql env)) (se_json env)"
    and connection: "nw_connect net host port s = (Some ks, s)" "send_all ks (request_text host port sql)"
    and handled: "handle_query env thread rt \<lparr>rq_remote = ip, rq_body = sql\<rparr> s = (Inr resp, s')"
    and reply: "nw_reply net (request_text host port sql) s = (segs, s')" "carries segs resp"
  shows "\<exists>r d'. run_query (se_sql env) (se_parse env) (normalise_sql sql) (sv_dbms s) = (Inr r, d') \<and>
    client_post env net host port sql (s, out) = (Inr True, (s', out @ [remote_print r])) \<and>
    sv_dbms s' = d' \<and> tm_requests (sv_telemetry s') = tm_requests (sv_telemetry s) + 1"
proof -
  obtain r d' where run: "run_query (se_sql env) (se_parse env) (normalise_sql sql) (sv_dbms s) = (Inr r, d')"
    "sv_dbms s' = d'" "query_response env r = Inr resp"
    "snd (observe (rt_s0 rt) (rt_s1 rt) (res_ok r) (sv_telemetry s)) = sv_telemetry s'"
    using handle_query_run [OF handled] by auto
  have "print_response env (as_received resp) = Inr [remote_print r]"
    using reply_printed [OF json run_query_answers [OF run(1)] run(3)] .
  moreover have "http_post_query net host port sql s = (Inr (Some (as_received resp)), s')"
    using connection reply query_status [OF run(3)] by (auto simp: http_post_query_def carried_response)
  ultimately have "client_post env net host port sql (s, out) = (Inr True, (s', out @ [remote_print r]))"
    by (simp add: client_post_def op_simps)
  moreover from run(4) have "tm_requests (sv_telemetry s') = tm_requests (sv_telemetry s) + 1"
    by (auto simp: observe_def modify_def dest!: sym [of _ "sv_telemetry s'"])
  ultimately show ?thesis using run by blast
qed

text \<open>A server without databases, a JSON library for one document, and a statement that fails.\<close>

definition no_database :: json where
  "no_database = JObj [(''ok'', JBool False), (''error'', JStr (''Unknown database '' @ quoted ''x''))]"

definition no_database_env :: server_env where
  "no_database_env =
     \<lparr>se_sql = \<lparr>sq_regex = (\<lambda>_ _. Inr False),
        sq_dump = (\<lambda>j. if j = no_database then Inr ''{error}'' else Inl Undefined_behaviour),
        sq_io = \<lparr>io_openable = (\<lambda>_. True), io_writable = (\<lambda>_. True), io_faults = (\<lambda>_. []),
          io_memory = \<lparr>env_budget = None, meminfo = None\<rparr>\<rparr>\<rparr>,
      se_parse = (\<lambda>_. Inr (UseStmt ''x'')),
      se_json = (\<lambda>t. if t = ''{error}'' then Inr no_database else Inl ''parse error'')\<rparr>"

definition fresh_server :: server where
  "fresh_server =
     \<lparr>sv_dbms = new_dbms ''data'' [], sv_log = \<lparr>lg_out = None, lg_files = (\<lambda>_. []), lg_next = 0\<rparr>,
      sv_telemetry = new_telemetry, sv_running = True\<rparr>"

definition midnight :: request_times where
  "midnight = \<lparr>rt_t0 = 0, rt_t1 = 0, rt_s0 = 0, rt_s1 = 0\<rparr>"

definition failed_use :: "(error + http_response) \<times> server" where
  "failed_use = handle_query no_database_env ''1'' midnight \<lparr>rq_remote = ''::1'', rq_body = ''USE x;''\<rparr> fresh_server"

definition use_reply :: http_response where
  "use_reply = \<lparr>rs_status = 400, rs_body = ''{error}'', rs_type = Some ''application/json''\<rparr>"

definition use_segments :: "string list" where
  "use_segments = [response_head (head_lines 400 ''Bad Request'' [] (length ''{error}'') []), ''{error}'']"

definition use_network :: "server network" where
  "use_network =
     \<lparr>nw_connect = (\<lambda>_ _ s. (Some [length (request_text ''127.0.0.1'' 5432 ''USE x;'')], s)), nw_reply = (\<lambda>_ _. (use_segments, snd failed_use))\<rparr>"

lemma no_database_library:
  "json_library (sq_dump (se_sql no_database_env)) (se_json no_database_env)"
proof -
  have same: "same_json no_database j \<longleftrightarrow> j = no_database" "same_json j no_database \<longleftrightarrow> j = no_database" for j
    by (cases j; auto simp: no_database_def list_all2_Cons1 list_all2_Cons2)+
  then show ?thesis
    unfolding json_library_def by (auto simp: no_database_env_def split: if_splits) (auto simp: no_database_def)
qed

lemma failed_use_run: "failed_use = (Inr use_reply, snd failed_use)"
proof -
  obtain r where r: "r = failed_with (''Unknown database '' @ quoted ''x'')" by simp
  have sql: "normalise_sql ''USE x;'' = ''USE x;''" by code_simp
  have run: "run_query (se_sql no_database_env) (se_parse no_database_env) ''USE x;'' (new_dbms ''data'' []) =
      (Inr r, new_dbms ''data'' [])"
    by (simp add: r run_query_def parser_eof_def is_space_def execute_def no_database_env_def)
      (simp add: exec_use_def use_database_def require_database_def on_database_def new_dbms_def
        op_simps unknown_database_def)
  have reply: "query_response no_database_env r = Inr use_reply"
    by (simp add: r query_response_def no_database_env_def no_database_def failed_with_def use_reply_def)
  show ?thesis
    by (simp add: failed_use_def handle_query_def sql)
      (simp add: Let_def op_simps serve_log_def serve_dbms_def serve_telemetry_def next_request_id_def log_request_def
        observe_def fresh_server_def run reply)
qed

lemma use_carried: "carries use_segments use_reply"
proof -
  have "\<not> names_length (''HTTP/1.1 '' @ nat_str 400 @ '' '' @ ''Bad Request'')" by code_simp
  then show ?thesis
    unfolding carries_def
    by (auto simp: use_segments_def use_reply_def no_empty_def response_head_def
        intro!: exI [of _ "''Bad Request''"] exI [of _ "[] :: string list"])
qed

lemma send_all_once: "send_all [length p] p"
  by (cases p) auto

theorem query_over_http_witness:
  "\<exists>r d'. run_query (se_sql no_database_env) (se_parse no_database_env) ''USE x;'' (new_dbms ''data'' []) = (Inr r, d') \<and>
     client_post no_database_env use_network ''127.0.0.1'' 5432 ''USE x;'' (fresh_server, []) =
       (Inr True, (snd failed_use, [remote_print r]))"
proof -
  have "normalise_sql ''USE x;'' = ''USE x;''" by code_simp
  moreover have sent: "send_all [length (request_text ''127.0.0.1'' 5432 ''USE x;'')] (request_text ''127.0.0.1'' 5432 ''USE x;'')"
    by (rule send_all_once)
  have "nw_connect use_network ''127.0.0.1'' 5432 fresh_server =
      (Some [length (request_text ''127.0.0.1'' 5432 ''USE x;'')], fresh_server)"
    and "nw_reply use_network (request_text ''127.0.0.1'' 5432 ''USE x;'') fresh_server = (use_segments, snd failed_use)"
    by (simp_all only: use_network_def network.simps)
  from query_over_http [OF no_database_library this(1) sent failed_use_run [unfolded failed_use_def] _ use_carried, of "[]"] this(2)
  have "\<exists>r d'. run_query (se_sql no_database_env) (se_parse no_database_env) (normalise_sql ''USE x;'') (sv_dbms fresh_server) = (Inr r, d') \<and>
     client_post no_database_env use_network ''127.0.0.1'' 5432 ''USE x;'' (fresh_server, []) =
       (Inr True, (snd failed_use, [] @ [remote_print r]))" unfolding failed_use_def by blast
  ultimately show ?thesis by (simp only: fresh_server_def server.simps append_Nil)
qed

end
