(* ===== verification/Regex.thy ===== *)
theory Regex
  imports Prelude
begin

text \<open>
  The patterns of a scanner: regular expressions, their language, and the length of the longest
  prefix of a text that a pattern matches. The length is computed by derivatives, so that the
  rules of a scanner can be run; the language is what the rules mean.
\<close>

datatype rexp =
    Never
  | Empty
  | OneOf "char \<Rightarrow> bool"
  | Either rexp rexp
  | Seq rexp rexp
  | Many rexp

inductive in_rexp :: "string \<Rightarrow> rexp \<Rightarrow> bool" where
  in_Empty: "in_rexp [] Empty"
| in_OneOf: "P c \<Longrightarrow> in_rexp [c] (OneOf P)"
| in_left: "in_rexp s r \<Longrightarrow> in_rexp s (Either r r')"
| in_right: "in_rexp s r' \<Longrightarrow> in_rexp s (Either r r')"
| in_Seq: "in_rexp s r \<Longrightarrow> in_rexp t r' \<Longrightarrow> in_rexp (s @ t) (Seq r r')"
| in_none: "in_rexp [] (Many r)"
| in_more: "in_rexp s r \<Longrightarrow> in_rexp t (Many r) \<Longrightarrow> in_rexp (s @ t) (Many r)"

text \<open>A text, one pattern at least once, a pattern that may be absent, a character other than some.\<close>

fun word_rx :: "string \<Rightarrow> rexp" where
  "word_rx [] = Empty"
| "word_rx [c] = OneOf (\<lambda>d. d = c)"
| "word_rx (c # cs) = Seq (OneOf (\<lambda>d. d = c)) (word_rx cs)"

definition Some_of :: "rexp \<Rightarrow> rexp" where
  "Some_of r = Seq r (Many r)"

definition Maybe :: "rexp \<Rightarrow> rexp" where
  "Maybe r = Either r Empty"

definition Except :: "string \<Rightarrow> rexp" where
  "Except cs = OneOf (\<lambda>c. c \<notin> set cs)"

definition Any_of :: "string \<Rightarrow> rexp" where
  "Any_of cs = OneOf (\<lambda>c. c \<in> set cs)"

fun nullable :: "rexp \<Rightarrow> bool" where
  "nullable Never = False"
| "nullable Empty = True"
| "nullable (OneOf P) = False"
| "nullable (Either r s) = (nullable r \<or> nullable s)"
| "nullable (Seq r s) = (nullable r \<and> nullable s)"
| "nullable (Many r) = True"

text \<open>Sums and sequences without what never matches, to keep derivatives small.\<close>

fun either :: "rexp \<Rightarrow> rexp \<Rightarrow> rexp" where
  "either Never s = s"
| "either r Never = r"
| "either r s = Either r s"

fun seq :: "rexp \<Rightarrow> rexp \<Rightarrow> rexp" where
  "seq Never s = Never"
| "seq Empty s = s"
| "seq r s = Seq r s"

fun deriv :: "char \<Rightarrow> rexp \<Rightarrow> rexp" where
  "deriv c Never = Never"
| "deriv c Empty = Never"
| "deriv c (OneOf P) = (if P c then Empty else Never)"
| "deriv c (Either r s) = either (deriv c r) (deriv c s)"
| "deriv c (Seq r s) =
     (if nullable r then either (seq (deriv c r) s) (deriv c s) else seq (deriv c r) s)"
| "deriv c (Many r) = seq (deriv c r) (Many r)"

text \<open>The length of the longest prefix that a pattern matches.\<close>

definition empty_match :: "rexp \<Rightarrow> nat option" where
  "empty_match r = (if nullable r then Some 0 else None)"

fun match_len :: "rexp \<Rightarrow> string \<Rightarrow> nat option" where
  "match_len r [] = empty_match r"
| "match_len Never (c # cs) = None"
| "match_len r (c # cs) =
     (case match_len (deriv c r) cs of Some n \<Rightarrow> Some (Suc n) | None \<Rightarrow> empty_match r)"

section \<open>Derivatives and the language\<close>

inductive_simps in_rexp_simps [simp]:
  "in_rexp s Never" "in_rexp s Empty" "in_rexp s (OneOf P)" "in_rexp s (Either r r')"

inductive_cases in_SeqE: "in_rexp s (Seq r r')"
inductive_cases in_ManyE: "in_rexp s (Many r)"

lemma in_Seq_iff: "in_rexp s (Seq r r') \<longleftrightarrow> (\<exists>t u. s = t @ u \<and> in_rexp t r \<and> in_rexp u r')"
  by (auto intro: in_Seq elim!: in_SeqE)

lemma in_Many_Cons:
  "in_rexp (c # cs) (Many r) \<longleftrightarrow> (\<exists>t u. cs = t @ u \<and> in_rexp (c # t) r \<and> in_rexp u (Many r))"
proof
  assume "in_rexp (c # cs) (Many r)"
  then show "\<exists>t u. cs = t @ u \<and> in_rexp (c # t) r \<and> in_rexp u (Many r)"
    by (induction "c # cs" "Many r") (auto simp: append_eq_Cons_conv)
next
  assume "\<exists>t u. cs = t @ u \<and> in_rexp (c # t) r \<and> in_rexp u (Many r)"
  then show "in_rexp (c # cs) (Many r)" using in_more by fastforce
qed

lemma nullable_iff: "nullable r \<longleftrightarrow> in_rexp [] r"
  by (induction r) (auto simp: in_Seq_iff intro: in_none)

lemma in_either [simp]: "in_rexp s (either r r') \<longleftrightarrow> in_rexp s r \<or> in_rexp s r'"
  by (cases "(r, r')" rule: either.cases) auto

lemma in_seq [simp]: "in_rexp s (seq r r') \<longleftrightarrow> in_rexp s (Seq r r')"
  by (cases "(r, r')" rule: seq.cases) (auto simp: in_Seq_iff)

lemma in_deriv: "in_rexp s (deriv c r) \<longleftrightarrow> in_rexp (c # s) r"
proof (induction r arbitrary: s)
  case (Seq r r')
  have "in_rexp (c # s) (Seq r r') \<longleftrightarrow>
      (\<exists>t u. s = t @ u \<and> in_rexp (c # t) r \<and> in_rexp u r') \<or> in_rexp [] r \<and> in_rexp (c # s) r'"
    by (auto simp: in_Seq_iff Cons_eq_append_conv)
  then show ?case using Seq by (auto simp: in_Seq_iff nullable_iff)
qed (auto simp: in_Many_Cons in_Seq_iff)

lemma match_len_Cons:
  "match_len r (c # cs) =
     (case match_len (deriv c r) cs of Some n \<Rightarrow> Some (Suc n) | None \<Rightarrow> empty_match r)"
proof (cases r)
  case Never
  have "match_len Never cs = None" by (cases cs) (simp_all add: empty_match_def)
  with Never show ?thesis by (simp add: empty_match_def)
qed (hypsubst, simp)+

text \<open>What \<open>match_len\<close> answers: the longest prefix in the language, or that there is none.\<close>

lemma match_len_None: "match_len r s = None \<longleftrightarrow> (\<forall>m \<le> length s. \<not> in_rexp (take m s) r)"
proof (induction s arbitrary: r)
  case Nil
  show ?case by (simp add: empty_match_def nullable_iff)
next
  case (Cons c cs)
  have "(\<forall>m \<le> length (c # cs). \<not> in_rexp (take m (c # cs)) r) \<longleftrightarrow>
      \<not> in_rexp [] r \<and> (\<forall>m \<le> length cs. \<not> in_rexp (c # take m cs) r)"
    by (simp add: All_less_Suc2 flip: less_Suc_eq_le)
  moreover have "match_len (deriv c r) cs = None \<longleftrightarrow> (\<forall>m \<le> length cs. \<not> in_rexp (c # take m cs) r)"
    by (simp add: Cons in_deriv)
  ultimately show ?case
    by (cases "match_len (deriv c r) cs") (auto simp: match_len_Cons empty_match_def nullable_iff)
qed

lemma match_len_Some:
  assumes "match_len r s = Some n"
  shows "n \<le> length s \<and> in_rexp (take n s) r \<and> (\<forall>m. n < m \<longrightarrow> m \<le> length s \<longrightarrow> \<not> in_rexp (take m s) r)"
  using assms
proof (induction s arbitrary: r n)
  case Nil
  then show ?case by (auto simp: empty_match_def nullable_iff split: if_splits)
next
  case (Cons c cs)
  show ?case
  proof (cases "match_len (deriv c r) cs")
    case None
    then have "n = 0" "in_rexp [] r" using Cons.prems
      by (auto simp: match_len_Cons empty_match_def nullable_iff split: if_splits)
    moreover have "\<not> in_rexp (take m (c # cs)) r" if "0 < m" "m \<le> length (c # cs)" for m
      using None that unfolding match_len_None by (cases m) (auto simp: in_deriv)
    ultimately show ?thesis by simp
  next
    case (Some k)
    then have n: "n = Suc k" using Cons.prems by (simp add: match_len_Cons)
    have k: "k \<le> length cs" "in_rexp (c # take k cs) r"
      "\<And>m. k < m \<Longrightarrow> m \<le> length cs \<Longrightarrow> \<not> in_rexp (c # take m cs) r"
      using Cons.IH [OF Some] by (auto simp: in_deriv)
    have "\<not> in_rexp (take m (c # cs)) r" if "n < m" "m \<le> length (c # cs)" for m
      using k(3) [of "m - 1"] that n by (cases m) auto
    with k n show ?thesis by simp
  qed
qed

lemma match_len_iff:
  "match_len r s = Some n \<longleftrightarrow>
     n \<le> length s \<and> in_rexp (take n s) r \<and> (\<forall>m. n < m \<longrightarrow> m \<le> length s \<longrightarrow> \<not> in_rexp (take m s) r)"
proof
  assume n: "n \<le> length s \<and> in_rexp (take n s) r \<and> (\<forall>m. n < m \<longrightarrow> m \<le> length s \<longrightarrow> \<not> in_rexp (take m s) r)"
  then obtain k where k: "match_len r s = Some k" using match_len_None [of r s] by (cases "match_len r s") auto
  with match_len_Some [OF k] n show "match_len r s = Some n" by (metis linorder_cases)
qed (rule match_len_Some)

section \<open>Rules\<close>

text \<open>
  A scanner takes the rule with the longest match, and of those the first. The answer is the
  length of the match and what the rule does.
\<close>

fun best_match :: "(rexp \<times> 'a) list \<Rightarrow> string \<Rightarrow> (nat \<times> 'a) option" where
  "best_match [] s = None"
| "best_match ((r, a) # rules) s =
     (case match_len r s of
        None \<Rightarrow> best_match rules s
      | Some n \<Rightarrow>
          (case best_match rules s of
             None \<Rightarrow> Some (n, a)
           | Some (m, b) \<Rightarrow> if m \<le> n then Some (n, a) else Some (m, b)))"

lemma best_match_None: "best_match rules s = None \<longleftrightarrow> (\<forall>(r, a) \<in> set rules. match_len r s = None)"
  by (induction rules s rule: best_match.induct) (auto split: option.splits)

lemma best_match_is_longest_first:
  assumes "best_match rules s = Some (n, a)"
  shows "\<exists>i < length rules. snd (rules ! i) = a \<and> match_len (fst (rules ! i)) s = Some n \<and>
      (\<forall>j < length rules. \<forall>m. match_len (fst (rules ! j)) s = Some m \<longrightarrow> m \<le> n \<and> (m = n \<longrightarrow> i \<le> j))"
  using assms
proof (induction rules arbitrary: n a)
  case (Cons rule rules)
  obtain r b where [simp]: "rule = (r, b)" by (cases rule)
  show ?case
  proof (cases "best_match rules s")
    case None
    then have "match_len r s = Some n" "b = a" using Cons.prems by (auto split: option.splits)
    moreover have "match_len (fst (rules ! j)) s = None" if "j < length rules" for j
      using None nth_mem [OF that] unfolding best_match_None by (auto simp: case_prod_unfold)
    ultimately show ?thesis by (intro exI [of _ 0]) (auto simp: nth_Cons split: nat.splits)
  next
    case (Some x)
    then obtain m c where x: "best_match rules s = Some (m, c)" by (cases x) auto
    from Cons.IH [OF this] obtain i where i: "i < length rules" "snd (rules ! i) = c" "match_len (fst (rules ! i)) s = Some m"
      "\<And>j k. j < length rules \<Longrightarrow> match_len (fst (rules ! j)) s = Some k \<Longrightarrow> k \<le> m \<and> (k = m \<longrightarrow> i \<le> j)" by blast
    show ?thesis
    proof (cases "\<exists>k. match_len r s = Some k \<and> m \<le> k")
      case True
      then have "match_len r s = Some n" "b = a" "m \<le> n" using Cons.prems x by auto
      moreover have "k \<le> m" if "j < length rules" "match_len (fst (rules ! j)) s = Some k" for j k using i(4) that by blast
      ultimately show ?thesis
        by (intro exI [of _ 0]) (auto simp: nth_Cons split: nat.splits intro: le_trans)
    next
      case False
      then have "n = m" "a = c" using Cons.prems x by (auto split: option.splits)
      with i False show ?thesis
        by (intro exI [of _ "Suc i"]) (auto simp: nth_Cons split: nat.splits)
    qed
  qed
qed simp

lemma best_match_le: "best_match rules s = Some (n, a) \<Longrightarrow> n \<le> length s"
  by (induction rules s arbitrary: n a rule: best_match.induct)
     (auto split: option.splits if_splits dest: match_len_Some)

text \<open>Rules that do not match the empty text never do nothing.\<close>

lemma best_match_pos:
  assumes "best_match rules s = Some (n, a)" and "\<forall>(r, b) \<in> set rules. \<not> nullable r"
  shows "0 < n"
proof (rule ccontr)
  assume "\<not> 0 < n"
  with best_match_is_longest_first [OF assms(1)] obtain i where
    i: "i < length rules" "match_len (fst (rules ! i)) s = Some 0" by auto
  then have "in_rexp [] (fst (rules ! i))" using match_len_Some by fastforce
  with assms(2) nth_mem [OF i(1)] show False by (auto simp: nullable_iff)
qed

end
