(* ===== verification/Scanner.thy ===== *)
theory Scanner
  imports Regex Ast BulkGuard
begin

text \<open>
  The scanner (src/sql/grammar/sql.l): its rules in their order, what each does, and the loop of
  \<open>yylex\<close>, as flex makes it: the rule with the longest match runs, and of those the first. The
  rules keep the place they have reached in the line and the column of the parse context, where
  an error leaves its place too.
\<close>

section \<open>Tokens\<close>

datatype keyword =
    CREATE | DATABASE_KW | DROP | USE | TABLE | INSERT | INTO | VALUE_KW | UPDATE | SET | WHERE
  | DELETE | FROM | SELECT | AS | NOT_NULL | INDEXED | DEFAULT | AND_KW | OR_KW | BETWEEN | LIKE
  | INT_KW | STRING_KW | SUM_KW | COUNT | AVG | NULL_KW

datatype token =
    INT_LIT "64 word"
  | STRING_LIT string
  | IDENT string
  | Keyword keyword string
  | LPAREN | RPAREN | COMMA | SEMI | DOT | STAR
  | EQEQ | EQ | NEQ | LT | GT | LEQ | GEQ
  | LEX_ERROR
  | YYEOF

definition kw_table :: "(string \<times> keyword) list" where
  "kw_table =
     [(''create'', CREATE), (''database'', DATABASE_KW), (''drop'', DROP), (''use'', USE),
      (''table'', TABLE), (''insert'', INSERT), (''into'', INTO), (''value'', VALUE_KW),
      (''values'', VALUE_KW), (''update'', UPDATE), (''set'', SET), (''where'', WHERE),
      (''delete'', DELETE), (''from'', FROM), (''select'', SELECT), (''as'', AS),
      (''not_null'', NOT_NULL), (''indexed'', INDEXED), (''default'', DEFAULT), (''and'', AND_KW),
      (''or'', OR_KW), (''between'', BETWEEN), (''like'', LIKE), (''int'', INT_KW),
      (''integer'', INT_KW), (''string'', STRING_KW), (''sum'', SUM_KW), (''count'', COUNT),
      (''avg'', AVG), (''null'', NULL_KW)]"

definition keyword_kind :: "string \<Rightarrow> keyword option" where
  "keyword_kind lower = map_of kw_table lower"

section \<open>The parse context\<close>

record parse_context =
  pc_result :: "Statement option"
  pc_error_msg :: string
  pc_line :: nat
  pc_column :: nat
  pc_lex_error :: bool

definition new_context :: parse_context where
  "new_context = \<lparr>pc_result = None, pc_error_msg = [], pc_line = 0, pc_column = 0, pc_lex_error = False\<rparr>"

record location =
  first_line :: nat
  first_column :: nat
  last_line :: nat
  last_column :: nat

text \<open>Line and column are zero until the first rule runs.\<close>

definition yyextra_col_line :: "parse_context \<Rightarrow> nat \<times> parse_context" where
  "yyextra_col_line ctx =
     (let ctx = (if pc_line ctx = 0 then ctx\<lparr>pc_line := 1, pc_column := 1\<rparr> else ctx) in (pc_line ctx, ctx))"

definition yyextra_col_col :: "parse_context \<Rightarrow> nat \<times> parse_context" where
  "yyextra_col_col ctx =
     (let ctx = (if pc_column ctx = 0 then ctx\<lparr>pc_column := 1\<rparr> else ctx) in (pc_column ctx, ctx))"

definition yyextra_col_advance :: "nat \<Rightarrow> parse_context \<Rightarrow> parse_context" where
  "yyextra_col_advance n ctx = ctx\<lparr>pc_column := pc_column ctx + n\<rparr>"

definition yyextra_col_newline :: "parse_context \<Rightarrow> parse_context" where
  "yyextra_col_newline ctx = ctx\<lparr>pc_line := pc_line ctx + 1, pc_column := 1\<rparr>"

text \<open>What runs before every action: the place of the match.\<close>

definition yy_user_action :: "nat \<Rightarrow> parse_context \<Rightarrow> location \<times> parse_context" where
  "yy_user_action yyleng ctx =
     (case yyextra_col_line ctx of (line, ctx) \<Rightarrow>
      case yyextra_col_col ctx of (col, ctx) \<Rightarrow>
      case yyextra_col_col (yyextra_col_advance yyleng ctx) of (end_col, ctx) \<Rightarrow>
        (\<lparr>first_line = line, first_column = col, last_line = line, last_column = end_col\<rparr>, ctx))"

section \<open>Actions\<close>

text \<open>\<open>decode_string\<close>: without the quotes, escapes replaced. The second argument is what is inside.\<close>

definition escaped :: "char \<Rightarrow> char" where
  "escaped e =
     (if e = CHR ''n'' then CHR 0x0A else if e = CHR ''t'' then CHR 0x09
      else if e = CHR ''r'' then CHR 0x0D else e)"

fun decode_body :: "string \<Rightarrow> string" where
  "decode_body [] = []"
| "decode_body [c] = [c]"
| "decode_body (c # e # cs) =
     (if c = CHR 0x5C then escaped e # decode_body cs else c # decode_body (e # cs))"

definition decode_string :: "string \<Rightarrow> string" where
  "decode_string yytext = decode_body (butlast (tl yytext))"

text \<open>\<open>std::strtoll\<close> of a number: what does not fit becomes the nearest that does.\<close>

definition strtoll :: "string \<Rightarrow> 64 word" where
  "strtoll s =
     (let i = (if s \<noteq> [] \<and> hd s = CHR ''-'' then - int (digits_val (tl s)) else int (digits_val s))
      in word_of_int (max (- (2 ^ 63)) (min (2 ^ 63 - 1) i)))"

definition is_upper :: "char \<Rightarrow> bool" where
  "is_upper c \<longleftrightarrow> CHR ''A'' \<le> c \<and> c \<le> CHR ''Z''"

definition is_lower :: "char \<Rightarrow> bool" where
  "is_lower c \<longleftrightarrow> CHR ''a'' \<le> c \<and> c \<le> CHR ''z''"

datatype action =
    Skip | New_line | Block_comment | String_literal | Unterminated | Integer_literal | Word
  | Punct token | Unexpected

definition lex_error :: "string \<Rightarrow> location \<Rightarrow> parse_context \<Rightarrow> token option \<times> parse_context" where
  "lex_error msg loc ctx =
     (Some LEX_ERROR, ctx\<lparr>pc_error_msg := msg, pc_lex_error := True,
        pc_line := first_line loc, pc_column := first_column loc\<rparr>)"

text \<open>A word: a keyword in one case, or an identifier.\<close>

definition word_action :: "string \<Rightarrow> location \<Rightarrow> parse_context \<Rightarrow> token option \<times> parse_context" where
  "word_action yytext loc ctx =
     (case keyword_kind (map tolower yytext) of
        Some kw \<Rightarrow>
          if list_ex is_upper yytext \<and> list_ex is_lower yytext then
            lex_error (''Mixed case in keyword '' @ quoted yytext) loc ctx
          else (Some (Keyword kw yytext), ctx)
      | None \<Rightarrow> (Some (IDENT yytext), ctx))"

fun run_action :: "action \<Rightarrow> string \<Rightarrow> location \<Rightarrow> parse_context \<Rightarrow> token option \<times> parse_context" where
  "run_action Skip yytext loc ctx = (None, ctx)"
| "run_action New_line yytext loc ctx = (None, yyextra_col_newline ctx)"
| "run_action Block_comment yytext loc ctx =
     (None, fold (\<lambda>c ctx. if c = CHR 0x0A then yyextra_col_newline ctx else ctx) yytext ctx)"
| "run_action String_literal yytext loc ctx = (Some (STRING_LIT (decode_string yytext)), ctx)"
| "run_action Unterminated yytext loc ctx = lex_error ''Unterminated string literal'' loc ctx"
| "run_action Integer_literal yytext loc ctx = (Some (INT_LIT (strtoll yytext)), ctx)"
| "run_action Word yytext loc ctx = word_action yytext loc ctx"
| "run_action (Punct tok) yytext loc ctx = (Some tok, ctx)"
| "run_action Unexpected yytext loc ctx = lex_error (''Unexpected character '' @ quoted [hd yytext]) loc ctx"

section \<open>Rules\<close>

definition is_id_start :: "char \<Rightarrow> bool" where
  "is_id_start c \<longleftrightarrow> is_upper c \<or> is_lower c \<or> c = CHR ''_''"

definition is_id_cont :: "char \<Rightarrow> bool" where
  "is_id_cont c \<longleftrightarrow> is_id_start c \<or> is_digit c"

text \<open>What may stand inside a string: no quote, backslash or end of line, or one after a backslash.\<close>

definition string_char :: rexp where
  "string_char = Either (Except [CHR 0x22, CHR 0x5C, CHR 0x0A]) (Seq (Any_of [CHR 0x5C]) (Except [CHR 0x0A]))"

definition comment_rx :: rexp where
  "comment_rx =
     Seq (word_rx ''/*'') (Seq (Many (Either (Except ''*'') (Seq (Some_of (Any_of ''*'')) (Except ''/*''))))
       (Seq (Some_of (Any_of ''*'')) (word_rx ''/'')))"

definition sql_rules :: "(rexp \<times> action) list" where
  "sql_rules =
     [(Some_of (Any_of [CHR '' '', CHR 0x09]), Skip),
      (Seq (Maybe (word_rx [CHR 0x0D])) (word_rx [CHR 0x0A]), New_line),
      (Seq (word_rx ''--'') (Many (Except [CHR 0x0A])), Skip),
      (comment_rx, Block_comment),
      (Seq (Any_of [CHR 0x22]) (Seq (Many string_char) (Any_of [CHR 0x22])), String_literal),
      (Seq (Any_of [CHR 0x22]) (Many string_char), Unterminated),
      (Seq (Maybe (Any_of ''-'')) (Some_of (OneOf is_digit)), Integer_literal),
      (Seq (OneOf is_id_start) (Many (OneOf is_id_cont)), Word),
      (word_rx ''=='', Punct EQEQ), (word_rx ''='', Punct EQ), (word_rx ''!='', Punct NEQ),
      (word_rx ''<='', Punct LEQ), (word_rx ''>='', Punct GEQ), (word_rx ''<'', Punct LT),
      (word_rx ''>'', Punct GT), (word_rx ''('', Punct LPAREN), (word_rx '')'', Punct RPAREN),
      (word_rx '','', Punct COMMA), (word_rx '';'', Punct SEMI), (word_rx ''.'', Punct DOT),
      (word_rx ''*'', Punct STAR), (Except [CHR 0x0A], Unexpected)]"

section \<open>The loop\<close>

lemma rules_not_nullable: "\<forall>(r, a) \<in> set sql_rules. \<not> nullable r"
  by (simp add: sql_rules_def comment_rx_def Some_of_def Maybe_def Except_def Any_of_def)

lemma sql_match_pos:
  "best_match sql_rules s = Some (n, a) \<Longrightarrow> 0 < n \<and> n \<le> length s"
  by (rule conjI, erule best_match_pos, rule rules_not_nullable, erule best_match_le)

text \<open>
  \<open>yylex\<close>: the next token, the text after it, its place and the context. A text that no rule
  matches would be skipped by a character, but there is none (\<open>every_text_matches\<close>).
\<close>

function yylex :: "string \<Rightarrow> location \<Rightarrow> parse_context \<Rightarrow> token \<times> string \<times> location \<times> parse_context" where
  "yylex s loc ctx =
     (if s = [] then (YYEOF, s, loc, ctx)
      else case best_match sql_rules s of
        None \<Rightarrow> yylex (tl s) loc ctx
      | Some (n, a) \<Rightarrow>
          (case yy_user_action n ctx of (loc, ctx) \<Rightarrow>
           (case run_action a (take n s) loc ctx of
              (None, ctx) \<Rightarrow> yylex (drop n s) loc ctx
            | (Some tok, ctx) \<Rightarrow> (tok, drop n s, loc, ctx))))"
  by pat_completeness auto
termination
  by (relation "measure (\<lambda>(s, loc, ctx). length s)") (auto dest: sql_match_pos)

declare yylex.simps [simp del]

lemma run_action_not_eof: "run_action a yytext loc ctx = (Some tok, ctx') \<Longrightarrow> a \<noteq> Punct YYEOF \<Longrightarrow> tok \<noteq> YYEOF"
  by (cases a) (auto simp: word_action_def lex_error_def split: option.splits if_splits)

lemma yylex_progress: "yylex s loc ctx = (tok, s', loc', ctx') \<Longrightarrow> tok \<noteq> YYEOF \<Longrightarrow> length s' < length s"
proof (induction s loc ctx rule: yylex.induct)
  case (1 s loc ctx)
  show ?case
  proof (cases "s = []")
    case True
    with "1.prems" show ?thesis by (simp add: yylex.simps)
  next
    case False
    show ?thesis
    proof (cases "best_match sql_rules s")
      case None
      then have "length s' < length (tl s)" using "1.IH"(1) False "1.prems" by (simp add: yylex.simps [of s])
      then show ?thesis by simp
    next
      case (Some x)
      obtain n a where x: "x = (n, a)" by (cases x)
      have pos: "0 < n" "n \<le> length s" using sql_match_pos Some x by auto
      obtain l c where u: "yy_user_action n ctx = (l, c)" by fastforce
      obtain t c' where r: "run_action a (take n s) l c = (t, c')" by fastforce
      show ?thesis
      proof (cases t)
        case None
        then have "length s' < length (drop n s)"
          using "1.IH"(2) [OF False Some x [symmetric] u [symmetric] r [symmetric] None] "1.prems" False Some x u r
          by (simp add: yylex.simps [of s])
        then show ?thesis by simp
      next
        case t: (Some tok')
        then show ?thesis using "1.prems" False Some x u r pos by (auto simp: yylex.simps [of s])
      qed
    qed
  qed
qed

text \<open>
  The tokens the parser may ask for, each with its place and the context it leaves: up to the
  end of the text or the first error, neither of which the parser goes past.
\<close>

function scan :: "string \<Rightarrow> location \<Rightarrow> parse_context \<Rightarrow> (token \<times> location \<times> parse_context) list" where
  "scan s loc ctx =
     (case yylex s loc ctx of (tok, s', loc', ctx') \<Rightarrow>
        (tok, loc', ctx') # (if tok = YYEOF \<or> tok = LEX_ERROR then [] else scan s' loc' ctx'))"
  by pat_completeness auto
termination
  by (relation "measure (\<lambda>(s, loc, ctx). length s)") (auto dest: yylex_progress [OF sym])

declare scan.simps [simp del]

text \<open>The place the parser starts with, as bison sets it.\<close>

definition start_location :: location where
  "start_location = \<lparr>first_line = 1, first_column = 1, last_line = 1, last_column = 1\<rparr>"

definition sql_tokens :: "string \<Rightarrow> token list" where
  "sql_tokens source = map fst (scan source start_location new_context)"

end
