(* ===== verification/Grammar.thy ===== *)
theory Grammar
  imports Scanner
begin

text \<open>
  The grammar (src/sql/grammar/sql.y): which token lists each nonterminal derives, with the value
  its action builds. One relation for a nonterminal, one rule for a production; an action that
  may end the parse with \<open>YYERROR\<close> is a condition of its rule. The six lists of the grammar are
  one relation, \<open>comma_list\<close>.
\<close>

inductive comma_list :: "(token list \<Rightarrow> 'a \<Rightarrow> bool) \<Rightarrow> token list \<Rightarrow> 'a list \<Rightarrow> bool" for G where
  comma_one: "G ts x \<Longrightarrow> comma_list G ts [x]"
| comma_more: "comma_list G ts xs \<Longrightarrow> G us x \<Longrightarrow> comma_list G (ts @ COMMA # us) (xs @ [x])"

section \<open>Names, literals, columns\<close>

text \<open>Every keyword is an identifier too.\<close>

inductive g_identifier :: "token list \<Rightarrow> string \<Rightarrow> bool" where
  identifier_ident: "g_identifier [IDENT s] s"
| identifier_keyword: "g_identifier [Keyword kw s] s"

inductive g_table_ref :: "token list \<Rightarrow> TableRef \<Rightarrow> bool" where
  table_ref_plain: "g_identifier ts t \<Longrightarrow> g_table_ref ts \<lparr>ref_database = [], ref_table = t\<rparr>"
| table_ref_dot: "g_identifier ts d \<Longrightarrow> g_identifier us t \<Longrightarrow>
    g_table_ref (ts @ DOT # us) \<lparr>ref_database = d, ref_table = t\<rparr>"

inductive g_literal :: "token list \<Rightarrow> Value \<Rightarrow> bool" where
  literal_int: "g_literal [INT_LIT i] (VInt i)"
| literal_string: "g_literal [STRING_LIT s] (VStr s)"
| literal_null: "g_literal [Keyword NULL_KW s] VNull"

inductive g_col_type :: "token list \<Rightarrow> DataType \<Rightarrow> bool" where
  col_type_int: "g_col_type [Keyword INT_KW s] TInt"
| col_type_string: "g_col_type [Keyword STRING_KW s] TStr"

text \<open>The column that \<open>identifier col_type\<close> starts, and what a default must be.\<close>

definition new_column :: "string \<Rightarrow> DataType \<Rightarrow> ColumnDef" where
  "new_column nm ty = \<lparr>col_name = nm, col_type = ty, not_null = False, indexed = False,
     has_default = False, default_value = VNull\<rparr>"

definition default_fits :: "ColumnDef \<Rightarrow> Value \<Rightarrow> bool" where
  "default_fits c v \<longleftrightarrow> is_null v \<or> matches v (col_type c)"

inductive g_column_def :: "token list \<Rightarrow> ColumnDef \<Rightarrow> bool" where
  column_def_start: "g_identifier ts nm \<Longrightarrow> g_col_type us ty \<Longrightarrow> g_column_def (ts @ us) (new_column nm ty)"
| column_def_not_null: "g_column_def ts c \<Longrightarrow>
    g_column_def (ts @ [Keyword NOT_NULL s]) (c\<lparr>not_null := True\<rparr>)"
| column_def_indexed: "g_column_def ts c \<Longrightarrow>
    g_column_def (ts @ [Keyword INDEXED s]) (c\<lparr>indexed := True, not_null := True\<rparr>)"
| column_def_default: "g_column_def ts c \<Longrightarrow> g_literal us v \<Longrightarrow> default_fits c v \<Longrightarrow>
    g_column_def (ts @ Keyword DEFAULT s # us) (c\<lparr>has_default := True, default_value := v\<rparr>)"

section \<open>WHERE\<close>

inductive g_compare_op :: "token list \<Rightarrow> CompareOp \<Rightarrow> bool" where
  "g_compare_op [EQEQ] Eq"
| "g_compare_op [EQ] Eq"
| "g_compare_op [NEQ] NotEq"
| "g_compare_op [LT] Lt"
| "g_compare_op [GT] Gt"
| "g_compare_op [LEQ] LtEq"
| "g_compare_op [GEQ] GtEq"

text \<open>
  \<open>NULL\<close> is a literal and an identifier. Where both may stand, in an atom, the two reductions are
  in conflict for every lookahead, and bison takes the production that comes first in the file:
  \<open>identifier\<close>.
\<close>

inductive g_atom :: "token list \<Rightarrow> Expr \<Rightarrow> bool" where
  atom_literal: "g_literal ts v \<Longrightarrow> \<not> is_null v \<Longrightarrow> g_atom ts (LiteralExpr v)"
| atom_identifier: "g_identifier ts s \<Longrightarrow> g_atom ts (ColumnRefExpr s)"

inductive g_or_expr :: "token list \<Rightarrow> Expr \<Rightarrow> bool"
  and g_and_expr :: "token list \<Rightarrow> Expr \<Rightarrow> bool"
  and g_predicate :: "token list \<Rightarrow> Expr \<Rightarrow> bool" where
  or_expr_one: "g_and_expr ts e \<Longrightarrow> g_or_expr ts e"
| or_expr_or: "g_or_expr ts l \<Longrightarrow> g_and_expr us r \<Longrightarrow>
    g_or_expr (ts @ Keyword OR_KW s # us) (LogicalExpr Or l r)"
| and_expr_one: "g_predicate ts e \<Longrightarrow> g_and_expr ts e"
| and_expr_and: "g_and_expr ts l \<Longrightarrow> g_predicate us r \<Longrightarrow>
    g_and_expr (ts @ Keyword AND_KW s # us) (LogicalExpr And l r)"
| predicate_parens: "g_or_expr ts e \<Longrightarrow> g_predicate (LPAREN # ts @ [RPAREN]) e"
| predicate_compare: "g_atom ts l \<Longrightarrow> g_compare_op os cop \<Longrightarrow> g_atom us r \<Longrightarrow>
    g_predicate (ts @ os @ us) (CompareExpr cop l r)"
| predicate_between: "g_atom ts e \<Longrightarrow> g_atom us lo \<Longrightarrow> g_atom vs hi \<Longrightarrow>
    g_predicate (ts @ Keyword BETWEEN s # us @ Keyword AND_KW s' # vs) (BetweenExpr e lo hi)"
| predicate_like: "g_atom ts e \<Longrightarrow> g_atom us p \<Longrightarrow>
    g_predicate (ts @ Keyword LIKE s # us) (LikeExpr e p)"

inductive g_opt_where :: "token list \<Rightarrow> Expr option \<Rightarrow> bool" where
  where_none: "g_opt_where [] None"
| where_some: "g_or_expr ts e \<Longrightarrow> g_opt_where (Keyword WHERE s # ts) (Some e)"

section \<open>SELECT items, rows, assignments\<close>

inductive g_aggregate_fn :: "token list \<Rightarrow> AggregateFn \<Rightarrow> bool" where
  "g_aggregate_fn [Keyword SUM_KW s] Sum"
| "g_aggregate_fn [Keyword COUNT s] Count"
| "g_aggregate_fn [Keyword AVG s] Avg"

definition new_item :: SelectItem where
  "new_item = \<lparr>is_star = False, agg = AggNone, agg_star = False, item_column = [], item_alias = []\<rparr>"

inductive g_select_item :: "token list \<Rightarrow> SelectItem \<Rightarrow> bool" where
  item_column: "g_identifier ts c \<Longrightarrow> g_select_item ts (new_item\<lparr>item_column := c\<rparr>)"
| item_column_as: "g_identifier ts c \<Longrightarrow> g_identifier us a \<Longrightarrow>
    g_select_item (ts @ Keyword AS s # us) (new_item\<lparr>item_column := c, item_alias := a\<rparr>)"
| item_star: "g_aggregate_fn ts Count \<Longrightarrow>
    g_select_item (ts @ [LPAREN, STAR, RPAREN]) (new_item\<lparr>agg := Count, agg_star := True\<rparr>)"
| item_star_as: "g_aggregate_fn ts Count \<Longrightarrow> g_identifier us a \<Longrightarrow>
    g_select_item (ts @ [LPAREN, STAR, RPAREN, Keyword AS s] @ us)
      (new_item\<lparr>agg := Count, agg_star := True, item_alias := a\<rparr>)"
| item_agg: "g_aggregate_fn ts fn \<Longrightarrow> g_identifier us c \<Longrightarrow>
    g_select_item (ts @ LPAREN # us @ [RPAREN]) (new_item\<lparr>agg := fn, item_column := c\<rparr>)"
| item_agg_as: "g_aggregate_fn ts fn \<Longrightarrow> g_identifier us c \<Longrightarrow> g_identifier vs a \<Longrightarrow>
    g_select_item (ts @ LPAREN # us @ [RPAREN, Keyword AS s] @ vs)
      (new_item\<lparr>agg := fn, item_column := c, item_alias := a\<rparr>)"

inductive g_select_items :: "token list \<Rightarrow> SelectItem list \<Rightarrow> bool" where
  items_star: "g_select_items [STAR] [new_item\<lparr>is_star := True\<rparr>]"
| items_list: "comma_list g_select_item ts items \<Longrightarrow> g_select_items ts items"

inductive g_insert_row :: "token list \<Rightarrow> Value list \<Rightarrow> bool" where
  insert_row: "comma_list g_literal ts vs \<Longrightarrow> g_insert_row (LPAREN # ts @ [RPAREN]) vs"

inductive g_opt_insert_cols :: "token list \<Rightarrow> string list \<Rightarrow> bool" where
  insert_cols_none: "g_opt_insert_cols [] []"
| insert_cols_some: "comma_list g_identifier ts cs \<Longrightarrow> g_opt_insert_cols (LPAREN # ts @ [RPAREN]) cs"

inductive g_assignment :: "token list \<Rightarrow> string \<times> Expr \<Rightarrow> bool" where
  assignment_eq: "g_identifier ts c \<Longrightarrow> g_atom us e \<Longrightarrow> g_assignment (ts @ EQ # us) (c, e)"
| assignment_eqeq: "g_identifier ts c \<Longrightarrow> g_atom us e \<Longrightarrow> g_assignment (ts @ EQEQ # us) (c, e)"

section \<open>Statements\<close>

inductive g_stmt :: "token list \<Rightarrow> Statement \<Rightarrow> bool" where
  stmt_create_database: "g_identifier ts nm \<Longrightarrow>
    g_stmt (Keyword CREATE s # Keyword DATABASE_KW s' # ts) (CreateDatabaseStmt nm)"
| stmt_create_table: "g_table_ref ts t \<Longrightarrow> comma_list g_column_def us cs \<Longrightarrow>
    g_stmt (Keyword CREATE s # Keyword TABLE s' # ts @ LPAREN # us @ [RPAREN]) (CreateTableStmt t cs)"
| stmt_drop_database: "g_identifier ts nm \<Longrightarrow>
    g_stmt (Keyword DROP s # Keyword DATABASE_KW s' # ts) (DropDatabaseStmt nm)"
| stmt_drop_table: "g_table_ref ts t \<Longrightarrow> g_stmt (Keyword DROP s # Keyword TABLE s' # ts) (DropTableStmt t)"
| stmt_use: "g_identifier ts nm \<Longrightarrow> g_stmt (Keyword USE s # ts) (UseStmt nm)"
| stmt_insert: "g_table_ref ts t \<Longrightarrow> g_opt_insert_cols us cols \<Longrightarrow> comma_list g_insert_row vs rows \<Longrightarrow>
    g_stmt (Keyword INSERT s # Keyword INTO s' # ts @ us @ Keyword VALUE_KW s'' # vs) (InsertStmt t cols rows)"
| stmt_update: "g_table_ref ts t \<Longrightarrow> comma_list g_assignment us as \<Longrightarrow> g_opt_where vs cond \<Longrightarrow>
    g_stmt (Keyword UPDATE s # ts @ Keyword SET s' # us @ vs) (UpdateStmt t as cond)"
| stmt_delete: "g_table_ref ts t \<Longrightarrow> g_opt_where us cond \<Longrightarrow>
    g_stmt (Keyword DELETE s # Keyword FROM s' # ts @ us) (DeleteStmt t cond)"
| stmt_select: "g_select_items ts items \<Longrightarrow> g_table_ref us t \<Longrightarrow> g_opt_where vs cond \<Longrightarrow>
    g_stmt (Keyword SELECT s # ts @ Keyword FROM s' # us @ vs) (SelectStmt t items cond)"

text \<open>A program: one statement, a semicolon, the end.\<close>

inductive g_program :: "token list \<Rightarrow> Statement \<Rightarrow> bool" where
  program: "g_stmt ts stmt \<Longrightarrow> g_program (ts @ [SEMI, YYEOF]) stmt"

end
