(* ===== verification/Descent.thy ===== *)
theory Descent
  imports Grammar
begin

text \<open>
  A parser for the grammar (src/sql/grammar/sql.y) that can be run. bison makes its parser from
  tables; this one goes down the grammar, a function for a nonterminal, and stops at the same
  token: the first that no sentence has at its place. \<open>Descent_Correct\<close> shows that it accepts
  what the grammar derives, with the values of its actions, and nothing else.
\<close>

text \<open>
  How a parse ends without a statement: a token that does not fit, the first of those given, or
  an action that gave up, with its message and the tokens that were not read yet.
\<close>

datatype failure =
    Syntax_error "token list"
  | Action_error string "token list"

type_synonym 'a sparser = "token list \<Rightarrow> failure + 'a \<times> token list"

definition p_ret :: "'a \<Rightarrow> 'a sparser" where
  "p_ret x ts = Inr (x, ts)"

definition p_bind :: "'a sparser \<Rightarrow> ('a \<Rightarrow> 'b sparser) \<Rightarrow> 'b sparser" where
  "p_bind p f ts = (case p ts of Inl e \<Rightarrow> Inl e | Inr (x, us) \<Rightarrow> f x us)"

definition p_fail :: "'a sparser" where
  "p_fail ts = Inl (Syntax_error ts)"

definition starts :: "(token \<Rightarrow> bool) \<Rightarrow> token list \<Rightarrow> bool" where
  "starts P ts = (case ts of [] \<Rightarrow> False | t # _ \<Rightarrow> P t)"

definition p_token :: "(token \<Rightarrow> bool) \<Rightarrow> unit sparser" where
  "p_token P ts = (if starts P ts then Inr ((), tl ts) else Inl (Syntax_error ts))"

definition p_if :: "(token \<Rightarrow> bool) \<Rightarrow> 'a sparser \<Rightarrow> 'a sparser \<Rightarrow> 'a sparser" where
  "p_if P p q ts = (if starts P ts then p (tl ts) else q ts)"

fun is_kw :: "keyword \<Rightarrow> token \<Rightarrow> bool" where
  "is_kw kw (Keyword k s) = (k = kw)"
| "is_kw kw _ = False"

definition is_tok :: "token \<Rightarrow> token \<Rightarrow> bool" where
  "is_tok t u = (u = t)"

text \<open>
  A left-recursive nonterminal: one \<open>p\<close>, then more as long as a separator follows. The number
  bounds the rounds; the length of what is left is enough, for every round takes a separator.
\<close>

primrec p_more :: "nat \<Rightarrow> (token \<Rightarrow> bool) \<Rightarrow> 'a sparser \<Rightarrow> ('b \<Rightarrow> 'a \<Rightarrow> 'b) \<Rightarrow> 'b \<Rightarrow> 'b sparser" where
  "p_more 0 sep p f acc = p_ret acc"
| "p_more (Suc k) sep p f acc =
     p_if sep (p_bind p (\<lambda>x. p_more k sep p f (f acc x))) (p_ret acc)"

definition p_chain :: "(token \<Rightarrow> bool) \<Rightarrow> 'a sparser \<Rightarrow> ('b \<Rightarrow> 'a \<Rightarrow> 'b) \<Rightarrow> ('a \<Rightarrow> 'b) \<Rightarrow> 'b sparser" where
  "p_chain sep p f g = p_bind p (\<lambda>x ts. p_more (length ts) sep p f (g x) ts)"

definition p_list :: "'a sparser \<Rightarrow> 'a list sparser" where
  "p_list p = p_chain (is_tok COMMA) p (\<lambda>xs x. xs @ [x]) (\<lambda>x. [x])"

section \<open>Names, literals, columns\<close>

fun p_identifier :: "string sparser" where
  "p_identifier (IDENT s # ts) = Inr (s, ts)"
| "p_identifier (Keyword kw s # ts) = Inr (s, ts)"
| "p_identifier ts = Inl (Syntax_error ts)"

definition p_table_ref :: "TableRef sparser" where
  "p_table_ref =
     p_bind p_identifier (\<lambda>a.
     p_if (is_tok DOT) (p_bind p_identifier (\<lambda>b. p_ret \<lparr>ref_database = a, ref_table = b\<rparr>))
       (p_ret \<lparr>ref_database = [], ref_table = a\<rparr>))"

fun p_literal :: "Value sparser" where
  "p_literal (INT_LIT i # ts) = Inr (VInt i, ts)"
| "p_literal (STRING_LIT s # ts) = Inr (VStr s, ts)"
| "p_literal (Keyword NULL_KW s # ts) = Inr (VNull, ts)"
| "p_literal ts = Inl (Syntax_error ts)"

definition p_col_type :: "DataType sparser" where
  "p_col_type = p_if (is_kw INT_KW) (p_ret TInt) (p_if (is_kw STRING_KW) (p_ret TStr) p_fail)"

text \<open>The action after a default: the literal is the last token that was read.\<close>

definition p_default :: "ColumnDef \<Rightarrow> ColumnDef sparser" where
  "p_default c = p_bind p_literal (\<lambda>v ts.
     if default_fits c v then Inr (c\<lparr>has_default := True, default_value := v\<rparr>, ts)
     else Inl (Action_error (''DEFAULT literal type does not match column '' @ quoted (col_name c)) ts))"

primrec p_attributes :: "nat \<Rightarrow> ColumnDef \<Rightarrow> ColumnDef sparser" where
  "p_attributes 0 c = p_ret c"
| "p_attributes (Suc k) c =
     p_if (is_kw NOT_NULL) (p_attributes k (c\<lparr>not_null := True\<rparr>))
     (p_if (is_kw INDEXED) (p_attributes k (c\<lparr>indexed := True, not_null := True\<rparr>))
     (p_if (is_kw DEFAULT) (p_bind (p_default c) (p_attributes k)) (p_ret c)))"

definition p_column_def :: "ColumnDef sparser" where
  "p_column_def =
     p_bind p_identifier (\<lambda>nm.
     p_bind p_col_type (\<lambda>ty ts. p_attributes (length ts) (new_column nm ty) ts))"

section \<open>WHERE\<close>

fun p_compare_op :: "CompareOp sparser" where
  "p_compare_op (EQEQ # ts) = Inr (Eq, ts)"
| "p_compare_op (EQ # ts) = Inr (Eq, ts)"
| "p_compare_op (NEQ # ts) = Inr (NotEq, ts)"
| "p_compare_op (LT # ts) = Inr (Lt, ts)"
| "p_compare_op (GT # ts) = Inr (Gt, ts)"
| "p_compare_op (LEQ # ts) = Inr (LtEq, ts)"
| "p_compare_op (GEQ # ts) = Inr (GtEq, ts)"
| "p_compare_op ts = Inl (Syntax_error ts)"

fun p_atom :: "Expr sparser" where
  "p_atom (INT_LIT i # ts) = Inr (LiteralExpr (VInt i), ts)"
| "p_atom (STRING_LIT s # ts) = Inr (LiteralExpr (VStr s), ts)"
| "p_atom (IDENT s # ts) = Inr (ColumnRefExpr s, ts)"
| "p_atom (Keyword kw s # ts) = Inr (ColumnRefExpr s, ts)"
| "p_atom ts = Inl (Syntax_error ts)"

definition p_relation :: "Expr sparser" where
  "p_relation =
     p_bind p_atom (\<lambda>l.
     p_if (is_kw BETWEEN)
       (p_bind p_atom (\<lambda>lo. p_bind (p_token (is_kw AND_KW)) (\<lambda>_. p_bind p_atom (\<lambda>hi.
        p_ret (BetweenExpr l lo hi)))))
     (p_if (is_kw LIKE) (p_bind p_atom (\<lambda>r. p_ret (LikeExpr l r)))
       (p_bind p_compare_op (\<lambda>cop. p_bind p_atom (\<lambda>r. p_ret (CompareExpr cop l r))))))"

definition p_predicate :: "Expr sparser \<Rightarrow> Expr sparser" where
  "p_predicate p_expr =
     p_if (is_tok LPAREN) (p_bind p_expr (\<lambda>e. p_bind (p_token (is_tok RPAREN)) (\<lambda>_. p_ret e))) p_relation"

definition p_and :: "Expr sparser \<Rightarrow> Expr sparser" where
  "p_and p_expr = p_chain (is_kw AND_KW) (p_predicate p_expr) (LogicalExpr And) id"

text \<open>The number bounds how deep parentheses are nested; the number of tokens is enough.\<close>

primrec p_or :: "nat \<Rightarrow> Expr sparser" where
  "p_or 0 = p_fail"
| "p_or (Suc k) = p_chain (is_kw OR_KW) (p_and (p_or k)) (LogicalExpr Or) id"

definition p_expr :: "Expr sparser" where
  "p_expr ts = p_or (Suc (length ts)) ts"

definition p_opt_where :: "Expr option sparser" where
  "p_opt_where = p_if (is_kw WHERE) (p_bind p_expr (\<lambda>e. p_ret (Some e))) (p_ret None)"

section \<open>SELECT items, rows, assignments\<close>

fun aggregate_of :: "token list \<Rightarrow> AggregateFn" where
  "aggregate_of (Keyword kw s # LPAREN # ts) =
     (if kw = SUM_KW then Sum else if kw = COUNT then Count else if kw = AVG then Avg else AggNone)"
| "aggregate_of ts = AggNone"

definition p_alias :: "SelectItem \<Rightarrow> SelectItem sparser" where
  "p_alias it = p_if (is_kw AS) (p_bind p_identifier (\<lambda>a. p_ret (it\<lparr>item_alias := a\<rparr>))) (p_ret it)"

text \<open>
  The action after \<open>fn ( * )\<close>. Whether an alias follows has to be known first, so one token more
  was read where there is none.
\<close>

definition p_only_count :: "AggregateFn \<Rightarrow> SelectItem sparser" where
  "p_only_count fn ts =
     (let message = ''only COUNT supports '' @ quoted ''*'' in
      case p_alias (new_item\<lparr>agg := fn, agg_star := True\<rparr>) ts of
        Inl e \<Rightarrow> Inl e
      | Inr (it, us) \<Rightarrow>
          if fn = Count then Inr (it, us)
          else Inl (Action_error message (if starts (is_kw AS) ts then us else tl ts)))"

definition p_aggregate :: "AggregateFn \<Rightarrow> SelectItem sparser" where
  "p_aggregate fn =
     p_if (is_tok STAR) (p_bind (p_token (is_tok RPAREN)) (\<lambda>_. p_only_count fn))
       (p_bind p_identifier (\<lambda>c. p_bind (p_token (is_tok RPAREN)) (\<lambda>_.
        p_alias (new_item\<lparr>agg := fn, item_column := c\<rparr>))))"

definition p_select_item :: "SelectItem sparser" where
  "p_select_item ts =
     (if aggregate_of ts = AggNone then p_bind p_identifier (\<lambda>c. p_alias (new_item\<lparr>item_column := c\<rparr>)) ts
      else p_aggregate (aggregate_of ts) (drop 2 ts))"

definition p_select_items :: "SelectItem list sparser" where
  "p_select_items = p_if (is_tok STAR) (p_ret [new_item\<lparr>is_star := True\<rparr>]) (p_list p_select_item)"

definition p_parens :: "'a sparser \<Rightarrow> 'a sparser" where
  "p_parens p = p_bind (p_token (is_tok LPAREN)) (\<lambda>_. p_bind p (\<lambda>x.
     p_bind (p_token (is_tok RPAREN)) (\<lambda>_. p_ret x)))"

definition p_insert_row :: "Value list sparser" where
  "p_insert_row = p_parens (p_list p_literal)"

definition p_opt_insert_cols :: "string list sparser" where
  "p_opt_insert_cols ts =
     (if starts (is_tok LPAREN) ts then p_parens (p_list p_identifier) ts else p_ret [] ts)"

definition p_assignment :: "(string \<times> Expr) sparser" where
  "p_assignment =
     p_bind p_identifier (\<lambda>c.
     p_bind (p_token (\<lambda>t. t = EQ \<or> t = EQEQ)) (\<lambda>_. p_bind p_atom (\<lambda>e. p_ret (c, e))))"

section \<open>Statements\<close>

definition p_create :: "Statement sparser" where
  "p_create =
     p_if (is_kw DATABASE_KW) (p_bind p_identifier (\<lambda>nm. p_ret (CreateDatabaseStmt nm)))
     (p_if (is_kw TABLE)
       (p_bind p_table_ref (\<lambda>t. p_bind (p_parens (p_list p_column_def)) (\<lambda>cs. p_ret (CreateTableStmt t cs))))
     p_fail)"

definition p_drop :: "Statement sparser" where
  "p_drop =
     p_if (is_kw DATABASE_KW) (p_bind p_identifier (\<lambda>nm. p_ret (DropDatabaseStmt nm)))
     (p_if (is_kw TABLE) (p_bind p_table_ref (\<lambda>t. p_ret (DropTableStmt t))) p_fail)"

definition p_insert :: "Statement sparser" where
  "p_insert =
     p_bind (p_token (is_kw INTO)) (\<lambda>_. p_bind p_table_ref (\<lambda>t. p_bind p_opt_insert_cols (\<lambda>cols.
     p_bind (p_token (is_kw VALUE_KW)) (\<lambda>_. p_bind (p_list p_insert_row) (\<lambda>rows.
     p_ret (InsertStmt t cols rows))))))"

definition p_update :: "Statement sparser" where
  "p_update =
     p_bind p_table_ref (\<lambda>t. p_bind (p_token (is_kw SET)) (\<lambda>_. p_bind (p_list p_assignment) (\<lambda>as.
     p_bind p_opt_where (\<lambda>cond. p_ret (UpdateStmt t as cond)))))"

definition p_delete :: "Statement sparser" where
  "p_delete =
     p_bind (p_token (is_kw FROM)) (\<lambda>_. p_bind p_table_ref (\<lambda>t. p_bind p_opt_where (\<lambda>cond.
     p_ret (DeleteStmt t cond))))"

definition p_select :: "Statement sparser" where
  "p_select =
     p_bind p_select_items (\<lambda>items. p_bind (p_token (is_kw FROM)) (\<lambda>_. p_bind p_table_ref (\<lambda>t.
     p_bind p_opt_where (\<lambda>cond. p_ret (SelectStmt t items cond)))))"

definition p_use :: "Statement sparser" where
  "p_use = p_bind p_identifier (\<lambda>nm. p_ret (UseStmt nm))"

definition p_stmt :: "Statement sparser" where
  "p_stmt =
     p_if (is_kw CREATE) p_create (p_if (is_kw DROP) p_drop (p_if (is_kw USE) p_use
     (p_if (is_kw INSERT) p_insert (p_if (is_kw UPDATE) p_update (p_if (is_kw DELETE) p_delete
     (p_if (is_kw SELECT) p_select p_fail))))))"

text \<open>The statement is kept when its semicolon was read, even if the end does not follow.\<close>

definition p_program :: "token list \<Rightarrow> Statement option \<times> failure option" where
  "p_program ts =
     (case p_stmt ts of
        Inl e \<Rightarrow> (None, Some e)
      | Inr (stmt, us) \<Rightarrow>
          if starts (is_tok SEMI) us then
            (Some stmt, if starts (is_tok YYEOF) (tl us) then None else Some (Syntax_error (tl us)))
          else (None, Some (Syntax_error us)))"

section \<open>yyparse\<close>

text \<open>
  The context after the tokens that were read, with the message and the place of the error. The
  text of a syntax error is made by bison from its tables: it is an argument, a function of the
  tokens that were read, the one that does not fit being the last.
\<close>

definition tokens_read :: "token list \<Rightarrow> failure \<Rightarrow> nat" where
  "tokens_read ts f =
     (case f of Syntax_error rest \<Rightarrow> length ts - length rest + 1 | Action_error _ rest \<Rightarrow> length ts - length rest)"

definition yyerror :: "string \<Rightarrow> location \<Rightarrow> parse_context \<Rightarrow> parse_context" where
  "yyerror msg loc ctx =
     (if \<not> pc_lex_error ctx \<and> pc_error_msg ctx = [] then
        ctx\<lparr>pc_error_msg := msg, pc_line := first_line loc, pc_column := first_column loc\<rparr>
      else ctx)"

definition yyparse :: "(token list \<Rightarrow> string) \<Rightarrow> string \<Rightarrow> parse_context \<times> int" where
  "yyparse syntax_text source =
     (let items = scan source start_location new_context;
          ts = map fst items;
          (result, outcome) = p_program ts;
          n = (case outcome of None \<Rightarrow> length ts | Some f \<Rightarrow> tokens_read ts f);
          (loc, ctx) = (if n = 0 then (start_location, new_context) else snd (items ! (n - 1)));
          ctx = ctx\<lparr>pc_result := result\<rparr>
      in case outcome of
           None \<Rightarrow> (ctx, 0)
         | Some (Syntax_error rest) \<Rightarrow> (yyerror (syntax_text (take n ts)) loc ctx, 1)
         | Some (Action_error msg rest) \<Rightarrow> (ctx\<lparr>pc_error_msg := msg\<rparr>, 1))"

end
