(* ===== verification/SqlParser.thy ===== *)
theory SqlParser
  imports Executor Descent
begin

text \<open>
  What drives the parser (src/sql/parser.cpp, include/sql/parser.h). The scanner and the parser
  proper are an argument, a function from a text to the context they fill and the code
  \<open>yyparse\<close> returns: \<open>None\<close> stands for a scanner that could not be set up. \<open>sql_parse\<close> puts
  the scanner and the grammar of this program in its place.
\<close>

record parser =
  pa_source :: string
  pa_finished :: bool

definition new_parser :: "string \<Rightarrow> parser" where
  "new_parser source = \<lparr>pa_source = source, pa_finished = False\<rparr>"

definition at_eof :: "parser \<Rightarrow> bool" where
  "at_eof p \<longleftrightarrow> pa_finished p \<or> (\<forall>c \<in> set (pa_source p). is_space c)"

text \<open>\<open>yy_scan_string\<close> reads up to the first NUL of the source.\<close>

definition c_str :: "string \<Rightarrow> string" where
  "c_str s = takeWhile (\<lambda>c. c \<noteq> CHR 0x00) s"

definition position_text :: "parse_context \<Rightarrow> string" where
  "position_text ctx = nat_str (pc_line ctx) @ '':'' @ nat_str (pc_column ctx) @ '': ''"

text \<open>The result of a parse: \<open>None\<close> stands for a scanner that could not be set up.\<close>

definition parse_statement :: "(string \<Rightarrow> (parse_context \<times> int) option) \<Rightarrow> (parser, Statement) op" where
  "parse_statement generated =
     bnd (gets pa_finished) (\<lambda>finished.
     andthen (throw_if finished (Runtime_error ''Parse error: no more statements available''))
     (andthen (modify (\<lambda>p. p\<lparr>pa_finished := True\<rparr>))
     (bnd (gets pa_source) (\<lambda>source.
      case generated (c_str source) of
        None \<Rightarrow> throw (Runtime_error ''Parse error: failed to initialise scanner'')
      | Some (ctx, rc) \<Rightarrow>
          if pc_lex_error ctx then throw (Runtime_error (''Lex error at '' @ position_text ctx @ pc_error_msg ctx))
          else case pc_result ctx of
            None \<Rightarrow> throw (Runtime_error (''Parse error at '' @ position_text ctx @
                      (if pc_error_msg ctx = [] then ''syntax error'' else pc_error_msg ctx)))
          | Some stmt \<Rightarrow>
              if rc \<noteq> 0 then throw (Runtime_error (''Parse error at '' @ position_text ctx @
                      (if pc_error_msg ctx = [] then ''syntax error'' else pc_error_msg ctx)))
              else ret stmt))))"

text \<open>The parser as \<open>run_query\<close> uses it: a new one for every text, and the text of its errors.\<close>

definition parse_text :: "(string \<Rightarrow> (parse_context \<times> int) option) \<Rightarrow> string \<Rightarrow> string + Statement" where
  "parse_text generated sql =
     (case fst (parse_statement generated (new_parser sql)) of
        Inr stmt \<Rightarrow> Inr stmt
      | Inl e \<Rightarrow> (case error_text e of None \<Rightarrow> Inl [] | Some msg \<Rightarrow> Inl msg))"

text \<open>The parser of the program; the argument is how bison words a syntax error.\<close>

definition sql_parse :: "(token list \<Rightarrow> string) \<Rightarrow> string \<Rightarrow> string + Statement" where
  "sql_parse syntax_text = parse_text (\<lambda>source. Some (yyparse syntax_text source))"

lemma new_parser_eof: "at_eof (new_parser sql) = parser_eof sql"
  by (simp add: at_eof_def new_parser_def parser_eof_def)

text \<open>A parser is good for one statement.\<close>

lemma parse_once:
  "at_eof (snd (parse_statement generated p))"
  "pa_finished p \<Longrightarrow> parse_statement generated p = (Inl (Runtime_error ''Parse error: no more statements available''), p)"
  by (auto simp: parse_statement_def op_simps at_eof_def split: option.splits prod.splits)

end
