(* ===== verification/Grammar_Correct.thy ===== *)
theory Grammar_Correct
  imports Descent
begin

text \<open>
  The parser and the grammar: what a function of \<open>Descent\<close> reads, its nonterminal derives, and
  what the nonterminal derives, the function reads, if it is not followed by a token that goes on.
  That is the interface \<open>reader\<close>, provided for every nonterminal from names up to statements; from
  it follows that the grammar gives a text at most one meaning.
\<close>

section \<open>Combinators\<close>

named_theorems parse_iffs \<open>when a combinator succeeds\<close>

lemma p_ret_iff [parse_iffs]: "p_ret x ts = Inr (y, rest) \<longleftrightarrow> y = x \<and> rest = ts"
  by (auto simp: p_ret_def)

lemma p_bind_iff [parse_iffs]:
  "p_bind p f ts = Inr (y, rest) \<longleftrightarrow> (\<exists>x us. p ts = Inr (x, us) \<and> f x us = Inr (y, rest))"
  by (auto simp: p_bind_def split: sum.splits)

lemma p_fail_iff [parse_iffs]: "p_fail ts = Inr (y, rest) \<longleftrightarrow> False"
  by (simp add: p_fail_def)

lemma starts_iff [parse_iffs]: "starts P ts \<longleftrightarrow> (\<exists>t us. ts = t # us \<and> P t)"
  by (auto simp: starts_def split: list.splits)

lemma starts_simps [simp]: "starts P (t # ts) = P t" "starts P [] = False"
  by (simp_all add: starts_def)

lemma p_token_iff [parse_iffs]: "p_token P ts = Inr (y, rest) \<longleftrightarrow> (\<exists>t. ts = t # rest \<and> P t)"
  by (cases ts) (auto simp: p_token_def)

lemma p_if_iff [parse_iffs]:
  "p_if P p q ts = Inr (y, rest) \<longleftrightarrow>
     (\<exists>t us. ts = t # us \<and> P t \<and> p us = Inr (y, rest)) \<or> \<not> starts P ts \<and> q ts = Inr (y, rest)"
  by (cases ts) (auto simp: p_if_def)

lemma is_tok_iff [parse_iffs]: "is_tok t u \<longleftrightarrow> u = t"
  by (simp add: is_tok_def)

lemma is_kw_iff [parse_iffs]: "is_kw kw t \<longleftrightarrow> (\<exists>s. t = Keyword kw s)"
  by (cases t) auto

text \<open>Running on a text that starts with a known token, or with what a parser reads.\<close>

lemma p_token_run [simp]: "P t \<Longrightarrow> p_token P (t # ts) = Inr ((), ts)"
  by (simp add: p_token_def)

lemma p_if_yes [simp]: "P t \<Longrightarrow> p_if P p q (t # ts) = p ts"
  by (simp add: p_if_def)

lemma p_if_no: "\<not> starts P ts \<Longrightarrow> p_if P p q ts = q ts"
  by (simp add: p_if_def)

lemma p_if_no_Cons [simp]: "\<not> P t \<Longrightarrow> p_if P p q (t # ts) = q (t # ts)"
  by (simp add: p_if_def)

lemma p_bind_run: "p ts = Inr (x, us) \<Longrightarrow> p_bind p f ts = f x us"
  by (simp add: p_bind_def)

lemma p_ret_run [simp]: "p_ret x ts = Inr (x, ts)"
  by (simp add: p_ret_def)

section \<open>Loops\<close>

definition shrinks :: "'a sparser \<Rightarrow> bool" where
  "shrinks p \<longleftrightarrow> (\<forall>ts x rest. p ts = Inr (x, rest) \<longrightarrow> length rest \<le> length ts)"

lemma p_more_fuel:
  assumes "shrinks p"
  shows "length ts \<le> k \<Longrightarrow> p_more k sep p f acc ts = p_more (length ts) sep p f acc ts"
proof (induction k arbitrary: ts acc rule: less_induct)
  case (less k)
  show ?case
  proof (cases ts)
    case Nil
    then show ?thesis by (cases k) (simp_all add: p_if_no)
  next
    case (Cons t us)
    with less.prems obtain j where j: "k = Suc j" "length us \<le> j" by (cases k) auto
    show ?thesis
    proof (cases "sep t \<and> (\<exists>x vs. p us = Inr (x, vs))")
      case True
      then obtain x vs where x: "sep t" "p us = Inr (x, vs)" by blast
      then have vs: "length vs \<le> length us" using assms unfolding shrinks_def by blast
      then have "p_more j sep p f (f acc x) vs = p_more (length us) sep p f (f acc x) vs"
        using less.IH [of j vs] less.IH [of "length us" vs] j by simp
      with x j Cons show ?thesis by (simp add: p_bind_run)
    next
      case False
      then show ?thesis using j Cons by (cases "sep t"; cases "p us") (auto simp: p_bind_def)
    qed
  qed
qed

lemma p_more_end: "\<not> starts sep ts \<Longrightarrow> p_more k sep p f acc ts = Inr (acc, ts)"
  by (cases k) (simp_all add: p_if_no)

lemma p_chain_start: "p (ts @ rest) = Inr (x, rest) \<Longrightarrow>
    p_chain sep p f g (ts @ rest) = p_more (length rest) sep p f (g x) rest"
  by (simp add: p_chain_def p_bind_run)

lemma p_more_step:
  assumes "shrinks p" and "sep t" and "p (us @ rest) = Inr (x, rest)"
  shows "p_more (length (t # us @ rest)) sep p f acc (t # us @ rest) = p_more (length rest) sep p f (f acc x) rest"
  using assms p_more_fuel [OF assms(1), of rest "length (us @ rest)" sep f "f acc x"]
  by (simp add: p_bind_run)

lemma p_more_sound:
  assumes p: "\<And>ts x rest. p ts = Inr (x, rest) \<Longrightarrow> \<exists>pre. ts = pre @ rest \<and> G pre x"
    and step: "\<And>pre acc t us x. H pre acc \<Longrightarrow> sep t \<Longrightarrow> G us x \<Longrightarrow> H (pre @ t # us) (f acc x)"
  shows "p_more k sep p f acc ts = Inr (y, rest) \<Longrightarrow> H pre acc \<Longrightarrow> \<exists>us. ts = us @ rest \<and> H (pre @ us) y"
proof (induction k arbitrary: ts acc pre)
  case 0
  then show ?case by (auto simp: parse_iffs)
next
  case (Suc k)
  show ?case
  proof (cases "starts sep ts")
    case False
    with Suc.prems show ?thesis by (auto simp: p_more_end simp del: p_more.simps)
  next
    case True
    then obtain t us where t: "ts = t # us" "sep t" by (auto simp: starts_iff)
    with Suc.prems(1) obtain x vs where x: "p us = Inr (x, vs)" "p_more k sep p f (f acc x) vs = Inr (y, rest)"
      by (auto simp: parse_iffs)
    obtain ws where ws: "us = ws @ vs" "G ws x" using p [OF x(1)] by blast
    from Suc.IH [OF x(2) step [OF Suc.prems(2) t(2) ws(2)]] obtain zs where
      "vs = zs @ rest" "H ((pre @ t # ws) @ zs) y" by blast
    with t ws show ?thesis by (intro exI [of _ "t # ws @ zs"]) simp
  qed
qed

lemma p_chain_sound:
  assumes p: "\<And>ts x rest. p ts = Inr (x, rest) \<Longrightarrow> \<exists>pre. ts = pre @ rest \<and> G pre x"
    and start: "\<And>ts x. G ts x \<Longrightarrow> H ts (g x)"
    and step: "\<And>pre acc t us x. H pre acc \<Longrightarrow> sep t \<Longrightarrow> G us x \<Longrightarrow> H (pre @ t # us) (f acc x)"
    and run: "p_chain sep p f g ts = Inr (y, rest)"
  shows "\<exists>pre. ts = pre @ rest \<and> H pre y"
proof -
  from run obtain x us where x: "p ts = Inr (x, us)" "p_more (length us) sep p f (g x) us = Inr (y, rest)"
    by (auto simp: p_chain_def parse_iffs)
  obtain pre where pre: "ts = pre @ us" "G pre x" using p [OF x(1)] by blast
  from p_more_sound [of p G H sep f, OF p step x(2) start [OF pre(2)]] obtain vs where
    "us = vs @ rest" "H (pre @ vs) y" by blast
  with pre show ?thesis by (intro exI [of _ "pre @ vs"]) simp
qed

section \<open>Nonterminals\<close>

text \<open>
  \<open>p\<close> reads \<open>G\<close>. A token that \<open>goes_on\<close> would be read too: the parser takes as much as it can.
\<close>

locale reader =
  fixes G :: "token list \<Rightarrow> 'a \<Rightarrow> bool" and p :: "'a sparser" and goes_on :: "token \<Rightarrow> bool"
  assumes sound: "p ts = Inr (x, rest) \<Longrightarrow> \<exists>pre. ts = pre @ rest \<and> G pre x"
    and complete: "G pre x \<Longrightarrow> \<not> starts goes_on rest \<Longrightarrow> p (pre @ rest) = Inr (x, rest)"
begin

lemma unambiguous: "G pre x \<Longrightarrow> G pre y \<Longrightarrow> x = y"
  using complete [of pre x "[]"] complete [of pre y "[]"] by simp

lemma reads_all: "p ts = Inr (x, []) \<longleftrightarrow> G ts x"
  using sound [of ts x "[]"] complete [of ts x "[]"] by auto

lemma shrinking: "shrinks p"
  unfolding shrinks_def using sound by fastforce

lemma list_sound:
  assumes "p_list p ts = Inr (xs, rest)"
  shows "\<exists>pre. ts = pre @ rest \<and> comma_list G pre xs"
  using assms unfolding p_list_def
  by (rule p_chain_sound [where H = "comma_list G", OF sound, rotated -1])
     (auto simp: is_tok_iff intro: comma_list.intros)

lemma list_run:
  assumes "\<not> goes_on COMMA"
  shows "comma_list G pre xs \<Longrightarrow> \<not> starts goes_on rest \<Longrightarrow>
    p_list p (pre @ rest) = p_more (length rest) (is_tok COMMA) p (\<lambda>xs x. xs @ [x]) xs rest"
proof (induction arbitrary: rest rule: comma_list.induct)
  case (comma_one ts x)
  then show ?case by (simp add: p_list_def p_chain_start complete)
next
  case (comma_more ts xs us x)
  have "p_list p (ts @ COMMA # us @ rest) =
      p_more (length (COMMA # us @ rest)) (is_tok COMMA) p (\<lambda>xs x. xs @ [x]) xs (COMMA # us @ rest)"
    using comma_more.IH assms by simp
  also have "\<dots> = p_more (length rest) (is_tok COMMA) p (\<lambda>xs x. xs @ [x]) (xs @ [x]) rest"
    using comma_more.hyps(2) comma_more.prems by (intro p_more_step shrinking complete) (simp_all add: is_tok_iff)
  finally show ?case by simp
qed

lemma list_complete:
  assumes "\<not> goes_on COMMA" and "comma_list G pre xs" and "\<not> starts (\<lambda>t. goes_on t \<or> t = COMMA) rest"
  shows "p_list p (pre @ rest) = Inr (xs, rest)"
proof -
  have "\<not> starts goes_on rest" "\<not> starts (is_tok COMMA) rest" using assms(3) by (auto simp: parse_iffs)
  then show ?thesis using list_run [OF assms(1,2)] by (simp add: p_more_end)
qed

end

text \<open>A list of what is read one by one is read as a list.\<close>

lemma reader_list:
  assumes "reader G p goes_on" and "\<not> goes_on COMMA"
  shows "reader (comma_list G) (p_list p) (\<lambda>t. goes_on t \<or> t = COMMA)"
  by (rule reader.intro) (rule reader.list_sound [OF assms(1)], assumption, rule reader.list_complete [OF assms])

abbreviation nothing :: "token \<Rightarrow> bool" where
  "nothing \<equiv> \<lambda>t. False"

lemma starts_nothing [simp]: "\<not> starts nothing ts"
  by (simp add: starts_iff)

section \<open>Names, literals, columns\<close>

interpretation ident: reader g_identifier p_identifier nothing
proof
  show "\<exists>pre. ts = pre @ rest \<and> g_identifier pre x" if "p_identifier ts = Inr (x, rest)" for ts x rest
    using that by (cases ts rule: p_identifier.cases) (auto intro: g_identifier.intros)
qed (auto elim!: g_identifier.cases)

lemma p_literal_sound: "p_literal ts = Inr (x, rest) \<Longrightarrow> \<exists>pre. ts = pre @ rest \<and> g_literal pre x"
  by (cases ts rule: p_literal.cases) (auto intro: g_literal.intros)

interpretation literal: reader g_literal p_literal nothing
  by unfold_locales (rule p_literal_sound, assumption, auto elim!: g_literal.cases)

interpretation table_ref: reader g_table_ref p_table_ref "is_tok DOT"
proof
  show "\<exists>pre. ts = pre @ rest \<and> g_table_ref pre x" if "p_table_ref ts = Inr (x, rest)" for ts x rest
  proof -
    from that obtain a us where a: "p_identifier ts = Inr (a, us)" and
      us: "(\<exists>vs b. us = DOT # vs \<and> p_identifier vs = Inr (b, rest) \<and> x = \<lparr>ref_database = a, ref_table = b\<rparr>) \<or>
        us = rest \<and> x = \<lparr>ref_database = [], ref_table = a\<rparr>"
      unfolding p_table_ref_def by (auto simp: parse_iffs)
    from ident.sound [OF a] obtain pre where pre: "ts = pre @ us" "g_identifier pre a" by blast
    from us show ?thesis
    proof (elim disjE exE conjE)
      fix vs b assume b: "us = DOT # vs" "p_identifier vs = Inr (b, rest)" "x = \<lparr>ref_database = a, ref_table = b\<rparr>"
      from ident.sound [OF b(2)] obtain qre where "vs = qre @ rest" "g_identifier qre b" by blast
      with pre b show ?thesis by (intro exI [of _ "pre @ DOT # qre"]) (auto intro: table_ref_dot)
    qed (use pre in \<open>auto intro: table_ref_plain\<close>)
  qed
  show "p_table_ref (pre @ rest) = Inr (x, rest)"
    if "g_table_ref pre x" and "\<not> starts (is_tok DOT) rest" for pre x rest
    using that
    by cases (simp_all add: p_table_ref_def p_bind_run ident.complete p_if_no is_tok_iff)
qed

interpretation col_type: reader g_col_type p_col_type nothing
proof
  show "\<exists>pre. ts = pre @ rest \<and> g_col_type pre x" if "p_col_type ts = Inr (x, rest)" for ts x rest
    using that unfolding p_col_type_def by (auto simp: parse_iffs intro: g_col_type.intros)
qed (auto simp: p_col_type_def elim!: g_col_type.cases)

text \<open>The attributes of a column.\<close>

abbreviation attribute :: "token \<Rightarrow> bool" where
  "attribute t \<equiv> is_kw NOT_NULL t \<or> is_kw INDEXED t \<or> is_kw DEFAULT t"

lemma p_default_iff:
  "p_default c ts = Inr (d, rest) \<longleftrightarrow>
     (\<exists>v. p_literal ts = Inr (v, rest) \<and> default_fits c v \<and> d = c\<lparr>has_default := True, default_value := v\<rparr>)"
  unfolding p_default_def by (auto simp: parse_iffs)

lemma p_attributes_sound:
  "p_attributes k c ts = Inr (d, rest) \<Longrightarrow> g_column_def pre c \<Longrightarrow> \<exists>us. ts = us @ rest \<and> g_column_def (pre @ us) d"
proof (induction k arbitrary: c ts pre)
  case (Suc k)
  have more: ?case if "ts = t # us" "p_attributes k c' us = Inr (d, rest)" "g_column_def (pre @ [t]) c'" for t us c'
  proof -
    from Suc.IH [OF that(2,3)] obtain vs where "us = vs @ rest" "g_column_def ((pre @ [t]) @ vs) d" by blast
    with that(1) show ?thesis by (intro exI [of _ "t # vs"]) simp
  qed
  show ?case
  proof (cases "starts (is_kw DEFAULT) ts")
    case False
    with Suc.prems consider
        s us where "ts = Keyword NOT_NULL s # us" "p_attributes k (c\<lparr>not_null := True\<rparr>) us = Inr (d, rest)"
      | s us where "ts = Keyword INDEXED s # us" "p_attributes k (c\<lparr>indexed := True, not_null := True\<rparr>) us = Inr (d, rest)"
      | "ts = rest" "d = c"
      by (auto simp: parse_iffs)
    then show ?thesis
    proof cases
      case 1
      then show ?thesis using column_def_not_null [OF Suc.prems(2)] by (rule more)
    next
      case 2
      then show ?thesis using column_def_indexed [OF Suc.prems(2)] by (rule more)
    qed (use Suc.prems(2) in auto)
  next
    case True
    then obtain s us where us: "ts = Keyword DEFAULT s # us" by (auto simp: parse_iffs)
    with Suc.prems(1) obtain v vs where v: "p_literal us = Inr (v, vs)" "default_fits c v"
      "p_attributes k (c\<lparr>has_default := True, default_value := v\<rparr>) vs = Inr (d, rest)"
      by (auto simp: parse_iffs p_default_iff)
    from literal.sound [OF v(1)] obtain ws where ws: "us = ws @ vs" "g_literal ws v" by blast
    from Suc.IH [OF v(3) column_def_default [OF Suc.prems(2) ws(2) v(2)]] obtain zs where
      "vs = zs @ rest" "g_column_def ((pre @ Keyword DEFAULT s # ws) @ zs) d" by blast
    with us ws show ?thesis by (intro exI [of _ "Keyword DEFAULT s # ws @ zs"]) simp
  qed
qed (auto simp: parse_iffs)

lemma p_attributes_end: "\<not> starts attribute ts \<Longrightarrow> p_attributes k c ts = Inr (c, ts)"
  by (cases k; cases ts) (simp_all add: p_if_no)

lemma p_attributes_fuel: "length ts \<le> k \<Longrightarrow> p_attributes k c ts = p_attributes (length ts) c ts"
proof (induction k arbitrary: ts c rule: less_induct)
  case (less k)
  show ?case
  proof (cases "starts attribute ts")
    case False
    then show ?thesis by (simp add: p_attributes_end)
  next
    case True
    then obtain t us where t: "ts = t # us" by (auto simp: starts_iff)
    with less.prems obtain j where j: "k = Suc j" "length us \<le> j" by (cases k) auto
    have same: "p_attributes j d vs = p_attributes (length us) d vs" if "length vs \<le> length us" for d vs
      using less.IH [of j vs d] less.IH [of "length us" vs d] that j less.prems t by simp
    have "p_bind (p_default c) (p_attributes j) us = p_bind (p_default c) (p_attributes (length us)) us"
    proof (cases "p_default c us")
      case (Inr x)
      obtain d vs where "x = (d, vs)" by (cases x)
      with Inr have "length vs \<le> length us" using literal.shrinking unfolding shrinks_def by (auto simp: p_default_iff)
      with Inr \<open>x = (d, vs)\<close> show ?thesis by (simp add: p_bind_def same)
    qed (simp add: p_bind_def)
    with t j show ?thesis by (simp add: p_if_def same)
  qed
qed

lemma column_def_run:
  "g_column_def pre c \<Longrightarrow> p_column_def (pre @ rest) = p_attributes (length rest) c rest"
proof (induction arbitrary: rest rule: g_column_def.induct)
  case (column_def_start ts nm us ty)
  then show ?case
    by (simp add: p_column_def_def p_bind_run ident.complete col_type.complete)
next
  case (column_def_default ts c us v s)
  have "p_default c (us @ rest) = Inr (c\<lparr>has_default := True, default_value := v\<rparr>, rest)"
    using column_def_default.hyps by (simp add: p_default_iff literal.complete)
  with column_def_default.IH show ?case
    by (simp add: p_bind_run p_attributes_fuel [of rest "length us + length rest"])
qed simp_all

interpretation column_def: reader g_column_def p_column_def attribute
proof
  show "\<exists>pre. ts = pre @ rest \<and> g_column_def pre x" if "p_column_def ts = Inr (x, rest)" for ts x rest
  proof -
    from that obtain nm us ty vs where p: "p_identifier ts = Inr (nm, us)" "p_col_type us = Inr (ty, vs)"
      "p_attributes (length vs) (new_column nm ty) vs = Inr (x, rest)"
      by (auto simp: p_column_def_def parse_iffs)
    from ident.sound [OF p(1)] col_type.sound [OF p(2)] obtain a b where
      ab: "ts = a @ us" "g_identifier a nm" "us = b @ vs" "g_col_type b ty" by blast
    from p_attributes_sound [OF p(3) column_def_start [OF ab(2,4)]] obtain ws where
      "vs = ws @ rest" "g_column_def ((a @ b) @ ws) x" by blast
    with ab show ?thesis by (intro exI [of _ "a @ b @ ws"]) simp
  qed
qed (simp add: column_def_run p_attributes_end)

section \<open>WHERE\<close>

interpretation compare_op: reader g_compare_op p_compare_op nothing
proof
  show "\<exists>pre. ts = pre @ rest \<and> g_compare_op pre x" if "p_compare_op ts = Inr (x, rest)" for ts x rest
    using that by (cases ts rule: p_compare_op.cases) (auto intro: g_compare_op.intros)
qed (auto elim!: g_compare_op.cases)

interpretation atom: reader g_atom p_atom nothing
proof
  show "\<exists>pre. ts = pre @ rest \<and> g_atom pre x" if "p_atom ts = Inr (x, rest)" for ts x rest
    using that
    by (cases ts rule: p_atom.cases)
       (auto intro: atom_literal atom_identifier g_literal.intros g_identifier.intros)
qed (auto elim!: g_atom.cases g_literal.cases g_identifier.cases)

lemma atom_not_parenthesis: "g_atom pre x \<Longrightarrow> \<not> starts (is_tok LPAREN) (pre @ rest)"
  by (auto simp: is_tok_iff elim!: g_atom.cases g_literal.cases g_identifier.cases)

lemma compare_op_no_keyword:
  "g_compare_op pre x \<Longrightarrow> \<not> starts (is_kw kw) (pre @ rest) \<and> pre \<noteq> []"
  by (auto elim!: g_compare_op.cases)

text \<open>A comparison, BETWEEN or LIKE: a predicate without parentheses around it.\<close>

lemma p_relation_sound:
  assumes "p_relation ts = Inr (x, rest)"
  shows "\<exists>pre. ts = pre @ rest \<and> g_predicate pre x"
proof -
  from assms obtain l us where l: "p_atom ts = Inr (l, us)" by (auto simp: p_relation_def parse_iffs)
  from atom.sound [OF l] obtain a where a: "ts = a @ us" "g_atom a l" by blast
  from assms l consider
      (between) s vs lo s' ws hi where "us = Keyword BETWEEN s # vs" "p_atom vs = Inr (lo, Keyword AND_KW s' # ws)"
        "p_atom ws = Inr (hi, rest)" "x = BetweenExpr l lo hi"
    | (like) s vs r where "us = Keyword LIKE s # vs" "p_atom vs = Inr (r, rest)" "x = LikeExpr l r"
    | (compare) cop vs r where "p_compare_op us = Inr (cop, vs)" "p_atom vs = Inr (r, rest)" "x = CompareExpr cop l r"
    by (auto simp: p_relation_def parse_iffs)
  then show ?thesis
  proof cases
    case between
    from atom.sound [OF between(2)] atom.sound [OF between(3)] obtain b c where
      "vs = b @ Keyword AND_KW s' # ws" "g_atom b lo" "ws = c @ rest" "g_atom c hi" by blast
    with a between show ?thesis
      by (intro exI [of _ "a @ Keyword BETWEEN s # b @ Keyword AND_KW s' # c"]) (auto intro: predicate_between)
  next
    case like
    from atom.sound [OF like(2)] obtain b where "vs = b @ rest" "g_atom b r" by blast
    with a like show ?thesis by (intro exI [of _ "a @ Keyword LIKE s # b"]) (auto intro: predicate_like)
  next
    case compare
    from compare_op.sound [OF compare(1)] atom.sound [OF compare(2)] obtain b c where
      "us = b @ vs" "g_compare_op b cop" "vs = c @ rest" "g_atom c r" by blast
    with a compare show ?thesis by (intro exI [of _ "a @ b @ c"]) (auto intro: predicate_compare)
  qed
qed

lemma p_relation_compare:
  assumes "g_atom a l" and "g_compare_op b cop" and "g_atom c r"
  shows "p_relation (a @ b @ c @ rest) = Inr (CompareExpr cop l r, rest)"
  using assms compare_op_no_keyword [OF assms(2), of _ "c @ rest"]
  by (simp add: p_relation_def p_bind_run atom.complete compare_op.complete p_if_no)

lemma p_relation_between:
  assumes "g_atom a e" and "g_atom b lo" and "g_atom c hi"
  shows "p_relation (a @ Keyword BETWEEN s # b @ Keyword AND_KW s' # c @ rest) = Inr (BetweenExpr e lo hi, rest)"
  using assms by (simp add: p_relation_def p_bind_run atom.complete)

lemma p_relation_like:
  assumes "g_atom a e" and "g_atom b p"
  shows "p_relation (a @ Keyword LIKE s # b @ rest) = Inr (LikeExpr e p, rest)"
  using assms by (simp add: p_relation_def p_bind_run atom.complete)

text \<open>Expressions. Reading one of length at most \<open>k\<close> needs at most \<open>k\<close> levels of parentheses.\<close>

lemma p_and_sound:
  assumes "\<And>ts x rest. p_expr' ts = Inr (x, rest) \<Longrightarrow> \<exists>pre. ts = pre @ rest \<and> g_or_expr pre x"
  shows "p_predicate p_expr' ts = Inr (x, rest) \<Longrightarrow> \<exists>pre. ts = pre @ rest \<and> g_predicate pre x"
    and "p_and p_expr' ts = Inr (x, rest) \<Longrightarrow> \<exists>pre. ts = pre @ rest \<and> g_and_expr pre x"
proof -
  have pred: "\<exists>pre. ts = pre @ rest \<and> g_predicate pre x" if p: "p_predicate p_expr' ts = Inr (x, rest)" for ts x rest
  proof (cases "starts (is_tok LPAREN) ts")
    case True
    with p obtain us where us: "ts = LPAREN # us" "p_expr' us = Inr (x, RPAREN # rest)"
      by (auto simp: p_predicate_def parse_iffs)
    from assms [OF us(2)] obtain pre where "us = pre @ RPAREN # rest" "g_or_expr pre x" by blast
    with us show ?thesis by (intro exI [of _ "LPAREN # pre @ [RPAREN]"]) (auto intro: predicate_parens)
  next
    case False
    with p show ?thesis by (intro p_relation_sound) (auto simp: p_predicate_def p_if_no)
  qed
  then show "p_predicate p_expr' ts = Inr (x, rest) \<Longrightarrow> \<exists>pre. ts = pre @ rest \<and> g_predicate pre x" by blast
  show "\<exists>pre. ts = pre @ rest \<and> g_and_expr pre x" if "p_and p_expr' ts = Inr (x, rest)"
    using that unfolding p_and_def
    by (rule p_chain_sound [where H = g_and_expr, OF pred, rotated -1])
       (auto simp: parse_iffs intro: and_expr_one and_expr_and)
qed

lemma p_or_sound: "p_or k ts = Inr (x, rest) \<Longrightarrow> \<exists>pre. ts = pre @ rest \<and> g_or_expr pre x"
proof (induction k arbitrary: ts x rest)
  case (Suc k)
  from Suc.prems show ?case unfolding p_or.simps
    by (rule p_chain_sound [where H = g_or_expr, OF p_and_sound(2) [OF Suc.IH], rotated -1])
       (auto simp: parse_iffs intro: or_expr_one or_expr_or)
qed (simp add: parse_iffs)

lemma shrinks_by:
  assumes "\<And>ts x rest. p ts = Inr (x, rest) \<Longrightarrow> \<exists>pre. ts = pre @ rest \<and> G pre x"
  shows "shrinks p"
  unfolding shrinks_def using assms by fastforce

lemma shrinks_expr: "shrinks (p_predicate (p_or k))" "shrinks (p_and (p_or k))"
  by (rule shrinks_by, rule p_and_sound, rule p_or_sound, assumption+)+

abbreviation or_loop :: "nat \<Rightarrow> Expr \<Rightarrow> Expr sparser" where
  "or_loop k e rest \<equiv> p_more (length rest) (is_kw OR_KW) (p_and (p_or k)) (LogicalExpr Or) e rest"

abbreviation and_loop :: "nat \<Rightarrow> Expr \<Rightarrow> Expr sparser" where
  "and_loop k e rest \<equiv> p_more (length rest) (is_kw AND_KW) (p_predicate (p_or k)) (LogicalExpr And) e rest"

lemma expr_run:
  "g_or_expr pre e \<Longrightarrow> \<forall>k rest. length pre \<le> k \<longrightarrow> \<not> starts (is_kw AND_KW) rest \<longrightarrow>
     p_or (Suc k) (pre @ rest) = or_loop k e rest"
  "g_and_expr pre e \<Longrightarrow> \<forall>k rest. length pre \<le> k \<longrightarrow> p_and (p_or k) (pre @ rest) = and_loop k e rest"
  "g_predicate pre e \<Longrightarrow> \<forall>k rest. length pre \<le> k \<longrightarrow> p_predicate (p_or k) (pre @ rest) = Inr (e, rest)"
proof (induction rule: g_or_expr_g_and_expr_g_predicate.inducts)
  case (or_expr_one ts e)
  then show ?case by (simp add: p_chain_start p_more_end)
next
  case (or_expr_or ts l us r s)
  show ?case
  proof (intro allI impI)
    fix k rest assume k: "length (ts @ Keyword OR_KW s # us) \<le> k" and rest: "\<not> starts (is_kw AND_KW) rest"
    have "p_or (Suc k) (ts @ Keyword OR_KW s # us @ rest) = or_loop k l (Keyword OR_KW s # us @ rest)"
      using or_expr_or.IH(1) k by simp
    also have "\<dots> = or_loop k (LogicalExpr Or l r) rest"
      by (intro p_more_step shrinks_expr) (use or_expr_or.IH(2) k rest in \<open>simp_all add: p_more_end\<close>)
    finally show "p_or (Suc k) ((ts @ Keyword OR_KW s # us) @ rest) = or_loop k (LogicalExpr Or l r) rest" by simp
  qed
next
  case (and_expr_one ts e)
  then show ?case by (simp add: p_and_def p_chain_start)
next
  case (and_expr_and ts l us r s)
  show ?case
  proof (intro allI impI)
    fix k rest assume k: "length (ts @ Keyword AND_KW s # us) \<le> k"
    have "p_and (p_or k) (ts @ Keyword AND_KW s # us @ rest) = and_loop k l (Keyword AND_KW s # us @ rest)"
      using and_expr_and.IH(1) k by simp
    also have "\<dots> = and_loop k (LogicalExpr And l r) rest"
      by (intro p_more_step shrinks_expr) (use and_expr_and.IH(2) k in simp_all)
    finally show "p_and (p_or k) ((ts @ Keyword AND_KW s # us) @ rest) = and_loop k (LogicalExpr And l r) rest" by simp
  qed
next
  case (predicate_parens ts e)
  show ?case
  proof (intro allI impI)
    fix k rest assume "length (LPAREN # ts @ [RPAREN]) \<le> k"
    then obtain j where j: "k = Suc j" "length ts \<le> j" by (cases k) auto
    have "p_or k (ts @ RPAREN # rest) = Inr (e, RPAREN # rest)"
      using predicate_parens.IH j by (simp add: p_more_end)
    then show "p_predicate (p_or k) ((LPAREN # ts @ [RPAREN]) @ rest) = Inr (e, rest)"
      by (simp add: p_predicate_def p_bind_run is_tok_iff)
  qed
qed (simp_all add: p_predicate_def p_if_no atom_not_parenthesis p_relation_compare p_relation_between p_relation_like)

abbreviation expr_goes_on :: "token \<Rightarrow> bool" where
  "expr_goes_on t \<equiv> is_kw OR_KW t \<or> is_kw AND_KW t"

interpretation expr: reader g_or_expr p_expr expr_goes_on
proof
  show "p_expr (pre @ rest) = Inr (x, rest)" if "g_or_expr pre x" "\<not> starts expr_goes_on rest" for pre x rest
  proof -
    have "\<not> starts (is_kw AND_KW) rest" "\<not> starts (is_kw OR_KW) rest" using that(2) by (auto simp: starts_iff)
    then show ?thesis using expr_run(1) [OF that(1)] by (simp add: p_expr_def p_more_end)
  qed
qed (unfold p_expr_def, rule p_or_sound)

interpretation opt_where: reader g_opt_where p_opt_where "\<lambda>t. is_kw WHERE t \<or> expr_goes_on t"
proof
  show "\<exists>pre. ts = pre @ rest \<and> g_opt_where pre x" if "p_opt_where ts = Inr (x, rest)" for ts x rest
    using that unfolding p_opt_where_def
    by (auto simp: parse_iffs dest!: expr.sound intro: g_opt_where.intros)
  show "p_opt_where (pre @ rest) = Inr (x, rest)"
    if "g_opt_where pre x" "\<not> starts (\<lambda>t. is_kw WHERE t \<or> expr_goes_on t) rest" for pre x rest
  proof -
    have "\<not> starts (is_kw WHERE) rest" "\<not> starts expr_goes_on rest" using that(2) by (auto simp: starts_iff)
    with that(1) show ?thesis
      by cases (simp_all add: p_opt_where_def p_if_no p_bind_run expr.complete)
  qed
qed

section \<open>SELECT items, rows, assignments\<close>

lemma p_alias_iff:
  "p_alias it ts = Inr (x, rest) \<longleftrightarrow>
     (\<exists>s us a. ts = Keyword AS s # us \<and> p_identifier us = Inr (a, rest) \<and> x = it\<lparr>item_alias := a\<rparr>) \<or>
     \<not> starts (is_kw AS) ts \<and> x = it \<and> rest = ts"
  unfolding p_alias_def by (auto simp: parse_iffs)

lemma p_alias_run:
  "\<not> starts (is_kw AS) rest \<Longrightarrow> p_alias it rest = Inr (it, rest)"
  "g_identifier us a \<Longrightarrow> p_alias it (Keyword AS s # us @ rest) = Inr (it\<lparr>item_alias := a\<rparr>, rest)"
  by (simp_all add: p_alias_def p_if_no p_bind_run ident.complete)

lemma p_only_count_iff:
  "p_only_count fn ts = Inr (x, rest) \<longleftrightarrow>
     fn = Count \<and> p_alias (new_item\<lparr>agg := fn, agg_star := True\<rparr>) ts = Inr (x, rest)"
  by (auto simp: p_only_count_def Let_def split: sum.splits if_splits)

lemma aggregate_of_iff:
  "aggregate_of ts \<noteq> AggNone \<longleftrightarrow> (\<exists>pre us. ts = pre @ LPAREN # us \<and> g_aggregate_fn pre (aggregate_of ts) \<and> drop 2 ts = us)"
proof (cases ts rule: aggregate_of.cases)
  case (1 kw s us)
  then show ?thesis
    by (auto simp: append_eq_Cons_conv intro!: exI [of _ "[Keyword kw s]"] g_aggregate_fn.intros elim!: g_aggregate_fn.cases)
qed (auto simp: append_eq_Cons_conv elim!: g_aggregate_fn.cases)

lemma aggregate_of_run:
  "g_aggregate_fn pre fn \<Longrightarrow> aggregate_of (pre @ LPAREN # us) = fn \<and> fn \<noteq> AggNone \<and> drop 2 (pre @ LPAREN # us) = us"
  by (auto elim!: g_aggregate_fn.cases)

lemma aggregate_of_identifier:
  "g_identifier pre c \<Longrightarrow> \<not> starts (is_tok LPAREN) rest \<Longrightarrow> aggregate_of (pre @ rest) = AggNone"
  by (cases rest; cases "hd rest") (auto simp: is_tok_iff elim!: g_identifier.cases)

lemma p_aggregate_sound:
  assumes "g_aggregate_fn ts fn" and "p_aggregate fn us = Inr (x, rest)"
  shows "\<exists>vs. us = vs @ rest \<and> g_select_item (ts @ LPAREN # vs) x"
proof (cases "starts (is_tok STAR) us")
  case True
  with assms(2) obtain vs where vs: "us = STAR # RPAREN # vs" "fn = Count"
    "p_alias (new_item\<lparr>agg := fn, agg_star := True\<rparr>) vs = Inr (x, rest)"
    by (auto simp: p_aggregate_def parse_iffs p_only_count_iff)
  from vs(3) consider s ws a where "vs = Keyword AS s # ws" "p_identifier ws = Inr (a, rest)"
      "x = new_item\<lparr>agg := fn, agg_star := True, item_alias := a\<rparr>"
    | "vs = rest" "x = new_item\<lparr>agg := fn, agg_star := True\<rparr>"
    unfolding p_alias_iff by auto
  then show ?thesis
  proof cases
    case 1
    from ident.sound [OF 1(2)] obtain a' where "ws = a' @ rest" "g_identifier a' a" by blast
    with 1 vs assms(1) item_star_as [of ts a' a s] show ?thesis
      by (intro exI [of _ "STAR # RPAREN # Keyword AS s # a'"]) simp
  next
    case 2
    with vs assms(1) item_star [of ts] show ?thesis by (intro exI [of _ "[STAR, RPAREN]"]) simp
  qed
next
  case False
  with assms(2) obtain c vs where c: "p_identifier us = Inr (c, RPAREN # vs)"
    "p_alias (new_item\<lparr>agg := fn, item_column := c\<rparr>) vs = Inr (x, rest)"
    by (auto simp: p_aggregate_def parse_iffs)
  from ident.sound [OF c(1)] obtain cs where cs: "us = cs @ RPAREN # vs" "g_identifier cs c" by blast
  from c(2) consider s ws a where "vs = Keyword AS s # ws" "p_identifier ws = Inr (a, rest)"
      "x = new_item\<lparr>agg := fn, item_column := c, item_alias := a\<rparr>"
    | "vs = rest" "x = new_item\<lparr>agg := fn, item_column := c\<rparr>"
    unfolding p_alias_iff by auto
  then show ?thesis
  proof cases
    case 1
    from ident.sound [OF 1(2)] obtain a' where "ws = a' @ rest" "g_identifier a' a" by blast
    with 1 cs item_agg_as [OF assms(1) cs(2), of a' a s] show ?thesis
      by (intro exI [of _ "cs @ RPAREN # Keyword AS s # a'"]) simp
  next
    case 2
    with cs item_agg [OF assms(1) cs(2)] show ?thesis by (intro exI [of _ "cs @ [RPAREN]"]) simp
  qed
qed

lemma p_select_item_sound:
  assumes "p_select_item ts = Inr (x, rest)"
  shows "\<exists>pre. ts = pre @ rest \<and> g_select_item pre x"
proof (cases "aggregate_of ts = AggNone")
  case True
  with assms obtain c us where c: "p_identifier ts = Inr (c, us)" "p_alias (new_item\<lparr>item_column := c\<rparr>) us = Inr (x, rest)"
    by (auto simp: p_select_item_def parse_iffs)
  from ident.sound [OF c(1)] obtain pre where pre: "ts = pre @ us" "g_identifier pre c" by blast
  from c(2) consider s ws a where "us = Keyword AS s # ws" "p_identifier ws = Inr (a, rest)"
      "x = new_item\<lparr>item_column := c, item_alias := a\<rparr>"
    | "us = rest" "x = new_item\<lparr>item_column := c\<rparr>"
    unfolding p_alias_iff by auto
  then show ?thesis
  proof cases
    case 1
    from ident.sound [OF 1(2)] obtain a' where "ws = a' @ rest" "g_identifier a' a" by blast
    with 1 pre item_column_as [OF pre(2), of a' a s] show ?thesis
      by (intro exI [of _ "pre @ Keyword AS s # a'"]) simp
  qed (use pre item_column in auto)
next
  case False
  then obtain pre us where pre: "ts = pre @ LPAREN # us" "g_aggregate_fn pre (aggregate_of ts)" "drop 2 ts = us"
    unfolding aggregate_of_iff by blast
  from assms False pre(3) have "p_aggregate (aggregate_of ts) us = Inr (x, rest)" by (simp add: p_select_item_def)
  from p_aggregate_sound [OF pre(2) this] pre(1) show ?thesis by fastforce
qed

text \<open>An item is not followed by AS, nor by a parenthesis: its first word would be the name of a function.\<close>

abbreviation item_goes_on :: "token \<Rightarrow> bool" where
  "item_goes_on t \<equiv> is_kw AS t \<or> t = LPAREN"

lemma identifier_not_star: "g_identifier pre c \<Longrightarrow> \<not> starts (is_tok STAR) (pre @ rest)"
  by (auto simp: is_tok_iff elim!: g_identifier.cases)

lemma p_select_item_complete:
  assumes "g_select_item pre x" and "\<not> starts item_goes_on rest"
  shows "p_select_item (pre @ rest) = Inr (x, rest)"
proof -
  have rest: "\<not> starts (is_kw AS) rest" "\<not> starts (is_tok LPAREN) rest" using assms(2) by (auto simp: parse_iffs)
  have column: "p_select_item (ts @ us) = p_alias (new_item\<lparr>item_column := c\<rparr>) us"
    if "g_identifier ts c" "\<not> starts (is_tok LPAREN) us" for ts c us
    using that by (simp add: p_select_item_def aggregate_of_identifier p_bind_run ident.complete)
  have fn: "p_select_item (ts @ LPAREN # us) = p_aggregate fn us" if "g_aggregate_fn ts fn" for ts fn us
    using aggregate_of_run [OF that, of us] by (auto simp: p_select_item_def)
  show ?thesis
    using assms(1) rest
    by cases (simp_all add: column fn is_tok_iff p_alias_run p_aggregate_def p_only_count_def p_bind_run
      ident.complete p_if_no identifier_not_star)
qed

interpretation select_item: reader g_select_item p_select_item item_goes_on
  by unfold_locales (rule p_select_item_sound, assumption, rule p_select_item_complete)

interpretation item_list: reader "comma_list g_select_item" "p_list p_select_item" "\<lambda>t. item_goes_on t \<or> t = COMMA"
  by (rule reader_list [OF select_item.reader_axioms]) simp

interpretation literal_list: reader "comma_list g_literal" "p_list p_literal" "\<lambda>t. False \<or> t = COMMA"
  by (rule reader_list [OF literal.reader_axioms]) simp

interpretation name_list: reader "comma_list g_identifier" "p_list p_identifier" "\<lambda>t. False \<or> t = COMMA"
  by (rule reader_list [OF ident.reader_axioms]) simp

interpretation column_list: reader "comma_list g_column_def" "p_list p_column_def" "\<lambda>t. attribute t \<or> t = COMMA"
  by (rule reader_list [OF column_def.reader_axioms]) simp

text \<open>What stands in parentheses ends with the closing one, whatever follows.\<close>

lemma p_parens_iff:
  "p_parens p ts = Inr (x, rest) \<longleftrightarrow> (\<exists>us. ts = LPAREN # us \<and> p us = Inr (x, RPAREN # rest))"
  unfolding p_parens_def by (auto simp: parse_iffs)

lemma p_parens_run: "p (us @ RPAREN # rest) = Inr (x, RPAREN # rest) \<Longrightarrow> p_parens p (LPAREN # us @ RPAREN # rest) = Inr (x, rest)"
  by (simp add: p_parens_iff)

interpretation insert_row: reader g_insert_row p_insert_row nothing
proof
  show "\<exists>pre. ts = pre @ rest \<and> g_insert_row pre x" if "p_insert_row ts = Inr (x, rest)" for ts x rest
  proof -
    from that obtain us where us: "ts = LPAREN # us" "p_list p_literal us = Inr (x, RPAREN # rest)"
      by (auto simp: p_insert_row_def p_parens_iff)
    from literal_list.sound [OF us(2)] obtain pre where "us = pre @ RPAREN # rest" "comma_list g_literal pre x" by blast
    with us insert_row [of pre x] show ?thesis by (intro exI [of _ "LPAREN # pre @ [RPAREN]"]) simp
  qed
qed (auto simp: p_insert_row_def p_parens_run literal_list.complete elim!: g_insert_row.cases)

interpretation row_list: reader "comma_list g_insert_row" "p_list p_insert_row" "\<lambda>t. False \<or> t = COMMA"
  by (rule reader_list [OF insert_row.reader_axioms]) simp

interpretation insert_cols: reader g_opt_insert_cols p_opt_insert_cols "is_tok LPAREN"
proof
  show "\<exists>pre. ts = pre @ rest \<and> g_opt_insert_cols pre x" if "p_opt_insert_cols ts = Inr (x, rest)" for ts x rest
  proof (cases "starts (is_tok LPAREN) ts")
    case True
    with that obtain us where us: "ts = LPAREN # us" "p_list p_identifier us = Inr (x, RPAREN # rest)"
      by (auto simp: p_opt_insert_cols_def p_parens_iff)
    from name_list.sound [OF us(2)] obtain pre where "us = pre @ RPAREN # rest" "comma_list g_identifier pre x" by blast
    with us insert_cols_some [of pre x] show ?thesis by (intro exI [of _ "LPAREN # pre @ [RPAREN]"]) simp
  next
    case False
    with that insert_cols_none show ?thesis by (auto simp: p_opt_insert_cols_def)
  qed
  show "p_opt_insert_cols (pre @ rest) = Inr (x, rest)"
    if "g_opt_insert_cols pre x" "\<not> starts (is_tok LPAREN) rest" for pre x rest
    using that by cases (simp_all add: p_opt_insert_cols_def p_parens_run name_list.complete is_tok_iff)
qed

interpretation assignment: reader g_assignment p_assignment nothing
proof
  show "\<exists>pre. ts = pre @ rest \<and> g_assignment pre x" if "p_assignment ts = Inr (x, rest)" for ts x rest
  proof -
    from that obtain c t us e where p: "p_identifier ts = Inr (c, t # us)" "t = EQ \<or> t = EQEQ"
      "p_atom us = Inr (e, rest)" "x = (c, e)"
      by (auto simp: p_assignment_def parse_iffs)
    from ident.sound [OF p(1)] atom.sound [OF p(3)] obtain a b where
      "ts = a @ t # us" "g_identifier a c" "us = b @ rest" "g_atom b e" by blast
    with p show ?thesis
      by (intro exI [of _ "a @ t # b"]) (auto intro: assignment_eq assignment_eqeq)
  qed
qed (auto simp: p_assignment_def p_bind_run ident.complete atom.complete elim!: g_assignment.cases)

interpretation assignment_list: reader "comma_list g_assignment" "p_list p_assignment" "\<lambda>t. False \<or> t = COMMA"
  by (rule reader_list [OF assignment.reader_axioms]) simp

interpretation select_items: reader g_select_items p_select_items "\<lambda>t. item_goes_on t \<or> t = COMMA"
proof
  show "\<exists>pre. ts = pre @ rest \<and> g_select_items pre x" if "p_select_items ts = Inr (x, rest)" for ts x rest
    using that unfolding p_select_items_def
    by (auto simp: parse_iffs dest!: item_list.sound intro: items_list items_star)
  have no_star: "comma_list g_select_item pre xs \<Longrightarrow> \<not> starts (is_tok STAR) (pre @ rest)" for pre xs rest
    by (induction arbitrary: rest rule: comma_list.induct)
       (auto simp: is_tok_iff elim!: g_select_item.cases g_identifier.cases g_aggregate_fn.cases)
  show "p_select_items (pre @ rest) = Inr (x, rest)"
    if "g_select_items pre x" "\<not> starts (\<lambda>t. item_goes_on t \<or> t = COMMA) rest" for pre x rest
    using that by cases (simp_all add: p_select_items_def p_if_no no_star item_list.complete is_tok_iff)
qed

section \<open>Statements\<close>

text \<open>A statement is followed by its semicolon.\<close>

abbreviation no_semicolon :: "token \<Rightarrow> bool" where
  "no_semicolon t \<equiv> t \<noteq> SEMI"

lemma at_semicolon: "\<not> starts no_semicolon rest \<Longrightarrow> \<not> P SEMI \<Longrightarrow> \<not> starts P rest"
  by (cases rest) auto

lemmas run_simps = p_bind_run ident.complete table_ref.complete select_items.complete column_list.complete
  insert_cols.complete row_list.complete assignment_list.complete opt_where.complete p_parens_run is_tok_iff

lemma p_create_sound:
  assumes "p_create ts = Inr (x, rest)"
  shows "\<exists>pre. ts = pre @ rest \<and> g_stmt (Keyword CREATE s # pre) x"
proof -
  from assms consider
      (database) s' us nm where "ts = Keyword DATABASE_KW s' # us" "p_identifier us = Inr (nm, rest)" "x = CreateDatabaseStmt nm"
    | (table) s' us t vs cs where "ts = Keyword TABLE s' # us" "p_table_ref us = Inr (t, LPAREN # vs)"
        "p_list p_column_def vs = Inr (cs, RPAREN # rest)" "x = CreateTableStmt t cs"
    unfolding p_create_def by (auto simp: parse_iffs p_parens_iff)
  then show ?thesis
  proof cases
    case database
    from ident.sound [OF database(2)] obtain a where "us = a @ rest" "g_identifier a nm" by blast
    with database stmt_create_database [of a nm s s'] show ?thesis
      by (intro exI [of _ "Keyword DATABASE_KW s' # a"]) simp
  next
    case table
    from table_ref.sound [OF table(2)] column_list.sound [OF table(3)] obtain a b where
      "us = a @ LPAREN # vs" "g_table_ref a t" "vs = b @ RPAREN # rest" "comma_list g_column_def b cs" by blast
    with table stmt_create_table [of a t b cs s s'] show ?thesis
      by (intro exI [of _ "Keyword TABLE s' # a @ LPAREN # b @ [RPAREN]"]) simp
  qed
qed

lemma p_drop_sound:
  assumes "p_drop ts = Inr (x, rest)"
  shows "\<exists>pre. ts = pre @ rest \<and> g_stmt (Keyword DROP s # pre) x"
proof -
  from assms consider
      (database) s' us nm where "ts = Keyword DATABASE_KW s' # us" "p_identifier us = Inr (nm, rest)" "x = DropDatabaseStmt nm"
    | (table) s' us t where "ts = Keyword TABLE s' # us" "p_table_ref us = Inr (t, rest)" "x = DropTableStmt t"
    unfolding p_drop_def by (auto simp: parse_iffs)
  then show ?thesis
  proof cases
    case database
    from ident.sound [OF database(2)] obtain a where "us = a @ rest" "g_identifier a nm" by blast
    with database stmt_drop_database [of a nm s s'] show ?thesis
      by (intro exI [of _ "Keyword DATABASE_KW s' # a"]) simp
  next
    case table
    from table_ref.sound [OF table(2)] obtain a where "us = a @ rest" "g_table_ref a t" by blast
    with table stmt_drop_table [of a t s s'] show ?thesis
      by (intro exI [of _ "Keyword TABLE s' # a"]) simp
  qed
qed

lemma p_use_sound:
  assumes "p_use ts = Inr (x, rest)"
  shows "\<exists>pre. ts = pre @ rest \<and> g_stmt (Keyword USE s # pre) x"
  using assms unfolding p_use_def by (auto simp: parse_iffs dest!: ident.sound intro: stmt_use)

lemma p_insert_sound:
  assumes "p_insert ts = Inr (x, rest)"
  shows "\<exists>pre. ts = pre @ rest \<and> g_stmt (Keyword INSERT s # pre) x"
proof -
  from assms obtain s' us t vs cols s'' ws rows where p: "ts = Keyword INTO s' # us" "p_table_ref us = Inr (t, vs)"
    "p_opt_insert_cols vs = Inr (cols, Keyword VALUE_KW s'' # ws)" "p_list p_insert_row ws = Inr (rows, rest)"
    "x = InsertStmt t cols rows"
    unfolding p_insert_def by (auto simp: parse_iffs)
  from table_ref.sound [OF p(2)] insert_cols.sound [OF p(3)] row_list.sound [OF p(4)] obtain a b c where
    "us = a @ vs" "g_table_ref a t" "vs = b @ Keyword VALUE_KW s'' # ws" "g_opt_insert_cols b cols"
    "ws = c @ rest" "comma_list g_insert_row c rows" by blast
  with p stmt_insert [of a t b cols c rows s s' s''] show ?thesis
    by (intro exI [of _ "Keyword INTO s' # a @ b @ Keyword VALUE_KW s'' # c"]) simp
qed

lemma p_update_sound:
  assumes "p_update ts = Inr (x, rest)"
  shows "\<exists>pre. ts = pre @ rest \<and> g_stmt (Keyword UPDATE s # pre) x"
proof -
  from assms obtain t s' us as vs cond where p: "p_table_ref ts = Inr (t, Keyword SET s' # us)"
    "p_list p_assignment us = Inr (as, vs)" "p_opt_where vs = Inr (cond, rest)" "x = UpdateStmt t as cond"
    unfolding p_update_def by (auto simp: parse_iffs)
  from table_ref.sound [OF p(1)] assignment_list.sound [OF p(2)] opt_where.sound [OF p(3)] obtain a b c where
    "ts = a @ Keyword SET s' # us" "g_table_ref a t" "us = b @ vs" "comma_list g_assignment b as"
    "vs = c @ rest" "g_opt_where c cond" by blast
  with p stmt_update [of a t b as c cond s s'] show ?thesis
    by (intro exI [of _ "a @ Keyword SET s' # b @ c"]) simp
qed

lemma p_delete_sound:
  assumes "p_delete ts = Inr (x, rest)"
  shows "\<exists>pre. ts = pre @ rest \<and> g_stmt (Keyword DELETE s # pre) x"
proof -
  from assms obtain s' us t vs cond where p: "ts = Keyword FROM s' # us" "p_table_ref us = Inr (t, vs)"
    "p_opt_where vs = Inr (cond, rest)" "x = DeleteStmt t cond"
    unfolding p_delete_def by (auto simp: parse_iffs)
  from table_ref.sound [OF p(2)] opt_where.sound [OF p(3)] obtain a b where
    "us = a @ vs" "g_table_ref a t" "vs = b @ rest" "g_opt_where b cond" by blast
  with p stmt_delete [of a t b cond s s'] show ?thesis
    by (intro exI [of _ "Keyword FROM s' # a @ b"]) simp
qed

lemma p_select_sound:
  assumes "p_select ts = Inr (x, rest)"
  shows "\<exists>pre. ts = pre @ rest \<and> g_stmt (Keyword SELECT s # pre) x"
proof -
  from assms obtain items s' us t vs cond where p: "p_select_items ts = Inr (items, Keyword FROM s' # us)"
    "p_table_ref us = Inr (t, vs)" "p_opt_where vs = Inr (cond, rest)" "x = SelectStmt t items cond"
    unfolding p_select_def by (auto simp: parse_iffs)
  from select_items.sound [OF p(1)] table_ref.sound [OF p(2)] opt_where.sound [OF p(3)] obtain a b c where
    "ts = a @ Keyword FROM s' # us" "g_select_items a items" "us = b @ vs" "g_table_ref b t"
    "vs = c @ rest" "g_opt_where c cond" by blast
  with p stmt_select [of a items b t c cond s s'] show ?thesis
    by (intro exI [of _ "a @ Keyword FROM s' # b @ c"]) simp
qed

lemma p_stmt_sound:
  assumes "p_stmt ts = Inr (x, rest)"
  shows "\<exists>pre. ts = pre @ rest \<and> g_stmt pre x"
proof -
  have via: "\<exists>pre. ts = pre @ rest \<and> g_stmt pre x"
    if "ts = t # us" "\<exists>pre. us = pre @ rest \<and> g_stmt (t # pre) x" for t us
    using that by (metis append_Cons)
  from assms consider
      s us where "ts = Keyword CREATE s # us" "p_create us = Inr (x, rest)"
    | s us where "ts = Keyword DROP s # us" "p_drop us = Inr (x, rest)"
    | s us where "ts = Keyword USE s # us" "p_use us = Inr (x, rest)"
    | s us where "ts = Keyword INSERT s # us" "p_insert us = Inr (x, rest)"
    | s us where "ts = Keyword UPDATE s # us" "p_update us = Inr (x, rest)"
    | s us where "ts = Keyword DELETE s # us" "p_delete us = Inr (x, rest)"
    | s us where "ts = Keyword SELECT s # us" "p_select us = Inr (x, rest)"
    unfolding p_stmt_def by (auto simp: parse_iffs)
  then show ?thesis
    by cases (erule via, rule p_create_sound p_drop_sound p_use_sound p_insert_sound p_update_sound
      p_delete_sound p_select_sound, assumption)+
qed

lemma p_stmt_complete:
  assumes "g_stmt pre x" and "\<not> starts no_semicolon rest"
  shows "p_stmt (pre @ rest) = Inr (x, rest)"
proof -
  have stop: "\<not> starts (is_tok DOT) rest" "\<not> starts (\<lambda>t. is_kw WHERE t \<or> expr_goes_on t) rest"
    "\<not> starts (\<lambda>t. False \<or> t = COMMA) rest"
    by (rule at_semicolon [OF assms(2)], simp add: is_tok_iff)+
  have cond_stop: "\<not> starts (is_tok DOT) (us @ rest)" "\<not> starts (\<lambda>t. False \<or> t = COMMA) (us @ rest)"
    if "g_opt_where us cond" for us cond
    using that stop by (auto simp: is_tok_iff elim!: g_opt_where.cases)
  from assms(1) show ?thesis
  proof cases
    case (stmt_insert ts t us cols vs rows s s' s'')
    have "\<not> starts (is_tok DOT) (us @ Keyword VALUE_KW s'' # vs @ rest)"
      using stmt_insert(4) by (auto simp: is_tok_iff elim!: g_opt_insert_cols.cases)
    with stmt_insert stop show ?thesis by (simp add: p_stmt_def p_insert_def run_simps)
  next
    case (stmt_update ts t us as vs cond s s')
    with stop cond_stop [of vs cond] show ?thesis by (simp add: p_stmt_def p_update_def run_simps)
  next
    case (stmt_delete ts t us cond s s')
    with stop cond_stop [of us cond] show ?thesis by (simp add: p_stmt_def p_delete_def run_simps)
  next
    case (stmt_select ts items us t vs cond s s')
    with stop cond_stop [of vs cond] show ?thesis by (simp add: p_stmt_def p_select_def run_simps)
  qed (use stop in \<open>simp_all add: p_stmt_def p_create_def p_drop_def p_use_def run_simps\<close>)
qed

interpretation stmt: reader g_stmt p_stmt no_semicolon
  by unfold_locales (rule p_stmt_sound, assumption, rule p_stmt_complete)

text \<open>The whole text: accepted exactly when the grammar derives it.\<close>

lemma p_program_iff: "p_program ts = (Some stmt, None) \<longleftrightarrow> (\<exists>pre rest. ts = pre @ [SEMI, YYEOF] @ rest \<and> g_stmt pre stmt)"
proof
  assume "p_program ts = (Some stmt, None)"
  then obtain us where us: "p_stmt ts = Inr (stmt, us)" "starts (is_tok SEMI) us" "starts (is_tok YYEOF) (tl us)"
    by (auto simp: p_program_def split: sum.splits if_splits)
  then obtain rest where "us = [SEMI, YYEOF] @ rest" by (auto simp: parse_iffs)
  with stmt.sound [OF us(1)] show "\<exists>pre rest. ts = pre @ [SEMI, YYEOF] @ rest \<and> g_stmt pre stmt" by blast
next
  assume "\<exists>pre rest. ts = pre @ [SEMI, YYEOF] @ rest \<and> g_stmt pre stmt"
  then show "p_program ts = (Some stmt, None)"
    by (auto simp: p_program_def stmt.complete is_tok_iff)
qed

end
