(* ===== verification/Scanner_Correct.thy ===== *)
theory Scanner_Correct
  imports Scanner "HOL-Library.Sublist"
begin

text \<open>
  The scanner: some rule matches every text; what it leaves in the context; and that it reads
  back tokens in any of their spellings, whatever blanks, line ends and comments are around them.
\<close>

section \<open>The rules\<close>

lemma in_matches: "in_rexp (take m s) r \<Longrightarrow> m \<le> length s \<Longrightarrow> match_len r s \<noteq> None"
  unfolding match_len_None by blast

lemma in_one: "P c \<Longrightarrow> in_rexp (take 1 (c # cs)) (OneOf P)"
  by simp

lemma every_text_matches:
  assumes "s \<noteq> []"
  shows "best_match sql_rules s \<noteq> None"
proof -
  obtain c cs where s: "s = c # cs" using assms by (cases s) auto
  show ?thesis
  proof (cases "c = CHR 0x0A")
    case True
    let ?r = "Seq (Maybe (word_rx [CHR 0x0D])) (word_rx [CHR 0x0A])"
    have "in_rexp (take 1 s) ?r" using True by (simp add: s Maybe_def in_Seq_iff)
    then have "match_len ?r s \<noteq> None" by (rule in_matches) (simp add: s)
    moreover have "(?r, New_line) \<in> set sql_rules" by (simp add: sql_rules_def)
    ultimately show ?thesis unfolding best_match_None by fastforce
  next
    case False
    have "in_rexp (take 1 s) (Except [CHR 0x0A])" using False by (simp add: s Except_def)
    then have "match_len (Except [CHR 0x0A]) s \<noteq> None" by (rule in_matches) (simp add: s)
    moreover have "(Except [CHR 0x0A], Unexpected) \<in> set sql_rules" by (simp add: sql_rules_def)
    ultimately show ?thesis unfolding best_match_None by fastforce
  qed
qed

section \<open>The context\<close>

definition clean :: "parse_context \<Rightarrow> bool" where
  "clean ctx \<longleftrightarrow> \<not> pc_lex_error ctx \<and> pc_error_msg ctx = []"

lemma clean_new: "clean new_context"
  by (simp add: clean_def new_context_def)

lemma clean_user_action: "yy_user_action n ctx = (loc, ctx') \<Longrightarrow> clean ctx' = clean ctx"
  by (auto simp: yy_user_action_def yyextra_col_line_def yyextra_col_col_def yyextra_col_advance_def
    clean_def Let_def split: if_splits)

lemma clean_newline: "clean (yyextra_col_newline ctx) = clean ctx"
  by (simp add: clean_def yyextra_col_newline_def)

lemma clean_fold_newline: "clean (fold (\<lambda>c ctx. if P c then yyextra_col_newline ctx else ctx) cs ctx) = clean ctx"
  by (induction cs arbitrary: ctx) (auto simp: clean_newline)

lemma run_action_context:
  assumes "run_action a yytext loc ctx = (tok, ctx')" and "a \<noteq> Punct LEX_ERROR"
  shows "if tok = Some LEX_ERROR then pc_lex_error ctx' else clean ctx' = clean ctx"
  using assms
  by (cases a) (auto simp: lex_error_def word_action_def clean_newline clean_fold_newline
    split: option.splits if_splits)

lemma no_error_rule: "best_match sql_rules s = Some (n, a) \<Longrightarrow> a \<noteq> Punct LEX_ERROR \<and> a \<noteq> Punct YYEOF"
proof -
  assume "best_match sql_rules s = Some (n, a)"
  from best_match_is_longest_first [OF this] obtain i where "i < length sql_rules" "snd (sql_rules ! i) = a" by blast
  moreover have "\<forall>x \<in> set sql_rules. snd x \<noteq> Punct LEX_ERROR \<and> snd x \<noteq> Punct YYEOF" by (simp add: sql_rules_def)
  ultimately show ?thesis using nth_mem by blast
qed

lemma yylex_step:
  assumes "best_match sql_rules s = Some (n, a)" and "yy_user_action n ctx = (l, c)"
    and "run_action a (take n s) l c = (t, c')"
  shows "yylex s loc ctx = (case t of None \<Rightarrow> yylex (drop n s) l c' | Some tok \<Rightarrow> (tok, drop n s, l, c'))"
proof -
  have "s \<noteq> []" using sql_match_pos [OF assms(1)] by auto
  with assms show ?thesis by (cases t) (simp_all add: yylex.simps [of s])
qed

lemma yylex_context:
  "yylex s loc ctx = (tok, s', loc', ctx') \<Longrightarrow> clean ctx \<Longrightarrow> if tok = LEX_ERROR then pc_lex_error ctx' else clean ctx'"
proof (induction "length s" arbitrary: s loc ctx rule: less_induct)
  case less
  show ?case
  proof (cases "s = []")
    case True
    with less.prems show ?thesis by (simp add: yylex.simps)
  next
    case False
    then obtain n a where m: "best_match sql_rules s = Some (n, a)" using every_text_matches by fastforce
    obtain l c where u: "yy_user_action n ctx = (l, c)" by fastforce
    obtain t c' where r: "run_action a (take n s) l c = (t, c')" by fastforce
    have c': "if t = Some LEX_ERROR then pc_lex_error c' else clean c'"
      using run_action_context [OF r] no_error_rule [OF m] clean_user_action [OF u] less.prems(2) by simp
    show ?thesis
    proof (cases t)
      case None
      have "length (drop n s) < length s" using sql_match_pos [OF m] by auto
      moreover have "clean c'" using c' None by simp
      moreover have "yylex (drop n s) l c' = (tok, s', loc', ctx')"
        using less.prems(1) None by (simp add: yylex_step [OF m u r])
      ultimately show ?thesis by (intro less.hyps)
    next
      case (Some tok')
      with less.prems(1) c' show ?thesis by (auto simp: yylex_step [OF m u r])
    qed
  qed
qed

text \<open>The list of tokens: the end or an error comes last, and only there.\<close>

abbreviation final :: "token \<Rightarrow> bool" where
  "final t \<equiv> t = YYEOF \<or> t = LEX_ERROR"

lemma scan_shape:
  "clean ctx \<Longrightarrow> \<exists>items last. scan s loc ctx = items @ [last] \<and> final (fst last) \<and>
     (\<forall>x \<in> set items. \<not> final (fst x)) \<and> (\<forall>(t, l, c) \<in> set (scan s loc ctx). t \<noteq> LEX_ERROR \<longrightarrow> clean c)"
proof (induction "length s" arbitrary: s loc ctx rule: less_induct)
  case less
  obtain tok s' l c where y: "yylex s loc ctx = (tok, s', l, c)" by (metis prod_cases4)
  note ctx = yylex_context [OF y less.prems]
  show ?case
  proof (cases "final tok")
    case True
    then have "scan s loc ctx = [] @ [(tok, l, c)]" using y by (simp add: scan.simps [of s])
    with True ctx show ?thesis by (intro exI [of _ "[]"] exI [of _ "(tok, l, c)"]) auto
  next
    case False
    then have "scan s loc ctx = (tok, l, c) # scan s' l c" using y by (simp add: scan.simps [of s])
    moreover have "length s' < length s" using yylex_progress [OF y] False by blast
    moreover have "clean c" using ctx False by simp
    ultimately obtain items last where i: "scan s loc ctx = (tok, l, c) # items @ [last]" "final (fst last)"
      "\<forall>x \<in> set items. \<not> final (fst x)" "\<forall>(t, l, c) \<in> set (scan s' l c). t \<noteq> LEX_ERROR \<longrightarrow> clean c"
      "scan s loc ctx = (tok, l, c) # scan s' l c"
      using less.hyps by metis
    show ?thesis
      by (intro exI [of _ "(tok, l, c) # items"] exI [of _ last]) (use i False \<open>clean c\<close> in auto)
  qed
qed

section \<open>The text of tokens\<close>

text \<open>How a token is written, and which tokens there are: a keyword has its own text.\<close>

fun escape_char :: "char \<Rightarrow> string" where
  "escape_char c =
     (if c = CHR 0x0A then [CHR 0x5C, CHR ''n'']
      else if c = CHR 0x22 \<or> c = CHR 0x5C then [CHR 0x5C, c] else [c])"

fun lexeme :: "token \<Rightarrow> string" where
  "lexeme (INT_LIT i) = int_str (sint i)"
| "lexeme (STRING_LIT s) = CHR 0x22 # concat (map escape_char s) @ [CHR 0x22]"
| "lexeme (IDENT s) = s"
| "lexeme (Keyword kw s) = s"
| "lexeme LPAREN = ''(''" | "lexeme RPAREN = '')''" | "lexeme COMMA = '',''" | "lexeme SEMI = '';''"
| "lexeme DOT = ''.''" | "lexeme STAR = ''*''" | "lexeme EQEQ = ''==''" | "lexeme EQ = ''=''"
| "lexeme NEQ = ''!=''" | "lexeme LT = ''<''" | "lexeme GT = ''>''" | "lexeme LEQ = ''<=''"
| "lexeme GEQ = ''>=''" | "lexeme LEX_ERROR = []" | "lexeme YYEOF = []"

definition word_shape :: "string \<Rightarrow> bool" where
  "word_shape s \<longleftrightarrow> s \<noteq> [] \<and> is_id_start (hd s) \<and> list_all is_id_cont (tl s)"

definition one_case :: "string \<Rightarrow> bool" where
  "one_case s \<longleftrightarrow> \<not> (list_ex is_upper s \<and> list_ex is_lower s)"

fun token_ok :: "token \<Rightarrow> bool" where
  "token_ok (IDENT s) = (word_shape s \<and> keyword_kind (map tolower s) = None)"
| "token_ok (Keyword kw s) = (word_shape s \<and> keyword_kind (map tolower s) = Some kw \<and> one_case s)"
| "token_ok (STRING_LIT s) = (CHR 0x00 \<notin> set s)"
| "token_ok t = (\<not> final t)"

text \<open>
  The other ways to write a token. The digits of an integer may be any, zeros in front included:
  what does not fit in 64 bits stands for the nearest integer that does. What is inside a string
  is characters as they are, but no quote, backslash or end of line, and pairs of a backslash and
  a character that is no end of line, here marked \<open>True\<close>.
\<close>

fun char_ok :: "bool \<times> char \<Rightarrow> bool" where
  "char_ok (escape, c) = (c \<noteq> CHR 0x0A \<and> (escape \<or> c \<noteq> CHR 0x22 \<and> c \<noteq> CHR 0x5C))"

fun char_text :: "bool \<times> char \<Rightarrow> string" where
  "char_text (escape, c) = (if escape then [CHR 0x5C, c] else [c])"

fun char_meant :: "bool \<times> char \<Rightarrow> char" where
  "char_meant (escape, c) =
     (if escape \<and> c = CHR ''n'' then CHR 0x0A else if escape \<and> c = CHR ''t'' then CHR 0x09
      else if escape \<and> c = CHR ''r'' then CHR 0x0D else c)"

fun is_number_or_string :: "token \<Rightarrow> bool" where
  "is_number_or_string (INT_LIT i) = True"
| "is_number_or_string (STRING_LIT s) = True"
| "is_number_or_string t = False"

inductive spelled :: "token \<Rightarrow> string \<Rightarrow> bool" where
  spelled_fixed: "token_ok t \<Longrightarrow> \<not> is_number_or_string t \<Longrightarrow> spelled t (lexeme t)"
| spelled_digits: "ds \<noteq> [] \<Longrightarrow> list_all is_digit ds \<Longrightarrow>
    spelled (INT_LIT (word_of_int (min (2 ^ 63 - 1) (int (digits_val ds))))) ds"
| spelled_minus: "ds \<noteq> [] \<Longrightarrow> list_all is_digit ds \<Longrightarrow>
    spelled (INT_LIT (word_of_int (max (- (2 ^ 63)) (- int (digits_val ds))))) (CHR ''-'' # ds)"
| spelled_string: "list_all char_ok cs \<Longrightarrow>
    spelled (STRING_LIT (map char_meant cs)) (CHR 0x22 # concat (map char_text cs) @ [CHR 0x22])"

text \<open>
  What may stand between tokens, and whether a token needs something there: one that a following
  character could continue does, unless that character is none of a word, number or comparison.
\<close>

abbreviation is_blank :: "char \<Rightarrow> bool" where
  "is_blank c \<equiv> c = CHR '' '' \<or> c = CHR 0x09"

inductive layout :: "string \<Rightarrow> bool" where
  layout_none: "layout []"
| layout_blank: "is_blank c \<Longrightarrow> layout g \<Longrightarrow> layout (c # g)"
| layout_newline: "layout g \<Longrightarrow> layout (CHR 0x0A # g)"
| layout_return: "layout g \<Longrightarrow> layout (CHR 0x0D # CHR 0x0A # g)"
| layout_line_comment: "CHR 0x0A \<notin> set c \<Longrightarrow> layout g \<Longrightarrow> layout (''--'' @ c @ CHR 0x0A # g)"
| layout_block_comment: "\<not> sublist ''*/'' c \<Longrightarrow> layout g \<Longrightarrow> layout (''/*'' @ c @ ''*/'' @ g)"

fun ends_itself :: "token \<Rightarrow> bool" where
  "ends_itself (INT_LIT i) = False"
| "ends_itself (IDENT s) = False"
| "ends_itself (Keyword kw s) = False"
| "ends_itself EQ = False"
| "ends_itself LT = False"
| "ends_itself GT = False"
| "ends_itself t = True"

definition stops :: "string \<Rightarrow> bool" where
  "stops s \<longleftrightarrow> s = [] \<or> \<not> is_id_cont (hd s) \<and> hd s \<noteq> CHR ''=''"

inductive laid_out :: "token list \<Rightarrow> string \<Rightarrow> bool" where
  laid_out_end: "layout g \<Longrightarrow> laid_out [] g"
| laid_out_comment: "layout g \<Longrightarrow> CHR 0x0A \<notin> set c \<Longrightarrow> laid_out [] (g @ ''--'' @ c)"
| laid_out_token: "layout g \<Longrightarrow> spelled t v \<Longrightarrow> laid_out ts w \<Longrightarrow> ends_itself t \<or> stops w \<Longrightarrow>
    laid_out (t # ts) (g @ v @ w)"

definition token_text :: "token list \<Rightarrow> string" where
  "token_text ts = concat (map (\<lambda>t. lexeme t @ '' '') ts)"

section \<open>The first match of such a text\<close>

lemma match_len_Nil: "match_len r [] = empty_match r"
  by simp

lemma match_len_Never [simp]: "match_len Never s = None"
  by (cases s) (simp_all add: empty_match_def)

lemma match_len_Empty [simp]: "match_len Empty s = Some 0"
  by (cases s) (simp_all add: empty_match_def)

lemma match_len_OneOf: "match_len (OneOf P) (c # s) = (if P c then Some 1 else None)"
  by (simp add: match_len_Cons empty_match_def)

lemma match_len_Many_OneOf: "match_len (Many (OneOf P)) s = Some (length (takeWhile P s))"
  by (induction s) (auto simp: match_len_Cons empty_match_def simp del: match_len.simps(2-))

lemmas rule_defs = sql_rules_def comment_rx_def Some_of_def Maybe_def Except_def Any_of_def

lemma id_start_not: "is_id_start c \<Longrightarrow> c \<notin> {CHR '' '', CHR 0x09, CHR 0x0D, CHR 0x0A, CHR ''-'', CHR ''/'', CHR 0x22,
    CHR ''='', CHR ''!'', CHR ''<'', CHR ''>'', CHR ''('', CHR '')'', CHR '','', CHR '';'', CHR ''.'', CHR ''*''} \<and> \<not> is_digit c"
  by (auto simp: is_id_start_def is_upper_def is_lower_def is_digit_def less_eq_char_def)

lemma digit_start_not: "is_digit c \<Longrightarrow> c \<notin> {CHR '' '', CHR 0x09, CHR 0x0D, CHR 0x0A, CHR ''-'', CHR ''/'', CHR 0x22,
    CHR ''='', CHR ''!'', CHR ''<'', CHR ''>'', CHR ''('', CHR '')'', CHR '','', CHR '';'', CHR ''.'', CHR ''*''} \<and> \<not> is_id_start c"
  by (auto simp: is_id_start_def is_upper_def is_lower_def is_digit_def less_eq_char_def)

lemma word_match:
  assumes "is_id_start c"
  shows "best_match sql_rules (c # s) = Some (Suc (length (takeWhile is_id_cont s)), Word)"
  using assms id_start_not [OF assms]
  by (simp add: rule_defs match_len_Cons match_len_Many_OneOf empty_match_def del: match_len.simps)

lemma digit_match:
  assumes "is_digit c"
  shows "best_match sql_rules (c # s) = Some (Suc (length (takeWhile is_digit s)), Integer_literal)"
  using assms digit_start_not [OF assms]
  by (simp add: rule_defs match_len_Cons match_len_Many_OneOf empty_match_def del: match_len.simps)

lemma minus_match:
  assumes "is_digit c"
  shows "best_match sql_rules (CHR ''-'' # c # s) = Some (Suc (Suc (length (takeWhile is_digit s))), Integer_literal)"
  using assms digit_start_not [OF assms]
  by (simp add: rule_defs match_len_Cons match_len_Many_OneOf empty_match_def is_id_start_def is_upper_def
    is_lower_def is_digit_def del: match_len.simps)

lemma takeWhile_stop: "list_all P xs \<Longrightarrow> s = [] \<or> \<not> P (hd s) \<Longrightarrow> takeWhile P (xs @ s) = xs"
  by (cases s) (auto simp: list_all_iff takeWhile_append)

lemma drop_front: "n = length xs \<Longrightarrow> drop n (xs @ ys) = ys"
  by simp

lemma takeWhile_before: "s = [] \<or> \<not> P (hd s) \<Longrightarrow> takeWhile P (xs @ s) = takeWhile P xs"
  by (induction xs) (cases s; simp)+

lemma digits_match:
  assumes "ds \<noteq> []" "list_all is_digit ds" and "s = [] \<or> \<not> is_digit (hd s)"
  shows "best_match sql_rules (ds @ s) = Some (length ds, Integer_literal)"
    "best_match sql_rules (CHR ''-'' # ds @ s) = Some (Suc (length ds), Integer_literal)"
proof -
  obtain c cs where ds: "ds = c # cs" "is_digit c" using assms by (cases ds) auto
  then have "takeWhile is_digit (cs @ s) = cs" using assms by (intro takeWhile_stop) auto
  then show "best_match sql_rules (ds @ s) = Some (length ds, Integer_literal)"
    "best_match sql_rules (CHR ''-'' # ds @ s) = Some (Suc (length ds), Integer_literal)"
    using ds by (simp_all add: digit_match minus_match)
qed

lemma id_cont_word_match:
  assumes "word_shape w" and "s = [] \<or> \<not> is_id_cont (hd s)"
  shows "best_match sql_rules (w @ s) = Some (length w, Word)"
proof -
  obtain c cs where w: "w = c # cs" using assms by (cases w) (auto simp: word_shape_def)
  then have "takeWhile is_id_cont (cs @ s) = cs" using assms by (intro takeWhile_stop) (auto simp: word_shape_def)
  with assms(1) w show ?thesis by (simp add: word_shape_def word_match)
qed

lemma not_id_cont: "\<not> is_id_cont CHR '' ''" "\<not> is_id_cont CHR 0x09" "\<not> is_id_cont CHR 0x0A" "\<not> is_id_cont CHR 0x0D"
  "\<not> is_id_cont CHR ''-''" "\<not> is_id_cont CHR ''/''"
  by (simp_all add: is_id_cont_def is_id_start_def is_upper_def is_lower_def is_digit_def)

lemma word_blank_match: "word_shape w \<Longrightarrow> best_match sql_rules (w @ CHR '' '' # s) = Some (length w, Word)"
  by (erule id_cont_word_match) (simp add: not_id_cont)

lemmas char_classes = is_id_start_def is_upper_def is_lower_def is_digit_def

text \<open>A string: what is inside is taken piece by piece, up to the quote.\<close>

abbreviation string_rest :: rexp where
  "string_rest \<equiv> Seq (Many string_char) (OneOf (\<lambda>c. c = CHR 0x22))"

lemma char_text_match:
  assumes "char_ok c"
  shows "match_len (Many string_char) s = Some n \<Longrightarrow>
     match_len (Many string_char) (char_text c @ s) = Some (length (char_text c) + n)"
  "match_len string_rest s = Some n \<Longrightarrow> match_len string_rest (char_text c @ s) = Some (length (char_text c) + n)"
  using assms
  by (cases c; auto simp: string_char_def Except_def Any_of_def match_len_Cons empty_match_def simp del: match_len.simps)+

lemma chars_text_match:
  assumes "list_all char_ok cs"
  shows "match_len (Many string_char) t = Some n \<Longrightarrow>
     match_len (Many string_char) (concat (map char_text cs) @ t) = Some (length (concat (map char_text cs)) + n)"
  "match_len string_rest t = Some n \<Longrightarrow>
     match_len string_rest (concat (map char_text cs) @ t) = Some (length (concat (map char_text cs)) + n)"
  using assms by (induction cs) (simp_all del: char_text.simps char_ok.simps add: char_text_match add.assoc)

lemma string_match:
  assumes "list_all char_ok cs"
  shows "best_match sql_rules (CHR 0x22 # concat (map char_text cs) @ CHR 0x22 # t) =
     Some (length (concat (map char_text cs)) + 2, String_literal)"
proof -
  let ?b = "concat (map char_text cs) @ CHR 0x22 # t"
  have "match_len string_rest (CHR 0x22 # t) = Some 1" "match_len (Many string_char) (CHR 0x22 # t) = Some 0"
    by (simp_all add: match_len_Cons string_char_def Except_def Any_of_def empty_match_def del: match_len.simps)
  note quote = this
  have "match_len string_rest ?b = Some (length (concat (map char_text cs)) + 1)"
    "match_len (Many string_char) ?b = Some (length (concat (map char_text cs)) + 0)"
    using chars_text_match(2) [OF assms quote(1)] chars_text_match(1) [OF assms quote(2)] by simp_all
  then show ?thesis
    by (simp add: rule_defs match_len_Cons empty_match_def char_classes del: match_len.simps)
qed

lemma decode_chars: "list_all char_ok cs \<Longrightarrow> decode_body (concat (map char_text cs)) = map char_meant cs"
proof (induction cs)
  case (Cons c cs)
  have "decode_body (char_text c @ t) = char_meant c # decode_body t" if "char_ok c" for t
    using that by (cases c; cases t) (auto simp: escaped_def)
  with Cons show ?case by (simp del: char_text.simps)
qed simp

text \<open>Punctuation: a comparison of one character ends where no \<open>=\<close> follows.\<close>

lemma punct_match:
  assumes "t \<in> {LPAREN, RPAREN, COMMA, SEMI, DOT, STAR, EQEQ, EQ, NEQ, LT, GT, LEQ, GEQ}"
    and "ends_itself t \<or> stops s"
  shows "best_match sql_rules (lexeme t @ s) = Some (length (lexeme t), Punct t)"
proof (cases s)
  case Nil
  with assms(1) show ?thesis
    by (elim insertE) (simp_all add: rule_defs match_len_Cons match_len_Many_OneOf empty_match_def char_classes del: match_len.simps(2-))
next
  case (Cons c cs)
  with assms show ?thesis
    by (elim insertE) (simp_all add: stops_def rule_defs match_len_Cons match_len_Many_OneOf empty_match_def char_classes
      del: match_len.simps)
qed

text \<open>A token in any of its spellings is what the scanner reads, with no trace in the context.\<close>

lemma spelled_match:
  assumes "spelled t v" and "ends_itself t \<or> stops s"
  shows "\<exists>a. best_match sql_rules (v @ s) = Some (length v, a) \<and>
      (\<forall>loc ctx. run_action a v loc ctx = (Some t, ctx))"
  using assms(1)
proof cases
  case spelled_fixed
  then have "ends_itself t \<or> s = [] \<or> \<not> is_id_cont (hd s)" using assms(2) by (auto simp: stops_def)
  then show ?thesis
    using spelled_fixed assms(2) id_cont_word_match [of v s] punct_match [of t s]
    by (cases t) (auto simp: word_action_def one_case_def)
next
  case (spelled_digits)
  then have "s = [] \<or> \<not> is_digit (hd s)" "hd v \<noteq> CHR ''-''"
    using assms(2) digit_start_not by (cases v; auto simp: stops_def is_id_cont_def)+
  then show ?thesis
    using digits_match(1) [of v s] spelled_digits by (auto simp: strtoll_def)
next
  case (spelled_minus ds)
  then have "s = [] \<or> \<not> is_digit (hd s)" using assms(2) by (auto simp: stops_def is_id_cont_def)
  then show ?thesis
    using digits_match(2) [of ds s] spelled_minus by (auto simp: strtoll_def)
next
  case (spelled_string cs)
  then show ?thesis
    using string_match [of cs s] by (auto simp: decode_string_def decode_chars simp del: char_text.simps)
qed

section \<open>Layout\<close>

lemma blanks_match:
  "is_blank c \<Longrightarrow> best_match sql_rules (c # s) = Some (Suc (length (takeWhile is_blank s)), Skip)"
  by (elim disjE; hypsubst;
    simp add: rule_defs match_len_Cons match_len_Many_OneOf empty_match_def char_classes del: match_len.simps)

lemma newline_match:
  "best_match sql_rules (CHR 0x0A # s) = Some (1, New_line)"
  "best_match sql_rules (CHR 0x0D # CHR 0x0A # s) = Some (2, New_line)"
  by (simp_all add: rule_defs match_len_Cons match_len_Many_OneOf empty_match_def char_classes del: match_len.simps)

lemma line_comment_match:
  "best_match sql_rules (''--'' @ s) = Some (2 + length (takeWhile (\<lambda>c. c \<noteq> CHR 0x0A) s), Skip)"
  by (simp add: rule_defs match_len_Cons match_len_Many_OneOf empty_match_def char_classes del: match_len.simps)

text \<open>
  Inside a block comment: the pattern after the opening, and after a star as well, is the same
  again until the first star that a slash follows.
\<close>

definition comment_rest :: rexp where
  "comment_rest = Seq (Many (Either (Except ''*'') (Seq (Some_of (Any_of ''*'')) (Except ''/*''))))
     (Seq (Some_of (Any_of ''*'')) (word_rx ''/''))"

definition comment_star :: rexp where
  "comment_star = deriv (CHR ''*'') comment_rest"

lemma comment_derivs:
  "deriv c comment_rest = (if c = CHR ''*'' then comment_star else comment_rest)"
  "deriv c comment_star = (if c = CHR ''*'' then comment_star else if c = CHR ''/'' then Empty else comment_rest)"
  by (simp_all add: comment_star_def comment_rest_def Some_of_def Except_def Any_of_def)

lemma comment_rest_match:
  "\<not> sublist ''*/'' w \<Longrightarrow> match_len comment_rest (w @ ''*/'' @ s) = Some (length w + 2)"
  "\<not> sublist ''*/'' (CHR ''*'' # w) \<Longrightarrow> match_len comment_star (w @ ''*/'' @ s) = Some (length w + 2)"
proof (induction w)
  case (Cons c w)
  {
    case 1
    then show ?case using Cons.IH by (auto simp: match_len_Cons comment_derivs sublist_Cons_right simp del: match_len.simps)
  next
    case 2
    then show ?case using Cons.IH by (auto simp: match_len_Cons comment_derivs sublist_Cons_right simp del: match_len.simps)
  }
qed (simp_all add: match_len_Cons comment_derivs del: match_len.simps)

lemma block_comment_match:
  assumes "\<not> sublist ''*/'' w"
  shows "best_match sql_rules (''/*'' @ w @ ''*/'' @ s) = Some (length w + 4, Block_comment)"
proof -
  have "comment_rx = Seq (word_rx ''/*'') comment_rest" by (simp add: comment_rx_def comment_rest_def)
  moreover have "match_len (Seq (word_rx ''/*'') comment_rest) (''/*'' @ w @ ''*/'' @ s) = Some (length w + 4)"
    using comment_rest_match(1) [OF assms, of s] by (simp add: match_len_Cons del: match_len.simps)
  ultimately have "match_len comment_rx (''/*'' @ w @ ''*/'' @ s) = Some (length w + 4)" by simp
  then show ?thesis
    by (simp add: sql_rules_def Some_of_def Maybe_def Except_def Any_of_def match_len_Cons [of _ "CHR ''/''"]
      match_len_Many_OneOf empty_match_def char_classes del: match_len.simps(2-))
qed

lemma layout_dropWhile: "layout g \<Longrightarrow> layout (dropWhile is_blank g)"
  by (induction rule: layout.induct) (auto intro: layout.intros layout_line_comment [simplified] layout_block_comment [simplified])

text \<open>A rule that returns nothing leaves the token to what comes after it.\<close>

lemma skip_step:
  assumes "best_match sql_rules s = Some (n, a)" and "a \<in> {Skip, New_line, Block_comment}"
  shows "\<exists>loc' ctx'. yylex s loc ctx = yylex (drop n s) loc' ctx'"
proof -
  obtain l c where "yy_user_action n ctx = (l, c)" by fastforce
  moreover obtain c' where "run_action a (take n s) l c = (None, c')" using assms(2) by auto
  ultimately show ?thesis using yylex_step [OF assms(1)] by fastforce
qed

lemma yylex_layout:
  "layout g \<Longrightarrow> s = [] \<or> \<not> is_blank (hd s) \<Longrightarrow> \<exists>loc' ctx'. yylex (g @ s) loc ctx = yylex s loc' ctx'"
proof (induction "length g" arbitrary: g loc ctx rule: less_induct)
  case less
  have more: "\<exists>loc' ctx'. yylex (g @ s) loc ctx = yylex s loc' ctx'"
    if "best_match sql_rules (g @ s) = Some (n, a)" "a \<in> {Skip, New_line, Block_comment}"
      "drop n (g @ s) = g' @ s" "length g' < length g" "layout g'" for n a g'
    using skip_step [OF that(1,2), of loc ctx] less.hyps [OF that(4,5) less.prems(2)] that(3) by metis
  from less.prems(1) show ?case
  proof cases
    case (layout_blank c g1)
    have "takeWhile is_blank (g1 @ s) = takeWhile is_blank g1"
      using less.prems(2) by (rule takeWhile_before)
    moreover have "drop (length (takeWhile is_blank g1)) (g1 @ s) = dropWhile is_blank g1 @ s"
      by (metis append_eq_conv_conj append.assoc takeWhile_dropWhile_id)
    moreover have "length (dropWhile is_blank g1) < length g" using layout_blank length_dropWhile_le [of is_blank g1] by simp
    ultimately show ?thesis
      using more [of _ Skip "dropWhile is_blank g1"] blanks_match [OF layout_blank(2), of "g1 @ s"] layout_dropWhile [OF layout_blank(3)] layout_blank(1)
      by simp
  next
    case (layout_newline g1)
    then show ?thesis using more [of 1 New_line g1] newline_match(1) [of "g1 @ s"] by simp
  next
    case (layout_return g1)
    then show ?thesis using more [of 2 New_line g1] newline_match(2) [of "g1 @ s"] by simp
  next
    case (layout_line_comment c g1)
    have "takeWhile (\<lambda>c. c \<noteq> CHR 0x0A) (c @ CHR 0x0A # g1 @ s) = c"
      using layout_line_comment(2) by (intro takeWhile_stop) (auto simp: list_all_iff)
    then show ?thesis
      using more [of "2 + length c" Skip "CHR 0x0A # g1"] line_comment_match [of "c @ CHR 0x0A # g1 @ s"]
        layout_line_comment layout.layout_newline by simp
  next
    case (layout_block_comment c g1)
    have "drop (length c + 4) ((''/*'' @ c @ ''*/'') @ g1 @ s) = g1 @ s"
      by (rule drop_front) simp
    then show ?thesis
      using more [of "length c + 4" Block_comment g1] block_comment_match [OF layout_block_comment(2), of "g1 @ s"]
        layout_block_comment by simp
  qed auto
qed

section \<open>Reading it back\<close>

lemma scan_next: "yylex s loc ctx = (t, s', l, c) \<Longrightarrow> \<not> final t \<Longrightarrow> map fst (scan s loc ctx) = t # map fst (scan s' l c)"
  by (simp add: scan.simps [of s])

lemma scan_end: "yylex s loc ctx = yylex [] l c \<Longrightarrow> map fst (scan s loc ctx) = [YYEOF]"
  by (simp add: scan.simps [of s] yylex.simps [of "[]"])

lemma spelled_start: "spelled t v \<Longrightarrow> \<not> final t \<and> v \<noteq> [] \<and> \<not> is_blank (hd v)"
proof (induction rule: spelled.induct)
  case (spelled_fixed t)
  then show ?case using id_start_not by (cases t) (auto simp: word_shape_def)
next
  case (spelled_digits ds)
  then show ?case using digit_start_not by (cases ds) auto
qed auto

lemma yylex_spelled:
  assumes "layout g" and "spelled t v" and "ends_itself t \<or> stops w"
  shows "\<exists>loc' ctx'. yylex (g @ v @ w) loc ctx = (t, w, loc', ctx')"
proof -
  obtain a where a: "best_match sql_rules (v @ w) = Some (length v, a)"
    "\<And>loc ctx. run_action a v loc ctx = (Some t, ctx)" using spelled_match [OF assms(2,3)] by blast
  obtain l c where skip: "yylex (g @ v @ w) loc ctx = yylex (v @ w) l c"
    using yylex_layout [OF assms(1), of "v @ w" loc ctx] spelled_start [OF assms(2)] by auto
  obtain l' c' where "yy_user_action (length v) c = (l', c')" by fastforce
  from yylex_step [OF a(1) this] a(2) skip show ?thesis by simp
qed

lemma scan_laid_out: "laid_out ts w \<Longrightarrow> map fst (scan w loc ctx) = ts @ [YYEOF]"
proof (induction arbitrary: loc ctx rule: laid_out.induct)
  case (laid_out_end g)
  then obtain l c where "yylex g loc ctx = yylex [] l c" using yylex_layout [of g "[]" loc ctx] by auto
  then show ?case by (simp add: scan_end)
next
  case (laid_out_comment g c)
  have "\<exists>l c1. yylex (g @ ''--'' @ c) loc ctx = yylex (''--'' @ c) l c1"
    by (rule yylex_layout [OF laid_out_comment(1)]) simp
  then obtain l1 c1 where first: "yylex (g @ ''--'' @ c) loc ctx = yylex (''--'' @ c) l1 c1" by (elim exE)
  have all: "takeWhile (\<lambda>d. d \<noteq> CHR 0x0A) c = c" 
    using takeWhile_stop [of "\<lambda>d. d \<noteq> CHR 0x0A" c "[]"] laid_out_comment(2) by (fastforce simp: list_all_iff)
  have "best_match sql_rules (''--'' @ c) = Some (2 + length c, Skip)" unfolding line_comment_match all ..
  then obtain l2 c2 where "yylex (''--'' @ c) l1 c1 = yylex (drop (2 + length c) (''--'' @ c)) l2 c2"
    using skip_step [of "''--'' @ c" "2 + length c" Skip l1 c1] by blast
  moreover have "drop (2 + length c) (''--'' @ c) = []" by simp
  ultimately have "yylex (g @ ''--'' @ c) loc ctx = yylex [] l2 c2" using first by (simp only:)
  from scan_end [OF this] show ?case by simp
next
  case (laid_out_token g t v ts w)
  obtain l c where "yylex (g @ v @ w) loc ctx = (t, w, l, c)"
    using yylex_spelled [OF laid_out_token(1,2,4)] by blast
  then show ?case using scan_next spelled_start [OF laid_out_token(2)] laid_out_token.IH by simp
qed

text \<open>Tokens as \<open>lexeme\<close> writes them, a blank after each, are a special case.\<close>

lemma sint_clamp: "max (- (2 ^ 63)) (min (2 ^ 63 - 1) (sint (i :: 64 word))) = sint i"
  using sint_ge [of i] sint_lt [of i] by simp

definition as_pair :: "char \<Rightarrow> bool \<times> char" where
  "as_pair c = (if c = CHR 0x0A then (True, CHR ''n'') else (c = CHR 0x22 \<or> c = CHR 0x5C, c))"

lemma as_pair: "char_text (as_pair c) = escape_char c" "char_meant (as_pair c) = c" "char_ok (as_pair c)"
  by (auto simp: as_pair_def)

lemma spelled_lexeme:
  assumes "token_ok t"
  shows "spelled t (lexeme t)"
proof (cases t)
  case (INT_LIT i)
  have digits: "nat_str n \<noteq> []" "list_all is_digit (nat_str n)" for n
    using nat_str_digits [of n] by (auto simp: list_all_iff)
  show ?thesis
  proof (cases "sint i < 0")
    case True
    then have "max (- (2 ^ 63)) (- int (digits_val (nat_str (nat (- sint i))))) = sint i"
      using sint_clamp [of i] by (simp add: digits_val_nat_str)
    with spelled_minus [OF digits, of "nat (- sint i)"] True INT_LIT show ?thesis by (simp add: int_str_def)
  next
    case False
    then have "min (2 ^ 63 - 1) (int (digits_val (nat_str (nat (sint i))))) = sint i"
      using sint_clamp [of i] by (simp add: digits_val_nat_str)
    with spelled_digits [OF digits, of "nat (sint i)"] False INT_LIT show ?thesis by (simp add: int_str_def)
  qed
next
  case (STRING_LIT w)
  have "map char_meant (map as_pair w) = w" "map char_text (map as_pair w) = map escape_char w"
    "list_all char_ok (map as_pair w)" by (simp_all add: comp_def list_all_iff as_pair del: escape_char.simps)
  then show ?thesis
    using spelled_string [of "map as_pair w"] STRING_LIT by (simp del: escape_char.simps map_map)
qed (use assms in \<open>auto intro!: spelled_fixed simp del: lexeme.simps\<close>)

lemma laid_out_blank: "laid_out ts w \<Longrightarrow> laid_out ts (CHR '' '' # w)"
  by (erule laid_out.cases)
    (use laid_out.intros layout_blank [of "CHR '' ''"] in \<open>force simp flip: append_Cons\<close>)+

lemma laid_out_text: "list_all token_ok ts \<Longrightarrow> laid_out (ts @ [SEMI]) (token_text ts @ '';'')"
proof (induction ts)
  case Nil
  have "spelled SEMI '';''" using spelled_fixed [of SEMI] by simp
  from laid_out_token [OF layout_none this laid_out_end [OF layout_none]] show ?case by (simp add: token_text_def)
next
  case (Cons t ts)
  have "laid_out (ts @ [SEMI]) (CHR '' '' # token_text ts @ '';'')" using Cons by (intro laid_out_blank) simp
  moreover have "stops (CHR '' '' # s)" for s by (simp add: stops_def not_id_cont)
  ultimately show ?case
    using laid_out_token [OF layout_none spelled_lexeme, of t "ts @ [SEMI]"] Cons.prems by (simp add: token_text_def)
qed

lemma sql_tokens_laid_out: "laid_out ts w \<Longrightarrow> sql_tokens w = ts @ [YYEOF]"
  by (simp add: sql_tokens_def scan_laid_out)

lemma sql_tokens_text: "list_all token_ok ts \<Longrightarrow> sql_tokens (token_text ts @ '';'') = ts @ [SEMI, YYEOF]"
  using sql_tokens_laid_out [OF laid_out_text] by simp

section \<open>What the scanner can return\<close>

text \<open>Every token but the last is a possible one: a word has the shape of a word, a keyword one case.\<close>

lemma in_rexp_Many: "in_rexp s (Many (OneOf P)) \<Longrightarrow> list_all P s"
  by (induction s "Many (OneOf P)" rule: in_rexp.induct) auto

lemma word_rule_shape:
  assumes "best_match sql_rules s = Some (n, Word)"
  shows "word_shape (take n s)"
proof -
  from best_match_is_longest_first [OF assms] obtain i where
    i: "i < length sql_rules" "snd (sql_rules ! i) = Word" "match_len (fst (sql_rules ! i)) s = Some n" by blast
  have "\<forall>x \<in> set sql_rules. snd x = Word \<longrightarrow> fst x = Seq (OneOf is_id_start) (Many (OneOf is_id_cont))"
    by (simp add: sql_rules_def)
  with i have "in_rexp (take n s) (Seq (OneOf is_id_start) (Many (OneOf is_id_cont)))"
    using match_len_Some [OF i(3)] nth_mem [OF i(1)] by metis
  then obtain c cs where "take n s = c # cs" "is_id_start c" "in_rexp cs (Many (OneOf is_id_cont))"
    by (auto simp: in_Seq_iff)
  then show ?thesis by (auto simp: word_shape_def dest: in_rexp_Many)
qed

lemma decode_body_no_nul: "CHR 0x00 \<notin> set s \<Longrightarrow> CHR 0x00 \<notin> set (decode_body s)"
  by (induction s rule: decode_body.induct) (auto simp: escaped_def split: if_splits)

lemma run_action_ok:
  assumes "best_match sql_rules s = Some (n, a)" and "run_action a (take n s) loc ctx = (Some tok, ctx')"
    and "\<not> final tok" and "CHR 0x00 \<notin> set s"
  shows "token_ok tok"
proof (cases a)
  case String_literal
  have "set (butlast (tl (take n s))) \<subseteq> set s"
    using set_take_subset [of n s] by (cases "take n s") (auto dest: in_set_butlastD)
  with assms(4) have "CHR 0x00 \<notin> set (decode_string (take n s))"
    unfolding decode_string_def by (intro decode_body_no_nul) blast
  with assms(2) String_literal show ?thesis by auto
next
  case Word
  with assms word_rule_shape show ?thesis
    by (auto simp: word_action_def lex_error_def one_case_def split: option.splits if_splits)
next
  case (Punct t)
  have "\<forall>x \<in> set sql_rules. \<forall>t. snd x = Punct t \<longrightarrow> token_ok t" by (simp add: sql_rules_def)
  moreover obtain i where "i < length sql_rules" "snd (sql_rules ! i) = a"
    using best_match_is_longest_first [OF assms(1)] by blast
  ultimately show ?thesis using Punct assms(2) nth_mem by fastforce
qed (use assms in \<open>auto simp: lex_error_def\<close>)

lemma yylex_ok: "yylex s loc ctx = (tok, s', loc', ctx') \<Longrightarrow> \<not> final tok \<Longrightarrow> CHR 0x00 \<notin> set s \<Longrightarrow>
    token_ok tok \<and> set s' \<subseteq> set s"
proof (induction "length s" arbitrary: s loc ctx rule: less_induct)
  case less
  then have "s \<noteq> []" by (auto simp: yylex.simps)
  then obtain n a where m: "best_match sql_rules s = Some (n, a)" using every_text_matches by fastforce
  obtain l c where u: "yy_user_action n ctx = (l, c)" by fastforce
  obtain t c' where r: "run_action a (take n s) l c = (t, c')" by fastforce
  show ?case
  proof (cases t)
    case None
    have "length (drop n s) < length s" using sql_match_pos [OF m] by auto
    moreover have "yylex (drop n s) l c' = (tok, s', loc', ctx')"
      using less.prems(1) None by (simp add: yylex_step [OF m u r])
    moreover have "CHR 0x00 \<notin> set (drop n s)" using less.prems(3) set_drop_subset by fastforce
    ultimately have "token_ok tok \<and> set s' \<subseteq> set (drop n s)" using less.prems(2) by (intro less.hyps)
    with set_drop_subset show ?thesis by fastforce
  next
    case (Some t')
    with less.prems m r run_action_ok [OF m] set_drop_subset [of n s] show ?thesis
      by (auto simp: yylex_step [OF m u r])
  qed
qed

lemma scan_ok: "(t, l, c) \<in> set (scan s loc ctx) \<Longrightarrow> \<not> final t \<Longrightarrow> CHR 0x00 \<notin> set s \<Longrightarrow> token_ok t"
proof (induction "length s" arbitrary: s loc ctx rule: less_induct)
  case less
  obtain tok s' l' c' where y: "yylex s loc ctx = (tok, s', l', c')" by (metis prod_cases4)
  show ?case
  proof (cases "(t, l, c) = (tok, l', c')")
    case True
    with yylex_ok [OF y] less.prems show ?thesis by simp
  next
    case False
    with less.prems y have "\<not> final tok" "(t, l, c) \<in> set (scan s' l' c')"
      by (auto simp: scan.simps [of s] split: if_splits)
    moreover from this have "CHR 0x00 \<notin> set s'" using yylex_ok [OF y] less.prems(3) by blast
    ultimately show ?thesis using less.hyps yylex_progress [OF y] less.prems(2) by blast
  qed
qed

lemma sql_tokens_ok:
  "t \<in> set (sql_tokens source) \<Longrightarrow> \<not> final t \<Longrightarrow> CHR 0x00 \<notin> set source \<Longrightarrow> token_ok t"
  unfolding sql_tokens_def using scan_ok by fastforce

text \<open>The text of tokens has no NUL in it, so the parser gets all of it.\<close>

lemma lexeme_no_nul: "token_ok t \<Longrightarrow> CHR 0x00 \<notin> set (lexeme t)"
proof (cases t)
  case (INT_LIT i)
  have "CHR 0x00 \<notin> set (nat_str n)" for n
    using nat_str_digits [of n] by (auto simp: is_digit_def less_eq_char_def)
  with INT_LIT show ?thesis by (simp add: int_str_def)
next
  case (IDENT w)
  assume "token_ok t"
  with IDENT show ?thesis
    by (cases w) (auto simp: word_shape_def list_all_iff is_id_cont_def is_id_start_def is_upper_def is_lower_def
      is_digit_def less_eq_char_def)
next
  case (Keyword k w)
  assume "token_ok t"
  with Keyword show ?thesis
    by (cases w) (auto simp: word_shape_def list_all_iff is_id_cont_def is_id_start_def is_upper_def is_lower_def
      is_digit_def less_eq_char_def)
qed (auto split: if_splits)

lemma token_text_no_nul: "list_all token_ok ts \<Longrightarrow> CHR 0x00 \<notin> set (token_text ts)"
  using lexeme_no_nul by (induction ts) (auto simp: token_text_def)

end
