(* ===== verification/SqlText.thy ===== *)
theory SqlText
  imports SqlParser Grammar_Correct Scanner_Correct
begin

text \<open>
  The parser as the executor uses it: a text is a statement exactly when the grammar derives the
  tokens of the text. Which statements have a text: \<open>stmt_ok\<close>. Such a statement is written by
  \<open>statement_text\<close> and read back as it is, and every statement that the parser returns is one of
  them.
\<close>

section \<open>The parser and the grammar\<close>

lemma sql_tokens_shape:
  "\<exists>ts t. sql_tokens source = ts @ [t] \<and> final t \<and> (\<forall>u \<in> set ts. \<not> final u)"
  using scan_shape [OF clean_new, of source start_location] unfolding sql_tokens_def by fastforce

text \<open>The end comes once, at the end.\<close>

lemma sql_tokens_end: "sql_tokens source = pre @ [SEMI, YYEOF] @ rest \<Longrightarrow> rest = []"
proof -
  assume a: "sql_tokens source = pre @ [SEMI, YYEOF] @ rest"
  obtain ts t where ts: "sql_tokens source = ts @ [t]" "\<forall>u \<in> set ts. \<not> final u"
    using sql_tokens_shape by blast
  show ?thesis
  proof (cases rest rule: rev_cases)
    case (snoc rest' u)
    with a ts(1) have "ts = pre @ [SEMI, YYEOF] @ rest'" by simp
    with ts(2) show ?thesis by simp
  qed
qed

lemma p_program_tokens: "p_program (sql_tokens source) = (Some stmt, None) \<longleftrightarrow> g_program (sql_tokens source) stmt"
  unfolding p_program_iff using sql_tokens_end [of source] by (fastforce elim: g_program.cases intro: program)

lemma p_program_result: "p_program ts = (r, None) \<Longrightarrow> r \<noteq> None"
  by (auto simp: p_program_def split: sum.splits if_splits)

text \<open>The outcome of \<open>yyparse\<close>.\<close>

lemma yyparse_accepts:
  assumes "g_program (sql_tokens source) stmt"
  shows "\<exists>ctx. yyparse sx source = (ctx, 0) \<and> pc_result ctx = Some stmt \<and> \<not> pc_lex_error ctx"
proof -
  let ?items = "scan source start_location new_context"
  have p: "p_program (map fst ?items) = (Some stmt, None)"
    using p_program_tokens [of source stmt] assms by (simp add: sql_tokens_def)
  obtain items last where i: "?items = items @ [last]" "\<forall>(t, l, c) \<in> set ?items. t \<noteq> LEX_ERROR \<longrightarrow> clean c"
    using scan_shape [OF clean_new] by metis
  obtain t l c where last: "last = (t, l, c)" by (cases last)
  have "t = YYEOF" using assms i(1) last by (auto simp: sql_tokens_def elim!: g_program.cases)
  with i last have "\<not> pc_lex_error c" by (auto simp: clean_def)
  with p i(1) last show ?thesis by (simp add: yyparse_def Let_def nth_append)
qed

lemma yyparse_accepted:
  assumes "yyparse sx source = (ctx, 0)"
  shows "\<exists>stmt. pc_result ctx = Some stmt \<and> g_program (sql_tokens source) stmt"
proof -
  obtain r f where p: "p_program (sql_tokens source) = (r, f)" by fastforce
  have "f = None" using assms p
    by (auto simp: yyparse_def sql_tokens_def Let_def split: option.splits failure.splits prod.splits)
  moreover then obtain stmt where "r = Some stmt" using p_program_result p by blast
  ultimately have "p_program (sql_tokens source) = (Some stmt, None)" using p by simp
  moreover from this have "pc_result ctx = Some stmt" using assms
    by (auto simp: yyparse_def sql_tokens_def Let_def split: prod.splits)
  ultimately show ?thesis using p_program_tokens by blast
qed

lemma sql_parse_iff: "sql_parse sx sql = Inr stmt \<longleftrightarrow> g_program (sql_tokens (c_str sql)) stmt"
proof
  assume g: "g_program (sql_tokens (c_str sql)) stmt"
  from yyparse_accepts [OF this] obtain ctx where
    "yyparse sx (c_str sql) = (ctx, 0)" "pc_result ctx = Some stmt" "\<not> pc_lex_error ctx" by blast
  then show "sql_parse sx sql = Inr stmt"
    by (simp add: sql_parse_def parse_text_def parse_statement_def new_parser_def op_simps)
next
  assume a: "sql_parse sx sql = Inr stmt"
  obtain ctx rc where y: "yyparse sx (c_str sql) = (ctx, rc)" by fastforce
  from a have "rc = 0" "pc_result ctx = Some stmt"
    by (auto simp: sql_parse_def parse_text_def parse_statement_def new_parser_def op_simps y
      split: option.splits if_splits)
  with yyparse_accepted [of sx "c_str sql" ctx] y show "g_program (sql_tokens (c_str sql)) stmt" by auto
qed

section \<open>Statements that can be written\<close>

definition name_ok :: "string \<Rightarrow> bool" where
  "name_ok nm \<longleftrightarrow> word_shape nm \<and> (keyword_kind (map tolower nm) = None \<or> one_case nm)"

definition ref_ok :: "TableRef \<Rightarrow> bool" where
  "ref_ok r \<longleftrightarrow> name_ok (ref_table r) \<and> (ref_database r = [] \<or> name_ok (ref_database r))"

text \<open>A string literal has no NUL in it: the scanner gets a C string.\<close>

fun value_ok :: "Value \<Rightarrow> bool" where
  "value_ok (VStr s) = (CHR 0x00 \<notin> set s)"
| "value_ok v = True"

text \<open>A column: INDEXED brings NOT NULL with it, a default has the type of the column or is NULL.\<close>

definition column_ok :: "ColumnDef \<Rightarrow> bool" where
  "column_ok c \<longleftrightarrow> name_ok (col_name c) \<and> (indexed c \<longrightarrow> not_null c) \<and>
     (if has_default c then default_fits c (default_value c) \<and> value_ok (default_value c) else default_value c = VNull)"

fun atom_ok :: "Expr \<Rightarrow> bool" where
  "atom_ok (ColumnRefExpr nm) = name_ok nm"
| "atom_ok (LiteralExpr v) = (\<not> is_null v \<and> value_ok v)"
| "atom_ok _ = False"

fun expr_ok :: "Expr \<Rightarrow> bool" where
  "expr_ok (CompareExpr cop l r) = (atom_ok l \<and> atom_ok r)"
| "expr_ok (BetweenExpr e lo hi) = (atom_ok e \<and> atom_ok lo \<and> atom_ok hi)"
| "expr_ok (LikeExpr e p) = (atom_ok e \<and> atom_ok p)"
| "expr_ok (LogicalExpr lop l r) = (expr_ok l \<and> expr_ok r)"
| "expr_ok _ = False"

definition where_ok :: "Expr option \<Rightarrow> bool" where
  "where_ok cond = (case cond of None \<Rightarrow> True | Some e \<Rightarrow> expr_ok e)"

definition select_item_ok :: "SelectItem \<Rightarrow> bool" where
  "select_item_ok it \<longleftrightarrow> \<not> is_star it \<and> (item_alias it = [] \<or> name_ok (item_alias it)) \<and>
     (if agg_star it then agg it = Count \<and> item_column it = [] else name_ok (item_column it))"

definition row_ok :: "Value list \<Rightarrow> bool" where
  "row_ok vs \<longleftrightarrow> vs \<noteq> [] \<and> list_all value_ok vs"

fun stmt_ok :: "Statement \<Rightarrow> bool" where
  "stmt_ok (CreateDatabaseStmt nm) = name_ok nm"
| "stmt_ok (DropDatabaseStmt nm) = name_ok nm"
| "stmt_ok (UseStmt nm) = name_ok nm"
| "stmt_ok (CreateTableStmt t cs) = (ref_ok t \<and> cs \<noteq> [] \<and> list_all column_ok cs)"
| "stmt_ok (DropTableStmt t) = ref_ok t"
| "stmt_ok (InsertStmt t cols rows) =
     (ref_ok t \<and> list_all name_ok cols \<and> rows \<noteq> [] \<and> list_all row_ok rows)"
| "stmt_ok (UpdateStmt t as cond) =
     (ref_ok t \<and> as \<noteq> [] \<and> list_all (\<lambda>(c, e). name_ok c \<and> atom_ok e) as \<and> where_ok cond)"
| "stmt_ok (DeleteStmt t cond) = (ref_ok t \<and> where_ok cond)"
| "stmt_ok (SelectStmt t items cond) =
     (ref_ok t \<and> (items = [new_item\<lparr>is_star := True\<rparr>] \<or> items \<noteq> [] \<and> list_all select_item_ok items) \<and> where_ok cond)"

section \<open>Their tokens\<close>

definition kw :: "keyword \<Rightarrow> token" where
  "kw k = Keyword k (fst (hd (filter (\<lambda>(s, k'). k' = k) kw_table)))"

definition name_token :: "string \<Rightarrow> token" where
  "name_token nm = (case keyword_kind (map tolower nm) of None \<Rightarrow> IDENT nm | Some k \<Rightarrow> Keyword k nm)"

definition ref_tokens :: "TableRef \<Rightarrow> token list" where
  "ref_tokens r =
     (if ref_database r = [] then [] else [name_token (ref_database r), DOT]) @ [name_token (ref_table r)]"

fun value_token :: "Value \<Rightarrow> token" where
  "value_token VNull = kw NULL_KW"
| "value_token (VInt i) = INT_LIT i"
| "value_token (VStr s) = STRING_LIT s"

fun list_tokens :: "('a \<Rightarrow> token list) \<Rightarrow> 'a list \<Rightarrow> token list" where
  "list_tokens f [] = []"
| "list_tokens f [x] = f x"
| "list_tokens f (x # xs) = f x @ COMMA # list_tokens f xs"

definition column_tokens :: "ColumnDef \<Rightarrow> token list" where
  "column_tokens c =
     [name_token (col_name c), kw (case col_type c of TInt \<Rightarrow> INT_KW | TStr \<Rightarrow> STRING_KW)] @
     (if not_null c then [kw NOT_NULL] else []) @ (if indexed c then [kw INDEXED] else []) @
     (if has_default c then [kw DEFAULT, value_token (default_value c)] else [])"

fun compare_token :: "CompareOp \<Rightarrow> token" where
  "compare_token Eq = EQEQ" | "compare_token NotEq = NEQ" | "compare_token Lt = LT"
| "compare_token Gt = GT" | "compare_token LtEq = LEQ" | "compare_token GtEq = GEQ"

fun expr_tokens :: "Expr \<Rightarrow> token list" where
  "expr_tokens (ColumnRefExpr nm) = [name_token nm]"
| "expr_tokens (LiteralExpr v) = [value_token v]"
| "expr_tokens (CompareExpr cop l r) = expr_tokens l @ compare_token cop # expr_tokens r"
| "expr_tokens (BetweenExpr e lo hi) = expr_tokens e @ kw BETWEEN # expr_tokens lo @ kw AND_KW # expr_tokens hi"
| "expr_tokens (LikeExpr e p) = expr_tokens e @ kw LIKE # expr_tokens p"
| "expr_tokens (LogicalExpr lop l r) =
     LPAREN # expr_tokens l @ kw (case lop of And \<Rightarrow> AND_KW | Or \<Rightarrow> OR_KW) # expr_tokens r @ [RPAREN]"

definition where_tokens :: "Expr option \<Rightarrow> token list" where
  "where_tokens cond = (case cond of None \<Rightarrow> [] | Some e \<Rightarrow> kw WHERE # expr_tokens e)"

definition item_tokens :: "SelectItem \<Rightarrow> token list" where
  "item_tokens it =
     (let arg = (if agg_star it then STAR else name_token (item_column it));
          call = (\<lambda>k. [kw k, LPAREN, arg, RPAREN])
      in (case agg it of AggNone \<Rightarrow> [arg] | Sum \<Rightarrow> call SUM_KW | Count \<Rightarrow> call COUNT | Avg \<Rightarrow> call AVG) @
         (if item_alias it = [] then [] else [kw AS, name_token (item_alias it)]))"

definition in_parens :: "token list \<Rightarrow> token list" where
  "in_parens ts = LPAREN # ts @ [RPAREN]"

definition assignment_tokens :: "string \<times> Expr \<Rightarrow> token list" where
  "assignment_tokens a = name_token (fst a) # EQ # expr_tokens (snd a)"

fun stmt_tokens :: "Statement \<Rightarrow> token list" where
  "stmt_tokens (CreateDatabaseStmt nm) = [kw CREATE, kw DATABASE_KW, name_token nm]"
| "stmt_tokens (DropDatabaseStmt nm) = [kw DROP, kw DATABASE_KW, name_token nm]"
| "stmt_tokens (UseStmt nm) = [kw USE, name_token nm]"
| "stmt_tokens (CreateTableStmt t cs) =
     kw CREATE # kw TABLE # ref_tokens t @ in_parens (list_tokens column_tokens cs)"
| "stmt_tokens (DropTableStmt t) = kw DROP # kw TABLE # ref_tokens t"
| "stmt_tokens (InsertStmt t cols rows) =
     kw INSERT # kw INTO # ref_tokens t @
     (if cols = [] then [] else in_parens (list_tokens (\<lambda>c. [name_token c]) cols)) @
     kw VALUE_KW # list_tokens (\<lambda>vs. in_parens (list_tokens (\<lambda>v. [value_token v]) vs)) rows"
| "stmt_tokens (UpdateStmt t as cond) =
     kw UPDATE # ref_tokens t @ kw SET # list_tokens assignment_tokens as @ where_tokens cond"
| "stmt_tokens (DeleteStmt t cond) = kw DELETE # kw FROM # ref_tokens t @ where_tokens cond"
| "stmt_tokens (SelectStmt t items cond) =
     kw SELECT # (if items = [new_item\<lparr>is_star := True\<rparr>] then [STAR] else list_tokens item_tokens items) @
     kw FROM # ref_tokens t @ where_tokens cond"

definition statement_text :: "Statement \<Rightarrow> string" where
  "statement_text stmt = token_text (stmt_tokens stmt) @ '';''"

section \<open>The grammar derives them\<close>

lemma kw_Keyword: "kw k = Keyword k (fst (hd (filter (\<lambda>(s, k'). k' = k) kw_table)))"
  by (simp add: kw_def)

lemma g_name: "g_identifier [name_token nm] nm"
  by (auto simp: name_token_def intro: g_identifier.intros split: option.splits)

lemma g_value: "g_literal [value_token v] v"
  by (cases v) (auto simp: kw_def intro: g_literal.intros)

lemma g_ref: "g_table_ref (ref_tokens r) r"
  using table_ref_plain [OF g_name, of "ref_table r"] table_ref_dot [OF g_name g_name, of "ref_database r" "ref_table r"]
  by (cases r) (simp add: ref_tokens_def)

text \<open>Lists are written from the left and derived from the right.\<close>

lemma comma_list_Cons: "comma_list G us xs \<Longrightarrow> G ts x \<Longrightarrow> comma_list G (ts @ COMMA # us) (x # xs)"
proof (induction rule: comma_list.induct)
  case (comma_one us y)
  then show ?case using comma_list.comma_more [OF comma_list.comma_one, of G ts x us y] by simp
next
  case (comma_more us ys vs y)
  then show ?case using comma_list.comma_more [of G "ts @ COMMA # us" "x # ys" vs y] by simp
qed

lemma g_list: "xs \<noteq> [] \<Longrightarrow> (\<And>x. x \<in> set xs \<Longrightarrow> G (f x) x) \<Longrightarrow> comma_list G (list_tokens f xs) xs"
  by (induction f xs rule: list_tokens.induct) (auto intro: comma_list.comma_one comma_list_Cons)

lemma g_column:
  assumes "column_ok c"
  shows "g_column_def (column_tokens c) c"
proof -
  let ?ty = "kw (case col_type c of TInt \<Rightarrow> INT_KW | TStr \<Rightarrow> STRING_KW)"
  let ?c0 = "new_column (col_name c) (col_type c)"
  let ?c1 = "?c0\<lparr>not_null := not_null c\<rparr>"
  let ?c2 = "?c1\<lparr>indexed := indexed c\<rparr>"
  have "g_col_type [?ty] (col_type c)" by (cases "col_type c") (auto simp: kw_def intro: g_col_type.intros)
  from column_def_start [OF g_name this]
  have 0: "g_column_def [name_token (col_name c), ?ty] ?c0" by simp
  let ?t1 = "[name_token (col_name c), ?ty] @ (if not_null c then [kw NOT_NULL] else [])"
  have 1: "g_column_def ?t1 ?c1"
    using 0 column_def_not_null [OF 0] by (auto simp: kw_def new_column_def)
  let ?t2 = "?t1 @ (if indexed c then [kw INDEXED] else [])"
  have 2: "g_column_def ?t2 ?c2"
  proof (cases "indexed c")
    case True
    with assms have "not_null c" by (simp add: column_ok_def)
    with True column_def_indexed [OF 1] show ?thesis by (auto simp: kw_def new_column_def)
  qed (use 1 in \<open>auto simp: new_column_def\<close>)
  show ?thesis
  proof (cases "has_default c")
    case True
    with assms have "default_fits ?c2 (default_value c)"
      by (simp add: column_ok_def default_fits_def new_column_def)
    from column_def_default [OF 2 g_value this] True show ?thesis
      by (cases c) (auto simp: kw_def column_tokens_def new_column_def)
  next
    case False
    with assms 2 show ?thesis by (cases c) (auto simp: column_ok_def column_tokens_def new_column_def)
  qed
qed

lemma g_atom_tokens: "atom_ok e \<Longrightarrow> g_atom (expr_tokens e) e"
  by (cases e) (auto intro: atom_literal atom_identifier g_name g_value)

lemma g_compare: "g_compare_op [compare_token cop] cop"
  by (cases cop) (auto intro: g_compare_op.intros)

lemma g_expr: "expr_ok e \<Longrightarrow> g_predicate (expr_tokens e) e"
proof (induction e rule: expr_ok.induct)
  case (1 cop l r)
  then show ?case using predicate_compare [OF g_atom_tokens g_compare g_atom_tokens, of l r cop] by simp
next
  case (2 e lo hi)
  then show ?case
    unfolding expr_tokens.simps kw_Keyword by (intro predicate_between g_atom_tokens) auto
next
  case (3 e p)
  then show ?case
    unfolding expr_tokens.simps kw_Keyword by (intro predicate_like g_atom_tokens) auto
next
  case (4 lop l r)
  then have lr: "g_predicate (expr_tokens l) l" "g_predicate (expr_tokens r) r" by auto
  have "g_or_expr (expr_tokens l @ kw (case lop of And \<Rightarrow> AND_KW | Or \<Rightarrow> OR_KW) # expr_tokens r) (LogicalExpr lop l r)"
  proof (cases lop)
    case And
    with or_expr_one [OF and_expr_and [OF and_expr_one [OF lr(1)] lr(2)]] show ?thesis
      by (simp add: kw_Keyword)
  next
    case Or
    with or_expr_or [OF or_expr_one [OF and_expr_one [OF lr(1)]] and_expr_one [OF lr(2)]] show ?thesis
      by (simp add: kw_Keyword)
  qed
  from predicate_parens [OF this] show ?case by simp
qed auto

lemma g_where: "where_ok cond \<Longrightarrow> g_opt_where (where_tokens cond) cond"
  by (cases cond) (auto simp: where_ok_def where_tokens_def kw_def
    intro: where_none where_some or_expr_one and_expr_one g_expr)

text \<open>Items, rows, statements.\<close>

lemma g_item:
  assumes "select_item_ok it"
  shows "g_select_item (item_tokens it) it"
proof -
  have fn: "g_aggregate_fn [kw k] fn" if "(k, fn) \<in> {(SUM_KW, Sum), (COUNT, Count), (AVG, Avg)}" for k fn
    using that by (auto simp: kw_def intro: g_aggregate_fn.intros)
  have as: "kw AS = Keyword AS (fst (hd (filter (\<lambda>(s, k'). k' = AS) kw_table)))" by (rule kw_Keyword)
  show ?thesis
  proof (cases "agg_star it")
    case True
    with assms have c: "agg it = Count" "item_column it = []" "\<not> is_star it" by (auto simp: select_item_ok_def)
    have f: "g_aggregate_fn [kw COUNT] Count" by (rule fn) simp
    from item_star [OF f] item_star_as [OF f g_name [of "item_alias it"]] c True show ?thesis
      by (cases it) (auto simp: item_tokens_def new_item_def as Let_def)
  next
    case False
    show ?thesis
    proof (cases "agg it = AggNone")
      case True
      with item_column [OF g_name, of "item_column it"] item_column_as [OF g_name [of "item_column it"] g_name [of "item_alias it"]]
        False assms show ?thesis
        by (cases it) (auto simp: item_tokens_def new_item_def as select_item_ok_def Let_def)
    next
      case agg: False
      then obtain k where k: "g_aggregate_fn [kw k] (agg it)"
        "item_tokens it = [kw k, LPAREN, name_token (item_column it), RPAREN] @
           (if item_alias it = [] then [] else [kw AS, name_token (item_alias it)])"
        using False fn by (cases "agg it") (auto simp: item_tokens_def Let_def)
      from item_agg [OF k(1) g_name, of "item_column it"]
        item_agg_as [OF k(1) g_name [of "item_column it"] g_name [of "item_alias it"]] k(2) False assms show ?thesis
        by (cases it) (auto simp: new_item_def as select_item_ok_def)
    qed
  qed
qed

lemma g_items:
  assumes "items = [new_item\<lparr>is_star := True\<rparr>] \<or> items \<noteq> [] \<and> list_all select_item_ok items"
  shows "g_select_items (if items = [new_item\<lparr>is_star := True\<rparr>] then [STAR] else list_tokens item_tokens items) items"
proof (cases "items = [new_item\<lparr>is_star := True\<rparr>]")
  case False
  with assms have "comma_list g_select_item (list_tokens item_tokens items) items"
    by (intro g_list g_item) (auto simp: list_all_iff)
  with False show ?thesis by (simp add: items_list)
qed (simp add: items_star)

lemma g_row: "vs \<noteq> [] \<Longrightarrow> g_insert_row (in_parens (list_tokens (\<lambda>v. [value_token v]) vs)) vs"
  unfolding in_parens_def by (intro insert_row g_list g_value)

lemma g_cols: "g_opt_insert_cols (if cols = [] then [] else in_parens (list_tokens (\<lambda>c. [name_token c]) cols)) cols"
  unfolding in_parens_def by (auto intro: insert_cols_none insert_cols_some g_list g_name)

lemma g_assign: "atom_ok e \<Longrightarrow> g_assignment (assignment_tokens (c, e)) (c, e)"
  unfolding assignment_tokens_def using assignment_eq [OF g_name g_atom_tokens, of e c] by simp

lemma g_statement: "stmt_ok stmt \<Longrightarrow> g_stmt (stmt_tokens stmt) stmt"
proof (induction stmt rule: stmt_ok.induct)
  case (4 t cs)
  then have "comma_list g_column_def (list_tokens column_tokens cs) cs"
    by (intro g_list g_column) (auto simp: list_all_iff)
  then show ?case unfolding stmt_tokens.simps in_parens_def kw_Keyword by (intro stmt_create_table g_ref)
next
  case (6 t cols rows)
  then have "comma_list g_insert_row (list_tokens (\<lambda>vs. in_parens (list_tokens (\<lambda>v. [value_token v]) vs)) rows) rows"
    by (intro g_list g_row) (auto simp: list_all_iff row_ok_def)
  then show ?case unfolding stmt_tokens.simps kw_Keyword by (intro stmt_insert g_ref g_cols)
next
  case (7 t as cond)
  then have "comma_list g_assignment (list_tokens assignment_tokens as) as"
    by (intro g_list) (auto simp: list_all_iff intro: g_assign)
  with 7 show ?case unfolding stmt_tokens.simps kw_Keyword by (intro stmt_update g_ref g_where) simp_all
next
  case (8 t cond)
  then show ?case unfolding stmt_tokens.simps kw_Keyword by (intro stmt_delete g_ref g_where) simp_all
next
  case (9 t items cond)
  then show ?case unfolding stmt_tokens.simps kw_Keyword by (intro stmt_select g_ref g_where g_items) simp_all
qed (unfold stmt_tokens.simps kw_Keyword, (intro g_stmt.intros g_name g_ref)+)

section \<open>Reading them back\<close>

lemma kw_ok: "token_ok (kw k)"
  by (cases k; hypsubst; code_simp)

lemma name_token_ok: "name_ok nm \<Longrightarrow> token_ok (name_token nm)"
  by (auto simp: name_ok_def name_token_def split: option.splits)

lemma value_token_ok: "value_ok v \<Longrightarrow> token_ok (value_token v)"
  by (cases v) (simp_all add: kw_ok)

lemma list_tokens_ok: "(\<And>x. x \<in> set xs \<Longrightarrow> list_all token_ok (f x)) \<Longrightarrow> list_all token_ok (list_tokens f xs)"
  by (induction f xs rule: list_tokens.induct) auto

lemma compare_token_ok: "token_ok (compare_token cop)"
  by (cases cop) simp_all

lemma atom_tokens_ok: "atom_ok e \<Longrightarrow> list_all token_ok (expr_tokens e)"
  by (cases e) (simp_all add: name_token_ok value_token_ok)

lemma expr_tokens_ok: "expr_ok e \<Longrightarrow> list_all token_ok (expr_tokens e)"
  by (induction e rule: expr_ok.induct) (simp_all add: atom_tokens_ok compare_token_ok kw_ok)

lemma where_tokens_ok: "where_ok cond \<Longrightarrow> list_all token_ok (where_tokens cond)"
  by (cases cond) (simp_all add: where_ok_def where_tokens_def kw_ok expr_tokens_ok)

lemma ref_tokens_ok: "ref_ok r \<Longrightarrow> list_all token_ok (ref_tokens r)"
  by (auto simp: ref_ok_def ref_tokens_def name_token_ok)

lemma in_parens_ok: "list_all token_ok ts \<Longrightarrow> list_all token_ok (in_parens ts)"
  by (simp add: in_parens_def)

lemma column_tokens_ok: "column_ok c \<Longrightarrow> list_all token_ok (column_tokens c)"
  by (simp add: column_ok_def column_tokens_def name_token_ok value_token_ok kw_ok)

lemma item_tokens_ok: "select_item_ok it \<Longrightarrow> list_all token_ok (item_tokens it)"
  by (cases "agg it") (auto simp: select_item_ok_def item_tokens_def name_token_ok kw_ok Let_def split: if_splits)

lemma stmt_tokens_ok: "stmt_ok stmt \<Longrightarrow> list_all token_ok (stmt_tokens stmt)"
  by (induction stmt rule: stmt_ok.induct)
     (auto simp: kw_ok name_token_ok ref_tokens_ok where_tokens_ok list_all_iff [of column_ok] list_all_iff [of select_item_ok]
       list_all_iff [of row_ok] list_all_iff [of value_ok] row_ok_def
       list_all_iff [of name_ok] list_all_iff [of "\<lambda>(c, e). name_ok c \<and> atom_ok e"] assignment_tokens_def
       intro!: in_parens_ok list_tokens_ok column_tokens_ok item_tokens_ok value_token_ok atom_tokens_ok)

lemma statement_text_tokens: "stmt_ok stmt \<Longrightarrow> sql_tokens (statement_text stmt) = stmt_tokens stmt @ [SEMI, YYEOF]"
  unfolding statement_text_def using sql_tokens_text stmt_tokens_ok by blast

lemma written_statement_is_read:
  assumes "stmt_ok stmt"
  shows "sql_parse sx (statement_text stmt) = Inr stmt"
proof -
  have "CHR 0x00 \<notin> set (statement_text stmt)"
    using token_text_no_nul [OF stmt_tokens_ok [OF assms]] by (simp add: statement_text_def)
  then have "c_str (statement_text stmt) = statement_text stmt" by (auto simp: c_str_def takeWhile_eq_all_conv)
  moreover have "g_program (stmt_tokens stmt @ [SEMI, YYEOF]) stmt" by (rule program) (rule g_statement [OF assms])
  ultimately show ?thesis by (simp add: sql_parse_iff statement_text_tokens [OF assms])
qed

section \<open>What the parser returns can be written\<close>

lemma identifier_ok: "g_identifier ts nm \<Longrightarrow> list_all token_ok ts \<Longrightarrow> name_ok nm"
  by (auto simp: name_ok_def elim!: g_identifier.cases)

lemma table_ref_ok: "g_table_ref ts r \<Longrightarrow> list_all token_ok ts \<Longrightarrow> ref_ok r"
  by (auto simp: ref_ok_def elim!: g_table_ref.cases dest: identifier_ok)

lemma literal_ok: "g_literal ts v \<Longrightarrow> list_all token_ok ts \<Longrightarrow> value_ok v"
  by (auto elim!: g_literal.cases)

lemma column_def_ok: "g_column_def ts c \<Longrightarrow> list_all token_ok ts \<Longrightarrow> column_ok c"
  by (induction rule: g_column_def.induct)
     (auto simp: column_ok_def new_column_def default_fits_def dest: identifier_ok literal_ok)

lemma atom_ok_parsed: "g_atom ts e \<Longrightarrow> list_all token_ok ts \<Longrightarrow> atom_ok e"
  by (auto elim!: g_atom.cases dest: identifier_ok literal_ok)

lemma expr_ok_parsed:
  "g_or_expr ts e \<Longrightarrow> list_all token_ok ts \<longrightarrow> expr_ok e"
  "g_and_expr ts e \<Longrightarrow> list_all token_ok ts \<longrightarrow> expr_ok e"
  "g_predicate ts e \<Longrightarrow> list_all token_ok ts \<longrightarrow> expr_ok e"
  by (induction rule: g_or_expr_g_and_expr_g_predicate.inducts) (auto dest: atom_ok_parsed)

lemma where_ok_parsed: "g_opt_where ts cond \<Longrightarrow> list_all token_ok ts \<Longrightarrow> where_ok cond"
  by (auto simp: where_ok_def elim!: g_opt_where.cases dest: expr_ok_parsed)

lemma list_ok:
  assumes "\<And>ts x. G ts x \<Longrightarrow> list_all token_ok ts \<Longrightarrow> P x"
  shows "comma_list G ts xs \<Longrightarrow> list_all token_ok ts \<Longrightarrow> xs \<noteq> [] \<and> list_all P xs"
  by (induction rule: comma_list.induct) (auto dest: assms)

lemma item_ok_parsed: "g_select_item ts it \<Longrightarrow> list_all token_ok ts \<Longrightarrow> select_item_ok it"
  by (auto simp: select_item_ok_def new_item_def elim!: g_select_item.cases dest: identifier_ok)

lemma values_ok_parsed: "comma_list g_literal ts vs \<Longrightarrow> list_all token_ok ts \<Longrightarrow> vs \<noteq> [] \<and> list_all value_ok vs"
  by (rule list_ok [OF literal_ok])

lemma row_ok_parsed: "g_insert_row ts vs \<Longrightarrow> list_all token_ok ts \<Longrightarrow> row_ok vs"
  by (auto simp: row_ok_def elim!: g_insert_row.cases dest: values_ok_parsed)

lemma rows_ok_parsed: "comma_list g_insert_row ts rows \<Longrightarrow> list_all token_ok ts \<Longrightarrow> rows \<noteq> [] \<and> list_all row_ok rows"
  by (rule list_ok [OF row_ok_parsed])

lemma names_ok_parsed: "comma_list g_identifier ts cols \<Longrightarrow> list_all token_ok ts \<Longrightarrow> cols \<noteq> [] \<and> list_all name_ok cols"
  by (rule list_ok [OF identifier_ok])

lemma cols_ok_parsed: "g_opt_insert_cols ts cols \<Longrightarrow> list_all token_ok ts \<Longrightarrow> list_all name_ok cols"
  by (auto elim!: g_opt_insert_cols.cases dest: names_ok_parsed)

lemma columns_ok_parsed: "comma_list g_column_def ts cs \<Longrightarrow> list_all token_ok ts \<Longrightarrow> cs \<noteq> [] \<and> list_all column_ok cs"
  by (rule list_ok [OF column_def_ok])

lemma assignment_ok_parsed:
  "g_assignment ts a \<Longrightarrow> list_all token_ok ts \<Longrightarrow> (case a of (c, e) \<Rightarrow> name_ok c \<and> atom_ok e)"
  by (auto elim!: g_assignment.cases dest: identifier_ok atom_ok_parsed)

lemma assignments_ok_parsed: "comma_list g_assignment ts as \<Longrightarrow> list_all token_ok ts \<Longrightarrow>
    as \<noteq> [] \<and> list_all (\<lambda>(c, e). name_ok c \<and> atom_ok e) as"
  by (rule list_ok [OF assignment_ok_parsed])

lemma item_list_ok_parsed: "comma_list g_select_item ts items \<Longrightarrow> list_all token_ok ts \<Longrightarrow>
    items \<noteq> [] \<and> list_all select_item_ok items"
  by (rule list_ok [OF item_ok_parsed])

lemma items_ok_parsed: "g_select_items ts items \<Longrightarrow> list_all token_ok ts \<Longrightarrow>
    items = [new_item\<lparr>is_star := True\<rparr>] \<or> items \<noteq> [] \<and> list_all select_item_ok items"
  by (auto elim!: g_select_items.cases dest: item_list_ok_parsed)

lemma stmt_ok_parsed: "g_stmt ts stmt \<Longrightarrow> list_all token_ok ts \<Longrightarrow> stmt_ok stmt"
proof (induction rule: g_stmt.induct)
  case (stmt_select ts items us t vs cond s s')
  then show ?case using items_ok_parsed [OF stmt_select.hyps(1)] by (auto dest: table_ref_ok where_ok_parsed)
qed (auto dest: identifier_ok table_ref_ok where_ok_parsed columns_ok_parsed rows_ok_parsed cols_ok_parsed
  assignments_ok_parsed)

lemma parsed_statement_ok:
  assumes "sql_parse sx sql = Inr stmt"
  shows "stmt_ok stmt"
proof -
  from assms obtain ts where ts: "sql_tokens (c_str sql) = ts @ [SEMI, YYEOF]" "g_stmt ts stmt"
    unfolding sql_parse_iff by (auto elim: g_program.cases)
  have "CHR 0x00 \<notin> set (c_str sql)" by (auto simp: c_str_def dest: set_takeWhileD)
  moreover have "\<not> final t" if "t \<in> set ts" for t
  proof -
    obtain us u where us: "sql_tokens (c_str sql) = us @ [u]" "\<forall>t \<in> set us. \<not> final t"
      using sql_tokens_shape by blast
    with ts(1) have "us = ts @ [SEMI]" by simp
    with us(2) that show ?thesis by simp
  qed
  ultimately have "list_all token_ok ts"
    using sql_tokens_ok [of _ "c_str sql"] ts(1) by (simp add: list_all_iff)
  with stmt_ok_parsed ts(2) show ?thesis by blast
qed

end
