(* ===== verification/Script.thy ===== *)
theory Script
  imports SqlText Splitter_Correct LocalProgram
begin

text \<open>
  A script of written statements: the splitter finds each of them, and the local program runs
  them one after the other.
\<close>

definition script_text :: "Statement list \<Rightarrow> string" where
  "script_text stmts = concat (map statement_text stmts)"

section \<open>The splitter on a written statement\<close>

text \<open>The items of a token: a string literal is one, of anything else every character is one.\<close>

definition quote_char :: "char \<Rightarrow> quoted_char" where
  "quote_char c =
     (if c = CHR 0x0A then Escaped CHR ''n'' else if c = CHR 0x22 \<or> c = CHR 0x5C then Escaped c else Raw c)"

fun token_items :: "token \<Rightarrow> item list" where
  "token_items (STRING_LIT s) = [Quoted (map quote_char s)]"
| "token_items t = map Plain (lexeme t)"

definition tokens_items :: "token list \<Rightarrow> item list" where
  "tokens_items ts = concat (map (\<lambda>t. token_items t @ [Plain CHR '' '']) ts)"

lemma token_items_text: "concat (map item_text (token_items t)) = lexeme t"
proof -
  have "quoted_text (quote_char c) = escape_char c" for c by (simp add: quote_char_def)
  moreover have "concat (map item_text (map Plain s)) = s" for s by (induction s) simp_all
  ultimately show ?thesis by (cases t) (simp_all add: comp_def del: escape_char.simps)
qed

lemma tokens_items_text: "Splitter_Correct.sql_text (tokens_items ts) = token_text ts @ '';''"
  by (induction ts) (simp_all add: tokens_items_def token_text_def sql_text_def token_items_text)

text \<open>Characters that may stand anywhere outside strings.\<close>

definition harmless :: "char \<Rightarrow> bool" where
  "harmless c \<longleftrightarrow> c \<notin> {CHR 0x22, CHR '';'', CHR ''-'', CHR ''/''}"

lemma harmless_items: "list_all harmless s \<Longrightarrow> items_ok items \<Longrightarrow> items_ok (map Plain s @ items)"
  by (induction s) (auto simp: harmless_def)

lemma harmless_digits: "list_all harmless (nat_str n)"
  using nat_str_digits [of n] by (auto simp: list_all_iff harmless_def is_digit_def less_eq_char_def)

lemma harmless_word: "word_shape s \<Longrightarrow> list_all harmless s"
  by (cases s) (auto simp: word_shape_def list_all_iff harmless_def is_id_cont_def is_id_start_def is_upper_def
    is_lower_def is_digit_def less_eq_char_def)

lemma token_items_ok:
  assumes "token_ok t" and "t \<noteq> SEMI" and "items_ok items"
  shows "items_ok (token_items t @ items)"
proof (cases t)
  case (INT_LIT i)
  have "items_ok (map Plain (CHR ''-'' # nat_str n) @ items)" for n
  proof -
    obtain c cs where c: "nat_str n = c # cs" by (cases "nat_str n") auto
    with harmless_digits [of n] have "c \<noteq> CHR ''-''" by (simp add: harmless_def)
    with c harmless_items [OF harmless_digits assms(3), of n] show ?thesis by simp
  qed
  with INT_LIT harmless_items [OF harmless_digits assms(3)] show ?thesis by (simp add: int_str_def)
next
  case (STRING_LIT s)
  with assms(3) show ?thesis by (auto simp: quote_char_def list_all_iff)
next
  case (IDENT s)
  with assms harmless_items [OF harmless_word] show ?thesis by simp
next
  case (Keyword k s)
  with assms harmless_items [OF harmless_word] show ?thesis by simp
qed (use assms in \<open>simp_all add: harmless_items harmless_def\<close>)

lemma tokens_items_ok: "list_all token_ok ts \<Longrightarrow> SEMI \<notin> set ts \<Longrightarrow> items_ok (tokens_items ts)"
proof (induction ts)
  case (Cons t ts)
  then have "items_ok (Plain CHR '' '' # tokens_items ts)" by (simp add: tokens_items_def)
  moreover have "token_ok t" "t \<noteq> SEMI" using Cons.prems by auto
  ultimately have "items_ok (token_items t @ Plain CHR '' '' # tokens_items ts)" by (intro token_items_ok)
  then show ?case by (simp add: tokens_items_def)
qed (simp add: tokens_items_def)

lemma list_tokens_no_semi: "(\<And>x. x \<in> set xs \<Longrightarrow> SEMI \<notin> set (f x)) \<Longrightarrow> SEMI \<notin> set (list_tokens f xs)"
  by (induction f xs rule: list_tokens.induct) auto

lemma stmt_tokens_no_semi: "SEMI \<notin> set (stmt_tokens stmt)"
proof -
  have name: "name_token nm \<noteq> SEMI" "kw k \<noteq> SEMI" "value_token v \<noteq> SEMI" for nm k v
    by (simp add: name_token_def split: option.splits, simp add: kw_def, cases v, simp_all add: kw_def)
  have comp: "compare_token cop \<noteq> SEMI" for cop by (cases cop) simp_all
  have expr: "SEMI \<notin> set (expr_tokens e)" for e
    by (induction e) (auto simp: name [symmetric] comp [symmetric] split: LogicalOp.splits)
  note [simp] = name [symmetric] expr
  have "SEMI \<notin> set (ref_tokens r)" "SEMI \<notin> set (where_tokens cond)" for r cond
    by (simp_all add: ref_tokens_def where_tokens_def split: option.splits)
  moreover have "SEMI \<notin> set (item_tokens it)" for it
    by (cases "agg it") (simp_all add: item_tokens_def Let_def)
  moreover have "SEMI \<notin> set (column_tokens c)" for c by (simp add: column_tokens_def)
  ultimately show ?thesis
    by (cases stmt) (simp_all add: in_parens_def assignment_tokens_def list_tokens_no_semi)
qed

lemma statement_found:
  assumes "stmt_ok stmt"
  shows "next_loop Code [] (statement_text stmt @ rest) = (True, statement_text stmt, rest)"
  unfolding statement_found_iff
  using tokens_items_ok [OF stmt_tokens_ok [OF assms] stmt_tokens_no_semi] tokens_items_text
  by (intro exI [of _ "tokens_items (stmt_tokens stmt)"]) (simp add: statement_text_def)

lemma statements_of_script: "list_all stmt_ok stmts \<Longrightarrow> statements (script_text stmts) = map statement_text stmts"
proof (induction stmts)
  case (Cons stmt stmts)
  then have "next_statement (script_text (stmt # stmts)) = (Some (statement_text stmt), script_text stmts)"
    using statement_found [of stmt "script_text stmts"] by (simp add: next_statement_def script_text_def)
  with Cons show ?case by (simp add: statements.simps)
qed (simp add: script_text_def statements.simps next_statement_def blank_def)

section \<open>The local program on a script\<close>

lemma statement_text_not_blank: "\<not> blank (statement_text stmt)"
proof -
  have "CHR '';'' \<in> set (statement_text stmt)" by (simp add: statement_text_def)
  moreover have "\<not> is_space CHR '';''" by (simp add: is_space_def)
  ultimately show ?thesis unfolding blank_def by blast
qed

lemma query_of_statement:
  assumes "stmt_ok stmt"
  shows "run_query env (sql_parse sx) (statement_text stmt) = execute env stmt"
proof -
  have "\<not> parser_eof (statement_text stmt)"
    using statement_text_not_blank [of stmt] unfolding parser_eof_def blank_def .
  then show ?thesis by (simp add: run_query_def written_statement_is_read [OF assms])
qed

lemma run_one_statement:
  assumes "stmt_ok stmt" and "pe_parse env = sql_parse sx" and "\<not> log_is_open (pg_log p)"
    and "execute (pe_sql env) stmt (pg_dbms p) = (Inr r, d)"
  shows "\<exists>p'. run_one env quiet (i, statement_text stmt) p = (Inr (), p') \<and> pg_dbms p' = d \<and>
      pg_printed p' = pg_printed p @ [print_result r quiet] \<and> \<not> log_is_open (pg_log p')"
  using assms statement_text_not_blank [of stmt]
  by (simp add: run_one_def on_dbms_def on_telemetry_def emit_def observe_def op_simps query_of_statement)

lemma run_statements:
  assumes "pe_parse env = sql_parse sx"
  shows "list_all stmt_ok stmts \<Longrightarrow> \<not> log_is_open (pg_log p) \<Longrightarrow>
    map_op (execute (pe_sql env)) stmts (pg_dbms p) = (Inr rs, d) \<Longrightarrow>
    \<exists>p'. for_each (run_one env quiet) (enumerate i (map statement_text stmts)) p = (Inr (), p') \<and>
      pg_dbms p' = d \<and> pg_printed p' = pg_printed p @ map (\<lambda>r. print_result r quiet) rs"
proof (induction stmts arbitrary: p rs i)
  case (Cons stmt stmts)
  from Cons.prems(3) obtain r d1 rs' where r: "execute (pe_sql env) stmt (pg_dbms p) = (Inr r, d1)"
    "map_op (execute (pe_sql env)) stmts d1 = (Inr rs', d)" "rs = r # rs'"
    by (auto simp: op_simps split: prod.splits sum.splits)
  from run_one_statement [OF _ assms Cons.prems(2) r(1), where quiet = quiet and i = i] Cons.prems(1)
  obtain p1 where p1: "run_one env quiet (i, statement_text stmt) p = (Inr (), p1)" "pg_dbms p1 = d1"
    "pg_printed p1 = pg_printed p @ [print_result r quiet]" "\<not> log_is_open (pg_log p1)" by auto
  from Cons.IH [of p1 rs' "Suc i"] Cons.prems(1) p1 r(2) obtain p' where
    "for_each (run_one env quiet) (enumerate (Suc i) (map statement_text stmts)) p1 = (Inr (), p')"
    "pg_dbms p' = d" "pg_printed p' = pg_printed p1 @ map (\<lambda>r. print_result r quiet) rs'" by auto
  with p1 r(3) show ?case by (simp add: op_simps)
qed (auto simp: op_simps)

end
