(* ===== verification/Parser_Results.thy ===== *)
theory Parser_Results
  imports Script
begin

text \<open>
  The results about the text of statements: the scanner reads tokens in any spelling, the parser
  accepts what the grammar derives, statements can be written and read back, and what a text of a
  statement does is what the statement does.
\<close>

section \<open>The scanner\<close>

text \<open>C17: The scanner reads back a text of tokens in any of their spellings and any layout: integers
  with zeros in front, clamped to 64 bits when they do not fit; strings with characters as they are
  and escapes (\<open>n\<close>, \<open>t\<close>, \<open>r\<close> as in C, anything else for itself); keywords in one case; and between
  and around the tokens blanks, line ends, line comments and block comments, which contain any
  characters up to their end and are no tokens. Only where the next character could continue a
  number, a word or a comparison must there be something in between.\<close>

theorem scanner_reads_any_layout:
  assumes "laid_out ts w"
  shows "sql_tokens w = ts @ [YYEOF]"
  using assms by (rule sql_tokens_laid_out)

definition odd_text :: string where
  "odd_text = ''-007/* a*b **/<='' @ [CHR 0x22, CHR ''a'', CHR 0x5C, CHR ''t'', CHR 0x5C, CHR 0x22, CHR 0x22] @
     [CHR 0x0D, CHR 0x0A] @ ''*-- the end''"

theorem scanner_reads_any_layout_witness:
  "sql_tokens odd_text = [INT_LIT (- 7), LEQ, STRING_LIT [CHR ''a'', CHR 0x09, CHR 0x22], STAR, YYEOF]"
proof -
  let ?s = "[CHR 0x22, CHR ''a'', CHR 0x5C, CHR ''t'', CHR 0x5C, CHR 0x22, CHR 0x22]"
  have spelling: "spelled (INT_LIT (- 7)) ''-007''" "spelled (STRING_LIT [CHR ''a'', CHR 0x09, CHR 0x22]) ?s"
    "spelled LEQ ''<=''" "spelled STAR ''*''"
    using spelled_minus [of "''007''"] spelled_string [of "[(False, CHR ''a''), (True, CHR ''t''), (True, CHR 0x22)]"]
      spelled_fixed [of LEQ] spelled_fixed [of STAR] by (simp_all add: is_digit_def digits_val_def)
  have gaps: "layout ''/* a*b **/''" "layout [CHR 0x0D, CHR 0x0A]" "layout []"
    using layout_block_comment [OF _ layout_none, of "'' a*b *''"] layout_return [OF layout_none] layout_none
    by (simp_all add: sublist_Cons_right)
  have star: "laid_out [STAR] ([CHR 0x0D, CHR 0x0A] @ ''*'' @ ''-- the end'')"
    using laid_out_token [OF gaps(2) spelling(4) laid_out_comment [OF layout_none, of "'' the end''"]] by simp
  have "laid_out [STRING_LIT [CHR ''a'', CHR 0x09, CHR 0x22], STAR] (?s @ [CHR 0x0D, CHR 0x0A] @ ''*'' @ ''-- the end'')"
    using laid_out_token [OF gaps(3) spelling(2) star] by simp
  from laid_out_token [OF gaps(1) spelling(3) this]
  have "laid_out [LEQ, STRING_LIT [CHR ''a'', CHR 0x09, CHR 0x22], STAR]
      (''/* a*b **/'' @ ''<='' @ ?s @ [CHR 0x0D, CHR 0x0A] @ ''*'' @ ''-- the end'')" by simp
  from laid_out_token [OF gaps(3) spelling(1) this]
  have "laid_out [INT_LIT (- 7), LEQ, STRING_LIT [CHR ''a'', CHR 0x09, CHR 0x22], STAR] odd_text"
    by (simp add: odd_text_def stops_def is_id_cont_def is_id_start_def is_upper_def is_lower_def is_digit_def)
  from scanner_reads_any_layout [OF this] show ?thesis by simp
qed

section \<open>The parser\<close>

text \<open>C10: A text is a statement exactly when the grammar derives the tokens of the text, up to the end:
  nothing before the statement, after its semicolon or in between is ignored, and no text has two
  meanings.\<close>

theorem text_is_parsed_by_grammar:
  "sql_parse sx sql = Inr stmt \<longleftrightarrow> g_program (sql_tokens (c_str sql)) stmt"
  by (rule sql_parse_iff)

text \<open>C11: A statement that can be written is read back from its text, the same in every part: names,
  types, attributes and defaults, strings with any characters but NUL, integers of 64 bits, and
  conditions of any depth.\<close>

theorem written_statement_is_read_back:
  assumes "stmt_ok stmt"
  shows "sql_parse sx (statement_text stmt) = Inr stmt"
  using assms by (rule written_statement_is_read)

definition sample_delete :: Statement where
  "sample_delete = DeleteStmt \<lparr>ref_database = ''shop'', ref_table = ''goods''\<rparr>
     (Some (LogicalExpr Or (CompareExpr Lt (ColumnRefExpr ''n'') (LiteralExpr (VInt (- 5))))
       (LikeExpr (ColumnRefExpr ''s'') (LiteralExpr (VStr [CHR ''a'', CHR 0x22, CHR 0x0A])))))"

lemma sample_delete_ok: "stmt_ok sample_delete"
  by code_simp

theorem written_statement_is_read_back_witness:
  "sql_parse (\<lambda>_. ''syntax error'') (statement_text sample_delete) = Inr sample_delete"
  using sample_delete_ok by (rule written_statement_is_read_back)

text \<open>C16: What the parser returns can be written: names are words and no keywords in mixed case, INDEXED
  columns are NOT NULL, defaults fit their columns, rows and lists are not empty, only COUNT takes
  a star, and the operands of conditions and assignments are columns or literals, never the
  literal NULL: \<open>= NULL\<close> compares with a column of that name.\<close>

theorem parsed_statement_is_well_formed:
  assumes "sql_parse sx sql = Inr stmt"
  shows "stmt_ok stmt"
  using assms by (rule parsed_statement_ok)

theorem parsed_statement_is_well_formed_witness:
  "sql_parse (\<lambda>_. ''syntax error'') (statement_text sample_delete) = Inr sample_delete \<and> stmt_ok sample_delete"
  using parsed_statement_is_well_formed [OF written_statement_is_read [OF sample_delete_ok]]
    written_statement_is_read [OF sample_delete_ok] by blast

section \<open>From the text to its effect\<close>

text \<open>C12: A script of written statements, without a log: the local program finds every statement in its
  text, runs them one after the other as the executor runs them, whether they succeed or fail, and
  prints their results in this order.\<close>

theorem script_runs_its_statements:
  assumes "list_all stmt_ok stmts" and "pe_parse env = sql_parse sx" and "\<not> log_is_open (pg_log p)"
    and "map_op (execute (pe_sql env)) stmts (pg_dbms p) = (Inr rs, d)"
  shows "\<exists>p'. session env quiet (script_text stmts) p = (Inr (), p') \<and> pg_dbms p' = d \<and>
    pg_printed p' = pg_printed p @ map (\<lambda>r. print_result r quiet) rs"
proof -
  from run_statements [OF assms(2,1,3,4), where i = 0 and quiet = quiet] obtain p' where
    "for_each (run_one env quiet) (enumerate 0 (statements (script_text stmts))) p = (Inr (), p')"
    "pg_dbms p' = d" "pg_printed p' = pg_printed p @ map (\<lambda>r. print_result r quiet) rs"
    unfolding statements_of_script [OF assms(1)] by blast
  then show ?thesis by (simp add: session_def on_log_def close_log_def op_simps)
qed

definition plain_env :: sql_env where
  "plain_env = \<lparr>sq_regex = (\<lambda>_ _. Inr False), sq_dump = (\<lambda>_. Inr ''[]''),
     sq_io = \<lparr>io_openable = (\<lambda>_. True), io_writable = (\<lambda>_. True), io_faults = (\<lambda>_. []),
       io_memory = \<lparr>env_budget = None, meminfo = None\<rparr>\<rparr>\<rparr>"

definition plain_program :: program where
  "plain_program = \<lparr>pg_dbms = new_dbms ''data'' [], pg_log = \<lparr>lg_out = None, lg_files = (\<lambda>_. []), lg_next = 0\<rparr>,
     pg_telemetry = new_telemetry, pg_rid = 0, pg_printed = []\<rparr>"

definition sample_script :: "Statement list" where
  "sample_script = [CreateDatabaseStmt ''shop'', UseStmt ''shop'', UseStmt ''x'', sample_delete]"

definition sample_results :: "ExecutionResult list" where
  "sample_results =
     [done_with ''Database created: shop'' 0, done_with ''Active database: shop'' 0,
      failed_with (''Unknown database '' @ quoted ''x''),
      failed_with (''Unknown table '' @ quoted ''goods'' @ '' in database '' @ quoted ''shop'')]"

lemma sample_run: "fst (map_op (execute plain_env) sample_script (pg_dbms plain_program)) = Inr sample_results"
  by code_simp

theorem script_runs_its_statements_witness:
  "\<exists>p'. session \<lparr>pe_sql = plain_env, pe_parse = sql_parse (\<lambda>_. []), pe_times = (\<lambda>_. \<lparr>rt_t0 = 0, rt_t1 = 0, rt_s0 = 0, rt_s1 = 0\<rparr>)\<rparr> True
      (script_text sample_script) plain_program = (Inr (), p') \<and>
    pg_printed p' = map (\<lambda>r. print_result r True) sample_results"
proof -
  have "list_all stmt_ok sample_script" by code_simp
  moreover have "\<not> log_is_open (pg_log plain_program)" by (simp add: plain_program_def log_is_open_def)
  moreover obtain d where "map_op (execute plain_env) sample_script (pg_dbms plain_program) = (Inr sample_results, d)"
    using sample_run by (metis prod.collapse)
  ultimately show ?thesis
    using script_runs_its_statements
      [of sample_script "\<lparr>pe_sql = plain_env, pe_parse = sql_parse (\<lambda>_. []), pe_times = (\<lambda>_. \<lparr>rt_t0 = 0, rt_t1 = 0, rt_s0 = 0, rt_s1 = 0\<rparr>)\<rparr>" "\<lambda>_. []"
        plain_program sample_results d True]
    by (auto simp: plain_program_def)
qed

section \<open>What the grammar makes of some texts\<close>

text \<open>NULL as an operand is the name of a column.\<close>

lemma null_operand_is_a_column:
  "sql_parse sx ''DELETE FROM t WHERE a = NULL ;'' =
     Inr (DeleteStmt \<lparr>ref_database = [], ref_table = ''t''\<rparr>
       (Some (CompareExpr Eq (ColumnRefExpr ''a'') (ColumnRefExpr ''NULL''))))"
proof -
  let ?ts = "[Keyword DELETE ''DELETE'', Keyword FROM ''FROM'', IDENT ''t'', Keyword WHERE ''WHERE'', IDENT ''a'', EQ,
    Keyword NULL_KW ''NULL'']"
  let ?text = "''DELETE FROM t WHERE a = NULL ;''"
  have ok: "list_all token_ok ?ts" by code_simp
  have written: "?text = token_text ?ts @ '';''" by (simp add: token_text_def)
  have c: "c_str ?text = ?text" by (simp add: c_str_def)
  have "sql_tokens (c_str ?text) = ?ts @ [SEMI, YYEOF]" unfolding c unfolding written by (rule sql_tokens_text [OF ok])
  moreover have "p_program (?ts @ [SEMI, YYEOF]) = (Some (DeleteStmt \<lparr>ref_database = [], ref_table = ''t''\<rparr>
      (Some (CompareExpr Eq (ColumnRefExpr ''a'') (ColumnRefExpr ''NULL'')))), None)"
    by code_simp
  ultimately show ?thesis unfolding sql_parse_iff p_program_tokens [symmetric] by (simp only:)
qed

text \<open>A number that does not fit becomes the nearest that does, without an error.\<close>

lemma literals_saturate: "strtoll ''9223372036854775808'' = strtoll ''9223372036854775807''"
  by (simp add: strtoll_def digits_val_def)

text \<open>A keyword in mixed case is refused, with its place.\<close>

lemma mixed_case_is_refused:
  assumes "word_shape w" and "keyword_kind (map tolower w) = Some k" and "\<not> one_case w"
  shows "sql_parse sx (w @ CHR '' '' # s) = Inl (''Lex error at 1:1: Mixed case in keyword '' @ quoted w)"
proof -
  let ?loc = "\<lparr>first_line = 1, first_column = 1, last_line = 1, last_column = Suc (length w)\<rparr>"
  let ?ctx = "new_context\<lparr>pc_error_msg := ''Mixed case in keyword '' @ quoted w, pc_lex_error := True, pc_line := 1, pc_column := 1\<rparr>"
  have "CHR 0x00 \<notin> set w" using lexeme_no_nul [of "Keyword k w"] lexeme_no_nul [of "IDENT w"] assms(1)
    by (cases w) (auto simp: word_shape_def list_all_iff is_id_cont_def is_id_start_def is_upper_def is_lower_def
      is_digit_def less_eq_char_def)
  then have c: "c_str (w @ CHR '' '' # s) = w @ CHR '' '' # c_str s"
    unfolding c_str_def by (subst takeWhile_append2) auto
  have "best_match sql_rules (w @ CHR '' '' # c_str s) = Some (length w, Word)" by (rule word_blank_match [OF assms(1)])
  moreover have "yy_user_action (length w) new_context = (?loc, new_context\<lparr>pc_line := 1, pc_column := Suc (length w)\<rparr>)"
    by (simp add: yy_user_action_def yyextra_col_line_def yyextra_col_col_def yyextra_col_advance_def new_context_def)
  moreover have "run_action Word w ?loc (new_context\<lparr>pc_line := 1, pc_column := Suc (length w)\<rparr>) = (Some LEX_ERROR, ?ctx)"
    using assms by (simp add: word_action_def lex_error_def one_case_def new_context_def)
  ultimately have "yylex (w @ CHR '' '' # c_str s) start_location new_context = (LEX_ERROR, CHR '' '' # c_str s, ?loc, ?ctx)"
    by (subst yylex_step) auto
  then have "scan (w @ CHR '' '' # c_str s) start_location new_context = [(LEX_ERROR, ?loc, ?ctx)]"
    by (simp add: scan.simps)
  moreover have "p_program [LEX_ERROR] = (None, Some (Syntax_error [LEX_ERROR]))" by code_simp
  ultimately have "yyparse sx (w @ CHR '' '' # c_str s) = (?ctx\<lparr>pc_result := None\<rparr>, 1)"
    by (simp add: yyparse_def tokens_read_def yyerror_def)
  moreover have "nat_str 1 = ''1''" by code_simp
  ultimately show ?thesis using c
    by (simp add: sql_parse_def parse_text_def parse_statement_def new_parser_def op_simps position_text_def)
qed

end
