(* ===== verification/Program_Results.thy ===== *)
theory Program_Results
  imports Sql_Results Parser_Results
begin

text \<open>
  What any sequence of statements leaves possible: a statement changes no database but its own, a
  database that was not dropped can be used, and every statement of a script is answered, whatever
  became of the ones before it.
\<close>

section \<open>The database a statement works on\<close>

definition named_database :: "dbms \<Rightarrow> TableRef \<Rightarrow> string" where
  "named_database d ref = (if ref_database ref \<noteq> [] then ref_database ref else dm_active d)"

fun target :: "dbms \<Rightarrow> Statement \<Rightarrow> string option" where
  "target d (CreateDatabaseStmt name) = Some name"
| "target d (DropDatabaseStmt name) = Some name"
| "target d (UseStmt name) = None"
| "target d (CreateTableStmt ref cols) = Some (named_database d ref)"
| "target d (DropTableStmt ref) = Some (named_database d ref)"
| "target d (InsertStmt ref cols rows) = Some (named_database d ref)"
| "target d (UpdateStmt ref assignments cond) = Some (named_database d ref)"
| "target d (DeleteStmt ref cond) = Some (named_database d ref)"
| "target d (SelectStmt ref items cond) = Some (named_database d ref)"

text \<open>A system in shape in which one database is \<open>x\<close>.\<close>

definition database_is :: "string \<Rightarrow> database option \<Rightarrow> dbms \<Rightarrow> bool" where
  "database_is n x d \<longleftrightarrow> dbms_inv d \<and> map_of (dm_databases d) n = x"

lemma on_database_elsewhere:
  assumes "\<And>n. keeps (\<lambda>db. db_name db = n) m" and "k \<noteq> n"
  shows "keeps (database_is n x) (on_database k m)"
proof -
  have "map_of (dm_databases (snd (on_database k m d))) n = map_of (dm_databases d) n" for d
    using assms(2) by (auto simp: on_database_def update_conv' split: option.splits prod.splits)
  then show ?thesis
    using keepsD [OF keeps_on_database [OF assms(1)]] by (simp add: keeps_def database_is_def)
qed

lemma on_database_reads:
  "on_database k (ret x) d = (case map_of (dm_databases d) k of None \<Rightarrow> Inl (unknown_database k) | Some db \<Rightarrow> Inr x, d)"
  "on_database k (gets f) d = (case map_of (dm_databases d) k of None \<Rightarrow> Inl (unknown_database k) | Some db \<Rightarrow> Inr (f db), d)"
  by (simp_all add: on_database_def ret_def gets_def update_triv split: option.split)

lemma resolve_is_named:
  "resolve_database ref d = (r, d') \<Longrightarrow> d' = d \<and> (\<forall>n. r = Inr n \<longrightarrow> n = named_database d ref)"
  by (auto simp: resolve_database_def active_or_throw_def require_database_def named_database_def op_simps
    on_database_reads(1) split: option.splits if_splits)

lemma after_resolving:
  assumes "keeps (database_is n x) (f (named_database d ref))" and "database_is n x d"
  shows "database_is n x (snd (bnd (resolve_database ref) f d))"
proof -
  obtain r d' where r: "resolve_database ref d = (r, d')" by (cases "resolve_database ref d")
  show ?thesis using resolve_is_named [OF r] r assms by (auto simp: bnd_def keeps_def split: sum.split)
qed

lemma save_database_elsewhere: "k \<noteq> n \<Longrightarrow> keeps (database_is n x) (save_database io k)"
  unfolding save_database_def by (intro keeps_rules on_database_elsewhere keeps_save_to)

lemma save_named_elsewhere:
  assumes "k \<noteq> n"
  shows "keeps (database_is n x) (save_named env k)"
  unfolding keeps_def
proof (intro allI impI)
  fix d assume d: "database_is n x d"
  show "database_is n x (snd (save_named env k d))"
  proof (cases "map_of (dm_databases d) k")
    case (Some db)
    then have "db_name db = k" using d by (simp add: database_is_def dbms_inv_def)
    with Some have "save_named env k d = andthen (save_database (sq_io env) k) (ret k) d"
      by (simp add: save_named_def bnd_def on_database_reads)
    with keepsD [OF keeps_andthen [OF save_database_elsewhere [OF assms] keeps_basic(1)] d] show ?thesis by metis
  qed (use d in \<open>simp add: save_named_def bnd_def on_database_reads\<close>)
qed

lemma at_table_elsewhere: "k \<noteq> n \<Longrightarrow> keeps (database_is n x) (at_table env k name m)"
  unfolding at_table_def by (intro on_database_elsewhere keeps_rules keeps_on_table)

lemma change_table_elsewhere:
  assumes "named_database d ref \<noteq> n" and "database_is n x d"
  shows "database_is n x (snd (change_table env ref m verb d))"
  unfolding change_table_def
  by (rule after_resolving [OF _ assms(2)],
    intro keeps_rules at_table_elsewhere save_named_elsewhere assms(1))

lemma create_elsewhere:
  assumes "k \<noteq> n"
  shows "keeps (database_is n x) (create_database io k)"
  unfolding keeps_def
proof (intro allI impI)
  fix d assume d: "database_is n x d"
  have "map_of (dm_databases (snd (create_database io k d))) n = map_of (dm_databases d) n"
    using assms by (auto simp: create_database_def op_simps on_database_def update_conv' map_add_def
      split: option.splits prod.splits)
  then show "database_is n x (snd (create_database io k d))"
    using d keepsD [OF keeps_create_database] by (simp add: database_is_def)
qed

lemma drop_elsewhere: "k \<noteq> n \<Longrightarrow> keeps (database_is n x) (drop_database k)"
  using keepsD [OF keeps_drop_database, of _ k]
  by (auto simp: keeps_def database_is_def drop_database_def op_simps delete_conv')

lemma use_elsewhere: "keeps (database_is n x) (use_database k)"
proof -
  have "dm_databases (snd (use_database k d)) = dm_databases d" for d
    by (simp add: use_database_def require_database_def andthen_def bnd_def on_database_reads modify_def split: option.split)
  then show ?thesis using keepsD [OF keeps_use_database] by (simp add: keeps_def database_is_def)
qed

lemma statement_elsewhere:
  assumes "target d stmt \<noteq> Some n" and "database_is n x d"
  shows "database_is n x (snd (exec_statement env stmt d))"
proof (cases stmt)
  case (CreateDatabaseStmt name)
  with assms show ?thesis
    by (simp add: exec_create_database_def)
      (rule keepsD, intro keeps_rules create_elsewhere save_database_elsewhere, simp_all)
next
  case (DropDatabaseStmt name)
  with assms show ?thesis
    by (simp add: exec_drop_database_def) (rule keepsD, intro keeps_rules drop_elsewhere, simp_all)
next
  case (UseStmt name)
  with assms show ?thesis by (simp add: exec_use_def) (rule keepsD, intro keeps_rules use_elsewhere)
next
  case (CreateTableStmt ref cols)
  with assms have ne: "named_database d ref \<noteq> n" by simp
  show ?thesis unfolding CreateTableStmt exec_statement.simps exec_create_table_def
    by (rule after_resolving [OF _ assms(2)],
      intro keeps_rules keeps_first_repeated on_database_elsewhere keeps_create_table save_named_elsewhere ne)
next
  case (DropTableStmt ref)
  with assms have ne: "named_database d ref \<noteq> n" by simp
  show ?thesis unfolding DropTableStmt exec_statement.simps exec_drop_table_def
    by (rule after_resolving [OF _ assms(2)],
      intro keeps_rules on_database_elsewhere keeps_drop_table save_named_elsewhere ne)
next
  case (SelectStmt ref items cond)
  with assms have ne: "named_database d ref \<noteq> n" by simp
  show ?thesis unfolding SelectStmt exec_statement.simps exec_select_def
    by (rule after_resolving [OF _ assms(2)], intro at_table_elsewhere ne)
qed (use assms change_table_elsewhere in \<open>simp_all add: exec_insert_def exec_update_def exec_delete_def\<close>)

text \<open>C14: A statement changes no database but the one it names, or the active one when it names none,
  whether it succeeds or fails half way.\<close>

theorem statement_stays_in_its_database:
  assumes "dbms_inv d" and "target d stmt \<noteq> Some n"
  shows "map_of (dm_databases (snd (execute env stmt d))) n = map_of (dm_databases d) n"
  using statement_elsewhere [OF assms(2), of "map_of (dm_databases d) n" env] assms(1)
  by (simp add: database_is_def execute_state)

definition two_databases :: dbms where
  "two_databases =
     snd (execute plain_env (CreateDatabaseStmt ''b'') (snd (execute plain_env (CreateDatabaseStmt ''a'') (new_dbms ''data'' []))))"

lemma two_databases_ok: "dbms_inv two_databases" "has_database two_databases ''a''" "has_database two_databases ''b''"
proof -
  show "dbms_inv two_databases"
    unfolding two_databases_def by (intro execute_keeps_inv) (simp add: dbms_inv_def new_dbms_def)
  show "has_database two_databases ''a''" "has_database two_databases ''b''" by code_simp+
qed

theorem statement_stays_in_its_database_witness:
  "map_of (dm_databases (snd (execute plain_env (DropDatabaseStmt ''b'') two_databases))) ''a'' =
     map_of (dm_databases two_databases) ''a''"
  by (rule statement_stays_in_its_database [OF two_databases_ok(1)]) simp

section \<open>Databases stay available\<close>

lemma on_database_lists: "keeps (\<lambda>d. has_database d n) (on_database k m)"
  by (auto simp: keeps_def on_database_def has_database_def update_conv' split: option.splits prod.splits)

lemma create_lists: "keeps (\<lambda>d. has_database d n) (create_database io k)"
  unfolding create_database_def
  by (intro keeps_rules on_database_lists) (simp add: has_database_def map_add_def split: option.split)

lemma drop_lists: "k \<noteq> n \<Longrightarrow> keeps (\<lambda>d. has_database d n) (drop_database k)"
  unfolding drop_database_def by (intro keeps_rules) (simp add: has_database_def delete_conv')

lemma use_lists: "keeps (\<lambda>d. has_database d n) (use_database k)"
  unfolding use_database_def require_database_def
  by (intro keeps_rules on_database_lists) (simp add: has_database_def)

lemma resolve_lists: "keeps (\<lambda>d. has_database d n) (resolve_database ref)"
  unfolding resolve_database_def active_or_throw_def require_database_def
  by (intro keeps_rules on_database_lists)

lemma save_lists:
  "keeps (\<lambda>d. has_database d n) (save_database io k)" "keeps (\<lambda>d. has_database d n) (save_named env k)"
  unfolding save_named_def save_database_def by (intro keeps_rules on_database_lists)+

lemma statement_lists:
  assumes "stmt \<noteq> DropDatabaseStmt n"
  shows "keeps (\<lambda>d. has_database d n) (exec_statement env stmt)"
proof (cases stmt)
  case (CreateTableStmt ref cols)
  then show ?thesis
    by (simp add: exec_create_table_def)
      (intro keeps_rules resolve_lists keeps_first_repeated on_database_lists save_lists)
qed (use assms in \<open>simp_all add: exec_create_database_def exec_drop_database_def exec_use_def exec_insert_def
      exec_update_def exec_delete_def exec_select_def exec_drop_table_def change_table_def at_table_def keeps_rules
      create_lists drop_lists use_lists save_lists resolve_lists on_database_lists\<close>)

text \<open>What is left after statements, whatever they answer.\<close>

definition after_statements :: "sql_env \<Rightarrow> Statement list \<Rightarrow> dbms \<Rightarrow> dbms" where
  "after_statements env stmts d = fold (\<lambda>stmt d. snd (execute env stmt d)) stmts d"

lemma after_statements_lists:
  "DropDatabaseStmt n \<notin> set stmts \<Longrightarrow> has_database d n \<Longrightarrow> has_database (after_statements env stmts d) n"
proof (induction stmts arbitrary: d)
  case (Cons stmt stmts)
  then have "has_database (snd (execute env stmt d)) n"
    using keepsD [OF statement_lists, of stmt n d env] by (auto simp: execute_state)
  with Cons show ?case by (simp add: after_statements_def)
qed (simp add: after_statements_def)

text \<open>C15: No sequence of statements makes a database unavailable, however many of them fail: as long as
  none drops it, USE succeeds, and from then on it is the active one.\<close>

theorem database_stays_available:
  assumes "has_database d n" and "DropDatabaseStmt n \<notin> set stmts"
  shows "\<exists>d'. execute env (UseStmt n) (after_statements env stmts d) =
             (Inr (done_with (''Active database: '' @ n) 0), d') \<and>
           dm_active d' = n \<and> dm_databases d' = dm_databases (after_statements env stmts d)"
proof -
  obtain db where "map_of (dm_databases (after_statements env stmts d)) n = Some db"
    using after_statements_lists [OF assms(2,1)] by (auto simp: has_database_def)
  then show ?thesis
    by (simp add: execute_def exec_use_def use_database_def require_database_def op_simps
      on_database_reads(1) [unfolded ret_def, simplified] on_database_def update_triv)
qed

theorem database_stays_available_witness:
  "\<exists>d. execute plain_env (UseStmt ''a'')
      (after_statements plain_env [UseStmt ''x'', DropDatabaseStmt ''b'', sample_delete] two_databases) =
      (Inr (done_with ''Active database: a'' 0), d) \<and> dm_active d = ''a''"
  using database_stays_available [OF two_databases_ok(2), of "[UseStmt ''x'', DropDatabaseStmt ''b'', sample_delete]" plain_env]
  by (auto simp: sample_delete_def)

section \<open>Every statement is answered\<close>

lemma run_query_fails: "fst (run_query env parse sql d) = Inl e \<Longrightarrow> e = Undefined_behaviour \<or> e = Nontermination"
proof (cases "parser_eof sql")
  case False
  assume e: "fst (run_query env parse sql d) = Inl e"
  then obtain stmt where "parse sql = Inr stmt" using False by (cases "parse sql") (simp_all add: run_query_def op_simps)
  with e False have "fst (execute env stmt d) = Inl e" by (simp add: run_query_def)
  then show ?thesis using execute_reports_errors [of env stmt d] by auto
qed (simp add: run_query_def op_simps)

text \<open>The line of the log for a statement, or what \<open>dump\<close> throws when the statement or the error it
  reports is not UTF-8.\<close>

definition log_line :: "program_env \<Rightarrow> 64 word \<Rightarrow> nat \<Rightarrow> string \<Rightarrow> ExecutionResult \<Rightarrow> error + string" where
  "log_line env req i sql r =
     sq_dump (pe_sql env) (log_entry req ''local'' ''main'' sql (pe_times env i)
       (if res_ok r then 200 else 400) (if res_ok r then ''OK'' else res_error r))"

text \<open>Why the statement is not answered, with which error and on which system: it has undefined behaviour
  or does not end, or it was run and its line cannot be written to the open log.\<close>

definition unanswered :: "program_env \<Rightarrow> bool \<Rightarrow> 64 word \<Rightarrow> nat \<Rightarrow> string \<Rightarrow> dbms \<Rightarrow> error \<Rightarrow> dbms \<Rightarrow> bool" where
  "unanswered env logging req i sql d e d' \<longleftrightarrow>
     (case run_query (pe_sql env) (pe_parse env) sql d of
        (Inl f, d1) \<Rightarrow> d' = d1 \<and> f = e \<and> e \<in> {Undefined_behaviour, Nontermination}
      | (Inr r, d1) \<Rightarrow> d' = d1 \<and> logging \<and> log_line env req i sql r = Inl e)"

text \<open>One turn of the loop: the statement is run, and its result printed unless the log fails.\<close>

lemma run_one_turn:
  assumes "\<not> blank sql" and q: "run_query (pe_sql env) (pe_parse env) sql (pg_dbms p) = (q, d)"
  obtains (answered) r p' where "q = Inr r" "run_one env quiet (i, sql) p = (Inr (), p')" "pg_dbms p' = d"
    "pg_printed p' = pg_printed p @ [print_result r quiet]" "log_is_open (pg_log p') = log_is_open (pg_log p)"
    "pg_rid p' = pg_rid p + (if log_is_open (pg_log p) then 1 else 0)"
  | (ended) e p' where "run_one env quiet (i, sql) p = (Inl e, p')" "pg_printed p' = pg_printed p"
    "unanswered env (log_is_open (pg_log p)) (pg_rid p + 1) i sql (pg_dbms p) e (pg_dbms p')"
proof -
  note run = run_one_def on_dbms_def on_log_def on_telemetry_def emit_def observe_def op_simps
  show thesis
  proof (cases q)
    case (Inl e)
    then have "fst (run_query (pe_sql env) (pe_parse env) sql (pg_dbms p)) = Inl e" using q by simp
    then have "e = Undefined_behaviour \<or> e = Nontermination" by (rule run_query_fails)
    then show thesis using assms Inl
      by (intro ended [of e "p\<lparr>pg_dbms := d\<rparr>"]) (auto simp: run unanswered_def)
  next
    case (Inr r)
    show thesis
    proof (cases "log_is_open (pg_log p)")
      case False
      then show thesis using assms Inr by (intro answered [OF Inr, of "snd (run_one env quiet (i, sql) p)"]) (simp_all add: run)
    next
      case True
      then obtain path where path: "lg_out (pg_log p) = Some path" by (auto simp: log_is_open_def)
      show thesis
      proof (cases "log_line env (pg_rid p + 1) i sql r")
        case (Inl e)
        then show thesis using assms Inr True path
          by (intro ended [of e "p\<lparr>pg_dbms := d, pg_rid := pg_rid p + 1\<rparr>"])
            (simp_all add: run unanswered_def log_request_def log_line_def)
      next
        case (Inr line)
        then show thesis using assms \<open>q = Inr r\<close> True path
          by (intro answered [OF \<open>q = Inr r\<close>, of "snd (run_one env quiet (i, sql) p)"]) (simp_all add: run log_request_def log_line_def log_is_open_def)
      qed
    qed
  qed
qed

lemma unanswered_closed: "unanswered env False req i = unanswered env False req' j"
  by (simp add: unanswered_def fun_eq_iff split: prod.split sum.split)

lemma loop_answers:
  "\<forall>sql \<in> set sqls. \<not> blank sql \<Longrightarrow>
    \<exists>k rs d p'. map_op (run_query (pe_sql env) (pe_parse env)) (take k sqls) (pg_dbms p) = (Inr rs, d) \<and> length rs = k \<and>
      pg_printed p' = pg_printed p @ map (\<lambda>r. print_result r quiet) rs \<and>
      (k = length sqls \<and> for_each (run_one env quiet) (enumerate i sqls) p = (Inr (), p') \<and> pg_dbms p' = d \<or>
       k < length sqls \<and> (\<exists>e. for_each (run_one env quiet) (enumerate i sqls) p = (Inl e, p') \<and>
         unanswered env (log_is_open (pg_log p)) (pg_rid p + of_nat (Suc k)) (i + k) (sqls ! k) d e (pg_dbms p')))"
proof (induction sqls arbitrary: i p)
  case (Cons sql sqls)
  obtain q d where q: "run_query (pe_sql env) (pe_parse env) sql (pg_dbms p) = (q, d)"
    by (cases "run_query (pe_sql env) (pe_parse env) sql (pg_dbms p)")
  have "\<not> blank sql" using Cons.prems by simp
  then show ?case
  proof (cases rule: run_one_turn [OF _ q, of quiet i, case_names blank answered ended])
    case (answered r p1)
    have "\<forall>sql \<in> set sqls. \<not> blank sql" using Cons.prems by simp
    then obtain k rs d' p' where k: "map_op (run_query (pe_sql env) (pe_parse env)) (take k sqls) (pg_dbms p1) = (Inr rs, d')"
      "length rs = k" "pg_printed p' = pg_printed p1 @ map (\<lambda>r. print_result r quiet) rs"
      "k = length sqls \<and> for_each (run_one env quiet) (enumerate (Suc i) sqls) p1 = (Inr (), p') \<and> pg_dbms p' = d' \<or>
       k < length sqls \<and> (\<exists>e. for_each (run_one env quiet) (enumerate (Suc i) sqls) p1 = (Inl e, p') \<and>
         unanswered env (log_is_open (pg_log p1)) (pg_rid p1 + of_nat (Suc k)) (Suc i + k) (sqls ! k) d' e (pg_dbms p'))"
      using Cons.IH [of p1 "Suc i"] by blast
    have "unanswered env (log_is_open (pg_log p1)) (pg_rid p1 + of_nat (Suc k)) (Suc i + k) =
        unanswered env (log_is_open (pg_log p)) (pg_rid p + of_nat (Suc (Suc k))) (i + Suc k)"
    proof (cases "log_is_open (pg_log p)")
      case False
      then show ?thesis unfolding answered(5) by simp (rule unanswered_closed)
    qed (simp add: answered(5,6) add_ac)
    with k answered q show ?thesis
      by (intro exI [of _ "Suc k"] exI [of _ "r # rs"] exI [of _ d'] exI [of _ p']) (auto simp: op_simps)
  next
    case (ended e p1)
    then show ?thesis
      by (intro exI [of _ 0] exI [of _ "[]"] exI [of _ "pg_dbms p"] exI [of _ p1]) (simp add: op_simps)
  qed
qed (simp add: op_simps)

lemma statements_not_blank: "sql \<in> set (statements input) \<Longrightarrow> \<not> blank sql"
proof (induction input rule: statements.induct)
  case (1 input)
  have "\<not> blank s" if n: "next_statement input = (Some s, rest)" for s rest
  proof -
    obtain found where l: "next_loop Code [] input = (found, s, rest)" "found \<or> \<not> blank s"
      using n by (auto simp: next_statement_def split: prod.splits if_splits)
    have "\<not> is_space CHR '';''" by (simp add: is_space_def)
    then show ?thesis using l next_loop_found [of Code "[]" input s rest] by (cases found) (auto simp: blank_def)
  qed
  note first = this
  obtain found rest where n: "next_statement input = (found, rest)" by (cases "next_statement input")
  show ?case
  proof (cases found)
    case None
    then have "statements input = []" by (subst statements.simps) (simp add: n)
    then show ?thesis using "1.prems" by simp
  next
    case (Some s)
    then have "statements input = s # statements rest" by (subst statements.simps) (simp add: n)
    then show ?thesis using first [of s rest] "1.IH" [OF n [symmetric] Some] "1.prems" n Some by auto
  qed
qed

text \<open>C13: The local program answers every statement of its input: it prints one result for each, in
  their order, those of \<open>run_query\<close> on what the ones before left, and ends, whether they succeed or
  fail. What can keep it from that is said exactly: a statement that has undefined behaviour or
  does not end; or, when the access log is open, a statement whose line the JSON library refuses
  to write, since the statement or the error it reports is not UTF-8. Such a line ends the program
  with the exception of the library after the statement was run and before its result is printed;
  the statements after it are not run.\<close>

theorem every_statement_is_answered:
  "\<exists>k rs d p'. map_op (run_query (pe_sql env) (pe_parse env)) (take k (statements input)) (pg_dbms p) = (Inr rs, d) \<and>
     length rs = k \<and> pg_printed p' = pg_printed p @ map (\<lambda>r. print_result r quiet) rs \<and>
     (k = length (statements input) \<and> session env quiet input p = (Inr (), p') \<and> pg_dbms p' = d \<or>
      k < length (statements input) \<and> (\<exists>e. session env quiet input p = (Inl e, p') \<and>
        unanswered env (log_is_open (pg_log p)) (pg_rid p + of_nat (Suc k)) k (statements input ! k) d e (pg_dbms p')))"
proof -
  let ?sqls = "statements input"
  have "\<forall>sql \<in> set ?sqls. \<not> blank sql" using statements_not_blank by blast
  from loop_answers [OF this, of env p quiet 0] obtain k rs d p1 where
    k: "map_op (run_query (pe_sql env) (pe_parse env)) (take k ?sqls) (pg_dbms p) = (Inr rs, d)" "length rs = k"
      "pg_printed p1 = pg_printed p @ map (\<lambda>r. print_result r quiet) rs"
    and end_of_loop: "k = length ?sqls \<and> for_each (run_one env quiet) (enumerate 0 ?sqls) p = (Inr (), p1) \<and> pg_dbms p1 = d \<or>
      k < length ?sqls \<and> (\<exists>e. for_each (run_one env quiet) (enumerate 0 ?sqls) p = (Inl e, p1) \<and>
        unanswered env (log_is_open (pg_log p)) (pg_rid p + of_nat (Suc k)) (0 + k) (?sqls ! k) d e (pg_dbms p1))"
    by blast
  from end_of_loop show ?thesis
  proof
    assume all: "k = length ?sqls \<and> for_each (run_one env quiet) (enumerate 0 ?sqls) p = (Inr (), p1) \<and> pg_dbms p1 = d"
    let ?p = "p1\<lparr>pg_log := (pg_log p1)\<lparr>lg_out := None\<rparr>\<rparr>"
    have "session env quiet input p = (Inr (), ?p)"
      using all by (simp add: session_def on_log_def close_log_def op_simps)
    then show ?thesis using k all
      by (intro exI [of _ k] exI [of _ rs] exI [of _ d] exI [of _ ?p]) simp
  next
    assume "k < length ?sqls \<and> (\<exists>e. for_each (run_one env quiet) (enumerate 0 ?sqls) p = (Inl e, p1) \<and>
        unanswered env (log_is_open (pg_log p)) (pg_rid p + of_nat (Suc k)) (0 + k) (?sqls ! k) d e (pg_dbms p1))"
    then show ?thesis using k
      by (intro exI [of _ k] exI [of _ rs] exI [of _ d] exI [of _ p1]) (auto simp: session_def op_simps)
  qed
qed

text \<open>The sample script again, now with an access log.\<close>

definition logging_program :: program where
  "logging_program = plain_program\<lparr>pg_log := \<lparr>lg_out = Some ''access.log'', lg_files = (\<lambda>_. []), lg_next = 0\<rparr>\<rparr>"

definition logging_env :: program_env where
  "logging_env = \<lparr>pe_sql = plain_env, pe_parse = sql_parse (\<lambda>_. ''syntax error''),
     pe_times = (\<lambda>_. \<lparr>rt_t0 = 0, rt_t1 = 0, rt_s0 = 0, rt_s1 = 0\<rparr>)\<rparr>"

lemma map_op_map: "(\<And>x. x \<in> set xs \<Longrightarrow> f (g x) = h x) \<Longrightarrow> map_op f (map g xs) = map_op h xs"
  by (induction xs) simp_all

lemma logged_run:
  "\<exists>d. map_op (run_query (pe_sql logging_env) (pe_parse logging_env)) (statements (script_text sample_script))
     (pg_dbms logging_program) = (Inr sample_results, d)"
proof -
  have ok: "list_all stmt_ok sample_script" by code_simp
  have "map_op (run_query plain_env (sql_parse (\<lambda>_. ''syntax error''))) (map statement_text sample_script) =
      map_op (execute plain_env) sample_script"
    by (rule map_op_map) (use ok in \<open>simp add: list_all_iff query_of_statement\<close>)
  moreover have "pg_dbms logging_program = pg_dbms plain_program" by (simp add: logging_program_def)
  ultimately show ?thesis
    unfolding statements_of_script [OF ok] using sample_run by (simp add: logging_env_def) (metis prod.collapse)
qed

lemma map_op_at:
  "map_op f xs s = (Inr ys, s') \<Longrightarrow> k < length xs \<Longrightarrow> map_op f (take k xs) s = (Inr zs, s1) \<Longrightarrow> \<exists>y s2. f (xs ! k) s1 = (Inr y, s2)"
proof (induction xs arbitrary: s ys k zs)
  case (Cons x xs)
  then show ?case by (cases k) (fastforce simp: op_simps split: prod.splits sum.splits)+
qed simp

theorem every_statement_is_answered_witness:
  "\<exists>p'. session logging_env True (script_text sample_script) logging_program = (Inr (), p') \<and>
     pg_printed p' = map (\<lambda>r. print_result r True) sample_results"
proof -
  let ?sqls = "statements (script_text sample_script)"
  obtain d where d: "map_op (run_query (pe_sql logging_env) (pe_parse logging_env)) ?sqls (pg_dbms logging_program) =
      (Inr sample_results, d)"
    using logged_run by blast
  have line: "\<exists>s. log_line logging_env req i sql r = Inr s" for req i sql r
    by (simp add: log_line_def logging_env_def plain_env_def)
  have answers: "\<not> unanswered logging_env b req i (?sqls ! k) d1 e d2"
    if k: "k < length ?sqls" "map_op (run_query (pe_sql logging_env) (pe_parse logging_env)) (take k ?sqls) (pg_dbms logging_program) = (Inr rs, d1)"
    for b req i k rs d1 e d2
  proof -
    obtain r d' where "run_query (pe_sql logging_env) (pe_parse logging_env) (?sqls ! k) d1 = (Inr r, d')"
      using map_op_at [OF d k] by blast
    moreover obtain l where "log_line logging_env req i (?sqls ! k) r = Inr l" using line by blast
    ultimately show ?thesis by (simp add: unanswered_def)
  qed
  obtain k rs d1 p' where
    k: "map_op (run_query (pe_sql logging_env) (pe_parse logging_env)) (take k ?sqls) (pg_dbms logging_program) = (Inr rs, d1)"
      "pg_printed p' = pg_printed logging_program @ map (\<lambda>r. print_result r True) rs"
    and "k = length ?sqls \<and> session logging_env True (script_text sample_script) logging_program = (Inr (), p') \<or>
      k < length ?sqls \<and> (\<exists>b req e d2. unanswered logging_env b req k (?sqls ! k) d1 e d2)"
    using every_statement_is_answered [of logging_env "script_text sample_script" logging_program True] by blast
  then have "k = length ?sqls" "session logging_env True (script_text sample_script) logging_program = (Inr (), p')"
    using answers by blast+
  then show ?thesis using k d by (simp add: logging_program_def plain_program_def)
qed

end
