(* ===== verification/TableRebuild.thy ===== *)
theory TableRebuild
  imports Table_Results Bulk_Results "HOL-Library.Multiset"
begin

text \<open>
  Table files of versions 1 and 2 have no index files beside them: \<open>load\<close> sorts the keys of every
  indexed column and builds its index in bulk. Version 2 lists the record rids of each index,
  version 1 goes by the order of the rows.
\<close>

section \<open>Sorting\<close>

lemma mset_insert_less [simp]: "mset (insert_less x ys) = add_mset x (mset ys)"
  by (induction ys) auto

lemma mset_sort_less [simp]: "mset (sort_less xs) = mset xs"
  by (induction xs) (simp_all add: sort_less_def)

lemma set_sort_less [simp]: "set (sort_less xs) = set xs" "length (sort_less xs) = length xs"
  by (metis mset_sort_less set_mset_mset, metis mset_sort_less size_mset)

lemma insert_less_sorted:
  assumes "sorted_wrt (<) (map fst ys)" and "\<forall>y \<in> set (x # ys). typed ty (fst y)" and "fst x \<notin> fst ` set ys"
  shows "sorted_wrt (<) (map fst (insert_less x ys))"
  using assms
proof (induction ys)
  case (Cons y ys)
  have less: "ValueLess (fst y) (fst x) \<longleftrightarrow> fst y < fst x" using ValueLess_typed [of ty] Cons.prems(2) by simp
  have set: "set (insert_less x ys) = insert x (set ys)" using mset_insert_less by (metis list.set_map set_mset_add_mset_insert set_mset_mset)
  show ?case
  proof (cases "fst y < fst x")
    case True
    with Cons less set show ?thesis by auto
  next
    case False
    then have "fst x < fst y" using Cons.prems(3) by (metis image_insert insertI1 list.simps(15) linorder_neqE)
    with Cons.prems(1) False less show ?thesis by (auto intro: less_trans)
  qed
qed simp

lemma sort_less_sorted:
  assumes "\<forall>x \<in> set xs. typed ty (fst x)" and "distinct (map fst xs)"
  shows "sorted_wrt (<) (map fst (sort_less xs))"
  using assms
proof (induction xs)
  case (Cons x xs)
  then have "sorted_wrt (<) (map fst (sort_less xs))" by simp
  then have "sorted_wrt (<) (map fst (insert_less x (sort_less xs)))"
    by (rule insert_less_sorted [where ty = ty]) (use Cons.prems in auto)
  then show ?case by (simp add: sort_less_def)
qed (simp add: sort_less_def)

text \<open>The order the entries come in does not matter.\<close>

lemma sort_less_unique:
  assumes "\<forall>x \<in> set xs. typed ty (fst x)" and "distinct (map fst xs)" and "mset ys = mset xs"
  shows "sort_less ys = sort_less xs"
proof -
  have "set ys = set xs" "mset (map fst ys) = mset (map fst xs)" using assms(3) by (metis set_mset_mset, simp)
  then have "\<forall>x \<in> set ys. typed ty (fst x)" "distinct (map fst ys)"
    using assms(1,2) by (simp, metis distinct_count_atmost_1 mset_eq_setD)
  then have s: "sorted_wrt (<) (map fst (sort_less ys))" "sorted_wrt (<) (map fst (sort_less xs))"
    using assms(1,2) sort_less_sorted by blast+
  have "map fst (sort_less ys) = map fst (sort_less xs)"
    by (rule sorted_distinct_set_unique)
      (use s \<open>set ys = set xs\<close> in \<open>simp_all add: strict_sorted_iff\<close>)
  moreover have "distinct (map fst (sort_less xs))" using s(2) by (simp add: strict_sorted_iff)
  moreover have "set (sort_less ys) = set (sort_less xs)" using \<open>set ys = set xs\<close> by simp
  ultimately show ?thesis
    by (metis inj_on_map_eq_map distinct_map sup.idem)
qed

section \<open>One column\<close>

definition column_entries :: "table \<Rightarrow> nat list \<Rightarrow> nat \<Rightarrow> (Value \<times> nat) list" where
  "column_entries t rids c = map (\<lambda>i. (the (tb_records t i) ! c, i)) rids"

definition unique_column :: "table \<Rightarrow> nat \<Rightarrow> bool" where
  "unique_column t c \<longleftrightarrow> (\<forall>i j r q. tb_records t i = Some r \<longrightarrow> tb_records t j = Some q \<longrightarrow> r ! c = q ! c \<longrightarrow> i = j)"

text \<open>The memory allows a bulk build, and the index is not too large for one.\<close>

definition bulk_fits :: "memory_env \<Rightarrow> (Value \<times> nat) list \<Rightarrow> bool" where
  "bulk_fits mem kvs \<longleftrightarrow>
     validate_bulk_build_input mem kvs = Inr () \<and> 3 * length kvs + 2 < 2 ^ 32 \<and> counts_fit kvs"

text \<open>What an old file is the file of: rows in order, with unique keys that bulk builds take.\<close>

definition rebuildable :: "memory_env \<Rightarrow> table \<Rightarrow> bool" where
  "rebuildable mem t \<longleftrightarrow> rows_ok t \<and> tb_next t < 2 ^ 64 \<and>
     (\<forall>c \<in> set (indexed_columns t). unique_column t c \<and> bulk_fits mem (sort_less (column_entries t (tb_order t) c)))"

lemma column_entries_ok:
  assumes t: "rebuildable mem t" and c: "c \<in> set (indexed_columns t)" and rids: "mset rids = mset (tb_order t)"
  shows "\<forall>(k, i) \<in> set (column_entries t rids c). typed (column_type t c) k \<and> i < 2 ^ 64"
    and "distinct (map fst (column_entries t rids c))"
    and "set (column_entries t rids c) = column_pairs t c"
proof -
  have rows: "distinct (tb_order t)" "set (tb_order t) = dom (tb_records t)" "tb_next t < 2 ^ 64"
    "\<And>i r. tb_records t i = Some r \<Longrightarrow> i < tb_next t \<and> typed (column_type t c) (r ! c)"
    and unique: "unique_column t c"
    using t c indexed_typed(1) by (auto simp: rebuildable_def rows_ok_def)
  have I: "set rids = dom (tb_records t)" "distinct rids"
    using rids rows(1,2) by (metis mset_eq_setD, metis mset_eq_imp_distinct_iff)
  show "\<forall>(k, i) \<in> set (column_entries t rids c). typed (column_type t c) k \<and> i < 2 ^ 64"
    using rows(3,4) I(1) by (fastforce simp: column_entries_def)
  show "set (column_entries t rids c) = column_pairs t c"
    using I(1) by (force simp: column_entries_def column_pairs_def image_iff)
  have "inj_on (\<lambda>i. the (tb_records t i) ! c) (set rids)"
    using unique I(1) by (fastforce simp: inj_on_def unique_column_def)
  then show "distinct (map fst (column_entries t rids c))"
    using I(2) by (simp add: column_entries_def comp_def distinct_map)
qed

lemma bulk_index_ok:
  assumes env: "fresh_env env" and es: "bulk_fits (ie_memory env) (sort_less es)"
    and ty: "\<forall>(k, i) \<in> set es. typed ty k \<and> i < 2 ^ 64" and distinct: "distinct (map fst es)"
  shows "\<exists>ix. bulk_index env c es t = (Inr (), t\<lparr>tb_indexes := tb_indexes t @ [(c, ix)]\<rparr>) \<and>
           index_holds ty ix (sort_less es)"
proof -
  have "sorted_wrt (<) (map fst (sort_less es))"
    using ty distinct by (intro sort_less_sorted [where ty = ty]) auto
  then obtain ix u where ix: "bulk_build (ie_memory env) (index_file t c) None True (sort_less es) (new_index []) = (Inr (), ix)"
    "index_inv ty ix u" "contents u = sort_less es"
    using bulk_build_ok [of "ie_memory env" "sort_less es" ty "index_file t c" None] es ty by (auto simp: bulk_fits_def)
  then have "index_holds ty ix (sort_less es)" by (auto simp: index_holds_def)
  then show ?thesis using env ix(1) by (intro exI [of _ ix]) (simp add: bulk_index_def fresh_env_def)
qed

section \<open>All columns\<close>

text \<open>A loop that gives each of its columns an index.\<close>

definition gives_index :: "(nat \<Rightarrow> disk_index \<Rightarrow> bool) \<Rightarrow> nat \<Rightarrow> table \<Rightarrow> table \<Rightarrow> bool" where
  "gives_index P c t t' \<longleftrightarrow> same_rows t t' \<and>
     (\<exists>ix. map_of (tb_indexes t') = (map_of (tb_indexes t))(c \<mapsto> ix) \<and> P c ix)"

lemma build_each:
  assumes "distinct (map k xs)"
    and "\<And>u x. same_rows t u \<Longrightarrow> x \<in> set xs \<Longrightarrow> map_of (tb_indexes u) (k x) = map_of (tb_indexes t) (k x) \<Longrightarrow>
      \<exists>u'. f x u = (Inr (), u') \<and> gives_index P (k x) u u'"
  shows "\<exists>t'. for_each f xs t = (Inr (), t') \<and> same_rows t t' \<and>
      (\<forall>c \<in> k ` set xs. \<exists>ix. map_of (tb_indexes t') c = Some ix \<and> P c ix) \<and>
      (\<forall>c. c \<notin> k ` set xs \<longrightarrow> map_of (tb_indexes t') c = map_of (tb_indexes t) c)"
  using assms
proof (induction xs arbitrary: t)
  case (Cons x xs)
  obtain t1 where t1: "f x t = (Inr (), t1)" "gives_index P (k x) t t1" using Cons.prems(2) [of t x] by auto
  obtain ix where ix: "map_of (tb_indexes t1) = (map_of (tb_indexes t))(k x \<mapsto> ix)" "P (k x) ix" and rows: "same_rows t t1"
    using t1(2) by (auto simp: gives_index_def)
  have ne: "k y \<noteq> k x" if "y \<in> set xs" for y using that Cons.prems(1) by (auto simp: image_iff)
  have "\<exists>t'. for_each f xs t1 = (Inr (), t') \<and> same_rows t1 t' \<and>
      (\<forall>c \<in> k ` set xs. \<exists>ix. map_of (tb_indexes t') c = Some ix \<and> P c ix) \<and>
      (\<forall>c. c \<notin> k ` set xs \<longrightarrow> map_of (tb_indexes t') c = map_of (tb_indexes t1) c)"
  proof (rule Cons.IH)
    show "distinct (map k xs)" using Cons.prems(1) by simp
    fix u y assume u: "same_rows t1 u" "y \<in> set xs" "map_of (tb_indexes u) (k y) = map_of (tb_indexes t1) (k y)"
    then show "\<exists>u'. f y u = (Inr (), u') \<and> gives_index P (k y) u u'"
      using Cons.prems(2) [OF same_rows_trans [OF rows u(1)], of y] ix(1) ne [of y] by simp
  qed
  then obtain t' where t': "for_each f xs t1 = (Inr (), t')" "same_rows t1 t'"
    "\<forall>c \<in> k ` set xs. \<exists>ix. map_of (tb_indexes t') c = Some ix \<and> P c ix"
    "\<forall>c. c \<notin> k ` set xs \<longrightarrow> map_of (tb_indexes t') c = map_of (tb_indexes t1) c"
    by blast
  have "k x \<notin> k ` set xs" using ne by force
  then have "map_of (tb_indexes t') (k x) = Some ix" using t'(4) ix(1) by simp
  then show ?case
    using t' ix t1(1) same_rows_trans [OF rows t'(2)]
    by (intro exI [of _ t']) (auto simp: andthen_def bnd_def)
qed (simp add: ret_def)

text \<open>The indexes of the columns are in step when each was built from the rows.\<close>

lemma built_table_inv:
  assumes t: "rebuildable mem t" and path: "path \<noteq> []"
    and u: "same_rows ((saved_table t)\<lparr>tb_path := path\<rparr>) u"
    and dom: "dom (map_of (tb_indexes u)) = set (indexed_columns t)"
    and hold: "\<forall>c \<in> set (indexed_columns t). \<exists>ix. map_of (tb_indexes u) c = Some ix \<and>
      index_holds (column_type t c) ix (sort_less (column_entries t (tb_order t) c))"
  shows "table_inv u"
proof -
  note R = same_rowsD [OF u]
  let ?f = "\<lambda>c. sort_less (column_entries t (tb_order t) c)"
  have ic: "indexed_columns u = indexed_columns t"
    using R(7) saved_table_columns(1) [of t] by (simp add: indexed_columns_def)
  have ct: "column_type u c = column_type t c" if "c \<in> set (indexed_columns t)" for c
    using saved_table_columns(2) [OF indexed_columns_bound [OF that]] by (simp add: column_type_def R)
  have "indexes_hold u ?f"
    using dom hold path ct by (auto simp: indexes_hold_def own_indexes_def ic R dom_map_of_conv_image_fst)
  moreover have "set (?f c) = column_pairs u c" if "c \<in> set (indexed_columns t)" for c
    using column_entries_ok(3) [OF t that, of "tb_order t"] by (simp add: column_pairs_def R saved_table_def)
  moreover have "rows_ok u" "tb_next u < 2 ^ 64"
    using t by (simp_all add: rebuildable_def rows_ok_def R saved_table_def check_types_saved)
  ultimately show ?thesis by (auto simp: table_inv_def ic)
qed

section \<open>Version 1\<close>

abbreviation old_table :: "table \<Rightarrow> string \<Rightarrow> table" where
  "old_table t path \<equiv> (saved_table t)\<lparr>tb_path := path\<rparr>"

lemma old_tableD:
  assumes "same_rows (old_table t path) u"
  shows "tb_records u = tb_records t" "tb_order u = tb_order t" "tb_path u = path" "indexed_columns u = indexed_columns t"
    "tb_schema u = map saved_column (tb_schema t)"
  using same_rowsD [OF assms] saved_table_columns(1) [of t]
  by (simp_all add: saved_table_def indexed_columns_def)

lemma bind_old:
  assumes "fresh_env env" and "path \<noteq> []"
  shows "\<exists>u. bind_dat_path env path (saved_table t) = (Inr (), u) \<and> same_rows (old_table t path) u \<and>
           dom (map_of (tb_indexes u)) = set (indexed_columns t)"
proof -
  let ?t0 = "old_table t path"
  have ic: "indexed_columns ?t0 = indexed_columns t" by (rule old_tableD(4) [OF same_rows_refl])
  have "\<exists>ix. open_index_of env c u = (Inr (), u\<lparr>tb_indexes := tb_indexes u @ [(c, ix)]\<rparr>) \<and> True" for c u
    using open_fresh_index [OF assms(1)] by blast
  moreover have "map_of (tb_indexes ?t0) c = None" for c by (simp add: saved_table_def)
  ultimately obtain u where u: "for_each (\<lambda>c t. if map_of (tb_indexes t) c \<noteq> None then (Inr (), t) else open_index_of env c t)
      (indexed_columns ?t0) ?t0 = (Inr (), u)" "same_rows ?t0 u"
    "fst ` set (tb_indexes u) = fst ` set (tb_indexes ?t0) \<union> set (indexed_columns ?t0)"
    using open_each [of ?t0 "indexed_columns ?t0" env "\<lambda>_ _. True" "{}"] by blast
  have "dom (map_of (tb_indexes u)) = set (indexed_columns t)"
    unfolding dom_map_of_conv_image_fst u(3) ic by (simp add: saved_table_def)
  moreover have "bind_dat_path env path (saved_table t) = (Inr (), u)"
    using u(1) assms(2) by (simp add: bind_dat_path_def op_simps open_indexes_def)
  ultimately show ?thesis using u(2) by blast
qed

lemma no_null_keys:
  assumes t: "rebuildable mem t" and c: "c \<in> set (indexed_columns t)" and u: "same_rows (old_table t path) u"
  shows "assert_indexed_column_not_null c u = Inr ()"
proof -
  have "\<not> is_null (r ! c)" if "tb_records t i = Some r" for i r
    using t that indexed_typed(2) [OF _ _ c] by (simp add: rebuildable_def rows_ok_def)
  then have "filter (\<lambda>i. case tb_records u i of Some r \<Rightarrow> is_null (r ! c) | None \<Rightarrow> False) (tb_order u) = []"
    by (auto simp: old_tableD [OF u] split: option.splits)
  then show ?thesis by (simp add: assert_indexed_column_not_null_def)
qed

text \<open>The index of one column, from a list of the ids of all rows.\<close>

definition built_from_rows :: "table \<Rightarrow> nat \<Rightarrow> disk_index \<Rightarrow> bool" where
  "built_from_rows t c ix \<longleftrightarrow> index_holds (column_type t c) ix (sort_less (column_entries t (tb_order t) c))"

lemma column_built:
  assumes t: "rebuildable (ie_memory env) t" and env: "fresh_env env" and c: "c \<in> set (indexed_columns t)"
    and rids: "mset rids = mset (tb_order t)"
    and u: "same_rows (old_table t path) u" and new: "map_of (tb_indexes u) c = None"
  shows "\<exists>u'. bulk_index env c (map (\<lambda>i. (the (tb_records u i) ! c, i)) rids) u = (Inr (), u') \<and>
           gives_index (built_from_rows t) c u u'"
proof -
  note E = column_entries_ok [OF t c]
  have entries: "map (\<lambda>i. (the (tb_records u i) ! c, i)) rids = column_entries t rids c"
    by (simp add: column_entries_def old_tableD [OF u])
  have "mset (column_entries t rids c) = mset (column_entries t (tb_order t) c)"
    using rids by (simp add: column_entries_def)
  then have sorted: "sort_less (column_entries t rids c) = sort_less (column_entries t (tb_order t) c)"
    using E(1,2) [of "tb_order t"] by (intro sort_less_unique [where ty = "column_type t c"]) auto
  have "bulk_fits (ie_memory env) (sort_less (column_entries t rids c))"
    using t c by (simp add: sorted rebuildable_def)
  from bulk_index_ok [OF env this E(1) [OF rids] E(2) [OF rids], of c u] obtain ix where
    "bulk_index env c (column_entries t rids c) u = (Inr (), u\<lparr>tb_indexes := tb_indexes u @ [(c, ix)]\<rparr>)"
    "built_from_rows t c ix"
    by (auto simp: sorted built_from_rows_def)
  then show ?thesis
    using new by (intro exI [of _ "u\<lparr>tb_indexes := tb_indexes u @ [(c, ix)]\<rparr>"])
      (auto simp: entries gives_index_def same_rows_def map_add_def fun_eq_iff split: option.split)
qed

lemma rebuild_ok:
  assumes t: "rebuildable (ie_memory env) t" and env: "fresh_env env" and path: "path \<noteq> []"
    and u: "same_rows (old_table t path) u"
  shows "\<exists>u'. rebuild_indexes_on_disk env u = (Inr (), u') \<and> same_rows (old_table t path) u' \<and> table_inv u'"
proof -
  let ?u = "u\<lparr>tb_indexes := []\<rparr>"
  let ?f = "\<lambda>c. bnd (gets id) (\<lambda>t. andthen (of_sum (assert_indexed_column_not_null c t))
             (bulk_index env c (map (\<lambda>i. (the (tb_records t i) ! c, i)) (tb_order t))))"
  have u0: "same_rows (old_table t path) ?u" by (rule same_rows_trans [OF u]) (simp add: same_rows_def)
  have step: "\<exists>v'. ?f c v = (Inr (), v') \<and> gives_index (built_from_rows t) c v v'"
    if v: "same_rows ?u v" "c \<in> set (indexed_columns t)" "map_of (tb_indexes v) c = map_of (tb_indexes ?u) c" for v c
  proof -
    have r: "same_rows (old_table t path) v" using same_rows_trans [OF u0 v(1)] .
    show ?thesis
      using column_built [OF t env v(2) _ r, of "tb_order t"] v(3) no_null_keys [OF t v(2) r]
      by (simp add: op_simps old_tableD [OF r])
  qed
  have "distinct (map id (indexed_columns t))" by (simp add: indexed_columns_def)
  then obtain u' where u': "for_each ?f (indexed_columns t) ?u = (Inr (), u')" "same_rows ?u u'"
    "\<forall>c \<in> set (indexed_columns t). \<exists>ix. map_of (tb_indexes u') c = Some ix \<and> built_from_rows t c ix"
    "\<forall>c. c \<notin> set (indexed_columns t) \<longrightarrow> map_of (tb_indexes u') c = None"
    using build_each [of id "indexed_columns t" ?u ?f "built_from_rows t"] step by auto
  have rows: "same_rows (old_table t path) u'" using same_rows_trans [OF u0 u'(2)] .
  have "dom (map_of (tb_indexes u')) = set (indexed_columns t)" using u'(3,4) by fastforce
  then have "table_inv u'"
    using built_table_inv [OF t path rows] u'(3) by (simp add: built_from_rows_def)
  moreover have "rebuild_indexes_on_disk env u = (Inr (), u')"
    using u'(1) path by (simp add: rebuild_indexes_on_disk_def old_tableD [OF u] andthen_def bnd_def modify_def)
  ultimately show ?thesis using rows by blast
qed

section \<open>Version 2\<close>

text \<open>The index section: how many indexes, and for each its column and its record ids.\<close>

definition section_bytes :: "nat \<times> nat list \<Rightarrow> byte list" where
  "section_bytes x = le_bytes 4 (fst x) @ le_bytes 8 (length (snd x)) @ concat (map (le_bytes 8) (snd x))"

definition index_sections :: "(nat \<times> nat list) list \<Rightarrow> byte list" where
  "index_sections secs = le_bytes 4 (length secs) @ concat (map section_bytes secs)"

text \<open>Every indexed column has a section with the ids of all rows, in any order.\<close>

definition sections_of :: "table \<Rightarrow> (nat \<times> nat list) list \<Rightarrow> bool" where
  "sections_of t secs \<longleftrightarrow> distinct (map fst secs) \<and> fst ` set secs = set (indexed_columns t) \<and>
     (\<forall>x \<in> set secs. mset (snd x) = mset (tb_order t))"

lemma read_nat0_bytes: "k < 256 ^ n \<Longrightarrow> read_nat0 n (le_bytes n k @ bs) = (k, bs)"
  by (simp add: read_nat0_def)

lemma read_ids_bytes: "\<forall>i \<in> set rids. i < 2 ^ 64 \<Longrightarrow> read_ids (length rids) (concat (map (le_bytes 8) rids) @ bs) = (rids, bs)"
  by (induction rids) (simp_all add: read_nat0_bytes)

definition load_section :: "index_env \<Rightarrow> nat \<times> nat list \<Rightarrow> (table, unit) op" where
  "load_section env x =
     bnd (gets id) (\<lambda>t.
     andthen (of_sum (assert_indexed_column_not_null (fst x) t))
       (andthen (modify (\<lambda>t. t\<lparr>tb_indexes := AList.delete (fst x) (tb_indexes t)\<rparr>))
         (bulk_index env (fst x)
            (map (\<lambda>i. (the (tb_records t i) ! fst x, i)) (filter (\<lambda>i. tb_records t i \<noteq> None) (snd x))))))"

lemma load_sections:
  assumes "\<forall>x \<in> set secs. fst x < 2 ^ 32 \<and> length (snd x) < 2 ^ 64 \<and> (\<forall>i \<in> set (snd x). i < 2 ^ 64)"
    and "\<forall>x \<in> set secs. \<forall>u. same_rows t u \<longrightarrow> column_is_indexed u (fst x)"
  shows "load_v2_indexes env (length secs) (concat (map section_bytes secs)) t = for_each (load_section env) secs t"
  using assms
proof (induction secs arbitrary: t)
  case (Cons x secs)
  obtain c rids where x: "x = (c, rids)" by (cases x)
  have c: "c < 256 ^ 4" "length rids < 256 ^ 8" "\<forall>i \<in> set rids. i < 2 ^ 64" using Cons.prems(1) x by simp_all
  have indexed: "column_is_indexed t c" using Cons.prems(2) x by simp
  have read: "read_nat0 4 (concat (map section_bytes (x # secs))) =
      (c, le_bytes 8 (length rids) @ concat (map (le_bytes 8) rids) @ concat (map section_bytes secs))"
    using read_nat0_bytes [OF c(1)] x by (simp add: section_bytes_def)
  obtain q t1 where q: "load_section env x t = (q, t1)" by (cases "load_section env x t")
  have t1: "same_rows t t1"
  proof -
    have "keeps_rows (bulk_index env c es)" for es
      by (auto simp: keeps_rows_def bulk_index_def same_rows_def split: prod.splits sum.splits)
    moreover have "keeps_rows (modify (\<lambda>t. t\<lparr>tb_indexes := AList.delete c (tb_indexes t)\<rparr>))"
      by (simp add: keeps_rows_def modify_def same_rows_def)
    ultimately have "keeps_rows (load_section env x)" unfolding load_section_def x by auto
    then show ?thesis using q by (rule keeps_rowsD)
  qed
  have IH: "load_v2_indexes env (length secs) (concat (map section_bytes secs)) t1 = for_each (load_section env) secs t1"
    using Cons.IH [of t1] Cons.prems same_rows_trans [OF t1] by auto
  have "load_v2_indexes env (length (x # secs)) (concat (map section_bytes (x # secs))) t =
      andthen (load_section env x) (load_v2_indexes env (length secs) (concat (map section_bytes secs))) t"
    unfolding list.size add_0_right add_Suc_right load_v2_indexes.simps read
    using indexed by (simp add: read_nat0_bytes [OF c(2)] read_ids_bytes [OF c(3)] load_section_def x andthen_def bnd_assoc)
      (simp add: andthen_def bnd_def gets_def)
  then show ?case using q IH by (simp add: andthen_def bnd_def split: sum.split)
qed simp

lemma all_ids:
  assumes "rebuildable mem t" and "mset rids = mset (tb_order t)"
  shows "set rids = dom (tb_records t)"
  using assms(1) mset_eq_setD [OF assms(2)] by (simp add: rebuildable_def rows_ok_def)

lemma load_sections_ok:
  assumes t: "rebuildable (ie_memory env) t" and env: "fresh_env env" and path: "path \<noteq> []"
    and secs: "sections_of t secs" and u: "same_rows (old_table t path) u"
    and dom: "dom (map_of (tb_indexes u)) = set (indexed_columns t)"
  shows "\<exists>u'. for_each (load_section env) secs u = (Inr (), u') \<and> same_rows (old_table t path) u' \<and> table_inv u'"
proof -
  have step: "\<exists>v'. load_section env x v = (Inr (), v') \<and> gives_index (built_from_rows t) (fst x) v v'"
    if v: "same_rows u v" "x \<in> set secs" for v x
  proof -
    have r: "same_rows (old_table t path) v" using same_rows_trans [OF u v(1)] .
    have c: "fst x \<in> set (indexed_columns t)" and rids: "mset (snd x) = mset (tb_order t)"
      using secs v(2) by (auto simp: sections_of_def)
    have "set (snd x) = dom (tb_records t)"
      by (rule all_ids [OF t rids])
    then have all: "filter (\<lambda>i. tb_records v i \<noteq> None) (snd x) = snd x"
      unfolding old_tableD [OF r] by (intro filter_True) blast
    let ?w = "v\<lparr>tb_indexes := AList.delete (fst x) (tb_indexes v)\<rparr>"
    have w: "same_rows v ?w" by (simp add: same_rows_def)
    obtain v' where v': "bulk_index env (fst x) (map (\<lambda>i. (the (tb_records ?w i) ! fst x, i)) (snd x)) ?w = (Inr (), v')"
      "gives_index (built_from_rows t) (fst x) ?w v'"
      using column_built [OF t env c rids same_rows_trans [OF r w]] by (auto simp: delete_conv')
    have del: "(map_of (tb_indexes ?w))(fst x \<mapsto> ix) = (map_of (tb_indexes v))(fst x \<mapsto> ix)" for ix
      by (simp add: delete_conv')
    have "gives_index (built_from_rows t) (fst x) v v'"
      using v'(2) same_rows_trans [OF w] unfolding gives_index_def del by blast
    moreover have "load_section env x v = (Inr (), v')"
      using v'(1) no_null_keys [OF t c r] all by (simp add: load_section_def op_simps)
    ultimately show ?thesis by blast
  qed
  obtain u' where u': "for_each (load_section env) secs u = (Inr (), u')" "same_rows u u'"
    "\<forall>c \<in> set (indexed_columns t). \<exists>ix. map_of (tb_indexes u') c = Some ix \<and> built_from_rows t c ix"
    "\<forall>c. c \<notin> set (indexed_columns t) \<longrightarrow> map_of (tb_indexes u') c = map_of (tb_indexes u) c"
    using build_each [of fst secs u "load_section env" "built_from_rows t"] step secs unfolding sections_of_def by auto
  have rows: "same_rows (old_table t path) u'" using same_rows_trans [OF u u'(2)] .
  have "c \<in> dom (map_of (tb_indexes u')) \<longleftrightarrow> c \<in> set (indexed_columns t)" for c
    by (metis dom domIff option.distinct(1) u'(3,4))
  then have "dom (map_of (tb_indexes u')) = set (indexed_columns t)" by (rule set_eqI)
  then have "table_inv u'" using built_table_inv [OF t path rows] u'(3) by (simp add: built_from_rows_def)
  then show ?thesis using u'(1) rows by blast
qed

lemma sections_fit:
  assumes t: "rebuildable mem t" and fits: "storable_table t" and secs: "sections_of t secs"
  shows "length secs < 2 ^ 32"
    and "\<forall>x \<in> set secs. fst x < 2 ^ 32 \<and> length (snd x) < 2 ^ 64 \<and> (\<forall>i \<in> set (snd x). i < 2 ^ 64)"
proof -
  have cols: "c < length (tb_schema t)" if "c \<in> fst ` set secs" for c
    using that secs indexed_columns_bound by (simp add: sections_of_def)
  have n: "length (tb_schema t) < 2 ^ 32" "length (tb_order t) < 2 ^ 64" using fits by (simp_all add: storable_table_def)
  have "length secs = card (fst ` set secs)" using secs by (metis distinct_card length_map set_map sections_of_def)
  also have "\<dots> \<le> card {..<length (tb_schema t)}" by (rule card_mono) (use cols in auto)
  finally show "length secs < 2 ^ 32" using n(1) by simp
  show "\<forall>x \<in> set secs. fst x < 2 ^ 32 \<and> length (snd x) < 2 ^ 64 \<and> (\<forall>i \<in> set (snd x). i < 2 ^ 64)"
  proof
    fix x assume x: "x \<in> set secs"
    then have m: "mset (snd x) = mset (tb_order t)" using secs by (simp add: sections_of_def)
    have "length (snd x) = length (tb_order t)" using m by (rule mset_eq_length)
    moreover have "i < 2 ^ 64" if i: "i \<in> set (snd x)" for i
    proof -
      obtain r where "tb_records t i = Some r" using i unfolding all_ids [OF t m] by blast
      then show ?thesis using fits by (simp add: storable_table_def)
    qed
    moreover have "fst x < length (tb_schema t)" using cols x by blast
    ultimately show "fst x < 2 ^ 32 \<and> length (snd x) < 2 ^ 64 \<and> (\<forall>i \<in> set (snd x). i < 2 ^ 64)"
      using n by simp
  qed
qed

section \<open>Loading\<close>

text \<open>The files of both old versions of a table.\<close>

definition old_file :: "table \<Rightarrow> byte list \<Rightarrow> bool" where
  "old_file t bytes \<longleftrightarrow> bytes = versioned_bytes 1 t \<or>
     (\<exists>secs. sections_of t secs \<and> bytes = versioned_bytes 2 t @ index_sections secs)"

text \<open>C20: A file of version 1 or 2 of a table with unique keys, where there are no index files yet, is
  loaded as the table it was written from, and the indexes that are built for it are in step with
  its rows. The memory must allow the bulk builds, and each must give nodes whose number of keys
  fits the byte it is stored in: keys of ten bytes or more, or at most 256 leaves.\<close>

theorem old_table_loads:
  assumes "rebuildable (ie_memory env) t" and "storable_table t" and "fresh_env env" and "path \<noteq> []"
    and "old_file t bytes"
  shows "\<exists>u. load env path (Some bytes) = Inr u \<and> table_inv u \<and> same_rows ((saved_table t)\<lparr>tb_path := path\<rparr>) u"
proof -
  obtain u where u: "bind_dat_path env path (saved_table t) = (Inr (), u)" "same_rows (old_table t path) u"
    "dom (map_of (tb_indexes u)) = set (indexed_columns t)"
    using bind_old [OF assms(3,4)] by blast
  note read = reads_versioned [OF assms(2), of _ path, unfolded reads_def]
  consider "bytes = versioned_bytes 1 t"
    | secs where "sections_of t secs" "bytes = versioned_bytes 2 t @ index_sections secs"
    using assms(5) by (auto simp: old_file_def)
  then show ?thesis
  proof cases
    case 1
    obtain u' where u': "rebuild_indexes_on_disk env u = (Inr (), u')" "same_rows (old_table t path) u'" "table_inv u'"
      using rebuild_ok [OF assms(1,3,4) u(2)] by blast
    have "read_table path bytes = Inr ((1, saved_table t), [])" using read [of 1] 1 by (metis append_Nil2)
    then have "load env path (Some bytes) = Inr u'"
      using u(1) u'(1) by (simp add: load_def kVersion_def andthen_def bnd_def)
    then show ?thesis using u'(2,3) by blast
  next
    case (2 secs)
    obtain u' where u': "for_each (load_section env) secs u = (Inr (), u')" "same_rows (old_table t path) u'" "table_inv u'"
      using load_sections_ok [OF assms(1,3,4) 2(1) u(2,3)] by blast
    note F = sections_fit [OF assms(1,2) 2(1)]
    have indexed: "column_is_indexed v (fst x)" if "x \<in> set secs" "same_rows u v" for v x
    proof -
      have "fst x \<in> set (indexed_columns v)"
        using that(1) 2(1) old_tableD(4) [OF same_rows_trans [OF u(2) that(2)]] by (auto simp: sections_of_def)
      then show ?thesis by (simp add: indexed_columns_def column_is_indexed_def)
    qed
    have "load_v2_indexes env (length secs) (concat (map section_bytes secs)) u = (Inr (), u')"
      using load_sections [OF F(2), of u env] indexed u'(1) by simp
    moreover have "read_nat0 4 (index_sections secs) = (length secs, concat (map section_bytes secs))"
      using read_nat0_bytes [of "length secs" 4 "concat (map section_bytes secs)"] F(1) by (simp add: index_sections_def)
    moreover have "read_table path bytes = Inr ((2, saved_table t), index_sections secs)" using read [of 2] 2(2) by simp
    ultimately have "load env path (Some bytes) = Inr u'"
      using u(1) by (simp add: load_def kVersion_def andthen_def bnd_def)
    then show ?thesis using u'(2,3) by blast
  qed
qed

text \<open>The table with one row, as an older version wrote it.\<close>

lemma people1_rebuildable: "rebuildable no_limit people1" "storable_table people1"
proof -
  let ?kvs = "[(VInt 7, 1)] :: (Value \<times> nat) list"
  have cols: "set (indexed_columns people1) = {0}"
    using people1_ok(5) by (auto simp: indexed_columns_def id_column_def name_column_def)
  have "validate_bulk_build_input no_limit ?kvs = Inr ()"
    by (rule no_limit_valid [where ty = TInt]) (simp add: kMaxIndexKeyBytes_def)
  moreover have "counts_fit ?kvs" by (rule few_counts_fit [where ty = TInt]) (simp_all add: kMaxIndexKeyBytes_def)
  moreover have "sort_less (column_entries people1 (tb_order people1) 0) = ?kvs"
    using people1_ok(3,4) by (simp add: column_entries_def sort_less_def)
  ultimately have "bulk_fits no_limit (sort_less (column_entries people1 (tb_order people1) 0))" by (simp add: bulk_fits_def)
  moreover have "unique_column people1 0" using people1_ok(3) by (simp add: unique_column_def)
  ultimately show "rebuildable no_limit people1" using people1_ok(2) cols by (simp add: rebuildable_def table_inv_def)
  show "storable_table people1"
    using people1_ok(3-7)
    by (auto simp: storable_table_def storable_column_def id_column_def name_column_def short_string_def)
qed

lemma old_table_loads_witness:
  "\<exists>u v. load (no_files no_limit) ''d/people.dat'' (Some (versioned_bytes 1 people1)) = Inr u \<and> tb_records u = [1 \<mapsto> bob] \<and>
     load (no_files no_limit) ''d/people.dat'' (Some (versioned_bytes 2 people1 @ index_sections [(0, [1])])) = Inr v \<and>
     tb_records v = [1 \<mapsto> bob] \<and> table_inv u \<and> table_inv v"
proof -
  have cols: "set (indexed_columns people1) = {0}"
    using people1_ok(5) by (auto simp: indexed_columns_def id_column_def name_column_def)
  have "sections_of people1 [(0, [1])]" using cols people1_ok(4) by (simp add: sections_of_def)
  then have files: "old_file people1 (versioned_bytes 1 people1)"
    "old_file people1 (versioned_bytes 2 people1 @ index_sections [(0, [1])])"
    unfolding old_file_def by blast+
  have env: "rebuildable (ie_memory (no_files no_limit)) people1" using people1_rebuildable(1) by (simp add: no_files_def)
  note load = old_table_loads [OF env people1_rebuildable(2) no_files_fresh, of "''d/people.dat''"]
  obtain u where "load (no_files no_limit) ''d/people.dat'' (Some (versioned_bytes 1 people1)) = Inr u" "table_inv u"
    "same_rows ((saved_table people1)\<lparr>tb_path := ''d/people.dat''\<rparr>) u"
    using load [OF _ files(1)] by blast
  moreover obtain v where
    "load (no_files no_limit) ''d/people.dat'' (Some (versioned_bytes 2 people1 @ index_sections [(0, [1])])) = Inr v"
    "table_inv v" "same_rows ((saved_table people1)\<lparr>tb_path := ''d/people.dat''\<rparr>) v"
    using load [OF _ files(2)] by blast
  ultimately show ?thesis using people1_ok(3) old_tableD(1) by (metis (no_types))
qed

end
