(* ===== verification/Spec2Isabelle.thy ===== *)
theory Spec2Isabelle
  imports PageFile Data_Results Index_Results Bulk_Results Table_Results Sql_Results
    Change_Results Front_Results Parser_Results Program_Results TableRebuild
begin

text \<open>
  A model of cw_db, a small SQL database system in C++, from its page cache up to its statements.

  The parts and how they interact. \<open>run_query\<close> and \<open>execute\<close> (src/sql/executor.cpp) take a
  statement, resolve its database in the \<open>Dbms\<close> (src/core/dbms.cpp), work on a \<open>Table\<close>
  (src/storage/table.cpp) and save the \<open>Database\<close> (src/storage/database.cpp). A table keeps its
  records in memory and one \<open>DiskBspIndex\<close> (src/storage/disk_bsp_index.cpp) per indexed column:
  a B+ tree of encoded keys in a file of 4096-byte pages, page 0 a superblock, every other page a
  node. A \<open>Pager\<close> (src/storage/pager.cpp) keeps such a file behind a write-back cache. Keys are
  values (core/value.h), integers of 64 bits or strings of a pool (core/string_pool.h), written
  in the encoding of storage/value_io.h. A bulk build is guarded by an estimate of its memory
  (src/storage/bulk_build_guard.cpp).

  How the model is laid out. \<open>Prelude\<close> has the state-and-error operations, their weakest
  preconditions, and bytes in memory.

  Storage: \<open>FileStream\<close>, \<open>Pager\<close> and \<open>PageFile\<close> model the stream, the pager, and what it
  promises: the answers of a list of pages. \<open>StringPool\<close>, \<open>Values\<close> and \<open>ValueIO\<close> model the
  data, \<open>IndexPage\<close> the nodes and their page images, \<open>DiskIndex\<close> the object and its file,
  \<open>IndexSearch\<close>, \<open>IndexInsert\<close>, \<open>IndexErase\<close>, \<open>BulkGuard\<close> and \<open>IndexBulk\<close> the operations.
  \<open>IndexTree\<close> has the tree an index file stands for, \<open>NodeStore\<close> the view of the file as a map
  from page ids to nodes. The proofs about an operation are in the theory of the same name with
  \<open>_Correct\<close>, with \<open>IndexUpdate\<close>, \<open>IndexInsert_Full\<close> and \<open>IndexReopen\<close>; \<open>Index_Contract\<close> puts
  them together as the interface \<open>KeyIndex\<close>. \<open>Index_Erasable\<close> adds erasure.

  Tables: \<open>Schema\<close>, \<open>Table\<close> and \<open>TableFile\<close> model the columns, the object with its constraints
  and its operations, and the file with its three versions. \<open>Table_Correct\<close> has the invariant
  (every index holds exactly the values of its column with the ids of their rows) and what
  insertion does, \<open>Table_Change\<close> what erasing and updating a row do, \<open>TableFile_Correct\<close> that reading is the inverse of writing, \<open>TableReopen\<close> that
  a saved table is loaded again, \<open>TableRebuild\<close> that tables in the older versions of the file, whose
  indexes are built from the rows, are loaded with their indexes in step.

  Statements: \<open>Ast\<close>, \<open>Where\<close>, \<open>Aggregates\<close> and \<open>Executor\<close> model src/sql/executor.cpp and
  include/sql/ast.h, \<open>Database\<close> and \<open>Dbms\<close> what holds the tables. \<open>Where_Correct\<close> compares the
  WHERE clause with three-valued logic and the rows an index offers with those the clause
  selects, \<open>Executor_Correct\<close> and \<open>Select_Correct\<close> follow the loops over rows, \<open>Database_Correct\<close>
  the directory, and \<open>Statement_Correct\<close> a statement from its database to its file.
  \<open>Change_Correct\<close> has the loops of DELETE and UPDATE, \<open>Typing\<close> that no statement stores a value
  that does not fit its column.

  Programs: \<open>Splitter\<close> models how src/apps/main.cpp and src/apps/client_main.cpp cut their input
  into statements, \<open>LocalProgram\<close> the rest of main.cpp, \<open>AccessLog\<close> and \<open>Telemetry\<close>
  src/net/logger.cpp and src/net/telemetry.cpp, \<open>Server\<close> the handlers of src/net/server.cpp and
  the start of src/apps/server_main.cpp, \<open>HttpClient\<close> the rest of client_main.cpp. \<open>Splitter_Correct\<close> compares the splitter with a description of the text of a
  statement, \<open>Telemetry_Correct\<close> the window with all requests, \<open>HttpClient_Correct\<close> follows an
  answer through the network, and \<open>Remote\<close> a query from the client to the server and back.

  The text of statements: \<open>Regex\<close> has regular expressions, their longest matches and the choice of
  a rule, as flex makes it; \<open>Scanner\<close> the rules of src/sql/grammar/sql.l and what they do; \<open>Grammar\<close>
  the productions of src/sql/grammar/sql.y as relations between token lists and values, \<open>Descent\<close> a
  parser for them that can be run, with the errors of its actions, and \<open>yyparse\<close>; \<open>SqlParser\<close>
  src/sql/parser.cpp. \<open>Grammar_Correct\<close> shows that parser and grammar accept the same, through an
  interface \<open>reader\<close> that every nonterminal provides, \<open>Scanner_Correct\<close> that tokens in any of their
  spellings, with any blanks and comments between them, are scanned back, \<open>SqlText\<close> that statements are written and read back, \<open>Script\<close> what the local
  program does with a script of them.

  The results are in \<open>PageFile\<close>, \<open>Data_Results\<close>, \<open>Index_Results\<close>, \<open>Bulk_Results\<close>, \<open>Table_Results\<close>,
  \<open>Sql_Results\<close>, \<open>Change_Results\<close>, \<open>Parser_Results\<close>, \<open>Program_Results\<close>, \<open>TableRebuild\<close>
  and \<open>Front_Results\<close>. \<open>Program_Results\<close> has what a sequence of statements cannot prevent: every statement
  is answered, except for the ends of the program it names (undefined behaviour, and a line of the
  access log that the JSON library refuses), a database that is not dropped can be used, and is
  changed by its own statements only.

  Interfaces. \<open>page_store\<close> (theory \<open>PageStore\<close>) is what a client may assume of numbered pages;
  the pager provides it, the index provides it again for nodes, extended by allocation as
  \<open>node_store\<close>. \<open>codec\<close> (theory \<open>Codec\<close>) is a self-delimiting encoding, provided by the keys of
  an index and by the values of a table's file. \<open>key_index\<close> (theory \<open>KeyIndex\<close>) is what a table
  assumes of an index: looking up, adding, scanning a range; the disk index provides it.
  \<open>erasable_index\<close> extends it by removing a key. Erasing may add a node (two siblings that do not
  fit one page become three), so its laws carry a budget: an index that can spare \<open>Suc j\<close> for keys
  of \<open>n\<close> bytes spares \<open>j\<close> after one was removed, and one that can spare \<open>j + 2\<close> spares \<open>j\<close> after one was added.

  Bounds and fuel. Descents and iterations carry a number of steps that is at least the number
  of pages, or of pages times the largest leaf; the theorems show it is never used up. Page ids
  stay below \<open>2 ^ 32\<close> and record ids below \<open>2 ^ 64\<close>, as hypotheses say. A key that \<open>room\<close> admits
  fits its leaf, or a split its parent can take: splitting a full inner root always fails, as
  \<open>full_inner_root_cannot_split\<close> shows. For erasure \<open>spares\<close> says the same, and it bounds what is shown
  of DELETE and UPDATE: at most two levels, keys of one size, and a root with room for the leaves
  still to come. Room is a number of children, at most 256, with one for each removed key; or, when
  every leaf has its share (a third of what overflows a page, which splits and redistributions
  leave), a number of entries: an index of integers spares while entries and changes are at most
  18175 together. Beyond that an erasure can fail, as redistribute_leaf_pair asks for no room.

  Parameters. \<open>std::regex\<close>, writing and reading the text of a JSON value (nlohmann; writing can be
  refused, and what the program does then is part of the theorems), the words of
  a syntax error, which bison makes from its tables, the network between client and server (Crow and the sockets), the
  readings of the clocks, the environment variable and /proc/meminfo of the bulk build, the faults of a device
  and which files can be opened are arguments. Directories can be created and files renamed. An
  \<open>unordered_map\<close> is a list; nothing that is shown depends on its order. \<open>long double\<close> is the
  format of x86-64.

  The executor, the server and the client take any parser as an argument; \<open>sql_parse\<close> is the one of
  the program. bison resolves the conflict between the two readings of NULL as it documents, for
  the production that comes first. The bound of a list in \<open>Descent\<close> is the number of tokens left,
  that of nested parentheses one more than the number of tokens; \<open>text_is_parsed_by_grammar\<close> shows
  that both are enough.

  Not modelled: the limit of 10000 on the stack of the generated parser, and of the
  server its threads, signals and the printing of snapshots. The mutex is not modelled: \<open>execute\<close>
  holds it from beginning to end. What erasure does in a tree of more than two levels is not shown:
  insertion never makes one, as a full inner root cannot be split, a bulk build may.
\<close>

end
